(* ===== verification/Prelude.thy ===== *)
theory Prelude
  imports Main "HOL-Library.Word"
begin

unbundle bit_operations_syntax

text \<open>
  Shared vocabulary of the development: C strings, the parts of the C library the services
  call (ctype, strchr, strcspn, strspn, strtok, strtol), buffers with checked writes, 32-bit
  integer wrap-around, decimal printing, and the generic list lemmas the components use.

  A C string is a value of type string (a list of 8-bit characters) in which the terminating
  NUL is implicit: the empty list is the position of the NUL, so testing the current
  character against 0 is testing the list for emptiness.  The predicate \<open>cstring\<close> says that no NUL occurs
  inside.  The execution character set is ASCII, the locale is "C", char is signed, int is
  32 bits and long and size_t are 64 bits, as on the x86-64 systems the services run on.
\<close>

named_theorems cstr_simps \<open>rewrite rules for the C string library\<close>
named_theorems buf_simps \<open>rewrite rules for checked buffer writes\<close>

section \<open>Characters\<close>

type_synonym cstr = string

abbreviation nul :: char where
  "nul \<equiv> CHR 0x00"

abbreviation ord :: "char \<Rightarrow> nat" where
  "ord c \<equiv> of_char c"

text \<open>The value of a (signed) char as an int.\<close>

definition schar :: "char \<Rightarrow> int" where
  "schar c = (if ord c < 128 then int (ord c) else int (ord c) - 256)"

definition isupper :: "char \<Rightarrow> bool" where
  "isupper c \<longleftrightarrow> 65 \<le> ord c \<and> ord c \<le> 90"

definition islower :: "char \<Rightarrow> bool" where
  "islower c \<longleftrightarrow> 97 \<le> ord c \<and> ord c \<le> 122"

definition isalpha :: "char \<Rightarrow> bool" where
  "isalpha c \<longleftrightarrow> isupper c \<or> islower c"

definition isdigit :: "char \<Rightarrow> bool" where
  "isdigit c \<longleftrightarrow> 48 \<le> ord c \<and> ord c \<le> 57"

text \<open>The six white-space characters of the C locale: space, \<open>\t\<close>, \<open>\n\<close>, \<open>\v\<close>, \<open>\f\<close>, \<open>\r\<close>.\<close>

definition isspace :: "char \<Rightarrow> bool" where
  "isspace c \<longleftrightarrow> ord c = 32 \<or> (9 \<le> ord c \<and> ord c \<le> 13)"

lemma char_of_ord_add: "ord c + k < 256 \<Longrightarrow> ord (char_of (ord c + k)) = ord c + k"
  by (simp add: of_char_of)

section \<open>C strings\<close>

definition cstring :: "cstr \<Rightarrow> bool" where
  "cstring s \<longleftrightarrow> nul \<notin> set s"

text \<open>The character a pointer into the string points at: NUL at the end.\<close>

definition hd0 :: "cstr \<Rightarrow> char" where
  "hd0 s = (case s of [] \<Rightarrow> nul | c # _ \<Rightarrow> c)"

lemma hd0_simps [simp, cstr_simps]: "hd0 [] = nul" "hd0 (c # s) = c"
  by (simp_all add: hd0_def)

lemma cstring_simps [simp, cstr_simps]:
  "cstring []" "cstring (c # s) \<longleftrightarrow> c \<noteq> nul \<and> cstring s"
  "cstring (s @ t) \<longleftrightarrow> cstring s \<and> cstring t"
  by (auto simp: cstring_def)

lemma cstring_take [intro]: "cstring s \<Longrightarrow> cstring (take n s)"
  by (auto simp: cstring_def dest: in_set_takeD)

lemma cstring_drop [intro]: "cstring s \<Longrightarrow> cstring (drop n s)"
  by (auto simp: cstring_def dest: in_set_dropD)

lemma hd0_nul [simp]: "cstring s \<Longrightarrow> hd0 s = nul \<longleftrightarrow> s = []"
  by (cases s) auto

text \<open>\<open>strchr(s, c)\<close> for a non-NUL character: the suffix that starts at the first \<open>c\<close>.\<close>

definition strchr :: "cstr \<Rightarrow> char \<Rightarrow> cstr option" where
  "strchr s c = (if c \<in> set s then Some (dropWhile (\<lambda>d. d \<noteq> c) s) else None)"

definition strcspn :: "cstr \<Rightarrow> cstr \<Rightarrow> nat" where
  "strcspn s reject = length (takeWhile (\<lambda>c. c \<notin> set reject) s)"

definition strspn :: "cstr \<Rightarrow> cstr \<Rightarrow> nat" where
  "strspn s accept = length (takeWhile (\<lambda>c. c \<in> set accept) s)"

text \<open>Advancing a pointer by \<open>strcspn\<close>: the rest of the string.\<close>

abbreviation skip_to :: "cstr \<Rightarrow> cstr \<Rightarrow> cstr" where
  "skip_to s reject \<equiv> drop (strcspn s reject) s"

lemma skip_to_dropWhile [cstr_simps]: "skip_to s r = dropWhile (\<lambda>c. c \<notin> set r) s"
  by (simp add: strcspn_def dropWhile_eq_drop)

lemma length_skip_to: "length (skip_to s r) \<le> length s"
  by simp

lemma skip_to_stop: "skip_to s r = [] \<or> hd (skip_to s r) \<in> set r"
  unfolding skip_to_dropWhile
  using hd_dropWhile [of "\<lambda>c. c \<notin> set r" s] by blast

lemma strspn_all: "strspn s a = length s \<longleftrightarrow> set s \<subseteq> set a"
proof -
  have "length (takeWhile P s) = length s \<longleftrightarrow> (\<forall>c\<in>set s. P c)" for P
    by (metis takeWhile_eq_all_conv takeWhile_eq_take take_all_iff order_refl)
  then show ?thesis by (auto simp: strspn_def)
qed

text \<open>
  \<open>strtok(s, delim)\<close> and its continuation \<open>strtok(NULL, delim)\<close>: both skip leading delimiters
  and cut the token at the next one.  The result is the token, if any is left, and the text
  at which the next call resumes.
\<close>

definition strtok :: "cstr \<Rightarrow> cstr \<Rightarrow> cstr option \<times> cstr" where
  "strtok s delim =
     (let s' = dropWhile (\<lambda>c. c \<in> set delim) s
      in if s' = [] then (None, [])
         else (Some (takeWhile (\<lambda>c. c \<notin> set delim) s'),
               tl (dropWhile (\<lambda>c. c \<notin> set delim) s')))"

lemma strtok_nonempty: "strtok s d = (Some t, r) \<Longrightarrow> t \<noteq> []"
  by (auto simp: strtok_def Let_def split: if_splits)
    (metis (mono_tags, lifting) dropWhile_eq_Nil_conv hd_dropWhile takeWhile.simps(2)
      list.collapse list.distinct(1))

lemma strtok_nodelim: "strtok s d = (Some t, r) \<Longrightarrow> set t \<inter> set d = {}"
  by (auto simp: strtok_def Let_def split: if_splits dest: set_takeWhileD)

section \<open>Fixed-width integers\<close>

definition wrap32 :: "int \<Rightarrow> int" where
  "wrap32 x = (x + 2 ^ 31) mod 2 ^ 32 - 2 ^ 31"

definition to_uint32 :: "int \<Rightarrow> nat" where
  "to_uint32 x = nat (x mod 2 ^ 32)"

lemma wrap32_id [simp]: "- (2 ^ 31) \<le> x \<Longrightarrow> x < 2 ^ 31 \<Longrightarrow> wrap32 x = x"
  by (simp add: wrap32_def)

lemma wrap32_range: "- (2 ^ 31) \<le> wrap32 x \<and> wrap32 x < 2 ^ 31"
proof -
  have "0 \<le> (x + 2 ^ 31) mod (2 ^ 32 :: int)" and "(x + 2 ^ 31) mod (2 ^ 32 :: int) < 2 ^ 32"
    by simp_all
  then show ?thesis unfolding wrap32_def by simp
qed

lemma to_uint32_id [simp]: "0 \<le> x \<Longrightarrow> x < 2 ^ 32 \<Longrightarrow> to_uint32 x = nat x"
  by (simp add: to_uint32_def)

lemma to_uint32_less: "to_uint32 x < 2 ^ 32"
proof -
  have "x mod (2 ^ 32) < (2 ^ 32 :: int)" by simp
  then show ?thesis unfolding to_uint32_def by simp
qed

section \<open>Decimal numbers\<close>

definition digit_char :: "nat \<Rightarrow> char" where
  "digit_char d = char_of (48 + d)"

definition digit_val :: "char \<Rightarrow> nat" where
  "digit_val c = ord c - 48"

text \<open>What \<open>%d\<close> and \<open>%u\<close> print for a non-negative number.\<close>

fun showd :: "nat \<Rightarrow> cstr" where
  "showd n = (if n < 10 then [digit_char n] else showd (n div 10) @ [digit_char (n mod 10)])"

declare showd.simps [simp del]

definition show_int :: "int \<Rightarrow> cstr" where
  "show_int i = (if i < 0 then CHR ''-'' # showd (nat (- i)) else showd (nat i))"

text \<open>The value of a run of digits, most significant first.\<close>

definition dval :: "cstr \<Rightarrow> nat" where
  "dval ds = foldl (\<lambda>a c. 10 * a + digit_val c) 0 ds"

text \<open>
  \<open>strtol(s, &s, 10)\<close>: optional white space, an optional sign, digits; the value is clamped to
  the range of long, and with no digits the value is 0 and the end pointer is \<open>s\<close> itself.
\<close>

definition long_clamp :: "int \<Rightarrow> int" where
  "long_clamp x = max (- (2 ^ 63)) (min (2 ^ 63 - 1) x)"

definition strtol :: "cstr \<Rightarrow> int \<times> cstr" where
  "strtol s =
     (let s1 = dropWhile isspace s;
          neg = (hd0 s1 = CHR ''-'');
          s2 = (if hd0 s1 = CHR ''-'' \<or> hd0 s1 = CHR ''+'' then tl s1 else s1);
          ds = takeWhile isdigit s2
      in if ds = [] then (0, s)
         else (long_clamp (if neg then - int (dval ds) else int (dval ds)), dropWhile isdigit s2))"

definition atoi :: "cstr \<Rightarrow> int" where
  "atoi s = wrap32 (fst (strtol s))"

text \<open>
  \<open>strtoul(s, &s, 10)\<close>: the value is that of the digits, negated modulo the word size after a
  minus sign, and the largest unsigned long if the digits exceed it; \<open>strtou\<close> is its assignment
  to an unsigned int.
\<close>

definition strtoul :: "cstr \<Rightarrow> nat \<times> cstr" where
  "strtoul s =
     (let s1 = dropWhile isspace s;
          s2 = (if hd0 s1 = CHR ''-'' \<or> hd0 s1 = CHR ''+'' then tl s1 else s1);
          ds = takeWhile isdigit s2;
          v = dval ds
      in if ds = [] then (0, s)
         else (if 2 ^ 64 \<le> v then 2 ^ 64 - 1 else if hd0 s1 = CHR ''-'' then (2 ^ 64 - v) mod 2 ^ 64 else v,
               dropWhile isdigit s2))"

definition strtou :: "cstr \<Rightarrow> nat \<times> cstr" where
  "strtou s = (case strtoul s of (v, r) \<Rightarrow> (v mod 2 ^ 32, r))"

lemma isdigit_digit_char: "d < 10 \<Longrightarrow> isdigit (digit_char d)"
  by (simp add: isdigit_def digit_char_def of_char_of)

lemma digit_val_digit_char [simp]: "d < 10 \<Longrightarrow> digit_val (digit_char d) = d"
  by (simp add: digit_val_def digit_char_def of_char_of)

lemma dval_snoc [simp]: "dval (ds @ [c]) = 10 * dval ds + digit_val c"
  by (simp add: dval_def)

lemma dval_Nil [simp]: "dval [] = 0"
  by (simp add: dval_def)

lemma dval_single [simp]: "dval [c] = digit_val c"
  by (simp add: dval_def)

lemma showd_nonempty [simp]: "showd n \<noteq> []"
  by (subst showd.simps) simp

lemma showd_digits: "list_all isdigit (showd n)"
proof (induction n rule: showd.induct)
  case (1 n)
  then show ?case by (subst showd.simps) (auto simp: isdigit_digit_char)
qed

lemma dval_showd [simp]: "dval (showd n) = n"
proof (induction n rule: showd.induct)
  case (1 n)
  then show ?case by (subst showd.simps) auto
qed

lemma isdigit_not_space: "isdigit c \<Longrightarrow> \<not> isspace c"
  by (auto simp: isdigit_def isspace_def)

lemma isdigit_not_sign: "isdigit c \<Longrightarrow> c \<noteq> CHR ''-'' \<and> c \<noteq> CHR ''+''"
  by (auto simp: isdigit_def)

lemma takeWhile_all_then:
  "list_all P xs \<Longrightarrow> ys = [] \<or> \<not> P (hd ys) \<Longrightarrow> takeWhile P (xs @ ys) = xs"
  by (induction xs) (auto simp: takeWhile_eq_Nil_iff)

lemma dropWhile_all_then:
  "list_all P xs \<Longrightarrow> ys = [] \<or> \<not> P (hd ys) \<Longrightarrow> dropWhile P (xs @ ys) = ys"
  by (induction xs) (auto simp: dropWhile_eq_self_iff)

lemma length_strtol: "strtol s = (v, r) \<Longrightarrow> length r \<le> length s"
proof -
  have "length (dropWhile isdigit (tl (dropWhile isspace s))) \<le> length s"
    and "length (dropWhile isdigit (dropWhile isspace s)) \<le> length s"
    by (metis (no_types, lifting) length_dropWhile_le length_tl diff_le_self le_trans)+
  then show "strtol s = (v, r) \<Longrightarrow> length r \<le> length s"
    by (auto simp: strtol_def Let_def split: if_splits)
qed

text \<open>Reading back a printed number, whatever non-digit text follows it.\<close>

lemma strtol_showd:
  assumes "n < 2 ^ 63" and "r = [] \<or> \<not> isdigit (hd r)"
  shows "strtol (showd n @ r) = (int n, r)"
proof -
  obtain c ds where sd: "showd n = c # ds" by (cases "showd n") auto
  then have dig: "isdigit c" "list_all isdigit (c # ds)"
    using showd_digits [of n] by auto
  have 1: "dropWhile isspace (c # ds @ r) = c # ds @ r"
    using dig by (simp add: isdigit_not_space)
  have 2: "takeWhile isdigit (c # ds @ r) = c # ds" "dropWhile isdigit (c # ds @ r) = r"
    using takeWhile_all_then [OF dig(2) assms(2)] dropWhile_all_then [OF dig(2) assms(2)]
    by simp_all
  have 3: "dval (c # ds) = n" using dval_showd [of n] sd by simp
  show ?thesis
    unfolding strtol_def Let_def sd append_Cons 1
    using dig 2 3 assms(1) isdigit_not_sign [of c] by (simp add: long_clamp_def)
qed

lemma strtou_showd:
  assumes "n < 2 ^ 32" and "r = [] \<or> \<not> isdigit (hd r)"
  shows "strtou (showd n @ r) = (n, r)"
proof -
  obtain c ds where sd: "showd n = c # ds" by (cases "showd n") auto
  then have dig: "isdigit c" "list_all isdigit (c # ds)"
    using showd_digits [of n] by auto
  have 1: "dropWhile isspace (c # ds @ r) = c # ds @ r"
    using dig by (simp add: isdigit_not_space)
  have 2: "takeWhile isdigit (c # ds @ r) = c # ds" "dropWhile isdigit (c # ds @ r) = r"
    using takeWhile_all_then [OF dig(2) assms(2)] dropWhile_all_then [OF dig(2) assms(2)]
    by simp_all
  have 3: "dval (c # ds) = n" using dval_showd [of n] sd by simp
  have "n < 2 ^ 64" using assms(1) by simp
  then show ?thesis
    unfolding strtou_def strtoul_def Let_def sd append_Cons 1
    using dig 2 3 assms(1) isdigit_not_sign [of c] by simp
qed

lemma length_strtou: "strtou s = (v, r) \<Longrightarrow> length r \<le> length s"
proof -
  have "length (dropWhile isdigit (tl (dropWhile isspace s))) \<le> length s"
    and "length (dropWhile isdigit (dropWhile isspace s)) \<le> length s"
    by (metis (no_types, lifting) length_dropWhile_le length_tl diff_le_self le_trans)+
  then show "strtou s = (v, r) \<Longrightarrow> length r \<le> length s"
    by (auto simp: strtou_def strtoul_def Let_def split: if_splits)
qed

lemma strtol_Nil [simp]: "strtol [] = (0, [])"
  by (simp add: strtol_def)

section \<open>Buffers with checked writes\<close>

text \<open>
  A fixed-size array is a list; a write outside it is None, so that a theorem that an
  operation returns Some is a memory-safety theorem.
\<close>

definition wr :: "'a list \<Rightarrow> nat \<Rightarrow> 'a \<Rightarrow> 'a list option" where
  "wr b i x = (if i < length b then Some (b[i := x]) else None)"

definition wrs :: "'a list \<Rightarrow> nat \<Rightarrow> 'a list \<Rightarrow> 'a list option" where
  "wrs b i xs = (if i + length xs \<le> length b
                 then Some (take i b @ xs @ drop (i + length xs) b) else None)"

text \<open>The C string stored at the start of a buffer.\<close>

definition cstr_of :: "char list \<Rightarrow> cstr" where
  "cstr_of b = takeWhile (\<lambda>c. c \<noteq> nul) b"

lemma wr_Some [buf_simps]: "i < length b \<Longrightarrow> wr b i x = Some (b[i := x])"
  by (simp add: wr_def)

lemma wrs_Some [buf_simps]:
  "i + length xs \<le> length b \<Longrightarrow> wrs b i xs = Some (take i b @ xs @ drop (i + length xs) b)"
  by (simp add: wrs_def)

lemma wr_length: "wr b i x = Some b' \<Longrightarrow> length b' = length b"
  by (auto simp: wr_def split: if_splits)

lemma wrs_length: "wrs b i xs = Some b' \<Longrightarrow> length b' = length b"
  by (auto simp: wrs_def split: if_splits)

lemma cstr_of_append: "cstring s \<Longrightarrow> cstr_of (s @ nul # t) = s"
  by (induction s) (auto simp: cstr_of_def)

section \<open>List lemmas\<close>

lemma takeWhile_append_stop: "\<not> P y \<Longrightarrow> list_all P xs \<Longrightarrow> takeWhile P (xs @ y # ys) = xs"
  by (induction xs) auto

lemma remove1_filter_distinct: "distinct xs \<Longrightarrow> remove1 x xs = filter (\<lambda>y. y \<noteq> x) xs"
  by (simp add: distinct_remove1_removeAll removeAll_filter_not_eq eq_commute)

lemma find_Some_set: "find P xs = Some x \<Longrightarrow> x \<in> set xs \<and> P x"
  by (auto simp: find_Some_iff)

end
