(* ===== verification/Misc.thy ===== *)
theory Misc
  imports Prelude
begin

text \<open>
  The string and time utilities of src/src/misc.c: case folding, the comparison of nicknames,
  the bounded copy, substring search, argument merging, number lists, time strings, random
  strings and rot13.  Loops over a string are recursions on the rest of the string; writes to
  memory go through the checked writes of the prelude.
\<close>

named_theorems fold_simps \<open>case folding\<close>

section \<open>Case folding\<close>

definition toupper :: "char \<Rightarrow> char" where
  "toupper c = (if islower c then char_of (ord c - 32) else c)"

definition tolower :: "char \<Rightarrow> char" where
  "tolower c = (if isupper c then char_of (ord c + 32) else c)"

text \<open>The RFC 1459 variants: the brackets are letters too.\<close>

definition irc_toupper :: "char \<Rightarrow> char" where
  "irc_toupper c =
     (if (97 \<le> ord c \<and> ord c \<le> 122) \<or> (123 \<le> ord c \<and> ord c \<le> 125)
      then char_of (ord c - 32) else c)"

definition irc_tolower :: "char \<Rightarrow> char" where
  "irc_tolower c =
     (if (65 \<le> ord c \<and> ord c \<le> 90) \<or> (91 \<le> ord c \<and> ord c \<le> 93)
      then char_of (ord c + 32) else c)"

definition strupper :: "cstr \<Rightarrow> cstr" where
  "strupper s = map toupper s"

definition strlower :: "cstr \<Rightarrow> cstr" where
  "strlower s = map tolower s"

lemma ord_tolower [fold_simps]: "ord (tolower c) = (if isupper c then ord c + 32 else ord c)"
  by (auto simp: tolower_def isupper_def char_of_ord_add)

lemma ord_toupper [fold_simps]: "ord (toupper c) = (if islower c then ord c - 32 else ord c)"
  by (auto simp: toupper_def islower_def of_char_of)

lemma ord_zero [simp]: "ord c = 0 \<longleftrightarrow> c = nul"
proof -
  have "ord nul = 0" by simp
  then show ?thesis by (metis of_char_eq_iff)
qed

lemma tolower_nul [simp]: "tolower c = nul \<longleftrightarrow> c = nul"
proof -
  have "ord (tolower c) = 0 \<longleftrightarrow> ord c = 0" by (auto simp: ord_tolower isupper_def)
  then show ?thesis by simp
qed

lemma tolower_of_nul [simp]: "tolower nul = nul"
  by simp

lemma tolower_idem [simp]: "tolower (tolower c) = tolower c"
proof -
  have "ord (tolower (tolower c)) = ord (tolower c)"
    by (auto simp: ord_tolower isupper_def)
  then show ?thesis by simp
qed

text \<open>\<open>tolower\<close> undoes \<open>toupper\<close> up to case, so the two foldings identify the same strings.\<close>

lemma tolower_toupper [simp]: "tolower (toupper c) = tolower c"
proof -
  have "ord (tolower (toupper c)) = ord (tolower c)"
    by (auto simp: ord_tolower ord_toupper isupper_def islower_def)
  then show ?thesis by simp
qed

section \<open>Comparison of nicknames\<close>

text \<open>
  \<open>irc_stricmp\<close> walks both strings while the folded characters agree; at the end of a string
  the current character is NUL.
\<close>

function irc_stricmp :: "cstr \<Rightarrow> cstr \<Rightarrow> int" where
  "irc_stricmp s1 s2 =
     (let c = tolower (hd0 s1)
      in if c = tolower (hd0 s2)
         then (if c = nul then 0 else irc_stricmp (tl s1) (tl s2))
         else if ord c < ord (tolower (hd0 s2)) then -1 else 1)"
  by pat_completeness auto
termination
proof (relation "measure (\<lambda>(s1, s2). length s1)", goal_cases)
  case (2 s1 s2 x)
  then have "s1 \<noteq> []" by auto
  then show ?case by simp
qed simp

declare irc_stricmp.simps [simp del]

text \<open>The reference order: lexicographic on the folded byte values.\<close>

definition fold_ords :: "cstr \<Rightarrow> nat list" where
  "fold_ords s = map (\<lambda>c. ord (tolower c)) s"

fun lex_cmp :: "nat list \<Rightarrow> nat list \<Rightarrow> int" where
  "lex_cmp [] [] = 0"
| "lex_cmp [] (y # ys) = -1"
| "lex_cmp (x # xs) [] = 1"
| "lex_cmp (x # xs) (y # ys) = (if x = y then lex_cmp xs ys else if x < y then -1 else 1)"

lemma lex_cmp_zero: "lex_cmp xs ys = 0 \<longleftrightarrow> xs = ys"
  by (induction xs ys rule: lex_cmp.induct) auto

lemma lex_cmp_range: "lex_cmp xs ys = 0 \<or> lex_cmp xs ys = -1 \<or> lex_cmp xs ys = 1"
  by (induction xs ys rule: lex_cmp.induct) simp_all

lemma lex_cmp_anti: "lex_cmp ys xs = - lex_cmp xs ys"
  by (induction xs ys rule: lex_cmp.induct) auto

lemma lex_cmp_lexord: "lex_cmp xs ys = -1 \<longleftrightarrow> (xs, ys) \<in> lexord {(a, b). a < b}"
  by (induction xs ys rule: lex_cmp.induct) auto

lemma irc_stricmp_Nil [simp]:
  "irc_stricmp [] [] = 0"
  "b \<noteq> nul \<Longrightarrow> irc_stricmp [] (b # t) = -1"
  "a \<noteq> nul \<Longrightarrow> irc_stricmp (a # s) [] = 1"
proof -
  have pos: "0 < ord (tolower c) \<and> nul \<noteq> tolower c" if "c \<noteq> nul" for c
    using that by (metis ord_zero tolower_nul neq0_conv)
  show "irc_stricmp [] [] = 0"
    by (subst irc_stricmp.simps) simp
  show "irc_stricmp [] (b # t) = -1" if "b \<noteq> nul"
    using pos [OF that] that by (subst irc_stricmp.simps) (simp add: Let_def)
  show "irc_stricmp (a # s) [] = 1" if "a \<noteq> nul"
    using pos [OF that] that by (subst irc_stricmp.simps) (simp add: Let_def)
qed

lemma irc_stricmp_Cons [simp]:
  "a \<noteq> nul \<Longrightarrow> irc_stricmp (a # s) (b # t) =
     (if tolower a = tolower b then irc_stricmp s t
      else if ord (tolower a) < ord (tolower b) then -1 else 1)"
  by (subst irc_stricmp.simps) (simp add: Let_def)

lemma irc_stricmp_lex:
  "cstring s1 \<Longrightarrow> cstring s2 \<Longrightarrow> irc_stricmp s1 s2 = lex_cmp (fold_ords s1) (fold_ords s2)"
proof (induction "fold_ords s1" "fold_ords s2" arbitrary: s1 s2 rule: lex_cmp.induct)
  case (4 x xs y ys)
  then obtain a s b t where "s1 = a # s" "s2 = b # t"
    by (auto simp: fold_ords_def)
  with 4 show ?case by (auto simp: fold_ords_def)
qed (auto simp: fold_ords_def Cons_eq_map_conv)

text \<open>Two names are equal for the services exactly when they fold to the same string.\<close>

lemma irc_stricmp_zero:
  "cstring s1 \<Longrightarrow> cstring s2 \<Longrightarrow> irc_stricmp s1 s2 = 0 \<longleftrightarrow> strlower s1 = strlower s2"
proof -
  have "inj (\<lambda>c::char. ord c)" by (auto simp: inj_def)
  then have "map ord xs = map ord ys \<longleftrightarrow> xs = ys" for xs ys :: string
    by (simp add: inj_map_eq_map)
  then have "fold_ords s1 = fold_ords s2 \<longleftrightarrow> strlower s1 = strlower s2"
    by (metis (no_types, lifting) comp_apply fold_ords_def map_eq_conv map_map strlower_def)
  then show "cstring s1 \<Longrightarrow> cstring s2 \<Longrightarrow> ?thesis"
    by (simp add: irc_stricmp_lex lex_cmp_zero)
qed

text \<open>
  \<open>irc_stricmp\<close> compares nicknames and channel names in the lexicographic order of the
  folded strings: it is 0 exactly when the folded strings are equal, -1 exactly when the first
  is lexicographically smaller byte by byte, and 1 otherwise.
\<close>

theorem irc_stricmp_order:
  assumes "cstring s1" and "cstring s2"
  shows "irc_stricmp s1 s2 =
    (if strlower s1 = strlower s2 then 0
     else if (fold_ords s1, fold_ords s2) \<in> lexord {(a, b). a < b} then -1 else 1)"
proof -
  note eqs = irc_stricmp_lex [OF assms] irc_stricmp_zero [OF assms]
  show ?thesis
    unfolding eqs(2) [symmetric] lex_cmp_lexord [symmetric] eqs(1) [symmetric]
    using lex_cmp_range [of "fold_ords s1" "fold_ords s2"] eqs(1) by (simp split: if_split) linarith
qed

theorem irc_stricmp_order_witness:
  "irc_stricmp ''NickServ'' ''nickserv'' = 0 \<and> irc_stricmp ''Abc'' ''abD'' = -1"
proof -
  have 1: "cstring ''NickServ''" "cstring ''nickserv''" "cstring ''Abc''" "cstring ''abD''"
    by code_simp+
  have 2: "strlower ''NickServ'' = strlower ''nickserv''" by code_simp
  have 3: "strlower ''Abc'' \<noteq> strlower ''abD''" by code_simp
  have 4: "lex_cmp (fold_ords ''Abc'') (fold_ords ''abD'') = -1"
    by (simp add: fold_ords_def ord_tolower isupper_def)
  show ?thesis
    using irc_stricmp_order [OF 1(1,2)] irc_stricmp_order [OF 1(3,4)] 2 3 4
    by (simp add: lex_cmp_lexord)
qed

text \<open>
  The comment in the source promises the RFC equivalence of brackets and braces, which
  \<open>irc_tolower\<close> has and the comparison, which folds with \<open>tolower\<close>, has not.
\<close>

lemma irc_stricmp_brackets:
  "irc_tolower (CHR ''['') = irc_tolower (CHR ''{'')" "irc_stricmp ''[a]'' ''{a}'' = -1"
  by (simp_all add: irc_tolower_def ord_tolower isupper_def tolower_def char_of_eq_iff)

section \<open>Bounded copy\<close>

text \<open>
  The loop \<open>while (--len && ( *d++ = *s++)) ; *d = 0\<close> at offset \<open>i\<close> of the destination: the
  decrement comes first, and after a copied NUL a second one is stored behind it.
\<close>

fun strscpy_loop :: "char list \<Rightarrow> nat \<Rightarrow> cstr \<Rightarrow> nat \<Rightarrow> char list option" where
  "strscpy_loop d i s 0 = None"
| "strscpy_loop d i s (Suc 0) = wr d i nul"
| "strscpy_loop d i s (Suc (Suc n)) =
     (case wr d i (hd0 s) of
        None \<Rightarrow> None
      | Some d' \<Rightarrow> if hd0 s = nul then wr d' (i + 1) nul
                  else strscpy_loop d' (i + 1) (tl s) (Suc n))"

definition strscpy :: "char list \<Rightarrow> cstr \<Rightarrow> nat \<Rightarrow> char list option" where
  "strscpy d s len = (if len = 0 then Some d else strscpy_loop d 0 s len)"

lemma strscpy_loop_ok:
  assumes "cstring s" and "0 < n" and "i + n \<le> length d"
  shows "\<exists>t. strscpy_loop d i s n = Some (take i d @ take (n - 1) s @ nul # t) \<and>
             length t = length d - i - length (take (n - 1) s) - 1 \<and>
             drop (i + n) (take i d @ take (n - 1) s @ nul # t) = drop (i + n) d"
  using assms
proof (induction d i s n rule: strscpy_loop.induct)
  case (2 d i s)
  then have "i < length d" by simp
  then show ?case
    by (auto simp: wr_def upd_conv_take_nth_drop intro!: exI [of _ "drop (Suc i) d"])
next
  case (3 d i s n)
  have i: "i < length d" "Suc i < length d" using "3.prems" by auto
  show ?case
  proof (cases s)
    case Nil
    have "d[i := nul, Suc i := nul] = take i d @ nul # nul # drop (Suc (Suc i)) d"
      using i Cons_nth_drop_Suc [of "Suc i" d, symmetric]
      by (simp add: upd_conv_take_nth_drop [of i] list_update_append)
    with Nil i show ?thesis
      by (auto simp: wr_def add.commute intro!: exI [of _ "nul # drop (Suc (Suc i)) d"])
  next
    case (Cons c s')
    with "3.prems" have c: "c \<noteq> nul" "cstring s'" by auto
    let ?d = "d[i := c]"
    have IH: "\<exists>t. strscpy_loop ?d (i + 1) s' (Suc n) =
                  Some (take (i + 1) ?d @ take (Suc n - 1) s' @ nul # t) \<and>
             length t = length ?d - (i + 1) - length (take (Suc n - 1) s') - 1 \<and>
             drop (i + 1 + Suc n) (take (i + 1) ?d @ take (Suc n - 1) s' @ nul # t)
               = drop (i + 1 + Suc n) ?d"
      using "3.IH" [of ?d] Cons c i "3.prems" by (simp add: wr_def)
    have tk: "take (i + 1) ?d = take i d @ [c]"
      using i by (simp add: take_Suc_conv_app_nth)
    show ?thesis
      using IH i c Cons unfolding tk by (auto simp: wr_def)
  qed
qed simp

text \<open>
  \<open>strscpy(d, s, len)\<close> with \<open>len > 0\<close> and a destination of at least \<open>len\<close> bytes stays inside
  the destination, leaves there the first \<open>len - 1\<close> characters of \<open>s\<close> NUL-terminated, and does
  not touch the bytes from \<open>len\<close> on.
\<close>

theorem strscpy_correct:
  assumes "cstring s" and "0 < len" and "len \<le> length d"
  shows "\<exists>d'. strscpy d s len = Some d' \<and> cstr_of d' = take (len - 1) s \<and>
              length d' = length d \<and> drop len d' = drop len d"
proof -
  obtain t where t: "strscpy_loop d 0 s len = Some (take (len - 1) s @ nul # t)"
    "length t = length d - length (take (len - 1) s) - 1"
    "drop len (take (len - 1) s @ nul # t) = drop len d"
    using strscpy_loop_ok [of s len 0 d] assms by auto
  moreover have "cstring (take (len - 1) s)" using assms(1) by blast
  ultimately show ?thesis
    using assms(2,3) by (auto simp: strscpy_def cstr_of_append)
qed

theorem strscpy_correct_witness:
  "\<exists>d'. strscpy (replicate 6 (CHR ''x'')) ''ChanServ'' 4 = Some d' \<and> cstr_of d' = ''Cha'' \<and>
        drop 4 d' = ''xx''"
  using strscpy_correct [of "''ChanServ''" 4 "replicate 6 (CHR ''x'')"]
  by (auto simp: numeral_eq_Suc)

section \<open>Substring search\<close>

text \<open>
  \<open>stristr\<close> keeps the position \<open>s\<close> where the current attempt started and a position \<open>d\<close> in the
  pattern; on a mismatch it restarts the pattern behind the mismatching character.
\<close>

fun stristr_loop :: "cstr \<Rightarrow> cstr \<Rightarrow> cstr \<Rightarrow> cstr \<Rightarrow> cstr option" where
  "stristr_loop s2 s d [] = None"
| "stristr_loop s2 s d (c # s1) =
     (if tolower c = tolower (hd0 d)
      then (if tl d = [] then Some s else stristr_loop s2 s (tl d) s1)
      else stristr_loop s2 s1 s2 s1)"

definition stristr :: "cstr \<Rightarrow> cstr \<Rightarrow> cstr option" where
  "stristr s1 s2 = stristr_loop s2 s1 s2 s1"

text \<open>The invariant of the search: the characters between \<open>s\<close> and \<open>s1\<close> match the consumed part
  of the pattern.\<close>

lemma stristr_loop_sound:
  assumes "stristr_loop s2 s d s1 = Some r" and "cstring s1"
    and "s = p @ s1" and "s2 = q @ d" and "strlower p = strlower q"
  shows "\<exists>u v w. s = u @ r \<and> r = v @ w \<and> strlower v = strlower s2"
  using assms
proof (induction s2 s d s1 arbitrary: p q rule: stristr_loop.induct)
  case (2 s2 s d c s1)
  show ?case
  proof (cases "tolower c = tolower (hd0 d)")
    case True
    with "2.prems"(2) have "d \<noteq> []" by (metis cstring_simps(2) hd0_simps(1) tolower_nul)
    then have s2: "s2 = (q @ [hd0 d]) @ tl d"
      using "2.prems"(4) by (cases d) auto
    have eq: "strlower (p @ [c]) = strlower (q @ [hd0 d])"
      using True "2.prems"(5) by (simp add: strlower_def)
    show ?thesis
    proof (cases "tl d = []")
      case True
      then have "r = s" using "2.prems"(1) \<open>tolower c = tolower (hd0 d)\<close> by simp
      then show ?thesis
        using "2.prems"(3) s2 eq True by (intro exI [of _ "[]"] exI [of _ "p @ [c]"] exI [of _ s1]) simp
    next
      case False
      then show ?thesis
        using "2.IH"(1) [OF True False, of "p @ [c]" "q @ [hd0 d]"] "2.prems" True s2 eq by auto
    qed
  next
    case False
    then obtain u v w where "s1 = u @ r" "r = v @ w" "strlower v = strlower s2"
      using "2.IH"(2) [OF False, of "[]" "[]"] "2.prems" by auto
    then show ?thesis
      using "2.prems"(3) by (intro exI [of _ "p @ c # u"] exI [of _ v] exI [of _ w]) simp
  qed
qed simp

text \<open>
  What \<open>stristr\<close> returns is an occurrence: a suffix of the text that begins, up to case,
  with the pattern.
\<close>

theorem stristr_sound:
  assumes "stristr s1 s2 = Some r" and "cstring s1"
  shows "\<exists>u v w. s1 = u @ r \<and> r = v @ w \<and> strlower v = strlower s2"
  using stristr_loop_sound [of s2 s1 s2 s1 r "[]" "[]"] assms by (simp add: stristr_def)

theorem stristr_sound_witness:
  "stristr ''Hello WORLD'' ''worl'' = Some ''WORLD'' \<and>
   (\<exists>u v w. ''Hello WORLD'' = u @ ''WORLD'' \<and> ''WORLD'' = v @ w \<and> strlower v = strlower ''worl'')"
proof -
  have "stristr ''Hello WORLD'' ''worl'' = Some ''WORLD''"
    by (simp add: stristr_def tolower_def isupper_def char_of_eq_iff)
  then show ?thesis
    using stristr_sound [of "''Hello WORLD''" "''worl''" "''WORLD''"] by simp
qed

text \<open>The converse fails: an occurrence that overlaps a failed attempt is skipped.\<close>

lemma stristr_misses: "stristr ''aab'' ''ab'' = None"
  by (simp add: stristr_def tolower_def isupper_def)

section \<open>Rot13\<close>

definition rot13_char :: "char \<Rightarrow> char" where
  "rot13_char c =
     (if isalpha c
      then (let base = (if isupper c then 65 else 97)
            in char_of ((ord c - base + 13) mod 26 + base))
      else c)"

definition rot13 :: "cstr \<Rightarrow> cstr" where
  "rot13 s = map rot13_char s"

lemma ord_rot13_char:
  "ord (rot13_char c) =
     (if isupper c then (ord c - 65 + 13) mod 26 + 65
      else if islower c then (ord c - 97 + 13) mod 26 + 97 else ord c)"
proof -
  have "m mod 26 + k < 256" if "k \<le> 97" for m k :: nat
  proof -
    have "m mod 26 < 26" by simp
    with that show ?thesis by linarith
  qed
  then show ?thesis by (simp add: rot13_char_def isalpha_def of_char_of Let_def)
qed

lemma rot13_twice: "k \<le> x \<Longrightarrow> x \<le> k + 25 \<Longrightarrow> ((x - k + 13) mod 26 + 13) mod 26 = x - (k::nat)"
  by (simp add: mod_if) arith

lemma rot13_char_upper:
  assumes "isupper c" shows "isupper (rot13_char c)" and "rot13_char (rot13_char c) = c"
proof -
  define y where "y = (ord c - 65 + 13) mod 26"
  have y: "y \<le> 25" unfolding y_def using mod_less_divisor [of 26 "ord c - 65 + 13"] by linarith
  have o: "ord (rot13_char c) = y + 65" using assms by (simp add: ord_rot13_char y_def)
  then show up: "isupper (rot13_char c)" using y by (simp add: isupper_def)
  have "ord (rot13_char (rot13_char c)) = (y + 13) mod 26 + 65"
    by (subst ord_rot13_char) (simp add: up o)
  also have "\<dots> = ord c"
    using rot13_twice [of 65 "ord c"] assms by (simp add: y_def isupper_def)
  finally show "rot13_char (rot13_char c) = c" by simp
qed

lemma rot13_char_lower:
  assumes "islower c" shows "islower (rot13_char c)" and "rot13_char (rot13_char c) = c"
proof -
  define y where "y = (ord c - 97 + 13) mod 26"
  have y: "y \<le> 25" unfolding y_def using mod_less_divisor [of 26 "ord c - 97 + 13"] by linarith
  have nu: "\<not> isupper c" using assms by (simp add: isupper_def islower_def)
  then have o: "ord (rot13_char c) = y + 97" using assms by (simp add: ord_rot13_char y_def)
  then show lo: "islower (rot13_char c)" using y by (simp add: islower_def)
  then have nu': "\<not> isupper (rot13_char c)" by (simp add: isupper_def islower_def)
  have "ord (rot13_char (rot13_char c)) = (y + 13) mod 26 + 97"
    by (subst ord_rot13_char) (simp add: lo nu' o)
  also have "\<dots> = ord c"
    using rot13_twice [of 97 "ord c"] assms by (simp add: y_def islower_def)
  finally show "rot13_char (rot13_char c) = c" by simp
qed

lemma rot13_char_involution: "rot13_char (rot13_char c) = c"
proof (cases "isalpha c")
  case True
  then show ?thesis using rot13_char_upper(2) rot13_char_lower(2) unfolding isalpha_def by blast
next
  case False
  then have "rot13_char c = c" unfolding rot13_char_def by (rule if_not_P)
  then show ?thesis by (simp only:)
qed

text \<open>
  \<open>rot13\<close>, with which memo texts are stored when MSROT13 is set and read back, is its own
  inverse on every string.
\<close>

theorem rot13_involution: "rot13 (rot13 s) = s"
  unfolding rot13_def list.map_comp o_def rot13_char_involution by simp

end
