(* ===== verification/Numlist.thy ===== *)
theory Numlist
  imports Misc
begin

text \<open>
  Number lists: \<open>process_numlist\<close> of src/src/misc.c, which the services use to delete several
  list entries ("DEL 1-5,7") with one command.  The text is parsed into ranges, the ranges are
  marked in a static array of 65537 flags, and the callback is called for every marked index.
  The theorems are that the array is never left, that the callback sees exactly the numbers
  the ranges denote, in increasing order, and that printed ranges are read back.
\<close>

named_theorems numlist_simps \<open>parsing of number lists\<close>

abbreviation numlist_size :: nat where
  "numlist_size \<equiv> 65537"

section \<open>The parser\<close>

text \<open>
  One round of the parsing loop: the two ends of the range and the rest behind the comma.  The
  number parser is a parameter, since the queries of src/src/mysql.c are read the same way.
\<close>

definition range_item :: "(cstr \<Rightarrow> nat \<times> cstr) \<Rightarrow> cstr \<Rightarrow> nat \<times> nat \<times> cstr" where
  "range_item num s =
     (let (n1, s1) = num s;
          s2 = skip_to s1 ''0123456789,-'';
          (n2, s3) =
            (if hd0 s2 = CHR ''-''
             then (let s4 = skip_to (tl s2) ''0123456789,''
                   in if isdigit (hd0 s4)
                      then (let (n2, s5) = num s4 in (n2, skip_to s5 ''0123456789,-''))
                      else (n1, s4))
             else (n1, s2));
          s6 = skip_to s3 '',''
      in (n1, n2, tl s6))"

definition strtol_uint :: "cstr \<Rightarrow> nat \<times> cstr" where
  "strtol_uint s = (case strtol s of (v, r) \<Rightarrow> (to_uint32 v, r))"

definition numlist_item :: "cstr \<Rightarrow> nat \<times> nat \<times> cstr" where
  "numlist_item = range_item strtol_uint"

lemma length_range_item:
  assumes num: "\<And>s v r. num s = (v, r) \<Longrightarrow> length r \<le> length s"
    and "range_item num s = (n1, n2, r)" and "s \<noteq> []"
  shows "length r < length s"
proof -
  obtain v s1 where v: "num s = (v, s1)" by fastforce
  define s2 where "s2 = skip_to s1 ''0123456789,-''"
  define s4 where "s4 = skip_to (tl s2) ''0123456789,''"
  obtain w s5 where w: "num s4 = (w, s5)" by fastforce
  define s3 where "s3 = (if hd0 s2 = CHR ''-''
    then if isdigit (hd0 s4) then skip_to s5 ''0123456789,-'' else s4 else s2)"
  have r: "r = tl (skip_to s3 '','')"
    using assms(2) unfolding range_item_def v s3_def
    by (simp add: Let_def s2_def [symmetric] s4_def [symmetric] w split: if_splits)
  have "length s1 \<le> length s" using num [OF v] .
  moreover have "length s2 \<le> length s1" unfolding s2_def by (rule length_skip_to)
  moreover have "length s4 \<le> length s2" unfolding s4_def by simp
  moreover have "length s5 \<le> length s4" using num [OF w] .
  moreover have "length (skip_to s5 ''0123456789,-'') \<le> length s5" by (rule length_skip_to)
  ultimately have "length s3 \<le> length s" unfolding s3_def by auto
  moreover have "length (tl (skip_to s3 '','')) \<le> length s3 - 1" by simp
  moreover have "0 < length s" using assms(3) by simp
  ultimately show ?thesis unfolding r by linarith
qed

lemma length_numlist_item:
  assumes "numlist_item s = (n1, n2, r)" and "s \<noteq> []"
  shows "length r < length s"
proof (rule length_range_item [of strtol_uint s n1 n2 r])
  show "strtol_uint t = (v, q) \<Longrightarrow> length q \<le> length t" for t v q
    using length_strtol [of t] by (auto simp: strtol_uint_def split: prod.splits)
qed (use assms in \<open>simp_all add: numlist_item_def\<close>)

section \<open>The flags\<close>

text \<open>\<open>while (n1 <= n2) { numflag[n1] = 1; n1++; }\<close>\<close>

function set_flags :: "bool list \<Rightarrow> nat \<Rightarrow> nat \<Rightarrow> bool list option" where
  "set_flags f n1 n2 =
     (if n1 \<le> n2
      then (case wr f n1 True of None \<Rightarrow> None | Some f' \<Rightarrow> set_flags f' (n1 + 1) n2)
      else Some f)"
  by pat_completeness auto
termination by (relation "measure (\<lambda>(f, n1, n2). Suc n2 - n1)") auto

declare set_flags.simps [simp del]

lemma set_flags_ok:
  assumes "n2 < length f"
  shows "\<exists>f'. set_flags f n1 n2 = Some f' \<and> length f' = length f \<and>
              (\<forall>i<length f. f' ! i \<longleftrightarrow> f ! i \<or> (n1 \<le> i \<and> i \<le> n2))"
  using assms
proof (induction f n1 n2 rule: set_flags.induct)
  case (1 f n1 n2)
  show ?case
  proof (cases "n1 \<le> n2")
    case True
    then have w: "wr f n1 True = Some (f[n1 := True])" using "1.prems" by (simp add: wr_def)
    from "1.IH" [OF True w] "1.prems" obtain f' where f':
      "set_flags (f[n1 := True]) (n1 + 1) n2 = Some f'" "length f' = length f"
      "\<forall>i<length f. f' ! i \<longleftrightarrow> f[n1 := True] ! i \<or> (n1 + 1 \<le> i \<and> i \<le> n2)"
      by auto
    have "set_flags f n1 n2 = Some f'" using f'(1) True w by (subst set_flags.simps) simp
    moreover have "f' ! i \<longleftrightarrow> f ! i \<or> (n1 \<le> i \<and> i \<le> n2)" if "i < length f" for i
    proof -
      have "f' ! i \<longleftrightarrow> f[n1 := True] ! i \<or> (n1 + 1 \<le> i \<and> i \<le> n2)" using f'(3) that by blast
      then show ?thesis using True that by (cases "i = n1") auto
    qed
    ultimately show ?thesis using f'(2) by blast
  next
    case False
    then show ?thesis by (subst set_flags.simps) auto
  qed
qed

text \<open>The whole parsing loop, with the flags and the smallest and largest index marked.\<close>

definition clamp_hi :: "nat \<Rightarrow> nat \<Rightarrow> nat" where
  "clamp_hi n2 maxn =
     (let n2 = (if n2 > maxn then maxn else n2) in if n2 > 65536 then 65536 else n2)"

function numlist_scan ::
  "cstr \<Rightarrow> nat \<Rightarrow> nat \<Rightarrow> bool list \<times> nat \<times> nat \<Rightarrow> (bool list \<times> nat \<times> nat) option" where
  "numlist_scan s minn maxn st =
     (if s = [] then Some st
      else (case numlist_item s of (n1, n2, r) \<Rightarrow>
             (case st of (f, imin, imax) \<Rightarrow>
               (let n1' = (if n1 < minn then minn else n1);
                    n2' = clamp_hi n2 maxn;
                    imin' = (if n1' < imin then n1' else imin);
                    imax' = (if n2' > imax then n2' else imax)
                in case set_flags f n1' n2' of
                     None \<Rightarrow> None
                   | Some f' \<Rightarrow> numlist_scan r minn maxn (f', imin', imax')))))"
  by pat_completeness auto
termination
  by (relation "measure (\<lambda>(s, _). length s)") (auto dest: length_numlist_item [OF sym])

declare numlist_scan.simps [simp del]

text \<open>
  \<open>for (i = imin; i <= imax; i++)\<close>: the callback is a function of the index and of the state
  it works on; a negative result ends the loop.
\<close>

function numlist_loop ::
  "(nat \<Rightarrow> 's \<Rightarrow> int \<times> 's) \<Rightarrow> bool list \<Rightarrow> nat \<Rightarrow> nat \<Rightarrow> int \<times> int \<Rightarrow> 's \<Rightarrow> (int \<times> int \<times> 's) option"
  where
  "numlist_loop cb f i imax acc u =
     (case acc of (retval, numcount) \<Rightarrow>
       if i \<le> imax
       then (if i < length f
             then (if \<not> f ! i then numlist_loop cb f (i + 1) imax acc u
                   else (case cb i u of (res, u') \<Rightarrow>
                          if res < 0 then Some (retval, numcount + 1, u')
                          else numlist_loop cb f (i + 1) imax
                                 (wrap32 (retval + res), numcount + 1) u'))
             else None)
       else Some (retval, numcount, u))"
  by pat_completeness auto
termination by (relation "measure (\<lambda>(cb, f, i, imax, acc, u). Suc imax - i)") auto

declare numlist_loop.simps [simp del]

definition process_numlist ::
  "cstr \<Rightarrow> nat \<Rightarrow> nat \<Rightarrow> (nat \<Rightarrow> 's \<Rightarrow> int \<times> 's) \<Rightarrow> 's \<Rightarrow> (int \<times> int \<times> 's) option" where
  "process_numlist numstr minn maxn cb u =
     (case numlist_scan numstr minn maxn (replicate numlist_size False, 65536, 0) of
        None \<Rightarrow> None
      | Some (f, imin, imax) \<Rightarrow> numlist_loop cb f imin imax (0, 0) u)"

section \<open>What a number list denotes\<close>

text \<open>
  The reference: the ranges of the text and the set of indices in the permitted interval they
  cover.
\<close>

function numlist_ranges :: "cstr \<Rightarrow> (nat \<times> nat) list" where
  "numlist_ranges s =
     (if s = [] then []
      else (case numlist_item s of (n1, n2, r) \<Rightarrow> (n1, n2) # numlist_ranges r))"
  by pat_completeness auto
termination
  by (relation "measure length") (auto dest: length_numlist_item [OF sym])

declare numlist_ranges.simps [simp del]

definition in_range :: "nat \<Rightarrow> nat \<Rightarrow> nat \<Rightarrow> nat \<times> nat \<Rightarrow> bool" where
  "in_range minn maxn i r \<longleftrightarrow>
     minn \<le> i \<and> i \<le> maxn \<and> i \<le> 65536 \<and> fst r \<le> i \<and> i \<le> snd r"

definition numlist_set :: "cstr \<Rightarrow> nat \<Rightarrow> nat \<Rightarrow> nat list" where
  "numlist_set s minn maxn = filter (\<lambda>i. \<exists>r\<in>set (numlist_ranges s). in_range minn maxn i r) [0..<65537]"

text \<open>Calling the callback on a list of indices until it reports an error.\<close>

fun numlist_run ::
  "(nat \<Rightarrow> 's \<Rightarrow> int \<times> 's) \<Rightarrow> nat list \<Rightarrow> int \<times> int \<Rightarrow> 's \<Rightarrow> int \<times> int \<times> 's" where
  "numlist_run cb [] acc u = (fst acc, snd acc, u)"
| "numlist_run cb (i # is) acc u =
     (case cb i u of (res, u') \<Rightarrow>
       if res < 0 then (fst acc, snd acc + 1, u')
       else numlist_run cb is (wrap32 (fst acc + res), snd acc + 1) u')"

section \<open>Correctness\<close>

definition flags_inv :: "(nat \<Rightarrow> bool) \<Rightarrow> bool list \<times> nat \<times> nat \<Rightarrow> bool" where
  "flags_inv M st \<longleftrightarrow>
     (case st of (f, imin, imax) \<Rightarrow>
        length f = numlist_size \<and> imax \<le> 65536 \<and>
        (\<forall>i<numlist_size. f ! i \<longleftrightarrow> M i) \<and>
        (\<forall>i<numlist_size. M i \<longrightarrow> imin \<le> i \<and> i \<le> imax))"

lemma clamp_hi_le: "clamp_hi n m \<le> 65536" "i \<le> clamp_hi n m \<longleftrightarrow> i \<le> n \<and> i \<le> m \<and> i \<le> 65536"
  by (auto simp: clamp_hi_def Let_def)

lemma flags_inv_step:
  assumes "flags_inv M (f, imin, imax)"
  obtains f' where
    "set_flags f (if n1 < minn then minn else n1) (clamp_hi n2 maxn) = Some f'"
    "flags_inv (\<lambda>i. M i \<or> in_range minn maxn i (n1, n2))
       (f', if (if n1 < minn then minn else n1) < imin then (if n1 < minn then minn else n1) else imin,
        if clamp_hi n2 maxn > imax then clamp_hi n2 maxn else imax)"
proof -
  let ?a = "if n1 < minn then minn else n1" and ?b = "clamp_hi n2 maxn"
  have b: "?b < length f" using assms clamp_hi_le(1) [of n2 maxn] by (simp add: flags_inv_def)
  obtain f' where f': "set_flags f ?a ?b = Some f'" "length f' = length f"
    "\<forall>i<length f. f' ! i \<longleftrightarrow> f ! i \<or> (?a \<le> i \<and> i \<le> ?b)"
    using set_flags_ok [OF b, of ?a] by blast
  have range: "in_range minn maxn i (n1, n2) \<longleftrightarrow> ?a \<le> i \<and> i \<le> ?b" for i
    by (auto simp: in_range_def clamp_hi_le)
  have len: "length f = numlist_size" and im: "imax \<le> 65536"
    and fM: "\<And>i. i < numlist_size \<Longrightarrow> f ! i \<longleftrightarrow> M i"
    and Mb: "\<And>i. i < numlist_size \<Longrightarrow> M i \<Longrightarrow> imin \<le> i \<and> i \<le> imax"
    using assms by (auto simp: flags_inv_def)
  have "flags_inv (\<lambda>i. M i \<or> in_range minn maxn i (n1, n2))
       (f', if ?a < imin then ?a else imin, if ?b > imax then ?b else imax)"
    unfolding flags_inv_def prod.case range
  proof (intro conjI allI impI)
    show "length f' = numlist_size" using f'(2) len by simp
    show "(if ?b > imax then ?b else imax) \<le> 65536" using im clamp_hi_le(1) by simp
  next
    fix i :: nat assume "i < numlist_size"
    then show "f' ! i \<longleftrightarrow> M i \<or> (?a \<le> i \<and> i \<le> ?b)" using f'(3) len fM by simp
  next
    fix i :: nat assume i: "i < numlist_size" and "M i \<or> (?a \<le> i \<and> i \<le> ?b)"
    with Mb [OF i] have "(imin \<le> i \<and> i \<le> imax) \<or> (?a \<le> i \<and> i \<le> ?b)" by blast
    then show "(if ?a < imin then ?a else imin) \<le> i" and "i \<le> (if ?b > imax then ?b else imax)"
      by (auto simp del: not_less split: if_splits)
  qed
  with f'(1) show thesis by (rule that)
qed

lemma numlist_scan_ok:
  assumes "flags_inv M st"
  shows "\<exists>st'. numlist_scan s minn maxn st = Some st' \<and>
           flags_inv (\<lambda>i. M i \<or> (\<exists>r\<in>set (numlist_ranges s). in_range minn maxn i r)) st'"
  using assms
proof (induction s minn maxn st arbitrary: M rule: numlist_scan.induct)
  case (1 s minn maxn st)
  show ?case
  proof (cases "s = []")
    case True
    then show ?thesis using "1.prems" by (simp add: numlist_scan.simps numlist_ranges.simps)
  next
    case False
    obtain n1 n2 r where it: "numlist_item s = (n1, n2, r)" by (metis surj_pair)
    obtain f imin imax where st: "st = (f, imin, imax)" by (metis surj_pair)
    from "1.prems" [unfolded st] obtain f' where f':
      "set_flags f (if n1 < minn then minn else n1) (clamp_hi n2 maxn) = Some f'"
      "flags_inv (\<lambda>i. M i \<or> in_range minn maxn i (n1, n2))
       (f', if (if n1 < minn then minn else n1) < imin then (if n1 < minn then minn else n1) else imin,
        if clamp_hi n2 maxn > imax then clamp_hi n2 maxn else imax)"
      by (rule flags_inv_step)
    from "1.IH" [OF False it [symmetric] refl st [symmetric] refl refl refl refl refl f'(1) f'(2)]
    show ?thesis
      using False it st f'(1)
      by (subst numlist_scan.simps, subst numlist_ranges.simps) (simp add: Let_def disj_assoc)
  qed
qed

lemma numlist_loop_run:
  assumes "imax < length f"
  shows "numlist_loop cb f i imax acc u = Some (numlist_run cb (filter (\<lambda>j. f ! j) [i..<Suc imax]) acc u)"
  using assms
proof (induction cb f i imax acc u rule: numlist_loop.induct)
  case (1 cb f i imax acc u)
  obtain retval numcount where acc: "acc = (retval, numcount)" by (metis surj_pair)
  show ?case
  proof (cases "i \<le> imax")
    case True
    then have up: "[i..<Suc imax] = i # [Suc i..<Suc imax]" by (simp add: upt_conv_Cons)
    obtain res u' where cb: "cb i u = (res, u')" by (metis surj_pair)
    have i: "i < length f" using True "1.prems" by simp
    note IH = "1.IH" [OF acc [symmetric] True i]
    have skip: "numlist_loop cb f (i + 1) imax acc u =
        Some (numlist_run cb (filter (\<lambda>j. f ! j) [i + 1..<Suc imax]) acc u)" if "\<not> f ! i"
      using IH(1) that "1.prems" by blast
    have call: "numlist_loop cb f (i + 1) imax (wrap32 (retval + res), numcount + 1) u' =
        Some (numlist_run cb (filter (\<lambda>j. f ! j) [i + 1..<Suc imax])
               (wrap32 (retval + res), numcount + 1) u')" if "f ! i" "\<not> res < 0"
      using IH(2) [OF _ cb [symmetric]] that "1.prems" by blast
    show ?thesis
      using skip call i True unfolding up
      by (subst numlist_loop.simps) (auto simp: acc cb simp del: upt_Suc)
  next
    case False
    then show ?thesis by (subst numlist_loop.simps) (simp add: acc)
  qed
qed

lemma filter_upt_cut:
  assumes "\<And>i. i < n \<Longrightarrow> P i \<Longrightarrow> a \<le> i \<and> i \<le> b" and "b < n"
  shows "filter P [0..<n] = filter P [a..<Suc b]"
proof (cases "a \<le> Suc b")
  case True
  have "[0..<n] = [0..<a] @ [a..<Suc b] @ [Suc b..<n]"
    using True assms(2) by (metis Suc_leI le0 le_trans upt_add_eq_append le_add_diff_inverse)
  moreover have "filter P [0..<a] = []" "filter P [Suc b..<n] = []"
    using assms(1) [of _] assms(2) True unfolding filter_empty_conv
    by (auto dest!: assms(1) [rotated])
  ultimately show ?thesis by simp
next
  case False
  then have "\<forall>i<n. \<not> P i" using assms(1) by force
  then show ?thesis using False by (simp add: filter_empty_conv)
qed

text \<open>The flags set by the parser mark the numbers the text denotes.\<close>

lemma process_numlist_scanned:
  "\<exists>f imin imax. numlist_scan s minn maxn (replicate numlist_size False, 65536, 0) = Some (f, imin, imax) \<and>
     imax < length f \<and> filter (\<lambda>j. f ! j) [imin..<Suc imax] = numlist_set s minn maxn"
proof -
  let ?P = "\<lambda>i. \<exists>r\<in>set (numlist_ranges s). in_range minn maxn i r"
  have "flags_inv (\<lambda>i. False) (replicate numlist_size False, 65536, 0)"
    unfolding flags_inv_def prod.case by (simp only: length_replicate nth_replicate) simp
  from numlist_scan_ok [OF this, of s minn maxn] obtain f imin imax where
    scan: "numlist_scan s minn maxn (replicate numlist_size False, 65536, 0) = Some (f, imin, imax)"
    and inv: "flags_inv ?P (f, imin, imax)"
    by (metis (no_types, lifting) prod_cases3)
  have len: "length f = numlist_size" and im: "imax \<le> 65536"
    and fP: "\<And>i. i < numlist_size \<Longrightarrow> f ! i \<longleftrightarrow> ?P i"
    and Pb: "\<And>i. i < numlist_size \<Longrightarrow> ?P i \<Longrightarrow> imin \<le> i \<and> i \<le> imax"
    using inv unfolding flags_inv_def prod.case by blast+
  have "filter (\<lambda>j. f ! j) [imin..<Suc imax] = filter ?P [imin..<Suc imax]"
    by (rule filter_cong) (use im fP in auto)
  also have "\<dots> = numlist_set s minn maxn"
    unfolding numlist_set_def by (rule filter_upt_cut [symmetric]) (use Pb im in auto)
  finally show ?thesis using scan len im by auto
qed

text \<open>What holds of the indices seen, of the sum of the results and of the state holds at the end.\<close>

lemma numlist_run_inv:
  assumes "\<And>js k u i. I js k u \<Longrightarrow> i \<in> set is \<Longrightarrow>
      (case cb i u of (res, u') \<Rightarrow> (res = 0 \<or> res = 1) \<and> I (js @ [i]) (k + nat res) u')"
    and "I js k u" and "k + length is < 2 ^ 31"
  shows "\<exists>k' u'. numlist_run cb is (int k, n) u = (int k', n + int (length is), u') \<and> I (js @ is) k' u'"
  using assms
proof (induction "is" arbitrary: js k n u)
  case Nil
  then show ?case by simp
next
  case (Cons i "is")
  obtain res u' where cb: "cb i u = (res, u')" by fastforce
  have r: "res = 0 \<or> res = 1" "I (js @ [i]) (k + nat res) u'" using Cons.prems(1) [OF Cons.prems(2), of i] cb by auto
  then have w: "wrap32 (int k + res) = int (k + nat res)"
    using Cons.prems(3) by (auto simp: wrap32_def)
  have "k + nat res + length is < 2 ^ 31" using r(1) Cons.prems(3) by auto
  from Cons.IH [OF Cons.prems(1) r(2) this, of "n + 1"] obtain k' v where
    "numlist_run cb is (int (k + nat res), n + 1) u' = (int k', n + 1 + int (length is), v)" "I (js @ i # is) k' v"
    by auto
  moreover have "\<not> res < 0" using r(1) by auto
  ultimately show ?case using r(1) by (auto simp: cb w)
qed

lemma process_numlist_inv:
  assumes "\<And>js k u i. I js k u \<Longrightarrow> i \<in> set (numlist_set s minn maxn) \<Longrightarrow>
      (case cb i u of (res, u') \<Rightarrow> (res = 0 \<or> res = 1) \<and> I (js @ [i]) (k + nat res) u')"
    and "I [] 0 u"
  shows "\<exists>k u'. process_numlist s minn maxn cb u = Some (int k, int (length (numlist_set s minn maxn)), u') \<and>
    I (numlist_set s minn maxn) k u'"
proof -
  have "length (numlist_set s minn maxn) \<le> 65537"
    unfolding numlist_set_def by (rule order_trans [OF length_filter_le]) simp
  then have l: "0 + length (numlist_set s minn maxn) < 2 ^ 31" by simp
  obtain f imin imax where f: "numlist_scan s minn maxn (replicate numlist_size False, 65536, 0) = Some (f, imin, imax)"
    "imax < length f" "filter (\<lambda>j. f ! j) [imin..<Suc imax] = numlist_set s minn maxn"
    using process_numlist_scanned by blast
  show ?thesis
    using numlist_run_inv [of I "numlist_set s minn maxn" cb "[]" 0 u 0, OF assms l] numlist_loop_run [OF f(2), of cb imin "(0, 0)" u] f(1,3)
    by (auto simp: process_numlist_def)
qed

lemma numlist_set_range: "i \<in> set (numlist_set s minn maxn) \<Longrightarrow> minn \<le> i \<and> i \<le> maxn"
  by (auto simp: numlist_set_def in_range_def)

text \<open>
  C39: \<open>process_numlist\<close> terminates, never indexes outside its array of flags, and calls the
  callback exactly once for every number that lies in one of the ranges of the text, in the
  interval from \<open>min\<close> to \<open>max\<close> and at most 65536, in increasing order and up to the first
  negative result; it returns the sum of the results and the number of calls.
\<close>

theorem process_numlist_correct:
  "process_numlist s minn maxn cb u = Some (numlist_run cb (numlist_set s minn maxn) (0, 0) u)"
proof -
  obtain f imin imax where f: "numlist_scan s minn maxn (replicate numlist_size False, 65536, 0) = Some (f, imin, imax)"
    "imax < length f" "filter (\<lambda>j. f ! j) [imin..<Suc imax] = numlist_set s minn maxn"
    using process_numlist_scanned by blast
  show ?thesis
    using numlist_loop_run [OF f(2), of cb imin "(0, 0)" u] f(1,3) by (simp add: process_numlist_def)
qed

section \<open>Reading back printed ranges\<close>

fun show_ranges :: "(nat \<times> nat) list \<Rightarrow> cstr" where
  "show_ranges [] = []"
| "show_ranges [(a, b)] = showd a @ ''-'' @ showd b"
| "show_ranges ((a, b) # r # rs) = showd a @ ''-'' @ showd b @ '','' @ show_ranges (r # rs)"

lemma skip_to_here [numlist_simps]: "c \<in> set d \<Longrightarrow> skip_to (c # s) d = c # s"
  by (simp add: strcspn_def)

lemma skip_to_Nil [numlist_simps]: "skip_to [] d = []"
  by simp

lemma showd_Cons: "\<exists>c cs. showd n = c # cs \<and> isdigit c"
  using showd_digits [of n] showd_nonempty [of n] by (cases "showd n") auto

lemma isdigit_in_digits: "isdigit c \<Longrightarrow> c \<in> set ''0123456789,''"
proof -
  assume "isdigit c"
  then have dg: "48 \<le> ord c" "ord c \<le> 57" by (simp_all add: isdigit_def)
  define k where "k = ord c - 48"
  have k: "ord c = 48 + k" "k < 10" using dg unfolding k_def by linarith+
  then have "k = 0 \<or> k = 1 \<or> k = 2 \<or> k = 3 \<or> k = 4 \<or> k = 5 \<or> k = 6 \<or> k = 7 \<or> k = 8 \<or> k = 9"
    by presburger
  moreover have "c = char_of (48 + k)" using k(1) by (metis char_of_char)
  ultimately show ?thesis by (auto simp: char_of_eq_iff)
qed

lemma range_item_show:
  assumes num: "\<And>n r. n < 2 ^ 32 \<Longrightarrow> r = [] \<or> \<not> isdigit (hd r) \<Longrightarrow> num (showd n @ r) = (n, r)"
    and "a < 2 ^ 32" and "b < 2 ^ 32" and "r = [] \<or> r = CHR '','' # r'"
  shows "range_item num (showd a @ ''-'' @ showd b @ r) = (a, b, tl r)"
proof -
  have a: "num (showd a @ CHR ''-'' # showd b @ r) = (a, CHR ''-'' # showd b @ r)"
    using assms(2) by (intro num) (auto simp: isdigit_def)
  have b: "num (showd b @ r) = (b, r)"
    using assms(3,4) by (intro num) (auto simp: isdigit_def)
  obtain c cs where c: "showd b = c # cs" "isdigit c" using showd_Cons by blast
  have 1: "skip_to (CHR ''-'' # showd b @ r) ''0123456789,-'' = CHR ''-'' # showd b @ r"
    by (rule skip_to_here) simp
  have 2: "skip_to (showd b @ r) ''0123456789,'' = showd b @ r"
    using skip_to_here [OF isdigit_in_digits [OF c(2)], of "cs @ r"] c(1) by simp
  have 3: "skip_to r ''0123456789,-'' = r" "skip_to r '','' = r"
    using assms(4) by (auto intro: skip_to_here)
  have 4: "isdigit (hd0 (showd b @ r))" using c by simp
  show ?thesis
    unfolding range_item_def append_Cons append_Nil a Let_def prod.case 1 hd0_simps list.sel 2 b
    using 3 4 by simp
qed

lemma numlist_item_show:
  assumes "a < 2 ^ 32" and "b < 2 ^ 32" and "r = [] \<or> r = CHR '','' # r'"
  shows "numlist_item (showd a @ ''-'' @ showd b @ r) = (a, b, tl r)"
  unfolding numlist_item_def
proof (rule range_item_show [OF _ assms])
  fix n :: nat and r assume "n < 2 ^ 32" "r = [] \<or> \<not> isdigit (hd r)"
  then show "strtol_uint (showd n @ r) = (n, r)" using strtol_showd [of n r] by (simp add: strtol_uint_def)
qed

text \<open>
  A printed list of ranges is parsed back to the same ranges, so that a command built from
  numbers addresses exactly those numbers.
\<close>

theorem numlist_ranges_show:
  assumes "\<forall>(a, b)\<in>set rs. a < 2 ^ 32 \<and> b < 2 ^ 32"
  shows "numlist_ranges (show_ranges rs) = rs"
  using assms
proof (induction rs rule: show_ranges.induct)
  case 1
  show ?case by (simp add: numlist_ranges.simps)
next
  case (2 a b)
  then show ?case
    using numlist_item_show [of a b "[]"]
    by (subst numlist_ranges.simps) (simp add: numlist_ranges.simps [of "[]"])
next
  case (3 a b r rs)
  then show ?case
    using numlist_item_show [of a b "'','' @ show_ranges (r # rs)"]
    by (subst numlist_ranges.simps) simp
qed

theorem numlist_ranges_show_witness:
  "numlist_ranges (show_ranges [(1, 5), (9, 9)]) = [(1, 5), (9, 9)]"
  by (rule numlist_ranges_show) simp

end
