(* ===== verification/Timestr.thy ===== *)
theory Timestr
  imports Misc
begin

text \<open>
  Time strings and other small formatters of src/src/misc.c: \<open>dotime\<close> reads durations such as
  1h30m, \<open>disect_time\<close> prints a number of seconds in words, \<open>merge_args\<close> joins an argument
  vector in a fixed buffer, \<open>make_random_string\<close> fills a buffer with letters, and
  \<open>validate_email\<close> looks for the at sign.
\<close>

section \<open>Reading durations\<close>

definition unit_seconds :: "char \<Rightarrow> int option" where
  "unit_seconds c =
     (if c = CHR ''s'' then Some 1
      else if c = CHR ''m'' then Some 60
      else if c = CHR ''h'' then Some 3600
      else if c = CHR ''d'' then Some 86400
      else None)"

function dotime :: "cstr \<Rightarrow> int" where
  "dotime s =
     (case strtol s of (v, s') \<Rightarrow>
        (let amount = wrap32 v
         in if s' \<noteq> []
            then (let c = hd s'; rest = dotime (tl s')
                  in if rest < 0 then -1
                     else (case unit_seconds c of
                             Some k \<Rightarrow> wrap32 (rest + wrap32 (amount * k))
                           | None \<Rightarrow> -1))
            else amount))"
  by pat_completeness auto
termination
proof (relation "measure length", goal_cases)
  case (2 s x y xa)
  then show ?case using length_strtol [of s x y] by (cases y) auto
qed simp

declare dotime.simps [simp del]

text \<open>A duration as the operators write it: pairs of a number and a unit.\<close>

fun show_durations :: "(nat \<times> char) list \<Rightarrow> cstr" where
  "show_durations [] = []"
| "show_durations ((n, c) # ds) = showd n @ c # show_durations ds"

fun duration_sum :: "(nat \<times> char) list \<Rightarrow> int" where
  "duration_sum [] = 0"
| "duration_sum ((n, c) # ds) = int n * the (unit_seconds c) + duration_sum ds"

lemma unit_seconds_pos: "unit_seconds c = Some k \<Longrightarrow> 1 \<le> k \<and> \<not> isdigit c"
  by (auto simp: unit_seconds_def isdigit_def split: if_splits)

lemma duration_sum_nonneg: "\<forall>(n, c)\<in>set ds. unit_seconds c \<noteq> None \<Longrightarrow> 0 \<le> duration_sum ds"
  by (induction ds rule: duration_sum.induct) (fastforce dest: unit_seconds_pos)+

text \<open>
  \<open>dotime\<close> reads a sequence of number and unit pairs as the sum of the durations, as long as
  that sum fits an int.
\<close>

theorem dotime_durations:
  assumes "\<forall>(n, c)\<in>set ds. unit_seconds c \<noteq> None" and "duration_sum ds < 2 ^ 31"
  shows "dotime (show_durations ds) = duration_sum ds"
  using assms
proof (induction ds rule: show_durations.induct)
  case 1
  show ?case by (simp add: dotime.simps)
next
  case (2 n c ds)
  from "2.prems" obtain k where k: "unit_seconds c = Some k" by auto
  have ds: "0 \<le> duration_sum ds" using "2.prems"(1) by (intro duration_sum_nonneg) auto
  have nk: "int n \<le> int n * k" using unit_seconds_pos [OF k] by (simp add: mult_le_cancel_left1)
  have sum: "int n * k + duration_sum ds < 2 ^ 31" using "2.prems"(2) k by simp
  have IH: "dotime (show_durations ds) = duration_sum ds"
    using "2.IH" "2.prems" nk ds sum by (simp add: k)
  have st: "strtol (showd n @ c # show_durations ds) = (int n, c # show_durations ds)"
    using unit_seconds_pos [OF k] nk ds sum by (intro strtol_showd) auto
  have w: "wrap32 (int n) = int n" "wrap32 (int n * k) = int n * k"
    "wrap32 (duration_sum ds + int n * k) = duration_sum ds + int n * k"
    using nk ds sum by (auto intro!: wrap32_id)
  show ?case
    using ds by (subst dotime.simps) (simp add: st IH k w Let_def)
qed

theorem dotime_durations_witness:
  "dotime ''1h30m'' = 5400 \<and> show_durations [(1, CHR ''h''), (30, CHR ''m'')] = ''1h30m''"
proof -
  have s: "show_durations [(1, CHR ''h''), (30, CHR ''m'')] = ''1h30m''"
    by (simp add: showd.simps digit_char_def char_of_eq_iff)
  show ?thesis
    using dotime_durations [of "[(1, CHR ''h''), (30, CHR ''m'')]"] unfolding s
    by (simp add: unit_seconds_def)
qed

section \<open>Printing durations\<close>

text \<open>\<open>while (time >= k) { time -= k; n++; }\<close>, with the counter in the result.\<close>

function count_off :: "int \<Rightarrow> int \<Rightarrow> int \<Rightarrow> int \<times> int" where
  "count_off k t n = (if 0 < k \<and> k \<le> t then count_off k (t - k) (n + 1) else (t, n))"
  by pat_completeness auto
termination by (relation "measure (\<lambda>(k, t, n). nat t)") auto

declare count_off.simps [simp del]

lemma count_off_div: "0 < k \<Longrightarrow> 0 \<le> t \<Longrightarrow> count_off k t n = (t mod k, n + t div k)"
proof (induction k t n rule: count_off.induct)
  case (1 k t n)
  show ?case
  proof (cases "k \<le> t")
    case True
    then have "(t - k) mod k = t mod k" "t div k = (t - k) div k + 1"
      using "1.prems" by (simp_all add: div_pos_geq)
    then show ?thesis using 1 True by (subst count_off.simps) simp
  next
    case False
    then show ?thesis using "1.prems" by (subst count_off.simps) (simp add: div_pos_pos_trivial)
  qed
qed

record time_parts =
  years :: int
  months :: int
  weeks :: int
  days :: int
  hours :: int
  minutes :: int
  seconds :: int

definition time_split :: "int \<Rightarrow> time_parts" where
  "time_split time =
     (let (t, y) = count_off (60 * 60 * 24 * 365) time 0;
          (t, mo) = count_off (60 * 60 * 24 * 30) t 0;
          (t, w) = count_off (60 * 60 * 24 * 7) t 0;
          (t, d) = count_off (60 * 60 * 24) t 0;
          (t, h) = count_off (60 * 60) t 0;
          (t, mi) = count_off 60 t 0
      in \<lparr>years = y, months = mo, weeks = w, days = d, hours = h, minutes = mi, seconds = t\<rparr>)"

definition plural :: "int \<Rightarrow> cstr" where
  "plural n = (if n = 1 then '''' else ''s'')"

definition show02 :: "int \<Rightarrow> cstr" where
  "show02 n = (let s = show_int n in if length s < 2 then ''0'' @ s else s)"

definition clock :: "time_parts \<Rightarrow> cstr" where
  "clock p = show02 (hours p) @ '':'' @ show02 (minutes p) @ '':'' @ show02 (seconds p)"

definition counted :: "int \<Rightarrow> cstr \<Rightarrow> cstr" where
  "counted n what = show_int n @ '' '' @ what @ plural n"

text \<open>The text is cut to the 63 characters the static buffer can hold.\<close>

definition disect_time :: "int \<Rightarrow> cstr" where
  "disect_time time =
     (let p = time_split time
      in take 63
        (if years p \<noteq> 0 then
           counted (years p) ''year'' @ '', '' @ counted (months p) ''month'' @ '', '' @
           counted (weeks p) ''week'' @ '', '' @ counted (days p) ''day'' @ '', '' @ clock p
         else if months p \<noteq> 0 then
           counted (months p) ''month'' @ '', '' @ counted (weeks p) ''week'' @ '', '' @
           counted (days p) ''day'' @ '', '' @ clock p
         else if weeks p \<noteq> 0 then
           counted (weeks p) ''week'' @ '', '' @ counted (days p) ''day'' @ '', '' @ clock p
         else if days p \<noteq> 0 then
           counted (days p) ''day'' @ '', '' @ clock p
         else if hours p \<noteq> 0 then
           (if minutes p \<noteq> 0 \<or> seconds p \<noteq> 0
            then counted (hours p) ''hour'' @ '', '' @ counted (minutes p) ''minute'' @ '', '' @
                 counted (seconds p) ''second''
            else counted (hours p) ''hour'')
         else if minutes p \<noteq> 0 then
           counted (minutes p) ''minute'' @ '', '' @ counted (seconds p) ''second''
         else counted (seconds p) ''second''))"

definition time_ago :: "int \<Rightarrow> int \<Rightarrow> cstr" where
  "time_ago now mytime = disect_time (now - mytime)"

text \<open>
  The parts \<open>disect_time\<close> prints add up to the given number of seconds, and each stays
  below the next larger unit, for every non-negative time.
\<close>

theorem time_split_parts:
  assumes "0 \<le> t"
  shows "31536000 * years (time_split t) + 2592000 * months (time_split t) +
      604800 * weeks (time_split t) + 86400 * days (time_split t) +
      3600 * hours (time_split t) + 60 * minutes (time_split t) + seconds (time_split t) = t
    \<and> 0 \<le> years (time_split t) \<and> months (time_split t) \<in> {0..12}
    \<and> weeks (time_split t) \<in> {0..4} \<and> days (time_split t) \<in> {0..6}
    \<and> hours (time_split t) \<in> {0..23} \<and> minutes (time_split t) \<in> {0..59}
    \<and> seconds (time_split t) \<in> {0..59}"
proof -
  define a b c d e where "a = t mod 31536000" and "b = a mod 2592000" and "c = b mod 604800"
    and "d = c mod 86400" and "e = d mod 3600"
  note defs = a_def b_def c_def d_def e_def
  have nn: "0 \<le> a" "0 \<le> b" "0 \<le> c" "0 \<le> d" "0 \<le> e" unfolding defs by simp_all
  have sp: "time_split t = \<lparr>years = t div 31536000, months = a div 2592000, weeks = b div 604800,
      days = c div 86400, hours = d div 3600, minutes = e div 60, seconds = e mod 60\<rparr>"
    unfolding time_split_def using assms nn
    by (simp add: count_off_div Let_def defs [symmetric])
  have up: "a < 31536000" "b < 2592000" "c < 604800" "d < 86400" "e < 3600"
    unfolding defs by simp_all
  have eqs: "t = 31536000 * (t div 31536000) + a" "a = 2592000 * (a div 2592000) + b"
    "b = 604800 * (b div 604800) + c" "c = 86400 * (c div 86400) + d"
    "d = 3600 * (d div 3600) + e" "e = 60 * (e div 60) + e mod 60"
    unfolding defs by simp_all
  have lo: "0 \<le> e mod 60" "0 \<le> t div 31536000" "0 \<le> a div 2592000" "0 \<le> b div 604800" "0 \<le> c div 86400"
    "0 \<le> d div 3600" "0 \<le> e div 60"
    using assms nn by (simp_all add: pos_imp_zdiv_nonneg_iff)
  have "e mod 60 < 60" by simp
  then have hi: "a div 2592000 \<le> 12" "b div 604800 \<le> 4" "c div 86400 \<le> 6" "d div 3600 \<le> 23"
      "e div 60 \<le> 59" "e mod 60 \<le> 59"
    using up eqs nn lo by linarith+
  have "31536000 * (t div 31536000) + 2592000 * (a div 2592000) + 604800 * (b div 604800) +
      86400 * (c div 86400) + 3600 * (d div 3600) + 60 * (e div 60) + e mod 60 = t"
    using eqs by linarith
  note all = this lo hi
  show ?thesis
    unfolding sp time_parts.simps atLeastAtMost_iff by (intro conjI all)
qed

theorem time_split_parts_witness:
  "months (time_split 31535999) \<in> {0..12} \<and> seconds (time_split 31535999) \<in> {0..59}"
  using time_split_parts [of 31535999] by simp

section \<open>Merging an argument vector\<close>

text \<open>
  \<open>snprintf(s + t, n, "%s%s", ...)\<close> on the static buffer \<open>s\<close>: at most \<open>n - 1\<close> characters and a
  NUL are stored, nothing if \<open>n\<close> is 0, and the result is the length of the whole text.
\<close>

definition snprintf_at :: "char list \<Rightarrow> nat \<Rightarrow> nat \<Rightarrow> cstr \<Rightarrow> char list option" where
  "snprintf_at b t n txt = (if n = 0 then Some b else wrs b t (take (n - 1) txt @ [nul]))"

text \<open>\<open>sizeof(s) - (t - s)\<close> in 64-bit unsigned arithmetic.\<close>

definition room :: "nat \<Rightarrow> nat" where
  "room t = (if t \<le> 4096 then 4096 - t else 2 ^ 64 - (t - 4096))"

fun merge_loop :: "char list \<Rightarrow> nat \<Rightarrow> cstr list \<Rightarrow> char list option" where
  "merge_loop b t [] = Some b"
| "merge_loop b t (a # args) =
     (let txt = a @ (if args \<noteq> [] then '' '' else [])
      in case snprintf_at b t (room t) txt of
           None \<Rightarrow> None
         | Some b' \<Rightarrow> merge_loop b' (t + length txt) args)"

definition merge_args :: "char list \<Rightarrow> cstr list \<Rightarrow> char list option" where
  "merge_args s argv = merge_loop s 0 argv"

fun join_args :: "cstr list \<Rightarrow> cstr" where
  "join_args [] = []"
| "join_args [a] = a"
| "join_args (a # b # args) = a @ '' '' @ join_args (b # args)"

lemma join_args_Cons: "args \<noteq> [] \<Longrightarrow> join_args (a # args) = a @ '' '' @ join_args args"
  by (cases args) auto

lemma merge_loop_ok:
  assumes "length b = 4096" and "args \<noteq> []" and "t + length (join_args args) < 4096"
  shows "\<exists>r. merge_loop b t args = Some (take t b @ join_args args @ nul # r) \<and>
             length (take t b @ join_args args @ nul # r) = 4096"
  using assms
proof (induction b t args rule: merge_loop.induct)
  case (2 b t a args)
  show ?case
  proof (cases "args = []")
    case True
    then show ?thesis using "2.prems" by (auto simp: snprintf_at_def room_def wrs_def)
  next
    case False
    let ?txt = "a @ '' ''"
    have fits: "t + length ?txt < 4096" using "2.prems" False by (simp add: join_args_Cons)
    let ?b = "take t b @ ?txt @ nul # drop (t + length ?txt + 1) b"
    have b: "snprintf_at b t (room t) ?txt = Some ?b" "length ?b = 4096"
      using fits "2.prems"(1) by (auto simp: snprintf_at_def room_def wrs_def)
    have tk: "take (t + length ?txt) ?b = take t b @ ?txt"
      using fits "2.prems"(1) by simp
    have "t + length ?txt + length (join_args args) < 4096"
      using "2.prems"(3) False by (simp add: join_args_Cons)
    then obtain r where r: "merge_loop ?b (t + length ?txt) args =
        Some ((take t b @ ?txt) @ join_args args @ nul # r)"
        "length ((take t b @ ?txt) @ join_args args @ nul # r) = 4096"
      using "2.IH" [of ?txt ?b, OF _ b(1) b(2) False] False unfolding tk by force
    have "merge_loop b t (a # args) = merge_loop ?b (t + length ?txt) args"
      using False b(1) by simp
    then show ?thesis using r False by (auto simp: join_args_Cons)
  qed
qed simp

text \<open>
  \<open>merge_args\<close> never writes outside its 4096-byte buffer and leaves in it the arguments
  separated by single spaces, whenever the joined text fits.
\<close>

theorem merge_args_join:
  assumes "length s = 4096" and "argv \<noteq> []" and "\<forall>a\<in>set argv. cstring a"
    and "length (join_args argv) < 4096"
  shows "\<exists>s'. merge_args s argv = Some s' \<and> length s' = 4096 \<and> cstr_of s' = join_args argv"
proof -
  have "cstring (join_args argv)"
    using assms(3) by (induction argv rule: join_args.induct) auto
  then show ?thesis
    using merge_loop_ok [of s argv 0] assms by (auto simp: merge_args_def cstr_of_append)
qed

theorem merge_args_join_witness:
  "\<exists>s'. merge_args (replicate 4096 nul) [''hello'', ''world''] = Some s' \<and>
        cstr_of s' = ''hello world''"
proof -
  have "\<exists>s'. merge_args (replicate 4096 nul) [''hello'', ''world''] = Some s' \<and> length s' = 4096 \<and>
        cstr_of s' = join_args [''hello'', ''world'']"
    by (rule merge_args_join) (simp_all only: length_replicate, simp_all)
  then show ?thesis by auto
qed

section \<open>Random strings and addresses\<close>

definition randchartab :: string where
  "randchartab = ''abcdefghijklmnopqrstuvwxyzABCDEFGHIJKLMNOPQRSTUVWXYZ''"

text \<open>
  The values of \<open>rand()\<close> are a list; the loop bound \<open>length - 1\<close> wraps for length 0, which the
  model reports as a write outside the buffer.
\<close>

fun random_loop :: "char list \<Rightarrow> nat \<Rightarrow> nat \<Rightarrow> nat list \<Rightarrow> char list option" where
  "random_loop b i 0 rs = Some b"
| "random_loop b i (Suc n) [] = None"
| "random_loop b i (Suc n) (r # rs) =
     (case wr b i (randchartab ! (r mod 52)) of
        None \<Rightarrow> None
      | Some b' \<Rightarrow> random_loop b' (i + 1) n rs)"

definition make_random_string :: "char list \<Rightarrow> nat \<Rightarrow> nat list \<Rightarrow> char list option" where
  "make_random_string b len rs =
     (if len = 0 then None
      else case random_loop b 0 (len - 1) rs of
             None \<Rightarrow> None
           | Some b' \<Rightarrow> wr b' (len - 1) nul)"

definition validate_email :: "cstr \<Rightarrow> bool" where
  "validate_email email \<longleftrightarrow> strchr email (CHR ''@'') \<noteq> None"

lemma randchartab_alpha: "i < 52 \<Longrightarrow> isalpha (randchartab ! i)"
proof -
  assume "i < 52"
  then have "randchartab ! i \<in> set randchartab"
    by (intro nth_mem) (simp add: randchartab_def)
  moreover have "\<forall>c\<in>set randchartab. isalpha c"
    by (simp add: randchartab_def isalpha_def isupper_def islower_def)
  ultimately show ?thesis by blast
qed

lemma random_loop_ok:
  assumes "i + n \<le> length b" and "n \<le> length rs"
  shows "\<exists>t. random_loop b i n rs = Some (take i b @ t @ drop (i + n) b) \<and>
             length t = n \<and> list_all isalpha t"
  using assms
proof (induction b i n rs rule: random_loop.induct)
  case (3 b i n r rs)
  let ?c = "randchartab ! (r mod 52)"
  have i: "i < length b" using 3 by simp
  then have "\<exists>t. random_loop (b[i := ?c]) (i + 1) n rs =
       Some (take (i + 1) (b[i := ?c]) @ t @ drop (i + 1 + n) (b[i := ?c])) \<and>
       length t = n \<and> list_all isalpha t"
    using "3.IH" [of "b[i := ?c]"] "3.prems" by (simp add: wr_def)
  then obtain t where t: "random_loop (b[i := ?c]) (i + 1) n rs =
       Some (take (i + 1) (b[i := ?c]) @ t @ drop (i + 1 + n) (b[i := ?c]))"
       "length t = n" "list_all isalpha t" by blast
  have "take (i + 1) (b[i := ?c]) = take i b @ [?c]" using i by (simp add: take_Suc_conv_app_nth)
  with t i show ?case
    by (auto simp: wr_def randchartab_alpha intro!: exI [of _ "?c # t"])
qed simp_all

text \<open>
  \<open>make_random_string(buffer, length)\<close> fills exactly the first \<open>length - 1\<close> bytes with
  letters, terminates them and touches nothing else: the generated passwords and auth codes
  are well-formed C strings of the promised length.
\<close>

theorem make_random_string_ok:
  assumes "0 < len" and "len \<le> length b" and "len \<le> length rs"
  shows "\<exists>b'. make_random_string b len rs = Some b' \<and> length (cstr_of b') = len - 1 \<and>
              list_all isalpha (cstr_of b') \<and> drop len b' = drop len b"
proof -
  obtain t where t: "random_loop b 0 (len - 1) rs = Some (t @ drop (len - 1) b)"
    "length t = len - 1" "list_all isalpha t"
    using random_loop_ok [of 0 "len - 1" b rs] assms(2,3) by fastforce
  have "drop (len - 1) b = b ! (len - 1) # drop len b"
    using assms Cons_nth_drop_Suc [of "len - 1" b] by simp
  then have "wr (t @ drop (len - 1) b) (len - 1) nul = Some (t @ nul # drop len b)"
    using t(2) assms by (simp add: wr_def list_update_append)
  moreover have "cstring t"
    using t(3) by (auto simp: cstring_def list_all_iff isalpha_def isupper_def islower_def)
  ultimately show ?thesis
    using t assms by (auto simp: make_random_string_def cstr_of_append)
qed

theorem make_random_string_ok_witness:
  "\<exists>b'. make_random_string (replicate 5 (CHR ''.'')) 4 [60, 1, 2, 3] = Some b' \<and>
        length (cstr_of b') = 3 \<and> drop 4 b' = ''.''"
  using make_random_string_ok [of 4 "replicate 5 (CHR ''.'')" "[60, 1, 2, 3]"]
  by (auto simp: numeral_eq_Suc)

end
