(* ===== verification/Wildcard.thy ===== *)
theory Wildcard
  imports Misc
begin

text \<open>
  Wildcard matching: \<open>do_match_wild\<close>, \<open>match_wild\<close> and \<open>match_wild_nocase\<close> of src/src/misc.c.
  Ban masks, auto-kill masks, access masks and list filters all go through this matcher.  The
  reference is the relation \<open>glob\<close>; the matcher is sound for it, and complete for the patterns
  in which no star is directly followed by a question mark.
\<close>

section \<open>The matcher\<close>

definition same_char :: "bool \<Rightarrow> char \<Rightarrow> char \<Rightarrow> bool" where
  "same_char docase a b \<longleftrightarrow> (if docase then a = b else tolower a = tolower b)"

text \<open>
  \<open>match_star p s\<close> is the loop over the positions \<open>s\<close> of the text in the case of a star that
  is not the last character of the pattern.  When it finds nothing, the switch is left and the
  outer loop goes on behind the star at the same position of the text.
\<close>

function do_match_wild :: "bool \<Rightarrow> cstr \<Rightarrow> cstr \<Rightarrow> bool"
  and match_star :: "bool \<Rightarrow> cstr \<Rightarrow> cstr \<Rightarrow> bool" where
  "do_match_wild docase [] str \<longleftrightarrow> str = []"
| "do_match_wild docase (c # p) str \<longleftrightarrow>
     (if c = CHR ''?'' then str \<noteq> [] \<and> do_match_wild docase p (tl str)
      else if c = CHR ''*''
      then p = [] \<or> match_star docase p str \<or> do_match_wild docase p str
      else same_char docase (hd0 str) c \<and> do_match_wild docase p (tl str))"
| "match_star docase p s \<longleftrightarrow>
     (if s = [] then False
      else same_char docase (hd0 s) (hd0 p) \<and> do_match_wild docase p s \<or>
           match_star docase p (tl s))"
  by pat_completeness auto
termination
  by (relation "measures
        [\<lambda>x. case x of Inl (d, p, s) \<Rightarrow> length p | Inr (d, p, s) \<Rightarrow> length p,
         \<lambda>x. case x of Inl (d, p, s) \<Rightarrow> 0 | Inr (d, p, s) \<Rightarrow> Suc (length s)]") auto

declare match_star.simps [simp del]

lemma match_star_simps [simp]:
  "\<not> match_star d p []"
  "match_star d p (x # s) \<longleftrightarrow>
     same_char d x (hd0 p) \<and> do_match_wild d p (x # s) \<or> match_star d p s"
  by (simp_all add: match_star.simps [of d p "[]"] match_star.simps [of d p "x # s"])

definition match_wild :: "cstr \<Rightarrow> cstr \<Rightarrow> bool" where
  "match_wild pattern str \<longleftrightarrow> do_match_wild True pattern str"

definition match_wild_nocase :: "cstr \<Rightarrow> cstr \<Rightarrow> bool" where
  "match_wild_nocase pattern str \<longleftrightarrow> do_match_wild False pattern str"

section \<open>The reference\<close>

inductive glob :: "bool \<Rightarrow> cstr \<Rightarrow> cstr \<Rightarrow> bool" for docase where
  glob_Nil: "glob docase [] []"
| glob_any: "glob docase p s \<Longrightarrow> glob docase (CHR ''?'' # p) (x # s)"
| glob_char: "c \<noteq> CHR ''?'' \<Longrightarrow> c \<noteq> CHR ''*'' \<Longrightarrow> same_char docase x c \<Longrightarrow> glob docase p s \<Longrightarrow>
    glob docase (c # p) (x # s)"
| glob_star: "glob docase p s \<Longrightarrow> glob docase (CHR ''*'' # p) (u @ s)"

inductive_cases glob_NilE: "glob d [] s"
inductive_cases glob_ConsE: "glob d (c # p) s"
inductive_simps glob_Nil_iff [simp]: "glob d [] s"

lemma glob_star_all: "glob d ''*'' s"
  using glob_star [OF glob_Nil, of d s] by simp

text \<open>A star absorbs any text in front of a match.\<close>

lemma glob_star_append: "glob d (CHR ''*'' # p) s \<Longrightarrow> glob d (CHR ''*'' # p) (u @ s)"
  by (erule glob_ConsE) (auto simp flip: append_assoc intro: glob_star)

lemma same_char_nul: "c \<noteq> nul \<Longrightarrow> \<not> same_char d nul c"
  by (metis same_char_def tolower_nul)

section \<open>Soundness and completeness\<close>

lemma match_sound:
  "cstring p \<Longrightarrow> do_match_wild d p s \<Longrightarrow> glob d p s"
  "cstring p \<Longrightarrow> match_star d p s \<Longrightarrow> \<exists>u t. s = u @ t \<and> glob d p t"
proof (induction d p s and d p s rule: do_match_wild_match_star.induct)
  case (2 d c p s)
  show ?case
  proof (cases "c = CHR ''*'' \<and> p \<noteq> []")
    case True
    then have "match_star d p s \<or> do_match_wild d p s" using "2.prems" by simp
    then obtain u t where "s = u @ t" "glob d p t"
    proof
      assume "match_star d p s"
      then show thesis using "2.IH"(2) True "2.prems"(1) that by auto
    next
      assume "do_match_wild d p s"
      then show thesis using "2.IH"(3) True "2.prems"(1) that [of "[]" s] by auto
    qed
    then show ?thesis using True by (auto intro: glob_star)
  next
    case False
    show ?thesis
    proof (cases s)
      case Nil
      then show ?thesis using 2 False glob_star_all same_char_nul [of c d]
        by (auto split: if_splits)
    next
      case (Cons x t)
      then show ?thesis using 2 False glob_star_all
        by (auto intro: glob_any glob_char split: if_splits)
    qed
  qed
next
  case (3 d p s)
  show ?case
  proof (cases s)
    case (Cons x t)
    then have "do_match_wild d p s \<or> match_star d p t" using "3.prems" by auto
    then show ?thesis
    proof
      assume "do_match_wild d p s"
      then have "glob d p s" using "3.IH"(1) "3.prems"(1) Cons by simp
      then show ?thesis by (metis append_Nil)
    next
      assume "match_star d p t"
      then obtain u t' where "t = u @ t'" "glob d p t'" using "3.IH"(2) "3.prems"(1) Cons by auto
      then show ?thesis using Cons by (metis append_Cons)
    qed
  qed (use "3.prems" in simp)
qed simp

text \<open>The patterns that contain no star directly followed by a question mark.\<close>

fun no_star_any :: "cstr \<Rightarrow> bool" where
  "no_star_any (a # b # p) \<longleftrightarrow> \<not> (a = CHR ''*'' \<and> b = CHR ''?'') \<and> no_star_any (b # p)"
| "no_star_any _ \<longleftrightarrow> True"

lemma match_star_suffix:
  "do_match_wild d p s \<Longrightarrow> s \<noteq> [] \<Longrightarrow> same_char d (hd0 s) (hd0 p) \<Longrightarrow> match_star d p (u @ s)"
proof (induction u)
  case Nil
  then show ?case by (cases s) simp_all
qed simp

lemma match_complete:
  "glob d p s \<Longrightarrow> no_star_any p \<Longrightarrow> do_match_wild d p s"
proof (induction p arbitrary: s)
  case (Cons c p)
  have nq: "no_star_any p" using Cons.prems(2) by (cases p) auto
  show ?case
  proof (cases "c = CHR ''*''")
    case True
    with Cons.prems(1) obtain u t where s: "s = u @ t" "glob d p t"
      by (auto elim: glob_ConsE)
    show ?thesis
    proof (cases p)
      case Nil
      then show ?thesis using True by simp
    next
      case (Cons b q)
      with \<open>no_star_any (c # p)\<close> True have b: "b \<noteq> CHR ''?''" by simp
      show ?thesis
      proof (cases "b = CHR ''*''")
        case True
        then have "glob d p (u @ t)" using s Cons glob_star_append by simp
        then show ?thesis using Cons.IH nq s \<open>c = CHR ''*''\<close> by simp
      next
        case False
        then have "t \<noteq> [] \<and> same_char d (hd0 t) (hd0 p)"
          using s(2) b unfolding Cons by (auto elim: glob_ConsE)
        then have "match_star d p s"
          using match_star_suffix Cons.IH [OF s(2) nq] s(1) by blast
        then show ?thesis using True by simp
      qed
    qed
  next
    case False
    then show ?thesis using Cons.prems(1) Cons.IH nq by (auto elim: glob_ConsE)
  qed
qed simp

text \<open>
  A match reported by \<open>match_wild\<close> or \<open>match_wild_nocase\<close> is a match of the reference, for
  every pattern and text: a mask never covers more users than it says.
\<close>

theorem match_wild_sound:
  assumes "cstring p"
  shows "(match_wild p s \<longrightarrow> glob True p s) \<and> (match_wild_nocase p s \<longrightarrow> glob False p s)"
  using match_sound(1) [OF assms] by (simp add: match_wild_def match_wild_nocase_def)

theorem match_wild_sound_witness:
  "match_wild_nocase ''*@*.ORG'' ''u@h.org'' \<and> glob False ''*@*.ORG'' ''u@h.org''"
proof -
  have "match_wild_nocase ''*@*.ORG'' ''u@h.org''"
    by (simp add: match_wild_nocase_def same_char_def tolower_def isupper_def)
      (simp add: char_of_eq_iff eq_commute [of _ "char_of _"])
  moreover from this have "glob False ''*@*.ORG'' ''u@h.org''"
    using match_wild_sound [of "''*@*.ORG''" "''u@h.org''"] by (simp only: cstring_def) simp
  ultimately show ?thesis by blast
qed

text \<open>
  C38: on patterns with no star directly followed by a question mark the matchers decide the
  reference relation exactly.
\<close>

theorem match_wild_exact:
  assumes "cstring p" and "no_star_any p"
  shows "(match_wild p s \<longleftrightarrow> glob True p s) \<and> (match_wild_nocase p s \<longleftrightarrow> glob False p s)"
  using match_sound(1) [OF assms(1)] match_complete [OF _ assms(2)]
  by (auto simp: match_wild_def match_wild_nocase_def)

theorem match_wild_exact_witness:
  "match_wild ''a?**c'' ''abxxc'' \<and> \<not> glob True ''a*c'' ''abd''"
proof -
  have 1: "match_wild ''a?**c'' ''abxxc''" "\<not> match_wild ''a*c'' ''abd''"
    by (simp_all add: match_wild_def same_char_def)
  then show ?thesis using match_wild_exact [of "''a*c''" "''abd''"] by simp
qed

text \<open>The restriction is needed: a star followed by a question mark misses matches.\<close>

lemma match_wild_star_any:
  "\<not> match_wild ''*?'' ''ab''" "glob True ''*?'' ''ab''"
proof -
  show "\<not> match_wild ''*?'' ''ab''"
    by (simp add: match_wild_def same_char_def)
  show "glob True ''*?'' ''ab''"
    using glob_star [OF glob_any [OF glob_Nil, where x = "CHR ''b''"], where u = "''a''"] by simp
qed


section \<open>The database function\<close>

text \<open>
  \<open>irc_match\<close> of src/mysql/blitzed_udf.c makes the matcher available to the SQL statements as
  IRC_MATCH(pattern, text [, docase]): it copies the two byte strings, cuts them at their first
  NUL, and matches without regard to case unless the third argument is there and not zero.
  Its \<open>do_match_wild\<close> is the same routine.
\<close>

definition irc_match :: "char list \<Rightarrow> char list \<Rightarrow> int option \<Rightarrow> bool" where
  "irc_match pat str third =
     (case third of
        Some d \<Rightarrow> if d \<noteq> 0 then do_match_wild True (cstr_of pat) (cstr_of str)
                  else do_match_wild False (cstr_of pat) (cstr_of str)
      | None \<Rightarrow> do_match_wild False (cstr_of pat) (cstr_of str))"

lemma cstring_cstr_of [simp]: "cstring (cstr_of b)"
  by (auto simp: cstring_def cstr_of_def dest: set_takeWhileD)

text \<open>
  A row the SQL filter IRC_MATCH selects is one the services' own matcher selects, and with
  a third argument of 0 or none the two agree on the text up to its first NUL.
\<close>

theorem irc_match_agrees:
  "(irc_match pat str third \<longrightarrow> glob (third \<noteq> None \<and> third \<noteq> Some 0) (cstr_of pat) (cstr_of str))
   \<and> (irc_match pat str None \<longleftrightarrow> match_wild_nocase (cstr_of pat) (cstr_of str))
   \<and> (irc_match pat str (Some 1) \<longleftrightarrow> match_wild (cstr_of pat) (cstr_of str))"
proof (intro conjI impI)
  assume "irc_match pat str third"
  then have "do_match_wild (third \<noteq> None \<and> third \<noteq> Some 0) (cstr_of pat) (cstr_of str)"
    by (cases third) (auto simp: irc_match_def split: if_splits)
  then show "glob (third \<noteq> None \<and> third \<noteq> Some 0) (cstr_of pat) (cstr_of str)"
    by (intro match_sound(1)) simp_all
qed (simp_all add: irc_match_def match_wild_def match_wild_nocase_def)

theorem irc_match_agrees_witness:
  "irc_match ''#o*'' ''#oftc'' (Some 1) \<and> glob True (cstr_of ''#o*'') (cstr_of ''#oftc'')"
proof -
  have m: "irc_match ''#o*'' ''#oftc'' (Some 1)"
    by (simp add: irc_match_def cstr_of_def same_char_def)
  show ?thesis using irc_match_agrees [of "''#o*''" "''#oftc''" "Some 1"] m by simp
qed

end
