(* ===== verification/Dlink.thy ===== *)
theory Dlink
  imports Prelude
begin

text \<open>
  The doubly linked lists of src/src/tools.c and src/include/tools.h on an explicit heap: nodes
  live at addresses, links are optional addresses, and following a null link is None.  The
  relation \<open>dlist_of h l xs\<close> says that the list header \<open>l\<close> represents the sequence \<open>xs\<close> of node
  addresses in \<open>h\<close>; every operation is shown to act on that sequence as its name says.
\<close>

named_theorems dl_simps \<open>segments of linked nodes\<close>

type_synonym addr = nat

record 'd dlink_node =
  dn_data :: "'d"
  dn_prev :: "addr option"
  dn_next :: "addr option"

record dlink_list =
  dl_head :: "addr option"
  dl_tail :: "addr option"
  dl_length :: "64 word"

type_synonym 'd heap = "addr \<Rightarrow> 'd dlink_node"

abbreviation upd :: "'d heap \<Rightarrow> addr \<Rightarrow> ('d dlink_node \<Rightarrow> 'd dlink_node) \<Rightarrow> 'd heap" where
  "upd h a f \<equiv> h(a := f (h a))"

section \<open>The operations\<close>

text \<open>\<open>dlinkAdd\<close> does not write \<open>m->prev\<close>: it relies on the node being fresh or deleted.\<close>

definition dlinkAdd ::
  "'d \<Rightarrow> addr \<Rightarrow> 'd heap \<times> dlink_list \<Rightarrow> 'd heap \<times> dlink_list" where
  "dlinkAdd data m st =
     (case st of (h, l) \<Rightarrow>
       (let h = upd h m (\<lambda>n. n\<lparr>dn_data := data, dn_next := dl_head l\<rparr>);
            (h, l) = (case dl_head l of
                        Some f \<Rightarrow> (upd h f (\<lambda>n. n\<lparr>dn_prev := Some m\<rparr>), l)
                      | None \<Rightarrow> if dl_tail l = None then (h, l\<lparr>dl_tail := Some m\<rparr>) else (h, l))
        in (h, l\<lparr>dl_head := Some m, dl_length := dl_length l + 1\<rparr>)))"

definition dlinkAddBefore ::
  "addr \<Rightarrow> 'd \<Rightarrow> addr \<Rightarrow> 'd heap \<times> dlink_list \<Rightarrow> ('d heap \<times> dlink_list) option" where
  "dlinkAddBefore b data m st =
     (case st of (h, l) \<Rightarrow>
       if Some b = dl_head l then Some (dlinkAdd data m (h, l))
       else
         (let h = upd h m (\<lambda>n. n\<lparr>dn_data := data\<rparr>)
          in case dn_prev (h b) of
               None \<Rightarrow> None
             | Some p \<Rightarrow>
                 (let h = upd h p (\<lambda>n. n\<lparr>dn_next := Some m\<rparr>);
                      h = upd h m (\<lambda>n. n\<lparr>dn_prev := dn_prev (h b)\<rparr>);
                      h = upd h b (\<lambda>n. n\<lparr>dn_prev := Some m\<rparr>);
                      h = upd h m (\<lambda>n. n\<lparr>dn_next := Some b\<rparr>)
                  in Some (h, l\<lparr>dl_length := dl_length l + 1\<rparr>))))"

definition dlinkAddTail ::
  "'d \<Rightarrow> addr \<Rightarrow> 'd heap \<times> dlink_list \<Rightarrow> 'd heap \<times> dlink_list" where
  "dlinkAddTail data m st =
     (case st of (h, l) \<Rightarrow>
       (let h = upd h m (\<lambda>n. n\<lparr>dn_data := data, dn_next := None, dn_prev := dl_tail l\<rparr>);
            (h, l) = (case dl_tail l of
                        Some t \<Rightarrow> (upd h t (\<lambda>n. n\<lparr>dn_next := Some m\<rparr>), l)
                      | None \<Rightarrow> if dl_head l = None then (h, l\<lparr>dl_head := Some m\<rparr>) else (h, l))
        in (h, l\<lparr>dl_tail := Some m, dl_length := dl_length l + 1\<rparr>)))"

definition dlinkDelete ::
  "addr \<Rightarrow> 'd heap \<times> dlink_list \<Rightarrow> 'd heap \<times> dlink_list" where
  "dlinkDelete m st =
     (case st of (h, l) \<Rightarrow>
       (let (h, l) = (case dn_next (h m) of
                        Some x \<Rightarrow> (upd h x (\<lambda>n. n\<lparr>dn_prev := dn_prev (h m)\<rparr>), l)
                      | None \<Rightarrow> (h, l\<lparr>dl_tail := dn_prev (h m)\<rparr>));
            (h, l) = (case dn_prev (h m) of
                        Some p \<Rightarrow> (upd h p (\<lambda>n. n\<lparr>dn_next := dn_next (h m)\<rparr>), l)
                      | None \<Rightarrow> (h, l\<lparr>dl_head := dn_next (h m)\<rparr>));
            h = upd h m (\<lambda>n. n\<lparr>dn_next := None, dn_prev := None\<rparr>)
        in (h, l\<lparr>dl_length := dl_length l - 1\<rparr>)))"

text \<open>The traversals may run forever on a cyclic heap; then they have no value.\<close>

partial_function (option) dlink_find_from ::
  "('d \<Rightarrow> bool) \<Rightarrow> 'd heap \<Rightarrow> addr option \<Rightarrow> addr option option" where
  "dlink_find_from P h ptr =
     (case ptr of
        None \<Rightarrow> Some None
      | Some a \<Rightarrow> if P (dn_data (h a)) then Some (Some a)
                  else dlink_find_from P h (dn_next (h a)))"

definition dlinkFind :: "'d \<Rightarrow> 'd heap \<times> dlink_list \<Rightarrow> addr option option" where
  "dlinkFind data st = (case st of (h, l) \<Rightarrow> dlink_find_from (\<lambda>d. d = data) h (dl_head l))"

definition dlinkMoveList ::
  "'d heap \<times> dlink_list \<times> dlink_list \<Rightarrow> ('d heap \<times> dlink_list \<times> dlink_list) option" where
  "dlinkMoveList st =
     (case st of (h, from, to) \<Rightarrow>
       (case dl_head from of
          None \<Rightarrow> Some (h, from, to)
        | Some f \<Rightarrow>
            (case dl_head to of
               None \<Rightarrow>
                 Some (h, from\<lparr>dl_head := None, dl_tail := None, dl_length := 0\<rparr>,
                       to\<lparr>dl_head := dl_head from, dl_tail := dl_tail from,
                          dl_length := dl_length from\<rparr>)
             | Some t \<Rightarrow>
                 (case dl_tail from of
                    None \<Rightarrow> None
                  | Some e \<Rightarrow>
                      (let h = upd h e (\<lambda>n. n\<lparr>dn_next := Some t\<rparr>);
                           h = upd h f (\<lambda>n. n\<lparr>dn_prev := dn_prev (h t)\<rparr>);
                           h = upd h t (\<lambda>n. n\<lparr>dn_prev := Some e\<rparr>)
                       in Some (h, from\<lparr>dl_head := None, dl_tail := None, dl_length := 0\<rparr>,
                                to\<lparr>dl_head := Some f,
                                   dl_length := dl_length to + dl_length from\<rparr>))))))"

text \<open>\<open>dlinkFindDelete\<close> leaves the link of the preceding node, or the head, as it was.\<close>

definition dlinkFindDelete ::
  "'d \<Rightarrow> 'd heap \<times> dlink_list \<Rightarrow> (addr option \<times> 'd heap \<times> dlink_list) option" where
  "dlinkFindDelete data st =
     (case st of (h, l) \<Rightarrow>
       (case dlink_find_from (\<lambda>d. d = data) h (dl_head l) of
          None \<Rightarrow> None
        | Some None \<Rightarrow> Some (None, h, l)
        | Some (Some m) \<Rightarrow>
            (let (h, l) = (case dn_next (h m) of
                             Some x \<Rightarrow> (upd h x (\<lambda>n. n\<lparr>dn_prev := dn_prev (h m)\<rparr>), l)
                           | None \<Rightarrow> (h, l\<lparr>dl_tail := dn_prev (h m)\<rparr>));
                 h = upd h m (\<lambda>n. n\<lparr>dn_next := None, dn_prev := None\<rparr>)
             in Some (Some m, h, l\<lparr>dl_length := dl_length l - 1\<rparr>))))"

section \<open>Segments and lists\<close>

text \<open>The first address of a segment, or what follows it; the last, or what precedes it.\<close>

definition first_or :: "addr list \<Rightarrow> addr option \<Rightarrow> addr option" where
  "first_or xs q = (case xs of [] \<Rightarrow> q | x # _ \<Rightarrow> Some x)"

definition last_or :: "addr option \<Rightarrow> addr list \<Rightarrow> addr option" where
  "last_or p xs = (if xs = [] then p else Some (last xs))"

fun chain :: "'d heap \<Rightarrow> addr option \<Rightarrow> addr list \<Rightarrow> addr option \<Rightarrow> bool" where
  "chain h p [] q \<longleftrightarrow> True"
| "chain h p (x # xs) q \<longleftrightarrow>
     dn_prev (h x) = p \<and> dn_next (h x) = first_or xs q \<and> chain h (Some x) xs q"

definition dlist_of :: "'d heap \<Rightarrow> dlink_list \<Rightarrow> addr list \<Rightarrow> bool" where
  "dlist_of h l xs \<longleftrightarrow>
     distinct xs \<and> chain h None xs None \<and> dl_head l = first_or xs None \<and>
     dl_tail l = last_or None xs \<and> dl_length l = of_nat (length xs)"

lemma first_or_simps [simp, dl_simps]:
  "first_or [] q = q" "first_or (x # xs) q = Some x"
  "first_or (xs @ ys) q = first_or xs (first_or ys q)"
  by (auto simp: first_or_def split: list.splits)

lemma last_or_simps [simp, dl_simps]:
  "last_or p [] = p" "last_or p (xs @ [x]) = Some x"
  "last_or p (x # xs) = last_or (Some x) xs"
  "last_or p (xs @ ys) = last_or (last_or p xs) ys"
  by (auto simp: last_or_def)

lemma first_or_None [simp]: "first_or xs None = None \<longleftrightarrow> xs = []"
  by (cases xs) auto

lemma last_or_None [simp]: "last_or None xs = None \<longleftrightarrow> xs = []"
  by (auto simp: last_or_def)

lemma chain_append [simp, dl_simps]:
  "chain h p (xs @ ys) q \<longleftrightarrow> chain h p xs (first_or ys q) \<and> chain h (last_or p xs) ys q"
  by (induction xs arbitrary: p) auto

lemma chain_frame [simp, dl_simps]: "a \<notin> set xs \<Longrightarrow> chain (h(a := n)) p xs q \<longleftrightarrow> chain h p xs q"
  by (induction xs arbitrary: p) auto

section \<open>The operations on the represented sequence\<close>

lemma dlinkAdd_ok:
  assumes "dlist_of h l xs" and "m \<notin> set xs" and "dn_prev (h m) = None"
    and "dlinkAdd d m (h, l) = (h', l')"
  shows "dlist_of h' l' (m # xs)" and "dn_data (h' m) = d"
    and "a \<noteq> m \<Longrightarrow> dn_data (h' a) = dn_data (h a)"
  using assms by (cases xs; auto simp: dlist_of_def dlinkAdd_def Let_def)+

lemma dlinkAddTail_ok:
  assumes "dlist_of h l xs" and "m \<notin> set xs" and "dlinkAddTail d m (h, l) = (h', l')"
  shows "dlist_of h' l' (xs @ [m])" and "dn_data (h' m) = d"
    and "a \<noteq> m \<Longrightarrow> dn_data (h' a) = dn_data (h a)"
proof -
  have "dlist_of h' l' (xs @ [m]) \<and> dn_data (h' m) = d \<and>
    (a \<noteq> m \<longrightarrow> dn_data (h' a) = dn_data (h a))"
  proof (cases xs rule: rev_cases)
    case Nil
    then show ?thesis using assms by (auto simp: dlist_of_def dlinkAddTail_def Let_def)
  next
    case (snoc us t)
    have l: "distinct (us @ [t])" "chain h None us (Some t)" "dn_prev (h t) = last_or None us"
        "dl_head l = first_or us (Some t)" "dl_tail l = Some t"
        "dl_length l = of_nat (length (us @ [t]))" "m \<noteq> t" "m \<notin> set us"
      using assms(1,2) unfolding snoc by (simp_all add: dlist_of_def)
    have e: "h' = upd (upd h m (\<lambda>n. n\<lparr>dn_data := d, dn_next := None, dn_prev := Some t\<rparr>)) t
                (\<lambda>n. n\<lparr>dn_next := Some m\<rparr>)"
        "l' = l\<lparr>dl_tail := Some m, dl_length := dl_length l + 1\<rparr>"
      using assms(3) l(5) by (simp_all add: dlinkAddTail_def Let_def)
    show ?thesis
      using l unfolding e snoc dlist_of_def by simp
  qed
  then show "dlist_of h' l' (xs @ [m])" and "dn_data (h' m) = d"
    and "a \<noteq> m \<Longrightarrow> dn_data (h' a) = dn_data (h a)" by auto
qed

lemma dlinkAddBefore_ok:
  assumes "dlist_of h l (us @ b # vs)" and "m \<notin> set (us @ b # vs)" and "dn_prev (h m) = None"
  obtains h' l' where "dlinkAddBefore b d m (h, l) = Some (h', l')"
    and "dlist_of h' l' (us @ m # b # vs)" and "dn_data (h' m) = d"
    and "\<forall>a. a \<noteq> m \<longrightarrow> dn_data (h' a) = dn_data (h a)"
proof (cases us rule: rev_cases)
  case Nil
  obtain h' l' where hl: "dlinkAdd d m (h, l) = (h', l')" by (metis surj_pair)
  have "dlinkAddBefore b d m (h, l) = Some (h', l')"
    using assms(1) Nil hl by (simp add: dlinkAddBefore_def dlist_of_def)
  then show thesis
    using that dlinkAdd_ok [OF assms(1,2,3) hl] Nil by auto
next
  case (snoc ws p)
  have pb: "dn_prev (h b) = Some p" and ne: "dl_head l \<noteq> Some b"
    using assms(1) snoc by (cases ws; auto simp: dlist_of_def)+
  have "case dlinkAddBefore b d m (h, l) of None \<Rightarrow> False
      | Some (h', l') \<Rightarrow> dlist_of h' l' (us @ m # b # vs) \<and> dn_data (h' m) = d \<and>
          (\<forall>a. a \<noteq> m \<longrightarrow> dn_data (h' a) = dn_data (h a))"
    using assms snoc ne pb by (auto simp: dlinkAddBefore_def dlist_of_def Let_def)
  then show thesis using that by (auto split: option.splits)
qed

lemma dlinkDelete_ok:
  assumes "dlist_of h l (us @ m # vs)" and "dlinkDelete m (h, l) = (h', l')"
  shows "dlist_of h' l' (us @ vs)" and "dn_prev (h' m) = None \<and> dn_next (h' m) = None"
    and "dn_data (h' a) = dn_data (h a)"
proof -
  have "dlist_of h' l' (us @ vs) \<and> dn_prev (h' m) = None \<and> dn_next (h' m) = None \<and>
        dn_data (h' a) = dn_data (h a)"
  proof (cases us rule: rev_cases)
    case Nil
    then show ?thesis using assms
      by (cases vs) (auto simp: dlist_of_def dlinkDelete_def Let_def)
  next
    case (snoc ws p)
    then show ?thesis using assms
      by (cases vs) (auto simp: dlist_of_def dlinkDelete_def Let_def)
  qed
  then show "dlist_of h' l' (us @ vs)" and "dn_prev (h' m) = None \<and> dn_next (h' m) = None"
    and "dn_data (h' a) = dn_data (h a)" by auto
qed

lemma dlink_find_chain:
  "chain h p xs None \<Longrightarrow>
   dlink_find_from P h (first_or xs None) = Some (find (\<lambda>a. P (dn_data (h a))) xs)"
proof (induction xs arbitrary: p)
  case Nil
  show ?case by (simp add: dlink_find_from.simps)
next
  case (Cons x xs)
  then show ?case by (subst dlink_find_from.simps) auto
qed

lemma dlinkMoveList_ok:
  assumes "dlist_of h from xs" and "dlist_of h to ys" and "set xs \<inter> set ys = {}"
  obtains h' from' to' where "dlinkMoveList (h, from, to) = Some (h', from', to')"
    and "dlist_of h' from' []" and "dlist_of h' to' (xs @ ys)"
proof (cases "xs = [] \<or> ys = []")
  case True
  then have "case dlinkMoveList (h, from, to) of None \<Rightarrow> False
      | Some (h', from', to') \<Rightarrow> dlist_of h' from' [] \<and> dlist_of h' to' (xs @ ys)"
    using assms by (cases xs; cases ys) (auto simp: dlinkMoveList_def dlist_of_def)
  then show thesis using that by (auto split: option.splits)
next
  case False
  then obtain us e y vs where xy: "xs = us @ [e]" "ys = y # vs"
    by (metis rev_exhaust list.exhaust)
  then obtain f where f: "first_or us (Some e) = Some f" "f \<in> set xs"
    by (cases us) auto
  have "case dlinkMoveList (h, from, to) of None \<Rightarrow> False
      | Some (h', from', to') \<Rightarrow> dlist_of h' from' [] \<and> dlist_of h' to' (xs @ ys)"
    using assms xy f by (cases us) (auto simp: dlinkMoveList_def dlist_of_def Let_def)
  then show thesis using that by (auto split: option.splits)
qed

section \<open>The contract of a linked sequence\<close>

text \<open>
  What the users of the lists rely on: a state represents a sequence of keys with a value each,
  \<open>add\<close> puts a fresh key in front, \<open>del\<close> takes a key out.  The lemma proved from the contract
  is the loop that expires entries while it walks the list (\<open>DLINK_FOREACH_SAFE\<close>): it keeps
  exactly the entries that are not to be dropped, in their order, with their values.
\<close>

locale linked_seq =
  fixes rep :: "'s \<Rightarrow> 'k list \<Rightarrow> bool"
    and val :: "'s \<Rightarrow> 'k \<Rightarrow> 'd"
    and fresh :: "'s \<Rightarrow> 'k \<Rightarrow> bool"
    and add :: "'d \<Rightarrow> 'k \<Rightarrow> 's \<Rightarrow> 's"
    and del :: "'k \<Rightarrow> 's \<Rightarrow> 's"
  assumes rep_distinct: "rep s xs \<Longrightarrow> distinct xs"
    and add_rep: "rep s xs \<Longrightarrow> k \<notin> set xs \<Longrightarrow> fresh s k \<Longrightarrow> rep (add d k s) (k # xs)"
    and add_val: "rep s xs \<Longrightarrow> k \<notin> set xs \<Longrightarrow> fresh s k \<Longrightarrow>
                    val (add d k s) j = (if j = k then d else val s j)"
    and del_rep: "rep s xs \<Longrightarrow> k \<in> set xs \<Longrightarrow> rep (del k s) (remove1 k xs)"
    and del_val: "rep s xs \<Longrightarrow> k \<in> set xs \<Longrightarrow> val (del k s) j = val s j"
    and del_fresh: "rep s xs \<Longrightarrow> k \<in> set xs \<Longrightarrow> fresh (del k s) k"
begin

fun sweep :: "('d \<Rightarrow> bool) \<Rightarrow> 'k list \<Rightarrow> 's \<Rightarrow> 's" where
  "sweep P [] s = s"
| "sweep P (k # ks) s = (if P (val s k) then sweep P ks (del k s) else sweep P ks s)"

lemma sweep_suffix:
  assumes "rep s (us @ ks)"
  shows "rep (sweep P ks s) (us @ filter (\<lambda>k. \<not> P (val s k)) ks) \<and> val (sweep P ks s) = val s"
  using assms
proof (induction ks arbitrary: s us)
  case (Cons k ks)
  have k: "k \<in> set (us @ k # ks)" "k \<notin> set us"
    using rep_distinct [OF Cons.prems] by auto
  show ?case
  proof (cases "P (val s k)")
    case True
    have "rep (del k s) (us @ ks)"
      using del_rep [OF Cons.prems k(1)] k(2) by (simp add: remove1_append)
    moreover have v: "val (del k s) = val s"
      using del_val [OF Cons.prems k(1)] by auto
    ultimately show ?thesis using Cons.IH [of "del k s" us] True by simp
  next
    case False
    then show ?thesis using Cons.IH [of s "us @ [k]"] Cons.prems by simp
  qed
qed simp

lemma sweep_rep: "rep s xs \<Longrightarrow> rep (sweep P xs s) (filter (\<lambda>k. \<not> P (val s k)) xs)"
  using sweep_suffix [of s "[]" xs P] by simp

lemma sweep_val: "rep s xs \<Longrightarrow> val (sweep P xs s) = val s"
  using sweep_suffix [of s "[]" xs P] by simp

lemma add_del: "rep s xs \<Longrightarrow> k \<notin> set xs \<Longrightarrow> fresh s k \<Longrightarrow> rep (del k (add d k s)) xs"
  by (metis add_rep del_rep list.set_intros(1) remove1.simps(2))

end

abbreviation dl_rep :: "'d heap \<times> dlink_list \<Rightarrow> addr list \<Rightarrow> bool" where
  "dl_rep st xs \<equiv> dlist_of (fst st) (snd st) xs"

interpretation dl: linked_seq dl_rep "\<lambda>st a. dn_data (fst st a)"
  "\<lambda>st a. dn_prev (fst st a) = None" dlinkAdd dlinkDelete
proof
  fix st :: "'d heap \<times> dlink_list" and xs and k and d :: 'd and j
  assume rep: "dl_rep st xs"
  then show "distinct xs" by (simp add: dlist_of_def)
  {
    assume k: "k \<notin> set xs" and fr: "dn_prev (fst st k) = None"
    obtain h' l' where e: "dlinkAdd d k (fst st, snd st) = (h', l')" by (metis surj_pair)
    note ok = dlinkAdd_ok [OF rep k fr e]
    show "dl_rep (dlinkAdd d k st) (k # xs)"
      and "dn_data (fst (dlinkAdd d k st) j) = (if j = k then d else dn_data (fst st j))"
      using ok e by simp_all
  }
  {
    assume "k \<in> set xs"
    then obtain us vs where xs: "xs = us @ k # vs" "k \<notin> set us" by (meson split_list_first)
    obtain h' l' where e: "dlinkDelete k (fst st, snd st) = (h', l')" by (metis surj_pair)
    note ok = dlinkDelete_ok [OF rep [unfolded xs(1)] e]
    show "dl_rep (dlinkDelete k st) (remove1 k xs)"
      and "dn_data (fst (dlinkDelete k st) j) = dn_data (fst st j)"
      and "dn_prev (fst (dlinkDelete k st) k) = None"
      using ok e xs by (simp_all add: remove1_append)
  }
qed

text \<open>The data the nodes hold, address by address.\<close>

abbreviation held_data :: "'d heap \<times> dlink_list \<Rightarrow> addr \<Rightarrow> 'd" where
  "held_data st \<equiv> \<lambda>a. dn_data (fst st a)"

text \<open>
  C36: every insertion of the list library puts the node where its name says: in front, at the
  end, or before the given node; the other nodes keep their order, the new node holds the given
  data and every other node the data it held.
\<close>

theorem dlink_insertions:
  assumes "dlist_of h l xs" and "m \<notin> set xs" and "dn_prev (h m) = None"
  shows "dl_rep (dlinkAdd d m (h, l)) (m # xs) \<and>
    held_data (dlinkAdd d m (h, l)) = (held_data (h, l))(m := d) \<and>
    dl_rep (dlinkAddTail d m (h, l)) (xs @ [m]) \<and>
    held_data (dlinkAddTail d m (h, l)) = (held_data (h, l))(m := d) \<and>
    (\<forall>us b vs. xs = us @ b # vs \<longrightarrow>
       (\<exists>st. dlinkAddBefore b d m (h, l) = Some st \<and> dl_rep st (us @ m # b # vs) \<and>
         held_data st = (held_data (h, l))(m := d)))"
proof (intro conjI allI impI)
  show "dl_rep (dlinkAdd d m (h, l)) (m # xs)"
    using dl.add_rep [of "(h, l)" xs m d] assms by simp
  show "held_data (dlinkAdd d m (h, l)) = (held_data (h, l))(m := d)"
    using dl.add_val [of "(h, l)" xs m d] assms by (simp add: fun_eq_iff)
  obtain h' l' where tail: "dlinkAddTail d m (h, l) = (h', l')" by (metis prod.collapse)
  show "dl_rep (dlinkAddTail d m (h, l)) (xs @ [m])"
    "held_data (dlinkAddTail d m (h, l)) = (held_data (h, l))(m := d)"
    using dlinkAddTail_ok [OF assms(1,2) tail] by (simp_all add: tail fun_eq_iff)
  fix us b vs assume xs: "xs = us @ b # vs"
  obtain h' l' where "dlinkAddBefore b d m (h, l) = Some (h', l')" "dlist_of h' l' (us @ m # b # vs)"
    "dn_data (h' m) = d" "\<forall>a. a \<noteq> m \<longrightarrow> dn_data (h' a) = dn_data (h a)"
    using dlinkAddBefore_ok [of h l us b vs m d] assms xs by metis
  then show "\<exists>st. dlinkAddBefore b d m (h, l) = Some st \<and> dl_rep st (us @ m # b # vs) \<and>
      held_data st = (held_data (h, l))(m := d)"
    by (intro exI [of _ "(h', l')"]) (simp add: fun_eq_iff)
qed

definition empty_list :: dlink_list where
  "empty_list = \<lparr>dl_head = None, dl_tail = None, dl_length = 0\<rparr>"

definition blank_heap :: "nat heap" where
  "blank_heap = (\<lambda>_. \<lparr>dn_data = 0, dn_prev = None, dn_next = None\<rparr>)"

lemma empty_dlist: "dlist_of h empty_list []"
  by (simp add: dlist_of_def empty_list_def)

theorem dlink_insertions_witness:
  "\<exists>st. dlinkAddBefore 3 9 5 (dlinkAddTail 7 3 (blank_heap, empty_list)) = Some st \<and>
     dl_rep st [5, 3] \<and> held_data st 5 = 9 \<and> held_data st 3 = 7"
proof -
  define h where "h = fst (dlinkAddTail 7 3 (blank_heap, empty_list))"
  define l where "l = snd (dlinkAddTail 7 3 (blank_heap, empty_list))"
  have e: "dlinkAddTail 7 3 (blank_heap, empty_list) = (h, l)" by (simp add: h_def l_def)
  have "dlist_of h l [3]" "dn_prev (h 5) = None" "dn_data (h 3) = 7"
    by (simp_all add: h_def l_def dlinkAddTail_def blank_heap_def empty_list_def dlist_of_def)
  then have "\<forall>us b vs. [3] = us @ b # vs \<longrightarrow>
      (\<exists>st. dlinkAddBefore b 9 5 (h, l) = Some st \<and> dl_rep st (us @ 5 # b # vs) \<and>
        held_data st = (held_data (h, l))(5 := 9))"
    using dlink_insertions [of h l "[3]" 5 9] by simp
  from this [rule_format, of "[]" 3 "[]"]
  obtain st where st: "dlinkAddBefore 3 9 5 (h, l) = Some st" "dl_rep st [5, 3]"
    "held_data st = (held_data (h, l))(5 := 9)"
    by auto
  have "held_data st 5 = 9 \<and> held_data st 3 = 7"
    using fun_cong [OF st(3), of 5] fun_cong [OF st(3), of 3] \<open>dn_data (h 3) = 7\<close> by simp
  then show ?thesis using st(1,2) unfolding e by blast
qed

text \<open>
  \<open>dlinkDelete\<close> removes exactly the given node, clears its links and keeps all data;
  \<open>dlinkFind\<close> terminates on every well-formed list and returns the first node with the data.
\<close>

theorem dlink_delete_find:
  assumes "dlist_of h l xs" and "m \<in> set xs"
  shows "dl_rep (dlinkDelete m (h, l)) (remove1 m xs)
    \<and> dn_prev (fst (dlinkDelete m (h, l)) m) = None
    \<and> (\<forall>a. dn_data (fst (dlinkDelete m (h, l)) a) = dn_data (h a))
    \<and> dlinkFind d (h, l) = Some (find (\<lambda>a. dn_data (h a) = d) xs)"
  using dl.del_rep [of "(h, l)" xs m] dl.del_fresh [of "(h, l)" xs m]
    dl.del_val [of "(h, l)" xs m] dlink_find_chain [of h None xs "\<lambda>x. x = d"] assms
  by (simp add: dlinkFind_def dlist_of_def)

theorem dlink_delete_find_witness:
  "dl_rep (dlinkDelete 3 (dlinkAddTail (7::nat) 3 (blank_heap, empty_list))) []"
proof -
  have "dlist_of (fst (dlinkAddTail 7 3 (blank_heap, empty_list)))
          (snd (dlinkAddTail 7 3 (blank_heap, empty_list))) [3]"
    by (simp add: dlinkAddTail_def blank_heap_def empty_list_def dlist_of_def)
  from dlink_delete_find [OF this, of 3 0] show ?thesis by simp
qed

text \<open>
  \<open>dlinkMoveList\<close> moves the whole first list in front of the second and leaves the first
  empty.
\<close>

theorem dlink_move_list:
  assumes "dlist_of h from xs" and "dlist_of h to ys" and "set xs \<inter> set ys = {}"
  shows "\<exists>h' from' to'. dlinkMoveList (h, from, to) = Some (h', from', to') \<and>
           dlist_of h' from' [] \<and> dlist_of h' to' (xs @ ys)"
  using dlinkMoveList_ok [OF assms] by metis

theorem dlink_move_list_witness:
  "\<exists>h' from' to'. dlinkMoveList (blank_heap, empty_list, empty_list) = Some (h', from', to') \<and>
     dlist_of h' to' []"
  using dlink_move_list [OF empty_dlist empty_dlist, of blank_heap] by auto

text \<open>
  \<open>dlinkFindDelete\<close> does not unlink the node: the head still points at it.
\<close>

lemma dlinkFindDelete_stale:
  "dlinkFindDelete 7 (dlinkAdd 7 3 (blank_heap, empty_list)) = Some (Some 3, h, l) \<Longrightarrow>
   dl_head l = Some 3 \<and> dl_length l = 0"
  by (auto simp: dlinkFindDelete_def dlinkAdd_def blank_heap_def empty_list_def Let_def
      dlink_find_from.simps)

end
