(* ===== verification/Users.thy ===== *)
theory Users
  imports Wildcard
begin

text \<open>
  The table of online users of src/src/users.c: the 1024 hash chains, the search by nickname, the
  iteration with firstuser and nextuser, the user modes, and the masks (matching, splitting and
  making).  A User pointer is the identity \<open>u_uid\<close> of its record; a chain is the list of its
  records in link order.
\<close>

named_theorems user_simps \<open>selectors of the user table\<close>

abbreviation NICKMAX :: nat where "NICKMAX \<equiv> 32"

record user =
  u_uid :: nat
  u_nick :: cstr
  u_nick_id :: nat
  u_real_id :: nat
  u_server :: "nat option"
  u_username :: cstr
  u_host :: cstr
  u_realname :: cstr
  u_services_stamp :: nat
  u_signon :: int
  u_my_signon :: int
  u_mode :: "32 word"
  u_chans :: "cstr list"
  u_founder_chans :: "nat list"
  u_invalid_pw_count :: int
  u_invalid_pw_time :: int
  u_lastmemosend :: int

definition UMODE_o :: "32 word" where "UMODE_o = 0x01"
definition UMODE_i :: "32 word" where "UMODE_i = 0x02"
definition UMODE_s :: "32 word" where "UMODE_s = 0x04"
definition UMODE_w :: "32 word" where "UMODE_w = 0x08"
definition UMODE_g :: "32 word" where "UMODE_g = 0x10"
definition UMODE_r :: "32 word" where "UMODE_r = 0x80"

type_synonym userlist = "nat \<Rightarrow> user list"

section \<open>The hash table\<close>

definition USERHASH :: nat where "USERHASH = 1024"

definition HASH :: "cstr \<Rightarrow> nat" where
  "HASH nick = push_bit 5 (ord (hd0 nick) AND 31) OR (ord (hd0 (tl nick)) AND 31)"

definition finduser :: "userlist \<Rightarrow> cstr \<Rightarrow> user option" where
  "finduser ul nick = find (\<lambda>u. irc_stricmp (u_nick u) nick = 0) (ul (HASH nick))"

text \<open>Linking a record at the head of the chain of its nickname, and unlinking it.\<close>

definition user_link :: "user \<Rightarrow> userlist \<Rightarrow> userlist" where
  "user_link u ul = ul(HASH (u_nick u) := u # ul (HASH (u_nick u)))"

definition user_unlink :: "user \<Rightarrow> userlist \<Rightarrow> userlist" where
  "user_unlink u ul =
     ul(HASH (u_nick u) := filter (\<lambda>v. u_uid v \<noteq> u_uid u) (ul (HASH (u_nick u))))"

text \<open>A write through the pointer to a user, which leaves its nickname alone.\<close>

definition user_set :: "(user \<Rightarrow> user) \<Rightarrow> nat \<Rightarrow> userlist \<Rightarrow> userlist" where
  "user_set f i ul = (\<lambda>b. map (\<lambda>u. if u_uid u = i then f u else u) (ul b))"

definition all_users :: "userlist \<Rightarrow> user list" where
  "all_users ul = concat (map ul [0..<USERHASH])"

text \<open>
  Well-formedness: every record is in the chain of its nickname, and neither two records nor two
  nicknames coincide.
\<close>

definition users_ok :: "userlist \<Rightarrow> bool" where
  "users_ok ul \<longleftrightarrow>
     (\<forall>b. \<forall>u\<in>set (ul b). HASH (u_nick u) = b \<and> cstring (u_nick u)) \<and>
     (\<forall>b. distinct (map u_uid (ul b))) \<and>
     (\<forall>b. distinct (map (\<lambda>u. strlower (u_nick u)) (ul b))) \<and>
     (\<forall>b c. \<forall>u\<in>set (ul b). \<forall>v\<in>set (ul c). u_uid u = u_uid v \<longrightarrow> u = v)"

lemma and_31: "n AND 31 = n mod (32 :: nat)"
proof -
  have "(31 :: nat) = mask 5" by (simp add: mask_eq_exp_minus_1)
  then have "n AND 31 = take_bit 5 n" by (simp only: take_bit_eq_mask)
  then show ?thesis by (simp add: take_bit_eq_mod)
qed

lemma ord_and_31: "ord (tolower c) AND 31 = ord c AND (31 :: nat)"
proof -
  have "(ord c + 32) mod 32 = ord c mod 32" by simp
  then show ?thesis by (simp add: and_31 ord_tolower)
qed

lemma hd0_strlower: "hd0 (strlower s) = tolower (hd0 s)" "tl (strlower s) = strlower (tl s)"
  by (cases s; simp add: strlower_def)+

text \<open>Case folding does not change the chain.\<close>

lemma HASH_strlower: "HASH (strlower s) = HASH s"
  by (simp add: HASH_def hd0_strlower ord_and_31)

lemma HASH_same: "strlower s = strlower t \<Longrightarrow> HASH s = HASH t"
  by (metis HASH_strlower)

lemma or_less_exp: "x < 2 ^ n \<Longrightarrow> y < 2 ^ n \<Longrightarrow> x OR y < (2 ^ n :: nat)"
proof -
  assume "x < 2 ^ n" "y < 2 ^ n"
  then have "take_bit n x = x" "take_bit n y = y" by (simp_all add: take_bit_nat_eq_self_iff)
  then have "take_bit n (x OR y) = x OR y" by (simp only: take_bit_or)
  then show "x OR y < 2 ^ n" by (simp only: take_bit_nat_eq_self_iff)
qed

lemma HASH_lt [simp]: "HASH s < USERHASH"
proof -
  have y: "ord (hd0 (tl s)) AND 31 < (2 ^ 10 :: nat)"
    using mod_less_divisor [of 32 "ord (hd0 (tl s)) :: nat"] unfolding and_31 by simp
  have "ord (hd0 s) AND 31 < (32 :: nat)" by (simp add: and_31)
  then have x: "push_bit 5 (ord (hd0 s) AND 31) < (2 ^ 10 :: nat)"
    unfolding push_bit_eq_mult by simp
  show ?thesis unfolding HASH_def USERHASH_def using or_less_exp [OF x y] by simp
qed

lemma all_users_set: "u \<in> set (all_users ul) \<longleftrightarrow> (\<exists>b<USERHASH. u \<in> set (ul b))"
  by (auto simp: all_users_def)

lemma users_ok_bucket: "users_ok ul \<Longrightarrow> u \<in> set (ul b) \<Longrightarrow> HASH (u_nick u) = b \<and> b < USERHASH \<and> cstring (u_nick u)"
  unfolding users_ok_def by (metis HASH_lt)

lemma finduser_char:
  assumes "users_ok ul" and "cstring nick"
  shows "finduser ul nick = Some u \<longleftrightarrow> u \<in> set (all_users ul) \<and> strlower (u_nick u) = strlower nick"
proof
  assume "finduser ul nick = Some u"
  then have u: "u \<in> set (ul (HASH nick))" "irc_stricmp (u_nick u) nick = 0"
    using find_Some_set by (fastforce simp: finduser_def)+
  then show "u \<in> set (all_users ul) \<and> strlower (u_nick u) = strlower nick"
    using users_ok_bucket [OF assms(1) u(1)] assms(2) irc_stricmp_zero all_users_set by blast
next
  assume r: "u \<in> set (all_users ul) \<and> strlower (u_nick u) = strlower nick"
  then obtain b where b: "u \<in> set (ul b)" by (auto simp: all_users_set)
  then have ub: "u \<in> set (ul (HASH nick))" and cs: "cstring (u_nick u)"
    using users_ok_bucket [OF assms(1) b] r HASH_same by metis+
  have z: "irc_stricmp (u_nick u) nick = 0" using irc_stricmp_zero [OF cs assms(2)] r by blast
  have d: "distinct (map (\<lambda>u. strlower (u_nick u)) (ul (HASH nick)))"
    using assms(1) by (simp add: users_ok_def)
  obtain v where v: "finduser ul nick = Some v"
    using ub z by (cases "finduser ul nick") (auto simp: finduser_def find_None_iff)
  then have v': "v \<in> set (ul (HASH nick))" "irc_stricmp (u_nick v) nick = 0"
    using find_Some_set by (fastforce simp: finduser_def)+
  then have "strlower (u_nick v) = strlower nick"
    using users_ok_bucket [OF assms(1) v'(1)] assms(2) irc_stricmp_zero by blast
  then have "v = u" using d ub v'(1) r by (auto simp: distinct_map inj_on_def)
  then show "finduser ul nick = Some u" using v by simp
qed

definition sample_user :: "nat \<Rightarrow> cstr \<Rightarrow> user" where
  "sample_user i nick =
     \<lparr>u_uid = i, u_nick = nick, u_nick_id = 0, u_real_id = 0, u_server = None, u_username = ''user'',
      u_host = ''host.example.org'', u_realname = ''Real Name'', u_services_stamp = 0, u_signon = 0,
      u_my_signon = 0, u_mode = 0, u_chans = [], u_founder_chans = [], u_invalid_pw_count = 0,
      u_invalid_pw_time = 0, u_lastmemosend = 0\<rparr>"

lemma sample_user_nick [simp]: "u_nick (sample_user i nick) = nick"
  by (simp add: sample_user_def)

lemma users_ok_single: "cstring (u_nick u) \<Longrightarrow> users_ok (user_link u (\<lambda>_. []))"
  by (auto simp: users_ok_def user_link_def)

text \<open>
  \<open>finduser\<close> finds a user exactly when one with that nickname, up to case, is on the
  network, whichever chain it is in, and the user it finds is the only one.
\<close>

theorem finduser_correct:
  assumes "users_ok ul" and "cstring nick"
  shows "finduser ul nick = Some u \<longleftrightarrow> u \<in> set (all_users ul) \<and> strlower (u_nick u) = strlower nick"
  by (rule finduser_char [OF assms])

theorem finduser_correct_witness:
  "finduser (user_link (sample_user 1 ''NickServ'') (\<lambda>_. [])) ''nickserv''
     = Some (sample_user 1 ''NickServ'')"
proof -
  let ?u = "sample_user 1 ''NickServ''"
  have ok: "users_ok (user_link ?u (\<lambda>_. []))" by (rule users_ok_single) (unfold sample_user_nick, code_simp)
  have "?u \<in> set (all_users (user_link ?u (\<lambda>_. [])))"
    unfolding all_users_set using HASH_lt by (auto simp: user_link_def)
  moreover have "strlower ''NickServ'' = strlower ''nickserv''" by code_simp
  ultimately show ?thesis
    using finduser_correct [OF ok, of "''nickserv''" ?u] by simp
qed

section \<open>Iteration\<close>

text \<open>
  The chain from a record on, as its pointer sees it: empty if the record is gone.  The state of
  the iteration is the pair of \<open>current\<close> and \<open>next_index\<close>.
\<close>

definition chain_from :: "userlist \<Rightarrow> nat \<Rightarrow> user list" where
  "chain_from ul i = concat (map (\<lambda>b. dropWhile (\<lambda>u. u_uid u \<noteq> i) (ul b)) [0..<USERHASH])"

function user_scan :: "userlist \<Rightarrow> nat \<Rightarrow> nat option \<times> nat" where
  "user_scan ul n =
     (if n < USERHASH
      then (case ul n of [] \<Rightarrow> user_scan ul (n + 1) | u # _ \<Rightarrow> (Some (u_uid u), n + 1))
      else (None, n))"
  by pat_completeness auto
termination by (relation "measure (\<lambda>(ul, n). USERHASH - n)") auto

declare user_scan.simps [simp del]

text \<open>\<open>firstuser\<close> resets the index but not \<open>current\<close>.\<close>

definition firstuser :: "userlist \<Rightarrow> nat option \<times> nat \<Rightarrow> nat option \<times> nat" where
  "firstuser ul st = (case fst st of None \<Rightarrow> user_scan ul 0 | Some i \<Rightarrow> (Some i, 0))"

definition nextuser :: "userlist \<Rightarrow> nat option \<times> nat \<Rightarrow> (nat option \<times> nat) option" where
  "nextuser ul st =
     (case st of
        (None, idx) \<Rightarrow> Some (user_scan ul idx)
      | (Some i, idx) \<Rightarrow>
          (case chain_from ul i of
             [] \<Rightarrow> None
           | [u] \<Rightarrow> Some (user_scan ul idx)
           | u # v # _ \<Rightarrow> Some (Some (u_uid v), idx)))"

text \<open>\<open>for (u = firstuser(); u; u = nextuser())\<close> with a body that leaves the table alone.\<close>

partial_function (option) for_users ::
  "(user \<Rightarrow> 's \<Rightarrow> 's) \<Rightarrow> userlist \<Rightarrow> nat option \<times> nat \<Rightarrow> 's \<Rightarrow> 's option" where
  "for_users f ul st s =
     (case fst st of
        None \<Rightarrow> Some s
      | Some i \<Rightarrow>
          (case chain_from ul i of
             [] \<Rightarrow> None
           | u # _ \<Rightarrow>
               (case nextuser ul st of
                  None \<Rightarrow> None
                | Some st' \<Rightarrow> for_users f ul st' (f u s))))"

lemma for_users_None: "fst st = None \<Longrightarrow> for_users f ul st s = Some s"
  by (simp add: for_users.simps)

lemma chain_from_at:
  assumes "users_ok ul" and "ul b = ps @ u # us"
  shows "chain_from ul (u_uid u) = u # us"
proof -
  have b: "b < USERHASH" using users_ok_bucket [OF assms(1), of u b] assms(2) by simp
  have here: "dropWhile (\<lambda>v. u_uid v \<noteq> u_uid u) (ul b) = u # us"
  proof -
    have "distinct (map u_uid (ul b))" using assms(1) by (simp add: users_ok_def)
    then have "u_uid u \<notin> u_uid ` set ps" unfolding assms(2) by auto
    then have "\<forall>v\<in>set ps. u_uid v \<noteq> u_uid u" by (metis imageI)
    then show ?thesis unfolding assms(2) by (simp add: dropWhile_append3)
  qed
  have other: "dropWhile (\<lambda>v. u_uid v \<noteq> u_uid u) (ul c) = []" if "c \<noteq> b" for c
  proof -
    have "u_uid v \<noteq> u_uid u" if "v \<in> set (ul c)" for v
      using assms \<open>c \<noteq> b\<close> that users_ok_bucket [OF assms(1)] unfolding users_ok_def
      by (metis in_set_conv_decomp)
    then show ?thesis by simp
  qed
  have sp: "[0..<USERHASH] = [0..<b] @ b # [Suc b..<USERHASH]"
    using b upt_add_eq_append [of 0 b "USERHASH - b"] by (simp add: upt_conv_Cons)
  have none: "concat (map (\<lambda>c. dropWhile (\<lambda>v. u_uid v \<noteq> u_uid u) (ul c)) cs) = []"
    if "b \<notin> set cs" for cs
    using that
  proof (induction cs)
    case (Cons a cs)
    then have "a \<noteq> b" by auto
    from other [OF this] Cons show ?case by (simp only: list.map concat.simps) simp
  qed simp
  have n: "b \<notin> set [0..<b]" "b \<notin> set [Suc b..<USERHASH]" by simp_all
  show ?thesis
    unfolding chain_from_def sp map_append list.map concat_append concat.simps here
      none [OF n(1)] none [OF n(2)] by simp
qed

lemma user_scan_spec:
  "(concat (map ul [n..<USERHASH]) = [] \<and> fst (user_scan ul n) = None) \<or>
   (\<exists>b u us. b < USERHASH \<and> ul b = u # us \<and> user_scan ul n = (Some (u_uid u), b + 1) \<and>
      concat (map ul [n..<USERHASH]) = u # us @ concat (map ul [b + 1..<USERHASH]))"
proof (induction ul n rule: user_scan.induct)
  case (1 ul n)
  show ?case
  proof (cases "n < USERHASH")
    case True
    then have up: "[n..<USERHASH] = n # [n + 1..<USERHASH]" by (simp add: upt_conv_Cons)
    show ?thesis
    proof (cases "ul n")
      case Nil
      have "user_scan ul n = user_scan ul (n + 1)" using True Nil by (subst user_scan.simps) simp
      then show ?thesis using "1.IH" [OF True Nil] Nil unfolding up by simp
    next
      case (Cons u us)
      have "user_scan ul n = (Some (u_uid u), n + 1)" using True Cons by (subst user_scan.simps) simp
      then show ?thesis using Cons True unfolding up by (intro disjI2 exI [of _ n]) simp
    qed
  next
    case False
    then show ?thesis by (subst user_scan.simps) simp
  qed
qed

lemma for_users_from:
  assumes "users_ok ul" and "ul b = ps @ u # us" and "n = length (us @ concat (map ul [b + 1..<USERHASH]))"
  shows "for_users f ul (Some (u_uid u), b + 1) s =
    Some (fold f (u # us @ concat (map ul [b + 1..<USERHASH])) s)"
  using assms
proof (induction n arbitrary: b ps u us s rule: less_induct)
  case (less n)
  note ch = chain_from_at [OF less.prems(1,2)]
  show ?case
  proof (cases us)
    case (Cons v vs)
    have step: "for_users f ul (Some (u_uid u), b + 1) s = for_users f ul (Some (u_uid v), b + 1) (f u s)"
      using ch Cons by (subst for_users.simps) (simp add: nextuser_def)
    have "ul b = (ps @ [u]) @ v # vs" using less.prems(2) Cons by simp
    from less.IH [OF _ less.prems(1) this refl] step show ?thesis
      using less.prems(3) Cons by simp
  next
    case Nil
    have step: "for_users f ul (Some (u_uid u), b + 1) s = for_users f ul (user_scan ul (b + 1)) (f u s)"
      using ch Nil by (subst for_users.simps) (simp add: nextuser_def)
    from user_scan_spec [of ul "b + 1"] show ?thesis
    proof (elim disjE conjE exE)
      assume e: "concat (map ul [b + 1..<USERHASH]) = []" and n: "fst (user_scan ul (b + 1)) = None"
      show ?thesis unfolding step Nil e using for_users_None [OF n] by simp
    next
      fix c v vs assume c: "ul c = v # vs" "user_scan ul (b + 1) = (Some (u_uid v), c + 1)"
        "concat (map ul [b + 1..<USERHASH]) = v # vs @ concat (map ul [c + 1..<USERHASH])"
      have "ul c = [] @ v # vs" using c(1) by simp
      from less.IH [OF _ less.prems(1) this refl, of "f u s"] show ?thesis
        using less.prems(3) Nil c step by simp
    qed
  qed
qed

lemma for_users_all:
  assumes "users_ok ul"
  shows "for_users f ul (firstuser ul (None, k)) s = Some (fold f (all_users ul) s)"
proof -
  from user_scan_spec [of ul 0] show ?thesis
  proof (elim disjE conjE exE)
    assume "concat (map ul [0..<USERHASH]) = []" "fst (user_scan ul 0) = None"
    moreover from this(2) have "for_users f ul (user_scan ul 0) s = Some s" by (rule for_users_None)
    moreover have "firstuser ul (None, k) = user_scan ul 0" by (simp add: firstuser_def)
    ultimately show ?thesis by (simp only: all_users_def) simp
  next
    fix b u us assume b: "ul b = u # us" "user_scan ul 0 = (Some (u_uid u), b + 1)"
      "concat (map ul [0..<USERHASH]) = u # us @ concat (map ul [b + 1..<USERHASH])"
    have "ul b = [] @ u # us" using b(1) by simp
    from for_users_from [OF assms this refl, of f s] show ?thesis
      using b by (simp add: firstuser_def all_users_def)
  qed
qed

text \<open>
  C37: a loop over firstuser and nextuser that starts with no iteration in progress visits every
  online user exactly once, and terminates.
\<close>

theorem for_users_visits_all:
  assumes "users_ok ul"
  shows "for_users f ul (firstuser ul (None, k)) s = Some (fold f (all_users ul) s)"
  by (rule for_users_all [OF assms])

theorem for_users_visits_all_witness:
  "for_users (\<lambda>u n. Suc n) (user_link (sample_user 5 ''alice'') (\<lambda>_. []))
     (firstuser (user_link (sample_user 5 ''alice'') (\<lambda>_. [])) (None, 0)) 0 =
   Some (length (all_users (user_link (sample_user 5 ''alice'') (\<lambda>_. []))))"
proof -
  have "users_ok (user_link (sample_user 5 ''alice'') (\<lambda>_. []))"
    by (rule users_ok_single) (simp add: cstring_def)
  from for_users_visits_all [OF this, of "\<lambda>u n. Suc n" 0 0]
  have "for_users (\<lambda>u n. Suc n) (user_link (sample_user 5 ''alice'') (\<lambda>_. []))
     (firstuser (user_link (sample_user 5 ''alice'') (\<lambda>_. [])) (None, 0)) 0 =
     Some (fold (\<lambda>u n. Suc n) (all_users (user_link (sample_user 5 ''alice'') (\<lambda>_. []))) 0)" .
  also have "fold (\<lambda>u n. Suc n) xs n = n + length xs" for xs :: "user list" and n
    by (induction xs arbitrary: n) auto
  finally show ?thesis by simp
qed

text \<open>An iteration that was left early makes the next one start where it stopped.\<close>

lemma firstuser_stale: "firstuser ul (Some i, k) = (Some i, 0)"
  by (simp add: firstuser_def)

end
