(* ===== verification/Masks.thy ===== *)
theory Masks
  imports Users
begin

text \<open>
  User masks of src/src/users.c: matching a user against nick!user@host, counting the users a
  mask covers, splitting a mask into its parts, and making a mask for a user.  A result of None
  is a read outside a string or through a null pointer.
\<close>

named_theorems mask_simps \<open>tokens of a mask\<close>

section \<open>Matching\<close>

text \<open>\<open>strlower(strtok(mask2, "!"))\<close> dereferences the null pointer when there is no token.\<close>

definition match_usermask :: "cstr \<Rightarrow> user \<Rightarrow> bool option" where
  "match_usermask msk u =
     (case (if strchr msk (CHR ''!'') \<noteq> None
            then (case strtok msk ''!'' of
                    (None, r) \<Rightarrow> None
                  | (Some n, r) \<Rightarrow>
                      (case strtok r ''@'' of (un, r') \<Rightarrow> Some (Some (strlower n), un, r')))
            else (case strtok msk ''@'' of (un, r') \<Rightarrow> Some (None, un, r'))) of
        None \<Rightarrow> None
      | Some (nick, username, r) \<Rightarrow>
          (case (username, fst (strtok r [])) of
             (Some un, Some host) \<Rightarrow>
               (let host = strlower host; host2 = strlower (u_host u)
                in case nick of
                     Some n \<Rightarrow> Some (match_wild n (strlower (u_nick u)) \<and>
                                     match_wild un (u_username u) \<and> match_wild host host2)
                   | None \<Rightarrow> Some (match_wild un (u_username u) \<and> match_wild host host2))
           | _ \<Rightarrow> Some False))"

definition count_mask_matches :: "userlist \<Rightarrow> nat option \<times> nat \<Rightarrow> cstr \<Rightarrow> nat option" where
  "count_mask_matches ul st msk =
     (case for_users (\<lambda>u r. case (r, match_usermask msk u) of
                             (Some i, Some b) \<Rightarrow> Some (if b then i + 1 else i)
                           | _ \<Rightarrow> None) ul (firstuser ul st) (Some 0) of
        None \<Rightarrow> None
      | Some r \<Rightarrow> r)"

section \<open>Splitting\<close>

text \<open>
  After the first \<open>strtok\<close> the text is cut behind the token; the special case tokenises that
  text again.
\<close>

definition split_usermask :: "cstr \<Rightarrow> cstr \<times> cstr \<times> cstr" where
  "split_usermask msk =
     (let (nick, r) = strtok msk ''!'';
          (un, r) = strtok r ''@'';
          (host, r) = strtok r [];
          (nick, un, host) =
            (case (nick, un) of
               (Some n, None) \<Rightarrow>
                 if strchr n (CHR ''@'') \<noteq> None
                 then (let text = takeWhile (\<lambda>c. c = CHR ''!'') msk @ n;
                           (un, r) = strtok text ''@'';
                           (host, r) = strtok r []
                       in (None, un, host))
                 else (nick, un, host)
             | _ \<Rightarrow> (nick, un, host));
          star = (\<lambda>t. case t of None \<Rightarrow> ''*'' | Some s \<Rightarrow> s)
      in (star nick, star un, star host))"

section \<open>Making a mask\<close>

text \<open>\<open>*strrchr(s, '.') = 0\<close>\<close>

definition cut_dot :: "cstr \<Rightarrow> cstr option" where
  "cut_dot s = (if CHR ''.'' \<in> set s
                then Some (rev (tl (dropWhile (\<lambda>c. c \<noteq> CHR ''.'') (rev s)))) else None)"

definition three_dots :: "cstr \<Rightarrow> bool" where
  "three_dots host \<longleftrightarrow>
     (case strchr host (CHR ''.'') of
        None \<Rightarrow> False
      | Some s \<Rightarrow> (case strchr (tl s) (CHR ''.'') of
                     None \<Rightarrow> False
                   | Some s \<Rightarrow> (case strchr (tl s) (CHR ''.'') of
                                  None \<Rightarrow> False
                                | Some s \<Rightarrow> strchr (tl s) (CHR ''.'') = None)))"

text \<open>
  For other hosts with at least two dots the character before the first dot becomes a star; a
  host that begins with a dot has no such character.
\<close>

definition create_mask :: "user \<Rightarrow> cstr option" where
  "create_mask u =
     (let host = u_host u
      in if strspn host ''0123456789.'' = length host \<and> three_dots host
         then (case cut_dot host of
                 None \<Rightarrow> None
               | Some s \<Rightarrow>
                   (case (if atoi host < 192 then cut_dot s else Some s) of
                      None \<Rightarrow> None
                    | Some s \<Rightarrow>
                        (case (if atoi host < 128 then cut_dot s else Some s) of
                           None \<Rightarrow> None
                         | Some s \<Rightarrow> Some (u_username u @ ''@'' @ s @ ''.*''))))
         else if CHR ''.'' \<in> set host \<and>
                 strchr (tl (dropWhile (\<lambda>c. c \<noteq> CHR ''.'') host)) (CHR ''.'') \<noteq> None
         then (if hd0 host = CHR ''.'' then None
               else Some (u_username u @ ''@'' @ ''*'' @ dropWhile (\<lambda>c. c \<noteq> CHR ''.'') host))
         else Some (u_username u @ ''@'' @ host))"

section \<open>Lemmas\<close>

lemma strtok_token [mask_simps]:
  "t \<noteq> [] \<Longrightarrow> set t \<inter> set d = {} \<Longrightarrow> strtok t d = (Some t, [])"
  "t \<noteq> [] \<Longrightarrow> set t \<inter> set d = {} \<Longrightarrow> c \<in> set d \<Longrightarrow> strtok (t @ c # r) d = (Some t, r)"
proof -
  assume t: "t \<noteq> []" "set t \<inter> set d = {}"
  then obtain a s where a: "t = a # s" "a \<notin> set d" by (cases t) auto
  have all: "list_all (\<lambda>c. c \<notin> set d) t" using t(2) by (auto simp: list_all_iff)
  show "strtok t d = (Some t, [])"
    using a all by (auto simp: strtok_def list_all_iff dropWhile_eq_Nil_conv [THEN iffD2])
  assume "c \<in> set d"
  then show "strtok (t @ c # r) d = (Some t, r)"
    using a takeWhile_all_then [OF all, of "c # r"] dropWhile_all_then [OF all, of "c # r"]
    by (simp add: strtok_def)
qed

lemma strtok_empty_delim [mask_simps]: "t \<noteq> [] \<Longrightarrow> strtok t [] = (Some t, [])"
  by (rule strtok_token) simp_all

lemma strtok_Nil [simp]: "strtok [] d = (None, [])"
  by (simp add: strtok_def)

lemma strchr_None: "strchr s c = None \<longleftrightarrow> c \<notin> set s"
  by (simp add: strchr_def)

text \<open>
  \<open>split_usermask\<close> takes nick!user@host apart into the parts it was built from, and gives a
  star for a missing nick in user@host.
\<close>

theorem split_usermask_parts:
  assumes "un \<noteq> []" and "host \<noteq> []" and "CHR ''!'' \<notin> set un" and "CHR ''@'' \<notin> set un"
  shows "(nick \<noteq> [] \<longrightarrow> CHR ''!'' \<notin> set nick \<longrightarrow>
        split_usermask (nick @ ''!'' @ un @ ''@'' @ host) = (nick, un, host)) \<and>
      (CHR ''!'' \<notin> set host \<longrightarrow> split_usermask (un @ ''@'' @ host) = (''*'', un, host))"
proof -
  have u: "strtok (un @ CHR ''@'' # host) ''@'' = (Some un, host)"
    using assms by (intro strtok_token(2)) auto
  have h: "strtok host [] = (Some host, [])" using assms(2) by (rule strtok_empty_delim)
  have "nick \<noteq> [] \<longrightarrow> CHR ''!'' \<notin> set nick \<longrightarrow>
      split_usermask (nick @ ''!'' @ un @ ''@'' @ host) = (nick, un, host)"
  proof (intro impI)
    assume n: "nick \<noteq> []" "CHR ''!'' \<notin> set nick"
    have "strtok (nick @ CHR ''!'' # un @ CHR ''@'' # host) ''!'' = (Some nick, un @ CHR ''@'' # host)"
      using n by (intro strtok_token(2)) auto
    then show "split_usermask (nick @ ''!'' @ un @ ''@'' @ host) = (nick, un, host)"
      using u h by (simp add: split_usermask_def)
  qed
  moreover have "CHR ''!'' \<notin> set host \<longrightarrow> split_usermask (un @ ''@'' @ host) = (''*'', un, host)"
  proof (intro impI)
    assume hh: "CHR ''!'' \<notin> set host"
    have "strtok (un @ CHR ''@'' # host) ''!'' = (Some (un @ CHR ''@'' # host), [])"
      using assms hh by (intro strtok_token(1)) auto
    moreover have "takeWhile (\<lambda>c. c = CHR ''!'') (un @ CHR ''@'' # host) = []"
      using assms(1,3) by (cases un) auto
    ultimately show "split_usermask (un @ ''@'' @ host) = (''*'', un, host)"
      using u h by (simp add: split_usermask_def strchr_None)
  qed
  ultimately show ?thesis by blast
qed

theorem split_usermask_parts_witness:
  "split_usermask ''Nick!~id@host.org'' = (''Nick'', ''~id'', ''host.org'')"
  using split_usermask_parts [of "''~id''" "''host.org''" "''Nick''"] by simp

text \<open>A mask of nothing but exclamation marks crashes the matcher.\<close>

lemma match_usermask_crash: "match_usermask ''!'' u = None"
  by (simp add: match_usermask_def strchr_def strtok_def)


section \<open>The mask made for a user matches the user\<close>

definition plain :: "char \<Rightarrow> bool" where
  "plain c \<longleftrightarrow> c \<noteq> CHR ''*'' \<and> c \<noteq> CHR ''?''"

lemma glob_plain: "list_all plain p \<Longrightarrow> glob d q s \<Longrightarrow> glob d (p @ q) (p @ s)"
  by (induction p) (auto simp: plain_def same_char_def intro: glob_char)

lemma no_star_any_plain: "list_all plain p \<Longrightarrow> no_star_any p"
  by (induction p rule: no_star_any.induct) (auto simp: plain_def)

lemma no_star_any_append: "list_all plain p \<Longrightarrow> no_star_any q \<Longrightarrow> no_star_any (p @ q)"
proof (induction p)
  case (Cons a p)
  then show ?case by (cases "p @ q") (auto simp: plain_def)
qed simp

lemma match_plain: "list_all plain p \<Longrightarrow> match_wild p p"
  unfolding match_wild_def
  by (rule match_complete) (use glob_plain [of p True "[]" "[]"] glob_Nil no_star_any_plain in auto)

lemma match_plain_star: "list_all plain p \<Longrightarrow> match_wild (p @ ''*'') (p @ s)"
  unfolding match_wild_def
  by (rule match_complete) (auto intro: glob_plain glob_star_all no_star_any_append)

lemma match_star_plain: "list_all plain p \<Longrightarrow> match_wild (CHR ''*'' # p) (s @ p)"
  unfolding match_wild_def
proof (rule match_complete)
  assume p: "list_all plain p"
  then show "glob True (CHR ''*'' # p) (s @ p)"
    using glob_star [OF glob_plain [of p True "[]" "[]"]] glob_Nil by auto
  show "no_star_any (CHR ''*'' # p)"
    using p no_star_any_plain by (cases p) (auto simp: plain_def)
qed

lemma plain_tolower: "plain (tolower c) \<longleftrightarrow> plain c"
proof -
  have n: "ord (tolower c) = 42 \<longleftrightarrow> ord c = 42" "ord (tolower c) = 63 \<longleftrightarrow> ord c = 63"
    by (auto simp: ord_tolower isupper_def)
  have "ord (CHR ''*'') = 42" "ord (CHR ''?'') = 63" by simp_all
  then have "tolower c = CHR ''*'' \<longleftrightarrow> c = CHR ''*''" "tolower c = CHR ''?'' \<longleftrightarrow> c = CHR ''?''"
    using n by (metis of_char_eq_iff)+
  then show ?thesis by (simp add: plain_def)
qed

lemma plain_strlower: "list_all plain (strlower s) \<longleftrightarrow> list_all plain s"
  by (simp add: strlower_def list_all_iff plain_tolower)

lemma strlower_simps [simp]: "strlower (s @ t) = strlower s @ strlower t"
  "strlower (c # s) = tolower c # strlower s" "strlower [] = []"
  by (simp_all add: strlower_def)

lemma tolower_star [simp]: "tolower (CHR ''*'') = CHR ''*''" "tolower (CHR ''.'') = CHR ''.''"
  by (simp_all add: tolower_def isupper_def)

text \<open>What a mask user@host, with no exclamation mark, matches.\<close>

lemma match_usermask_userhost:
  assumes "un \<noteq> []" and "set un \<inter> set ''!@'' = {}" and "h \<noteq> []" and "CHR ''!'' \<notin> set h"
  shows "match_usermask (un @ ''@'' @ h) u =
    Some (match_wild un (u_username u) \<and> match_wild (strlower h) (strlower (u_host u)))"
proof -
  have "strtok (un @ CHR ''@'' # h) ''@'' = (Some un, h)"
    using assms by (intro strtok_token(2)) auto
  moreover have "strtok h [] = (Some h, [])" using assms(3) by (rule strtok_empty_delim)
  moreover have "strchr (un @ CHR ''@'' # h) (CHR ''!'') = None"
    using assms(2,4) by (auto simp: strchr_None)
  ultimately show ?thesis by (simp add: match_usermask_def)
qed

lemma cut_dot_split:
  assumes "cut_dot s = Some p" shows "\<exists>q. s = p @ CHR ''.'' # q \<and> CHR ''.'' \<notin> set q"
proof -
  let ?r = "dropWhile (\<lambda>c. c \<noteq> CHR ''.'') (rev s)"
  have d: "CHR ''.'' \<in> set s" and p: "p = rev (tl ?r)"
    using assms by (auto simp: cut_dot_def split: if_splits)
  have ne: "?r \<noteq> []" using d by (auto simp: dropWhile_eq_Nil_conv)
  have "hd ?r = CHR ''.''" using hd_dropWhile [OF ne] by simp
  then have r: "?r = CHR ''.'' # rev p" using ne p by (metis list.collapse rev_rev_ident)
  define t where "t = takeWhile (\<lambda>c. c \<noteq> CHR ''.'') (rev s)"
  have "rev s = t @ CHR ''.'' # rev p" unfolding t_def r [symmetric] by simp
  then have "s = p @ CHR ''.'' # rev t"
    by (metis append.assoc append_Cons append_Nil rev.simps(2) rev_append rev_rev_ident)
  moreover have "CHR ''.'' \<notin> set (rev t)" by (auto simp: t_def dest: set_takeWhileD)
  ultimately show ?thesis by blast
qed

lemma cut_dot_append: "CHR ''.'' \<notin> set q \<Longrightarrow> cut_dot (p @ CHR ''.'' # q) = Some p"
proof -
  assume "CHR ''.'' \<notin> set q"
  then have "list_all (\<lambda>c. c \<noteq> CHR ''.'') (rev q)" by (auto simp: list_all_iff)
  from dropWhile_all_then [OF this, of "CHR ''.'' # rev p"]
  have "dropWhile (\<lambda>c. c \<noteq> CHR ''.'') (rev q @ CHR ''.'' # rev p) = CHR ''.'' # rev p" by simp
  then show ?thesis by (simp add: cut_dot_def)
qed

lemma three_dots_split:
  assumes "three_dots h"
  shows "\<exists>a b c d. h = a @ CHR ''.'' # b @ CHR ''.'' # c @ CHR ''.'' # d \<and>
    CHR ''.'' \<notin> set (a @ b @ c @ d)"
proof -
  have step: "\<exists>a. s = a @ CHR ''.'' # tl t \<and> CHR ''.'' \<notin> set a" if "strchr s (CHR ''.'') = Some t" for s t
  proof -
    have t: "CHR ''.'' \<in> set s" "t = dropWhile (\<lambda>d. d \<noteq> CHR ''.'') s"
      using that by (auto simp: strchr_def split: if_splits)
    then have ne: "t \<noteq> []" by (auto simp: dropWhile_eq_Nil_conv)
    have "hd t = CHR ''.''" using hd_dropWhile [of "\<lambda>d. d \<noteq> CHR ''.''" s] t ne by auto
    then have "s = takeWhile (\<lambda>d. d \<noteq> CHR ''.'') s @ CHR ''.'' # tl t"
      using t(2) ne by (metis list.collapse takeWhile_dropWhile_id)
    moreover have "CHR ''.'' \<notin> set (takeWhile (\<lambda>d. d \<noteq> CHR ''.'') s)" by (auto dest: set_takeWhileD)
    ultimately show ?thesis by blast
  qed
  obtain s1 s2 s3 where s: "strchr h (CHR ''.'') = Some s1" "strchr (tl s1) (CHR ''.'') = Some s2"
    "strchr (tl s2) (CHR ''.'') = Some s3" "CHR ''.'' \<notin> set (tl s3)"
    using assms by (auto simp: three_dots_def strchr_None split: option.splits)
  obtain a where a: "h = a @ CHR ''.'' # tl s1" "CHR ''.'' \<notin> set a" using step [OF s(1)] by blast
  obtain b where b: "tl s1 = b @ CHR ''.'' # tl s2" "CHR ''.'' \<notin> set b" using step [OF s(2)] by blast
  obtain c where c: "tl s2 = c @ CHR ''.'' # tl s3" "CHR ''.'' \<notin> set c" using step [OF s(3)] by blast
  show ?thesis
    using a b c s(4) by (intro exI [of _ a] exI [of _ b] exI [of _ c] exI [of _ "tl s3"]) auto
qed

text \<open>The host part of the mask: some prefix of the host that ends in a dot, and a star.\<close>

lemma create_mask_shape:
  assumes "create_mask u = Some m" and "u_host u \<noteq> []"
  shows "\<exists>h. m = u_username u @ ''@'' @ h \<and> h \<noteq> [] \<and>
    ((\<exists>p q. h = p @ ''*'' \<and> u_host u = p @ q) \<or>
     (\<exists>p q. h = CHR ''*'' # q \<and> u_host u = p @ q) \<or> h = u_host u)"
proof (cases "strspn (u_host u) ''0123456789.'' = length (u_host u) \<and> three_dots (u_host u)")
  case True
  then obtain a b c d where h: "u_host u = a @ CHR ''.'' # b @ CHR ''.'' # c @ CHR ''.'' # d"
    and nd: "CHR ''.'' \<notin> set (a @ b @ c @ d)" using three_dots_split by blast
  have cuts: "cut_dot (u_host u) = Some (a @ CHR ''.'' # b @ CHR ''.'' # c)"
    "cut_dot (a @ CHR ''.'' # b @ CHR ''.'' # c) = Some (a @ CHR ''.'' # b)"
    "cut_dot (a @ CHR ''.'' # b) = Some a"
    using cut_dot_append [of d "a @ CHR ''.'' # b @ CHR ''.'' # c"]
      cut_dot_append [of c "a @ CHR ''.'' # b"] cut_dot_append [of b a] nd h by simp_all
  obtain p q where pq: "m = u_username u @ ''@'' @ p @ ''.*''" "u_host u = p @ CHR ''.'' # q"
    using assms(1) True cuts h unfolding create_mask_def
    by (auto simp: Let_def split: if_splits)
  then show ?thesis
    by (intro exI [of _ "p @ ''.*''"]) (auto intro!: disjI1 exI [of _ "p @ ''.''"])
next
  case False
  show ?thesis
  proof (cases "CHR ''.'' \<in> set (u_host u) \<and>
      strchr (tl (dropWhile (\<lambda>c. c \<noteq> CHR ''.'') (u_host u))) (CHR ''.'') \<noteq> None")
    case True
    let ?q = "dropWhile (\<lambda>c. c \<noteq> CHR ''.'') (u_host u)"
    have "m = u_username u @ ''@'' @ CHR ''*'' # ?q"
      using assms(1) False True by (auto simp: create_mask_def Let_def split: if_splits)
    moreover have "u_host u = takeWhile (\<lambda>c. c \<noteq> CHR ''.'') (u_host u) @ ?q" by simp
    ultimately show ?thesis by (intro exI [of _ "CHR ''*'' # ?q"]) blast
  next
    case F: False
    then have "m = u_username u @ ''@'' @ u_host u"
      using assms(1) False by (auto simp: create_mask_def Let_def split: if_splits)
    then show ?thesis using assms(2) by blast
  qed
qed

text \<open>
  The mask \<open>create_mask\<close> makes for a user always matches that user, whether the host is a
  numeric address or a name: a user who adds the mask to an access list is recognised by it.
\<close>

theorem create_mask_matches:
  assumes "create_mask u = Some m"
    and "u_username u \<noteq> []" and "list_all plain (u_username u)" and "set (u_username u) \<inter> set ''!@'' = {}"
    and "u_host u \<noteq> []" and "list_all plain (u_host u)" and "CHR ''!'' \<notin> set (u_host u)"
  shows "match_usermask m u = Some True"
proof -
  obtain h where m: "m = u_username u @ ''@'' @ h" and ne: "h \<noteq> []"
    and sh: "(\<exists>p q. h = p @ ''*'' \<and> u_host u = p @ q) \<or>
     (\<exists>p q. h = CHR ''*'' # q \<and> u_host u = p @ q) \<or> h = u_host u"
    using create_mask_shape [OF assms(1,5)] by blast
  have "CHR ''!'' \<notin> set h" using sh assms(7) by auto
  moreover have "match_wild (strlower h) (strlower (u_host u))"
    using sh
  proof (elim disjE exE conjE)
    fix p q assume "h = p @ ''*''" "u_host u = p @ q"
    moreover from this have "list_all plain (strlower p)" using assms(6) by (simp add: plain_strlower)
    ultimately show ?thesis using match_plain_star by simp
  next
    fix p q assume "h = CHR ''*'' # q" "u_host u = p @ q"
    moreover from this have "list_all plain (strlower q)" using assms(6) by (simp add: plain_strlower)
    ultimately show ?thesis using match_star_plain by simp
  next
    assume "h = u_host u"
    then show ?thesis using match_plain assms(6) by (simp add: plain_strlower)
  qed
  ultimately show ?thesis
    using match_usermask_userhost [OF assms(2,4) ne] match_plain [OF assms(3)] m by simp
qed

theorem create_mask_matches_witness:
  "match_usermask ''user@*.example.org'' (sample_user 1 ''nick'') = Some True"
proof -
  have 1: "create_mask (sample_user 1 ''nick'') = Some ''user@*.example.org''"
    by (simp add: create_mask_def sample_user_def strspn_def strchr_def)
  show ?thesis
    by (rule create_mask_matches [OF 1]) (simp_all add: sample_user_def plain_def)
qed

end
