(* ===== verification/Sql.thy ===== *)
theory Sql
  imports Wildcard "HOL-Library.Multiset"
begin

text \<open>
  The part of the database the services work on (src/mysql/blitzed.sql): every table is the list
  of its rows in storage order, and a statement is the function on these lists that SQL defines
  for it.  UPDATE reports the number of rows it has changed and DELETE the number it has removed,
  as mysql_affected_rows does.  Text columns compare without regard to ASCII case, the default
  collation.  Columns no modelled statement reads are left out.
\<close>

named_theorems sql_simps \<open>statements on tables\<close>

type_synonym flags = "32 word"

record nick_row =
  nr_id :: nat
  nr_nick :: cstr
  nr_status :: flags
  nr_flags :: flags
  nr_link :: nat
  nr_channelmax :: nat
  nr_language :: nat
  nr_last_seen :: int
  nr_time_registered :: int
  nr_id_stamp :: nat
  nr_last_usermask :: cstr
  nr_last_realname :: cstr
  nr_last_quit :: cstr
  nr_last_quit_time :: int
  nr_pass :: cstr
  nr_salt :: cstr
  nr_url :: cstr
  nr_email :: cstr
  nr_regainid :: nat
  nr_sendpass_pass :: cstr
  nr_sendpass_salt :: cstr
  nr_sendpass_time :: int
  nr_cloak :: cstr

record chan_row =
  cr_id :: nat
  cr_name :: cstr
  cr_founder :: nat
  cr_successor :: nat
  cr_flags :: flags
  cr_time_registered :: int
  cr_last_used :: int
  cr_mlock_on :: flags
  cr_mlock_off :: flags
  cr_mlock_limit :: nat
  cr_mlock_key :: cstr
  cr_last_topic :: cstr
  cr_last_topic_setter :: cstr
  cr_last_topic_time :: int
  cr_last_limit_time :: int
  cr_limit_offset :: nat
  cr_limit_tolerance :: nat
  cr_limit_period :: nat
  cr_bantime :: nat
  cr_floodserv :: bool
  cr_founderpass :: cstr
  cr_salt :: cstr
  cr_description :: cstr
  cr_url :: cstr
  cr_email :: cstr
  cr_founder_memo_read :: nat
  cr_entry_message :: cstr
  cr_sendpass_pass :: cstr
  cr_sendpass_salt :: cstr
  cr_sendpass_time :: int

record access_row =
  ca_id :: nat
  ca_chan :: nat
  ca_idx :: nat
  ca_level :: int
  ca_nick :: nat
  ca_added :: int
  ca_last_modified :: int
  ca_last_used :: int
  ca_memo_read :: int
  ca_added_by :: cstr
  ca_modified_by :: cstr

record akick_row =
  ak_id :: nat
  ak_chan :: nat
  ak_idx :: nat
  ak_mask :: "cstr option"
  ak_nick :: nat
  ak_added :: int
  ak_reason :: "cstr option"
  ak_last_used :: int
  ak_last_matched :: cstr

record autojoin_row =
  aj_id :: nat
  aj_nick :: nat
  aj_idx :: nat
  aj_chan :: nat

record suspend_row =
  su_id :: nat
  su_expires :: int

record memo_row =
  me_id :: nat
  me_owner :: cstr
  me_idx :: nat
  me_flags :: flags
  me_time :: int
  me_sender :: cstr
  me_text :: cstr
  me_rot13 :: bool

record memoinfo_row =
  mi_id :: nat
  mi_owner :: cstr
  mi_max :: int

record news_row =
  nw_id :: nat
  nw_type :: nat
  nw_text :: cstr
  nw_who :: cstr
  nw_time :: int

text \<open>The tables, and the next numbers of the columns that the database numbers itself.\<close>

record sqldb =
  t_nick :: "nick_row list"
  t_nickaccess :: "(nat \<times> cstr) list"
  t_channel :: "chan_row list"
  t_chanaccess :: "access_row list"
  t_chanlevel :: "(nat \<times> nat \<times> int) list"
  t_akick :: "akick_row list"
  t_autojoin :: "autojoin_row list"
  t_suspend :: "suspend_row list"
  t_nicksuspend :: "(nat \<times> nat \<times> nat) list"
  t_chansuspend :: "(nat \<times> nat) list"
  t_memo :: "memo_row list"
  t_memoinfo :: "memoinfo_row list"
  t_admin :: "nat list"
  t_oper :: "nat list"
  t_news :: "news_row list"
  next_nick :: nat
  next_channel :: nat
  next_chanaccess :: nat
  next_akick :: nat
  next_memo :: nat
  next_news :: nat
  next_suspend :: nat

section \<open>Statements\<close>

definition sql_update :: "('r \<Rightarrow> bool) \<Rightarrow> ('r \<Rightarrow> 'r) \<Rightarrow> 'r list \<Rightarrow> 'r list" where
  "sql_update P f t = map (\<lambda>r. if P r then f r else r) t"

definition sql_changed :: "('r \<Rightarrow> bool) \<Rightarrow> ('r \<Rightarrow> 'r) \<Rightarrow> 'r list \<Rightarrow> nat" where
  "sql_changed P f t = length (filter (\<lambda>r. P r \<and> f r \<noteq> r) t)"

definition sql_delete :: "('r \<Rightarrow> bool) \<Rightarrow> 'r list \<Rightarrow> 'r list" where
  "sql_delete P t = filter (\<lambda>r. \<not> P r) t"

definition sql_deleted :: "('r \<Rightarrow> bool) \<Rightarrow> 'r list \<Rightarrow> nat" where
  "sql_deleted P t = length (filter P t)"

text \<open>The first row of a SELECT.\<close>

definition sql_first :: "('r \<Rightarrow> bool) \<Rightarrow> 'r list \<Rightarrow> 'r option" where
  "sql_first P t = find P t"

definition sql_eq :: "cstr \<Rightarrow> cstr \<Rightarrow> bool" where
  "sql_eq a b \<longleftrightarrow> strlower a = strlower b"

lemma sql_update_set [sql_simps]: "r \<in> set (sql_update P f t) \<longleftrightarrow> (\<exists>s\<in>set t. r = (if P s then f s else s))"
  by (auto simp: sql_update_def)

lemma sql_update_all:
  "(\<And>s. P s \<Longrightarrow> Q (f s)) \<Longrightarrow> (\<And>s. \<not> P s \<Longrightarrow> Q s) \<Longrightarrow> \<forall>r\<in>set (sql_update P f t). Q r"
  by (auto simp: sql_update_def)

lemma sql_delete_set [sql_simps]: "r \<in> set (sql_delete P t) \<longleftrightarrow> r \<in> set t \<and> \<not> P r"
  by (auto simp: sql_delete_def)

lemma sql_update_keys [sql_simps]: "(\<And>r. key (f r) = key r) \<Longrightarrow> map key (sql_update P f t) = map key t"
  by (auto simp: sql_update_def)

lemma sql_delete_distinct: "distinct (map key t) \<Longrightarrow> distinct (map key (sql_delete P t))"
  by (simp add: sql_delete_def distinct_map_filter)

lemma sql_first_key:
  "distinct (map key t) \<Longrightarrow> r \<in> set t \<Longrightarrow> sql_first (\<lambda>s. key s = key r) t = Some r"
  unfolding sql_first_def
  by (induction t) (auto simp: image_iff)

lemma sql_first_None: "sql_first P t = None \<longleftrightarrow> (\<forall>r\<in>set t. \<not> P r)"
  by (auto simp: sql_first_def find_None_iff)

lemma sql_first_Some: "sql_first P t = Some r \<Longrightarrow> r \<in> set t \<and> P r"
  unfolding sql_first_def by (rule find_Some_set)

lemma sql_first_update:
  "(\<And>r. key (f r) = key r) \<Longrightarrow>
   sql_first (\<lambda>r. key r = k) (sql_update P f t) =
   map_option (\<lambda>r. if P r then f r else r) (sql_first (\<lambda>r. key r = k) t)"
  unfolding sql_first_def sql_update_def by (induction t) auto

lemma sql_delete_none: "(\<forall>r\<in>set t. \<not> P r) \<Longrightarrow> sql_delete P t = t"
  by (simp add: sql_delete_def)

section \<open>Keys and values\<close>

text \<open>
  A table with a unique key is a finite map from keys to rows.  What the code relies on when it
  addresses a row by its key holds for every such table.
\<close>

locale keyed_table =
  fixes key :: "'r \<Rightarrow> 'k"
begin

definition unique :: "'r list \<Rightarrow> bool" where
  "unique t \<longleftrightarrow> distinct (map key t)"

definition row :: "'k \<Rightarrow> 'r list \<Rightarrow> 'r option" where
  "row k t = sql_first (\<lambda>r. key r = k) t"

lemma row_in: "unique t \<Longrightarrow> row k t = Some r \<longleftrightarrow> r \<in> set t \<and> key r = k"
  using sql_first_key [of key t] sql_first_Some [of "\<lambda>r. key r = k" t]
  by (auto simp: unique_def row_def)

lemma row_None: "row k t = None \<longleftrightarrow> k \<notin> key ` set t"
  by (auto simp: row_def sql_first_None)

lemma unique_update: "(\<And>r. key (f r) = key r) \<Longrightarrow> unique t \<Longrightarrow> unique (sql_update P f t)"
  by (simp add: unique_def sql_update_keys)

lemma unique_delete: "unique t \<Longrightarrow> unique (sql_delete P t)"
  by (simp add: unique_def sql_delete_distinct)

lemma unique_insert: "unique t \<Longrightarrow> key r \<notin> key ` set t \<Longrightarrow> unique (t @ [r])"
  by (auto simp: unique_def)

lemma row_update:
  "(\<And>r. key (f r) = key r) \<Longrightarrow>
   row k (sql_update P f t) = map_option (\<lambda>r. if P r then f r else r) (row k t)"
  unfolding row_def by (rule sql_first_update)

lemma row_delete:
  "unique t \<Longrightarrow> row k (sql_delete P t) = (case row k t of None \<Rightarrow> None | Some r \<Rightarrow> if P r then None else Some r)"
proof (cases "row k t")
  case None
  then have "row k (sql_delete P t) = None" by (auto simp: row_None sql_delete_set)
  with None show ?thesis by simp
next
  case (Some r)
  assume u: "unique t"
  have r: "r \<in> set t" "key r = k" using Some row_in [OF u] by blast+
  show ?thesis
  proof (cases "P r")
    case True
    have "s = r" if "s \<in> set t" "key s = k" for s
      using row_in [OF u, of k s] Some that by simp
    then have "row k (sql_delete P t) = None" using True by (auto simp: row_None sql_delete_set)
    then show ?thesis using Some True by simp
  next
    case False
    then have "row k (sql_delete P t) = Some r"
      using row_in [OF unique_delete [OF u], of k P r] r by (simp add: sql_delete_set)
    then show ?thesis using Some False by simp
  qed
qed

lemma row_insert:
  "row k (t @ [r]) = (case row k t of Some s \<Rightarrow> Some s | None \<Rightarrow> if key r = k then Some r else None)"
  unfolding row_def sql_first_def by (induction t) auto

text \<open>REPLACE: a row with the key of the new one keeps its place.\<close>

definition put :: "'r \<Rightarrow> 'r list \<Rightarrow> 'r list" where
  "put r t = (if key r \<in> key ` set t then map (\<lambda>s. if key s = key r then r else s) t else t @ [r])"

definition replaced :: "'r list \<Rightarrow> 'r \<Rightarrow> 'r" where
  "replaced rs s = (case map_of (map (\<lambda>r. (key r, r)) rs) (key s) of None \<Rightarrow> s | Some r \<Rightarrow> r)"

lemma fold_put:
  "key ` set rs \<subseteq> key ` set t \<Longrightarrow> distinct (map key rs) \<Longrightarrow> fold put rs t = map (replaced rs) t"
proof (induction rs arbitrary: t)
  case Nil
  then show ?case by (simp add: replaced_def [abs_def])
next
  case (Cons r rs)
  let ?t = "map (\<lambda>s. if key s = key r then r else s) t"
  have "key (if key s = key r then r else s) = key s" for s by simp
  then have keys: "key ` set ?t = key ` set t" by (simp add: image_image del: if_image_distrib)
  have "replaced rs (if key s = key r then r else s) = replaced (r # rs) s" for s
  proof -
    have "map_of (map (\<lambda>r. (key r, r)) rs) (key r) = None"
      using Cons.prems(2) by (auto simp: map_of_eq_None_iff)
    then show ?thesis by (simp add: replaced_def)
  qed
  then have "map (replaced rs) ?t = map (replaced (r # rs)) t" by simp
  moreover have "put r t = ?t" using Cons.prems(1) by (simp add: put_def)
  moreover have "fold put rs ?t = map (replaced rs) ?t"
    using Cons.prems keys by (intro Cons.IH) auto
  ultimately show ?case by simp
qed

lemma replaced_member:
  assumes "distinct (map key rs)" and "r \<in> set rs" and "key s = key r"
  shows "replaced rs s = r"
proof -
  have "map_of (map (\<lambda>r. (key r, r)) rs) (key r) = Some r"
    using assms(1,2) by (intro map_of_is_SomeI) (auto simp: o_def)
  then show ?thesis using assms(3) by (simp add: replaced_def)
qed

lemma replaced_other: "key s \<notin> key ` set rs \<Longrightarrow> replaced rs s = s"
  by (force simp: replaced_def split: option.split dest: map_of_SomeD)

end

interpretation nick: keyed_table nr_id .
interpretation chan: keyed_table cr_id .
interpretation acc: keyed_table ca_id .
interpretation ajoin: keyed_table aj_id .
interpretation memo: keyed_table me_id .

end
