(* ===== verification/Registry.thy ===== *)
theory Registry
  imports Sql "HOL-Library.List_Lexorder" "HOL-Library.Char_ord"
begin

text \<open>
  The registration data: what the removal of a nickname or a channel does to the tables
  (src/src/nickserv.c, src/src/chanserv.c, src/src/operserv.c), the passing of channels to their
  successors, the limit on the number of channels, the numbering of autojoin lists
  (src/src/autojoin.c).
\<close>

named_theorems reg_simps \<open>registration statements\<close>

definition CI_SECUREOPS :: flags where "CI_SECUREOPS = 0x00000002"
definition CI_SECURE :: flags where "CI_SECURE = 0x00000040"
definition CI_VERBOTEN :: flags where "CI_VERBOTEN = 0x00000080"
definition CI_NO_EXPIRE :: flags where "CI_NO_EXPIRE = 0x00000200"
definition MAX_CHANNELCOUNT :: nat where "MAX_CHANNELCOUNT = 65535"

section \<open>Autojoin lists\<close>

text \<open>
  \<open>renumber_autojoins\<close> copies the rows of a nickname in the order of the channel names into a
  table with an automatic index and writes them back with REPLACE.
\<close>

definition chan_name :: "sqldb \<Rightarrow> nat \<Rightarrow> cstr option" where
  "chan_name db c = map_option cr_name (chan.row c (t_channel db))"

definition numbered :: "autojoin_row list \<Rightarrow> autojoin_row list" where
  "numbered rs = map (\<lambda>(n, r). r\<lparr>aj_idx := n\<rparr>) (zip [1..<length rs + 1] rs)"

definition renumber_autojoins :: "nat \<Rightarrow> sqldb \<Rightarrow> sqldb" where
  "renumber_autojoins i db =
     (let sel = sort_key (\<lambda>r. strlower (the (chan_name db (aj_chan r))))
                  (filter (\<lambda>r. aj_nick r = i \<and> chan_name db (aj_chan r) \<noteq> None) (t_autojoin db))
      in db\<lparr>t_autojoin := sql_delete (\<lambda>r. aj_id r \<in> set (map aj_id sel)) (t_autojoin db) @ numbered sel\<rparr>)"

definition count_autojoins :: "nat \<Rightarrow> sqldb \<Rightarrow> nat" where
  "count_autojoins i db = length (filter (\<lambda>r. aj_nick r = i) (t_autojoin db))"

section \<open>Channels\<close>

definition get_founder_id :: "sqldb \<Rightarrow> nat \<Rightarrow> nat" where
  "get_founder_id db c = (case chan.row c (t_channel db) of None \<Rightarrow> 0 | Some r \<Rightarrow> cr_founder r)"

definition get_chan_flags :: "sqldb \<Rightarrow> nat \<Rightarrow> flags" where
  "get_chan_flags db c = (case chan.row c (t_channel db) of None \<Rightarrow> 0 | Some r \<Rightarrow> cr_flags r)"

definition get_channelmax :: "sqldb \<Rightarrow> nat \<Rightarrow> nat" where
  "get_channelmax db i = (case nick.row i (t_nick db) of None \<Rightarrow> 0 | Some r \<Rightarrow> nr_channelmax r)"

text \<open>The channels of a nickname and of all its links.\<close>

definition count_chans_reged_by :: "sqldb \<Rightarrow> nat \<Rightarrow> nat" where
  "count_chans_reged_by db i =
     (let ids = map nr_id (filter (\<lambda>r. nr_link r = i) (t_nick db))
      in if ids \<noteq> [] then length (filter (\<lambda>r. cr_founder r \<in> set (i # ids)) (t_channel db))
         else length (filter (\<lambda>r. cr_founder r = i) (t_channel db)))"

definition link_of :: "sqldb \<Rightarrow> nat \<Rightarrow> nat" where
  "link_of db i =
     (case nick.row i (t_nick db) of
        None \<Rightarrow> i
      | Some r \<Rightarrow> if nr_link r \<noteq> 0 then nr_link r else i)"

definition check_chan_limit :: "sqldb \<Rightarrow> nat \<Rightarrow> int" where
  "check_chan_limit db i =
     (let i = link_of db i;
          m = get_channelmax db i;
          count = count_chans_reged_by db i;
          m = (if m = 0 then MAX_CHANNELCOUNT else m)
      in if count < m then -1 else if count = m then 0 else 1)"

text \<open>\<open>mysql_delchan\<close>; the channel exists at every call.\<close>

definition mysql_delchan :: "nat \<Rightarrow> sqldb \<Rightarrow> sqldb" where
  "mysql_delchan c db =
     (let name = (case chan_name db c of None \<Rightarrow> [] | Some n \<Rightarrow> n);
          sus = map snd (filter (\<lambda>(c', s). c' = c) (t_chansuspend db));
          live = map su_id (t_suspend db);
          db = db\<lparr>t_channel := sql_delete (\<lambda>r. cr_id r = c) (t_channel db),
                  t_akick := sql_delete (\<lambda>r. ak_chan r = c) (t_akick db),
                  t_chanaccess := sql_delete (\<lambda>r. ca_chan r = c) (t_chanaccess db),
                  t_chanlevel := sql_delete (\<lambda>(c', w, l). c' = c) (t_chanlevel db),
                  t_suspend := sql_delete (\<lambda>r. su_id r \<in> set sus) (t_suspend db),
                  t_chansuspend := sql_delete (\<lambda>(c', s). c' = c \<and> s \<in> set live) (t_chansuspend db),
                  t_memo := sql_delete (\<lambda>m. sql_eq (me_owner m) name) (t_memo db),
                  t_memoinfo := sql_delete (\<lambda>m. sql_eq (mi_owner m) name) (t_memoinfo db)\<rparr>;
          ids = map aj_nick (filter (\<lambda>r. aj_chan r = c) (t_autojoin db));
          db = db\<lparr>t_autojoin := sql_delete (\<lambda>r. aj_chan r = c) (t_autojoin db)\<rparr>
      in fold renumber_autojoins ids db)"

section \<open>Removing a nickname\<close>

text \<open>
  The loop that hands the channels of a deleted nickname to their successors.  The variable
  \<open>rows\<close> that bounds the loop is also the one the UPDATE in the loop body reports its affected
  rows in.
\<close>

fun successor_loop :: "nat \<Rightarrow> (nat \<times> nat) list \<Rightarrow> nat \<Rightarrow> nat \<Rightarrow> sqldb \<Rightarrow> sqldb" where
  "successor_loop i [] k rows db = db"
| "successor_loop i ((c, s) # cs) k rows db =
     (if k < rows
      then (if check_chan_limit db s \<noteq> -1
            then successor_loop i cs (k + 1) rows (mysql_delchan c db)
            else (let P = (\<lambda>r. cr_id r = c \<and> cr_founder r = i \<and> cr_successor r = s);
                      f = (\<lambda>r. r\<lparr>cr_founder := s, cr_successor := 0\<rparr>)
                  in successor_loop i cs (k + 1) (sql_changed P f (t_channel db))
                       (db\<lparr>t_channel := sql_update P f (t_channel db)\<rparr>)))
      else db)"

definition cs_mysql_remove_nick :: "nat \<Rightarrow> sqldb \<Rightarrow> sqldb" where
  "cs_mysql_remove_nick i db =
     (let sel = map (\<lambda>r. (cr_id r, cr_successor r))
                  (filter (\<lambda>r. cr_founder r = i \<and> cr_successor r \<noteq> 0) (t_channel db));
          db = successor_loop i sel 0 (length sel) db;
          own = map cr_id (filter (\<lambda>r. cr_founder r = i \<and> cr_successor r = 0) (t_channel db));
          db = fold mysql_delchan own db
      in db\<lparr>t_chanaccess := sql_delete (\<lambda>r. ca_nick r = i) (t_chanaccess db),
            t_akick := sql_delete (\<lambda>r. ak_nick r = i) (t_akick db),
            t_channel := sql_update (\<lambda>r. cr_successor r = i) (\<lambda>r. r\<lparr>cr_successor := 0\<rparr>) (t_channel db)\<rparr>)"

definition os_mysql_remove_nick :: "nat \<Rightarrow> sqldb \<Rightarrow> sqldb" where
  "os_mysql_remove_nick i db =
     db\<lparr>t_admin := sql_delete (\<lambda>j. j = i) (t_admin db), t_oper := sql_delete (\<lambda>j. j = i) (t_oper db)\<rparr>"

definition del_nicksuspend :: "nat \<Rightarrow> sqldb \<Rightarrow> sqldb" where
  "del_nicksuspend n db =
     (if n = 0 then db
      else (let sus = (case rev (filter (\<lambda>(k, i, s). k = n) (t_nicksuspend db)) of
                         [] \<Rightarrow> 0 | (k, i, s) # _ \<Rightarrow> s);
                db = (if sus \<noteq> 0 then db\<lparr>t_suspend := sql_delete (\<lambda>r. su_id r = sus) (t_suspend db)\<rparr>
                      else db)
            in db\<lparr>t_nicksuspend := sql_delete (\<lambda>(k, i, s). k = n) (t_nicksuspend db)\<rparr>))"

definition mysql_remove_links :: "nat \<Rightarrow> sqldb \<Rightarrow> sqldb" where
  "mysql_remove_links i db =
     db\<lparr>t_nick := sql_update (\<lambda>r. nr_link r = i) (\<lambda>r. r\<lparr>nr_link := 0\<rparr>) (t_nick db)\<rparr>"

definition ns_mysql_remove_access :: "nat \<Rightarrow> sqldb \<Rightarrow> sqldb" where
  "ns_mysql_remove_access i db =
     db\<lparr>t_nickaccess := sql_delete (\<lambda>(j, m). j = i) (t_nickaccess db)\<rparr>"

definition ns_mysql_remove_memos :: "nat \<Rightarrow> sqldb \<Rightarrow> sqldb" where
  "ns_mysql_remove_memos i db =
     (let owner = (case nick.row i (t_nick db) of None \<Rightarrow> [] | Some r \<Rightarrow> nr_nick r)
      in db\<lparr>t_memoinfo := sql_delete (\<lambda>m. sql_eq (mi_owner m) owner) (t_memoinfo db),
            t_memo := sql_delete (\<lambda>m. sql_eq (me_owner m) owner) (t_memo db)\<rparr>)"

definition mysql_delete_nick :: "nat \<Rightarrow> sqldb \<Rightarrow> sqldb" where
  "mysql_delete_nick i db = db\<lparr>t_nick := sql_delete (\<lambda>r. nr_id r = i) (t_nick db)\<rparr>"

text \<open>\<open>mysql_delnick\<close> passes the nick id to \<open>del_nicksuspend\<close>, which expects the id of a suspension.\<close>

definition mysql_delnick :: "nat \<Rightarrow> sqldb \<Rightarrow> sqldb" where
  "mysql_delnick i db =
     mysql_delete_nick i (ns_mysql_remove_memos i (ns_mysql_remove_access i (mysql_remove_links i
       (os_mysql_remove_nick i (cs_mysql_remove_nick i (del_nicksuspend i db))))))"

section \<open>What the statements leave alone\<close>

lemma renumber_fields [reg_simps]:
  "t_nick (renumber_autojoins i db) = t_nick db" "t_channel (renumber_autojoins i db) = t_channel db"
  "t_nickaccess (renumber_autojoins i db) = t_nickaccess db"
  "t_chanaccess (renumber_autojoins i db) = t_chanaccess db"
  "t_akick (renumber_autojoins i db) = t_akick db"
  "t_admin (renumber_autojoins i db) = t_admin db" "t_oper (renumber_autojoins i db) = t_oper db"
  "t_nicksuspend (renumber_autojoins i db) = t_nicksuspend db"
  by (simp_all add: renumber_autojoins_def Let_def)

lemma fold_renumber_fields [reg_simps]:
  "t_nick (fold renumber_autojoins is db) = t_nick db"
  "t_channel (fold renumber_autojoins is db) = t_channel db"
  "t_nickaccess (fold renumber_autojoins is db) = t_nickaccess db"
  "t_chanaccess (fold renumber_autojoins is db) = t_chanaccess db"
  "t_akick (fold renumber_autojoins is db) = t_akick db"
  "t_admin (fold renumber_autojoins is db) = t_admin db"
  "t_oper (fold renumber_autojoins is db) = t_oper db"
  "t_nicksuspend (fold renumber_autojoins is db) = t_nicksuspend db"
  by (induction "is" arbitrary: db) (simp_all add: reg_simps)

lemma delchan_fields [reg_simps]:
  "t_nick (mysql_delchan c db) = t_nick db"
  "t_channel (mysql_delchan c db) = sql_delete (\<lambda>r. cr_id r = c) (t_channel db)"
  "t_nickaccess (mysql_delchan c db) = t_nickaccess db"
  "t_admin (mysql_delchan c db) = t_admin db" "t_oper (mysql_delchan c db) = t_oper db"
  "t_nicksuspend (mysql_delchan c db) = t_nicksuspend db"
  by (simp_all add: mysql_delchan_def Let_def reg_simps)

lemma fold_delchan_fields [reg_simps]:
  "t_nick (fold mysql_delchan cs db) = t_nick db"
  "t_channel (fold mysql_delchan cs db) = sql_delete (\<lambda>r. cr_id r \<in> set cs) (t_channel db)"
  "t_nickaccess (fold mysql_delchan cs db) = t_nickaccess db"
  "t_admin (fold mysql_delchan cs db) = t_admin db" "t_oper (fold mysql_delchan cs db) = t_oper db"
  "t_nicksuspend (fold mysql_delchan cs db) = t_nicksuspend db"
proof (induction cs arbitrary: db)
  case (Cons c cs)
  {
    case 2
    show ?case by (simp add: Cons(2) reg_simps) (auto simp: sql_delete_def intro!: filter_cong)
  }
qed (simp_all add: reg_simps sql_delete_def)

lemma successor_fields [reg_simps]:
  "t_nick (successor_loop i cs k rows db) = t_nick db"
  "t_nickaccess (successor_loop i cs k rows db) = t_nickaccess db"
  "t_admin (successor_loop i cs k rows db) = t_admin db" "t_oper (successor_loop i cs k rows db) = t_oper db"
  "t_nicksuspend (successor_loop i cs k rows db) = t_nicksuspend db"
  by (induction i cs k rows db rule: successor_loop.induct) (simp_all add: reg_simps Let_def)

lemma remove_nick_fields [reg_simps]:
  "t_nick (cs_mysql_remove_nick i db) = t_nick db"
  "t_nickaccess (cs_mysql_remove_nick i db) = t_nickaccess db"
  "t_admin (cs_mysql_remove_nick i db) = t_admin db" "t_oper (cs_mysql_remove_nick i db) = t_oper db"
  by (simp_all add: cs_mysql_remove_nick_def Let_def reg_simps)

section \<open>The references to a removed nickname\<close>


definition to_pass_on :: "nat \<Rightarrow> sqldb \<Rightarrow> chan_row list" where
  "to_pass_on i db = filter (\<lambda>r. cr_founder r = i \<and> cr_successor r \<noteq> 0) (t_channel db)"





lemma fold_renumber_congr:
  "t_autojoin db1 = t_autojoin db2 \<Longrightarrow> t_channel db1 = t_channel db2 \<Longrightarrow>
   t_autojoin (fold renumber_autojoins is db1) = t_autojoin (fold renumber_autojoins is db2)"
proof (induction "is" arbitrary: db1 db2)
  case (Cons i js)
  have "t_autojoin (renumber_autojoins i db1) = t_autojoin (renumber_autojoins i db2)"
    using Cons.prems by (simp add: renumber_autojoins_def Let_def chan_name_def)
  moreover have "t_channel (renumber_autojoins i db1) = t_channel (renumber_autojoins i db2)"
    using Cons.prems(2) by (simp only: renumber_fields)
  ultimately show ?case unfolding fold.simps o_apply by (rule Cons.IH)
qed simp

lemma delchan_autojoins: "t_autojoin (mysql_delchan c db) =
   t_autojoin (fold renumber_autojoins (map aj_nick (filter (\<lambda>r. aj_chan r = c) (t_autojoin db)))
     (db\<lparr>t_channel := sql_delete (\<lambda>r. cr_id r = c) (t_channel db),
         t_autojoin := sql_delete (\<lambda>r. aj_chan r = c) (t_autojoin db)\<rparr>))"
proof -
  obtain db0 where db0: "t_autojoin db0 = t_autojoin db" "t_channel db0 = sql_delete (\<lambda>r. cr_id r = c) (t_channel db)"
    "mysql_delchan c db = fold renumber_autojoins (map aj_nick (filter (\<lambda>r. aj_chan r = c) (t_autojoin db0)))
       (db0\<lparr>t_autojoin := sql_delete (\<lambda>r. aj_chan r = c) (t_autojoin db0)\<rparr>)"
    by (rule that [OF _ _ mysql_delchan_def [unfolded Let_def]]) simp_all
  show ?thesis unfolding db0(3) db0(1) by (rule fold_renumber_congr) (simp_all add: db0(2))
qed

text \<open>What the autojoin lists say, and that numbering them anew does not change it.\<close>

definition autojoins :: "sqldb \<Rightarrow> (nat \<times> nat) set" where
  "autojoins db = (\<lambda>r. (aj_nick r, aj_chan r)) ` set (t_autojoin db)"

lemma numbered_map:
  assumes "\<And>n r. g (r\<lparr>aj_idx := n\<rparr>) = g r"
  shows "map g (numbered rs) = map g rs"
proof -
  have "map g (numbered rs) = map (g \<circ> snd) (zip [1..<length rs + 1] rs)"
    unfolding numbered_def map_map by (rule map_cong [OF refl]) (simp add: assms split_beta)
  also have "\<dots> = map g (map snd (zip [1..<length rs + 1] rs))" by (simp only: map_map)
  also have "map snd (zip [1..<length rs + 1] rs) = rs" by (rule map_snd_zip) (simp del: upt_Suc)
  finally show ?thesis .
qed

lemma numbered_maps:
  "map aj_id (numbered rs) = map aj_id rs"
  "map (\<lambda>r. (aj_nick r, aj_chan r)) (numbered rs) = map (\<lambda>r. (aj_nick r, aj_chan r)) rs"
  by (rule numbered_map, simp)+

lemma renumber_autojoins_keeps:
  assumes "distinct (map aj_id (t_autojoin db))"
  shows "distinct (map aj_id (t_autojoin (renumber_autojoins i db)))"
    and "autojoins (renumber_autojoins i db) = autojoins db"
proof -
  define Q where "Q = (\<lambda>r :: autojoin_row. aj_nick r = i \<and> chan_name db (aj_chan r) \<noteq> None)"
  define sel where "sel = sort_key (\<lambda>r :: autojoin_row. strlower (the (chan_name db (aj_chan r)))) (filter Q (t_autojoin db))"
  have sel: "set sel = {r \<in> set (t_autojoin db). Q r}" unfolding sel_def by simp
  have t: "t_autojoin (renumber_autojoins i db) =
      sql_delete (\<lambda>r. aj_id r \<in> aj_id ` set sel) (t_autojoin db) @ numbered sel"
    unfolding renumber_autojoins_def Let_def sel_def Q_def by simp
  have inj: "inj_on aj_id (set (t_autojoin db))" using assms by (simp add: distinct_map)
  have d: "sql_delete (\<lambda>r. aj_id r \<in> aj_id ` set sel) (t_autojoin db) = filter (\<lambda>r. \<not> Q r) (t_autojoin db)"
    unfolding sql_delete_def
  proof (rule filter_cong [OF refl])
    fix r assume r: "r \<in> set (t_autojoin db)"
    show "(\<not> aj_id r \<in> aj_id ` set sel) = (\<not> Q r)"
      using r inj unfolding sel by (auto dest: inj_onD)
  qed
  have dsel: "distinct (map aj_id sel)"
    unfolding sel_def by (metis assms distinct_map_filter mset_map mset_sort mset_eq_imp_distinct_iff)
  have "set (map aj_id (numbered sel)) = aj_id ` set sel" unfolding numbered_maps by simp
  then show "distinct (map aj_id (t_autojoin (renumber_autojoins i db)))"
    unfolding t using sql_delete_distinct [OF assms, of "\<lambda>r. aj_id r \<in> aj_id ` set sel"] dsel
    by (auto simp: numbered_maps sql_delete_set)
  have "(\<lambda>r. (aj_nick r, aj_chan r)) ` set (numbered sel) = (\<lambda>r. (aj_nick r, aj_chan r)) ` set sel"
    by (metis numbered_maps(2) set_map)
  then show "autojoins (renumber_autojoins i db) = autojoins db"
    unfolding autojoins_def t d by (auto simp: sel image_iff)
qed

lemma fold_renumber_autojoins_keeps:
  "distinct (map aj_id (t_autojoin db)) \<Longrightarrow>
   distinct (map aj_id (t_autojoin (fold renumber_autojoins is db))) \<and>
   autojoins (fold renumber_autojoins is db) = autojoins db"
  by (induction "is" arbitrary: db) (simp_all add: renumber_autojoins_keeps)

text \<open>
  The removal of a channel takes it off the autojoin lists: of the channels \<open>D\<close> and the lists
  \<open>A\<close> at the start, the lists keep the channels that are left.
\<close>

definition joins_left :: "nat set \<Rightarrow> (nat \<times> nat) set \<Rightarrow> sqldb \<Rightarrow> bool" where
  "joins_left D A db \<longleftrightarrow> distinct (map aj_id (t_autojoin db)) \<and> cr_id ` set (t_channel db) \<subseteq> D \<and>
     autojoins db = {(j, c) \<in> A. c \<in> D \<longrightarrow> c \<in> cr_id ` set (t_channel db)}"

lemma joins_left_delchan:
  assumes "joins_left D A db" and "c \<in> D"
  shows "joins_left D A (mysql_delchan c db)"
proof -
  define db1 where "db1 = db\<lparr>t_channel := sql_delete (\<lambda>r. cr_id r = c) (t_channel db),
    t_autojoin := sql_delete (\<lambda>r. aj_chan r = c) (t_autojoin db)\<rparr>"
  have d: "distinct (map aj_id (t_autojoin db1))"
    using assms(1) by (simp add: db1_def joins_left_def sql_delete_distinct)
  have "autojoins (mysql_delchan c db) = autojoins db1"
    "distinct (map aj_id (t_autojoin (mysql_delchan c db)))"
    using fold_renumber_autojoins_keeps [OF d] unfolding autojoins_def [of "mysql_delchan c db"]
      delchan_autojoins db1_def [symmetric] by (simp_all add: autojoins_def)
  moreover have "autojoins db1 = {(j, e) \<in> autojoins db. e \<noteq> c}"
    unfolding autojoins_def by (auto simp: db1_def sql_delete_set)
  moreover have "cr_id ` set (t_channel (mysql_delchan c db)) = cr_id ` set (t_channel db) - {c}"
    by (auto simp: reg_simps sql_delete_set)
  ultimately show ?thesis using assms unfolding joins_left_def by auto
qed

lemma joins_left_fold: "joins_left D A db \<Longrightarrow> set cs \<subseteq> D \<Longrightarrow> joins_left D A (fold mysql_delchan cs db)"
  by (induction cs arbitrary: db) (simp_all add: joins_left_delchan)

lemma joins_left_update:
  "joins_left D A db \<Longrightarrow> (\<And>r. cr_id (f r) = cr_id r) \<Longrightarrow>
   joins_left D A (db\<lparr>t_channel := sql_update P f (t_channel db)\<rparr>)"
  using sql_update_keys [of cr_id f P "t_channel db", THEN arg_cong, of set]
  by (simp add: joins_left_def autojoins_def)

lemma joins_left_successor:
  "joins_left D A db \<Longrightarrow> fst ` set cs \<subseteq> D \<Longrightarrow> joins_left D A (successor_loop i cs k rows db)"
  by (induction i cs k rows db rule: successor_loop.induct)
     (simp_all add: joins_left_delchan joins_left_update Let_def)

lemma joins_left_remove_nick:
  assumes "joins_left D A db"
  shows "joins_left D A (cs_mysql_remove_nick i db)"
proof -
  define sel where "sel = map (\<lambda>r. (cr_id r, cr_successor r)) (to_pass_on i db)"
  define db1 where "db1 = successor_loop i sel 0 (length sel) db"
  define own where "own = map cr_id (filter (\<lambda>r. cr_founder r = i \<and> cr_successor r = 0) (t_channel db1))"
  define db2 where "db2 = fold mysql_delchan own db1"
  have "fst ` set sel \<subseteq> D" using assms by (auto simp: sel_def to_pass_on_def joins_left_def)
  then have 1: "joins_left D A db1" unfolding db1_def by (rule joins_left_successor [OF assms])
  then have "set own \<subseteq> D" by (auto simp: own_def joins_left_def)
  then have "joins_left D A db2" unfolding db2_def by (rule joins_left_fold [OF 1])
  then have "joins_left D A (db2\<lparr>t_channel :=
      sql_update (\<lambda>r. cr_successor r = i) (\<lambda>r. r\<lparr>cr_successor := 0\<rparr>) (t_channel db2)\<rparr>)"
    by (rule joins_left_update) simp
  moreover have "cs_mysql_remove_nick i db = db2\<lparr>t_chanaccess := sql_delete (\<lambda>r. ca_nick r = i) (t_chanaccess db2),
      t_akick := sql_delete (\<lambda>r. ak_nick r = i) (t_akick db2),
      t_channel := sql_update (\<lambda>r. cr_successor r = i) (\<lambda>r. r\<lparr>cr_successor := 0\<rparr>) (t_channel db2)\<rparr>"
    unfolding cs_mysql_remove_nick_def Let_def db2_def own_def db1_def sel_def to_pass_on_def by simp
  ultimately show ?thesis by (simp add: joins_left_def autojoins_def)
qed

lemma delnick_steps:
  "t_channel (mysql_delnick i db) = t_channel (cs_mysql_remove_nick i (del_nicksuspend i db))"
  "t_autojoin (mysql_delnick i db) = t_autojoin (cs_mysql_remove_nick i (del_nicksuspend i db))"
  by (simp_all add: mysql_delnick_def mysql_delete_nick_def ns_mysql_remove_memos_def Let_def
      ns_mysql_remove_access_def mysql_remove_links_def os_mysql_remove_nick_def)

lemma nicksuspend_fields:
  "t_channel (del_nicksuspend i db) = t_channel db" "t_autojoin (del_nicksuspend i db) = t_autojoin db"
  "t_nick (del_nicksuspend i db) = t_nick db"
  "i \<noteq> 0 \<Longrightarrow> t_nicksuspend (del_nicksuspend i db) = sql_delete (\<lambda>(k, j, s). k = i) (t_nicksuspend db)"
  by (auto simp: del_nicksuspend_def Let_def split: list.splits prod.splits)

lemma delnick_autojoins:
  assumes "distinct (map aj_id (t_autojoin db))"
  shows "autojoins (mysql_delnick i db) =
    {(j, c) \<in> autojoins db. c \<in> cr_id ` set (t_channel db) \<longrightarrow> c \<in> cr_id ` set (t_channel (mysql_delnick i db))}"
proof -
  have "joins_left (cr_id ` set (t_channel db)) (autojoins db) (del_nicksuspend i db)"
    using assms by (auto simp: joins_left_def autojoins_def nicksuspend_fields)
  then have "joins_left (cr_id ` set (t_channel db)) (autojoins db)
      (cs_mysql_remove_nick i (del_nicksuspend i db))"
    by (rule joins_left_remove_nick)
  then show ?thesis by (simp add: joins_left_def autojoins_def delnick_steps)
qed

lemma delnick_suspensions:
  "i \<noteq> 0 \<Longrightarrow> t_nicksuspend (mysql_delnick i db) = sql_delete (\<lambda>(k, j, s). k = i) (t_nicksuspend db)"
  by (simp add: mysql_delnick_def mysql_delete_nick_def ns_mysql_remove_memos_def Let_def
      ns_mysql_remove_access_def mysql_remove_links_def os_mysql_remove_nick_def cs_mysql_remove_nick_def
      reg_simps nicksuspend_fields)



definition nick_of :: "nat \<Rightarrow> cstr \<Rightarrow> nick_row" where
  "nick_of i name =
     \<lparr>nr_id = i, nr_nick = name, nr_status = 0, nr_flags = 0, nr_link = 0, nr_channelmax = 0,
      nr_language = 0, nr_last_seen = 0, nr_time_registered = 0, nr_id_stamp = 0,
      nr_last_usermask = [], nr_last_realname = [], nr_last_quit = [], nr_last_quit_time = 0,
      nr_pass = [], nr_salt = [], nr_url = [], nr_email = [], nr_regainid = 0, nr_sendpass_pass = [],
      nr_sendpass_salt = [], nr_sendpass_time = 0, nr_cloak = []\<rparr>"

definition chan_of :: "nat \<Rightarrow> cstr \<Rightarrow> nat \<Rightarrow> nat \<Rightarrow> chan_row" where
  "chan_of c name founder successor =
     \<lparr>cr_id = c, cr_name = name, cr_founder = founder, cr_successor = successor, cr_flags = 0,
      cr_time_registered = 0, cr_last_used = 0, cr_mlock_on = 0, cr_mlock_off = 0, cr_mlock_limit = 0,
      cr_mlock_key = [], cr_last_topic = [], cr_last_topic_setter = [], cr_last_topic_time = 0,
      cr_last_limit_time = 0, cr_limit_offset = 0, cr_limit_tolerance = 0, cr_limit_period = 0,
      cr_bantime = 0, cr_floodserv = False,
      cr_founderpass = [], cr_salt = [], cr_description = [], cr_url = [], cr_email = [], cr_founder_memo_read = 0,
      cr_entry_message = [], cr_sendpass_pass = [], cr_sendpass_salt = [], cr_sendpass_time = 0\<rparr>"

definition empty_db :: sqldb where
  "empty_db = \<lparr>t_nick = [], t_nickaccess = [], t_channel = [], t_chanaccess = [], t_chanlevel = [],
     t_akick = [], t_autojoin = [], t_suspend = [], t_nicksuspend = [], t_chansuspend = [], t_memo = [],
     t_memoinfo = [], t_admin = [], t_oper = [], t_news = [],
     next_nick = 1, next_channel = 1, next_chanaccess = 1, next_akick = 1, next_memo = 1, next_news = 1, next_suspend = 1\<rparr>"

definition founder_db :: "chan_row list \<Rightarrow> sqldb" where
  "founder_db cs = empty_db\<lparr>t_nick := [nick_of 1 ''alice'', nick_of 2 ''bob''], t_channel := cs, t_admin := [1]\<rparr>"



text \<open>The suspension of the removed nickname and its place on autojoin lists do stay.\<close>

lemma suspension_stays:
  assumes "i \<noteq> 0" and "(k, i, s) \<in> set (t_nicksuspend db)" and "k \<noteq> i"
  shows "(k, i, s) \<in> set (t_nicksuspend (mysql_delnick i db))"
  using assms(2,3) by (simp add: delnick_suspensions [OF assms(1)] sql_delete_set)

lemma autojoin_stays:
  assumes "distinct (map aj_id (t_autojoin db))" and "(i, c) \<in> autojoins db"
    and "c \<in> cr_id ` set (t_channel (mysql_delnick i db))"
  shows "(i, c) \<in> autojoins (mysql_delnick i db)"
  using assms by (simp add: delnick_autojoins)

text \<open>
  With two channels to pass on, the UPDATE of the first ends the loop: the second keeps the
  deleted nickname as its founder.
\<close>

lemma successor_loop_orphans:
  "\<exists>r\<in>set (t_channel (mysql_delnick 1 (founder_db [chan_of 10 ''#a'' 1 2, chan_of 11 ''#b'' 1 2]))).
     cr_id r = 11 \<and> cr_founder r = 1"
  by (simp add: mysql_delnick_def mysql_delete_nick_def ns_mysql_remove_memos_def Let_def
      ns_mysql_remove_access_def mysql_remove_links_def os_mysql_remove_nick_def del_nicksuspend_def
      cs_mysql_remove_nick_def founder_db_def empty_db_def chan_of_def nick_of_def check_chan_limit_def
      link_of_def nick.row_def sql_first_def get_channelmax_def count_chans_reged_by_def
      MAX_CHANNELCOUNT_def sql_update_def sql_changed_def sql_delete_def)

text \<open>The removal also takes the nick id for the id of a suspension.\<close>

lemma mysql_delnick_unsuspends_other:
  "t_nicksuspend (mysql_delnick 1 (empty_db\<lparr>t_nicksuspend := [(1, 7, 3)], t_suspend := [\<lparr>su_id = 3, su_expires = 0\<rparr>]\<rparr>)) = []"
  by (simp add: mysql_delnick_def mysql_delete_nick_def ns_mysql_remove_memos_def Let_def
      ns_mysql_remove_access_def mysql_remove_links_def os_mysql_remove_nick_def del_nicksuspend_def
      cs_mysql_remove_nick_def empty_db_def sql_delete_def)

end
