(* ===== verification/NickCache.thy ===== *)
theory NickCache
  imports Prelude
begin

text \<open>
  The cache of nickname status and language in src/src/cache.c: 151 circular linked lists with a
  sentinel each, sorted by nick identifier, on an explicit heap in which a freed node is None.
  Every operation has an option result: None stands for a read of freed memory, a failed
  assertion or a loop that never ends.  The SELECT of a nickname's status and language is the
  argument \<open>db\<close>; \<open>now\<close> is the value of time().
\<close>

named_theorems nc_simps \<open>paths through the chains of the cache\<close>

type_synonym caddr = nat
type_synonym status = "32 word"

record nickcache =
  nc_next :: caddr
  nc_id :: nat
  nc_status :: status
  nc_stime :: int
  nc_language :: nat
  nc_ltime :: int

record ncache =
  nc_heap :: "caddr \<Rightarrow> nickcache option"
  nc_heads :: "nat \<Rightarrow> caddr"
  nc_brk :: caddr

type_synonym nick_select = "nat \<Rightarrow> (status \<times> nat) option"

definition HASH_id :: "nat \<Rightarrow> nat" where
  "HASH_id i = i mod 151"

section \<open>The operations\<close>

text \<open>\<open>nickcache_init\<close>: one sentinel per chain, linked to itself; the other fields of a sentinel
  are never read.\<close>

definition nickcache_init :: ncache where
  "nickcache_init =
     \<lparr>nc_heap = (\<lambda>a. if a < 151
        then Some \<lparr>nc_next = a, nc_id = 0, nc_status = 0, nc_stime = 0, nc_language = 0, nc_ltime = 0\<rparr>
        else None),
      nc_heads = (\<lambda>i. i), nc_brk = 151\<rparr>"

partial_function (option) nc_find_loop ::
  "(caddr \<Rightarrow> nickcache option) \<Rightarrow> caddr \<Rightarrow> nat \<Rightarrow> caddr \<Rightarrow> caddr option option" where
  "nc_find_loop h head i nc =
     (if nc = head then Some None
      else (case h nc of
              None \<Rightarrow> None
            | Some n \<Rightarrow> if nc_id n > i then Some None
                        else if nc_id n = i then Some (Some nc)
                        else nc_find_loop h head i (nc_next n)))"

definition nickcache_find :: "ncache \<Rightarrow> nat \<Rightarrow> caddr option option" where
  "nickcache_find c i =
     (if i = 0 then None
      else (let head = nc_heads c (HASH_id i)
            in case nc_heap c head of
                 None \<Rightarrow> None
               | Some hn \<Rightarrow> nc_find_loop (nc_heap c) head i (nc_next hn)))"

text \<open>The search for the insertion point returns the node to insert behind.\<close>

partial_function (option) nc_insert_loop ::
  "(caddr \<Rightarrow> nickcache option) \<Rightarrow> caddr \<Rightarrow> nat \<Rightarrow> caddr \<Rightarrow> caddr \<Rightarrow> caddr option" where
  "nc_insert_loop h head i prev nc =
     (if nc = head then Some prev
      else (case h nc of
              None \<Rightarrow> None
            | Some n \<Rightarrow> if nc_id n < i then nc_insert_loop h head i nc (nc_next n)
                        else Some prev))"

definition nickcache_insert ::
  "nick_select \<Rightarrow> int \<Rightarrow> ncache \<Rightarrow> nat \<Rightarrow> (caddr option \<times> ncache) option" where
  "nickcache_insert db now c i =
     (if i = 0 then None
      else case db i of
        None \<Rightarrow> Some (None, c)
      | Some (st, lang) \<Rightarrow>
          (let new = nc_brk c; head = nc_heads c (HASH_id i)
           in case nc_heap c head of
                None \<Rightarrow> None
              | Some hn \<Rightarrow>
                  (case nc_insert_loop (nc_heap c) head i head (nc_next hn) of
                     None \<Rightarrow> None
                   | Some prev \<Rightarrow>
                       (case nc_heap c prev of
                          None \<Rightarrow> None
                        | Some pn \<Rightarrow>
                            Some (Some new,
                              c\<lparr>nc_heap := (nc_heap c)
                                  (new \<mapsto> \<lparr>nc_next = nc_next pn, nc_id = i, nc_status = st,
                                           nc_stime = now, nc_language = lang mod 65536,
                                           nc_ltime = now\<rparr>,
                                   prev \<mapsto> pn\<lparr>nc_next := new\<rparr>),
                                nc_brk := Suc new\<rparr>)))))"

text \<open>\<open>nickcache_del\<close> stops at the node \<open>nc\<close> with the identifier, with \<open>z\<close> the node before it.\<close>

partial_function (option) nc_del_loop ::
  "(caddr \<Rightarrow> nickcache option) \<Rightarrow> nat \<Rightarrow> caddr \<Rightarrow> caddr \<Rightarrow> (caddr \<times> caddr) option option" where
  "nc_del_loop h i z nc =
     (case h nc of
        None \<Rightarrow> None
      | Some n \<Rightarrow>
          if nc_id n = i then Some (Some (z, nc))
          else if nc = nc_next n \<or> nc_id n > i then Some None
          else nc_del_loop h i nc (nc_next n))"

definition nickcache_del :: "ncache \<Rightarrow> nat \<Rightarrow> ncache option" where
  "nickcache_del c i =
     (if i = 0 then None
      else (let head = nc_heads c (HASH_id i)
            in case nc_del_loop (nc_heap c) i head head of
                 None \<Rightarrow> None
               | Some None \<Rightarrow> Some c
               | Some (Some (z, nc)) \<Rightarrow>
                   (case nc_heap c nc of
                      None \<Rightarrow> None
                    | Some n \<Rightarrow>
                        (case nc_heap c (nc_next n) of
                           None \<Rightarrow> None
                         | Some nn \<Rightarrow>
                             Some (c\<lparr>nc_heap := ((nc_heap c)(nc \<mapsto> n\<lparr>nc_next := nc_next nn\<rparr>))
                                       (z := None)\<rparr>)))))"

definition nc_put :: "(nickcache \<Rightarrow> nickcache) \<Rightarrow> ncache \<Rightarrow> caddr \<Rightarrow> ncache" where
  "nc_put f c a = c\<lparr>nc_heap := (nc_heap c)(a := map_option f (nc_heap c a))\<rparr>"

text \<open>\<open>if (!(nc = nickcache_find(nick_id))) nc = nickcache_insert(nick_id);\<close>\<close>

definition nc_fetch ::
  "nick_select \<Rightarrow> int \<Rightarrow> ncache \<Rightarrow> nat \<Rightarrow> (caddr option \<times> ncache) option" where
  "nc_fetch db now c i =
     (case nickcache_find c i of
        None \<Rightarrow> None
      | Some (Some a) \<Rightarrow> Some (Some a, c)
      | Some None \<Rightarrow> nickcache_insert db now c i)"

definition nickcache_update ::
  "nick_select \<Rightarrow> int \<Rightarrow> ncache \<Rightarrow> nat \<Rightarrow> (caddr option \<times> ncache) option" where
  "nickcache_update db now c i =
     (case nc_fetch db now c i of
        None \<Rightarrow> None
      | Some (nc, c) \<Rightarrow>
          (case db i of
             Some (st, lang) \<Rightarrow>
               (case nc of
                  None \<Rightarrow> None
                | Some a \<Rightarrow> Some (Some a, nc_put (\<lambda>n. n\<lparr>nc_status := st, nc_language := lang mod 65536,
                                                  nc_stime := now, nc_ltime := now\<rparr>) c a))
           | None \<Rightarrow>
               (case nickcache_del c i of None \<Rightarrow> None | Some c \<Rightarrow> Some (None, c))))"

text \<open>\<open>nickcache_get_status\<close> and \<open>nickcache_get_language\<close> refresh entries of an hour and more.\<close>

definition nickcache_get_status ::
  "nick_select \<Rightarrow> int \<Rightarrow> ncache \<Rightarrow> nat \<Rightarrow> (status \<times> ncache) option" where
  "nickcache_get_status db now c i =
     (case nickcache_find c i of
        None \<Rightarrow> None
      | Some f \<Rightarrow>
          (case (case f of
                   None \<Rightarrow> nickcache_insert db now c i
                 | Some a \<Rightarrow> (case nc_heap c a of
                               None \<Rightarrow> None
                             | Some n \<Rightarrow> if now - nc_stime n \<ge> 60 * 60
                                         then nickcache_update db now c i
                                         else Some (Some a, c))) of
             None \<Rightarrow> None
           | Some (None, c) \<Rightarrow> Some (0, c)
           | Some (Some a, c) \<Rightarrow> map_option (\<lambda>n. (nc_status n, c)) (nc_heap c a)))"

definition nickcache_get_language ::
  "nick_select \<Rightarrow> int \<Rightarrow> ncache \<Rightarrow> nat \<Rightarrow> (nat \<times> ncache) option" where
  "nickcache_get_language db now c i =
     (case nickcache_find c i of
        None \<Rightarrow> None
      | Some f \<Rightarrow>
          (case (case f of
                   None \<Rightarrow> nickcache_insert db now c i
                 | Some a \<Rightarrow> (case nc_heap c a of
                               None \<Rightarrow> None
                             | Some n \<Rightarrow> if now - nc_ltime n \<ge> 60 * 60
                                         then nickcache_update db now c i
                                         else Some (Some a, c))) of
             None \<Rightarrow> None
           | Some (None, c) \<Rightarrow> Some (0, c)
           | Some (Some a, c) \<Rightarrow> map_option (\<lambda>n. (nc_language n, c)) (nc_heap c a)))"

definition nc_change ::
  "(nickcache \<Rightarrow> nickcache) \<Rightarrow> nick_select \<Rightarrow> int \<Rightarrow> ncache \<Rightarrow> nat \<Rightarrow> ncache option" where
  "nc_change f db now c i =
     (case nc_fetch db now c i of
        None \<Rightarrow> None
      | Some (None, c) \<Rightarrow> Some c
      | Some (Some a, c) \<Rightarrow> Some (nc_put f c a))"

definition nickcache_set_language ::
  "nat \<Rightarrow> nick_select \<Rightarrow> int \<Rightarrow> ncache \<Rightarrow> nat \<Rightarrow> ncache option" where
  "nickcache_set_language lang db now =
     nc_change (\<lambda>n. n\<lparr>nc_language := lang mod 65536, nc_ltime := now\<rparr>) db now"

definition nickcache_set_status ::
  "status \<Rightarrow> nick_select \<Rightarrow> int \<Rightarrow> ncache \<Rightarrow> nat \<Rightarrow> ncache option" where
  "nickcache_set_status st db now = nc_change (\<lambda>n. n\<lparr>nc_status := st, nc_stime := now\<rparr>) db now"

definition nickcache_add_status ::
  "status \<Rightarrow> nick_select \<Rightarrow> int \<Rightarrow> ncache \<Rightarrow> nat \<Rightarrow> ncache option" where
  "nickcache_add_status st db now =
     nc_change (\<lambda>n. n\<lparr>nc_status := nc_status n OR st, nc_stime := now\<rparr>) db now"

definition nickcache_remove_status ::
  "status \<Rightarrow> nick_select \<Rightarrow> int \<Rightarrow> ncache \<Rightarrow> nat \<Rightarrow> ncache option" where
  "nickcache_remove_status st db now =
     nc_change (\<lambda>n. n\<lparr>nc_status := nc_status n AND NOT st, nc_stime := now\<rparr>) db now"

section \<open>Chains\<close>

fun cpath :: "(caddr \<Rightarrow> nickcache option) \<Rightarrow> caddr \<Rightarrow> caddr list \<Rightarrow> caddr \<Rightarrow> bool" where
  "cpath h a [] z \<longleftrightarrow> a = z"
| "cpath h a (x # xs) z \<longleftrightarrow> a = x \<and> (case h x of None \<Rightarrow> False | Some n \<Rightarrow> cpath h (nc_next n) xs z)"

definition idof :: "(caddr \<Rightarrow> nickcache option) \<Rightarrow> caddr \<Rightarrow> nat" where
  "idof h a = (case h a of None \<Rightarrow> 0 | Some n \<Rightarrow> nc_id n)"

definition chain_ok :: "(caddr \<Rightarrow> nickcache option) \<Rightarrow> caddr \<Rightarrow> nat \<Rightarrow> caddr list \<Rightarrow> bool" where
  "chain_ok h sn b xs \<longleftrightarrow>
     cpath h sn (sn # xs) sn \<and> distinct (sn # xs) \<and> idof h sn = 0 \<and>
     sorted_wrt (<) (map (idof h) xs) \<and> (\<forall>x\<in>set xs. idof h x > 0 \<and> HASH_id (idof h x) = b)"

definition cache_rep :: "ncache \<Rightarrow> (nat \<Rightarrow> caddr list) \<Rightarrow> bool" where
  "cache_rep c ch \<longleftrightarrow>
     (\<forall>b<151. chain_ok (nc_heap c) (nc_heads c b) b (ch b)) \<and>
     inj_on (nc_heads c) {..<151} \<and> (\<forall>a. nc_heap c a \<noteq> None \<longrightarrow> a < nc_brk c)"

definition cache_ok :: "ncache \<Rightarrow> bool" where
  "cache_ok c \<longleftrightarrow> (\<exists>ch. cache_rep c ch)"

lemma HASH_less [simp]: "HASH_id i < 151"
  by (simp add: HASH_id_def)

lemma cpath_append [nc_simps]: "cpath h a (xs @ ys) z \<longleftrightarrow> (\<exists>b. cpath h a xs b \<and> cpath h b ys z)"
  by (induction xs arbitrary: a) (auto split: option.splits)

lemma cpath_frame: "(\<And>x. x \<in> set xs \<Longrightarrow> map_option nc_next (h' x) = map_option nc_next (h x)) \<Longrightarrow>
  cpath h' a xs z \<longleftrightarrow> cpath h a xs z"
proof (induction xs arbitrary: a)
  case (Cons x xs)
  have "map_option nc_next (h' x) = map_option nc_next (h x)" using Cons.prems by simp
  then show ?case using Cons.IH Cons.prems by (cases "h x"; cases "h' x") auto
qed simp

lemma cpath_alloc: "cpath h a xs z \<Longrightarrow> x \<in> set xs \<Longrightarrow> h x \<noteq> None"
  by (induction xs arbitrary: a) (auto split: option.splits)

lemma chain_ok_frame:
  assumes "\<And>x. x = sn \<or> x \<in> set xs \<Longrightarrow>
      map_option (\<lambda>n. (nc_next n, nc_id n)) (h' x) = map_option (\<lambda>n. (nc_next n, nc_id n)) (h x)"
  shows "chain_ok h' sn b xs \<longleftrightarrow> chain_ok h sn b xs"
proof -
  have nx: "map_option nc_next (h' x) = map_option nc_next (h x)"
    and ix: "idof h' x = idof h x" if "x = sn \<or> x \<in> set xs" for x
    using assms [OF that] by (cases "h x"; cases "h' x"; simp add: idof_def)+
  have "cpath h' sn (sn # xs) sn \<longleftrightarrow> cpath h sn (sn # xs) sn"
    by (rule cpath_frame) (use nx in auto)
  moreover have "map (idof h') xs = map (idof h) xs" using ix by simp
  moreover have "idof h' sn = idof h sn" using ix by simp
  moreover have "(\<forall>x\<in>set xs. idof h' x > 0 \<and> HASH_id (idof h' x) = b) \<longleftrightarrow>
      (\<forall>x\<in>set xs. idof h x > 0 \<and> HASH_id (idof h x) = b)" using ix by simp
  ultimately show ?thesis unfolding chain_ok_def by (simp only:)
qed

lemma chain_head: "chain_ok h sn b xs \<Longrightarrow> \<exists>hn. h sn = Some hn \<and> cpath h (nc_next hn) xs sn"
  by (auto simp: chain_ok_def split: option.splits)

text \<open>The loops on a sorted chain.\<close>

lemma nc_find_loop_ok:
  "cpath h nc xs sn \<Longrightarrow> sn \<notin> set xs \<Longrightarrow> sorted_wrt (<) (map (idof h) xs) \<Longrightarrow>
   nc_find_loop h sn i nc = Some (find (\<lambda>a. idof h a = i) xs)"
proof (induction xs arbitrary: nc)
  case Nil
  then show ?case by (subst nc_find_loop.simps) simp
next
  case (Cons x xs)
  then obtain n where n: "nc = x" "h x = Some n" "cpath h (nc_next n) xs sn"
    by (auto split: option.splits)
  have big: "find (\<lambda>a. idof h a = i) xs = None" if "i < idof h x"
    using that Cons.prems(3) by (fastforce simp: find_None_iff)
  show ?case
    using n Cons big by (subst nc_find_loop.simps) (auto simp: idof_def)
qed

lemma nc_insert_loop_ok:
  "cpath h nc xs sn \<Longrightarrow> sn \<notin> set xs \<Longrightarrow>
   nc_insert_loop h sn i prev nc = Some (last (prev # takeWhile (\<lambda>a. idof h a < i) xs))"
proof (induction xs arbitrary: nc prev)
  case Nil
  then show ?case by (subst nc_insert_loop.simps) simp
next
  case (Cons x xs)
  then obtain n where n: "nc = x" "h x = Some n" "cpath h (nc_next n) xs sn"
    by (auto split: option.splits)
  then show ?case
    using Cons by (subst nc_insert_loop.simps) (auto simp: idof_def)
qed

lemma nickcache_find_ok:
  assumes "cache_rep c ch" and "i \<noteq> 0"
  shows "nickcache_find c i = Some (find (\<lambda>a. idof (nc_heap c) a = i) (ch (HASH_id i)))"
proof -
  have ok: "chain_ok (nc_heap c) (nc_heads c (HASH_id i)) (HASH_id i) (ch (HASH_id i))"
    using assms(1) by (simp add: cache_rep_def)
  with chain_head obtain hn where "nc_heap c (nc_heads c (HASH_id i)) = Some hn"
    "cpath (nc_heap c) (nc_next hn) (ch (HASH_id i)) (nc_heads c (HASH_id i))" by blast
  then show ?thesis
    using assms(2) ok by (simp add: nickcache_find_def chain_ok_def Let_def nc_find_loop_ok)
qed

text \<open>Insertion into a chain.\<close>

lemma chain_insert:
  assumes "chain_ok h sn b xs" and "h new = None" and "i \<noteq> 0" and "HASH_id i = b"
    and "i \<notin> idof h ` set xs" and "us = takeWhile (\<lambda>a. idof h a < i) xs" and "prev = last (sn # us)"
    and "nc_id e = i"
  obtains pn where "h prev = Some pn"
    and "chain_ok (h(new \<mapsto> e\<lparr>nc_next := nc_next pn\<rparr>, prev \<mapsto> pn\<lparr>nc_next := new\<rparr>)) sn b
           (us @ new # dropWhile (\<lambda>a. idof h a < i) xs)"
    and "prev \<in> set (sn # xs)"
proof -
  define vs where "vs = dropWhile (\<lambda>a. idof h a < i) xs"
  have xs: "xs = us @ vs" using assms(6) by (simp add: vs_def)
  define ws where "ws = butlast (sn # us)"
  have ws: "sn # us = ws @ [prev]"
    unfolding ws_def assms(7) by (rule append_butlast_last_id [symmetric]) simp
  have d: "distinct (sn # xs)" and path: "cpath h sn (sn # xs) sn" and id0: "idof h sn = 0"
    and srt: "sorted_wrt (<) (map (idof h) xs)"
    and ids: "\<And>x. x \<in> set xs \<Longrightarrow> idof h x > 0 \<and> HASH_id (idof h x) = b"
    using assms(1) unfolding chain_ok_def by blast+
  have full: "sn # xs = ws @ prev # vs" using ws unfolding xs by (metis append.assoc append_Cons append_Nil)
  then obtain m where m: "cpath h sn ws m" "cpath h m (prev # vs) sn"
    using path unfolding full cpath_append by metis
  then obtain pn where pn: "h prev = Some pn" "cpath h (nc_next pn) vs sn" "m = prev"
    by (auto split: option.splits)
  have new: "new \<notin> set (sn # xs)" using cpath_alloc [OF path] assms(2) by blast
  have prevd: "prev \<notin> set ws" "prev \<notin> set vs" "prev \<in> set (sn # xs)"
    using d unfolding full by auto
  let ?h = "h(new \<mapsto> e\<lparr>nc_next := nc_next pn\<rparr>, prev \<mapsto> pn\<lparr>nc_next := new\<rparr>)"
  have np: "new \<noteq> prev" using new prevd by auto
  have sub: "set ws \<union> set vs \<subseteq> set (sn # xs)" unfolding full by auto
  have fr: "?h x = h x" if "x \<in> set ws \<union> set vs" for x
    using that new prevd sub by auto
  have idp: "idof ?h x = (if x = new then i else idof h x)" for x
    using pn(1) np assms(8) by (auto simp: idof_def)
  have "cpath ?h sn ws prev" using m(1) pn(3) fr cpath_frame [of ws ?h h] by auto
  moreover have "cpath ?h (nc_next pn) vs sn" using pn(2) fr cpath_frame [of vs ?h h] by auto
  ultimately have "cpath ?h sn (ws @ prev # new # vs) sn"
    unfolding cpath_append using np by (intro exI [of _ prev]) simp
  then have p': "cpath ?h sn (sn # us @ new # vs) sn"
    using ws by (metis append.assoc append_Cons append_Nil)
  have d': "distinct (sn # us @ new # vs)"
    using d new unfolding xs by auto
  have lo: "idof h x < i" if "x \<in> set us" for x
    using that assms(6) by (auto dest: set_takeWhileD)
  have hi: "i < idof h x" if "x \<in> set vs" for x
  proof (cases vs)
    case (Cons y ys)
    then have y: "\<not> idof h y < i"
      using hd_dropWhile [of "\<lambda>a. idof h a < i" xs] unfolding vs_def [symmetric] by simp
    moreover have y2: "y \<in> set xs" unfolding xs Cons by simp
    moreover have "sorted_wrt (<) (map (idof h) (y # ys))"
      using srt unfolding xs Cons by (simp add: sorted_wrt_append)
    moreover have "idof h y \<noteq> i" using assms(5) y2 by blast
    ultimately show ?thesis using that Cons by auto
  qed (use that in simp)
  have s': "sorted_wrt (<) (map (idof ?h) (us @ new # vs))"
  proof -
    have e1: "map (idof ?h) (us @ new # vs) = map (idof h) us @ i # map (idof h) vs"
      using new idp unfolding xs by (auto intro!: map_cong)
    have "sorted_wrt (<) (map (idof h) us @ map (idof h) vs)"
      using srt unfolding xs by simp
    then show ?thesis using lo hi unfolding e1 by (auto simp: sorted_wrt_append)
  qed
  have "chain_ok ?h sn b (us @ new # vs)"
    unfolding chain_ok_def
  proof (intro conjI ballI)
    show "idof ?h sn = 0" using id0 idp new by simp
    fix x assume "x \<in> set (us @ new # vs)"
    then show "idof ?h x > 0" and "HASH_id (idof ?h x) = b"
      using ids idp assms(3,4) unfolding xs by auto
  qed (rule p' d' s')+
  with pn(1) prevd(3) show thesis using that by (simp add: vs_def)
qed


section \<open>The cache as a map\<close>

text \<open>What the cache holds for a nickname: its status and its language, with their ages.\<close>

record nc_data =
  cd_status :: status
  cd_stime :: int
  cd_language :: nat
  cd_ltime :: int

definition data_of :: "nickcache \<Rightarrow> nc_data" where
  "data_of n = \<lparr>cd_status = nc_status n, cd_stime = nc_stime n, cd_language = nc_language n,
     cd_ltime = nc_ltime n\<rparr>"

definition nc_look :: "ncache \<Rightarrow> nat \<Rightarrow> nc_data option" where
  "nc_look c i =
     (case nickcache_find c i of
        Some (Some a) \<Rightarrow> map_option data_of (nc_heap c a)
      | _ \<Rightarrow> None)"

lemma cache_rep_find:
  assumes "cache_rep c ch" and "i \<noteq> 0" and "nickcache_find c i = Some (Some a)"
  shows "a \<in> set (ch (HASH_id i)) \<and> idof (nc_heap c) a = i \<and>
         (\<exists>n. nc_heap c a = Some n \<and> nc_id n = i \<and> nc_look c i = Some (data_of n))"
proof -
  have "find (\<lambda>a. idof (nc_heap c) a = i) (ch (HASH_id i)) = Some a"
    using nickcache_find_ok [OF assms(1,2)] assms(3) by simp
  then have a: "a \<in> set (ch (HASH_id i))" "idof (nc_heap c) a = i"
    using find_Some_set by fastforce+
  then obtain n where "nc_heap c a = Some n" "nc_id n = i"
    using assms(2) by (auto simp: idof_def split: option.splits)
  with a assms(3) show ?thesis by (simp add: nc_look_def)
qed

lemma cache_rep_find_None:
  assumes "cache_rep c ch" and "i \<noteq> 0" and "nickcache_find c i = Some None"
  shows "i \<notin> idof (nc_heap c) ` set (ch (HASH_id i)) \<and> nc_look c i = None"
proof -
  have "find (\<lambda>a. idof (nc_heap c) a = i) (ch (HASH_id i)) = None"
    using nickcache_find_ok [OF assms(1,2)] assms(3) by simp
  then show ?thesis using assms(3) by (auto simp: find_None_iff nc_look_def)
qed

lemma idof_unique:
  assumes "chain_ok h sn b xs" and "x \<in> set xs" and "y \<in> set xs" and "idof h x = idof h y"
  shows "x = y"
proof -
  have "distinct (map (idof h) xs)"
    using assms(1) strict_sorted_iff unfolding chain_ok_def by blast
  then show ?thesis using assms(2-4) by (auto simp: distinct_map inj_on_def)
qed

lemma nc_look_char:
  assumes "cache_rep c ch" and "i \<noteq> 0"
  shows "nc_look c i = Some d \<longleftrightarrow>
    (\<exists>a\<in>set (ch (HASH_id i)). \<exists>n. nc_heap c a = Some n \<and> nc_id n = i \<and> data_of n = d)"
proof
  assume "nc_look c i = Some d"
  then obtain a n where "nickcache_find c i = Some (Some a)" "nc_heap c a = Some n" "data_of n = d"
    by (auto simp: nc_look_def split: option.splits)
  then show "\<exists>a\<in>set (ch (HASH_id i)). \<exists>n. nc_heap c a = Some n \<and> nc_id n = i \<and> data_of n = d"
    using cache_rep_find [OF assms] by fastforce
next
  assume "\<exists>a\<in>set (ch (HASH_id i)). \<exists>n. nc_heap c a = Some n \<and> nc_id n = i \<and> data_of n = d"
  then obtain a n where a: "a \<in> set (ch (HASH_id i))" "nc_heap c a = Some n" "nc_id n = i" "data_of n = d"
    by blast
  have ia: "idof (nc_heap c) a = i" using a by (simp add: idof_def)
  have "nickcache_find c i \<noteq> Some None"
    using cache_rep_find_None [OF assms] a(1) ia by blast
  then obtain a' where a': "nickcache_find c i = Some (Some a')"
    using nickcache_find_ok [OF assms] by auto
  have "chain_ok (nc_heap c) (nc_heads c (HASH_id i)) (HASH_id i) (ch (HASH_id i))"
    using assms(1) by (simp add: cache_rep_def)
  then have "a' = a" using cache_rep_find [OF assms a'] a(1) ia idof_unique by metis
  then show "nc_look c i = Some d" using a' a(2,4) by (simp add: nc_look_def)
qed

lemma chain_other:
  assumes "cache_rep c ch" and "b < 151" and "b' < 151" and "b \<noteq> b'"
    and "x \<in> set (nc_heads c b # ch b)"
  shows "x \<notin> set (nc_heads c b' # ch b')"
proof -
  have ok: "chain_ok (nc_heap c) (nc_heads c b) b (ch b)"
    "chain_ok (nc_heap c) (nc_heads c b') b' (ch b')" and inj: "inj_on (nc_heads c) {..<151}"
    using assms by (auto simp: cache_rep_def)
  have hd: "nc_heads c b \<noteq> nc_heads c b'" using inj assms(2-4) by (auto simp: inj_on_def)
  have "idof (nc_heap c) x = 0 \<or> HASH_id (idof (nc_heap c) x) = b" "x \<in> set (ch b) \<Longrightarrow> idof (nc_heap c) x > 0"
    "x \<in> set (ch b) \<Longrightarrow> HASH_id (idof (nc_heap c) x) = b" "x = nc_heads c b \<Longrightarrow> idof (nc_heap c) x = 0"
    using ok(1) assms(5) by (auto simp: chain_ok_def)
  moreover have "x \<in> set (ch b') \<Longrightarrow> idof (nc_heap c) x > 0"
    "x \<in> set (ch b') \<Longrightarrow> HASH_id (idof (nc_heap c) x) = b'" "x = nc_heads c b' \<Longrightarrow> idof (nc_heap c) x = 0"
    using ok(2) by (auto simp: chain_ok_def)
  ultimately show ?thesis using hd assms(4,5) by auto
qed

text \<open>Changing the data of a node leaves the chains alone.\<close>

definition data_only :: "(nickcache \<Rightarrow> nickcache) \<Rightarrow> bool" where
  "data_only f \<longleftrightarrow> (\<forall>n. nc_next (f n) = nc_next n \<and> nc_id (f n) = nc_id n)"

lemma nc_put_rep: "cache_rep c ch \<Longrightarrow> data_only f \<Longrightarrow> cache_rep (nc_put f c a) ch"
proof -
  assume rep: "cache_rep c ch" and f: "data_only f"
  have eq: "map_option (\<lambda>n. (nc_next n, nc_id n)) (nc_heap (nc_put f c a) x) =
      map_option (\<lambda>n. (nc_next n, nc_id n)) (nc_heap c x)" for x
    using f by (cases "nc_heap c x") (auto simp: nc_put_def data_only_def)
  have "chain_ok (nc_heap (nc_put f c a)) (nc_heads c b) b (ch b)" if "b < 151" for b
    using rep that eq chain_ok_frame [of "nc_heads c b" "ch b" "nc_heap (nc_put f c a)"]
    by (simp add: cache_rep_def)
  then show ?thesis
    using rep unfolding cache_rep_def by (auto simp: nc_put_def split: if_splits)
qed

lemma nc_put_look:
  assumes "cache_rep c ch" and "data_only f" and "\<And>n. data_of (f n) = g (data_of n)" and "i \<noteq> 0" and "j \<noteq> 0"
    and "nickcache_find c i = Some (Some a)"
  shows "nc_look (nc_put f c a) j = (if j = i then map_option g (nc_look c i) else nc_look c j)"
proof -
  note rep = nc_put_rep [OF assms(1,2), of a]
  have idp: "idof (nc_heap (nc_put f c a)) x = idof (nc_heap c) x" for x
    using assms(2) by (auto simp: idof_def nc_put_def data_only_def split: option.splits)
  have fnd: "nickcache_find (nc_put f c a) j = nickcache_find c j"
    using nickcache_find_ok [OF rep assms(5)] nickcache_find_ok [OF assms(1,5)] by (simp add: idp)
  show ?thesis
  proof (cases "j = i")
    case True
    then show ?thesis
      using assms(6) fnd assms(3)
      by (simp add: nc_look_def nc_put_def option.map_comp o_def)
  next
    case False
    have "b \<noteq> a" if "nickcache_find c j = Some (Some b)" for b
      using cache_rep_find [OF assms(1,5) that] cache_rep_find [OF assms(1,4,6)] False by auto
    then show ?thesis
      using fnd False by (auto simp: nc_look_def nc_put_def split: option.splits)
  qed
qed

lemma nickcache_insert_ok:
  assumes rep: "cache_rep c ch" and i: "i \<noteq> 0" and nf: "nickcache_find c i = Some None"
    and db: "db i = Some (st, lang)"
  obtains c' ch' a where "nickcache_insert db now c i = Some (Some a, c')" and "cache_rep c' ch'"
    and "nickcache_find c' i = Some (Some a)"
    and "nc_look c' i = Some \<lparr>cd_status = st, cd_stime = now, cd_language = lang mod 65536, cd_ltime = now\<rparr>"
    and "\<forall>j. j \<noteq> 0 \<longrightarrow> j \<noteq> i \<longrightarrow> nc_look c' j = nc_look c j"
proof -
  define b where "b = HASH_id i"
  define h sn xs new where "h = nc_heap c" and "sn = nc_heads c b" and "xs = ch b" and "new = nc_brk c"
  note defs = h_def sn_def xs_def new_def
  define e where "e = \<lparr>nc_next = 0, nc_id = i, nc_status = st, nc_stime = now,
      nc_language = lang mod 65536, nc_ltime = now\<rparr>"
  have b: "b < 151" by (simp add: b_def)
  have ok: "chain_ok h sn b xs" using rep b by (simp add: cache_rep_def defs)
  obtain hn where hn: "h sn = Some hn" "cpath h (nc_next hn) xs sn" using chain_head [OF ok] by blast
  have fresh: "h new = None" using rep by (auto simp: cache_rep_def defs)
  have ni: "i \<notin> idof h ` set xs" using cache_rep_find_None [OF rep i nf] by (simp add: defs b_def)
  define us where "us = takeWhile (\<lambda>a. idof h a < i) xs"
  define vs where "vs = dropWhile (\<lambda>a. idof h a < i) xs"
  define prev where "prev = last (sn # us)"
  obtain pn where pn: "h prev = Some pn"
    and ok': "chain_ok (h(new \<mapsto> e\<lparr>nc_next := nc_next pn\<rparr>, prev \<mapsto> pn\<lparr>nc_next := new\<rparr>)) sn b
           (us @ new # vs)"
    and pin: "prev \<in> set (sn # xs)"
    using chain_insert [OF ok fresh i _ ni us_def prev_def, of e] unfolding vs_def
    by (auto simp: b_def e_def)
  have lp: "nc_insert_loop h sn i sn (nc_next hn) = Some prev"
    using nc_insert_loop_ok [OF hn(2), of i sn] ok unfolding prev_def us_def chain_ok_def by simp
  define h' where "h' = h(new \<mapsto> e\<lparr>nc_next := nc_next pn\<rparr>, prev \<mapsto> pn\<lparr>nc_next := new\<rparr>)"
  define c' where "c' = c\<lparr>nc_heap := h', nc_brk := Suc new\<rparr>"
  define ch' where "ch' = ch(b := us @ new # vs)"
  have ins: "nickcache_insert db now c i = Some (Some new, c')"
    using i db hn(1) lp pn
    by (simp add: nickcache_insert_def Let_def c'_def h'_def defs b_def e_def)
  have np: "new \<noteq> prev" using fresh pn by auto
  have rep': "cache_rep c' ch'"
    unfolding cache_rep_def
  proof (intro conjI allI impI)
    fix b' :: nat assume b': "b' < 151"
    show "chain_ok (nc_heap c') (nc_heads c' b') b' (ch' b')"
    proof (cases "b' = b")
      case True
      then show ?thesis using ok' by (simp add: c'_def ch'_def h'_def sn_def)
    next
      case False
      have old: "chain_ok h (nc_heads c b') b' (ch b')" using rep b' by (simp add: cache_rep_def h_def)
      have np': "prev \<notin> set (nc_heads c b' # ch b')"
        using chain_other [OF rep b b' _ pin [unfolded sn_def xs_def]] False by simp
      have "new \<notin> set (nc_heads c b' # ch b')"
        using cpath_alloc [of h _ "nc_heads c b' # ch b'" _ new] fresh old unfolding chain_ok_def by blast
      with np' have "h' x = h x" if "x = nc_heads c b' \<or> x \<in> set (ch b')" for x
        using that unfolding h'_def by auto
      then have "chain_ok h' (nc_heads c b') b' (ch b')"
        using chain_ok_frame [of "nc_heads c b'" "ch b'" h' h b'] old by simp
      then show ?thesis using False by (simp add: c'_def ch'_def)
    qed
  next
    show "inj_on (nc_heads c') {..<151}" using rep by (simp add: cache_rep_def c'_def)
  next
    fix a assume "nc_heap c' a \<noteq> None"
    then show "a < nc_brk c'"
      using rep pn unfolding cache_rep_def c'_def h'_def defs
      by (auto simp: less_Suc_eq split: if_splits)
  qed
  have find': "nickcache_find c' i = Some (Some new)"
  proof -
    have lo: "idof h' x \<noteq> i" if "x \<in> set us" for x
    proof -
      have "x \<in> set xs" using that unfolding us_def by (rule set_takeWhileD [THEN conjunct1])
      then have "x \<noteq> new" using cpath_alloc [OF hn(2)] fresh by blast
      then have "idof h' x = idof h x" using pn by (auto simp: h'_def idof_def)
      then show ?thesis using ni \<open>x \<in> set xs\<close> by auto
    qed
    then have "find (\<lambda>a. idof h' a = i) us = None" by (auto simp: find_None_iff)
    moreover have "idof h' new = i" using np by (simp add: h'_def idof_def e_def)
    ultimately have "find (\<lambda>a. idof h' a = i) (us @ new # vs) = Some new"
      by (induction us) (auto split: if_splits)
    then show ?thesis
      using nickcache_find_ok [OF rep' i] by (simp add: ch'_def b_def c'_def)
  qed
  have look': "nc_look c' i = Some \<lparr>cd_status = st, cd_stime = now, cd_language = lang mod 65536, cd_ltime = now\<rparr>"
    using find' np by (simp add: nc_look_def c'_def h'_def data_of_def e_def)
  have sets: "x \<in> set (ch' b') \<longleftrightarrow> x \<in> set (ch b') \<or> b' = b \<and> x = new" for x b'
  proof -
    have "set xs = set us \<union> set vs"
      unfolding us_def vs_def by (metis set_append takeWhile_dropWhile_id)
    then show ?thesis by (auto simp: ch'_def xs_def)
  qed
  have same: "map_option (\<lambda>n. (nc_id n, data_of n)) (h' x) = map_option (\<lambda>n. (nc_id n, data_of n)) (h x)"
    if "x \<noteq> new" for x using that pn by (simp add: h'_def data_of_def)
  have nid: "map_option nc_id (h' new) = Some i" using np by (simp add: h'_def e_def)
  have other: "nc_look c' j = nc_look c j" if j: "j \<noteq> 0" "j \<noteq> i" for j
  proof -
    have node: "(\<exists>n. h' x = Some n \<and> nc_id n = j \<and> data_of n = d) \<longleftrightarrow>
        x \<noteq> new \<and> (\<exists>n. h x = Some n \<and> nc_id n = j \<and> data_of n = d)" for x d
      using same [of x] nid j fresh by (cases "x = new"; cases "h x"; cases "h' x") auto
    have "(\<exists>a\<in>set (ch' (HASH_id j)). \<exists>n. h' a = Some n \<and> nc_id n = j \<and> data_of n = d) \<longleftrightarrow>
        (\<exists>a\<in>set (ch (HASH_id j)). \<exists>n. h a = Some n \<and> nc_id n = j \<and> data_of n = d)" for d
      unfolding Bex_def node sets using fresh by (metis option.distinct(1))
    then have "nc_look c' j = Some d \<longleftrightarrow> nc_look c j = Some d" for d
      unfolding nc_look_char [OF rep' j(1)] nc_look_char [OF rep j(1)] by (simp add: c'_def h_def)
    then show ?thesis by (metis option.exhaust)
  qed
  have "\<forall>j. j \<noteq> 0 \<longrightarrow> j \<noteq> i \<longrightarrow> nc_look c' j = nc_look c j" using other by blast
  then show thesis by (rule that [OF ins rep' find' look'])
qed


section \<open>The operations on the map\<close>

lemma nickcache_find_total: "cache_rep c ch \<Longrightarrow> i \<noteq> 0 \<Longrightarrow> \<exists>r. nickcache_find c i = Some r"
  using nickcache_find_ok by blast

text \<open>The entry the cache would show for a nickname: its own, or a fresh one from the database.\<close>

definition fresh_data :: "int \<Rightarrow> status \<times> nat \<Rightarrow> nc_data" where
  "fresh_data now r =
     \<lparr>cd_status = fst r, cd_stime = now, cd_language = snd r mod 65536, cd_ltime = now\<rparr>"

definition view :: "nick_select \<Rightarrow> int \<Rightarrow> ncache \<Rightarrow> nat \<Rightarrow> nc_data option" where
  "view db now c i =
     (case nc_look c i of Some d \<Rightarrow> Some d | None \<Rightarrow> map_option (fresh_data now) (db i))"

lemma nc_fetch_ok:
  assumes "cache_rep c ch" and "i \<noteq> 0"
  obtains r c' ch' where "nc_fetch db now c i = Some (r, c')" and "cache_rep c' ch'"
    and "nc_look c' i = view db now c i" and "\<And>j. j \<noteq> 0 \<Longrightarrow> j \<noteq> i \<Longrightarrow> nc_look c' j = nc_look c j"
    and "nickcache_find c' i = Some r" and "r = None \<longleftrightarrow> view db now c i = None"
proof -
  obtain f where f: "nickcache_find c i = Some f" using nickcache_find_total [OF assms] by blast
  show thesis
  proof (cases f)
    case (Some a)
    then show ?thesis
      using cache_rep_find [OF assms f [unfolded Some]] f assms(1)
      by (intro that [of "Some a" c ch]) (auto simp: nc_fetch_def view_def)
  next
    case None
    note nf = f [unfolded None]
    have l: "nc_look c i = None" using cache_rep_find_None [OF assms nf] by simp
    show ?thesis
    proof (cases "db i")
      case None
      then show ?thesis
        using nf l assms by (intro that [of None c ch]) (auto simp: nc_fetch_def nickcache_insert_def view_def)
    next
      case (Some r)
      obtain st lang where r: "r = (st, lang)" by (metis surj_pair)
      have dbi: "db i = Some (st, lang)" using Some r by simp
      obtain c' ch' a where
        "nickcache_insert db now c i = Some (Some a, c')" "cache_rep c' ch'"
        "nickcache_find c' i = Some (Some a)"
        "nc_look c' i = Some \<lparr>cd_status = st, cd_stime = now, cd_language = lang mod 65536, cd_ltime = now\<rparr>"
        "\<forall>j. j \<noteq> 0 \<longrightarrow> j \<noteq> i \<longrightarrow> nc_look c' j = nc_look c j"
        by (rule nickcache_insert_ok [where db = db and now = now, OF assms nf dbi]) (rule that)
      then show ?thesis
        using nf l Some r by (intro that [of "Some a" c' ch']) (auto simp: nc_fetch_def view_def fresh_data_def)
    qed
  qed
qed

lemma nc_change_ok:
  assumes "cache_rep c ch" and "i \<noteq> 0" and "data_only f" and "\<And>n. data_of (f n) = g (data_of n)"
  shows "\<exists>c' ch'. nc_change f db now c i = Some c' \<and> cache_rep c' ch' \<and>
    (\<forall>j. j \<noteq> 0 \<longrightarrow> nc_look c' j = (if j = i then map_option g (view db now c i) else nc_look c j))"
proof -
  obtain r c' ch' where r: "nc_fetch db now c i = Some (r, c')" "cache_rep c' ch'"
    "nc_look c' i = view db now c i" "\<And>j. j \<noteq> 0 \<Longrightarrow> j \<noteq> i \<Longrightarrow> nc_look c' j = nc_look c j"
    "nickcache_find c' i = Some r" "r = None \<longleftrightarrow> view db now c i = None"
    using nc_fetch_ok [OF assms(1,2), of db now] by metis
  show ?thesis
  proof (cases r)
    case None
    then show ?thesis using r by (auto simp: nc_change_def)
  next
    case (Some a)
    have "nc_change f db now c i = Some (nc_put f c' a)" using r(1) Some by (simp add: nc_change_def)
    moreover have "cache_rep (nc_put f c' a) ch'" by (rule nc_put_rep [OF r(2) assms(3)])
    moreover have "nc_look (nc_put f c' a) j =
        (if j = i then map_option g (view db now c i) else nc_look c j)" if "j \<noteq> 0" for j
      using nc_put_look [OF r(2) assms(3,4,2) that r(5) [unfolded Some]] r(3) r(4) [OF that] by simp
    ultimately show ?thesis by blast
  qed
qed

lemma nickcache_update_ok:
  assumes "cache_rep c ch" and "i \<noteq> 0" and "db i = Some row"
  shows "\<exists>a c' ch'. nickcache_update db now c i = Some (Some a, c') \<and> cache_rep c' ch' \<and>
    nickcache_find c' i = Some (Some a) \<and>
    (\<forall>j. j \<noteq> 0 \<longrightarrow> nc_look c' j = (if j = i then Some (fresh_data now row) else nc_look c j))"
proof -
  obtain st lang where row: "row = (st, lang)" by (metis surj_pair)
  obtain r c' ch' where r: "nc_fetch db now c i = Some (r, c')" "cache_rep c' ch'"
    "nc_look c' i = view db now c i" "\<And>j. j \<noteq> 0 \<Longrightarrow> j \<noteq> i \<Longrightarrow> nc_look c' j = nc_look c j"
    "nickcache_find c' i = Some r" "r = None \<longleftrightarrow> view db now c i = None"
    using nc_fetch_ok [OF assms(1,2), of db now] by metis
  have "view db now c i \<noteq> None" using assms(3) by (auto simp: view_def split: option.splits)
  then obtain a where a: "r = Some a" using r(6) by (cases r) auto
  let ?f = "\<lambda>n. n\<lparr>nc_status := st, nc_language := lang mod 65536, nc_stime := now, nc_ltime := now\<rparr>"
  have f: "data_only ?f" "\<And>n. data_of (?f n) = (\<lambda>_. fresh_data now row) (data_of n)"
    by (simp_all add: data_only_def data_of_def fresh_data_def row)
  have u: "nickcache_update db now c i = Some (Some a, nc_put ?f c' a)"
    using r(1) a assms(3) row by (simp add: nickcache_update_def)
  have rp: "cache_rep (nc_put ?f c' a) ch'" by (rule nc_put_rep [OF r(2) f(1)])
  have lk: "nc_look (nc_put ?f c' a) j = (if j = i then Some (fresh_data now row) else nc_look c j)"
    if "j \<noteq> 0" for j
    using nc_put_look [OF r(2) f assms(2) that r(5) [unfolded a]] r(3) r(4) [OF that]
      \<open>view db now c i \<noteq> None\<close> by auto
  have "idof (nc_heap (nc_put ?f c' a)) x = idof (nc_heap c') x" for x
    by (auto simp: idof_def nc_put_def split: option.splits)
  then have "nickcache_find (nc_put ?f c' a) i = Some (Some a)"
    using nickcache_find_ok [OF rp assms(2)] nickcache_find_ok [OF r(2) assms(2)] r(5) a by simp
  with u rp lk show ?thesis by blast
qed

section \<open>The contract of the cache\<close>

text \<open>
  NickServ uses the cache through its reads and through three updates of the status.  The contract
  says what each does to the entries; from it follows, once for every cache that satisfies it,
  that writing a status to the database and then to the cache keeps the two in agreement.
\<close>

definition with_status :: "(status \<Rightarrow> status) \<Rightarrow> int \<Rightarrow> nc_data \<Rightarrow> nc_data" where
  "with_status f now d = d\<lparr>cd_status := f (cd_status d), cd_stime := now\<rparr>"

definition select_status :: "(status \<Rightarrow> status) \<Rightarrow> nat \<Rightarrow> nick_select \<Rightarrow> nick_select" where
  "select_status f i db = db(i := map_option (\<lambda>(st, lang). (f st, lang)) (db i))"

locale status_cache =
  fixes ok :: "'c \<Rightarrow> bool"
    and look :: "'c \<Rightarrow> nat \<Rightarrow> nc_data option"
    and change :: "'op \<Rightarrow> nick_select \<Rightarrow> int \<Rightarrow> 'c \<Rightarrow> nat \<Rightarrow> 'c option"
    and effect :: "'op \<Rightarrow> status \<Rightarrow> status"
  assumes change_ok: "ok c \<Longrightarrow> i \<noteq> 0 \<Longrightarrow>
      \<exists>c'. change p db now c i = Some c' \<and> ok c' \<and>
        (\<forall>j. j \<noteq> 0 \<longrightarrow> look c' j =
           (if j = i then map_option (with_status (effect p) now)
                            (case look c i of Some d \<Rightarrow> Some d | None \<Rightarrow> map_option (fresh_data now) (db i))
            else look c j))"
    and effect_idem: "effect p (effect p st) = effect p st"
begin

definition in_sync :: "'c \<Rightarrow> nick_select \<Rightarrow> bool" where
  "in_sync c db \<longleftrightarrow>
     (\<forall>i d st lang. i \<noteq> 0 \<longrightarrow> look c i = Some d \<longrightarrow> db i = Some (st, lang) \<longrightarrow> cd_status d = st)"

lemma write_through:
  assumes "ok c" and "i \<noteq> 0" and "in_sync c db" and "db' = select_status (effect p) i db"
  shows "\<exists>c'. change p db' now c i = Some c' \<and> ok c' \<and> in_sync c' db'"
proof -
  obtain c' where c': "change p db' now c i = Some c'" "ok c'"
    "\<forall>j. j \<noteq> 0 \<longrightarrow> look c' j =
           (if j = i then map_option (with_status (effect p) now)
                            (case look c i of Some d \<Rightarrow> Some d | None \<Rightarrow> map_option (fresh_data now) (db' i))
            else look c j)"
    using change_ok [OF assms(1,2)] by metis
  have "in_sync c' db'"
    unfolding in_sync_def
  proof (intro allI impI)
    fix j d st lang
    assume j: "j \<noteq> 0" and l: "look c' j = Some d" and r: "db' j = Some (st, lang)"
    show "cd_status d = st"
    proof (cases "j = i")
      case True
      then obtain st0 where st0: "db i = Some (st0, lang)" "st = effect p st0"
        using r assms(4) by (auto simp: select_status_def)
      show ?thesis
      proof (cases "look c i")
        case None
        then show ?thesis
          using l c'(3) j True r st0 effect_idem by (auto simp: with_status_def fresh_data_def)
      next
        case (Some d0)
        then have "cd_status d0 = st0" using assms(3) st0(1) assms(2) unfolding in_sync_def by blast
        then show ?thesis
          using l c'(3) j True Some st0 by (auto simp: with_status_def)
      qed
    next
      case False
      then have "look c j = Some d" "db j = Some (st, lang)"
        using l r c'(3) j assms(4) by (simp_all add: select_status_def)
      then show ?thesis using assms(3) j unfolding in_sync_def by blast
    qed
  qed
  with c' show ?thesis by blast
qed

end

datatype status_op = SetStatus status | AddStatus status | RemoveStatus status

fun status_effect :: "status_op \<Rightarrow> status \<Rightarrow> status" where
  "status_effect (SetStatus s) st = s"
| "status_effect (AddStatus s) st = st OR s"
| "status_effect (RemoveStatus s) st = st AND NOT s"

fun nickcache_status :: "status_op \<Rightarrow> nick_select \<Rightarrow> int \<Rightarrow> ncache \<Rightarrow> nat \<Rightarrow> ncache option" where
  "nickcache_status (SetStatus s) = nickcache_set_status s"
| "nickcache_status (AddStatus s) = nickcache_add_status s"
| "nickcache_status (RemoveStatus s) = nickcache_remove_status s"

lemma nickcache_status_change:
  "\<exists>f. nickcache_status p db now c i = nc_change f db now c i \<and> data_only f \<and>
       (\<forall>n. data_of (f n) = with_status (status_effect p) now (data_of n))"
proof (cases p)
  case (SetStatus s)
  then show ?thesis
    by (intro exI [of _ "\<lambda>n. n\<lparr>nc_status := s, nc_stime := now\<rparr>"])
      (simp add: nickcache_set_status_def data_only_def data_of_def with_status_def)
next
  case (AddStatus s)
  then show ?thesis
    by (intro exI [of _ "\<lambda>n. n\<lparr>nc_status := nc_status n OR s, nc_stime := now\<rparr>"])
      (simp add: nickcache_add_status_def data_only_def data_of_def with_status_def)
next
  case (RemoveStatus s)
  then show ?thesis
    by (intro exI [of _ "\<lambda>n. n\<lparr>nc_status := nc_status n AND NOT s, nc_stime := now\<rparr>"])
      (simp add: nickcache_remove_status_def data_only_def data_of_def with_status_def)
qed

lemma nickcache_status_ok:
  assumes "cache_ok c" and "i \<noteq> 0"
  shows "\<exists>c'. nickcache_status p db now c i = Some c' \<and> cache_ok c' \<and>
    (\<forall>j. j \<noteq> 0 \<longrightarrow> nc_look c' j =
       (if j = i then map_option (with_status (status_effect p) now) (view db now c i) else nc_look c j))"
proof -
  obtain ch where ch: "cache_rep c ch" using assms(1) by (auto simp: cache_ok_def)
  obtain f where f: "nickcache_status p db now c i = nc_change f db now c i" "data_only f"
    "\<And>n. data_of (f n) = with_status (status_effect p) now (data_of n)"
    using nickcache_status_change by metis
  show ?thesis
    using nc_change_ok [OF ch assms(2) f(2,3), of db now] unfolding f(1) cache_ok_def by blast
qed

interpretation nc: status_cache cache_ok nc_look nickcache_status status_effect
proof
  fix c :: ncache and i :: nat and p and db :: nick_select and now :: int
  assume "cache_ok c" "i \<noteq> 0"
  then show "\<exists>c'. nickcache_status p db now c i = Some c' \<and> cache_ok c' \<and>
        (\<forall>j. j \<noteq> 0 \<longrightarrow> nc_look c' j =
           (if j = i then map_option (with_status (status_effect p) now)
                (case nc_look c i of Some d \<Rightarrow> Some d | None \<Rightarrow> map_option (fresh_data now) (db i))
            else nc_look c j))"
    using nickcache_status_ok unfolding view_def by blast
next
  fix p st show "status_effect p (status_effect p st) = status_effect p st"
    by (cases p) (simp_all add: or.assoc and.assoc)
qed

lemma init_chain: "b < 151 \<Longrightarrow> chain_ok (nc_heap nickcache_init) b b []"
  by (simp add: chain_ok_def nickcache_init_def idof_def)

lemma init_rep: "cache_rep nickcache_init (\<lambda>_. [])"
proof -
  have "nc_heads nickcache_init = (\<lambda>i. i)" "nc_brk nickcache_init = 151"
    "\<And>a. nc_heap nickcache_init a \<noteq> None \<longleftrightarrow> a < 151"
    by (simp_all add: nickcache_init_def)
  then show ?thesis using init_chain by (simp add: cache_rep_def)
qed

lemma init_ok: "cache_ok nickcache_init"
  using init_rep unfolding cache_ok_def by blast

lemma init_look: "i \<noteq> 0 \<Longrightarrow> nc_look nickcache_init i = None"
  using nickcache_find_ok [OF init_rep] by (simp add: nc_look_def)


text \<open>
  C30: the hash table of cached nicknames refines a map: from a well-formed table, set, add and
  remove change exactly the entry of the given nickname, filling it from the database first if it
  is missing, keep the table well-formed, never read freed memory and always return.
\<close>

theorem nickcache_refines_map:
  assumes "cache_ok c" and "i \<noteq> 0"
  shows "\<exists>c'. nickcache_status p db now c i = Some c' \<and> cache_ok c' \<and>
    (\<forall>j. j \<noteq> 0 \<longrightarrow> nc_look c' j =
       (if j = i then map_option (with_status (status_effect p) now) (view db now c i) else nc_look c j))"
  using nickcache_status_ok [OF assms] .

theorem nickcache_refines_map_witness:
  "\<exists>c'. nickcache_add_status 0x8000 (\<lambda>i. Some (2, 1)) 50 nickcache_init 7 = Some c' \<and>
        map_option cd_status (nc_look c' 7) = Some 0x8002"
  using nickcache_refines_map [OF init_ok, of 7 "AddStatus 0x8000" "\<lambda>i. Some (2, 1)" 50]
  by (auto simp: view_def init_look with_status_def fresh_data_def)

definition current :: "int \<Rightarrow> status \<times> nat \<Rightarrow> nc_data option \<Rightarrow> nc_data" where
  "current now r e =
     (case e of Some d \<Rightarrow> if now - cd_stime d < 60 * 60 then d else fresh_data now r | None \<Rightarrow> fresh_data now r)"

lemma nickcache_get_status_ok:
  assumes "cache_ok c" and "i \<noteq> 0" and "db i = Some (st, lang)"
  shows "\<exists>c'. cache_ok c' \<and>
    nickcache_get_status db now c i = Some (cd_status (current now (st, lang) (nc_look c i)), c') \<and>
    (\<forall>j. j \<noteq> 0 \<longrightarrow> nc_look c' j = (if j = i then Some (current now (st, lang) (nc_look c i)) else nc_look c j))"
proof -
  obtain ch where ch: "cache_rep c ch" using assms(1) by (auto simp: cache_ok_def)
  obtain f where f: "nickcache_find c i = Some f" using nickcache_find_total [OF ch assms(2)] by blast
  show ?thesis
  proof (cases f)
    case None
    note nf = f [unfolded None]
    obtain c' ch' a where ins: "nickcache_insert db now c i = Some (Some a, c')" "cache_rep c' ch'"
      "nickcache_find c' i = Some (Some a)"
      "nc_look c' i = Some \<lparr>cd_status = st, cd_stime = now, cd_language = lang mod 65536, cd_ltime = now\<rparr>"
      "\<forall>j. j \<noteq> 0 \<longrightarrow> j \<noteq> i \<longrightarrow> nc_look c' j = nc_look c j"
      by (rule nickcache_insert_ok [where db = db and now = now, OF ch assms(2) nf assms(3)]) (rule that)
    obtain n where "nc_heap c' a = Some n" "nc_look c' i = Some (data_of n)"
      using cache_rep_find [OF ins(2) assms(2) ins(3)] by auto
    then show ?thesis
      using ins nf cache_rep_find_None [OF ch assms(2) nf]
      by (auto simp: nickcache_get_status_def cache_ok_def data_of_def current_def fresh_data_def)
  next
    case (Some a)
    note fa = f [unfolded Some]
    obtain n where n: "nc_heap c a = Some n" "nc_look c i = Some (data_of n)"
      using cache_rep_find [OF ch assms(2) fa] by auto
    show ?thesis
    proof (cases "now - nc_stime n \<ge> 60 * 60")
      case True
      obtain b c' ch' where u: "nickcache_update db now c i = Some (Some b, c')" "cache_rep c' ch'"
        "nickcache_find c' i = Some (Some b)"
        "\<forall>j. j \<noteq> 0 \<longrightarrow> nc_look c' j = (if j = i then Some (fresh_data now (st, lang)) else nc_look c j)"
        using nickcache_update_ok [where db = db and now = now, OF ch assms(2,3)] by auto
      obtain m where "nc_heap c' b = Some m" "nc_look c' i = Some (data_of m)"
        using cache_rep_find [OF u(2) assms(2) u(3)] by auto
      then show ?thesis
        using u n fa True assms(2)
        by (auto simp: nickcache_get_status_def cache_ok_def data_of_def fresh_data_def current_def)
    next
      case False
      then show ?thesis
        using n fa ch by (auto simp: nickcache_get_status_def cache_ok_def data_of_def current_def)
    qed
  qed
qed

text \<open>
  Reading the status of a stored nickname always returns, leaves the cache well-formed, and
  gives the cached value if it is less than an hour old and the stored value otherwise.
\<close>

theorem nickcache_get_status_correct:
  assumes "cache_ok c" and "i \<noteq> 0" and "db i = Some (st, lang)"
  shows "\<exists>c'. cache_ok c' \<and> nickcache_get_status db now c i =
    Some (case nc_look c i of
            Some d \<Rightarrow> if now - cd_stime d < 60 * 60 then cd_status d else st
          | None \<Rightarrow> st, c')"
  using nickcache_get_status_ok [where db = db and now = now, OF assms]
  by (auto simp: current_def fresh_data_def split: option.splits)

theorem nickcache_get_status_correct_witness:
  "\<exists>c'. nickcache_get_status (\<lambda>i. Some (0x8002, 1)) 50 nickcache_init 7 = Some (0x8002, c')"
  using nickcache_get_status_correct [OF init_ok, of 7 "\<lambda>i. Some (0x8002, 1)" "0x8002" 1 50]
  by (auto simp: init_look)

section \<open>Deletion\<close>

text \<open>
  \<open>nickcache_del\<close> unlinks the successor of the node it has found and frees the predecessor.  When
  the entry is alone in its chain, that is the sentinel: the next search reads freed memory.
\<close>

theorem nickcache_del_frees_sentinel:
  assumes "cache_rep c ch" and "i \<noteq> 0" and "nickcache_find c i = Some (Some a)"
    and "ch (HASH_id i) = [a]"
  shows "\<exists>c'. nickcache_del c i = Some c' \<and> nickcache_find c' i = None"
proof -
  define sn where "sn = nc_heads c (HASH_id i)"
  have ok: "chain_ok (nc_heap c) sn (HASH_id i) [a]"
    using assms(1,4) by (simp add: cache_rep_def sn_def flip: assms(4))
  obtain n where n: "nc_heap c a = Some n" "nc_id n = i" "nc_next n = sn"
    using ok cache_rep_find [OF assms(1-3)] by (auto simp: chain_ok_def split: option.splits)
  obtain hn where hn: "nc_heap c sn = Some hn" "nc_id hn = 0" "nc_next hn = a"
    using ok by (auto simp: chain_ok_def idof_def split: option.splits)
  have "sn \<noteq> a" using ok by (simp add: chain_ok_def)
  have "nc_del_loop (nc_heap c) i sn sn = Some (Some (sn, a))"
    using n hn assms(2) \<open>sn \<noteq> a\<close>
    by (subst nc_del_loop.simps, subst nc_del_loop.simps) simp
  then have "nickcache_del c i = Some (c\<lparr>nc_heap := ((nc_heap c)(a \<mapsto> n\<lparr>nc_next := nc_next hn\<rparr>))(sn := None)\<rparr>)"
    using assms(2) n hn by (simp add: nickcache_del_def Let_def sn_def [symmetric])
  then show ?thesis using assms(2) by (simp add: nickcache_find_def Let_def sn_def)
qed

end
