(* ===== verification/Timeouts.thy ===== *)
theory Timeouts
  imports Prelude
begin

text \<open>
  The timeout list of src/src/timeout.c: \<open>add_timeout\<close>, \<open>del_timeout\<close> and \<open>check_timeouts\<close>, which
  runs the code of every timeout that is due.  The list is kept in the order of its links; a
  Timeout pointer is the identity of its record, and looking at a record that is no longer in
  the list (a read of freed memory) is None.  The functions stored in the records are the
  parameter \<open>cb\<close>, which may change the list and a state of its own, or crash (None).  The \<open>data\<close>
  field, which add_timeout leaves unset, is set by the caller.
\<close>

record tmo =
  tm_id :: nat
  tm_settime :: int
  tm_timeout :: int
  tm_repeat :: bool
  tm_code :: nat
  tm_data :: nat

section \<open>The operations\<close>

definition add_timeout :: "int \<Rightarrow> nat \<Rightarrow> int \<Rightarrow> nat \<Rightarrow> bool \<Rightarrow> tmo list \<Rightarrow> tmo list" where
  "add_timeout now i delay code rep ts =
     \<lparr>tm_id = i, tm_settime = now, tm_timeout = now + delay, tm_repeat = rep, tm_code = code,
      tm_data = 0\<rparr> # ts"

text \<open>\<open>del_timeout\<close> looks for the record and unlinks it if it is there.\<close>

fun del_timeout :: "nat \<Rightarrow> tmo list \<Rightarrow> tmo list" where
  "del_timeout i [] = []"
| "del_timeout i (t # ts) = (if tm_id t = i then ts else t # del_timeout i ts)"

text \<open>The record at a pointer, and its \<open>next\<close> link.\<close>

fun at_ptr :: "nat \<Rightarrow> tmo list \<Rightarrow> (tmo \<times> nat option) option" where
  "at_ptr i [] = None"
| "at_ptr i (t # ts) =
     (if tm_id t = i then Some (t, case ts of [] \<Rightarrow> None | u # _ \<Rightarrow> Some (tm_id u)) else at_ptr i ts)"

text \<open>
  The loop of \<open>check_timeouts\<close> with the pointer \<open>to\<close>; the last component records the timeouts
  whose code has been run.
\<close>

partial_function (option) check_loop ::
  "(tmo \<Rightarrow> tmo list \<times> 's \<Rightarrow> (tmo list \<times> 's) option) \<Rightarrow> int \<Rightarrow> nat option \<Rightarrow> tmo list \<Rightarrow> 's \<Rightarrow> tmo list \<Rightarrow>
   (tmo list \<times> 's \<times> tmo list) option" where
  "check_loop cb t ptr ts s runs =
     (case ptr of
        None \<Rightarrow> Some (ts, s, runs)
      | Some i \<Rightarrow>
          (case at_ptr i ts of
             None \<Rightarrow> None
           | Some (to, nxt) \<Rightarrow>
               if t < tm_timeout to then check_loop cb t nxt ts s runs
               else
                 (case cb to (ts, s) of
                    None \<Rightarrow> None
                  | Some (ts', s') \<Rightarrow>
                      (case at_ptr i ts' of
                         None \<Rightarrow> None
                       | Some (to', nxt') \<Rightarrow>
                           if tm_repeat to' then check_loop cb t nxt' ts' s' (runs @ [to])
                           else check_loop cb t nxt' (del_timeout i ts') s' (runs @ [to])))))"

definition check_timeouts ::
  "(tmo \<Rightarrow> tmo list \<times> 's \<Rightarrow> (tmo list \<times> 's) option) \<Rightarrow> int \<Rightarrow> tmo list \<Rightarrow> 's \<Rightarrow>
   (tmo list \<times> 's \<times> tmo list) option" where
  "check_timeouts cb now ts s =
     check_loop cb now (case ts of [] \<Rightarrow> None | t # _ \<Rightarrow> Some (tm_id t)) ts s []"

section \<open>Lists of timeouts\<close>

definition ids :: "tmo list \<Rightarrow> nat list" where
  "ids ts = map tm_id ts"

lemma ids_simps [simp]: "ids [] = []" "ids (t # ts) = tm_id t # ids ts" "ids (ts @ us) = ids ts @ ids us"
  by (simp_all add: ids_def)

lemma at_ptr_append:
  "tm_id t \<notin> set (ids ps) \<Longrightarrow>
   at_ptr (tm_id t) (ps @ t # ts) = Some (t, case ts of [] \<Rightarrow> None | u # _ \<Rightarrow> Some (tm_id u))"
  by (induction ps) auto

lemma del_timeout_append: "tm_id t \<notin> set (ids ps) \<Longrightarrow> del_timeout (tm_id t) (ps @ t # ts) = ps @ ts"
  by (induction ps) auto

lemma del_timeout_filter: "distinct (ids ts) \<Longrightarrow> del_timeout i ts = filter (\<lambda>t. tm_id t \<noteq> i) ts"
  by (induction ts) (auto simp: ids_def rev_image_eqI intro!: filter_True [symmetric])

lemma check_loop_None [simp]: "check_loop cb t None ts s runs = Some (ts, s, runs)"
  by (simp add: check_loop.simps)

definition first_id :: "tmo list \<Rightarrow> nat option" where
  "first_id ts = (case ts of [] \<Rightarrow> None | t # _ \<Rightarrow> Some (tm_id t))"

section \<open>The contract of the timeout code\<close>

text \<open>
  What \<open>check_timeouts\<close> relies on: the code of a timeout may add new timeouts, which go to the
  front of the list, leaves the others in place, and re-establishes the invariant of the
  state, with its own record taken out of the list unless it repeats.
\<close>

locale timeout_code =
  fixes cb :: "tmo \<Rightarrow> tmo list \<times> 's \<Rightarrow> (tmo list \<times> 's) option"
    and inv :: "tmo list \<times> 's \<Rightarrow> bool"
  assumes distinct: "inv (ts, s) \<Longrightarrow> distinct (ids ts)"
    and only_adds: "inv (ts, s) \<Longrightarrow> to \<in> set ts \<Longrightarrow>
      \<exists>new s'. cb to (ts, s) = Some (new @ ts, s') \<and> distinct (ids (new @ ts)) \<and>
        inv (if tm_repeat to then new @ ts else del_timeout (tm_id to) (new @ ts), s')"
begin

text \<open>
  The walk at a suffix of the original list: what lies in front of the pointer is never looked
  at again.
\<close>

lemma check_loop_suffix:
  assumes "inv (ps @ ts, s)"
  shows "\<exists>new s'. check_loop cb t (first_id ts) (ps @ ts) s runs =
      Some (new @ ps @ filter (\<lambda>u. t < tm_timeout u \<or> tm_repeat u) ts, s',
            runs @ filter (\<lambda>u. \<not> t < tm_timeout u) ts) \<and>
      inv (new @ ps @ filter (\<lambda>u. t < tm_timeout u \<or> tm_repeat u) ts, s')"
  using assms
proof (induction ts arbitrary: ps s runs)
  case Nil
  then show ?case by (auto simp: first_id_def intro!: exI [of _ "[]"])
next
  case (Cons u ts)
  have u: "tm_id u \<notin> set (ids ps)" using distinct [OF Cons.prems] by auto
  have at: "at_ptr (tm_id u) (ps @ u # ts) = Some (u, first_id ts)"
    using at_ptr_append [OF u] by (simp add: first_id_def)
  show ?case
  proof (cases "t < tm_timeout u")
    case True
    have "check_loop cb t (first_id (u # ts)) (ps @ u # ts) s runs =
        check_loop cb t (first_id ts) ((ps @ [u]) @ ts) s runs"
      using at True by (subst check_loop.simps) (simp add: first_id_def)
    with Cons.IH [of "ps @ [u]" s runs] Cons.prems True show ?thesis by auto
  next
    case False
    obtain new s' where cb: "cb u (ps @ u # ts, s) = Some (new @ ps @ u # ts, s')"
      and d: "distinct (ids (new @ ps @ u # ts))"
      and i: "inv (if tm_repeat u then new @ ps @ u # ts else del_timeout (tm_id u) (new @ ps @ u # ts), s')"
      using only_adds [OF Cons.prems, of u] by auto
    from d have u': "tm_id u \<notin> set (ids (new @ ps))" by auto
    have at': "at_ptr (tm_id u) (new @ ps @ u # ts) = Some (u, first_id ts)"
      using at_ptr_append [OF u', of ts] by (simp add: first_id_def)
    have del: "del_timeout (tm_id u) (new @ ps @ u # ts) = (new @ ps) @ ts"
      using del_timeout_append [OF u', of ts] by simp
    have step: "check_loop cb t (first_id (u # ts)) (ps @ u # ts) s runs =
        check_loop cb t (first_id ts)
          (if tm_repeat u then (new @ ps @ [u]) @ ts else (new @ ps) @ ts) s' (runs @ [u])"
      using at at' cb False del
      by (subst check_loop.simps) (simp add: first_id_def)
    show ?thesis
    proof (cases "tm_repeat u")
      case True
      have "inv ((new @ ps @ [u]) @ ts, s')" using i True by simp
      from Cons.IH [OF this, of "runs @ [u]"] obtain new2 s2 where
        "check_loop cb t (first_id ts) ((new @ ps @ [u]) @ ts) s' (runs @ [u]) =
          Some (new2 @ (new @ ps @ [u]) @ filter (\<lambda>u. t < tm_timeout u \<or> tm_repeat u) ts, s2,
            (runs @ [u]) @ filter (\<lambda>u. \<not> t < tm_timeout u) ts)"
        "inv (new2 @ (new @ ps @ [u]) @ filter (\<lambda>u. t < tm_timeout u \<or> tm_repeat u) ts, s2)" by blast
      then show ?thesis
        using True False unfolding step by (intro exI [of _ "new2 @ new"] exI [of _ s2]) simp
    next
      case False': False
      have "inv ((new @ ps) @ ts, s')" using i False' del by simp
      from Cons.IH [OF this, of "runs @ [u]"] obtain new2 s2 where
        "check_loop cb t (first_id ts) ((new @ ps) @ ts) s' (runs @ [u]) =
          Some (new2 @ (new @ ps) @ filter (\<lambda>u. t < tm_timeout u \<or> tm_repeat u) ts, s2,
            (runs @ [u]) @ filter (\<lambda>u. \<not> t < tm_timeout u) ts)"
        "inv (new2 @ (new @ ps) @ filter (\<lambda>u. t < tm_timeout u \<or> tm_repeat u) ts, s2)" by blast
      then show ?thesis
        using False' False unfolding step by (intro exI [of _ "new2 @ new"] exI [of _ s2]) simp
    qed
  qed
qed

lemma check_timeouts_ok:
  assumes "inv (ts, s)"
  shows "\<exists>new s'. check_timeouts cb now ts s =
      Some (new @ filter (\<lambda>u. now < tm_timeout u \<or> tm_repeat u) ts, s',
            filter (\<lambda>u. \<not> now < tm_timeout u) ts) \<and>
      inv (new @ filter (\<lambda>u. now < tm_timeout u \<or> tm_repeat u) ts, s')"
  using check_loop_suffix [of "[]" ts s now "[]"] assms
  by (auto simp: check_timeouts_def first_id_def)

end

end
