(* ===== verification/NsTimers.thy ===== *)
theory NsTimers
  imports Timeouts
begin

text \<open>
  The private list of collide and release timers in src/src/nickserv.c: \<open>struct my_timeout\<close>,
  \<open>add_ns_timeout\<close>, \<open>rem_ns_timeout\<close> and \<open>del_ns_timeout\<close>.  The list is doubly linked, and
  \<open>add_ns_timeout\<close> never sets the \<open>prev\<close> link of the entry that follows the new one; the records
  are kept in a store, so that the links are what the code makes of them.  None is the use of a
  freed record.
\<close>

datatype to_type = TO_COLLIDE | TO_RELEASE

record my_timeout =
  mt_next :: "nat option"
  mt_prev :: "nat option"
  mt_nick_id :: nat
  mt_to :: nat
  mt_type :: to_type

record mstore =
  ms_heap :: "nat \<Rightarrow> my_timeout option"
  ms_head :: "nat option"
  ms_brk :: nat

section \<open>The operations\<close>

text \<open>Writing a field of the record at a pointer.\<close>

definition ms_put :: "nat \<Rightarrow> (my_timeout \<Rightarrow> my_timeout) \<Rightarrow> mstore \<Rightarrow> mstore option" where
  "ms_put a f ms =
     (case ms_heap ms a of None \<Rightarrow> None | Some t \<Rightarrow> Some (ms\<lparr>ms_heap := (ms_heap ms)(a := Some (f t))\<rparr>))"

text \<open>The unlinking and freeing of the entry \<open>t\<close> at \<open>a\<close>, the same in both loops.\<close>

definition mt_unlink :: "nat \<Rightarrow> my_timeout \<Rightarrow> mstore \<Rightarrow> mstore option" where
  "mt_unlink a t ms =
     Option.bind (case mt_next t of None \<Rightarrow> Some ms | Some n \<Rightarrow> ms_put n (\<lambda>r. r\<lparr>mt_prev := mt_prev t\<rparr>) ms) (\<lambda>ms.
     Option.bind (case mt_prev t of None \<Rightarrow> Some (ms\<lparr>ms_head := mt_next t\<rparr>)
                  | Some p \<Rightarrow> ms_put p (\<lambda>r. r\<lparr>mt_next := mt_next t\<rparr>) ms) (\<lambda>ms.
     Some (ms\<lparr>ms_heap := (ms_heap ms)(a := None)\<rparr>)))"

definition mt_is :: "nat \<Rightarrow> to_type \<Rightarrow> my_timeout \<Rightarrow> bool" where
  "mt_is i ty t \<longleftrightarrow> mt_nick_id t = i \<and> mt_type t = ty"

partial_function (option) rem_loop :: "nat \<Rightarrow> to_type \<Rightarrow> nat option \<Rightarrow> mstore \<Rightarrow> mstore option" where
  "rem_loop i ty ptr ms =
     (case ptr of
        None \<Rightarrow> Some ms
      | Some a \<Rightarrow>
          (case ms_heap ms a of
             None \<Rightarrow> None
           | Some t \<Rightarrow>
               if mt_is i ty t
               then (case mt_unlink a t ms of None \<Rightarrow> None | Some ms \<Rightarrow> rem_loop i ty (mt_next t) ms)
               else rem_loop i ty (mt_next t) ms))"

definition rem_ns_timeout :: "nat \<Rightarrow> to_type \<Rightarrow> mstore \<Rightarrow> mstore option" where
  "rem_ns_timeout i ty ms = rem_loop i ty (ms_head ms) ms"

text \<open>\<open>del_ns_timeout\<close> reads the timer for its data and deletes it, before it frees the entry.\<close>

partial_function (option) del_loop ::
  "nat \<Rightarrow> to_type \<Rightarrow> nat option \<Rightarrow> mstore \<Rightarrow> tmo list \<Rightarrow> (mstore \<times> tmo list) option" where
  "del_loop i ty ptr ms ts =
     (case ptr of
        None \<Rightarrow> Some (ms, ts)
      | Some a \<Rightarrow>
          (case ms_heap ms a of
             None \<Rightarrow> None
           | Some t \<Rightarrow>
               if mt_is i ty t
               then (case at_ptr (mt_to t) ts of
                       None \<Rightarrow> None
                     | Some to \<Rightarrow>
                         (case mt_unlink a t ms of
                            None \<Rightarrow> None
                          | Some ms \<Rightarrow> del_loop i ty (mt_next t) ms (del_timeout (mt_to t) ts)))
               else del_loop i ty (mt_next t) ms ts))"

definition del_ns_timeout :: "nat \<Rightarrow> to_type \<Rightarrow> mstore \<Rightarrow> tmo list \<Rightarrow> (mstore \<times> tmo list) option" where
  "del_ns_timeout i ty ms ts = del_loop i ty (ms_head ms) ms ts"

text \<open>The codes of the timers: 0 is \<open>timeout_collide\<close>, 1 is \<open>timeout_release\<close>.\<close>

definition to_code :: "to_type \<Rightarrow> nat" where
  "to_code ty = (case ty of TO_COLLIDE \<Rightarrow> 0 | TO_RELEASE \<Rightarrow> 1)"

text \<open>
  \<open>add_ns_timeout\<close>: \<open>new\<close> is the address of the new Timeout.  The data of the timer is set in the
  record that add_timeout has put at the head.
\<close>

definition set_data :: "nat \<Rightarrow> tmo list \<Rightarrow> tmo list" where
  "set_data i ts = (case ts of [] \<Rightarrow> [] | t # ts \<Rightarrow> t\<lparr>tm_data := i\<rparr> # ts)"

definition add_ns_timeout ::
  "int \<Rightarrow> nat \<Rightarrow> nat \<Rightarrow> to_type \<Rightarrow> int \<Rightarrow> mstore \<Rightarrow> tmo list \<Rightarrow> mstore \<times> tmo list" where
  "add_ns_timeout now new i ty delay ms ts =
     (let ts = set_data i (add_timeout now new delay (to_code ty) False ts);
          t = \<lparr>mt_next = ms_head ms, mt_prev = None, mt_nick_id = i, mt_to = new, mt_type = ty\<rparr>
      in (ms\<lparr>ms_heap := (ms_heap ms)(ms_brk ms := Some t), ms_head := Some (ms_brk ms),
             ms_brk := Suc (ms_brk ms)\<rparr>, ts))"

definition ms_empty :: mstore where
  "ms_empty = \<lparr>ms_heap = (\<lambda>_. None), ms_head = None, ms_brk = 0\<rparr>"

section \<open>The list the links make\<close>

text \<open>
  The entries from a pointer on.  Since no entry is ever given a \<open>prev\<close> link, taking one out makes
  the entry behind it the head of the list.
\<close>

fun entries :: "(nat \<Rightarrow> my_timeout option) \<Rightarrow> nat option \<Rightarrow> nat list \<Rightarrow> bool" where
  "entries h ptr [] \<longleftrightarrow> ptr = None"
| "entries h ptr (a # as) \<longleftrightarrow>
     ptr = Some a \<and> (\<exists>t. h a = Some t \<and> mt_prev t = None \<and> entries h (mt_next t) as)"

definition entry :: "mstore \<Rightarrow> nat \<Rightarrow> my_timeout" where
  "entry ms a = the (ms_heap ms a)"

definition mine_rep :: "mstore \<Rightarrow> nat list \<Rightarrow> bool" where
  "mine_rep ms as \<longleftrightarrow> entries (ms_heap ms) (ms_head ms) as \<and> distinct as \<and> (\<forall>a\<in>set as. a < ms_brk ms)"

text \<open>What is left of a list once the head has moved behind the last entry taken out.\<close>

fun after_last :: "('a \<Rightarrow> bool) \<Rightarrow> 'a list \<Rightarrow> 'a list" where
  "after_last P [] = []"
| "after_last P (x # xs) =
     (if \<exists>y\<in>set xs. P y then after_last P xs else if P x then xs else x # xs)"

lemma after_last_none: "(\<forall>y\<in>set xs. \<not> P y) \<Longrightarrow> after_last P xs = xs"
  by (cases xs) auto

lemma after_last_free: "y \<in> set (after_last P xs) \<Longrightarrow> y \<in> set xs \<and> \<not> P y"
  by (induction P xs rule: after_last.induct) (auto split: if_splits)

lemma after_last_suffix: "\<exists>us. xs = us @ after_last P xs \<and> (us = [] \<or> P (last us))"
proof (induction P xs rule: after_last.induct)
  case (2 P x xs)
  show ?case
  proof (cases "\<exists>y\<in>set xs. P y")
    case True
    with 2 obtain us where us: "xs = us @ after_last P xs" "us = [] \<or> P (last us)" by auto
    have "us \<noteq> []" using us(1) True after_last_free [of _ P xs] by auto
    then have "P (last (x # us))" using us(2) by simp
    moreover have "x # xs = (x # us) @ after_last P (x # xs)" using us(1) True by auto
    ultimately show ?thesis by blast
  next
    case False
    then show ?thesis by (cases "P x") (auto intro: exI [of _ "[x]"])
  qed
qed simp

lemma after_last_map: "after_last P (map f xs) = map f (after_last (\<lambda>x. P (f x)) xs)"
  by (induction xs) auto

lemma after_last_cong: "(\<And>x. x \<in> set xs \<Longrightarrow> P x = Q x) \<Longrightarrow> after_last P xs = after_last Q xs"
  by (induction xs) auto

definition first_of :: "nat list \<Rightarrow> nat option" where
  "first_of as = (case as of [] \<Rightarrow> None | a # _ \<Rightarrow> Some a)"

lemma entries_first: "entries h ptr as \<Longrightarrow> ptr = first_of as"
  by (cases as) (auto simp: first_of_def)

lemma entries_frame: "entries h ptr as \<Longrightarrow> (\<And>a. a \<in> set as \<Longrightarrow> h' a = h a) \<Longrightarrow> entries h' ptr as"
  by (induction as arbitrary: ptr) auto

lemma entries_suffix: "entries h ptr (us @ as) \<Longrightarrow> entries h (first_of as) as"
proof (induction us arbitrary: ptr)
  case Nil
  then show ?case using entries_first [of h ptr as] by auto
qed auto

lemma mt_unlink_entry:
  assumes "ms_heap ms a = Some t" and "mt_prev t = None" and "entries (ms_heap ms) (mt_next t) as" and "a \<notin> set as"
  shows "mt_unlink a t ms = Some (ms\<lparr>ms_head := mt_next t, ms_heap := (ms_heap ms)(a := None)\<rparr>)"
proof (cases as)
  case Nil
  then show ?thesis using assms by (simp add: mt_unlink_def)
next
  case (Cons b bs)
  then obtain r where r: "mt_next t = Some b" "ms_heap ms b = Some r" "mt_prev r = None"
    using assms(3) by auto
  then have "r\<lparr>mt_prev := None\<rparr> = r" by simp
  then have "(ms_heap ms)(b := Some (r\<lparr>mt_prev := None\<rparr>)) = ms_heap ms" using r(2) by auto
  then show ?thesis using assms(1,2) r by (simp add: mt_unlink_def ms_put_def)
qed

definition without :: "(nat \<Rightarrow> bool) \<Rightarrow> nat list \<Rightarrow> mstore \<Rightarrow> mstore" where
  "without P as ms =
     ms\<lparr>ms_heap := (\<lambda>a. if a \<in> set as \<and> P a then None else ms_heap ms a),
        ms_head := (if \<exists>a\<in>set as. P a then first_of (after_last P as) else ms_head ms)\<rparr>"

lemma without_cong: "(\<And>a. a \<in> set as \<Longrightarrow> P a = Q a) \<Longrightarrow> without P as ms = without Q as ms"
  by (rule mstore.equality) (use after_last_cong [of as P Q] in \<open>auto simp: without_def fun_eq_iff\<close>)

text \<open>Taking out the entry at the front, and passing over it.\<close>

lemma without_match:
  assumes "P a" and "a \<notin> set as" and "ptr = first_of as"
  shows "without P as (ms\<lparr>ms_head := ptr, ms_heap := (ms_heap ms)(a := None)\<rparr>) = without P (a # as) ms"
  by (rule mstore.equality) (use assms in \<open>auto simp: without_def fun_eq_iff\<close>)

lemma without_pass: "\<not> P a \<Longrightarrow> without P as ms = without P (a # as) ms"
  by (rule mstore.equality) (auto simp: without_def fun_eq_iff)

lemma rem_loop_ok:
  assumes "entries (ms_heap ms) ptr as" and "distinct as"
  shows "rem_loop i ty ptr ms = Some (without (\<lambda>a. mt_is i ty (entry ms a)) as ms)"
  using assms
proof (induction as arbitrary: ptr ms)
  case Nil
  then show ?case by (subst rem_loop.simps) (simp add: without_def)
next
  case (Cons a as)
  then obtain t where t: "ptr = Some a" "ms_heap ms a = Some t" "mt_prev t = None"
    "entries (ms_heap ms) (mt_next t) as" by auto
  have a: "a \<notin> set as" "distinct as" using Cons.prems(2) by auto
  have e: "entry ms a = t" using t(2) by (simp add: entry_def)
  show ?case
  proof (cases "mt_is i ty t")
    case True
    define ms1 where "ms1 = ms\<lparr>ms_head := mt_next t, ms_heap := (ms_heap ms)(a := None)\<rparr>"
    have "entries (ms_heap ms1) (mt_next t) as"
      by (rule entries_frame [OF t(4)]) (use a(1) in \<open>auto simp: ms1_def\<close>)
    note Cons.IH [OF this a(2)]
    also have "without (\<lambda>a. mt_is i ty (entry ms1 a)) as ms1 = without (\<lambda>a. mt_is i ty (entry ms a)) as ms1"
      by (rule without_cong) (use a(1) in \<open>auto simp: ms1_def entry_def\<close>)
    also have "\<dots> = without (\<lambda>a. mt_is i ty (entry ms a)) (a # as) ms"
      unfolding ms1_def by (rule without_match) (use True e a(1) entries_first [OF t(4)] in auto)
    finally show ?thesis
      using t(1,2) True mt_unlink_entry [OF t(2-4) a(1)]
      by (subst rem_loop.simps) (simp add: ms1_def)
  next
    case False
    then show ?thesis
      using t(1,2) Cons.IH [OF t(4) a(2)] e without_pass [of "\<lambda>a. mt_is i ty (entry ms a)" a as ms]
      by (subst rem_loop.simps) simp
  qed
qed

lemma without_rep:
  assumes "mine_rep ms as"
  shows "mine_rep (without P as ms) (after_last P as) \<and>
    (\<forall>a\<in>set (after_last P as). entry (without P as ms) a = entry ms a)"
proof -
  define bs where "bs = after_last P as"
  obtain us where us: "as = us @ bs" using after_last_suffix unfolding bs_def by blast
  have e: "entries (ms_heap ms) (ms_head ms) as" "distinct as" "\<forall>a\<in>set as. a < ms_brk ms"
    using assms by (auto simp: mine_rep_def)
  have same: "ms_heap (without P as ms) a = ms_heap ms a" if "a \<in> set bs" for a
    using after_last_free [of a P as] that by (simp add: without_def bs_def)
  have "entries (ms_heap ms) (first_of bs) bs"
    using e(1) unfolding us by (rule entries_suffix)
  moreover have "ms_head (without P as ms) = first_of bs"
    using entries_first [OF e(1)] after_last_none [of as P] by (auto simp: without_def bs_def)
  ultimately have "entries (ms_heap (without P as ms)) (ms_head (without P as ms)) bs"
    using same by (auto intro: entries_frame)
  moreover have "distinct bs" "\<forall>a\<in>set bs. a < ms_brk ms" using e(2,3) unfolding us by auto
  moreover have "ms_brk (without P as ms) = ms_brk ms" by (simp add: without_def)
  ultimately show ?thesis
    unfolding bs_def [symmetric] using same by (simp add: mine_rep_def entry_def)
qed

section \<open>What the operations do\<close>

definition recorded :: "(nat \<Rightarrow> bool) \<Rightarrow> nat list \<Rightarrow> mstore \<Rightarrow> nat set" where
  "recorded P as ms = (\<lambda>a. mt_to (entry ms a)) ` {a \<in> set as. P a}"

text \<open>Every entry of the list stands for a timer of its own, with the data and the code it needs.\<close>

definition timers_ok :: "mstore \<Rightarrow> nat list \<Rightarrow> tmo list \<Rightarrow> bool" where
  "timers_ok ms as ts \<longleftrightarrow>
     distinct (ids ts) \<and> distinct (map (\<lambda>a. mt_to (entry ms a)) as) \<and>
     (\<forall>a\<in>set as. \<exists>t\<in>set ts. tm_id t = mt_to (entry ms a) \<and> tm_data t = mt_nick_id (entry ms a) \<and>
        tm_code t = to_code (mt_type (entry ms a)))"

lemma at_ptr_there: "t \<in> set ts \<Longrightarrow> at_ptr (tm_id t) ts \<noteq> None"
  by (induction ts) auto

lemma del_loop_ok:
  assumes "entries (ms_heap ms) ptr as" and "distinct as" and "timers_ok ms as ts"
  shows "del_loop i ty ptr ms ts =
    Some (without (\<lambda>a. mt_is i ty (entry ms a)) as ms,
          filter (\<lambda>t. tm_id t \<notin> recorded (\<lambda>a. mt_is i ty (entry ms a)) as ms) ts)"
  using assms
proof (induction as arbitrary: ptr ms ts)
  case Nil
  then show ?case by (subst del_loop.simps) (simp add: without_def recorded_def)
next
  case (Cons a as)
  then obtain t where t: "ptr = Some a" "ms_heap ms a = Some t" "mt_prev t = None"
    "entries (ms_heap ms) (mt_next t) as" by auto
  have a: "a \<notin> set as" "distinct as" using Cons.prems(2) by auto
  have e: "entry ms a = t" using t(2) by (simp add: entry_def)
  have d: "distinct (ids ts)" and m: "mt_to t \<notin> (\<lambda>a. mt_to (entry ms a)) ` set as"
    using Cons.prems(3) e by (auto simp: timers_ok_def)
  have tail: "timers_ok ms as ts" using Cons.prems(3) by (simp add: timers_ok_def)
  show ?case
  proof (cases "mt_is i ty t")
    case True
    define ms1 where "ms1 = ms\<lparr>ms_head := mt_next t, ms_heap := (ms_heap ms)(a := None)\<rparr>"
    have same: "entry ms1 b = entry ms b" if "b \<in> set as" for b
      using that a(1) by (auto simp: ms1_def entry_def)
    have e1: "entries (ms_heap ms1) (mt_next t) as"
      by (rule entries_frame [OF t(4)]) (use a(1) in \<open>auto simp: ms1_def\<close>)
    have del: "del_timeout (mt_to t) ts = filter (\<lambda>u. tm_id u \<noteq> mt_to t) ts"
      by (rule del_timeout_filter [OF d])
    have "distinct (ids (filter (\<lambda>u. tm_id u \<noteq> mt_to t) ts))"
      using d by (simp add: ids_def distinct_map_filter)
    then have "timers_ok ms1 as (filter (\<lambda>u. tm_id u \<noteq> mt_to t) ts)"
      using tail m same by (fastforce simp: timers_ok_def cong: map_cong)
    note ih = Cons.IH [OF e1 a(2) this]
    have "without (\<lambda>a. mt_is i ty (entry ms1 a)) as ms1 = without (\<lambda>a. mt_is i ty (entry ms a)) as ms1"
      by (rule without_cong) (use same in auto)
    also have "\<dots> = without (\<lambda>a. mt_is i ty (entry ms a)) (a # as) ms"
      unfolding ms1_def by (rule without_match) (use True e a(1) entries_first [OF t(4)] in auto)
    finally have w: "without (\<lambda>a. mt_is i ty (entry ms1 a)) as ms1 =
      without (\<lambda>a. mt_is i ty (entry ms a)) (a # as) ms" .
    have "recorded (\<lambda>a. mt_is i ty (entry ms1 a)) as ms1 = recorded (\<lambda>a. mt_is i ty (entry ms a)) as ms"
      using same by (force simp: recorded_def)
    then have r: "recorded (\<lambda>a. mt_is i ty (entry ms a)) (a # as) ms =
        insert (mt_to t) (recorded (\<lambda>a. mt_is i ty (entry ms1 a)) as ms1)"
      using True e by (auto simp: recorded_def)
    have "\<exists>to\<in>set ts. tm_id to = mt_to t" using Cons.prems(3) e by (auto simp: timers_ok_def)
    then have "at_ptr (mt_to t) ts \<noteq> None" using at_ptr_there by metis
    then show ?thesis
      using t(1,2) True mt_unlink_entry [OF t(2-4) a(1)] ih w r del
      by (subst del_loop.simps) (auto simp: ms1_def intro!: filter_cong)
  next
    case False
    have "recorded (\<lambda>a. mt_is i ty (entry ms a)) (a # as) ms = recorded (\<lambda>a. mt_is i ty (entry ms a)) as ms"
      using False e by (auto simp: recorded_def)
    then show ?thesis
      using t(1,2) Cons.IH [OF t(4) a(2) tail] e False without_pass [of "\<lambda>a. mt_is i ty (entry ms a)" a as ms]
      by (subst del_loop.simps) simp
  qed
qed

lemma rem_ns_timeout_rep:
  assumes "mine_rep ms as"
  shows "\<exists>ms'. rem_ns_timeout i ty ms = Some ms' \<and>
    mine_rep ms' (after_last (\<lambda>a. mt_is i ty (entry ms a)) as) \<and>
    (\<forall>a\<in>set (after_last (\<lambda>a. mt_is i ty (entry ms a)) as). entry ms' a = entry ms a)"
  using rem_loop_ok [of ms "ms_head ms" as i ty] without_rep [OF assms, of "\<lambda>a. mt_is i ty (entry ms a)"] assms
  by (auto simp: rem_ns_timeout_def mine_rep_def)

lemma timers_ok_suffix:
  assumes "timers_ok ms (us @ as) ts" and "\<And>a. a \<in> set as \<Longrightarrow> entry ms' a = entry ms a"
  shows "timers_ok ms' as ts"
proof -
  have "map (\<lambda>a. mt_to (entry ms' a)) as = map (\<lambda>a. mt_to (entry ms a)) as" using assms(2) by simp
  then have "distinct (map (\<lambda>a. mt_to (entry ms' a)) as)"
    using assms(1) by (simp only: timers_ok_def map_append distinct_append simp_thms)
  then show ?thesis using assms unfolding timers_ok_def by simp
qed

lemma del_ns_timeout_ok:
  assumes "mine_rep ms as" and "timers_ok ms as ts"
  shows "\<exists>ms' ts'. del_ns_timeout i ty ms ts = Some (ms', ts') \<and>
    ts' = filter (\<lambda>t. tm_id t \<notin> recorded (\<lambda>a. mt_is i ty (entry ms a)) as ms) ts \<and>
    mine_rep ms' (after_last (\<lambda>a. mt_is i ty (entry ms a)) as) \<and>
    timers_ok ms' (after_last (\<lambda>a. mt_is i ty (entry ms a)) as) ts' \<and>
    (\<forall>a\<in>set (after_last (\<lambda>a. mt_is i ty (entry ms a)) as). \<not> mt_is i ty (entry ms' a))"
proof -
  define P where "P = (\<lambda>a. mt_is i ty (entry ms a))"
  define bs where "bs = after_last P as"
  obtain us where us: "as = us @ bs" using after_last_suffix unfolding bs_def by blast
  have e: "entries (ms_heap ms) (ms_head ms) as" "distinct as" using assms(1) by (auto simp: mine_rep_def)
  have del: "del_ns_timeout i ty ms ts = Some (without P as ms, filter (\<lambda>t. tm_id t \<notin> recorded P as ms) ts)"
    using del_loop_ok [OF e assms(2)] by (simp add: del_ns_timeout_def P_def)
  have rep: "mine_rep (without P as ms) bs" "\<forall>a\<in>set bs. entry (without P as ms) a = entry ms a"
    using without_rep [OF assms(1), of P] by (auto simp: bs_def)
  have free: "\<not> P a" if "a \<in> set bs" for a
    using after_last_free [of a P as] that by (simp add: bs_def)
  have ok: "timers_ok ms bs ts" using timers_ok_suffix [of ms us bs ts ms] assms(2) us by simp
  have other: "mt_to (entry ms a) \<notin> recorded P as ms" if "a \<in> set bs" for a
  proof
    assume "mt_to (entry ms a) \<in> recorded P as ms"
    then obtain b where b: "b \<in> set as" "P b" "mt_to (entry ms b) = mt_to (entry ms a)"
      by (auto simp: recorded_def)
    moreover have "inj_on (\<lambda>a. mt_to (entry ms a)) (set as)"
      using assms(2) by (simp add: timers_ok_def distinct_map)
    ultimately have "b = a" using that us by (auto dest: inj_onD)
    then show False using b(2) free that by simp
  qed
  have "timers_ok ms bs (filter (\<lambda>t. tm_id t \<notin> recorded P as ms) ts)"
    using ok other unfolding timers_ok_def ids_def by (fastforce simp: distinct_map_filter)
  then have "timers_ok (without P as ms) bs (filter (\<lambda>t. tm_id t \<notin> recorded P as ms) ts)"
    using timers_ok_suffix [of ms "[]" bs] rep(2) by simp
  then show ?thesis
    using del rep free unfolding bs_def P_def by (auto simp: P_def [symmetric] bs_def [symmetric])
qed

text \<open>
  C31: deleting the timers of a nickname never touches freed memory, deletes exactly the timers the
  list records for it, and leaves a well-formed list without an entry for it.
\<close>

theorem del_ns_timeout_correct:
  assumes "mine_rep ms as" and "timers_ok ms as ts"
  shows "\<exists>ms' ts'. del_ns_timeout i ty ms ts = Some (ms', ts') \<and>
    ts' = filter (\<lambda>t. tm_id t \<notin> recorded (\<lambda>a. mt_is i ty (entry ms a)) as ms) ts \<and>
    mine_rep ms' (after_last (\<lambda>a. mt_is i ty (entry ms a)) as) \<and>
    timers_ok ms' (after_last (\<lambda>a. mt_is i ty (entry ms a)) as) ts' \<and>
    (\<forall>a\<in>set (after_last (\<lambda>a. mt_is i ty (entry ms a)) as). \<not> mt_is i ty (entry ms' a))"
  using del_ns_timeout_ok [OF assms] .

lemma ms_empty_rep: "mine_rep ms_empty []"
  by (simp add: mine_rep_def ms_empty_def)

lemma add_ns_timeout_rep:
  assumes "mine_rep ms as" and "timers_ok ms as ts" and "new \<notin> set (ids ts)"
    and "add_ns_timeout now new i ty delay ms ts = (ms', ts')"
  shows "mine_rep ms' (ms_brk ms # as) \<and> timers_ok ms' (ms_brk ms # as) ts' \<and>
    entry ms' (ms_brk ms) =
      \<lparr>mt_next = ms_head ms, mt_prev = None, mt_nick_id = i, mt_to = new, mt_type = ty\<rparr> \<and>
    (\<forall>a\<in>set as. entry ms' a = entry ms a) \<and> tl ts' = ts"
proof -
  define t where "t = \<lparr>mt_next = ms_head ms, mt_prev = None, mt_nick_id = i, mt_to = new, mt_type = ty\<rparr>"
  have ms': "ms' = ms\<lparr>ms_heap := (ms_heap ms)(ms_brk ms := Some t), ms_head := Some (ms_brk ms),
      ms_brk := Suc (ms_brk ms)\<rparr>"
    and ts': "ts' = \<lparr>tm_id = new, tm_settime = now, tm_timeout = now + delay, tm_repeat = False,
      tm_code = to_code ty, tm_data = i\<rparr> # ts"
    using assms(4) by (auto simp: add_ns_timeout_def add_timeout_def set_data_def Let_def t_def)
  have fresh: "ms_brk ms \<notin> set as" using assms(1) by (auto simp: mine_rep_def)
  have "entries (ms_heap ms') (ms_head ms) as"
    by (rule entries_frame [of "ms_heap ms"]) (use assms(1) fresh in \<open>auto simp: mine_rep_def ms'\<close>)
  then have rep: "mine_rep ms' (ms_brk ms # as)"
    using assms(1) fresh by (auto simp: mine_rep_def ms' t_def)
  have same: "entry ms' a = entry ms a" if "a \<in> set as" for a
    using that fresh by (auto simp: entry_def ms')
  have e: "entry ms' (ms_brk ms) = t" by (simp add: entry_def ms')
  have "timers_ok ms' as ts" using timers_ok_suffix [of ms "[]" as ts ms'] assms(2) same by simp
  moreover have "new \<notin> (\<lambda>a. mt_to (entry ms' a)) ` set as"
    using calculation assms(3) by (force simp: timers_ok_def ids_def)
  ultimately have "timers_ok ms' (ms_brk ms # as) ts'"
    using e assms(3) by (simp add: timers_ok_def ts' t_def)
  then show ?thesis using rep same e ts' by (simp add: t_def)
qed

definition sample_timers :: "mstore \<times> tmo list" where
  "sample_timers =
     (let (ms, ts) = add_ns_timeout 100 1 7 TO_COLLIDE 60 ms_empty [] in add_ns_timeout 100 2 8 TO_COLLIDE 20 ms ts)"

theorem del_ns_timeout_correct_witness:
  "\<exists>ms' ts'. del_ns_timeout 8 TO_COLLIDE (fst sample_timers) (snd sample_timers) = Some (ms', ts') \<and>
     ids ts' = [1]"
proof -
  obtain ms1 ts1 where s1: "add_ns_timeout 100 1 7 TO_COLLIDE 60 ms_empty [] = (ms1, ts1)" by fastforce
  obtain ms2 ts2 where s2: "add_ns_timeout 100 2 8 TO_COLLIDE 20 ms1 ts1 = (ms2, ts2)" by fastforce
  have a1: "mine_rep ms1 [0]" "timers_ok ms1 [0] ts1" "ms_brk ms1 = 1" "ids ts1 = [1]"
    using add_ns_timeout_rep [OF ms_empty_rep _ _ s1] s1
    by (auto simp: timers_ok_def ms_empty_def add_ns_timeout_def add_timeout_def set_data_def Let_def)
  have "mine_rep ms2 [1, 0] \<and> timers_ok ms2 [1, 0] ts2"
    using add_ns_timeout_rep [OF a1(1,2) _ s2] a1(3,4) by simp
  moreover have s: "fst sample_timers = ms2" "snd sample_timers = ts2"
    by (simp_all only: sample_timers_def s1 s2 Let_def prod.case fst_conv snd_conv)
  ultimately have "mine_rep (fst sample_timers) [1, 0] \<and> timers_ok (fst sample_timers) [1, 0] (snd sample_timers)"
    unfolding s by blast
  then show ?thesis
    using del_ns_timeout_correct [of "fst sample_timers" "[1, 0]" "snd sample_timers" 8 TO_COLLIDE]
    by (fastforce simp: sample_timers_def add_ns_timeout_def add_timeout_def set_data_def ms_empty_def Let_def
        recorded_def entry_def mt_is_def ids_def)
qed

text \<open>
  The list forgets: after the timer of one nickname has been cancelled, the timers of nicknames
  that were added later can no longer be, and will fire.
\<close>

lemma del_ns_timeout_forgets:
  "case del_ns_timeout 7 TO_COLLIDE (fst sample_timers) (snd sample_timers) of
     None \<Rightarrow> False
   | Some (ms, ts) \<Rightarrow> ms_head ms = None \<and> map tm_data ts = [8] \<and> del_ns_timeout 8 TO_COLLIDE ms ts = Some (ms, ts)"
  by (simp add: sample_timers_def add_ns_timeout_def add_timeout_def set_data_def ms_empty_def Let_def
      del_ns_timeout_def mt_is_def mt_unlink_def ms_put_def del_loop.simps)

end
