(* ===== verification/NickServ.thy ===== *)
theory NickServ
  imports Users Registry NickCache NsTimers "HOL-Library.Monad_Syntax"
begin

text \<open>
  Nickname protection in src/src/nickserv.c: the status of a nickname in the nick table and in the
  cache, the recognition of users, the timers that force a nick change or release a held
  nickname, and the expiry and removal of nicknames.  A result of None is a crash: a null
  pointer, freed memory or a failed assertion.
\<close>

named_theorems ns_simps \<open>the NickServ state\<close>

definition NS_VERBOTEN :: flags where "NS_VERBOTEN = 0x0002"
definition NS_NO_EXPIRE :: flags where "NS_NO_EXPIRE = 0x0004"
definition NS_IDENTIFIED :: flags where "NS_IDENTIFIED = 0x8000"
definition NS_RECOGNIZED :: flags where "NS_RECOGNIZED = 0x4000"
definition NS_ON_ACCESS :: flags where "NS_ON_ACCESS = 0x2000"
definition NS_KILL_HELD :: flags where "NS_KILL_HELD = 0x1000"
definition NS_GUESTED :: flags where "NS_GUESTED = 0x0100"
definition NS_TEMPORARY :: flags where "NS_TEMPORARY = 0xFF00"
definition NI_ENFORCE :: flags where "NI_ENFORCE = 0x00000001"
definition NI_SECURE :: flags where "NI_SECURE = 0x00000002"
definition NI_ENFORCEQUICK :: flags where "NI_ENFORCEQUICK = 0x00000400"
definition NI_IRCOP :: flags where "NI_IRCOP = 0x00001000"
definition NI_SUSPENDED :: flags where "NI_SUSPENDED = 0x10000000"

text \<open>\<open>flags & mask\<close> as a C condition.\<close>

definition has :: "flags \<Rightarrow> flags \<Rightarrow> bool" where
  "has f m \<longleftrightarrow> f AND m \<noteq> 0"

text \<open>The configuration values the component reads.\<close>

record nscfg =
  NSGuestNickPrefix :: cstr
  NSReleaseTimeout :: int
  NSExpire :: int
  NSExtraGrace :: bool
  NSSuspendGrace :: int
  NoSplitRecovery :: bool
  opt_noexpire :: bool

text \<open>
  What the services send: a forced nick change, an enforcer and its departure (without a prefix
  when the nickname is not found any more), notices, the autojoin of an identified user, and the commands
  and notices of ChanServ.
\<close>

datatype ns_msg =
  SvsNick cstr cstr | Enforcer cstr | EnforcerQuit "cstr option" | NickMayNotBeUsed nat
| NickIsSecure nat | NickIsRegistered nat | ForceNickChangeIn nat nat | ForceNickChangeNow nat cstr
| CheckAutojoins nat | ChanMode cstr cstr "cstr list" | ChanIsRegistered nat
| BouncyModes cstr int int | SJoin cstr cstr | TopicBurst cstr int int cstr cstr | Kick cstr cstr cstr
| Inhabit cstr | KillMsg cstr cstr | Kline cstr cstr cstr | Unkline cstr cstr | SvsMode cstr cstr
| CheckMemos nat | CheckChanMemos nat nat
| Cmd cstr "cstr list"
| NoticeText cstr cstr | NoticeLang nat cstr "cstr list" | Wallops cstr "cstr list"

record ns_state =
  ns_db :: sqldb
  ns_cache :: ncache
  ns_users :: userlist
  ns_mine :: mstore
  ns_timers :: "tmo list"
  ns_brk :: nat
  ns_counter :: "32 word"
  ns_out :: "ns_msg list"

definition say :: "ns_msg \<Rightarrow> ns_state \<Rightarrow> ns_state" where
  "say m st = st\<lparr>ns_out := ns_out st @ [m]\<rparr>"

section \<open>The status of a nickname\<close>

definition nick_select :: "sqldb \<Rightarrow> nick_select" where
  "nick_select db = (\<lambda>i. map_option (\<lambda>r. (nr_status r, nr_language r)) (nick.row i (t_nick db)))"

definition upd_nick :: "(nick_row \<Rightarrow> bool) \<Rightarrow> (nick_row \<Rightarrow> nick_row) \<Rightarrow> sqldb \<Rightarrow> sqldb" where
  "upd_nick P f db = db\<lparr>t_nick := sql_update P f (t_nick db)\<rparr>"

definition cache_status :: "status_op \<Rightarrow> int \<Rightarrow> nat \<Rightarrow> ns_state \<Rightarrow> ns_state option" where
  "cache_status p now i st =
     map_option (\<lambda>c. st\<lparr>ns_cache := c\<rparr>) (nickcache_status p (nick_select (ns_db st)) now (ns_cache st) i)"

definition db_status :: "status_op \<Rightarrow> nat \<Rightarrow> ns_state \<Rightarrow> ns_state" where
  "db_status p i st =
     st\<lparr>ns_db := upd_nick (\<lambda>r. nr_id r = i) (\<lambda>r. r\<lparr>nr_status := status_effect p (nr_status r)\<rparr>) (ns_db st)\<rparr>"

definition set_nick_status :: "status \<Rightarrow> int \<Rightarrow> nat \<Rightarrow> ns_state \<Rightarrow> ns_state option" where
  "set_nick_status s now i st = cache_status (SetStatus s) now i (db_status (SetStatus s) i st)"

definition add_nick_status :: "status \<Rightarrow> int \<Rightarrow> nat \<Rightarrow> ns_state \<Rightarrow> ns_state option" where
  "add_nick_status s now i st = cache_status (AddStatus s) now i (db_status (AddStatus s) i st)"

definition remove_nick_status :: "status \<Rightarrow> int \<Rightarrow> nat \<Rightarrow> ns_state \<Rightarrow> ns_state option" where
  "remove_nick_status s now i st = cache_status (RemoveStatus s) now i (db_status (RemoveStatus s) i st)"

definition get_nick_status :: "int \<Rightarrow> nat \<Rightarrow> ns_state \<Rightarrow> (status \<times> ns_state) option" where
  "get_nick_status now i st =
     map_option (\<lambda>(s, c). (s, st\<lparr>ns_cache := c\<rparr>))
       (nickcache_get_status (nick_select (ns_db st)) now (ns_cache st) i)"

definition get_nick_flags :: "nat \<Rightarrow> ns_state \<Rightarrow> flags" where
  "get_nick_flags i st = (case nick.row i (t_nick (ns_db st)) of None \<Rightarrow> 0 | Some r \<Rightarrow> nr_flags r)"

definition add_nick_flags :: "flags \<Rightarrow> nat \<Rightarrow> ns_state \<Rightarrow> ns_state" where
  "add_nick_flags f i st =
     st\<lparr>ns_db := upd_nick (\<lambda>r. nr_id r = i) (\<lambda>r. r\<lparr>nr_flags := nr_flags r OR f\<rparr>) (ns_db st)\<rparr>"

definition remove_nick_flags :: "flags \<Rightarrow> nat \<Rightarrow> ns_state \<Rightarrow> ns_state" where
  "remove_nick_flags f i st =
     st\<lparr>ns_db := upd_nick (\<lambda>r. nr_id r = i) (\<lambda>r. r\<lparr>nr_flags := nr_flags r AND NOT f\<rparr>) (ns_db st)\<rparr>"

definition nick_identified :: "int \<Rightarrow> user \<Rightarrow> ns_state \<Rightarrow> (bool \<times> ns_state) option" where
  "nick_identified now u st =
     (if u_real_id u = 0 then Some (False, st)
      else map_option (\<lambda>(s, st). (has s NS_IDENTIFIED, st)) (get_nick_status now (u_real_id u) st))"

definition nick_recognized :: "int \<Rightarrow> user \<Rightarrow> ns_state \<Rightarrow> (bool \<times> ns_state) option" where
  "nick_recognized now u st =
     (if u_real_id u = 0 then Some (False, st)
      else map_option (\<lambda>(s, st). (has s (NS_IDENTIFIED OR NS_RECOGNIZED), st))
             (get_nick_status now (u_real_id u) st))"

text \<open>Lookups in the nick table; the last row of the result wins, and 0 stands for none.\<close>

definition mysql_findnick :: "sqldb \<Rightarrow> cstr \<Rightarrow> nat" where
  "mysql_findnick db nick =
     (case rev (filter (\<lambda>r. sql_eq (nr_nick r) nick) (t_nick db)) of [] \<Rightarrow> 0 | r # _ \<Rightarrow> nr_id r)"

definition get_nick_from_id :: "sqldb \<Rightarrow> nat \<Rightarrow> cstr option" where
  "get_nick_from_id db i = map_option nr_nick (nick.row i (t_nick db))"

definition mysql_getlink :: "sqldb \<Rightarrow> nat \<Rightarrow> nat" where
  "mysql_getlink db i =
     (case nick.row i (t_nick db) of
        None \<Rightarrow> i
      | Some r \<Rightarrow> if nr_link r \<noteq> 0 then nr_link r else i)"

section \<open>Recognition\<close>

definition usermask :: "user \<Rightarrow> cstr" where
  "usermask u = u_username u @ ''@'' @ u_host u"

definition is_on_access :: "user \<Rightarrow> nat \<Rightarrow> sqldb \<Rightarrow> bool" where
  "is_on_access u i db \<longleftrightarrow>
     (\<exists>(j, userhost)\<in>set (t_nickaccess db).
        j = i \<and> irc_match userhost (u_username u @ ''@'' @ strlower (u_host u)) None)"

definition check_on_access :: "int \<Rightarrow> user \<Rightarrow> ns_state \<Rightarrow> (bool \<times> ns_state) option" where
  "check_on_access now u st =
     (if u_nick_id u = 0 then Some (False, st)
      else if is_on_access u (u_nick_id u) (ns_db st)
      then map_option (Pair True)
             (cache_status (AddStatus NS_ON_ACCESS) now (u_real_id u)
               (db_status (AddStatus NS_ON_ACCESS) (u_real_id u) st))
      else Some (False, st))"

section \<open>Timers\<close>

definition ns_add_timeout :: "int \<Rightarrow> nat \<Rightarrow> to_type \<Rightarrow> int \<Rightarrow> ns_state \<Rightarrow> ns_state" where
  "ns_add_timeout now i ty delay st =
     (case add_ns_timeout now (ns_brk st) i ty delay (ns_mine st) (ns_timers st) of
        (ms, ts) \<Rightarrow> st\<lparr>ns_mine := ms, ns_timers := ts, ns_brk := Suc (ns_brk st)\<rparr>)"

definition ns_rem_timeout :: "nat \<Rightarrow> to_type \<Rightarrow> ns_state \<Rightarrow> ns_state option" where
  "ns_rem_timeout i ty st = map_option (\<lambda>ms. st\<lparr>ns_mine := ms\<rparr>) (rem_ns_timeout i ty (ns_mine st))"

definition ns_del_timeout :: "nat \<Rightarrow> to_type \<Rightarrow> ns_state \<Rightarrow> ns_state option" where
  "ns_del_timeout i ty st =
     map_option (\<lambda>(ms, ts). st\<lparr>ns_mine := ms, ns_timers := ts\<rparr>)
       (del_ns_timeout i ty (ns_mine st) (ns_timers st))"

text \<open>
  \<open>collide\<close>: the notice goes nowhere if no such user is online, but \<open>finduser\<close> does not survive a
  nickname that is gone from the table.
\<close>

definition guest_nick :: "nscfg \<Rightarrow> ns_state \<Rightarrow> cstr" where
  "guest_nick cfg st = take (NICKMAX - 1) (NSGuestNickPrefix cfg @ show_int (sint (ns_counter st)))"

definition collide :: "nscfg \<Rightarrow> int \<Rightarrow> nat \<Rightarrow> bool \<Rightarrow> ns_state \<Rightarrow> ns_state option" where
  "collide cfg now i from_timeout st =
     (case get_nick_from_id (ns_db st) i of
        None \<Rightarrow> None
      | Some nick \<Rightarrow>
          (let u = finduser (ns_users st) nick;
               guest = guest_nick cfg st
           in do {
             st \<leftarrow> (if from_timeout then Some st else ns_del_timeout i TO_COLLIDE st);
             let st = st\<lparr>ns_counter := ns_counter st + 1\<rparr>;
             let st = (case u of None \<Rightarrow> st | Some u \<Rightarrow> say (ForceNickChangeNow (u_uid u) guest) st);
             add_nick_status NS_GUESTED now i (say (SvsNick nick guest) st)
           }))"

definition release :: "int \<Rightarrow> nat \<Rightarrow> bool \<Rightarrow> ns_state \<Rightarrow> ns_state option" where
  "release now i from_timeout st =
     (let nick = get_nick_from_id (ns_db st) i
      in do {
        st \<leftarrow> (if from_timeout then Some st else ns_del_timeout i TO_RELEASE st);
        remove_nick_status NS_KILL_HELD now i (say (EnforcerQuit nick) st)
      })"

definition timeout_collide :: "nscfg \<Rightarrow> int \<Rightarrow> tmo \<Rightarrow> ns_state \<Rightarrow> ns_state option" where
  "timeout_collide cfg now t st =
     (let i = tm_data t;
          nick = get_nick_from_id (ns_db st) i
      in do {
        st \<leftarrow> ns_rem_timeout i TO_COLLIDE st;
        (s, st) \<leftarrow> get_nick_status now i st;
        if has s NS_IDENTIFIED then Some st
        else (case nick of
                None \<Rightarrow> None
              | Some nick \<Rightarrow>
                  (case finduser (ns_users st) nick of
                     None \<Rightarrow> Some st
                   | Some u \<Rightarrow> if u_my_signon u > tm_settime t then Some st
                               else collide cfg now i True st))
      })"

definition timeout_release :: "int \<Rightarrow> tmo \<Rightarrow> ns_state \<Rightarrow> ns_state option" where
  "timeout_release now t st =
     do {
       st \<leftarrow> ns_rem_timeout (tm_data t) TO_RELEASE st;
       release now (tm_data t) True st
     }"

text \<open>The function stored in a timer, and what \<open>check_timeouts\<close> makes of it.\<close>

definition run_timer ::
  "nscfg \<Rightarrow> int \<Rightarrow> tmo \<Rightarrow> tmo list \<times> ns_state \<Rightarrow> (tmo list \<times> ns_state) option" where
  "run_timer cfg now t p =
     map_option (\<lambda>st. (ns_timers st, st))
       ((if tm_code t = 0 then timeout_collide cfg now t else timeout_release now t)
         ((snd p)\<lparr>ns_timers := fst p\<rparr>))"

section \<open>Validation\<close>

text \<open>The UPDATE that accepts a user whose stamp and mask are those of the last identification.\<close>

definition stamp_matches :: "user \<Rightarrow> nick_row \<Rightarrow> bool" where
  "stamp_matches u r \<longleftrightarrow>
     nr_id_stamp r \<noteq> 0 \<and> nr_id_stamp r = u_services_stamp u \<and>
     sql_eq (nr_last_usermask r) (take 255 (usermask u)) \<and> nr_id r = u_real_id u"

definition set_bits :: "flags \<Rightarrow> nick_row \<Rightarrow> nick_row" where
  "set_bits s r = r\<lparr>nr_status := nr_status r OR s\<rparr>"

definition seen_as :: "user \<Rightarrow> int \<Rightarrow> nick_row \<Rightarrow> nick_row" where
  "seen_as u now r =
     (set_bits NS_RECOGNIZED r)\<lparr>nr_last_seen := now, nr_last_usermask := usermask u,
        nr_last_realname := u_realname u\<rparr>"

definition nick_forbidden :: "sqldb \<Rightarrow> nat \<Rightarrow> bool" where
  "nick_forbidden db i \<longleftrightarrow>
     (\<exists>r\<in>set (t_nick db). nr_id r = i \<and> (has (nr_status r) NS_VERBOTEN \<or> has (nr_flags r) NI_SUSPENDED))"

definition validate_user :: "nscfg \<Rightarrow> int \<Rightarrow> user \<Rightarrow> ns_state \<Rightarrow> (bool \<times> ns_state) option" where
  "validate_user cfg now u st =
     (let i = u_real_id u
      in if i = 0 then Some (False, st)
         else
           (let nick_flags = get_nick_flags (u_nick_id u) st
            in if nick_forbidden (ns_db st) i
               then Some (False, ns_add_timeout now i TO_COLLIDE 60
                       (say (ForceNickChangeIn (u_uid u) 60) (say (NickMayNotBeUsed (u_uid u)) st)))
               else do {
                 st \<leftarrow> remove_nick_status NS_TEMPORARY now i st;
                 let rows = (if NoSplitRecovery cfg then 0
                             else sql_changed (stamp_matches u) (set_bits NS_IDENTIFIED) (t_nick (ns_db st)));
                 if rows \<noteq> 0
                 then map_option (\<lambda>st. (True, say (CheckAutojoins (u_uid u)) st))
                        (cache_status (AddStatus NS_IDENTIFIED) now i
                          (st\<lparr>ns_db := upd_nick (stamp_matches u) (set_bits NS_IDENTIFIED) (ns_db st)\<rparr>))
                 else do {
                   let on_access = is_on_access u (u_nick_id u) (ns_db st);
                   st \<leftarrow> (if on_access then add_nick_status NS_ON_ACCESS now i st else Some st);
                   if \<not> has nick_flags NI_SECURE \<and> on_access
                   then map_option (Pair True)
                          (cache_status (AddStatus NS_RECOGNIZED) now i
                            (st\<lparr>ns_db := upd_nick (\<lambda>r. nr_id r = i) (seen_as u now) (ns_db st)\<rparr>))
                   else
                     (let st = say (if has nick_flags NI_SECURE then NickIsSecure (u_uid u)
                                    else NickIsRegistered (u_uid u)) st
                      in if has nick_flags NI_ENFORCE \<and> \<not> on_access
                         then (let delay = (if has nick_flags NI_ENFORCEQUICK then 20 else 60)
                               in Some (False, ns_add_timeout now i TO_COLLIDE (int delay)
                                          (say (ForceNickChangeIn (u_uid u) delay) st)))
                         else Some (False, st))
                 }
               }))"

definition cancel_user :: "nscfg \<Rightarrow> int \<Rightarrow> user \<Rightarrow> ns_state \<Rightarrow> ns_state option" where
  "cancel_user cfg now u st =
     (let i = u_real_id u;
          P = (\<lambda>r. nr_id r = i \<and> has (nr_status r) NS_GUESTED);
          f = (\<lambda>r. r\<lparr>nr_status := nr_status r AND NOT NS_TEMPORARY\<rparr>)
      in if i = 0 then Some st
         else do {
           let rows = sql_changed P f (t_nick (ns_db st));
           let st = st\<lparr>ns_db := upd_nick P f (ns_db st)\<rparr>;
           st \<leftarrow> (if rows \<noteq> 0
                 then add_nick_status NS_KILL_HELD now i
                        (ns_add_timeout now i TO_RELEASE (NSReleaseTimeout cfg) (say (Enforcer (u_nick u)) st))
                 else remove_nick_status NS_TEMPORARY now i st);
           ns_del_timeout i TO_COLLIDE st
         })"

definition mysql_update_last_seen :: "int \<Rightarrow> user \<Rightarrow> status \<Rightarrow> ns_state \<Rightarrow> ns_state" where
  "mysql_update_last_seen now u s st =
     st\<lparr>ns_db := upd_nick (\<lambda>r. nr_id r = u_real_id u)
        (\<lambda>r. r\<lparr>nr_status := nr_status r OR s, nr_id_stamp := u_services_stamp u, nr_last_seen := now,
               nr_last_usermask := usermask u, nr_last_realname := u_realname u\<rparr>) (ns_db st)\<rparr>"

section \<open>Expiry\<close>

text \<open>Subtraction of the unsigned time columns in the database.\<close>

definition usub :: "int \<Rightarrow> int \<Rightarrow> int" where
  "usub a b = (a - b) mod 2 ^ 64"

definition unsuspend :: "nscfg \<Rightarrow> int \<Rightarrow> nat \<Rightarrow> sqldb \<Rightarrow> sqldb" where
  "unsuspend cfg now i db =
     (let db = upd_nick (\<lambda>r. nr_id r = i) (\<lambda>r. r\<lparr>nr_flags := nr_flags r AND NOT NI_SUSPENDED\<rparr>) db
      in if NSExpire cfg \<noteq> 0 \<and> NSSuspendGrace cfg \<noteq> 0
         then upd_nick (\<lambda>r. nr_id r = i \<and> usub now (nr_last_seen r) \<ge> NSExpire cfg - NSSuspendGrace cfg)
                (\<lambda>r. r\<lparr>nr_last_seen := now - NSExpire cfg + NSSuspendGrace cfg\<rparr>) db
         else db)"

definition expired_suspends :: "int \<Rightarrow> sqldb \<Rightarrow> (nat \<times> nat) list" where
  "expired_suspends now db =
     concat (map (\<lambda>r. concat (map (\<lambda>(k, i, s).
        if i = nr_id r
        then map (\<lambda>_. (i, k)) (filter (\<lambda>su. su_id su = s \<and> su_expires su \<noteq> 0 \<and> su_expires su \<le> now) (t_suspend db))
        else []) (t_nicksuspend db))) (t_nick db))"

definition expire_nicksuspends :: "nscfg \<Rightarrow> int \<Rightarrow> sqldb \<Rightarrow> sqldb" where
  "expire_nicksuspends cfg now db =
     fold (\<lambda>(i, k) db. del_nicksuspend k (unsuspend cfg now i db)) (expired_suspends now db) db"

definition protected :: "nick_row \<Rightarrow> bool" where
  "protected r \<longleftrightarrow>
     has (nr_status r) (NS_VERBOTEN OR NS_NO_EXPIRE) \<or> has (nr_flags r) (NI_SUSPENDED OR NI_IRCOP)"

definition expire_where :: "(nick_row \<Rightarrow> bool) \<Rightarrow> sqldb \<Rightarrow> sqldb" where
  "expire_where P db = fold mysql_delnick (map nr_id (filter P (t_nick db))) db"

definition expire_nicks :: "nscfg \<Rightarrow> int \<Rightarrow> sqldb \<Rightarrow> sqldb" where
  "expire_nicks cfg now db =
     (let db = upd_nick (\<lambda>r. has (nr_status r) (NS_IDENTIFIED OR NS_RECOGNIZED)) (\<lambda>r. r\<lparr>nr_last_seen := now\<rparr>) db;
          old = NSExpire cfg * 3 div 2
      in if NSExpire cfg = 0 \<or> opt_noexpire cfg then db
         else if NSExtraGrace cfg
         then expire_where (\<lambda>r. usub now (nr_time_registered r) < old \<and>
                  usub now (nr_last_seen r) \<ge> NSExpire cfg \<and> \<not> protected r)
                (expire_where (\<lambda>r. usub now (nr_time_registered r) \<ge> old \<and>
                  usub now (nr_last_seen r) \<ge> NSExpire cfg * 3 \<and> \<not> protected r) db)
         else expire_where (\<lambda>r. usub now (nr_last_seen r) \<ge> NSExpire cfg \<and> \<not> protected r) db)"

section \<open>The invariant\<close>

text \<open>
  The cache agrees with the nick table, whose ids are unique; the private list of timers is
  well-formed and matches the list of timeouts.
\<close>

definition mine_ok :: "ns_state \<Rightarrow> bool" where
  "mine_ok st \<longleftrightarrow>
     (\<exists>as. mine_rep (ns_mine st) as \<and> timers_ok (ns_mine st) as (ns_timers st)) \<and>
     (\<forall>t\<in>set (ns_timers st). tm_id t < ns_brk st)"

definition ns_ok :: "ns_state \<Rightarrow> bool" where
  "ns_ok st \<longleftrightarrow>
     cache_ok (ns_cache st) \<and> nc.in_sync (ns_cache st) (nick_select (ns_db st)) \<and>
     nick.unique (t_nick (ns_db st)) \<and> mine_ok st"

lemma ns_okI [intro]:
  "cache_ok (ns_cache st) \<Longrightarrow> nc.in_sync (ns_cache st) (nick_select (ns_db st)) \<Longrightarrow>
   nick.unique (t_nick (ns_db st)) \<Longrightarrow> mine_ok st \<Longrightarrow> ns_ok st"
  by (simp add: ns_ok_def)

lemma upd_nick_row [ns_simps]:
  "(\<And>r. nr_id (f r) = nr_id r) \<Longrightarrow>
   nick.row i (t_nick (upd_nick P f db)) = map_option (\<lambda>r. if P r then f r else r) (nick.row i (t_nick db))"
  by (simp add: upd_nick_def nick.row_update)

lemma upd_nick_unique [ns_simps]:
  "(\<And>r. nr_id (f r) = nr_id r) \<Longrightarrow> nick.unique (t_nick db) \<Longrightarrow> nick.unique (t_nick (upd_nick P f db))"
  by (simp add: upd_nick_def nick.unique_update)

lemma nick_row_id: "nick.row i t = Some r \<Longrightarrow> nr_id r = i"
  unfolding nick.row_def by (drule sql_first_Some) simp

lemma mine_ok_cong:
  "ns_mine st' = ns_mine st \<Longrightarrow> ns_timers st' = ns_timers st \<Longrightarrow> ns_brk st' = ns_brk st \<Longrightarrow>
   mine_ok st' = mine_ok st"
  by (simp add: mine_ok_def)

text \<open>An UPDATE of the status of one row, as the cache sees it.\<close>

lemma select_upd_status:
  assumes "nick.unique (t_nick db)" and "\<And>r. nr_id (f r) = nr_id r" and "\<And>r. nr_language (f r) = nr_language r"
    and "\<And>r. nick.row i (t_nick db) = Some r \<Longrightarrow> (if P r then nr_status (f r) else nr_status r) = g (nr_status r)"
    and "\<And>r. P r \<Longrightarrow> nr_id r = i"
  shows "nick_select (upd_nick P f db) = select_status g i (nick_select db)"
proof
  fix j
  have row: "nick.row j (t_nick (upd_nick P f db)) = map_option (\<lambda>r. if P r then f r else r) (nick.row j (t_nick db))"
    using assms(2) by (rule upd_nick_row)
  show "nick_select (upd_nick P f db) j = select_status g i (nick_select db) j"
  proof (cases "nick.row j (t_nick db)")
    case None
    then show ?thesis using row by (auto simp: nick_select_def select_status_def)
  next
    case (Some r)
    then have "nr_id r = j" by (rule nick_row_id)
    then show ?thesis
      using Some row assms(3-5) [of r] by (auto simp: nick_select_def select_status_def)
  qed
qed

lemma cache_write_through:
  assumes "ns_ok st" and "i \<noteq> 0" and "nick_select db' = select_status (status_effect p) i (nick_select (ns_db st))"
    and "nick.unique (t_nick db')"
  shows "\<exists>c. cache_status p now i (st\<lparr>ns_db := db'\<rparr>) = Some (st\<lparr>ns_db := db', ns_cache := c\<rparr>) \<and>
    ns_ok (st\<lparr>ns_db := db', ns_cache := c\<rparr>)"
proof -
  have "cache_ok (ns_cache st)" "nc.in_sync (ns_cache st) (nick_select (ns_db st))"
    using assms(1) by (simp_all add: ns_ok_def)
  from nc.write_through [OF this(1) assms(2) this(2) assms(3), of now] show ?thesis
    using assms(1,4) mine_ok_cong [of "st\<lparr>ns_db := db', ns_cache := c\<rparr>" st for c]
    by (auto simp: cache_status_def ns_ok_def)
qed

lemma nick_status_ok:
  assumes "ns_ok st" and "i \<noteq> 0"
  shows "\<exists>c. cache_status p now i (db_status p i st) = Some (db_status p i st\<lparr>ns_cache := c\<rparr>) \<and>
    ns_ok (db_status p i st\<lparr>ns_cache := c\<rparr>)"
proof -
  have u: "nick.unique (t_nick (ns_db st))" using assms(1) by (simp add: ns_ok_def)
  let ?f = "\<lambda>r. r\<lparr>nr_status := status_effect p (nr_status r)\<rparr>"
  have "nick_select (upd_nick (\<lambda>r. nr_id r = i) ?f (ns_db st)) =
      select_status (status_effect p) i (nick_select (ns_db st))"
    by (rule select_upd_status [OF u]) (auto dest: nick_row_id)
  moreover have "nick.unique (t_nick (upd_nick (\<lambda>r. nr_id r = i) ?f (ns_db st)))"
    using u by (simp add: upd_nick_unique)
  ultimately show ?thesis
    using cache_write_through [OF assms, of _ p now] by (simp add: db_status_def)
qed

lemmas status_ok =
  nick_status_ok [where p = "SetStatus s" for s, folded set_nick_status_def]
  nick_status_ok [where p = "AddStatus s" for s, folded add_nick_status_def]
  nick_status_ok [where p = "RemoveStatus s" for s, folded remove_nick_status_def]

lemma get_nick_status_ok:
  assumes "ns_ok st" and "i \<noteq> 0" and "nick.row i (t_nick (ns_db st)) = Some r"
  shows "\<exists>c. get_nick_status now i st = Some (nr_status r, st\<lparr>ns_cache := c\<rparr>) \<and> ns_ok (st\<lparr>ns_cache := c\<rparr>)"
proof -
  define sel where "sel = nick_select (ns_db st)"
  have c: "cache_ok (ns_cache st)" and s: "nc.in_sync (ns_cache st) sel" using assms(1) by (simp_all add: ns_ok_def sel_def)
  have r: "sel i = Some (nr_status r, nr_language r)" using assms(3) by (simp add: nick_select_def sel_def)
  define d where "d = current now (nr_status r, nr_language r) (nc_look (ns_cache st) i)"
  obtain c' where c': "cache_ok c'" "nickcache_get_status sel now (ns_cache st) i = Some (cd_status d, c')"
    "\<forall>j. j \<noteq> 0 \<longrightarrow> nc_look c' j = (if j = i then Some d else nc_look (ns_cache st) j)"
    using nickcache_get_status_ok [where db = sel and now = now, OF c assms(2) r] by (auto simp: d_def)
  have d: "cd_status d = nr_status r"
    using s assms(2) r by (auto simp: d_def current_def fresh_data_def nc.in_sync_def split: option.splits)
  have "nc.in_sync c' sel"
    using s c'(3) d r by (auto simp: nc.in_sync_def)
  then have "ns_ok (st\<lparr>ns_cache := c'\<rparr>)"
    using assms(1) c'(1) mine_ok_cong [of "st\<lparr>ns_cache := c'\<rparr>" st] by (auto simp: ns_ok_def sel_def)
  then show ?thesis using c'(2) d by (auto simp: get_nick_status_def sel_def)
qed

section \<open>Timers keep the invariant\<close>

lemma ns_rem_timeout_ok:
  assumes "ns_ok st"
  obtains ms as where "ns_rem_timeout i ty st = Some (st\<lparr>ns_mine := ms\<rparr>)" and "ns_ok (st\<lparr>ns_mine := ms\<rparr>)"
    and "mine_rep ms as" and "timers_ok ms as (ns_timers st)" and "\<forall>a\<in>set as. \<not> mt_is i ty (entry ms a)"
proof -
  obtain as where as: "mine_rep (ns_mine st) as" "timers_ok (ns_mine st) as (ns_timers st)"
    using assms by (auto simp: ns_ok_def mine_ok_def)
  define bs where "bs = after_last (\<lambda>a. mt_is i ty (entry (ns_mine st) a)) as"
  obtain us where us: "as = us @ bs" using after_last_suffix unfolding bs_def by blast
  obtain ms where ms: "rem_ns_timeout i ty (ns_mine st) = Some ms" "mine_rep ms bs"
    "\<forall>a\<in>set bs. entry ms a = entry (ns_mine st) a"
    using rem_ns_timeout_rep [OF as(1), of i ty] by (auto simp: bs_def)
  have t: "timers_ok ms bs (ns_timers st)"
    using timers_ok_suffix [of "ns_mine st" us bs "ns_timers st" ms] as(2) us ms(3) by simp
  have "ns_ok (st\<lparr>ns_mine := ms\<rparr>)"
    using assms ms(2) t by (auto simp: ns_ok_def mine_ok_def)
  moreover have "\<forall>a\<in>set bs. \<not> mt_is i ty (entry ms a)"
    using ms(3) after_last_free [of _ "\<lambda>a. mt_is i ty (entry (ns_mine st) a)" as] by (simp add: bs_def)
  ultimately show thesis
    using ms t by (intro that [of ms bs]) (simp_all add: ns_rem_timeout_def)
qed

lemma ns_add_timeout_ok:
  assumes "ns_ok st"
  shows "ns_ok (ns_add_timeout now i ty delay st)"
proof -
  obtain as where as: "mine_rep (ns_mine st) as" "timers_ok (ns_mine st) as (ns_timers st)"
    and brk: "\<forall>t\<in>set (ns_timers st). tm_id t < ns_brk st"
    using assms by (auto simp: ns_ok_def mine_ok_def)
  obtain ms ts where add: "add_ns_timeout now (ns_brk st) i ty delay (ns_mine st) (ns_timers st) = (ms, ts)"
    by fastforce
  have new: "ns_brk st \<notin> set (ids (ns_timers st))" using brk by (auto simp: ids_def)
  have "\<forall>t\<in>set ts. tm_id t < Suc (ns_brk st)"
    using add brk by (auto simp: add_ns_timeout_def add_timeout_def set_data_def Let_def intro: less_SucI)
  then have "mine_ok (ns_add_timeout now i ty delay st)"
    using add_ns_timeout_rep [OF as new add] add by (auto simp: mine_ok_def ns_add_timeout_def)
  then show ?thesis using assms by (simp add: ns_ok_def ns_add_timeout_def split_beta)
qed

lemma ns_del_timeout_ok:
  assumes "ns_ok st"
  obtains ms ts as where "ns_del_timeout i ty st = Some (st\<lparr>ns_mine := ms, ns_timers := ts\<rparr>)"
    and "ns_ok (st\<lparr>ns_mine := ms, ns_timers := ts\<rparr>)" and "mine_rep ms as"
    and "\<forall>a\<in>set as. \<not> mt_is i ty (entry ms a)" and "set ts \<subseteq> set (ns_timers st)"
proof -
  obtain as where as: "mine_rep (ns_mine st) as" "timers_ok (ns_mine st) as (ns_timers st)"
    using assms by (auto simp: ns_ok_def mine_ok_def)
  define bs where "bs = after_last (\<lambda>a. mt_is i ty (entry (ns_mine st) a)) as"
  define us where "us = without (\<lambda>a. mt_is i ty (entry (ns_mine st) a)) as (ns_mine st)"
  define ts where "ts = filter (\<lambda>t. tm_id t \<notin> recorded (\<lambda>a. mt_is i ty (entry (ns_mine st) a)) as (ns_mine st)) (ns_timers st)"
  obtain ms where ms: "del_ns_timeout i ty (ns_mine st) (ns_timers st) = Some (ms, ts)" "mine_rep ms bs"
    "timers_ok ms bs ts" "\<forall>a\<in>set bs. \<not> mt_is i ty (entry ms a)"
    using del_ns_timeout_ok [OF as, of i ty] unfolding bs_def ts_def by blast
  have "ns_ok (st\<lparr>ns_mine := ms, ns_timers := ts\<rparr>)"
    using assms ms by (auto simp: ns_ok_def mine_ok_def ts_def)
  then show thesis
    using ms by (intro that [of ts ms bs]) (auto simp: ns_del_timeout_def ts_def)
qed

text \<open>The timers that the list of NickServ records for a nickname, and the rest after they are deleted.\<close>

definition timers_of :: "nat \<Rightarrow> to_type \<Rightarrow> nat list \<Rightarrow> ns_state \<Rightarrow> nat set" where
  "timers_of i ty as st = recorded (\<lambda>a. mt_is i ty (entry (ns_mine st) a)) as (ns_mine st)"

lemma mine_rep_unique: "mine_rep ms as \<Longrightarrow> mine_rep ms bs \<Longrightarrow> bs = as"
proof -
  have "entries h p as \<Longrightarrow> entries h p bs \<Longrightarrow> bs = as" for h p
  proof (induction as arbitrary: p bs)
    case Nil
    then show ?case by (cases bs) auto
  next
    case (Cons a as)
    then show ?case by (cases bs) auto
  qed
  then show "mine_rep ms as \<Longrightarrow> mine_rep ms bs \<Longrightarrow> bs = as" by (auto simp: mine_rep_def)
qed

lemma mine_ok_rep: "mine_ok st \<Longrightarrow> mine_rep (ns_mine st) as \<Longrightarrow> timers_ok (ns_mine st) as (ns_timers st)"
  using mine_rep_unique by (auto simp: mine_ok_def)

lemma del_timeout_exact:
  assumes "mine_ok st" and "mine_rep (ns_mine st) as"
  shows "\<exists>ms bs. del_ns_timeout i ty (ns_mine st) (ns_timers st) =
      Some (ms, filter (\<lambda>t. tm_id t \<notin> timers_of i ty as st) (ns_timers st)) \<and>
    mine_rep ms bs \<and> (\<forall>a\<in>set bs. \<not> mt_is i ty (entry ms a))"
  using del_ns_timeout_ok [OF assms(2) mine_ok_rep [OF assms], of i ty] unfolding timers_of_def by blast

lemma ns_del_timeout_exact:
  assumes "mine_ok st" and "mine_rep (ns_mine st) as"
  shows "\<exists>ms bs. ns_del_timeout i ty st =
      Some (st\<lparr>ns_mine := ms, ns_timers := filter (\<lambda>t. tm_id t \<notin> timers_of i ty as st) (ns_timers st)\<rparr>) \<and>
    mine_rep ms bs \<and> (\<forall>a\<in>set bs. \<not> mt_is i ty (entry ms a))"
  using del_timeout_exact [OF assms, of i ty] unfolding ns_del_timeout_def by auto

text \<open>A new timer of another type does not change what is recorded.\<close>

lemma ns_add_timeout_exact:
  assumes "mine_ok st" and "mine_rep (ns_mine st) as" and "ty' \<noteq> ty"
  shows "mine_rep (ns_mine (ns_add_timeout now i ty delay st)) (ms_brk (ns_mine st) # as) \<and>
    timers_of j ty' (ms_brk (ns_mine st) # as) (ns_add_timeout now i ty delay st) = timers_of j ty' as st \<and>
    ns_timers (ns_add_timeout now i ty delay st) =
      \<lparr>tm_id = ns_brk st, tm_settime = now, tm_timeout = now + delay, tm_repeat = False, tm_code = to_code ty, tm_data = i\<rparr> #
        ns_timers st \<and>
    ns_brk st \<notin> timers_of j ty' as st"
proof -
  obtain ms ts where add: "add_ns_timeout now (ns_brk st) i ty delay (ns_mine st) (ns_timers st) = (ms, ts)" by fastforce
  have new: "ns_brk st \<notin> set (ids (ns_timers st))" using assms(1) by (auto simp: mine_ok_def ids_def)
  have ok: "timers_ok (ns_mine st) as (ns_timers st)" by (rule mine_ok_rep [OF assms(1,2)])
  note r = add_ns_timeout_rep [OF assms(2) ok new add]
  have "ts = \<lparr>tm_id = ns_brk st, tm_settime = now, tm_timeout = now + delay, tm_repeat = False, tm_code = to_code ty, tm_data = i\<rparr> #
      ns_timers st"
    using add by (auto simp: add_ns_timeout_def add_timeout_def set_data_def Let_def)
  moreover have "ns_mine (ns_add_timeout now i ty delay st) = ms" "ns_timers (ns_add_timeout now i ty delay st) = ts"
    by (simp_all add: ns_add_timeout_def add)
  moreover have "recorded (\<lambda>a. mt_is j ty' (entry ms a)) (ms_brk (ns_mine st) # as) ms =
      recorded (\<lambda>a. mt_is j ty' (entry (ns_mine st) a)) as (ns_mine st)"
  proof -
    have e: "{a \<in> set (ms_brk (ns_mine st) # as). mt_is j ty' (entry ms a)} = {a \<in> set as. mt_is j ty' (entry (ns_mine st) a)}"
      using r assms(3) by (auto simp: mt_is_def)
    show ?thesis unfolding recorded_def e using r by (intro image_cong) auto
  qed
  moreover have "ns_brk st \<notin> timers_of j ty' as st"
  proof
    assume "ns_brk st \<in> timers_of j ty' as st"
    then obtain a where "a \<in> set as" "ns_brk st = mt_to (entry (ns_mine st) a)" by (auto simp: timers_of_def recorded_def)
    then obtain t where "t \<in> set (ns_timers st)" "tm_id t = ns_brk st" using ok by (fastforce simp: timers_ok_def)
    then show False using new by (force simp: ids_def)
  qed
  ultimately show ?thesis using r by (simp add: timers_of_def)
qed

section \<open>What the timers do\<close>

lemma row_Some: "i \<in> nr_id ` set (t_nick db) \<Longrightarrow> \<exists>r. nick.row i (t_nick db) = Some r"
  using nick.row_None [of i "t_nick db"] by (cases "nick.row i (t_nick db)") auto

lemma db_status_ids [ns_simps]:
  "map nr_id (t_nick (ns_db (db_status p i st))) = map nr_id (t_nick (ns_db st))"
  by (simp add: db_status_def upd_nick_def sql_update_keys)

lemma upd_nick_ids: "(\<And>r. nr_id (f r) = nr_id r) \<Longrightarrow> nr_id ` set (t_nick (upd_nick P f db)) = nr_id ` set (t_nick db)"
  by (simp add: upd_nick_def sql_update_keys flip: set_map)

lemma db_status_id_set [ns_simps]:
  "nr_id ` set (t_nick (ns_db (db_status p i st))) = nr_id ` set (t_nick (ns_db st))"
  by (simp add: db_status_def upd_nick_ids)

text \<open>Who is forced off a nickname when its timer fires.\<close>

definition to_be_collided :: "ns_state \<Rightarrow> tmo \<Rightarrow> bool" where
  "to_be_collided st t \<longleftrightarrow>
     (case nick.row (tm_data t) (t_nick (ns_db st)) of
        None \<Rightarrow> False
      | Some r \<Rightarrow> \<not> has (nr_status r) NS_IDENTIFIED \<and>
          (case finduser (ns_users st) (nr_nick r) of
             None \<Rightarrow> False | Some u \<Rightarrow> u_my_signon u \<le> tm_settime t))"

definition forced_change :: "nscfg \<Rightarrow> ns_state \<Rightarrow> nat \<Rightarrow> ns_msg list" where
  "forced_change cfg st i =
     (case nick.row i (t_nick (ns_db st)) of
        None \<Rightarrow> []
      | Some r \<Rightarrow>
          (case finduser (ns_users st) (nr_nick r) of None \<Rightarrow> []
           | Some u \<Rightarrow> [ForceNickChangeNow (u_uid u) (guest_nick cfg st)]) @
          [SvsNick (nr_nick r) (guest_nick cfg st)])"

lemma ns_ok_say [ns_simps]: "ns_ok (say m st) = ns_ok st"
  by (simp add: ns_ok_def say_def mine_ok_def)

lemma say_simps [ns_simps]:
  "ns_db (say m st) = ns_db st" "ns_cache (say m st) = ns_cache st" "ns_users (say m st) = ns_users st"
  "ns_mine (say m st) = ns_mine st" "ns_timers (say m st) = ns_timers st" "ns_brk (say m st) = ns_brk st"
  "ns_counter (say m st) = ns_counter st" "ns_out (say m st) = ns_out st @ [m]"
  by (simp_all add: say_def)

lemma db_status_simps [ns_simps]:
  "ns_cache (db_status p i st) = ns_cache st" "ns_users (db_status p i st) = ns_users st"
  "ns_mine (db_status p i st) = ns_mine st" "ns_timers (db_status p i st) = ns_timers st"
  "ns_brk (db_status p i st) = ns_brk st" "ns_counter (db_status p i st) = ns_counter st"
  "ns_out (db_status p i st) = ns_out st"
  by (simp_all add: db_status_def)

lemma collide_ok:
  assumes "ns_ok st" and "i \<noteq> 0" and "nick.row i (t_nick (ns_db st)) = Some r"
  shows "\<exists>st'. collide cfg now i True st = Some st' \<and> ns_ok st' \<and> ns_timers st' = ns_timers st \<and>
    ns_mine st' = ns_mine st \<and> nr_id ` set (t_nick (ns_db st')) = nr_id ` set (t_nick (ns_db st)) \<and>
    ns_out st' = ns_out st @ forced_change cfg st i"
proof -
  define guest where "guest = guest_nick cfg st"
  define st1 where "st1 = say (SvsNick (nr_nick r) guest) (case finduser (ns_users st) (nr_nick r) of
      None \<Rightarrow> st\<lparr>ns_counter := ns_counter st + 1\<rparr>
    | Some u \<Rightarrow> say (ForceNickChangeNow (u_uid u) guest) (st\<lparr>ns_counter := ns_counter st + 1\<rparr>))"
  have c: "collide cfg now i True st = add_nick_status NS_GUESTED now i st1"
    using assms(3) by (simp add: collide_def get_nick_from_id_def Let_def guest_def st1_def cong: option.case_cong)
  have "ns_ok (st\<lparr>ns_counter := ns_counter st + 1\<rparr>)" using assms(1) by (simp add: ns_ok_def mine_ok_def)
  then have ok: "ns_ok st1" by (simp add: st1_def ns_simps split: option.splits)
  have same: "ns_db st1 = ns_db st" "ns_timers st1 = ns_timers st" "ns_mine st1 = ns_mine st"
    "ns_out st1 = ns_out st @ forced_change cfg st i"
    using assms(3) by (simp_all add: st1_def ns_simps forced_change_def Let_def guest_def split: option.splits)
  show ?thesis
    unfolding c using status_ok(2) [OF ok assms(2), of NS_GUESTED now] same
    by (auto simp: ns_simps)
qed

lemma timeout_collide_ok:
  assumes "ns_ok st" and "tm_data t \<noteq> 0" and "nick.row (tm_data t) (t_nick (ns_db st)) = Some r"
  shows "\<exists>st' as. timeout_collide cfg now t st = Some st' \<and> ns_ok st' \<and> ns_timers st' = ns_timers st \<and>
    nr_id ` set (t_nick (ns_db st')) = nr_id ` set (t_nick (ns_db st)) \<and>
    mine_rep (ns_mine st') as \<and> timers_ok (ns_mine st') as (ns_timers st) \<and>
    (\<forall>a\<in>set as. \<not> mt_is (tm_data t) TO_COLLIDE (entry (ns_mine st') a)) \<and>
    ns_out st' = ns_out st @ (if to_be_collided st t then forced_change cfg st (tm_data t) else [])"
proof -
  define i where "i = tm_data t"
  obtain ms as where ms: "ns_rem_timeout i TO_COLLIDE st = Some (st\<lparr>ns_mine := ms\<rparr>)"
    "ns_ok (st\<lparr>ns_mine := ms\<rparr>)" "mine_rep ms as" "timers_ok ms as (ns_timers st)"
    "\<forall>a\<in>set as. \<not> mt_is i TO_COLLIDE (entry ms a)"
    by (rule ns_rem_timeout_ok [OF assms(1)])
  obtain c where c: "get_nick_status now i (st\<lparr>ns_mine := ms\<rparr>) =
      Some (nr_status r, st\<lparr>ns_mine := ms, ns_cache := c\<rparr>)" "ns_ok (st\<lparr>ns_mine := ms, ns_cache := c\<rparr>)"
    using get_nick_status_ok [OF ms(2), of i r now] assms(2,3) by (auto simp: i_def)
  define st2 where "st2 = st\<lparr>ns_mine := ms, ns_cache := c\<rparr>"
  have to: "timeout_collide cfg now t st =
      (if has (nr_status r) NS_IDENTIFIED then Some st2
       else (case finduser (ns_users st) (nr_nick r) of
               None \<Rightarrow> Some st2
             | Some u \<Rightarrow> if u_my_signon u > tm_settime t then Some st2 else collide cfg now i True st2))"
    using ms(1) c(1) assms(3)
    by (auto simp: timeout_collide_def get_nick_from_id_def Let_def i_def [symmetric] st2_def split: option.splits)
  have f: "forced_change cfg st2 i = forced_change cfg st i" by (simp add: forced_change_def st2_def guest_nick_def split: option.splits)
  show ?thesis
  proof (cases "to_be_collided st t")
    case True
    then have "timeout_collide cfg now t st = collide cfg now i True st2"
      using assms(3) unfolding to by (auto simp: to_be_collided_def split: option.splits)
    moreover obtain st' where "collide cfg now i True st2 = Some st'" "ns_ok st'"
      "ns_timers st' = ns_timers st2" "ns_mine st' = ns_mine st2"
      "nr_id ` set (t_nick (ns_db st')) = nr_id ` set (t_nick (ns_db st2))"
      "ns_out st' = ns_out st2 @ forced_change cfg st2 i"
      using collide_ok [of st2 i r cfg now] c(2) assms(2,3) by (auto simp: st2_def i_def)
    ultimately show ?thesis using ms True f unfolding i_def [symmetric] by (auto simp: st2_def)
  next
    case False
    then have "timeout_collide cfg now t st = Some st2"
      using assms(3) unfolding to by (auto simp: to_be_collided_def split: option.splits)
    then show ?thesis using ms c False unfolding i_def [symmetric] by (auto simp: st2_def)
  qed
qed

lemma timeout_release_ok:
  assumes "ns_ok st" and "tm_data t \<noteq> 0"
  shows "\<exists>st' as. timeout_release now t st = Some st' \<and> ns_ok st' \<and> ns_timers st' = ns_timers st \<and>
    nr_id ` set (t_nick (ns_db st')) = nr_id ` set (t_nick (ns_db st)) \<and>
    mine_rep (ns_mine st') as \<and> timers_ok (ns_mine st') as (ns_timers st) \<and>
    (\<forall>a\<in>set as. \<not> mt_is (tm_data t) TO_RELEASE (entry (ns_mine st') a)) \<and>
    ns_out st' = ns_out st @ [EnforcerQuit (get_nick_from_id (ns_db st) (tm_data t))]"
proof -
  define i where "i = tm_data t"
  obtain ms as where ms: "ns_rem_timeout i TO_RELEASE st = Some (st\<lparr>ns_mine := ms\<rparr>)"
    "ns_ok (st\<lparr>ns_mine := ms\<rparr>)" "mine_rep ms as" "timers_ok ms as (ns_timers st)"
    "\<forall>a\<in>set as. \<not> mt_is i TO_RELEASE (entry ms a)"
    by (rule ns_rem_timeout_ok [OF assms(1)])
  define st1 where "st1 = say (EnforcerQuit (get_nick_from_id (ns_db st) i)) (st\<lparr>ns_mine := ms\<rparr>)"
  have r: "timeout_release now t st = remove_nick_status NS_KILL_HELD now i st1"
    using ms(1) by (simp add: timeout_release_def release_def Let_def i_def [symmetric] st1_def)
  have "ns_ok st1" using ms(2) by (simp add: st1_def ns_simps)
  from status_ok(3) [OF this, of i NS_KILL_HELD now] show ?thesis
    unfolding r using ms assms(2) by (auto simp: i_def [symmetric] st1_def ns_simps)
qed

lemma timers_ok_fired:
  assumes "timers_ok ms as ts" and "to \<in> set ts"
    and "\<forall>a\<in>set as. \<not> mt_is (tm_data to) (if tm_code to = 0 then TO_COLLIDE else TO_RELEASE) (entry ms a)"
  shows "timers_ok ms as (filter (\<lambda>t. tm_id t \<noteq> tm_id to) ts)"
proof -
  have d: "inj_on tm_id (set ts)" using assms(1) by (simp add: timers_ok_def ids_def distinct_map)
  have "\<exists>t\<in>set ts. tm_id t \<noteq> tm_id to \<and> tm_id t = mt_to (entry ms a) \<and>
      tm_data t = mt_nick_id (entry ms a) \<and> tm_code t = to_code (mt_type (entry ms a))"
    if a: "a \<in> set as" for a
  proof -
    obtain t where t: "t \<in> set ts" "tm_id t = mt_to (entry ms a)" "tm_data t = mt_nick_id (entry ms a)"
      "tm_code t = to_code (mt_type (entry ms a))"
      using assms(1) a by (auto simp: timers_ok_def)
    have "tm_id t \<noteq> tm_id to"
    proof
      assume "tm_id t = tm_id to"
      then have "t = to" using d t(1) assms(2) by (auto dest: inj_onD)
      then have "mt_is (tm_data to) (if tm_code to = 0 then TO_COLLIDE else TO_RELEASE) (entry ms a)"
        using t(3,4) by (cases "mt_type (entry ms a)") (simp_all add: mt_is_def to_code_def)
      then show False using assms(3) a by blast
    qed
    then show ?thesis using t by blast
  qed
  then show ?thesis
    using assms(1) by (auto simp: timers_ok_def ids_def distinct_map_filter)
qed

definition timer_inv :: "tmo list \<times> ns_state \<Rightarrow> bool" where
  "timer_inv p \<longleftrightarrow>
     ns_ok ((snd p)\<lparr>ns_timers := fst p\<rparr>) \<and>
     (\<forall>t\<in>set (fst p). \<not> tm_repeat t \<and> tm_data t \<noteq> 0 \<and> tm_data t \<in> nr_id ` set (t_nick (ns_db (snd p))))"

lemma ns_ok_timers: "ns_ok st \<Longrightarrow> distinct (ids (ns_timers st))"
  by (auto simp: ns_ok_def mine_ok_def timers_ok_def)

lemma run_timer_inv:
  assumes inv: "timer_inv (ts, st)" and t: "to \<in> set ts"
  shows "\<exists>st'. run_timer cfg now to (ts, st) = Some (ts, st') \<and> timer_inv (del_timeout (tm_id to) ts, st')"
proof -
  define st0 where "st0 = st\<lparr>ns_timers := ts\<rparr>"
  have ok: "ns_ok st0" and d: "tm_data to \<noteq> 0" "tm_data to \<in> nr_id ` set (t_nick (ns_db st0))"
    using inv t by (auto simp: timer_inv_def st0_def)
  obtain r where r: "nick.row (tm_data to) (t_nick (ns_db st0)) = Some r" using row_Some [OF d(2)] by blast
  define ty where "ty = (if tm_code to = 0 then TO_COLLIDE else TO_RELEASE)"
  obtain st' as where st': "(if tm_code to = 0 then timeout_collide cfg now to else timeout_release now to) st0 = Some st'"
    "ns_ok st'" "ns_timers st' = ts" "nr_id ` set (t_nick (ns_db st')) = nr_id ` set (t_nick (ns_db st0))"
    "mine_rep (ns_mine st') as" "timers_ok (ns_mine st') as ts"
    "\<forall>a\<in>set as. \<not> mt_is (tm_data to) ty (entry (ns_mine st') a)"
    using timeout_collide_ok [OF ok d(1) r, of cfg now] timeout_release_ok [OF ok d(1), of now]
    by (cases "tm_code to = 0") (auto simp: ty_def st0_def)
  have run: "run_timer cfg now to (ts, st) = Some (ts, st')"
    using st'(1,3) by (simp add: run_timer_def st0_def)
  have del: "del_timeout (tm_id to) ts = filter (\<lambda>t. tm_id t \<noteq> tm_id to) ts"
    by (rule del_timeout_filter) (use ns_ok_timers [OF ok] in \<open>simp add: st0_def\<close>)
  have "timers_ok (ns_mine st') as (del_timeout (tm_id to) ts)"
    unfolding del by (rule timers_ok_fired [OF st'(6) t]) (use st'(7) in \<open>simp add: ty_def\<close>)
  moreover have "\<forall>t\<in>set ts. tm_id t < ns_brk st'" using st'(2,3) by (auto simp: ns_ok_def mine_ok_def)
  ultimately have "ns_ok (st'\<lparr>ns_timers := del_timeout (tm_id to) ts\<rparr>)"
    using st'(2,5) by (auto simp: ns_ok_def mine_ok_def del)
  then have "timer_inv (del_timeout (tm_id to) ts, st')"
    using inv st'(4) by (auto simp: timer_inv_def del st0_def)
  with run show ?thesis by blast
qed

interpretation ns_timer: timeout_code "run_timer cfg now" timer_inv for cfg now
proof
  fix ts st assume "timer_inv (ts, st)"
  then show "distinct (ids ts)" using ns_ok_timers by (fastforce simp: timer_inv_def)
next
  fix ts st to assume a: "timer_inv (ts, st)" "to \<in> set ts"
  obtain st' where st': "run_timer cfg now to (ts, st) = Some (ts, st')"
    "timer_inv (del_timeout (tm_id to) ts, st')"
    using run_timer_inv [OF a] by blast
  have "distinct (ids ts)" "\<not> tm_repeat to"
    using a ns_ok_timers [of "st\<lparr>ns_timers := ts\<rparr>"] by (auto simp: timer_inv_def)
  then show "\<exists>new s'. run_timer cfg now to (ts, st) = Some (new @ ts, s') \<and> distinct (ids (new @ ts)) \<and>
      timer_inv (if tm_repeat to then new @ ts else del_timeout (tm_id to) (new @ ts), s')"
    using st' by (intro exI [of _ "[]"] exI [of _ st']) simp
qed

section \<open>Validation of users\<close>

lemma cleared_bits:
  assumes "m AND NS_TEMPORARY = m"
  shows "\<not> has (s AND NOT NS_TEMPORARY) m"
proof -
  have "bit NS_TEMPORARY n" if "bit m n" for n using assms that by (metis bit_and_iff)
  then have "(s AND NOT NS_TEMPORARY) AND m = 0"
    by (intro bit_word_eqI) (auto simp: bit_and_iff bit_not_iff)
  then show ?thesis by (simp add: has_def)
qed

lemma temporary_bits [ns_simps]:
  "\<not> has (s AND NOT NS_TEMPORARY) NS_IDENTIFIED" "\<not> has (s AND NOT NS_TEMPORARY) (NS_IDENTIFIED OR NS_RECOGNIZED)"
  "\<not> has (s AND NOT NS_TEMPORARY) NS_RECOGNIZED"
  by (rule cleared_bits, simp add: NS_TEMPORARY_def NS_IDENTIFIED_def NS_RECOGNIZED_def)+

lemma or_has:
  assumes "m \<noteq> 0" and "m AND k = m"
  shows "has (s OR m) k"
  unfolding has_def
proof
  assume "(s OR m) AND k = 0"
  then have "\<not> (bit (s OR m) n \<and> bit k n)" for n by (metis bit_and_iff bit_0_eq bot_apply bot_bool_def)
  moreover have "bit k n" if "bit m n" for n using assms(2) that by (metis bit_and_iff)
  ultimately have "m = 0" by (intro bit_word_eqI) (auto simp: bit_or_iff)
  then show False using assms(1) by blast
qed

definition recognises :: "nscfg \<Rightarrow> user \<Rightarrow> sqldb \<Rightarrow> bool" where
  "recognises cfg u db \<longleftrightarrow>
     \<not> nick_forbidden db (u_real_id u) \<and>
     (\<not> NoSplitRecovery cfg \<and> (\<exists>r\<in>set (t_nick db). stamp_matches u r) \<or>
      is_on_access u (u_nick_id u) db \<and>
      \<not> has (case nick.row (u_nick_id u) (t_nick db) of None \<Rightarrow> 0 | Some r \<Rightarrow> nr_flags r) NI_SECURE)"

lemma remove_temporary_ok:
  assumes "ns_ok st" and "i \<noteq> 0" and "nick.row i (t_nick (ns_db st)) = Some r"
  obtains st1 where "remove_nick_status NS_TEMPORARY now i st = Some st1" and "ns_ok st1"
    and "ns_db st1 = upd_nick (\<lambda>r. nr_id r = i) (\<lambda>r. r\<lparr>nr_status := nr_status r AND NOT NS_TEMPORARY\<rparr>) (ns_db st)"
    and "nick.row i (t_nick (ns_db st1)) = Some (r\<lparr>nr_status := nr_status r AND NOT NS_TEMPORARY\<rparr>)"
proof -
  obtain c where c: "remove_nick_status NS_TEMPORARY now i st =
      Some (db_status (RemoveStatus NS_TEMPORARY) i st\<lparr>ns_cache := c\<rparr>)"
    "ns_ok (db_status (RemoveStatus NS_TEMPORARY) i st\<lparr>ns_cache := c\<rparr>)"
    using status_ok(3) [OF assms(1,2)] by blast
  then show thesis
    using assms(3) nick_row_id [OF assms(3)]
    by (intro that [OF c]) (simp_all add: db_status_def upd_nick_row)
qed

text \<open>The UPDATE of the row of one nickname by a status, as the cache follows it.\<close>

lemma add_bits_ok:
  assumes "ns_ok st" and "i \<noteq> 0" and "nick.row i (t_nick (ns_db st)) = Some r" and "P r"
    and "\<And>r. P r \<Longrightarrow> nr_id r = i"
    and "\<And>r. nr_id (f r) = nr_id r \<and> nr_language (f r) = nr_language r \<and> nr_status (f r) = nr_status r OR s"
  obtains st1 where "cache_status (AddStatus s) now i (st\<lparr>ns_db := upd_nick P f (ns_db st)\<rparr>) = Some st1"
    and "ns_ok st1" and "nick.row i (t_nick (ns_db st1)) = Some (f r)"
    and "ns_db st1 = upd_nick P f (ns_db st)"
proof -
  have u: "nick.unique (t_nick (ns_db st))" using assms(1) by (simp add: ns_ok_def)
  have "nick_select (upd_nick P f (ns_db st)) = select_status (status_effect (AddStatus s)) i (nick_select (ns_db st))"
    by (rule select_upd_status [OF u]) (use assms(3-6) in auto)
  moreover have "nick.unique (t_nick (upd_nick P f (ns_db st)))" using u assms(6) by (simp add: upd_nick_unique)
  ultimately obtain c where "cache_status (AddStatus s) now i (st\<lparr>ns_db := upd_nick P f (ns_db st)\<rparr>) =
      Some (st\<lparr>ns_db := upd_nick P f (ns_db st), ns_cache := c\<rparr>)"
    "ns_ok (st\<lparr>ns_db := upd_nick P f (ns_db st), ns_cache := c\<rparr>)"
    using cache_write_through [OF assms(1,2)] by blast
  moreover have "nick.row i (t_nick (upd_nick P f (ns_db st))) = Some (f r)"
    using upd_nick_row [of f i P "ns_db st"] assms(3,4,6) by simp
  ultimately show thesis
    by (intro that [of "st\<lparr>ns_db := upd_nick P f (ns_db st), ns_cache := c\<rparr>"]) simp_all
qed

lemma nick_row_only:
  "nick.unique t \<Longrightarrow> nick.row i t = Some r \<Longrightarrow> s \<in> set t \<Longrightarrow> nr_id s = i \<Longrightarrow> s = r"
  using nick.row_in [of t i s] by simp

lemma stamp_rows:
  assumes "nick.unique (t_nick db)" and "nick.row (u_real_id u) (t_nick db) = Some r"
  shows "(\<exists>r\<in>set (t_nick db). stamp_matches u r) \<longleftrightarrow> stamp_matches u r"
  using nick_row_only [OF assms] nick.row_in [OF assms(1), of "u_real_id u" r] assms(2)
  by (metis stamp_matches_def)

lemma sql_changed_row:
  assumes "nick.unique (t_nick db)" and "nick.row i (t_nick db) = Some r" and "\<And>r. P r \<Longrightarrow> nr_id r = i"
    and "f r \<noteq> r"
  shows "sql_changed P f (t_nick db) \<noteq> 0 \<longleftrightarrow> P r"
proof -
  have "s = r" if "s \<in> set (t_nick db)" "P s" for s
    using nick.row_in [OF assms(1), of i s] assms(2,3) that by auto
  moreover have "r \<in> set (t_nick db)" using nick.row_in [OF assms(1), of i r] assms(2) by simp
  ultimately show ?thesis
    using assms(4) by (auto simp: sql_changed_def filter_empty_conv)
qed

lemma set_bits_changes: "\<not> has (nr_status r) s \<Longrightarrow> s \<noteq> 0 \<Longrightarrow> set_bits s r \<noteq> r"
proof
  assume s: "\<not> has (nr_status r) s" "s \<noteq> 0" and "set_bits s r = r"
  then have "nr_status r = nr_status (set_bits s r)" by simp
  then have "has (nr_status r) s" using or_has [of s s "nr_status r"] s(2) by (simp add: set_bits_def)
  with s(1) show False by blast
qed

lemma NS_nonzero [ns_simps]: "NS_IDENTIFIED \<noteq> 0" "NS_RECOGNIZED \<noteq> 0" "NS_ON_ACCESS \<noteq> 0"
  by (simp_all add: NS_IDENTIFIED_def NS_RECOGNIZED_def NS_ON_ACCESS_def)

lemma id_recog [ns_simps]:
  "NS_IDENTIFIED AND (NS_IDENTIFIED OR NS_RECOGNIZED) = NS_IDENTIFIED"
  "NS_RECOGNIZED AND (NS_IDENTIFIED OR NS_RECOGNIZED) = NS_RECOGNIZED"
  "NS_ON_ACCESS AND (NS_IDENTIFIED OR NS_RECOGNIZED) = 0"
  by (simp_all add: NS_IDENTIFIED_def NS_RECOGNIZED_def NS_ON_ACCESS_def)

lemma has_or: "has (s OR m) k \<longleftrightarrow> has s k \<or> has m k"
  by (auto simp: has_def bit_eq_iff bit_and_iff bit_or_iff)

lemma validate_user_ok:
  assumes "ns_ok st" and "nick.row (u_real_id u) (t_nick (ns_db st)) = Some r" and "u_real_id u \<noteq> 0"
  shows "\<exists>st' r'. validate_user cfg now u st = Some (recognises cfg u (ns_db st), st') \<and> ns_ok st' \<and>
    nick.row (u_real_id u) (t_nick (ns_db st')) = Some r' \<and>
    (\<not> nick_forbidden (ns_db st) (u_real_id u) \<longrightarrow>
       has (nr_status r') (NS_IDENTIFIED OR NS_RECOGNIZED) = recognises cfg u (ns_db st))"
proof (cases "nick_forbidden (ns_db st) (u_real_id u)")
  case True
  have "ns_ok (ns_add_timeout now (u_real_id u) TO_COLLIDE 60
      (say (ForceNickChangeIn (u_uid u) 60) (say (NickMayNotBeUsed (u_uid u)) st)))"
    using assms(1) by (intro ns_add_timeout_ok) (simp add: ns_simps)
  moreover have "ns_db (ns_add_timeout now (u_real_id u) TO_COLLIDE 60
      (say (ForceNickChangeIn (u_uid u) 60) (say (NickMayNotBeUsed (u_uid u)) st))) = ns_db st"
    by (simp add: ns_add_timeout_def split_beta ns_simps)
  ultimately show ?thesis
    using True assms by (simp add: validate_user_def recognises_def Let_def)
next
  case False
  define i where "i = u_real_id u"
  define nf where "nf = get_nick_flags (u_nick_id u) st"
  obtain st1 where st1: "remove_nick_status NS_TEMPORARY now i st = Some st1" "ns_ok st1"
    "ns_db st1 = upd_nick (\<lambda>r. nr_id r = i) (\<lambda>r. r\<lparr>nr_status := nr_status r AND NOT NS_TEMPORARY\<rparr>) (ns_db st)"
    "nick.row i (t_nick (ns_db st1)) = Some (r\<lparr>nr_status := nr_status r AND NOT NS_TEMPORARY\<rparr>)"
    using remove_temporary_ok [OF assms(1,3,2)] unfolding i_def by blast
  define r1 where "r1 = r\<lparr>nr_status := nr_status r AND NOT NS_TEMPORARY\<rparr>"
  have i0: "i \<noteq> 0" using assms(3) by (simp add: i_def)
  have u1: "nick.unique (t_nick (ns_db st1))" "nick.unique (t_nick (ns_db st))"
    using st1(2) assms(1) by (simp_all add: ns_ok_def)
  have acc: "is_on_access u (u_nick_id u) (ns_db st1) = is_on_access u (u_nick_id u) (ns_db st)"
    by (simp add: st1(3) upd_nick_def is_on_access_def)
  define on where "on = is_on_access u (u_nick_id u) (ns_db st)"
  define stamp where "stamp = (\<not> NoSplitRecovery cfg \<and> stamp_matches u r1)"
  have "stamp_matches u r1 = stamp_matches u r" by (simp add: stamp_matches_def r1_def)
  then have rec: "recognises cfg u (ns_db st) \<longleftrightarrow> stamp \<or> on \<and> \<not> has nf NI_SECURE"
    using False stamp_rows [OF u1(2) assms(2)]
    by (auto simp: recognises_def stamp_def on_def nf_def get_nick_flags_def)
  have noid: "\<not> has (nr_status r1) NS_IDENTIFIED" "\<not> has (nr_status r1) (NS_IDENTIFIED OR NS_RECOGNIZED)"
    by (simp_all add: r1_def ns_simps)
  define rows where "rows = (if NoSplitRecovery cfg then 0
      else sql_changed (stamp_matches u) (set_bits NS_IDENTIFIED) (t_nick (ns_db st1)))"
  have rows: "rows \<noteq> 0 \<longleftrightarrow> stamp"
  proof -
    have "sql_changed (stamp_matches u) (set_bits NS_IDENTIFIED) (t_nick (ns_db st1)) \<noteq> 0 \<longleftrightarrow> stamp_matches u r1"
      by (rule sql_changed_row [OF u1(1) st1(4) [folded r1_def]])
        (simp_all add: stamp_matches_def i_def set_bits_changes [OF noid(1) NS_nonzero(1)])
    then show ?thesis by (simp add: rows_def stamp_def)
  qed
  show ?thesis
  proof (cases stamp)
    case True
    obtain st2 where st2: "cache_status (AddStatus NS_IDENTIFIED) now i
        (st1\<lparr>ns_db := upd_nick (stamp_matches u) (set_bits NS_IDENTIFIED) (ns_db st1)\<rparr>) = Some st2" "ns_ok st2"
      "nick.row i (t_nick (ns_db st2)) = Some (set_bits NS_IDENTIFIED r1)"
      by (rule add_bits_ok [OF st1(2) i0 st1(4) _ _ _, of "stamp_matches u" "set_bits NS_IDENTIFIED" NS_IDENTIFIED now])
        (use True in \<open>auto simp: stamp_def r1_def stamp_matches_def i_def set_bits_def\<close>)
    have "validate_user cfg now u st = Some (True, say (CheckAutojoins (u_uid u)) st2)"
      using False assms(3) st1(1) st2(1) rows True
      by (simp add: validate_user_def Let_def i_def [symmetric] rows_def [symmetric])
    moreover have "has (nr_status (set_bits NS_IDENTIFIED r1)) (NS_IDENTIFIED OR NS_RECOGNIZED)"
      by (simp add: set_bits_def or_has ns_simps)
    ultimately show ?thesis using st2 rec True by (auto simp: ns_simps i_def)
  next
    case no: False
    obtain st2 r2 where st2: "(if on then add_nick_status NS_ON_ACCESS now i st1 else Some st1) = Some st2" "ns_ok st2"
      "nick.row i (t_nick (ns_db st2)) = Some r2" "\<not> has (nr_status r2) (NS_IDENTIFIED OR NS_RECOGNIZED)"
    proof (cases on)
      case True
      obtain c where "add_nick_status NS_ON_ACCESS now i st1 = Some (db_status (AddStatus NS_ON_ACCESS) i st1\<lparr>ns_cache := c\<rparr>)"
        "ns_ok (db_status (AddStatus NS_ON_ACCESS) i st1\<lparr>ns_cache := c\<rparr>)"
        using status_ok(2) [OF st1(2) i0] by blast
      then show thesis
        using True noid(2) st1(4) nick_row_id [OF st1(4)]
        by (intro that [of _ "set_bits NS_ON_ACCESS r1"])
          (auto simp: db_status_def upd_nick_row set_bits_def has_or ns_simps has_def [of NS_ON_ACCESS] r1_def)
    qed (use that st1(2,4) noid(2) in \<open>auto simp: r1_def\<close>)
    show ?thesis
    proof (cases "\<not> has nf NI_SECURE \<and> on")
      case True
      have id2: "nr_id r2 = i" using nick_row_id [OF st2(3)] .
      obtain st3 where st3: "cache_status (AddStatus NS_RECOGNIZED) now i
          (st2\<lparr>ns_db := upd_nick (\<lambda>r. nr_id r = i) (seen_as u now) (ns_db st2)\<rparr>) = Some st3" "ns_ok st3"
        "nick.row i (t_nick (ns_db st3)) = Some (seen_as u now r2)"
        by (rule add_bits_ok [OF st2(2) i0 st2(3), of "\<lambda>r. nr_id r = i" "seen_as u now" NS_RECOGNIZED now])
          (use id2 in \<open>auto simp: seen_as_def set_bits_def\<close>)
      have "validate_user cfg now u st = Some (True, st3)"
        using False assms(3) st1(1) st2(1) st3(1) rows no True acc
        by (simp add: validate_user_def Let_def i_def [symmetric] rows_def [symmetric] nf_def [symmetric] on_def [symmetric])
      moreover have "has (nr_status (seen_as u now r2)) (NS_IDENTIFIED OR NS_RECOGNIZED)"
        by (simp add: seen_as_def set_bits_def or_has ns_simps)
      ultimately show ?thesis using st3 rec True by (auto simp: i_def)
    next
      case out: False
      have none: "\<not> NoSplitRecovery cfg \<longrightarrow>
          sql_changed (stamp_matches u) (set_bits NS_IDENTIFIED) (t_nick (ns_db st1)) = 0"
        using rows no by (simp add: rows_def split: if_splits)
      define st3 where "st3 = say (if has nf NI_SECURE then NickIsSecure (u_uid u) else NickIsRegistered (u_uid u)) st2"
      have ok3: "ns_ok st3" using st2(2) by (simp add: st3_def ns_simps)
      obtain st4 where st4: "validate_user cfg now u st = Some (False, st4)" "ns_ok st4" "ns_db st4 = ns_db st2"
      proof (cases "has nf NI_ENFORCE \<and> \<not> on")
        case True
        define delay :: nat where "delay = (if has nf NI_ENFORCEQUICK then 20 else 60)"
        have "validate_user cfg now u st =
            Some (False, ns_add_timeout now i TO_COLLIDE (int delay) (say (ForceNickChangeIn (u_uid u) delay) st3))"
          using False assms(3) st1(1) st2(1) none rows no out acc True
          by (simp add: validate_user_def Let_def i_def [symmetric] rows_def [symmetric] nf_def [symmetric]
              on_def [symmetric] delay_def st3_def)
        moreover have "ns_ok (ns_add_timeout now i TO_COLLIDE (int delay) (say (ForceNickChangeIn (u_uid u) delay) st3))"
          using ok3 by (intro ns_add_timeout_ok) (simp add: ns_simps)
        ultimately show thesis
          by (intro that [of "ns_add_timeout now i TO_COLLIDE (int delay) (say (ForceNickChangeIn (u_uid u) delay) st3)"])
            (simp_all add: ns_add_timeout_def split_beta ns_simps st3_def)
      next
        case no_enforce: False
        have "validate_user cfg now u st = Some (False, st3)"
          using False assms(3) st1(1) st2(1) none rows no out acc no_enforce
          by (auto simp: validate_user_def Let_def i_def [symmetric] rows_def [symmetric] nf_def [symmetric]
              on_def [symmetric] st3_def)
        then show thesis using ok3 by (intro that [of st3]) (simp_all add: st3_def ns_simps)
      qed
      then show ?thesis using st2(3,4) rec no out by (auto simp: i_def)
    qed
  qed
qed

section \<open>Departure\<close>

definition temporary_free :: "sqldb \<Rightarrow> nat \<Rightarrow> bool" where
  "temporary_free db i \<longleftrightarrow>
     (\<forall>r\<in>set (t_nick db). nr_id r = i \<longrightarrow> nr_status r AND NS_TEMPORARY AND NOT NS_KILL_HELD = 0)"

lemma temporary_cleared: "(s AND NOT NS_TEMPORARY) AND NS_TEMPORARY AND NOT NS_KILL_HELD = 0"
  by (intro bit_word_eqI) (auto simp: bit_and_iff bit_not_iff)

lemma temporary_held: "((s AND NOT NS_TEMPORARY) OR NS_KILL_HELD) AND NS_TEMPORARY AND NOT NS_KILL_HELD = 0"
  by (intro bit_word_eqI) (auto simp: bit_and_iff bit_or_iff bit_not_iff)

lemma guested_changes: "has s NS_GUESTED \<Longrightarrow> s AND NOT NS_TEMPORARY \<noteq> s"
proof
  assume g: "has s NS_GUESTED" and s: "s AND NOT NS_TEMPORARY = s"
  have "\<not> has (s AND NOT NS_TEMPORARY) NS_GUESTED"
    by (rule cleared_bits) (simp add: NS_GUESTED_def NS_TEMPORARY_def)
  then show False using g s by simp
qed

lemma cancel_user_plain:
  assumes "ns_ok st" and "nick.row (u_real_id u) (t_nick (ns_db st)) = Some r" and "u_real_id u \<noteq> 0"
    and "\<not> has (nr_status r) NS_GUESTED" and rep: "mine_rep (ns_mine st) as"
  shows "\<exists>st' bs r'. cancel_user cfg now u st = Some st' \<and> ns_ok st' \<and> mine_rep (ns_mine st') bs \<and>
    (\<forall>a\<in>set bs. \<not> mt_is (u_real_id u) TO_COLLIDE (entry (ns_mine st') a)) \<and>
    nick.row (u_real_id u) (t_nick (ns_db st')) = Some r' \<and> nr_status r' = nr_status r AND NOT NS_TEMPORARY \<and>
    ns_out st' = ns_out st \<and>
    ns_timers st' = filter (\<lambda>t. tm_id t \<notin> timers_of (u_real_id u) TO_COLLIDE as st) (ns_timers st)"
proof -
  define i where "i = u_real_id u"
  define P where "P = (\<lambda>r :: nick_row. nr_id r = i \<and> has (nr_status r) NS_GUESTED)"
  define f where "f = (\<lambda>r :: nick_row. r\<lparr>nr_status := nr_status r AND NOT NS_TEMPORARY\<rparr>)"
  have u: "nick.unique (t_nick (ns_db st))" using assms(1) by (simp add: ns_ok_def)
  have none: "\<not> P s" if "s \<in> set (t_nick (ns_db st))" for s
    using nick_row_only [OF u assms(2) that] assms(4) by (auto simp: P_def i_def)
  then have "sql_changed P f (t_nick (ns_db st)) = 0" by (simp add: sql_changed_def)
  moreover have "sql_update P f (t_nick (ns_db st)) = t_nick (ns_db st)"
    using none by (simp add: sql_update_def map_idI)
  then have "upd_nick P f (ns_db st) = ns_db st" by (simp add: upd_nick_def)
  moreover obtain st1 where st1: "remove_nick_status NS_TEMPORARY now i st = Some st1" "ns_ok st1"
    "nick.row i (t_nick (ns_db st1)) = Some (r\<lparr>nr_status := nr_status r AND NOT NS_TEMPORARY\<rparr>)"
    using remove_temporary_ok [OF assms(1,3,2)] unfolding i_def by blast
  moreover have same: "ns_timers st1 = ns_timers st" "ns_mine st1 = ns_mine st" "ns_out st1 = ns_out st"
    using st1(1) by (auto simp: remove_nick_status_def cache_status_def db_status_def ns_simps)
  moreover have m1: "mine_ok st1" using st1(2) by (simp add: ns_ok_def)
  moreover obtain ms bs where del: "ns_del_timeout i TO_COLLIDE st1 =
      Some (st1\<lparr>ns_mine := ms, ns_timers := filter (\<lambda>t. tm_id t \<notin> timers_of i TO_COLLIDE as st1) (ns_timers st1)\<rparr>)"
    "mine_rep ms bs" "\<forall>a\<in>set bs. \<not> mt_is i TO_COLLIDE (entry ms a)"
    using ns_del_timeout_exact [OF m1] rep same(2) by metis
  moreover have "ns_ok (st1\<lparr>ns_mine := ms, ns_timers := filter (\<lambda>t. tm_id t \<notin> timers_of i TO_COLLIDE as st1) (ns_timers st1)\<rparr>)"
    using ns_del_timeout_ok [OF st1(2), of i TO_COLLIDE] del(1) by (metis option.inject)
  moreover have "timers_of i TO_COLLIDE as st1 = timers_of i TO_COLLIDE as st" by (simp add: timers_of_def same(2))
  moreover have "cancel_user cfg now u st = ns_del_timeout i TO_COLLIDE st1"
    using calculation(1,2,3) assms(3)
    by (simp add: cancel_user_def Let_def P_def f_def i_def)
  ultimately show ?thesis unfolding i_def [symmetric] by auto
qed

text \<open>
  A guested nickname: the row is cleared and held, the enforcer is introduced, and the release
  timer is set.
\<close>

lemma cancel_user_guested:
  assumes "nick.unique (t_nick (ns_db st))" and "cache_ok (ns_cache st)" and "mine_ok st"
    and "nick.row (u_real_id u) (t_nick (ns_db st)) = Some r" and "u_real_id u \<noteq> 0"
    and "has (nr_status r) NS_GUESTED" and rep: "mine_rep (ns_mine st) as"
  shows "\<exists>st' bs r'. cancel_user cfg now u st = Some st' \<and> mine_rep (ns_mine st') bs \<and>
    (\<forall>a\<in>set bs. \<not> mt_is (u_real_id u) TO_COLLIDE (entry (ns_mine st') a)) \<and>
    ns_timers st' = \<lparr>tm_id = ns_brk st, tm_settime = now, tm_timeout = now + NSReleaseTimeout cfg, tm_repeat = False,
        tm_code = to_code TO_RELEASE, tm_data = u_real_id u\<rparr> #
      filter (\<lambda>t. tm_id t \<notin> timers_of (u_real_id u) TO_COLLIDE as st) (ns_timers st) \<and>
    nick.row (u_real_id u) (t_nick (ns_db st')) = Some r' \<and>
    nr_status r' = (nr_status r AND NOT NS_TEMPORARY) OR NS_KILL_HELD \<and>
    ns_out st' = ns_out st @ [Enforcer (u_nick u)] \<and>
    nc_look (ns_cache st') (u_real_id u) =
      map_option (with_status (\<lambda>s. s OR NS_KILL_HELD) now)
        (case nc_look (ns_cache st) (u_real_id u) of
           Some d \<Rightarrow> Some d
         | None \<Rightarrow> Some (fresh_data now ((nr_status r AND NOT NS_TEMPORARY) OR NS_KILL_HELD, nr_language r)))"
proof -
  define i where "i = u_real_id u"
  define P where "P = (\<lambda>r :: nick_row. nr_id r = i \<and> has (nr_status r) NS_GUESTED)"
  define f where "f = (\<lambda>r :: nick_row. r\<lparr>nr_status := nr_status r AND NOT NS_TEMPORARY\<rparr>)"
  have idr: "nr_id r = i" using nick_row_id [OF assms(4)] by (simp add: i_def)
  have row: "nick.row i (t_nick (ns_db st)) = Some r" using assms(4) by (simp add: i_def)
  have "f r \<noteq> r" using guested_changes [OF assms(6)] by (auto simp: f_def dest: arg_cong [of _ _ nr_status])
  then have rows: "sql_changed P f (t_nick (ns_db st)) \<noteq> 0"
    using sql_changed_row [OF assms(1) row, of P f] idr assms(6) by (auto simp: P_def)
  define db1 where "db1 = upd_nick P f (ns_db st)"
  have row1: "nick.row i (t_nick db1) = Some (f r)"
    using upd_nick_row [of f i P "ns_db st"] row idr assms(6) by (simp add: db1_def f_def P_def)
  define st1 where "st1 = ns_add_timeout now i TO_RELEASE (NSReleaseTimeout cfg) (say (Enforcer (u_nick u)) (st\<lparr>ns_db := db1\<rparr>))"
  have s1: "ns_db st1 = db1" "ns_cache st1 = ns_cache st" "ns_out st1 = ns_out st @ [Enforcer (u_nick u)]"
    by (simp_all add: st1_def ns_add_timeout_def split_beta ns_simps)
  define db2 where "db2 = upd_nick (\<lambda>r. nr_id r = i) (\<lambda>r. r\<lparr>nr_status := status_effect (AddStatus NS_KILL_HELD) (nr_status r)\<rparr>) db1"
  have row2: "nick.row i (t_nick db2) = Some ((f r)\<lparr>nr_status := nr_status (f r) OR NS_KILL_HELD\<rparr>)"
    using row1 idr by (simp add: db2_def upd_nick_row f_def)
  obtain c where c: "nickcache_status (AddStatus NS_KILL_HELD) (nick_select db2) now (ns_cache st) i = Some c"
    "nc_look c i = map_option (with_status (status_effect (AddStatus NS_KILL_HELD)) now) (view (nick_select db2) now (ns_cache st) i)"
    using nickcache_status_ok [OF assms(2), of i "AddStatus NS_KILL_HELD" "nick_select db2" now] assms(5)
    by (auto simp: i_def)
  have e: "status_effect (AddStatus NS_KILL_HELD) = (\<lambda>s. s OR NS_KILL_HELD)" by (simp add: fun_eq_iff)
  have st2: "add_nick_status NS_KILL_HELD now i st1 = Some (st1\<lparr>ns_db := db2, ns_cache := c\<rparr>)"
    using c(1) by (simp add: add_nick_status_def cache_status_def db_status_def s1 db2_def)
  define st0 where "st0 = say (Enforcer (u_nick u)) (st\<lparr>ns_db := db1\<rparr>)"
  have s0: "mine_ok st0" "mine_rep (ns_mine st0) as" "ns_timers st0 = ns_timers st" "ns_brk st0 = ns_brk st" "ns_mine st0 = ns_mine st"
    using assms(3) rep mine_ok_cong [of st0 st] by (simp_all add: st0_def ns_simps)
  have st1: "st1 = ns_add_timeout now i TO_RELEASE (NSReleaseTimeout cfg) st0" by (simp add: st1_def st0_def)
  have "ns_ok (st\<lparr>ns_cache := nickcache_init\<rparr>)"
    using assms(1,3) mine_ok_cong [of "st\<lparr>ns_cache := nickcache_init\<rparr>" st]
    by (intro ns_okI) (simp_all add: init_ok nc.in_sync_def init_look)
  then have "ns_ok (ns_add_timeout now i TO_RELEASE (NSReleaseTimeout cfg) (st\<lparr>ns_cache := nickcache_init\<rparr>))"
    by (rule ns_add_timeout_ok)
  then have m1: "mine_ok st1"
    by (auto simp: ns_ok_def mine_ok_def st1_def ns_add_timeout_def split_beta ns_simps)
  define nt where "nt = \<lparr>tm_id = ns_brk st, tm_settime = now, tm_timeout = now + NSReleaseTimeout cfg, tm_repeat = False,
        tm_code = to_code TO_RELEASE, tm_data = i\<rparr>"
  have add: "mine_rep (ns_mine st1) (ms_brk (ns_mine st) # as)"
    "timers_of i TO_COLLIDE (ms_brk (ns_mine st) # as) st1 = timers_of i TO_COLLIDE as st"
    "ns_timers st1 = nt # ns_timers st" "tm_id nt \<notin> timers_of i TO_COLLIDE as st"
    using ns_add_timeout_exact [OF s0(1,2), of TO_COLLIDE TO_RELEASE now i "NSReleaseTimeout cfg" i]
    unfolding st1 [symmetric] s0(3-5) nt_def by (simp_all add: timers_of_def s0(5))
  define ts where "ts = nt # filter (\<lambda>t. tm_id t \<notin> timers_of i TO_COLLIDE as st) (ns_timers st)"
  obtain ms bs where "del_ns_timeout i TO_COLLIDE (ns_mine st1) (ns_timers st1) = Some (ms, ts)"
    and del: "mine_rep ms bs" "\<forall>a\<in>set bs. \<not> mt_is i TO_COLLIDE (entry ms a)"
    using del_timeout_exact [OF m1 add(1), of i TO_COLLIDE] add(2-4) by (auto simp: ts_def)
  then have "cancel_user cfg now u st = Some (st1\<lparr>ns_db := db2, ns_cache := c, ns_mine := ms, ns_timers := ts\<rparr>)"
    using rows assms(5) st2
    by (simp add: cancel_user_def Let_def P_def f_def i_def st1_def db1_def ns_del_timeout_def)
  then show ?thesis
    using row2 s1(3) c(2) e del by (auto simp: i_def [symmetric] f_def view_def nick_select_def ts_def nt_def split: option.splits)
qed

section \<open>Expiry\<close>

lemma delnick_nicks:
  "t_nick (mysql_delnick i db) =
     sql_delete (\<lambda>r. nr_id r = i) (sql_update (\<lambda>r. nr_link r = i) (\<lambda>r. r\<lparr>nr_link := 0\<rparr>) (t_nick db))"
proof -
  have "t_nick (del_nicksuspend i db) = t_nick db"
    by (auto simp: del_nicksuspend_def Let_def split: list.splits prod.splits)
  then show ?thesis
    by (simp add: mysql_delnick_def mysql_delete_nick_def ns_mysql_remove_memos_def Let_def
        ns_mysql_remove_access_def mysql_remove_links_def os_mysql_remove_nick_def reg_simps)
qed

lemma delnicks_nicks:
  "nr_id ` set (t_nick (fold mysql_delnick is db)) = nr_id ` set (t_nick db) - set is"
proof (induction "is" arbitrary: db)
  case (Cons i "is")
  have "nr_id ` set (t_nick (mysql_delnick i db)) = nr_id ` set (t_nick db) - {i}"
  proof -
    have "nr_id ` set (sql_delete (\<lambda>r. nr_id r = i) t) = nr_id ` set t - {i}" for t :: "nick_row list"
      by (auto simp: sql_delete_set)
    moreover have "map nr_id (sql_update (\<lambda>r. nr_link r = i) (\<lambda>r. r\<lparr>nr_link := 0\<rparr>) (t_nick db)) = map nr_id (t_nick db)"
      by (rule sql_update_keys) simp
    then have "nr_id ` set (sql_update (\<lambda>r. nr_link r = i) (\<lambda>r. r\<lparr>nr_link := 0\<rparr>) (t_nick db)) = nr_id ` set (t_nick db)"
      by (metis set_map)
    ultimately show ?thesis unfolding delnick_nicks by simp
  qed
  then show ?case by (auto simp: Cons)
qed simp

text \<open>Only the link of a remaining row can change.\<close>

lemma delnicks_rows:
  "r \<in> set (t_nick (fold mysql_delnick is db)) \<Longrightarrow>
   \<exists>s\<in>set (t_nick db). r = s \<or> r = s\<lparr>nr_link := 0\<rparr>"
proof (induction "is" arbitrary: db)
  case (Cons i "is")
  then obtain s where s: "s \<in> set (t_nick (mysql_delnick i db))" "r = s \<or> r = s\<lparr>nr_link := 0\<rparr>" by auto
  then obtain q where "q \<in> set (t_nick db)" "s = q \<or> s = q\<lparr>nr_link := 0\<rparr>"
    unfolding delnick_nicks by (auto simp: sql_delete_set sql_update_set split: if_splits)
  then show ?case using s(2) by auto
qed auto

definition expire_rule :: "nscfg \<Rightarrow> int \<Rightarrow> nick_row \<Rightarrow> bool" where
  "expire_rule cfg now r \<longleftrightarrow>
     NSExpire cfg \<noteq> 0 \<and> \<not> opt_noexpire cfg \<and> \<not> protected r \<and>
     \<not> has (nr_status r) (NS_IDENTIFIED OR NS_RECOGNIZED) \<and>
     usub now (nr_last_seen r) \<ge>
       (if NSExtraGrace cfg \<and> usub now (nr_time_registered r) \<ge> NSExpire cfg * 3 div 2
        then NSExpire cfg * 3 else NSExpire cfg)"

lemma filter_ids:
  "distinct (map key t) \<Longrightarrow> r \<in> set t \<Longrightarrow> key r \<in> key ` set (filter P t) \<longleftrightarrow> P r"
  by (auto simp: distinct_map inj_on_def)

lemma expire_where_ids:
  "nr_id ` set (t_nick (expire_where P db)) = nr_id ` set (t_nick db) - nr_id ` set (filter P (t_nick db))"
  by (simp only: expire_where_def delnicks_nicks set_map)

lemma expire_where_rows:
  "r \<in> set (t_nick (expire_where P db)) \<Longrightarrow> \<exists>s\<in>set (t_nick db). r = s \<or> r = s\<lparr>nr_link := 0\<rparr>"
  unfolding expire_where_def by (rule delnicks_rows)

lemma expire_where_unique: "nick.unique (t_nick db) \<Longrightarrow> nick.unique (t_nick (expire_where P db))"
proof -
  have "nick.unique (t_nick (fold mysql_delnick is db))" if "nick.unique (t_nick db)" for "is" db
    using that by (induction "is" arbitrary: db) (simp_all add: delnick_nicks nick.unique_delete nick.unique_update)
  then show "nick.unique (t_nick db) \<Longrightarrow> nick.unique (t_nick (expire_where P db))"
    by (simp add: expire_where_def)
qed

lemma expire_where_id:
  assumes "nick.unique (t_nick db)" and "r \<in> set (t_nick db)"
  shows "nr_id r \<in> nr_id ` set (t_nick (expire_where P db)) \<longleftrightarrow> \<not> P r"
  using filter_ids [of nr_id "t_nick db" r P] assms unfolding expire_where_ids by (auto simp: nick.unique_def)

lemma expire_where_twice:
  assumes "nick.unique (t_nick db)" and "r \<in> set (t_nick db)" and "\<And>s. Q (s\<lparr>nr_link := 0\<rparr>) = Q s"
  shows "nr_id r \<in> nr_id ` set (t_nick (expire_where Q (expire_where P db))) \<longleftrightarrow> \<not> P r \<and> \<not> Q r"
proof (cases "P r")
  case True
  then have "nr_id r \<notin> nr_id ` set (t_nick (expire_where P db))" using expire_where_id [OF assms(1,2)] by simp
  then show ?thesis using True expire_where_ids [of Q "expire_where P db"] by blast
next
  case False
  then obtain s where s: "s \<in> set (t_nick (expire_where P db))" "nr_id s = nr_id r"
    using expire_where_id [OF assms(1,2), of P] by auto
  then obtain q where q: "q \<in> set (t_nick db)" "s = q \<or> s = q\<lparr>nr_link := 0\<rparr>" using expire_where_rows by blast
  then have "nr_id q = nr_id r" using s(2) by auto
  then have "q = r" using assms(1,2) q(1) by (auto simp: nick.unique_def distinct_map dest: inj_onD)
  then have "Q s = Q r" using q(2) assms(3) by auto
  then show ?thesis
    using expire_where_id [OF expire_where_unique [OF assms(1)] s(1), of Q] False s(2) by simp
qed

text \<open>
  C29: expiry removes exactly the nicknames that have not been seen for the configured time
  (three times as long for old ones when the extra grace is on), and never one that is forbidden,
  marked not to expire, suspended, owned by an operator, or in use by an identified or recognized user.
\<close>

theorem expire_nicks_correct:
  assumes "nick.unique (t_nick db)" and "r \<in> set (t_nick db)" and "NSExpire cfg \<ge> 0"
  shows "nr_id r \<in> nr_id ` set (t_nick (expire_nicks cfg now db)) \<longleftrightarrow> \<not> expire_rule cfg now r"
proof -
  define f where "f = (\<lambda>r :: nick_row. r\<lparr>nr_last_seen := now\<rparr>)"
  define here where "here = (\<lambda>r :: nick_row. has (nr_status r) (NS_IDENTIFIED OR NS_RECOGNIZED))"
  define db1 where "db1 = upd_nick here f db"
  define r1 where "r1 = (if here r then f r else r)"
  have u: "nick.unique (t_nick db1)" using assms(1) by (simp add: db1_def upd_nick_unique f_def)
  have in1: "r1 \<in> set (t_nick db1)" using assms(2) by (auto simp: db1_def r1_def upd_nick_def sql_update_set)
  have r1: "nr_id r1 = nr_id r" "nr_time_registered r1 = nr_time_registered r" "protected r1 = protected r"
    "nr_last_seen r1 = (if here r then now else nr_last_seen r)"
    by (simp_all add: r1_def f_def protected_def)
  have e: "expire_nicks cfg now db =
     (let old = NSExpire cfg * 3 div 2
      in if NSExpire cfg = 0 \<or> opt_noexpire cfg then db1
         else if NSExtraGrace cfg
         then expire_where (\<lambda>r. usub now (nr_time_registered r) < old \<and>
                  usub now (nr_last_seen r) \<ge> NSExpire cfg \<and> \<not> protected r)
                (expire_where (\<lambda>r. usub now (nr_time_registered r) \<ge> old \<and>
                  usub now (nr_last_seen r) \<ge> NSExpire cfg * 3 \<and> \<not> protected r) db1)
         else expire_where (\<lambda>r. usub now (nr_last_seen r) \<ge> NSExpire cfg \<and> \<not> protected r) db1)"
    by (simp add: expire_nicks_def db1_def here_def [abs_def] f_def [abs_def] Let_def)
  have now: "usub now now = 0" by (simp add: usub_def)
  show ?thesis
  proof (cases "NSExpire cfg = 0 \<or> opt_noexpire cfg")
    case True
    then show ?thesis
      using in1 r1(1) unfolding e by (auto simp: expire_rule_def Let_def intro: image_eqI [of _ _ r1])
  next
    case False
    show ?thesis
    proof (cases "NSExtraGrace cfg")
      case True
      have pl: "protected (s\<lparr>nr_link := 0\<rparr>) = protected s" for s by (simp add: protected_def)
      show ?thesis
        using False True r1 assms(3) now
          expire_where_twice [OF u in1, where Q = "\<lambda>r. usub now (nr_time_registered r) < NSExpire cfg * 3 div 2 \<and>
                  usub now (nr_last_seen r) \<ge> NSExpire cfg \<and> \<not> protected r"
            and P = "\<lambda>r. usub now (nr_time_registered r) \<ge> NSExpire cfg * 3 div 2 \<and>
                  usub now (nr_last_seen r) \<ge> NSExpire cfg * 3 \<and> \<not> protected r"]
        unfolding e Let_def expire_rule_def here_def [symmetric]
        by (auto simp: pl here_def split: if_splits)
    next
      case no: False
      show ?thesis
        using False no r1 assms(3) now
          expire_where_id [OF u in1, where P = "\<lambda>r. usub now (nr_last_seen r) \<ge> NSExpire cfg \<and> \<not> protected r"]
        unfolding e Let_def expire_rule_def
        by (auto simp: here_def split: if_splits)
    qed
  qed
qed

section \<open>Properties\<close>

definition sample_cfg :: nscfg where
  "sample_cfg = \<lparr>NSGuestNickPrefix = ''Guest'', NSReleaseTimeout = 60, NSExpire = 100, NSExtraGrace = False,
     NSSuspendGrace = 0, NoSplitRecovery = False, opt_noexpire = False\<rparr>"

definition sample_ns :: ns_state where
  "sample_ns = \<lparr>ns_db = empty_db\<lparr>t_nick := [(nick_of 1 ''alice'')\<lparr>nr_flags := NI_ENFORCE\<rparr>]\<rparr>,
     ns_cache = nickcache_init, ns_users = user_link (sample_user 5 ''alice'') (\<lambda>_. []), ns_mine = ms_empty,
     ns_timers = [], ns_brk = 1, ns_counter = 0, ns_out = []\<rparr>"

definition alice :: user where
  "alice = (sample_user 5 ''alice'')\<lparr>u_nick_id := 1, u_real_id := 1\<rparr>"

lemma sample_ns_ok: "ns_ok sample_ns"
  using ms_empty_rep
  by (auto simp: ns_ok_def mine_ok_def sample_ns_def init_ok nc.in_sync_def init_look nick.unique_def timers_ok_def)

lemma sample_ns_row [ns_simps]:
  "nick.row 1 (t_nick (ns_db sample_ns)) = Some ((nick_of 1 ''alice'')\<lparr>nr_flags := NI_ENFORCE\<rparr>)"
  by (simp add: sample_ns_def nick.row_def sql_first_def nick_of_def)

text \<open>
  C27: setting, adding and removing status bits of a nickname always returns and keeps the cache in
  agreement with the nick table, and reading the status gives what the table holds.
\<close>

theorem nick_status_in_sync:
  assumes "ns_ok st" and "i \<noteq> 0"
  shows "(\<exists>st1. set_nick_status s now i st = Some st1 \<and> ns_ok st1) \<and>
    (\<exists>st1. add_nick_status s now i st = Some st1 \<and> ns_ok st1) \<and>
    (\<exists>st1. remove_nick_status s now i st = Some st1 \<and> ns_ok st1) \<and>
    (\<forall>r. nick.row i (t_nick (ns_db st)) = Some r \<longrightarrow>
       (\<exists>st1. get_nick_status now i st = Some (nr_status r, st1) \<and> ns_ok st1))"
  using status_ok [OF assms, of s now] get_nick_status_ok [OF assms, of _ now] by blast

theorem nick_status_in_sync_witness:
  "\<exists>st1 st2. add_nick_status NS_IDENTIFIED 50 1 sample_ns = Some st1 \<and>
     get_nick_status 60 1 sample_ns = Some (0, st2) \<and> ns_ok st1 \<and> ns_ok st2"
  using nick_status_in_sync [OF sample_ns_ok, of 1 NS_IDENTIFIED 50]
    nick_status_in_sync [OF sample_ns_ok, of 1 NS_IDENTIFIED 60] sample_ns_row
  by (auto simp: nick_of_def)

text \<open>
  A collide timer never crashes for a nickname that is still registered, and forces the user
  off it exactly if the nickname is not identified and its user signed on before the timer was set.
\<close>

theorem timeout_collide_correct:
  assumes "ns_ok st" and "tm_data t \<noteq> 0" and "nick.row (tm_data t) (t_nick (ns_db st)) = Some r"
  shows "\<exists>st'. timeout_collide cfg now t st = Some st' \<and> ns_ok st' \<and>
    ns_out st' = ns_out st @ (if to_be_collided st t then forced_change cfg st (tm_data t) else [])"
  using timeout_collide_ok [OF assms, of cfg now] by blast

theorem timeout_collide_correct_witness:
  "\<exists>st'. timeout_collide sample_cfg 160 \<lparr>tm_id = 0, tm_settime = 100, tm_timeout = 160, tm_repeat = False,
      tm_code = 0, tm_data = 1\<rparr> sample_ns = Some st' \<and>
    ns_out st' = [ForceNickChangeNow 5 ''Guest0'', SvsNick ''alice'' ''Guest0'']"
proof -
  define t where "t = \<lparr>tm_id = 0, tm_settime = 100, tm_timeout = 160, tm_repeat = False, tm_code = 0, tm_data = 1\<rparr>"
  have "irc_stricmp ''alice'' ''alice'' = 0" by (simp add: irc_stricmp_zero cstring_def)
  then have f: "finduser (ns_users sample_ns) ''alice'' = Some (sample_user 5 ''alice'')"
    by (simp add: sample_ns_def finduser_def user_link_def)
  have "to_be_collided sample_ns t"
    using sample_ns_row f by (simp add: to_be_collided_def t_def has_def nick_of_def sample_user_def)
  moreover have "forced_change sample_cfg sample_ns 1 = [ForceNickChangeNow 5 ''Guest0'', SvsNick ''alice'' ''Guest0'']"
    using sample_ns_row f
    by (simp add: forced_change_def nick_of_def guest_nick_def sample_cfg_def sample_user_def)
      (simp add: sample_ns_def show_int_def digit_char_def showd.simps [of 0] char_of_eq_iff)
  ultimately show ?thesis
    using timeout_collide_correct [OF sample_ns_ok, of t _ sample_cfg 160] sample_ns_row
    by (auto simp: t_def sample_ns_def)
qed

text \<open>
  C11: running the timers of NickServ never touches freed memory: every timer that is due runs
  once, in list order, and leaves the list, every other stays, and the invariant is kept.
\<close>

theorem check_timeouts_correct:
  assumes "timer_inv (ts, st)"
  shows "\<exists>new st'. check_timeouts (run_timer cfg now) now ts st =
      Some (new @ filter (\<lambda>t. now < tm_timeout t \<or> tm_repeat t) ts, st', filter (\<lambda>t. \<not> now < tm_timeout t) ts) \<and>
    timer_inv (new @ filter (\<lambda>t. now < tm_timeout t \<or> tm_repeat t) ts, st')"
  by (rule ns_timer.check_timeouts_ok [OF assms])

theorem check_timeouts_correct_witness:
  "\<exists>ts st'. check_timeouts (run_timer sample_cfg 200) 200
     (ns_timers (ns_add_timeout 100 1 TO_COLLIDE 60 sample_ns)) (ns_add_timeout 100 1 TO_COLLIDE 60 sample_ns) =
     Some (ts, st', [\<lparr>tm_id = 1, tm_settime = 100, tm_timeout = 160, tm_repeat = False, tm_code = 0, tm_data = 1\<rparr>])"
proof -
  define st where "st = ns_add_timeout 100 1 TO_COLLIDE 60 sample_ns"
  have ts: "ns_timers st = [\<lparr>tm_id = 1, tm_settime = 100, tm_timeout = 160, tm_repeat = False, tm_code = 0, tm_data = 1\<rparr>]"
    "t_nick (ns_db st) = t_nick (ns_db sample_ns)"
    by (simp_all add: st_def ns_add_timeout_def add_ns_timeout_def add_timeout_def set_data_def Let_def
        sample_ns_def to_code_def)
  have "ns_ok st" unfolding st_def by (rule ns_add_timeout_ok [OF sample_ns_ok])
  then have "ns_ok (st\<lparr>ns_timers := ns_timers st\<rparr>)" by simp
  moreover have "\<forall>t\<in>set (ns_timers st). \<not> tm_repeat t \<and> tm_data t \<noteq> 0 \<and> tm_data t \<in> nr_id ` set (t_nick (ns_db st))"
    using ts by (simp add: sample_ns_def nick_of_def)
  ultimately have "timer_inv (ns_timers st, st)" unfolding timer_inv_def fst_conv snd_conv by blast
  from check_timeouts_correct [OF this, of sample_cfg 200] show ?thesis
    unfolding st_def [symmetric] using ts(1) by auto
qed

text \<open>
  C10: validating a user always returns and keeps the invariant; its answer is yes exactly if the
  nickname is neither forbidden nor suspended and either the stamp and mask of the user are those
  of the last identification or the user is on the access list of a nickname that is not secure.
  Exactly then is the nickname marked as identified or recognized afterwards.
\<close>

theorem validate_user_correct:
  assumes "ns_ok st" and "nick.row (u_real_id u) (t_nick (ns_db st)) = Some r" and "u_real_id u \<noteq> 0"
  shows "\<exists>st' r'. validate_user cfg now u st = Some (recognises cfg u (ns_db st), st') \<and> ns_ok st' \<and>
    nick.row (u_real_id u) (t_nick (ns_db st')) = Some r' \<and>
    (\<not> nick_forbidden (ns_db st) (u_real_id u) \<longrightarrow>
       has (nr_status r') (NS_IDENTIFIED OR NS_RECOGNIZED) = recognises cfg u (ns_db st))"
  by (rule validate_user_ok [OF assms])

lemma alice_unknown: "\<not> recognises sample_cfg alice (ns_db sample_ns)" "\<not> nick_forbidden (ns_db sample_ns) 1"
  by (simp_all add: recognises_def stamp_matches_def is_on_access_def sample_ns_def nick_of_def empty_db_def
      nick_forbidden_def has_def NI_ENFORCE_def NI_SUSPENDED_def)

theorem validate_user_correct_witness:
  "\<exists>st' r'. validate_user sample_cfg 50 alice sample_ns = Some (False, st') \<and>
     nick.row 1 (t_nick (ns_db st')) = Some r' \<and> \<not> has (nr_status r') (NS_IDENTIFIED OR NS_RECOGNIZED)"
proof -
  have a: "u_real_id alice = 1" by (simp add: alice_def)
  show ?thesis
    using validate_user_correct [OF sample_ns_ok, of alice _ sample_cfg 50] sample_ns_row alice_unknown
    unfolding a by simp blast
qed

text \<open>
  C28: when the user of a nickname leaves, the status of the nickname loses every temporary bit, the
  timers to force a nick change that NickServ has recorded for it are deleted, from its own list and from the list of
  timers that run, and no other timer is; after a forced change the nickname is held, an enforcer takes
  it, and the timer to release it is set.
\<close>

theorem cancel_user_correct:
  assumes "ns_ok st" and "nick.row (u_real_id u) (t_nick (ns_db st)) = Some r" and "u_real_id u \<noteq> 0"
    and "mine_rep (ns_mine st) as"
  shows "\<exists>st' bs r'. cancel_user cfg now u st = Some st' \<and>
    nick.row (u_real_id u) (t_nick (ns_db st')) = Some r' \<and>
    nr_status r' = (if has (nr_status r) NS_GUESTED then (nr_status r AND NOT NS_TEMPORARY) OR NS_KILL_HELD
                    else nr_status r AND NOT NS_TEMPORARY) \<and>
    ns_out st' = ns_out st @ (if has (nr_status r) NS_GUESTED then [Enforcer (u_nick u)] else []) \<and>
    ns_timers st' =
      (if has (nr_status r) NS_GUESTED
       then [\<lparr>tm_id = ns_brk st, tm_settime = now, tm_timeout = now + NSReleaseTimeout cfg, tm_repeat = False,
              tm_code = to_code TO_RELEASE, tm_data = u_real_id u\<rparr>] else []) @
      filter (\<lambda>t. tm_id t \<notin> timers_of (u_real_id u) TO_COLLIDE as st) (ns_timers st) \<and>
    mine_rep (ns_mine st') bs \<and> (\<forall>a\<in>set bs. \<not> mt_is (u_real_id u) TO_COLLIDE (entry (ns_mine st') a)) \<and>
    (\<not> has (nr_status r) NS_GUESTED \<longrightarrow> ns_ok st')"
  using cancel_user_plain [OF assms(1-3) _ assms(4), of cfg now]
    cancel_user_guested [of st u r as cfg now] assms unfolding ns_ok_def by (cases "has (nr_status r) NS_GUESTED") auto

text \<open>A nickname whose user is to be changed, and another one, with their timers.\<close>

definition threatened :: ns_state where
  "threatened = ns_add_timeout 40 1 TO_COLLIDE 60 (ns_add_timeout 40 2 TO_COLLIDE 60 sample_ns)"

theorem cancel_user_correct_witness:
  "\<exists>st' r'. cancel_user sample_cfg 50 alice threatened = Some st' \<and> map tm_data (ns_timers st') = [2] \<and>
     nick.row 1 (t_nick (ns_db st')) = Some r' \<and> nr_status r' = 0"
proof -
  have a: "u_real_id alice = 1" by (simp add: alice_def)
  have z: "nr_status ((nick_of 1 ''alice'')\<lparr>nr_flags := NI_ENFORCE\<rparr>) = 0" by (simp add: nick_of_def)
  have ok: "ns_ok threatened" unfolding threatened_def by (intro ns_add_timeout_ok sample_ns_ok)
  have db: "ns_db threatened = ns_db sample_ns" by (simp add: threatened_def ns_add_timeout_def split_beta)
  have m: "ns_mine sample_ns = ms_empty" "ns_timers sample_ns = []" "ns_brk sample_ns = 1" by (simp_all add: sample_ns_def)
  have rep: "mine_rep (ns_mine threatened) [1, 0]" "timers_of 1 TO_COLLIDE [1, 0] threatened = {2}"
    "map (\<lambda>t. (tm_id t, tm_data t)) (ns_timers threatened) = [(2, 1), (1, 2)]"
    by (auto simp: threatened_def ns_add_timeout_def add_ns_timeout_def add_timeout_def set_data_def m ms_empty_def
        mine_rep_def timers_of_def recorded_def entry_def mt_is_def)
  obtain s t where ts: "ns_timers threatened = [s, t]" "tm_id s = 2" "tm_data s = 1" "tm_id t = 1" "tm_data t = 2"
    using rep(3) by auto
  show ?thesis
    using cancel_user_correct [OF ok, of alice "(nick_of 1 ''alice'')\<lparr>nr_flags := NI_ENFORCE\<rparr>" "[1, 0]" sample_cfg 50]
      sample_ns_row z rep(1,2) ts
    unfolding a db by (auto simp: has_def)
qed

text \<open>
  On the way of a forced change only the table is cleared: a cached entry keeps showing the
  nickname as identified.
\<close>

lemma cancel_user_stale:
  assumes "ns_ok st" and "nick.row (u_real_id u) (t_nick (ns_db st)) = Some r" and "u_real_id u \<noteq> 0"
    and "has (nr_status r) NS_GUESTED" and "has (nr_status r) NS_IDENTIFIED"
    and "nc_look (ns_cache st) (u_real_id u) = Some d"
  shows "\<exists>st'. cancel_user cfg now u st = Some st' \<and> \<not> nc.in_sync (ns_cache st') (nick_select (ns_db st'))"
proof -
  obtain as where as: "mine_rep (ns_mine st) as" using assms(1) by (auto simp: ns_ok_def mine_ok_def)
  have ok: "nick.unique (t_nick (ns_db st))" "cache_ok (ns_cache st)" "mine_ok st" using assms(1) by (simp_all add: ns_ok_def)
  obtain st' r' where st': "cancel_user cfg now u st = Some st'"
    "nick.row (u_real_id u) (t_nick (ns_db st')) = Some r'"
    "nr_status r' = (nr_status r AND NOT NS_TEMPORARY) OR NS_KILL_HELD"
    "nc_look (ns_cache st') (u_real_id u) = Some (with_status (\<lambda>s. s OR NS_KILL_HELD) now d)"
    using cancel_user_guested [OF ok assms(2-4) as, of cfg now] unfolding assms(6) option.case option.map by blast
  have held: "\<not> has NS_KILL_HELD NS_IDENTIFIED" by (simp add: has_def NS_KILL_HELD_def NS_IDENTIFIED_def)
  have "cd_status d = nr_status r"
    using assms(1,2,3,6) by (auto simp: ns_ok_def nc.in_sync_def nick_select_def)
  then have "has (cd_status (with_status (\<lambda>s. s OR NS_KILL_HELD) now d)) NS_IDENTIFIED"
    using assms(5) by (simp add: with_status_def has_or)
  moreover have "\<not> has (nr_status r') NS_IDENTIFIED"
    using st'(3) held by (simp add: has_or ns_simps)
  ultimately have "cd_status (with_status (\<lambda>s. s OR NS_KILL_HELD) now d) \<noteq> nr_status r'" by auto
  then have "\<not> nc.in_sync (ns_cache st') (nick_select (ns_db st'))"
    using st'(2,4) assms(3) by (auto simp: nc.in_sync_def nick_select_def)
  then show ?thesis using st'(1) by blast
qed

theorem expire_nicks_correct_witness:
  "1 \<notin> nr_id ` set (t_nick (expire_nicks sample_cfg 1000 (ns_db sample_ns)))"
proof -
  have r: "(nick_of 1 ''alice'')\<lparr>nr_flags := NI_ENFORCE\<rparr> \<in> set (t_nick (ns_db sample_ns))"
    and u: "nick.unique (t_nick (ns_db sample_ns))"
    by (simp_all add: sample_ns_def nick.unique_def)
  have "expire_rule sample_cfg 1000 ((nick_of 1 ''alice'')\<lparr>nr_flags := NI_ENFORCE\<rparr>)"
    by (simp add: expire_rule_def sample_cfg_def nick_of_def usub_def protected_def has_def NI_ENFORCE_def
        NI_SUSPENDED_def NI_IRCOP_def)
  then show ?thesis
    using expire_nicks_correct [OF u r, of sample_cfg 1000] by (simp add: sample_cfg_def nick_of_def)
qed

end
