(* ===== verification/Access.thy ===== *)
theory Access
  imports NickServ
begin

text \<open>
  The rights of users on registered channels (src/src/chanserv.c) and of operators on the services
  (src/src/operserv.c): the levels a channel asks for, the level a user has, the decisions taken
  from the two, and the expiry of channels.  Looking at the status of a nickname goes through the
  cache and so returns a new state; None is a crash.
\<close>

named_theorems access_simps \<open>access decisions\<close>

definition CI_LEAVEOPS :: flags where "CI_LEAVEOPS = 0x00000020"

definition CA_INVITE :: nat where "CA_INVITE = 0"
definition CA_AKICK :: nat where "CA_AKICK = 1"
definition CA_SET :: nat where "CA_SET = 2"
definition CA_UNBAN :: nat where "CA_UNBAN = 3"
definition CA_AUTOOP :: nat where "CA_AUTOOP = 4"
definition CA_AUTODEOP :: nat where "CA_AUTODEOP = 5"
definition CA_AUTOVOICE :: nat where "CA_AUTOVOICE = 6"
definition CA_OPDEOP :: nat where "CA_OPDEOP = 7"
definition CA_ACCESS_LIST :: nat where "CA_ACCESS_LIST = 8"
definition CA_CLEAR :: nat where "CA_CLEAR = 9"
definition CA_NOJOIN :: nat where "CA_NOJOIN = 10"
definition CA_ACCESS_CHANGE :: nat where "CA_ACCESS_CHANGE = 11"
definition CA_MEMO_READ :: nat where "CA_MEMO_READ = 12"
definition CA_LEVEL_LIST :: nat where "CA_LEVEL_LIST = 13"
definition CA_LEVEL_CHANGE :: nat where "CA_LEVEL_CHANGE = 14"
definition CA_SYNC :: nat where "CA_SYNC = 15"
definition CA_MEMO_SEND :: nat where "CA_MEMO_SEND = 16"
definition CA_AKICK_LIST :: nat where "CA_AKICK_LIST = 17"

lemmas CA_defs = CA_INVITE_def CA_AKICK_def CA_SET_def CA_UNBAN_def CA_AUTOOP_def CA_AUTODEOP_def
  CA_AUTOVOICE_def CA_OPDEOP_def CA_ACCESS_LIST_def CA_CLEAR_def CA_NOJOIN_def CA_ACCESS_CHANGE_def
  CA_MEMO_READ_def CA_LEVEL_LIST_def CA_LEVEL_CHANGE_def CA_SYNC_def CA_MEMO_SEND_def CA_AKICK_LIST_def

definition ACCESS_FOUNDER :: int where "ACCESS_FOUNDER = 10000"
definition ACCESS_INVALID :: int where "ACCESS_INVALID = -10000"

text \<open>
  The configuration values the component reads, with the time the services were started and two
  messages of the language files, which depend on the nickname they are for.
\<close>

record cscfg =
  CSExpire :: int
  CSExtraGrace :: bool
  CSOpOper :: bool
  CSRestrictDelay :: int
  cs_noexpire :: bool
  start_time :: int
  ServicesRoot :: cstr
  ServerName :: cstr
  s_ChanServ :: cstr
  s_FloodServ :: cstr
  CSAkickOper :: bool
  CSAutokickReason :: cstr
  CSAccessMax :: nat
  may_not_be_used :: "nat \<Rightarrow> cstr"
  not_allowed_to_join :: "nat \<Rightarrow> cstr"

section \<open>Required levels\<close>

definition def_levels :: "(nat \<times> int) list" where
  "def_levels =
     [(CA_AUTOOP, 5), (CA_AUTOVOICE, 3), (CA_AUTODEOP, -1), (CA_NOJOIN, -2), (CA_INVITE, 5),
      (CA_AKICK, 10), (CA_SET, ACCESS_INVALID), (CA_CLEAR, ACCESS_INVALID), (CA_UNBAN, 5),
      (CA_OPDEOP, 5), (CA_ACCESS_LIST, 1), (CA_ACCESS_CHANGE, 10), (CA_MEMO_READ, 1),
      (CA_LEVEL_LIST, 1), (CA_LEVEL_CHANGE, ACCESS_INVALID), (CA_SYNC, 10), (CA_MEMO_SEND, 10),
      (CA_AKICK_LIST, 10)]"

fun lookup_levels :: "(nat \<times> int) list \<Rightarrow> nat \<Rightarrow> int" where
  "lookup_levels [] what = ACCESS_INVALID"
| "lookup_levels ((w, l) # ls) what = (if w = what then l else lookup_levels ls what)"

definition lookup_def_level :: "nat \<Rightarrow> int" where
  "lookup_def_level what = lookup_levels def_levels what"

definition get_level :: "sqldb \<Rightarrow> nat \<Rightarrow> nat \<Rightarrow> int" where
  "get_level db c what =
     (case filter (\<lambda>(c', w, l). c' = c \<and> w = what) (t_chanlevel db) of
        (c', w, l) # _ \<Rightarrow> l
      | [] \<Rightarrow> lookup_def_level what)"

definition get_chan_level :: "sqldb \<Rightarrow> nat \<Rightarrow> nat \<Rightarrow> int" where
  "get_chan_level db c what =
     (let level = lookup_def_level what
      in case filter (\<lambda>(c', w, l). c' = c \<and> w = what) (t_chanlevel db) of
           [] \<Rightarrow> level
         | (c', w, l) # _ \<Rightarrow> l)"

section \<open>Lookups\<close>

definition mysql_findchan :: "sqldb \<Rightarrow> cstr \<Rightarrow> nat" where
  "mysql_findchan db name =
     (case sql_first (\<lambda>r. sql_eq (cr_name r) name) (t_channel db) of None \<Rightarrow> 0 | Some r \<Rightarrow> cr_id r)"

definition mysql_findchanflags :: "sqldb \<Rightarrow> cstr \<Rightarrow> nat \<times> flags" where
  "mysql_findchanflags db name =
     (case sql_first (\<lambda>r. sql_eq (cr_name r) name) (t_channel db) of
        None \<Rightarrow> (0, 0)
      | Some r \<Rightarrow> (cr_id r, cr_flags r))"

text \<open>\<open>IF(nick.link_id, nick.link_id, nick.nick_id)\<close>\<close>

definition nick_master :: "nick_row \<Rightarrow> nat" where
  "nick_master r = (if nr_link r \<noteq> 0 then nr_link r else nr_id r)"

definition get_founder_master_id :: "sqldb \<Rightarrow> nat \<Rightarrow> nat" where
  "get_founder_master_id db c =
     (case concat (map (\<lambda>ch. filter (\<lambda>n. cr_founder ch = nr_id n \<and> cr_id ch = c) (t_nick db)) (t_channel db)) of
        [] \<Rightarrow> 0
      | n # _ \<Rightarrow> nick_master n)"

definition update_chan_last_used :: "int \<Rightarrow> nat \<Rightarrow> ns_state \<Rightarrow> ns_state" where
  "update_chan_last_used now c st =
     st\<lparr>ns_db := (ns_db st)\<lparr>t_channel :=
        sql_update (\<lambda>r. cr_id r = c) (\<lambda>r. r\<lparr>cr_last_used := now\<rparr>) (t_channel (ns_db st))\<rparr>\<rparr>"

section \<open>The level of a user\<close>

definition is_identified :: "user \<Rightarrow> nat \<Rightarrow> bool" where
  "is_identified u c \<longleftrightarrow> c \<in> set (u_founder_chans u)"

definition is_founder :: "int \<Rightarrow> user \<Rightarrow> nat \<Rightarrow> ns_state \<Rightarrow> (bool \<times> ns_state) option" where
  "is_founder now u c st =
     do {
       (own, st) \<leftarrow>
         (if u_nick_id u = get_founder_master_id (ns_db st) c
          then do {
            (idd, st) \<leftarrow> nick_identified now u st;
            if idd then Some (True, st)
            else do {
              (rec, st) \<leftarrow> nick_recognized now u st;
              Some (rec \<and> \<not> has (get_chan_flags (ns_db st) c) CI_SECURE, st)
            }
          }
          else Some (False, st));
       if own then Some (True, st) else Some (is_identified u c, st)
     }"

text \<open>The entries of the access list of a channel that belong to a nickname or one of its links.\<close>

definition chanaccess_rows :: "sqldb \<Rightarrow> nat \<Rightarrow> nat \<Rightarrow> access_row list" where
  "chanaccess_rows db c i =
     filter (\<lambda>a. ca_chan a = c \<and> (\<exists>n\<in>set (t_nick db). ca_nick a = nr_id n \<and> nick_master n = i))
       (t_chanaccess db)"

definition get_chanaccess_id :: "sqldb \<Rightarrow> nat \<Rightarrow> nat \<Rightarrow> nat" where
  "get_chanaccess_id db c i = (case chanaccess_rows db c i of [] \<Rightarrow> 0 | a # _ \<Rightarrow> ca_id a)"

definition get_chanaccess_level :: "int \<Rightarrow> nat \<Rightarrow> nat \<Rightarrow> ns_state \<Rightarrow> int \<times> ns_state" where
  "get_chanaccess_level now c i st =
     (let (k, level) = (case chanaccess_rows (ns_db st) c i of [] \<Rightarrow> (0, 0) | a # _ \<Rightarrow> (ca_id a, ca_level a))
      in (level,
          if k \<noteq> 0
          then st\<lparr>ns_db := (ns_db st)\<lparr>t_chanaccess :=
                 sql_update (\<lambda>a. ca_id a = k) (\<lambda>a. a\<lparr>ca_last_used := now\<rparr>) (t_chanaccess (ns_db st))\<rparr>\<rparr>
          else st))"

definition get_access :: "int \<Rightarrow> user \<Rightarrow> nat \<Rightarrow> ns_state \<Rightarrow> (int \<times> ns_state) option" where
  "get_access now u c st =
     (if c = 0 \<or> u_nick_id u = 0 then Some (0, st)
      else do {
        (founder, st) \<leftarrow> is_founder now u c st;
        if founder then Some (ACCESS_FOUNDER, st)
        else do {
          (idd, st) \<leftarrow> nick_identified now u st;
          if idd then Some (get_chanaccess_level now c (u_nick_id u) st)
          else do {
            (rec, st) \<leftarrow> nick_recognized now u st;
            if rec \<and> \<not> has (get_chan_flags (ns_db st) c) CI_SECURE
            then Some (get_chanaccess_level now c (u_nick_id u) st)
            else Some (0, st)
          }
        }
      })"

definition check_access :: "int \<Rightarrow> user \<Rightarrow> nat \<Rightarrow> nat \<Rightarrow> ns_state \<Rightarrow> (bool \<times> ns_state) option" where
  "check_access now u c what st =
     do {
       (user_level, st) \<leftarrow> get_access now u c st;
       if user_level = ACCESS_FOUNDER then Some (\<not> (what = CA_AUTODEOP \<or> what = CA_NOJOIN), st)
       else
         (let what_level = get_chan_level (ns_db st) c what
          in if what = CA_AUTODEOP \<and> user_level = 0 \<and> has (get_chan_flags (ns_db st) c) CI_SECUREOPS
             then Some (True, st)
             else if what_level = ACCESS_INVALID then Some (False, st)
             else if what = CA_AUTODEOP \<or> what = CA_NOJOIN then Some (user_level \<le> what_level, st)
             else Some (user_level \<ge> what_level, st))
     }"

section \<open>Operators\<close>

definition is_oper :: "userlist \<Rightarrow> cstr \<Rightarrow> bool" where
  "is_oper ul nick = (case finduser ul nick of None \<Rightarrow> False | Some u \<Rightarrow> has (u_mode u) UMODE_o)"

definition is_services_root :: "cscfg \<Rightarrow> int \<Rightarrow> user \<Rightarrow> ns_state \<Rightarrow> (bool \<times> ns_state) option" where
  "is_services_root cfg now u st =
     (if \<not> has (u_mode u) UMODE_o \<or> strlower (u_nick u) \<noteq> strlower (ServicesRoot cfg) then Some (False, st)
      else nick_identified now u st)"

definition is_services_admin :: "cscfg \<Rightarrow> int \<Rightarrow> user \<Rightarrow> ns_state \<Rightarrow> (bool \<times> ns_state) option" where
  "is_services_admin cfg now u st =
     (if \<not> has (u_mode u) UMODE_o then Some (False, st)
      else do {
        (idd, st) \<leftarrow> nick_identified now u st;
        if \<not> idd then Some (False, st)
        else do {
          (root, st) \<leftarrow> is_services_root cfg now u st;
          if root then Some (True, st)
          else Some (\<exists>j\<in>set (t_admin (ns_db st)). j = u_nick_id u \<or> j = u_real_id u, st)
        }
      })"

definition is_services_oper :: "cscfg \<Rightarrow> int \<Rightarrow> user \<Rightarrow> ns_state \<Rightarrow> (bool \<times> ns_state) option" where
  "is_services_oper cfg now u st =
     (if \<not> has (u_mode u) UMODE_o then Some (False, st)
      else do {
        (idd, st) \<leftarrow> nick_identified now u st;
        if \<not> idd then Some (False, st)
        else do {
          (admin, st) \<leftarrow> is_services_admin cfg now u st;
          if admin then Some (True, st)
          else Some (\<exists>j\<in>set (t_oper (ns_db st)). j = u_nick_id u \<or> j = u_real_id u, st)
        }
      })"

section \<open>Decisions on joining and on being opped\<close>

definition check_valid_op ::
  "cscfg \<Rightarrow> int \<Rightarrow> user \<Rightarrow> cstr \<Rightarrow> bool \<Rightarrow> ns_state \<Rightarrow> (bool \<times> ns_state) option" where
  "check_valid_op cfg now u chan serverop st =
     (let (c, flags) = mysql_findchanflags (ns_db st) chan;
          deop = say (ChanMode chan ''-o'' [u_nick u])
      in if c = 0 \<or> has flags CI_LEAVEOPS then Some (True, st)
         else do {
           (oper, st) \<leftarrow>
             (if CSOpOper cfg
              then (if is_oper (ns_users st) (u_nick u) then Some (True, st) else is_services_admin cfg now u st)
              else Some (False, st));
           if oper then Some (True, st)
           else if has flags CI_VERBOTEN then Some (False, deop st)
           else do {
             (bad, st) \<leftarrow>
               (if serverop \<and> now - start_time cfg \<ge> CSRestrictDelay cfg
                then do { (b, st) \<leftarrow> check_access now u c CA_AUTOOP st; Some (\<not> b, st) }
                else Some (False, st));
             if bad then Some (False, deop (say (ChanIsRegistered (u_uid u)) st))
             else do {
               (bad, st) \<leftarrow> check_access now u c CA_AUTODEOP st;
               if bad then Some (False, deop st) else Some (True, st)
             }
           }
         })"

definition check_should_op :: "int \<Rightarrow> user \<Rightarrow> cstr \<Rightarrow> ns_state \<Rightarrow> (bool \<times> ns_state) option" where
  "check_should_op now u chan st =
     (if hd0 chan = CHR ''+'' \<or> hd0 chan = CHR ''&'' then Some (False, st)
      else
        (let (c, flags) = mysql_findchanflags (ns_db st) chan
         in if c = 0 \<or> has flags CI_VERBOTEN then Some (False, st)
            else do {
              (ok, st) \<leftarrow> (if has flags CI_SECURE then nick_identified now u st else Some (True, st));
              if \<not> ok then Some (False, st)
              else do {
                (auto, st) \<leftarrow> check_access now u c CA_AUTOOP st;
                if auto
                then (if get_chan_level (ns_db st) c CA_AUTOOP > 0
                      then Some (True, update_chan_last_used now c (say (ChanMode chan ''+o'' [u_nick u]) st))
                      else Some (False, update_chan_last_used now c st))
                else do {
                  (level, st) \<leftarrow> get_access now u c st;
                  Some (False, if level > 0 then update_chan_last_used now c st else st)
                }
              }
            }))"

definition check_should_voice :: "int \<Rightarrow> user \<Rightarrow> cstr \<Rightarrow> ns_state \<Rightarrow> (bool \<times> ns_state) option" where
  "check_should_voice now u chan st =
     (if hd0 chan = CHR ''+'' \<or> hd0 chan = CHR ''&'' then Some (False, st)
      else
        (let (c, flags) = mysql_findchanflags (ns_db st) chan
         in if c = 0 \<or> has flags CI_VERBOTEN then Some (False, st)
            else do {
              (ok, st) \<leftarrow> (if has flags CI_SECURE then nick_identified now u st else Some (True, st));
              if \<not> ok then Some (False, st)
              else do {
                (auto, st) \<leftarrow> check_access now u c CA_AUTOVOICE st;
                if \<not> auto then Some (False, st)
                else if get_chan_level (ns_db st) c CA_AUTOVOICE > 0
                then Some (True, say (ChanMode chan ''+v'' [u_nick u]) st)
                else Some (False, update_chan_last_used now c st)
              }
            }))"

section \<open>Expiry of channels\<close>

definition chan_protected :: "chan_row \<Rightarrow> bool" where
  "chan_protected r \<longleftrightarrow> has (cr_flags r) (CI_VERBOTEN OR CI_NO_EXPIRE)"

definition expire_chans_where :: "(chan_row \<Rightarrow> bool) \<Rightarrow> sqldb \<Rightarrow> sqldb" where
  "expire_chans_where P db = fold mysql_delchan (map cr_id (filter P (t_channel db))) db"

definition expire_chans :: "cscfg \<Rightarrow> int \<Rightarrow> sqldb \<Rightarrow> sqldb" where
  "expire_chans cfg now db =
     (let old = CSExpire cfg * 3 div 2
      in if CSExpire cfg = 0 \<or> cs_noexpire cfg then db
         else if CSExtraGrace cfg
         then expire_chans_where (\<lambda>r. usub now (cr_time_registered r) < old \<and>
                  usub now (cr_last_used r) \<ge> CSExpire cfg \<and> \<not> chan_protected r)
                (expire_chans_where (\<lambda>r. usub now (cr_time_registered r) \<ge> old \<and>
                  usub now (cr_last_used r) \<ge> CSExpire cfg * 3 \<and> \<not> chan_protected r) db)
         else expire_chans_where (\<lambda>r. usub now (cr_last_used r) \<ge> CSExpire cfg \<and> \<not> chan_protected r) db)"


section \<open>Reasoning about results\<close>

text \<open>\<open>yields m Q\<close>: the computation returns, and \<open>Q\<close> holds of the answer and the state.\<close>

definition yields :: "('a \<times> 's) option \<Rightarrow> ('a \<Rightarrow> 's \<Rightarrow> bool) \<Rightarrow> bool" where
  "yields m Q \<longleftrightarrow> (case m of None \<Rightarrow> False | Some (x, s) \<Rightarrow> Q x s)"

lemma yields_Some [simp, access_simps]: "yields (Some (x, s)) Q = Q x s"
  by (simp add: yields_def)

lemma yields_bind [simp, access_simps]:
  "yields (Option.bind m (\<lambda>(x, s). f x s)) Q = yields m (\<lambda>x s. yields (f x s) Q)"
  by (cases m) (auto simp: yields_def)

lemma yields_if [simp, access_simps]: "yields (if b then m else n) Q = (if b then yields m Q else yields n Q)"
  by simp

lemma yields_mono: "yields m P \<Longrightarrow> (\<And>x s. P x s \<Longrightarrow> Q x s) \<Longrightarrow> yields m Q"
  by (auto simp: yields_def split: option.splits)

lemma yieldsD: "yields m Q \<Longrightarrow> \<exists>x s. m = Some (x, s) \<and> Q x s"
  by (auto simp: yields_def split: option.splits)

section \<open>What the decisions leave alone\<close>

text \<open>
  Looking at rights changes nothing but the cache, the columns that record the last use of an
  access entry and of a channel, and the messages sent.
\<close>

definition used_acc :: "access_row \<Rightarrow> access_row" where
  "used_acc a = a\<lparr>ca_last_used := 0\<rparr>"

definition used_chan :: "chan_row \<Rightarrow> chan_row" where
  "used_chan r = r\<lparr>cr_last_used := 0\<rparr>"

definition forget :: "sqldb \<Rightarrow> sqldb" where
  "forget db = db\<lparr>t_chanaccess := map used_acc (t_chanaccess db), t_channel := map used_chan (t_channel db)\<rparr>"

definition touched :: "sqldb \<Rightarrow> sqldb \<Rightarrow> bool" where
  "touched db db' \<longleftrightarrow> forget db' = forget db"

definition quiet :: "ns_msg list \<Rightarrow> ns_state \<Rightarrow> ns_state \<Rightarrow> bool" where
  "quiet ms st st' \<longleftrightarrow>
     ns_ok st' \<and> touched (ns_db st) (ns_db st') \<and> ns_users st' = ns_users st \<and> ns_mine st' = ns_mine st \<and>
     ns_timers st' = ns_timers st \<and> ns_brk st' = ns_brk st \<and> ns_counter st' = ns_counter st \<and>
     ns_out st' = ns_out st @ ms"

lemma touched_refl [simp]: "touched db db"
  by (simp add: touched_def)

lemma touched_trans: "touched a b \<Longrightarrow> touched b c \<Longrightarrow> touched a c"
  by (simp add: touched_def)

lemma quiet_refl [simp]: "ns_ok st \<Longrightarrow> quiet [] st st"
  by (simp add: quiet_def)

lemma quiet_trans: "quiet ms a b \<Longrightarrow> quiet ns b c \<Longrightarrow> quiet (ms @ ns) a c"
  unfolding quiet_def by (auto dest: touched_trans)

lemma quiet_ok: "quiet ms st st' \<Longrightarrow> ns_ok st'"
  by (simp add: quiet_def)

lemma quiet_touched: "quiet ms st st' \<Longrightarrow> touched (ns_db st) (ns_db st')"
  by (simp add: quiet_def)

lemma quiet_say: "quiet ms st st' \<Longrightarrow> quiet (ms @ [m]) st (say m st')"
  by (simp add: quiet_def ns_simps)

lemma quiet_users: "quiet ms st st' \<Longrightarrow> ns_users st' = ns_users st"
  by (simp add: quiet_def)

lemma touched_fields:
  assumes "touched db db'"
  shows "t_nick db' = t_nick db" "t_chanlevel db' = t_chanlevel db" "t_admin db' = t_admin db"
    "t_oper db' = t_oper db" "map used_acc (t_chanaccess db') = map used_acc (t_chanaccess db)"
    "map used_chan (t_channel db') = map used_chan (t_channel db)"
proof -
  have f: "forget db' = forget db" using assms by (simp add: touched_def)
  show "t_nick db' = t_nick db" using arg_cong [OF f, of t_nick] by (simp add: forget_def)
  show "t_chanlevel db' = t_chanlevel db" using arg_cong [OF f, of t_chanlevel] by (simp add: forget_def)
  show "t_admin db' = t_admin db" using arg_cong [OF f, of t_admin] by (simp add: forget_def)
  show "t_oper db' = t_oper db" using arg_cong [OF f, of t_oper] by (simp add: forget_def)
  show "map used_acc (t_chanaccess db') = map used_acc (t_chanaccess db)"
    using arg_cong [OF f, of t_chanaccess] by (simp add: forget_def)
  show "map used_chan (t_channel db') = map used_chan (t_channel db)"
    using arg_cong [OF f, of t_channel] by (simp add: forget_def)
qed

lemma touched_level: "touched db db' \<Longrightarrow> get_chan_level db' c what = get_chan_level db c what"
  by (simp add: touched_fields get_chan_level_def)

lemma find_used:
  assumes "\<And>r. P (used_chan r) = P r"
  shows "find P (map used_chan ch) = map_option used_chan (find P ch)"
  by (induction ch) (simp_all add: assms)

lemma used_chan_sel [simp]:
  "cr_id (used_chan r) = cr_id r" "cr_name (used_chan r) = cr_name r" "cr_flags (used_chan r) = cr_flags r"
  "cr_founder (used_chan r) = cr_founder r" "cr_time_registered (used_chan r) = cr_time_registered r"
  by (simp_all add: used_chan_def)

lemma used_acc_sel [simp]:
  "ca_id (used_acc a) = ca_id a" "ca_chan (used_acc a) = ca_chan a" "ca_nick (used_acc a) = ca_nick a"
  "ca_level (used_acc a) = ca_level a"
  by (simp_all add: used_acc_def)

lemma touched_find:
  assumes "touched db db'" and "\<And>r. P (used_chan r) = P r"
  shows "map_option used_chan (sql_first P (t_channel db')) = map_option used_chan (sql_first P (t_channel db))"
  unfolding sql_first_def
  using find_used [of P "t_channel db'"] find_used [of P "t_channel db"] touched_fields(6) [OF assms(1)] assms(2) by simp

lemma used_same:
  assumes "map_option used_chan x = map_option used_chan y" and "\<And>r. f (used_chan r) = f r"
  shows "(case x of None \<Rightarrow> z | Some r \<Rightarrow> f r) = (case y of None \<Rightarrow> z | Some r \<Rightarrow> f r)"
  using assms(1) assms(2) by (cases x; cases y) (auto, metis)

lemma touched_flags: "touched db db' \<Longrightarrow> get_chan_flags db' c = get_chan_flags db c"
  using used_same [OF touched_find, of db db' "\<lambda>r. cr_id r = c" cr_flags 0]
  by (simp add: get_chan_flags_def chan.row_def)

lemma touched_findchanflags: "touched db db' \<Longrightarrow> mysql_findchanflags db' name = mysql_findchanflags db name"
  using used_same [OF touched_find, of db db' "\<lambda>r. sql_eq (cr_name r) name" "\<lambda>r. (cr_id r, cr_flags r)" "(0, 0)"]
  by (simp add: mysql_findchanflags_def)

lemma touched_founder: "touched db db' \<Longrightarrow> get_founder_master_id db' c = get_founder_master_id db c"
proof -
  assume t: "touched db db'"
  define f where "f = (\<lambda>ch :: chan_row. filter (\<lambda>n. cr_founder ch = nr_id n \<and> cr_id ch = c) (t_nick db))"
  have "map f ch = map f (map used_chan ch)" for ch by (simp add: f_def)
  then have "map f (t_channel db') = map f (t_channel db)"
    using touched_fields(6) [OF t] by metis
  then show ?thesis using touched_fields(1) [OF t] by (simp add: get_founder_master_id_def f_def)
qed

lemma touched_rows: "touched db db' \<Longrightarrow> map used_acc (chanaccess_rows db' c i) = map used_acc (chanaccess_rows db c i)"
proof -
  assume t: "touched db db'"
  have *: "map used_acc (filter P xs) = filter P (map used_acc xs)" if "\<And>a. P (used_acc a) = P a" for P xs
    using that by (simp add: filter_map o_def)
  show ?thesis
    using touched_fields(1,5) [OF t] by (simp add: chanaccess_rows_def *)
qed


section \<open>The rights themselves\<close>

text \<open>
  What the tables say of the rights of a user, with no regard to the cache: whether the user's
  nickname is identified or recognized, whether the user is a founder, the level, and whether
  the level falls in a category.
\<close>

definition known :: "sqldb \<Rightarrow> user \<Rightarrow> bool" where
  "known db u \<longleftrightarrow> u_real_id u = 0 \<or> nick.row (u_real_id u) (t_nick db) \<noteq> None"

definition stat :: "sqldb \<Rightarrow> user \<Rightarrow> flags" where
  "stat db u =
     (if u_real_id u = 0 then 0
      else case nick.row (u_real_id u) (t_nick db) of None \<Rightarrow> 0 | Some r \<Rightarrow> nr_status r)"

definition identified :: "sqldb \<Rightarrow> user \<Rightarrow> bool" where
  "identified db u \<longleftrightarrow> has (stat db u) NS_IDENTIFIED"

definition trusted :: "sqldb \<Rightarrow> user \<Rightarrow> nat \<Rightarrow> bool" where
  "trusted db u c \<longleftrightarrow>
     identified db u \<or> (has (stat db u) NS_RECOGNIZED \<and> \<not> has (get_chan_flags db c) CI_SECURE)"

definition founder_of :: "sqldb \<Rightarrow> user \<Rightarrow> nat \<Rightarrow> bool" where
  "founder_of db u c \<longleftrightarrow>
     (u_nick_id u = get_founder_master_id db c \<and> trusted db u c) \<or> c \<in> set (u_founder_chans u)"

definition listed_level :: "sqldb \<Rightarrow> nat \<Rightarrow> nat \<Rightarrow> int" where
  "listed_level db c i = (case chanaccess_rows db c i of [] \<Rightarrow> 0 | a # _ \<Rightarrow> ca_level a)"

definition access_of :: "sqldb \<Rightarrow> user \<Rightarrow> nat \<Rightarrow> int" where
  "access_of db u c =
     (if c = 0 \<or> u_nick_id u = 0 then 0
      else if founder_of db u c then ACCESS_FOUNDER
      else if trusted db u c then listed_level db c (u_nick_id u)
      else 0)"

definition allowed :: "sqldb \<Rightarrow> user \<Rightarrow> nat \<Rightarrow> nat \<Rightarrow> bool" where
  "allowed db u c what \<longleftrightarrow>
     (if what = CA_AUTODEOP \<or> what = CA_NOJOIN
      then access_of db u c \<noteq> ACCESS_FOUNDER \<and>
           ((get_chan_level db c what \<noteq> ACCESS_INVALID \<and> access_of db u c \<le> get_chan_level db c what) \<or>
            (what = CA_AUTODEOP \<and> access_of db u c = 0 \<and> has (get_chan_flags db c) CI_SECUREOPS))
      else access_of db u c = ACCESS_FOUNDER \<or>
           (get_chan_level db c what \<noteq> ACCESS_INVALID \<and> get_chan_level db c what \<le> access_of db u c))"

definition admin_of :: "cscfg \<Rightarrow> sqldb \<Rightarrow> user \<Rightarrow> bool" where
  "admin_of cfg db u \<longleftrightarrow>
     has (u_mode u) UMODE_o \<and> identified db u \<and>
     (strlower (u_nick u) = strlower (ServicesRoot cfg) \<or> u_nick_id u \<in> set (t_admin db) \<or> u_real_id u \<in> set (t_admin db))"

lemma quiet_facts:
  assumes "quiet ms s0 st"
  shows "get_chan_flags (ns_db st) c = get_chan_flags (ns_db s0) c"
    "get_chan_level (ns_db st) c what = get_chan_level (ns_db s0) c what"
    "get_founder_master_id (ns_db st) c = get_founder_master_id (ns_db s0) c"
    "mysql_findchanflags (ns_db st) name = mysql_findchanflags (ns_db s0) name"
    "t_nick (ns_db st) = t_nick (ns_db s0)" "t_admin (ns_db st) = t_admin (ns_db s0)"
    "t_oper (ns_db st) = t_oper (ns_db s0)" "ns_users st = ns_users s0"
    "map used_acc (chanaccess_rows (ns_db st) c i) = map used_acc (chanaccess_rows (ns_db s0) c i)"
  using quiet_touched [OF assms] quiet_users [OF assms]
  by (simp_all add: touched_flags touched_level touched_founder touched_findchanflags touched_fields touched_rows)

lemma get_status_yields:
  assumes "quiet ms s0 st" and "known (ns_db s0) u" and "u_real_id u \<noteq> 0"
    and "\<And>st'. quiet ms s0 st' \<Longrightarrow> Q (stat (ns_db s0) u) st'"
  shows "yields (get_nick_status now (u_real_id u) st) Q"
proof -
  obtain r where r: "nick.row (u_real_id u) (t_nick (ns_db st)) = Some r" "stat (ns_db s0) u = nr_status r"
    using assms(2,3) quiet_facts(5) [OF assms(1)] by (auto simp: known_def stat_def)
  obtain c where "get_nick_status now (u_real_id u) st = Some (nr_status r, st\<lparr>ns_cache := c\<rparr>)"
    "ns_ok (st\<lparr>ns_cache := c\<rparr>)"
    using get_nick_status_ok [OF quiet_ok [OF assms(1)] assms(3) r(1)] by blast
  moreover from this(2) have "quiet ms s0 (st\<lparr>ns_cache := c\<rparr>)" using assms(1) by (simp add: quiet_def)
  ultimately show ?thesis using assms(4) r(2) by simp
qed

lemma yields_map: "yields (map_option (\<lambda>(x, s). (f x, s)) m) Q = yields m (\<lambda>x s. Q (f x) s)"
  by (cases m) (auto simp: yields_def)

lemma stat_unreal: "u_real_id u = 0 \<Longrightarrow> stat db u = 0"
  by (simp add: stat_def)

lemma has_0 [simp]: "\<not> has 0 m"
  by (simp add: has_def)

lemma nick_identified_yields:
  assumes "quiet ms s0 st" and "known (ns_db s0) u" and "\<And>st'. quiet ms s0 st' \<Longrightarrow> Q (identified (ns_db s0) u) st'"
  shows "yields (nick_identified now u st) Q"
  using assms get_status_yields [OF assms(1,2)]
  by (cases "u_real_id u = 0") (auto simp: nick_identified_def yields_map identified_def stat_unreal)

lemma has_either: "has f (a OR b) \<longleftrightarrow> has f a \<or> has f b"
proof -
  have "f AND (a OR b) = (f AND a) OR (f AND b)" by (simp add: bit.conj_disj_distrib)
  then show ?thesis by (auto simp: has_def or_eq_0_iff)
qed

lemma nick_recognized_yields:
  assumes "quiet ms s0 st" and "known (ns_db s0) u"
    and "\<And>st'. quiet ms s0 st' \<Longrightarrow> Q (identified (ns_db s0) u \<or> has (stat (ns_db s0) u) NS_RECOGNIZED) st'"
  shows "yields (nick_recognized now u st) Q"
  using assms get_status_yields [OF assms(1,2)]
  by (cases "u_real_id u = 0") (auto simp: nick_recognized_def yields_map identified_def stat_unreal has_either)

lemma is_founder_yields:
  assumes "quiet ms s0 st" and "known (ns_db s0) u" and "\<And>st'. quiet ms s0 st' \<Longrightarrow> Q (founder_of (ns_db s0) u c) st'"
  shows "yields (is_founder now u c st) Q"
  unfolding is_founder_def
  using assms quiet_facts(1,3)
  by (auto simp: founder_of_def trusted_def is_identified_def
      intro!: nick_identified_yields nick_recognized_yields)


lemma map_used_update: "map used_acc (sql_update P (\<lambda>a. a\<lparr>ca_last_used := now\<rparr>) t) = map used_acc t"
  by (simp add: sql_update_def used_acc_def)

lemma map_used_chan_update: "map used_chan (sql_update P (\<lambda>r. r\<lparr>cr_last_used := now\<rparr>) t) = map used_chan t"
  by (simp add: sql_update_def used_chan_def)

text \<open>A change of the tables that the cache and the timers do not look at.\<close>

lemma ns_ok_db:
  assumes "ns_ok st" and n: "t_nick db' = t_nick (ns_db st)"
  shows "ns_ok (st\<lparr>ns_db := db'\<rparr>)"
proof -
  have "nick_select db' = nick_select (ns_db st)" by (simp add: nick_select_def n fun_eq_iff)
  moreover have "mine_ok (st\<lparr>ns_db := db'\<rparr>) = mine_ok st" by (rule mine_ok_cong) simp_all
  ultimately show ?thesis using assms unfolding ns_ok_def by simp
qed

lemma quiet_db:
  assumes "quiet ms s0 st" and "touched (ns_db st) db'"
  shows "quiet ms s0 (st\<lparr>ns_db := db'\<rparr>)"
  using assms touched_trans [OF quiet_touched [OF assms(1)] assms(2)]
    ns_ok_db [OF quiet_ok [OF assms(1)] touched_fields(1) [OF assms(2)]]
  by (simp add: quiet_def)

lemma update_chan_last_used_quiet: "quiet ms s0 st \<Longrightarrow> quiet ms s0 (update_chan_last_used now c st)"
  unfolding update_chan_last_used_def
  by (erule quiet_db) (simp add: touched_def forget_def map_used_chan_update)

lemma get_chanaccess_level_quiet:
  assumes "quiet ms s0 st"
  shows "fst (get_chanaccess_level now c i st) = listed_level (ns_db s0) c i \<and>
    quiet ms s0 (snd (get_chanaccess_level now c i st))"
proof -
  have m: "map used_acc (chanaccess_rows (ns_db st) c i) = map used_acc (chanaccess_rows (ns_db s0) c i)"
    by (rule quiet_facts(9) [OF assms])
  have q: "quiet ms s0 (st\<lparr>ns_db := (ns_db st)\<lparr>t_chanaccess :=
      sql_update P (\<lambda>a. a\<lparr>ca_last_used := now\<rparr>) (t_chanaccess (ns_db st))\<rparr>\<rparr>)" for P
    using assms by (rule quiet_db) (simp add: touched_def forget_def map_used_update)
  have "listed_level (ns_db s0) c i = (case map used_acc (chanaccess_rows (ns_db s0) c i) of [] \<Rightarrow> 0 | a # _ \<Rightarrow> ca_level a)"
    by (simp add: listed_level_def split: list.split)
  then have l: "(case chanaccess_rows (ns_db st) c i of [] \<Rightarrow> 0 | a # _ \<Rightarrow> ca_level a) = listed_level (ns_db s0) c i"
    unfolding m [symmetric] by (simp split: list.split)
  then show ?thesis
    using assms q by (auto simp: get_chanaccess_level_def Let_def split: list.splits)
qed

lemma get_access_yields:
  assumes "quiet ms s0 st" and "known (ns_db s0) u" and Q: "\<And>st'. quiet ms s0 st' \<Longrightarrow> Q (access_of (ns_db s0) u c) st'"
  shows "yields (get_access now u c st) Q"
proof (cases "c = 0 \<or> u_nick_id u = 0")
  case True
  then show ?thesis using Q [OF assms(1)] by (simp add: get_access_def access_of_def)
next
  case False
  have level: "yields (Some (get_chanaccess_level now c (u_nick_id u) st')) Q"
    if "quiet ms s0 st'" "\<not> founder_of (ns_db s0) u c" "trusted (ns_db s0) u c" for st'
    using get_chanaccess_level_quiet [OF that(1), of now c "u_nick_id u"] Q that(2,3) False
    by (cases "get_chanaccess_level now c (u_nick_id u) st'") (simp add: access_of_def)
  have nothing: "Q 0 st'" if "quiet ms s0 st'" "\<not> founder_of (ns_db s0) u c" "\<not> trusted (ns_db s0) u c" for st'
    using Q [OF that(1)] that(2,3) False by (simp add: access_of_def)
  show ?thesis
    unfolding get_access_def using assms False
    by (auto simp: quiet_facts(1) trusted_def access_of_def intro!: is_founder_yields nick_identified_yields
        nick_recognized_yields level nothing)
qed

lemma check_access_yields:
  assumes "quiet ms s0 st" and "known (ns_db s0) u" and "\<And>st'. quiet ms s0 st' \<Longrightarrow> Q (allowed (ns_db s0) u c what) st'"
  shows "yields (check_access now u c what st) Q"
proof -
  have F: "ACCESS_FOUNDER \<noteq> 0" by (simp add: ACCESS_FOUNDER_def)
  show ?thesis
    unfolding check_access_def yields_bind
  proof (rule get_access_yields [OF assms(1,2)])
    fix st' assume q: "quiet ms s0 st'"
    define a where "a = access_of (ns_db s0) u c"
    define l where "l = get_chan_level (ns_db s0) c what"
    have "(if a = ACCESS_FOUNDER then Some (\<not> (what = CA_AUTODEOP \<or> what = CA_NOJOIN), st')
       else let what_level = l
            in if what = CA_AUTODEOP \<and> a = 0 \<and> has (get_chan_flags (ns_db s0) c) CI_SECUREOPS
               then Some (True, st')
               else if what_level = ACCESS_INVALID then Some (False, st')
               else if what = CA_AUTODEOP \<or> what = CA_NOJOIN then Some (a \<le> what_level, st')
               else Some (what_level \<le> a, st')) = Some (allowed (ns_db s0) u c what, st')"
      using F by (cases "what = CA_AUTODEOP \<or> what = CA_NOJOIN"; cases "a = ACCESS_FOUNDER"; cases "l = ACCESS_INVALID")
        (simp_all add: allowed_def Let_def flip: a_def l_def, blast)
    then show "yields (if access_of (ns_db s0) u c = ACCESS_FOUNDER then Some (\<not> (what = CA_AUTODEOP \<or> what = CA_NOJOIN), st')
       else let what_level = get_chan_level (ns_db st') c what
            in if what = CA_AUTODEOP \<and> access_of (ns_db s0) u c = 0 \<and> has (get_chan_flags (ns_db st') c) CI_SECUREOPS
               then Some (True, st')
               else if what_level = ACCESS_INVALID then Some (False, st')
               else if what = CA_AUTODEOP \<or> what = CA_NOJOIN then Some (access_of (ns_db s0) u c \<le> what_level, st')
               else Some (what_level \<le> access_of (ns_db s0) u c, st')) Q"
      unfolding quiet_facts(1,2) [OF q] a_def [symmetric] l_def [symmetric] using assms(3) [OF q] by simp
  qed
qed

lemma check_access_ok:
  assumes "ns_ok st" and "known (ns_db st) u"
  shows "\<exists>st'. check_access now u c what st = Some (allowed (ns_db st) u c what, st') \<and> quiet [] st st'"
proof -
  have "yields (check_access now u c what st) (\<lambda>b st'. b = allowed (ns_db st) u c what \<and> quiet [] st st')"
    using quiet_refl [OF assms(1)] assms(2) by (rule check_access_yields) simp
  then show ?thesis by (auto dest!: yieldsD)
qed

lemma either_in: "(\<exists>j\<in>set l. j = a \<or> j = b) \<longleftrightarrow> a \<in> set l \<or> b \<in> set l"
  by auto

lemma is_services_root_yields:
  assumes "quiet ms s0 st" and "known (ns_db s0) u"
    and "\<And>st'. quiet ms s0 st' \<Longrightarrow>
      Q (has (u_mode u) UMODE_o \<and> strlower (u_nick u) = strlower (ServicesRoot cfg) \<and> identified (ns_db s0) u) st'"
  shows "yields (is_services_root cfg now u st) Q"
  unfolding is_services_root_def using assms
  by (auto intro!: nick_identified_yields)

lemma is_services_admin_yields:
  assumes "quiet ms s0 st" and "known (ns_db s0) u" and Q: "\<And>st'. quiet ms s0 st' \<Longrightarrow> Q (admin_of cfg (ns_db s0) u) st'"
  shows "yields (is_services_admin cfg now u st) Q"
  unfolding is_services_admin_def using assms
  by (cases "strlower (u_nick u) = strlower (ServicesRoot cfg)")
    (auto simp: admin_of_def quiet_facts(6) either_in intro!: nick_identified_yields is_services_root_yields)

lemma is_services_oper_yields:
  assumes "quiet ms s0 st" and "known (ns_db s0) u"
    and Q: "\<And>st'. quiet ms s0 st' \<Longrightarrow> Q (admin_of cfg (ns_db s0) u \<or>
      (has (u_mode u) UMODE_o \<and> identified (ns_db s0) u \<and>
       (u_nick_id u \<in> set (t_oper (ns_db s0)) \<or> u_real_id u \<in> set (t_oper (ns_db s0))))) st'"
  shows "yields (is_services_oper cfg now u st) Q"
  unfolding is_services_oper_def using assms
  by (auto simp: admin_of_def quiet_facts(7) either_in intro!: nick_identified_yields is_services_admin_yields)


section \<open>Who is opped\<close>

definition may_be_opped :: "cscfg \<Rightarrow> int \<Rightarrow> user \<Rightarrow> cstr \<Rightarrow> bool \<Rightarrow> ns_state \<Rightarrow> bool" where
  "may_be_opped cfg now u chan serverop st \<longleftrightarrow>
     (let db = ns_db st; c = fst (mysql_findchanflags db chan); fl = snd (mysql_findchanflags db chan)
      in c = 0 \<or> has fl CI_LEAVEOPS \<or>
         (CSOpOper cfg \<and> (is_oper (ns_users st) (u_nick u) \<or> admin_of cfg db u)) \<or>
         (\<not> has fl CI_VERBOTEN \<and>
          (serverop \<and> now - start_time cfg \<ge> CSRestrictDelay cfg \<longrightarrow> allowed db u c CA_AUTOOP) \<and>
          \<not> allowed db u c CA_AUTODEOP))"

lemma check_valid_op_yields:
  assumes "ns_ok st" and "known (ns_db st) u"
  shows "yields (check_valid_op cfg now u chan serverop st)
    (\<lambda>b st'. b = may_be_opped cfg now u chan serverop st \<and>
       (\<exists>ms. quiet ms st st' \<and> (if b then ms = [] else ms \<noteq> [] \<and> last ms = ChanMode chan ''-o'' [u_nick u])))"
proof -
  obtain c fl where cf: "mysql_findchanflags (ns_db st) chan = (c, fl)" by fastforce
  define deop where "deop = ChanMode chan ''-o'' [u_nick u]"
  define ok where "ok = may_be_opped cfg now u chan serverop st"
  define Q where "Q = (\<lambda>b st'. b = ok \<and> (\<exists>ms. quiet ms st st' \<and> (if b then ms = [] else ms \<noteq> [] \<and> last ms = deop)))"
  define exempt where "exempt \<longleftrightarrow> CSOpOper cfg \<and> (is_oper (ns_users st) (u_nick u) \<or> admin_of cfg (ns_db st) u)"
  define by_server where "by_server \<longleftrightarrow> serverop \<and> now - start_time cfg \<ge> CSRestrictDelay cfg"
  have ok: "ok \<longleftrightarrow> c = 0 \<or> has fl CI_LEAVEOPS \<or> exempt \<or>
      (\<not> has fl CI_VERBOTEN \<and> (by_server \<longrightarrow> allowed (ns_db st) u c CA_AUTOOP) \<and> \<not> allowed (ns_db st) u c CA_AUTODEOP)"
    by (simp add: ok_def may_be_opped_def Let_def cf exempt_def by_server_def)
  have yes: "Q True st'" if "quiet [] st st'" "ok" for st' using that by (auto simp: Q_def)
  have no: "Q False (say deop st')" if "quiet ms st st'" "\<not> ok" for st' ms
    using that quiet_say [OF that(1), of deop] by (auto simp: Q_def)
  have autodeop: "yields (check_access now u c CA_AUTODEOP st')
      (\<lambda>x s. yields (if x then Some (False, say deop s) else Some (True, s)) Q)"
    if "quiet [] st st'" "ok \<longleftrightarrow> \<not> allowed (ns_db st) u c CA_AUTODEOP" for st'
    by (rule check_access_yields [OF that(1) assms(2)]) (use that(2) yes no in \<open>simp add: yields_def\<close>)
  have serverop: "yields (if by_server then check_access now u c CA_AUTOOP st' \<bind> (\<lambda>(b, st). Some (\<not> b, st))
         else Some (False, st'))
      (\<lambda>bad st. yields (if bad then Some (False, say deop (say (ChanIsRegistered (u_uid u)) st))
         else check_access now u c CA_AUTODEOP st \<bind>
           (\<lambda>(bad, st). if bad then Some (False, say deop st) else Some (True, st))) Q)"
    if q: "quiet [] st st'" and "\<not> has fl CI_VERBOTEN" and "\<not> (c = 0 \<or> has fl CI_LEAVEOPS)" "\<not> exempt" for st'
  proof (cases by_server)
    case False
    then show ?thesis using autodeop [OF q] that(2-4) ok by simp
  next
    case True
    show ?thesis
      unfolding if_P [OF True] yields_bind yields_Some
    proof (rule check_access_yields [OF q assms(2)])
      fix s assume s: "quiet [] st s"
      show "yields (if \<not> allowed (ns_db st) u c CA_AUTOOP then Some (False, say deop (say (ChanIsRegistered (u_uid u)) s))
         else check_access now u c CA_AUTODEOP s \<bind>
           (\<lambda>(bad, st). if bad then Some (False, say deop st) else Some (True, st))) Q"
        using no [OF quiet_say [OF s]] autodeop [OF s] ok that(2-4) True
        by (cases "allowed (ns_db st) u c CA_AUTOOP") simp_all
    qed
  qed
  define rest where "rest = (\<lambda>oper st. if oper then Some (True, st) else if has fl CI_VERBOTEN then Some (False, say deop st)
      else (if by_server then check_access now u c CA_AUTOOP st \<bind> (\<lambda>(b, st). Some (\<not> b, st)) else Some (False, st)) \<bind>
        (\<lambda>(bad, st). if bad then Some (False, say deop (say (ChanIsRegistered (u_uid u)) st))
           else check_access now u c CA_AUTODEOP st \<bind>
             (\<lambda>(bad, st). if bad then Some (False, say deop st) else Some (True, st))))"
  have rest: "yields (rest exempt st') Q" if "quiet [] st st'" "\<not> (c = 0 \<or> has fl CI_LEAVEOPS)" for st'
    unfolding rest_def using yes [OF that(1)] no [OF that(1)] serverop [OF that(1)] that(2) ok
    by (cases exempt; cases "has fl CI_VERBOTEN") (simp_all only: yields_bind yields_Some if_True if_False, simp_all)
  have "yields (check_valid_op cfg now u chan serverop st) Q"
    unfolding check_valid_op_def cf Let_def prod.case deop_def [symmetric] by_server_def [symmetric] rest_def [symmetric]
    using quiet_refl [OF assms(1)] rest yes ok is_services_admin_yields [OF _ assms(2)]
    by (auto simp: exempt_def)
  then show ?thesis unfolding Q_def ok_def deop_def .
qed


definition auto_applies :: "user \<Rightarrow> cstr \<Rightarrow> nat \<Rightarrow> sqldb \<Rightarrow> bool" where
  "auto_applies u chan what db \<longleftrightarrow>
     hd0 chan \<noteq> CHR ''+'' \<and> hd0 chan \<noteq> CHR ''&'' \<and>
     (let c = fst (mysql_findchanflags db chan); fl = snd (mysql_findchanflags db chan)
      in c \<noteq> 0 \<and> \<not> has fl CI_VERBOTEN \<and> (has fl CI_SECURE \<longrightarrow> identified db u) \<and>
         allowed db u c what \<and> get_chan_level db c what > 0)"

lemma secure_check_yields:
  assumes "quiet ms s0 st" and "known (ns_db s0) u"
    and "\<And>st'. quiet ms s0 st' \<Longrightarrow> Q (has fl CI_SECURE \<longrightarrow> identified (ns_db s0) u) st'"
  shows "yields (if has fl CI_SECURE then nick_identified now u st else Some (True, st)) Q"
  using assms nick_identified_yields [OF assms(1,2)] by (cases "has fl CI_SECURE") auto

text \<open>Rights depend only on what a decision leaves alone.\<close>

lemma touched_access:
  assumes "touched db db'"
  shows "stat db' u = stat db u" "access_of db' u c = access_of db u c" "allowed db' u c what = allowed db u c what"
    "auto_applies u name what db' = auto_applies u name what db"
proof -
  have s: "stat db' u = stat db u" using touched_fields(1) [OF assms] by (simp add: stat_def)
  have m: "map used_acc (chanaccess_rows db' c (u_nick_id u)) = map used_acc (chanaccess_rows db c (u_nick_id u))" for c
    by (rule touched_rows [OF assms])
  have "listed_level d c i = (case map used_acc (chanaccess_rows d c i) of [] \<Rightarrow> 0 | a # _ \<Rightarrow> ca_level a)" for d c i
    by (simp add: listed_level_def split: list.split)
  then have "listed_level db' c (u_nick_id u) = listed_level db c (u_nick_id u)" for c using m by simp
  then have a: "access_of db' u c = access_of db u c" for c
    using s touched_flags [OF assms] touched_founder [OF assms]
    by (simp add: access_of_def founder_of_def trusted_def identified_def)
  then have l: "allowed db' u c what = allowed db u c what" for c what
    using touched_level [OF assms] touched_flags [OF assms] by (simp add: allowed_def)
  show "stat db' u = stat db u" by (rule s)
  show "access_of db' u c = access_of db u c" by (rule a)
  show "allowed db' u c what = allowed db u c what" by (rule l)
  show "auto_applies u name what db' = auto_applies u name what db"
    using s l touched_level [OF assms] touched_findchanflags [OF assms]
    by (simp add: auto_applies_def identified_def Let_def)
qed

text \<open>What the two routines share: the checks in front of the body.\<close>

lemma auto_guard_yields:
  assumes "ns_ok st" and "known (ns_db st) u" and cf: "mysql_findchanflags (ns_db st) chan = (c, fl)"
    and no: "\<not> auto_applies u chan what (ns_db st) \<Longrightarrow> (\<And>s. quiet [] st s \<Longrightarrow> Q False s)"
    and body: "\<And>s. quiet [] st s \<Longrightarrow>
      auto_applies u chan what (ns_db st) \<longleftrightarrow> allowed (ns_db st) u c what \<and> get_chan_level (ns_db st) c what > 0 \<Longrightarrow>
      yields (body s) Q"
  shows "yields (if hd0 chan = CHR ''+'' \<or> hd0 chan = CHR ''&'' then Some (False, st)
      else if c = 0 \<or> has fl CI_VERBOTEN then Some (False, st)
      else (if has fl CI_SECURE then nick_identified now u st else Some (True, st)) \<bind>
        (\<lambda>(ok, st). if \<not> ok then Some (False, st) else body st)) Q"
proof -
  have q: "quiet [] st st" by (rule quiet_refl [OF assms(1)])
  have rest: "yields (if \<not> (has fl CI_SECURE \<longrightarrow> identified (ns_db st) u) then Some (False, s) else body s) Q"
    if "hd0 chan \<noteq> CHR ''+''" "hd0 chan \<noteq> CHR ''&''" "c \<noteq> 0" "\<not> has fl CI_VERBOTEN" "quiet [] st s" for s
    using no [OF _ that(5)] body [OF that(5)] that(1-4)
    by (cases "has fl CI_SECURE \<longrightarrow> identified (ns_db st) u") (simp_all add: auto_applies_def Let_def cf)
  have secure: "yields ((if has fl CI_SECURE then nick_identified now u st else Some (True, st)) \<bind>
        (\<lambda>(ok, st). if \<not> ok then Some (False, st) else body st)) Q"
    if "hd0 chan \<noteq> CHR ''+''" "hd0 chan \<noteq> CHR ''&''" "c \<noteq> 0" "\<not> has fl CI_VERBOTEN"
    unfolding yields_bind by (rule secure_check_yields [OF q assms(2)]) (rule rest [OF that])
  have skip: "\<not> auto_applies u chan what (ns_db st)"
    if "(hd0 chan = CHR ''+'' \<or> hd0 chan = CHR ''&'') \<or> c = 0 \<or> has fl CI_VERBOTEN"
    using that by (auto simp: auto_applies_def Let_def cf)
  show ?thesis
  proof (cases "(hd0 chan = CHR ''+'' \<or> hd0 chan = CHR ''&'') \<or> c = 0 \<or> has fl CI_VERBOTEN")
    case True
    then show ?thesis using no [OF skip [OF True] q]
      by (cases "hd0 chan = CHR ''+'' \<or> hd0 chan = CHR ''&''") simp_all
  next
    case False
    then have f: "\<not> (hd0 chan = CHR ''+'' \<or> hd0 chan = CHR ''&'')" "\<not> (c = 0 \<or> has fl CI_VERBOTEN)" by auto
    show ?thesis
      unfolding if_not_P [OF f(1)] if_not_P [OF f(2)] by (rule secure) (use f in auto)
  qed
qed

lemma check_should_op_yields:
  assumes "ns_ok st" and "known (ns_db st) u"
  shows "yields (check_should_op now u chan st)
    (\<lambda>b st'. b = auto_applies u chan CA_AUTOOP (ns_db st) \<and>
       quiet (if b then [ChanMode chan ''+o'' [u_nick u]] else []) st st')"
proof -
  obtain c fl where cf: "mysql_findchanflags (ns_db st) chan = (c, fl)" by fastforce
  define Q where "Q = (\<lambda>b st'. b = auto_applies u chan CA_AUTOOP (ns_db st) \<and>
       quiet (if b then [ChanMode chan ''+o'' [u_nick u]] else []) st st')"
  have no: "Q False st'" "Q False (update_chan_last_used now c st')"
    if "\<not> auto_applies u chan CA_AUTOOP (ns_db st)" "quiet [] st st'" for st'
    using that by (simp_all add: Q_def update_chan_last_used_quiet)
  have yes: "Q True (update_chan_last_used now c (say (ChanMode chan ''+o'' [u_nick u]) st'))"
    if "quiet [] st st'" "auto_applies u chan CA_AUTOOP (ns_db st)" for st'
    using that quiet_say [OF that(1), of "ChanMode chan ''+o'' [u_nick u]"]
    by (simp add: Q_def update_chan_last_used_quiet)
  show ?thesis
    unfolding check_should_op_def cf Let_def prod.case Q_def [symmetric]
  proof (rule auto_guard_yields [where what = CA_AUTOOP and Q = Q, OF assms cf no(1)], assumption, assumption)
    fix s assume q: "quiet [] st s" and *: "auto_applies u chan CA_AUTOOP (ns_db st) \<longleftrightarrow>
        allowed (ns_db st) u c CA_AUTOOP \<and> get_chan_level (ns_db st) c CA_AUTOOP > 0"
    show "yields (check_access now u c CA_AUTOOP s \<bind>
        (\<lambda>(auto, st). if auto
           then if 0 < get_chan_level (ns_db st) c CA_AUTOOP
                then Some (True, update_chan_last_used now c (say (ChanMode chan ''+o'' [u_nick u]) st))
                else Some (False, update_chan_last_used now c st)
           else get_access now u c st \<bind>
             (\<lambda>(level, st). Some (False, if 0 < level then update_chan_last_used now c st else st)))) Q"
      unfolding yields_bind using * yes no
      by (intro check_access_yields [OF q assms(2)])
        (auto simp: quiet_facts(2) intro!: get_access_yields [OF _ assms(2)])
  qed
qed

lemma check_should_voice_yields:
  assumes "ns_ok st" and "known (ns_db st) u"
  shows "yields (check_should_voice now u chan st)
    (\<lambda>b st'. b = auto_applies u chan CA_AUTOVOICE (ns_db st) \<and>
       quiet (if b then [ChanMode chan ''+v'' [u_nick u]] else []) st st')"
proof -
  obtain c fl where cf: "mysql_findchanflags (ns_db st) chan = (c, fl)" by fastforce
  define Q where "Q = (\<lambda>b st'. b = auto_applies u chan CA_AUTOVOICE (ns_db st) \<and>
       quiet (if b then [ChanMode chan ''+v'' [u_nick u]] else []) st st')"
  have no: "Q False st'" "Q False (update_chan_last_used now c st')"
    if "\<not> auto_applies u chan CA_AUTOVOICE (ns_db st)" "quiet [] st st'" for st'
    using that by (simp_all add: Q_def update_chan_last_used_quiet)
  have yes: "Q True (say (ChanMode chan ''+v'' [u_nick u]) st')"
    if "quiet [] st st'" "auto_applies u chan CA_AUTOVOICE (ns_db st)" for st'
    using that quiet_say [OF that(1), of "ChanMode chan ''+v'' [u_nick u]"] by (simp add: Q_def)
  show ?thesis
    unfolding check_should_voice_def cf Let_def prod.case Q_def [symmetric]
  proof (rule auto_guard_yields [where what = CA_AUTOVOICE and Q = Q, OF assms cf no(1)], assumption, assumption)
    fix s assume q: "quiet [] st s" and *: "auto_applies u chan CA_AUTOVOICE (ns_db st) \<longleftrightarrow>
        allowed (ns_db st) u c CA_AUTOVOICE \<and> get_chan_level (ns_db st) c CA_AUTOVOICE > 0"
    show "yields (check_access now u c CA_AUTOVOICE s \<bind>
        (\<lambda>(auto, st). if \<not> auto then Some (False, st)
           else if 0 < get_chan_level (ns_db st) c CA_AUTOVOICE
           then Some (True, say (ChanMode chan ''+v'' [u_nick u]) st)
           else Some (False, update_chan_last_used now c st))) Q"
      unfolding yields_bind using * yes no
      by (intro check_access_yields [OF q assms(2)]) (auto simp: quiet_facts(2))
  qed
qed


section \<open>Which channels expire\<close>

definition chan_expired :: "cscfg \<Rightarrow> int \<Rightarrow> chan_row \<Rightarrow> bool" where
  "chan_expired cfg now r \<longleftrightarrow>
     CSExpire cfg \<noteq> 0 \<and> \<not> cs_noexpire cfg \<and>
     has (cr_flags r) CI_VERBOTEN = False \<and> has (cr_flags r) CI_NO_EXPIRE = False \<and>
     usub now (cr_last_used r) \<ge>
       (if CSExtraGrace cfg \<and> usub now (cr_time_registered r) \<ge> CSExpire cfg * 3 div 2
        then CSExpire cfg * 3 else CSExpire cfg)"

lemma unique_same: "chan.unique t \<Longrightarrow> r \<in> set t \<Longrightarrow> s \<in> set t \<Longrightarrow> cr_id r = cr_id s \<Longrightarrow> r = s"
  using chan.row_in [of t "cr_id s" r] chan.row_in [of t "cr_id s" s] by auto

lemma expire_chans_where_rows:
  assumes "chan.unique (t_channel db)"
  shows "t_channel (expire_chans_where P db) = filter (\<lambda>r. \<not> P r) (t_channel db)"
  unfolding expire_chans_where_def fold_delchan_fields sql_delete_def
  by (rule filter_cong) (use unique_same [OF assms] in force)+

lemma chan_protected_iff: "chan_protected r \<longleftrightarrow> has (cr_flags r) CI_VERBOTEN \<or> has (cr_flags r) CI_NO_EXPIRE"
  by (simp add: chan_protected_def has_either)

text \<open>
  C25: expiry keeps, in their order, exactly the channels that are forbidden, marked not to
  expire, or used within the configured time, which is three times as long for a channel
  that has been registered for one and a half times that time under the extra grace.
\<close>

theorem expire_chans_correct:
  assumes "chan.unique (t_channel db)"
  shows "t_channel (expire_chans cfg now db) = filter (\<lambda>r. \<not> chan_expired cfg now r) (t_channel db)"
proof (cases "CSExpire cfg = 0 \<or> cs_noexpire cfg")
  case True
  then have "\<not> chan_expired cfg now r" for r by (auto simp: chan_expired_def)
  then show ?thesis using True by (auto simp: expire_chans_def)
next
  case on: False
  show ?thesis
  proof (cases "CSExtraGrace cfg")
    case False
    then show ?thesis
      using on by (auto simp: expire_chans_def expire_chans_where_rows [OF assms] chan_expired_def chan_protected_iff
          intro!: filter_cong)
  next
    case True
    define P where "P = (\<lambda>r. usub now (cr_time_registered r) \<ge> CSExpire cfg * 3 div 2 \<and>
        usub now (cr_last_used r) \<ge> CSExpire cfg * 3 \<and> \<not> chan_protected r)"
    have "chan.unique (t_channel (expire_chans_where P db))"
      using chan.unique_delete [OF assms, of P] by (simp add: expire_chans_where_rows [OF assms] sql_delete_def)
    then show ?thesis
      using True on unfolding expire_chans_def Let_def P_def [symmetric]
      by (auto simp: expire_chans_where_rows expire_chans_where_rows [OF assms] P_def chan_expired_def
          chan_protected_iff intro!: filter_cong)
  qed
qed

definition sample_cs :: cscfg where
  "sample_cs = \<lparr>CSExpire = 100, CSExtraGrace = True, CSOpOper = True, CSRestrictDelay = 30,
     cs_noexpire = False, start_time = 0, ServicesRoot = ''root'',
     ServerName = ''services.example.org'', s_ChanServ = ''ChanServ'', s_FloodServ = ''FloodServ'',
     CSAkickOper = False, CSAutokickReason = ''User has been banned'', CSAccessMax = 3,
     may_not_be_used = (\<lambda>_. ''This channel may not be used.''),
     not_allowed_to_join = (\<lambda>_. ''You are not permitted.'')\<rparr>"

theorem expire_chans_correct_witness:
  "t_channel (expire_chans sample_cs 1000 (founder_db
     [(chan_of 1 ''#old'' 1 0)\<lparr>cr_time_registered := 0, cr_last_used := 800\<rparr>,
      (chan_of 2 ''#new'' 1 0)\<lparr>cr_time_registered := 880, cr_last_used := 890\<rparr>])) =
     [(chan_of 1 ''#old'' 1 0)\<lparr>cr_time_registered := 0, cr_last_used := 800\<rparr>]"
  by (subst expire_chans_correct)
    (simp_all add: founder_db_def chan.unique_def chan_of_def chan_expired_def sample_cs_def usub_def)


section \<open>Properties\<close>

definition access_entry :: "nat \<Rightarrow> nat \<Rightarrow> nat \<Rightarrow> int \<Rightarrow> access_row" where
  "access_entry k c i level =
     \<lparr>ca_id = k, ca_chan = c, ca_idx = 1, ca_level = level, ca_nick = i, ca_added = 0,
      ca_last_modified = 0, ca_last_used = 0, ca_memo_read = 0, ca_added_by = [], ca_modified_by = []\<rparr>"

text \<open>The nickname alice, recognized, on the access list of a channel with the given flags.\<close>

definition sample_chan :: "status \<Rightarrow> flags \<Rightarrow> ns_state" where
  "sample_chan s f = (the (set_nick_status s 10 1 sample_ns))
     \<lparr>ns_db := (ns_db (the (set_nick_status s 10 1 sample_ns)))
        \<lparr>t_channel := [(chan_of 7 ''#a'' 2 0)\<lparr>cr_flags := f\<rparr>], t_chanaccess := [access_entry 3 7 1 5]\<rparr>\<rparr>"

lemma sample_chan_ok: "ns_ok (sample_chan s f)"
  using status_ok(1) [OF sample_ns_ok, of 1 s 10]
  by (auto simp: sample_chan_def intro!: ns_ok_db)

lemma sample_chan_db:
  "t_nick (ns_db (sample_chan s f)) = [(nick_of 1 ''alice'')\<lparr>nr_flags := NI_ENFORCE, nr_status := s\<rparr>]"
  "t_channel (ns_db (sample_chan s f)) = [(chan_of 7 ''#a'' 2 0)\<lparr>cr_flags := f\<rparr>]"
  "t_chanaccess (ns_db (sample_chan s f)) = [access_entry 3 7 1 5]"
  "t_chanlevel (ns_db (sample_chan s f)) = []"
  "ns_out (sample_chan s f) = []"
proof -
  obtain c where "set_nick_status s 10 1 sample_ns = Some (db_status (SetStatus s) 1 sample_ns\<lparr>ns_cache := c\<rparr>)"
    using status_ok(1) [OF sample_ns_ok, of 1 s 10] by auto
  then show "t_nick (ns_db (sample_chan s f)) = [(nick_of 1 ''alice'')\<lparr>nr_flags := NI_ENFORCE, nr_status := s\<rparr>]"
    "t_channel (ns_db (sample_chan s f)) = [(chan_of 7 ''#a'' 2 0)\<lparr>cr_flags := f\<rparr>]"
    "t_chanaccess (ns_db (sample_chan s f)) = [access_entry 3 7 1 5]"
    "t_chanlevel (ns_db (sample_chan s f)) = []"
    "ns_out (sample_chan s f) = []"
    by (simp_all add: sample_chan_def db_status_def upd_nick_def sql_update_def sample_ns_def nick_of_def empty_db_def)
qed

lemma alice_stat: "stat (ns_db (sample_chan s f)) alice = s" "known (ns_db (sample_chan s f)) alice"
  "access_of (ns_db (sample_chan s f)) alice 7 =
     (if has s NS_IDENTIFIED \<or> has s NS_RECOGNIZED \<and> \<not> has f CI_SECURE then 5 else 0)"
  by (simp_all add: stat_def known_def alice_def sample_chan_db nick.row_def sql_first_def nick_of_def sample_user_def
      access_of_def founder_of_def get_founder_master_id_def chan_of_def nick_master_def identified_def
      trusted_def listed_level_def chanaccess_rows_def access_entry_def get_chan_flags_def chan.row_def)

text \<open>
  C16: \<open>check_access\<close> always returns; its answer is the right that the tables give the user, whatever the
  cache holds, and nothing changes but the cache and the times of last use.
\<close>

theorem check_access_correct:
  assumes "ns_ok st" and "known (ns_db st) u"
  shows "\<exists>st'. check_access now u c what st = Some (allowed (ns_db st) u c what, st') \<and> quiet [] st st'"
  by (rule check_access_ok [OF assms])

theorem check_access_correct_witness:
  "\<exists>st'. check_access 20 alice 7 CA_AUTOOP (sample_chan NS_RECOGNIZED 0) = Some (True, st')"
  using check_access_correct [OF sample_chan_ok, of NS_RECOGNIZED 0 alice 20 7 CA_AUTOOP]
  by (simp add: alice_stat allowed_def get_chan_level_def sample_chan_db lookup_def_level_def def_levels_def
      CA_defs ACCESS_INVALID_def has_def NS_RECOGNIZED_def) blast

text \<open>
  C24: on a secure channel a user who is not identified has no right that takes a positive level,
  unless the user has given the password of the channel, and is not let keep ops if only
  users with access may be opped.
\<close>

theorem secure_channel_access:
  assumes "ns_ok st" and "known (ns_db st) u" and "has (get_chan_flags (ns_db st) c) CI_SECURE"
    and "\<not> identified (ns_db st) u" and "c \<notin> set (u_founder_chans u)"
    and "what \<noteq> CA_AUTODEOP" and "what \<noteq> CA_NOJOIN" and "get_chan_level (ns_db st) c what > 0"
  shows "(\<exists>st'. check_access now u c what st = Some (False, st')) \<and>
    (has (get_chan_flags (ns_db st) c) CI_SECUREOPS \<longrightarrow>
       (\<exists>st'. check_access now u c CA_AUTODEOP st = Some (True, st')))"
proof -
  have "access_of (ns_db st) u c = 0"
    using assms(3-5) by (simp add: access_of_def founder_of_def trusted_def)
  moreover have "(0 :: int) \<noteq> ACCESS_FOUNDER" by (simp add: ACCESS_FOUNDER_def)
  ultimately have "\<not> allowed (ns_db st) u c what"
    "has (get_chan_flags (ns_db st) c) CI_SECUREOPS \<Longrightarrow> allowed (ns_db st) u c CA_AUTODEOP"
    using assms(6-8) by (simp_all add: allowed_def)
  moreover have "\<exists>st'. check_access now u c w st = Some (allowed (ns_db st) u c w, st')" for w
    using check_access_ok [OF assms(1,2)] by blast
  ultimately show ?thesis by metis
qed

theorem secure_channel_access_witness:
  "\<exists>st'. check_access 20 alice 7 CA_AUTOOP (sample_chan NS_RECOGNIZED CI_SECURE) = Some (False, st')"
proof -
  have "has (get_chan_flags (ns_db (sample_chan NS_RECOGNIZED CI_SECURE)) 7) CI_SECURE"
    by (simp add: get_chan_flags_def chan.row_def sql_first_def sample_chan_db chan_of_def has_def CI_SECURE_def)
  moreover have "\<not> identified (ns_db (sample_chan NS_RECOGNIZED CI_SECURE)) alice"
    by (simp add: identified_def alice_stat has_def NS_RECOGNIZED_def NS_IDENTIFIED_def)
  moreover have "7 \<notin> set (u_founder_chans alice)" by (simp add: alice_def sample_user_def)
  moreover have "get_chan_level (ns_db (sample_chan NS_RECOGNIZED CI_SECURE)) 7 CA_AUTOOP > 0"
    by (simp add: get_chan_level_def sample_chan_db lookup_def_level_def def_levels_def)
  moreover have "CA_AUTOOP \<noteq> CA_AUTODEOP" "CA_AUTOOP \<noteq> CA_NOJOIN" by (simp_all add: CA_defs)
  ultimately show ?thesis
    using secure_channel_access [OF sample_chan_ok alice_stat(2)] by blast
qed

text \<open>
  C22: a user is deopped exactly if the user may not be opped: the channel is registered and does
  not leave ops alone, the user is not an exempt operator, and the channel is forbidden, or a
  server gave the ops to a user without the right to them, or the user is to be deopped; and
  the MODE command is then the last thing sent.
\<close>

theorem check_valid_op_correct:
  assumes "ns_ok st" and "known (ns_db st) u"
  shows "\<exists>st' ms. check_valid_op cfg now u chan serverop st =
      Some (may_be_opped cfg now u chan serverop st, st') \<and> quiet ms st st' \<and>
    (if may_be_opped cfg now u chan serverop st then ms = []
     else ms \<noteq> [] \<and> last ms = ChanMode chan ''-o'' [u_nick u])"
  using yieldsD [OF check_valid_op_yields [OF assms, of cfg now chan serverop]] by auto

theorem check_valid_op_correct_witness:
  "\<exists>st'. check_valid_op (sample_cs\<lparr>CSOpOper := False\<rparr>) 20 alice ''#a'' False (sample_chan 0 (CI_SECURE OR CI_SECUREOPS)) =
     Some (False, st') \<and> ns_out st' \<noteq> [] \<and> last (ns_out st') = ChanMode ''#a'' ''-o'' [''alice'']"
proof -
  define f where "f = CI_SECURE OR CI_SECUREOPS"
  have f: "has f CI_SECUREOPS" "\<not> has f CI_LEAVEOPS"
    by (simp_all add: f_def has_def CI_SECURE_def CI_SECUREOPS_def CI_LEAVEOPS_def)
  have "\<not> may_be_opped (sample_cs\<lparr>CSOpOper := False\<rparr>) 20 alice ''#a'' False (sample_chan 0 f)"
    using f by (simp add: may_be_opped_def Let_def mysql_findchanflags_def sample_chan_db sql_first_def
        chan_of_def sql_eq_def sample_cs_def allowed_def alice_stat ACCESS_FOUNDER_def get_chan_flags_def chan.row_def)
  moreover have "u_nick alice = ''alice''" by (simp add: alice_def sample_user_def)
  ultimately show ?thesis
    using check_valid_op_correct [where st = "sample_chan 0 f" and u = alice and cfg = "sample_cs\<lparr>CSOpOper := False\<rparr>" and
        now = 20 and chan = "''#a''" and serverop = False, OF sample_chan_ok alice_stat(2)]
    unfolding f_def [symmetric] by (auto simp: quiet_def sample_chan_db)
qed

text \<open>
  C23: a user who joins is opped (and voiced) exactly if the channel is registered and not
  forbidden, the user is identified if the channel is secure, and the user has the level
  that a positive setting of the channel asks for; nothing else is sent.  That holds of IRC operators and
  services administrators too, whatever the option CSOpOper says: the configuration file documents it
  as giving them ops on any channel they join, but the code only asks for it when it takes ops away.
\<close>

theorem auto_op_voice_correct:
  assumes "ns_ok st" and "known (ns_db st) u"
  shows "(\<exists>st'. check_should_op now u chan st = Some (auto_applies u chan CA_AUTOOP (ns_db st), st') \<and>
      quiet (if auto_applies u chan CA_AUTOOP (ns_db st) then [ChanMode chan ''+o'' [u_nick u]] else []) st st') \<and>
    (\<exists>st'. check_should_voice now u chan st = Some (auto_applies u chan CA_AUTOVOICE (ns_db st), st') \<and>
      quiet (if auto_applies u chan CA_AUTOVOICE (ns_db st) then [ChanMode chan ''+v'' [u_nick u]] else []) st st')"
  using yieldsD [OF check_should_op_yields [OF assms, of now chan]]
    yieldsD [OF check_should_voice_yields [OF assms, of now chan]] by auto

theorem auto_op_voice_correct_witness:
  "\<exists>st'. check_should_op 20 alice ''#a'' (sample_chan NS_IDENTIFIED CI_SECURE) = Some (True, st') \<and>
     ns_out st' = [ChanMode ''#a'' ''+o'' [''alice'']]"
proof -
  have "auto_applies alice ''#a'' CA_AUTOOP (ns_db (sample_chan NS_IDENTIFIED CI_SECURE))"
    by (simp add: auto_applies_def Let_def mysql_findchanflags_def sample_chan_db sql_first_def chan_of_def sql_eq_def
        identified_def alice_stat allowed_def get_chan_level_def lookup_def_level_def def_levels_def
        CA_defs ACCESS_INVALID_def)
      (simp add: has_def NS_IDENTIFIED_def CI_SECURE_def CI_VERBOTEN_def)
  moreover have "u_nick alice = ''alice''" by (simp add: alice_def sample_user_def)
  ultimately show ?thesis
    using auto_op_voice_correct [where st = "sample_chan NS_IDENTIFIED CI_SECURE" and u = alice and now = 20 and
        chan = "''#a''", OF sample_chan_ok alice_stat(2)]
    by (auto simp: quiet_def sample_chan_db)
qed

text \<open>
  An operator who has no access to a registered channel is not opped on joining it, with CSOpOper or
  without.
\<close>

lemma oper_not_opped:
  assumes "ns_ok st" and "known (ns_db st) u" and "is_oper (ns_users st) (u_nick u) \<or> admin_of cfg (ns_db st) u"
    and "CSOpOper cfg" and "\<not> allowed (ns_db st) u (mysql_findchan (ns_db st) chan) CA_AUTOOP"
  shows "\<exists>st'. check_should_op now u chan st = Some (False, st') \<and> ns_out st' = ns_out st"
proof -
  have "mysql_findchan (ns_db st) chan = fst (mysql_findchanflags (ns_db st) chan)"
    by (simp add: mysql_findchan_def mysql_findchanflags_def split: option.split)
  then have "\<not> auto_applies u chan CA_AUTOOP (ns_db st)"
    using assms(5) by (auto simp: auto_applies_def Let_def split: prod.splits)
  then show ?thesis
    using yieldsD [OF check_should_op_yields [OF assms(1,2), of now chan]] by (auto simp: quiet_def)
qed

end
