(* ===== verification/Chantab.thy ===== *)
theory Chantab
  imports Access
begin

text \<open>
  The table of channels in use (src/src/channels.c): the record of a channel, the 1024 hash chains,
  the search by name, and the columns of the channel table that are copied into and out of the
  record.  A Channel pointer is the name in its record; a chain is the list of its records in link
  order, the ban array the list of its used entries, and the lists of users, chanops and voices
  are the identities of the users in link order.
\<close>

named_theorems chan_simps \<open>the channel table\<close>

definition CMODE_i :: flags where "CMODE_i = 0x00000001"
definition CMODE_m :: flags where "CMODE_m = 0x00000002"
definition CMODE_n :: flags where "CMODE_n = 0x00000004"
definition CMODE_p :: flags where "CMODE_p = 0x00000008"
definition CMODE_s :: flags where "CMODE_s = 0x00000010"
definition CMODE_t :: flags where "CMODE_t = 0x00000020"
definition CMODE_k :: flags where "CMODE_k = 0x00000040"
definition CMODE_l :: flags where "CMODE_l = 0x00000080"
definition CMODE_R :: flags where "CMODE_R = 0x00000100"
definition CMODE_c :: flags where "CMODE_c = 0x00000400"
definition CMODE_O :: flags where "CMODE_O = 0x00000800"
definition CMODE_M :: flags where "CMODE_M = 0x00001000"

definition CHANMAX :: nat where "CHANMAX = 200"

record ban =
  b_mask :: cstr
  b_time :: int

record channel =
  c_name :: cstr
  c_channel_id :: nat
  c_creation_time :: int
  c_topic :: "cstr option"
  c_topic_setter :: cstr
  c_topic_time :: int
  c_mode :: flags
  c_limit :: nat
  c_key :: "cstr option"
  c_bans :: "ban list"
  c_users :: "nat list"
  c_chanops :: "nat list"
  c_voices :: "nat list"
  c_server_modetime :: int
  c_chanserv_modetime :: int
  c_server_modecount :: "16 word"
  c_chanserv_modecount :: "16 word"
  c_bouncy_modes :: bool
  c_last_limit_time :: int
  c_limit_offset :: nat
  c_limit_tolerance :: nat
  c_limit_period :: nat
  c_bantime :: nat
  c_floodserv :: bool

type_synonym chanlist = "nat \<Rightarrow> channel list"

text \<open>The state of the channel code: what lies below it, the chains, and the last mode string of a server.\<close>

record cs_state =
  cs_ns :: ns_state
  cs_chans :: chanlist
  cs_lastmodes :: cstr

definition tell :: "ns_msg \<Rightarrow> cs_state \<Rightarrow> cs_state" where
  "tell m st = st\<lparr>cs_ns := say m (cs_ns st)\<rparr>"

section \<open>The hash table\<close>

definition HASH_chan :: "cstr \<Rightarrow> nat" where
  "HASH_chan name =
     (if hd0 (tl name) \<noteq> nul
      then push_bit 5 (ord (hd0 (tl name)) AND 31) OR (ord (hd0 (tl (tl name))) AND 31)
      else 0)"

definition findchan :: "chanlist \<Rightarrow> cstr \<Rightarrow> channel option" where
  "findchan cl name = find (\<lambda>c. irc_stricmp (c_name c) name = 0) (cl (HASH_chan name))"

text \<open>
  The macro \<open>HASH\<close> reads the second and the third byte of the name.  Of the empty name these lie behind
  the end of the text: the bytes there are the argument \<open>beyond\<close>.  \<open>HASH_chan\<close> is the value for names
  that are not empty, whatever lies behind them, and looking up a name in the chain of \<open>HASH_mem\<close> gives
  what \<open>findchan\<close> gives as long as no channel has the empty name.
\<close>

definition byte_at :: "(nat \<Rightarrow> char) \<Rightarrow> cstr \<Rightarrow> nat \<Rightarrow> char" where
  "byte_at beyond s i = (if i < length s then s ! i else if i = length s then nul else beyond i)"

definition HASH_mem :: "(nat \<Rightarrow> char) \<Rightarrow> cstr \<Rightarrow> nat" where
  "HASH_mem beyond s =
     (if byte_at beyond s 1 \<noteq> nul
      then push_bit 5 (ord (byte_at beyond s 1) AND 31) OR (ord (byte_at beyond s 2) AND 31)
      else 0)"

lemma HASH_mem_name:
  assumes "name \<noteq> []"
  shows "HASH_mem beyond name = HASH_chan name"
proof -
  obtain c cs where n: "name = c # cs" using assms by (cases name) auto
  show ?thesis
  proof (cases cs)
    case Nil
    then show ?thesis by (simp add: n HASH_mem_def HASH_chan_def byte_at_def hd0_def)
  next
    case (Cons d ds)
    then show ?thesis
      by (cases ds) (simp_all add: n HASH_mem_def HASH_chan_def byte_at_def hd0_def)
  qed
qed

lemma findchan_mem:
  assumes "\<forall>b. \<forall>c\<in>set (cl b). c_name c \<noteq> [] \<and> cstring (c_name c)"
  shows "find (\<lambda>c. irc_stricmp (c_name c) name = 0) (cl (HASH_mem beyond name)) = findchan cl name"
proof (cases "name = []")
  case True
  have "irc_stricmp (c_name c) [] \<noteq> 0" if "c \<in> set (cl b)" for b c
    using assms that irc_stricmp_zero [of "c_name c" "[]"] by (fastforce simp: strlower_def)
  then have "find (\<lambda>c. irc_stricmp (c_name c) name = 0) (cl b) = None" for b
    using True by (simp add: find_None_iff)
  then show ?thesis by (simp only: findchan_def)
next
  case False
  then show ?thesis by (simp add: HASH_mem_name findchan_def)
qed

text \<open>Writing a record back through its pointer, linking and unlinking.\<close>

definition chan_put :: "channel \<Rightarrow> chanlist \<Rightarrow> chanlist" where
  "chan_put c cl =
     cl(HASH_chan (c_name c) := map (\<lambda>d. if c_name d = c_name c then c else d) (cl (HASH_chan (c_name c))))"

definition chan_link :: "channel \<Rightarrow> chanlist \<Rightarrow> chanlist" where
  "chan_link c cl = cl(HASH_chan (c_name c) := c # cl (HASH_chan (c_name c)))"

definition chan_unlink :: "channel \<Rightarrow> chanlist \<Rightarrow> chanlist" where
  "chan_unlink c cl =
     cl(HASH_chan (c_name c) := filter (\<lambda>d. c_name d \<noteq> c_name c) (cl (HASH_chan (c_name c))))"

definition put_chan :: "channel \<Rightarrow> cs_state \<Rightarrow> cs_state" where
  "put_chan c st = st\<lparr>cs_chans := chan_put c (cs_chans st)\<rparr>"

text \<open>\<open>findchan_by_id\<close>, from the start of the chains.\<close>

definition all_chans :: "chanlist \<Rightarrow> channel list" where
  "all_chans cl = concat (map cl [0..<1024])"

definition findchan_by_id :: "chanlist \<Rightarrow> nat \<Rightarrow> channel option" where
  "findchan_by_id cl i = find (\<lambda>c. c_channel_id c = i) (all_chans cl)"

definition chans_ok :: "chanlist \<Rightarrow> bool" where
  "chans_ok cl \<longleftrightarrow>
     (\<forall>b. \<forall>c\<in>set (cl b). HASH_chan (c_name c) = b \<and> cstring (c_name c)) \<and>
     (\<forall>b. distinct (map (\<lambda>c. strlower (c_name c)) (cl b)))"

lemma HASH_chan_strlower: "HASH_chan (strlower s) = HASH_chan s"
proof -
  have "ord (tolower c) = 0 \<longleftrightarrow> ord c = (0 :: nat)" for c
    by (auto simp: ord_tolower isupper_def)
  moreover have "c = nul \<longleftrightarrow> ord c = (0 :: nat)" for c
  proof -
    have "ord nul = (0 :: nat)" by simp
    then show ?thesis using of_char_eq_iff [of c nul, where 'a = nat] by (simp only:)
  qed
  ultimately have "tolower c = nul \<longleftrightarrow> c = nul" for c by metis
  then show ?thesis by (simp add: HASH_chan_def hd0_strlower ord_and_31)
qed

lemma HASH_chan_same: "strlower s = strlower t \<Longrightarrow> HASH_chan s = HASH_chan t"
  by (metis HASH_chan_strlower)

lemma find_distinct:
  "distinct (map f xs) \<Longrightarrow> x \<in> set xs \<Longrightarrow> find (\<lambda>y. f y = f x) xs = Some x"
  by (induction xs) (auto simp: rev_image_eqI)

lemma findchan_char:
  assumes "chans_ok cl" and "cstring name"
  shows "findchan cl name = Some c \<longleftrightarrow> c \<in> set (cl (HASH_chan name)) \<and> strlower (c_name c) = strlower name"
proof -
  define b where "b = HASH_chan name"
  have "\<forall>d\<in>set (cl b). (irc_stricmp (c_name d) name = 0) = (strlower (c_name d) = strlower name)"
    using assms by (auto simp: chans_ok_def irc_stricmp_zero)
  then have f: "findchan cl name = find (\<lambda>d. strlower (c_name d) = strlower name) (cl b)"
    unfolding findchan_def b_def [symmetric] by (intro find_cong) auto
  have d: "distinct (map (\<lambda>c. strlower (c_name c)) (cl b))" using assms(1) by (simp add: chans_ok_def)
  show ?thesis
  proof
    assume "findchan cl name = Some c"
    then show "c \<in> set (cl (HASH_chan name)) \<and> strlower (c_name c) = strlower name"
      unfolding f by (auto simp: b_def dest: find_Some_set)
  next
    assume "c \<in> set (cl (HASH_chan name)) \<and> strlower (c_name c) = strlower name"
    then show "findchan cl name = Some c"
      using find_distinct [OF d, of c] unfolding f b_def by simp
  qed
qed

lemma findchan_None:
  assumes "chans_ok cl" and "cstring name"
  shows "findchan cl name = None \<longleftrightarrow> (\<forall>b. \<forall>c\<in>set (cl b). strlower (c_name c) \<noteq> strlower name)"
proof -
  have "findchan cl name = None \<longleftrightarrow> (\<forall>c\<in>set (cl (HASH_chan name)). strlower (c_name c) \<noteq> strlower name)"
    using findchan_char [OF assms] by (metis not_None_eq)
  also have "\<dots> \<longleftrightarrow> (\<forall>b. \<forall>c\<in>set (cl b). strlower (c_name c) \<noteq> strlower name)"
    using assms(1) HASH_chan_same unfolding chans_ok_def by metis
  finally show ?thesis .
qed


lemma chans_ok_name:
  assumes "chans_ok cl" and "c \<in> set (cl b)" and "d \<in> set (cl b')" and "strlower (c_name c) = strlower (c_name d)"
  shows "c = d"
proof -
  have b: "b = HASH_chan (c_name c)" "b' = HASH_chan (c_name d)" using assms(1-3) by (auto simp: chans_ok_def)
  then have "b = b'" using HASH_chan_same [OF assms(4)] by simp
  moreover have "distinct (map (\<lambda>c. strlower (c_name c)) (cl b))" using assms(1) by (simp add: chans_ok_def)
  ultimately show ?thesis using assms(2-4) by (auto simp: distinct_map dest: inj_onD)
qed

lemma chan_put_names:
  "chans_ok cl \<Longrightarrow> map c_name (chan_put c cl b) = map c_name (cl b)"
  by (auto simp: chan_put_def)

lemma map_fun_names: "map f xs = map f ys \<Longrightarrow> map (\<lambda>x. g (f x)) xs = map (\<lambda>x. g (f x)) ys"
  by (metis (mono_tags, lifting) map_map comp_apply map_eq_conv)

lemma map_fun_set: "map f xs = map f ys \<Longrightarrow> f ` set xs = f ` set ys"
  by (metis list.set_map)

lemma chan_put_ok:
  assumes "chans_ok cl"
  shows "chans_ok (chan_put c cl)"
proof -
  have n: "map c_name (chan_put c cl b) = map c_name (cl b)" for b by (rule chan_put_names [OF assms])
  have "HASH_chan nm = b \<and> cstring nm" if "nm \<in> c_name ` set (cl b)" for b nm
    using assms that by (auto simp: chans_ok_def)
  then have "HASH_chan (c_name d) = b \<and> cstring (c_name d)" if "d \<in> set (chan_put c cl b)" for b d
    using that map_fun_set [OF n, of b] by blast
  moreover have "distinct (map (\<lambda>c. strlower (c_name c)) (chan_put c cl b))" for b
    using map_fun_names [OF n, of strlower b] assms by (simp add: chans_ok_def)
  ultimately show ?thesis unfolding chans_ok_def by blast
qed

text \<open>What a search finds after a record is written back through its pointer.\<close>

lemma findchan_put:
  assumes "chans_ok cl" and "cstring name" and "findchan cl name = Some c" and "c_name c' = c_name c"
  shows "findchan (chan_put c' cl) name = Some c'"
proof -
  have c: "c \<in> set (cl (HASH_chan name))" "strlower (c_name c) = strlower name"
    using assms(3) findchan_char [OF assms(1,2)] by auto
  have "c' \<in> set (chan_put c' cl (HASH_chan name))"
    using c HASH_chan_same [OF c(2)] assms(4) by (auto simp: chan_put_def)
  then show ?thesis
    using findchan_char [OF chan_put_ok [OF assms(1)] assms(2)] c(2) assms(4) by metis
qed

lemma option_ext: "(\<And>d. x = Some d \<longleftrightarrow> y = Some d) \<Longrightarrow> x = y"
  by (cases x; cases y) auto

lemma findchan_put_other:
  assumes "chans_ok cl" and "cstring name" and "strlower (c_name c') \<noteq> strlower name"
  shows "findchan (chan_put c' cl) name = findchan cl name"
proof (rule option_ext)
  fix d :: channel
  have "c_name d \<noteq> c_name c'" if "strlower (c_name d) = strlower name" using that assms(3) by auto
  then show "findchan (chan_put c' cl) name = Some d \<longleftrightarrow> findchan cl name = Some d"
    using findchan_char [OF assms(1,2)] findchan_char [OF chan_put_ok [OF assms(1), of c'] assms(2)] assms(3)
    by (auto simp: chan_put_def)
qed

lemma findchan_name:
  assumes "chans_ok cl" and "cstring name" and "findchan cl name = Some c"
  shows "findchan cl (c_name c) = Some c" "cstring (c_name c)" "strlower (c_name c) = strlower name"
proof -
  have c: "c \<in> set (cl (HASH_chan name))" "strlower (c_name c) = strlower name"
    using assms(3) findchan_char [OF assms(1,2)] by auto
  then show s: "cstring (c_name c)" "strlower (c_name c) = strlower name" using assms(1) by (auto simp: chans_ok_def)
  show "findchan cl (c_name c) = Some c"
    using c HASH_chan_same [OF c(2)] findchan_char [OF assms(1) s(1)] by simp
qed

lemma chan_put_put: "c_name c = c_name d \<Longrightarrow> chan_put c (chan_put d cl) = chan_put c cl"
  by (auto simp: chan_put_def fun_eq_iff)

lemma chan_link_ok:
  assumes "chans_ok cl" and "cstring (c_name c)" and "findchan cl (c_name c) = None"
  shows "chans_ok (chan_link c cl)" and "findchan (chan_link c cl) (c_name c) = Some c"
proof -
  have "\<forall>b. \<forall>d\<in>set (cl b). strlower (c_name d) \<noteq> strlower (c_name c)"
    using assms(3) findchan_None [OF assms(1,2)] by simp
  then show ok: "chans_ok (chan_link c cl)"
    using assms(1,2) by (auto simp: chans_ok_def chan_link_def) (metis)
  show "findchan (chan_link c cl) (c_name c) = Some c"
    using findchan_char [OF ok assms(2)] by (simp add: chan_link_def)
qed

lemma chan_unlink_ok:
  assumes "chans_ok cl" and "c \<in> set (cl (HASH_chan (c_name c)))"
  shows "chans_ok (chan_unlink c cl)" and "findchan (chan_unlink c cl) (c_name c) = None"
proof -
  show ok: "chans_ok (chan_unlink c cl)"
    using assms(1) by (auto simp: chans_ok_def chan_unlink_def distinct_map_filter)
  have s: "cstring (c_name c)" using assms by (auto simp: chans_ok_def)
  have "strlower (c_name d) \<noteq> strlower (c_name c)" if "d \<in> set (chan_unlink c cl b)" for b d
  proof
    assume eq: "strlower (c_name d) = strlower (c_name c)"
    have d: "d \<in> set (cl b)" using that by (auto simp: chan_unlink_def split: if_splits)
    have "d = c" by (rule chans_ok_name [OF assms(1) d assms(2) eq])
    moreover have "b = HASH_chan (c_name d)" using assms(1) d by (auto simp: chans_ok_def)
    ultimately show False using that by (auto simp: chan_unlink_def)
  qed
  then show "findchan (chan_unlink c cl) (c_name c) = None"
    using findchan_None [OF ok s] by simp
qed

text \<open>
  A step that concerns one channel only.  A channel has a name that fits its field, and the check for
  bouncing modes never marks one.
\<close>

definition plain_chan :: "channel \<Rightarrow> bool" where
  "plain_chan c \<longleftrightarrow> \<not> c_bouncy_modes c \<and> length (c_name c) < CHANMAX"

definition plain_chans :: "chanlist \<Rightarrow> bool" where
  "plain_chans cl \<longleftrightarrow> (\<forall>b. \<forall>c\<in>set (cl b). plain_chan c)"

definition only_chan :: "cstr \<Rightarrow> chanlist \<Rightarrow> chanlist \<Rightarrow> bool" where
  "only_chan name cl cl' \<longleftrightarrow>
     chans_ok cl' \<and> (\<forall>m. cstring m \<and> strlower m \<noteq> strlower name \<longrightarrow> findchan cl' m = findchan cl m) \<and>
     (plain_chans cl \<longrightarrow> plain_chans cl')"

lemma only_chan_refl: "chans_ok cl \<Longrightarrow> only_chan name cl cl"
  by (simp add: only_chan_def)

lemma only_chan_trans: "only_chan name a b \<Longrightarrow> only_chan name b c \<Longrightarrow> only_chan name a c"
  by (simp add: only_chan_def)

lemma only_chan_put:
  "chans_ok cl \<Longrightarrow> strlower (c_name c) = strlower name \<Longrightarrow> (plain_chans cl \<Longrightarrow> plain_chan c) \<Longrightarrow>
   only_chan name cl (chan_put c cl)"
proof -
  assume a: "chans_ok cl" "strlower (c_name c) = strlower name" "plain_chans cl \<Longrightarrow> plain_chan c"
  have "plain_chans cl \<longrightarrow> plain_chans (chan_put c cl)"
    using a(3) by (auto simp: plain_chans_def chan_put_def)
  then show "only_chan name cl (chan_put c cl)"
    using findchan_put_other [of cl _ c] a(1,2) chan_put_ok [OF a(1)] by (auto simp: only_chan_def)
qed

lemma plain_found:
  assumes "chans_ok cl" and "cstring name" and "findchan cl name = Some c" and "plain_chans cl"
  shows "plain_chan c"
  using findchan_char [OF assms(1,2)] assms(3,4) by (auto simp: plain_chans_def)

text \<open>A write to the channel that was found.\<close>

lemma only_chan_write:
  assumes "chans_ok cl" and "cstring name" and "findchan cl name = Some c" and "c_name c' = c_name c"
    and "c_bouncy_modes c' = c_bouncy_modes c"
  shows "only_chan name cl (chan_put c' cl)"
  using plain_found [OF assms(1-3)] findchan_name [OF assms(1-3)] assms(4,5)
  by (intro only_chan_put [OF assms(1)]) (simp_all add: plain_chan_def)

lemma findchan_same:
  assumes "chans_ok cl" and "chans_ok cl'" and "cstring m"
    and "\<And>d. strlower (c_name d) = strlower m \<Longrightarrow> d \<in> set (cl' (HASH_chan m)) \<longleftrightarrow> d \<in> set (cl (HASH_chan m))"
  shows "findchan cl' m = findchan cl m"
  using findchan_char [OF assms(1,3)] findchan_char [OF assms(2,3)] assms(4) by (intro option_ext) auto

lemma only_chan_link:
  assumes "chans_ok cl" and "cstring (c_name c)" and "findchan cl (c_name c) = None" and "plain_chan c"
  shows "only_chan (c_name c) cl (chan_link c cl)"
proof -
  have "findchan (chan_link c cl) m = findchan cl m" if "cstring m" "strlower m \<noteq> strlower (c_name c)" for m
    using that by (intro findchan_same [OF assms(1) chan_link_ok(1) [OF assms(1-3)] that(1)])
      (auto simp: chan_link_def)
  moreover have "plain_chans cl \<longrightarrow> plain_chans (chan_link c cl)"
    using assms(4) by (auto simp: plain_chans_def chan_link_def)
  ultimately show ?thesis using chan_link_ok(1) [OF assms(1-3)] by (simp add: only_chan_def)
qed

lemma only_chan_unlink:
  assumes "chans_ok cl" and "c \<in> set (cl (HASH_chan (c_name c)))"
  shows "only_chan (c_name c) cl (chan_unlink c cl)"
proof -
  have "findchan (chan_unlink c cl) m = findchan cl m" if "cstring m" "strlower m \<noteq> strlower (c_name c)" for m
    using that by (intro findchan_same [OF assms(1) chan_unlink_ok(1) [OF assms] that(1)])
      (auto simp: chan_unlink_def)
  moreover have "plain_chans cl \<longrightarrow> plain_chans (chan_unlink c cl)"
    by (auto simp: plain_chans_def chan_unlink_def)
  ultimately show ?thesis using chan_unlink_ok(1) [OF assms] by (simp add: only_chan_def)
qed

section \<open>Columns of the channel table\<close>

definition get_mlock_on :: "sqldb \<Rightarrow> nat \<Rightarrow> flags" where
  "get_mlock_on db i = (case chan.row i (t_channel db) of None \<Rightarrow> 0 | Some r \<Rightarrow> cr_mlock_on r)"

definition get_mlock_off :: "sqldb \<Rightarrow> nat \<Rightarrow> flags" where
  "get_mlock_off db i = (case chan.row i (t_channel db) of None \<Rightarrow> 0 | Some r \<Rightarrow> cr_mlock_off r)"

definition get_mlock_limit :: "sqldb \<Rightarrow> nat \<Rightarrow> nat" where
  "get_mlock_limit db i = (case chan.row i (t_channel db) of None \<Rightarrow> 0 | Some r \<Rightarrow> cr_mlock_limit r)"

definition get_mlock_key :: "sqldb \<Rightarrow> nat \<Rightarrow> cstr option" where
  "get_mlock_key db i = (case chan.row i (t_channel db) of None \<Rightarrow> None | Some r \<Rightarrow> Some (cr_mlock_key r))"

definition upd_chan :: "nat \<Rightarrow> (chan_row \<Rightarrow> chan_row) \<Rightarrow> cs_state \<Rightarrow> cs_state" where
  "upd_chan i f st = st\<lparr>cs_ns := (cs_ns st)\<lparr>ns_db := (ns_db (cs_ns st))\<lparr>t_channel :=
     sql_update (\<lambda>r. cr_id r = i) f (t_channel (ns_db (cs_ns st)))\<rparr>\<rparr>\<rparr>"

definition mysql_init_channel :: "sqldb \<Rightarrow> channel \<Rightarrow> channel" where
  "mysql_init_channel db c =
     (let c = c\<lparr>c_last_limit_time := 0, c_limit_offset := 0, c_limit_tolerance := 0, c_limit_period := 0,
                c_bantime := 0\<rparr>
      in if c_channel_id c = 0 then c
         else (case chan.row (c_channel_id c) (t_channel db) of
                 None \<Rightarrow> c
               | Some r \<Rightarrow> c\<lparr>c_last_limit_time := cr_last_limit_time r, c_limit_offset := cr_limit_offset r,
                   c_limit_tolerance := cr_limit_tolerance r, c_limit_period := cr_limit_period r,
                   c_bantime := cr_bantime r, c_floodserv := cr_floodserv r\<rparr>))"

definition mysql_destroy_channel :: "channel \<Rightarrow> cs_state \<Rightarrow> cs_state" where
  "mysql_destroy_channel c st =
     (if c_channel_id c = 0 then st
      else upd_chan (c_channel_id c)
             (\<lambda>r. r\<lparr>cr_last_limit_time := c_last_limit_time c, cr_limit_offset := c_limit_offset c,
                cr_limit_tolerance := c_limit_tolerance c, cr_limit_period := c_limit_period c,
                cr_bantime := c_bantime c\<rparr>) st)"

section \<open>The limit\<close>

definition check_autolimit :: "int \<Rightarrow> bool \<Rightarrow> channel \<Rightarrow> cs_state \<Rightarrow> channel \<times> cs_state" where
  "check_autolimit now allow_raise c st =
     (if \<not> (c_channel_id c \<noteq> 0 \<and> c_limit_offset c \<noteq> 0) then (c, st)
      else if now - c_last_limit_time c \<le> 10 then (c, st)
      else
        (let usercnt = length (c_users c);
             delta = wrap32 (int usercnt + int (c_limit_offset c) - int (c_limit c));
             change = (delta < 0 \<or> (to_uint32 delta > c_limit_tolerance c \<and> allow_raise));
             c' = (if change then c\<lparr>c_limit := to_uint32 (int (usercnt + c_limit_offset c))\<rparr> else c);
             st = (if change then tell (ChanMode (c_name c) ''+l'' [show_int (wrap32 (int (c_limit c')))]) st else st);
             c' = c'\<lparr>c_last_limit_time := now\<rparr>;
             st = put_chan c' st
         in (c', upd_chan (c_channel_id c) (\<lambda>r. r\<lparr>cr_last_limit_time := now\<rparr>) st)))"

text \<open>
  Bounds on what \<open>check_autolimit\<close> leaves: with small numbers, the limit afterwards is above the
  number of users by at most the offset if it was above it too much, and by the offset exactly
  if the limit was changed; without \<open>allow_raise\<close> it never goes up.
\<close>

lemma check_autolimit_bounds:
  assumes "check_autolimit now up c st = (c', st')" and "c_channel_id c \<noteq> 0" and "c_limit_offset c \<noteq> 0"
    and "now - c_last_limit_time c > 10"
    and "length (c_users c) + c_limit_offset c < 2 ^ 31" and "c_limit c < 2 ^ 31"
  shows "c_limit c' \<le> length (c_users c) + c_limit_offset c"
    and "up \<Longrightarrow> length (c_users c) + c_limit_offset c \<le> c_limit c' + c_limit_tolerance c"
    and "\<not> up \<Longrightarrow> c_limit c' \<le> c_limit c"
    and "c_last_limit_time c' = now"
    and "c_limit c' \<noteq> c_limit c \<longleftrightarrow> ns_out (cs_ns st') \<noteq> ns_out (cs_ns st)"
proof -
  define n where "n = length (c_users c) + c_limit_offset c"
  have w: "wrap32 (int n - int (c_limit c)) = int n - int (c_limit c)"
    using assms(5,6) by (intro wrap32_id) (simp_all add: n_def)
  have u: "to_uint32 (int n) = n" using assms(5) by (simp add: to_uint32_def n_def)
  have d: "to_uint32 (int n - int (c_limit c)) > t \<longleftrightarrow> n - c_limit c > t" if "c_limit c \<le> n" for t
    using assms(5) that by (simp add: to_uint32_def n_def mod_pos_pos_trivial nat_diff_distrib nat_int_add flip: of_nat_diff of_nat_add)
  define change where "change \<longleftrightarrow> int n - int (c_limit c) < 0 \<or>
      (to_uint32 (int n - int (c_limit c)) > c_limit_tolerance c \<and> up)"
  have c': "c_limit c' = (if change then n else c_limit c)" "c_last_limit_time c' = now"
    "ns_out (cs_ns st') = (if change then ns_out (cs_ns st) @ [ChanMode (c_name c) ''+l'' [show_int (wrap32 (int n))]]
       else ns_out (cs_ns st))"
    using assms(1-4) w u
    by (auto simp: check_autolimit_def Let_def n_def change_def tell_def put_chan_def upd_chan_def ns_simps
        split: if_splits)
  show "c_limit c' \<le> length (c_users c) + c_limit_offset c"
    using c'(1) by (auto simp: change_def n_def)
  show "up \<Longrightarrow> length (c_users c) + c_limit_offset c \<le> c_limit c' + c_limit_tolerance c"
    using c'(1) d [of "c_limit_tolerance c"] unfolding change_def n_def by (auto split: if_splits)
  show "\<not> up \<Longrightarrow> c_limit c' \<le> c_limit c" using c'(1) by (auto simp: change_def split: if_splits)
  show "c_last_limit_time c' = now" by (rule c'(2))
  show "c_limit c' \<noteq> c_limit c \<longleftrightarrow> ns_out (cs_ns st') \<noteq> ns_out (cs_ns st)"
    using c'(1,3) d [of "c_limit_tolerance c"] unfolding change_def
    by (cases "c_limit c = n") (auto simp: to_uint32_def split: if_splits)
qed

end
