(* ===== verification/Chanmode.thy ===== *)
theory Chanmode
  imports Chantab Masks
begin

text \<open>
  Channel modes: the handler of MODE commands (\<open>do_cmode\<close> in src/src/channels.c), the enforcement of
  the mode lock (\<open>check_modes\<close> in src/src/chanserv.c), which hands a change of the key back to
  \<open>do_cmode\<close>, the topic, joining, leaving, and the check made on a join.  None is a crash or a
  call that never returns.
\<close>

definition CI_KEEPTOPIC :: flags where "CI_KEEPTOPIC = 0x00000001"
definition CI_TOPICLOCK :: flags where "CI_TOPICLOCK = 0x00000008"

section \<open>Mode strings\<close>

text \<open>The modes without a parameter, in the order the mode lock is enforced in.\<close>

definition cmode_table :: "(char \<times> flags) list" where
  "cmode_table =
     [(CHR ''i'', CMODE_i), (CHR ''m'', CMODE_m), (CHR ''M'', CMODE_M), (CHR ''n'', CMODE_n),
      (CHR ''p'', CMODE_p), (CHR ''s'', CMODE_s), (CHR ''t'', CMODE_t), (CHR ''c'', CMODE_c),
      (CHR ''O'', CMODE_O), (CHR ''R'', CMODE_R)]"

definition cmode_flag :: "char \<Rightarrow> flags option" where
  "cmode_flag m = map_of cmode_table m"

definition set_cmode :: "bool \<Rightarrow> flags \<Rightarrow> channel \<Rightarrow> channel" where
  "set_cmode add f c = c\<lparr>c_mode := if add then c_mode c OR f else c_mode c AND NOT f\<rparr>"

text \<open>
  The parameters: the count \<open>ac\<close> and the rest of the array \<open>av\<close>, which are moved separately.
\<close>

type_synonym params = "int \<times> cstr list"

definition key_mode :: "bool \<Rightarrow> params \<Rightarrow> channel \<Rightarrow> (params \<times> channel) option" where
  "key_mode add p c =
     (let (ac, av) = p; ac = ac - 1
      in if ac < 0 then Some ((ac, av), c)
         else if add
         then (case av of [] \<Rightarrow> None | a # av \<Rightarrow> Some ((ac, av), c\<lparr>c_key := Some a\<rparr>))
         else Some ((ac, av), c\<lparr>c_key := None\<rparr>))"

definition limit_mode :: "bool \<Rightarrow> params \<Rightarrow> channel \<Rightarrow> (params \<times> channel) option" where
  "limit_mode add p c =
     (if add
      then (let (ac, av) = p; ac = ac - 1
            in if ac < 0 then Some ((ac, av), c)
               else (case av of [] \<Rightarrow> None
                     | a # av \<Rightarrow> Some ((ac, av), c\<lparr>c_limit := fst (strtou a)\<rparr>)))
      else Some (p, c\<lparr>c_limit := 0\<rparr>))"

fun del_ban :: "cstr \<Rightarrow> ban list \<Rightarrow> ban list" where
  "del_ban m [] = []"
| "del_ban m (b # bs) = (if b_mask b = m then bs else b # del_ban m bs)"

definition ban_mode :: "int \<Rightarrow> bool \<Rightarrow> params \<Rightarrow> channel \<Rightarrow> (params \<times> channel) option" where
  "ban_mode now add p c =
     (let (ac, av) = p; ac = ac - 1
      in if ac < 0 then Some ((ac, av), c)
         else (case av of
                 [] \<Rightarrow> None
               | a # av \<Rightarrow>
                   Some ((ac, av), c\<lparr>c_bans := if add then c_bans c @ [\<lparr>b_mask = a, b_time = now\<rparr>]
                                              else del_ban a (c_bans c)\<rparr>)))"

text \<open>
  The search of a list of users for a nickname reads the records of the users before it; a record
  that is no longer in the table is freed memory.
\<close>

definition user_at :: "userlist \<Rightarrow> nat \<Rightarrow> user option" where
  "user_at ul i = find (\<lambda>u. u_uid u = i) (all_users ul)"

fun nick_scan :: "userlist \<Rightarrow> cstr \<Rightarrow> nat list \<Rightarrow> nat option option" where
  "nick_scan ul nick [] = Some None"
| "nick_scan ul nick (i # is) =
     (case user_at ul i of
        None \<Rightarrow> None
      | Some u \<Rightarrow> if strlower (u_nick u) = strlower nick then Some (Some i) else nick_scan ul nick is)"

definition op_mode ::
  "cscfg \<Rightarrow> int \<Rightarrow> cstr \<Rightarrow> bool \<Rightarrow> params \<Rightarrow> channel \<Rightarrow> ns_state \<Rightarrow> (params \<times> channel \<times> ns_state) option" where
  "op_mode cfg now source add p c ns =
     (let (ac, av) = p; ac = ac - 1
      in if ac < 0 then Some ((ac, av), c, ns)
         else (case av of
                 [] \<Rightarrow> None
               | nick # av \<Rightarrow>
                   (case nick_scan (ns_users ns) nick (c_chanops c) of
                      None \<Rightarrow> None
                    | Some (Some i) \<Rightarrow>
                        Some ((ac, av), if add then c else c\<lparr>c_chanops := remove1 i (c_chanops c)\<rparr>, ns)
                    | Some None \<Rightarrow>
                        if \<not> add then Some ((ac, av), c, ns)
                        else (case finduser (ns_users ns) nick of
                                None \<Rightarrow> Some ((ac, av), c, ns)
                              | Some u \<Rightarrow>
                                  do {
                                    (ok, ns) \<leftarrow> check_valid_op cfg now u (c_name c) (CHR ''.'' \<in> set source) ns;
                                    Some ((ac, av), if ok then c\<lparr>c_chanops := u_uid u # c_chanops c\<rparr> else c, ns)
                                  }))))"

definition voice_mode :: "bool \<Rightarrow> params \<Rightarrow> channel \<Rightarrow> userlist \<Rightarrow> (params \<times> channel) option" where
  "voice_mode add p c ul =
     (let (ac, av) = p; ac = ac - 1
      in if ac < 0 then Some ((ac, av), c)
         else (case av of
                 [] \<Rightarrow> None
               | nick # av \<Rightarrow>
                   (case nick_scan ul nick (c_voices c) of
                      None \<Rightarrow> None
                    | Some (Some i) \<Rightarrow>
                        Some ((ac, av), if add then c else c\<lparr>c_voices := remove1 i (c_voices c)\<rparr>)
                    | Some None \<Rightarrow>
                        if \<not> add then Some ((ac, av), c)
                        else (case finduser ul nick of
                                None \<Rightarrow> Some ((ac, av), c)
                              | Some u \<Rightarrow> Some ((ac, av), c\<lparr>c_voices := u_uid u # c_voices c\<rparr>)))))"

definition with_ns :: "(params \<times> channel) option \<Rightarrow> ns_state \<Rightarrow> (params \<times> channel \<times> ns_state) option" where
  "with_ns r ns = map_option (\<lambda>(p, c). (p, c, ns)) r"

definition mode_step ::
  "cscfg \<Rightarrow> int \<Rightarrow> cstr \<Rightarrow> char \<Rightarrow> bool \<Rightarrow> params \<Rightarrow> channel \<Rightarrow> ns_state \<Rightarrow> (params \<times> channel \<times> ns_state) option" where
  "mode_step cfg now source m add p c ns =
     (case cmode_flag m of
        Some f \<Rightarrow> Some (p, set_cmode add f c, ns)
      | None \<Rightarrow>
          if m = CHR ''k'' then with_ns (key_mode add p c) ns
          else if m = CHR ''l'' then with_ns (limit_mode add p c) ns
          else if m = CHR ''b'' then with_ns (ban_mode now add p c) ns
          else if m = CHR ''o'' then op_mode cfg now source add p c ns
          else if m = CHR ''v'' then with_ns (voice_mode add p c (ns_users ns)) ns
          else Some (p, c, ns))"

fun mode_loop ::
  "cscfg \<Rightarrow> int \<Rightarrow> cstr \<Rightarrow> cstr \<Rightarrow> bool \<Rightarrow> params \<Rightarrow> channel \<Rightarrow> ns_state \<Rightarrow> (channel \<times> ns_state) option" where
  "mode_loop cfg now source [] add p c ns = Some (c, ns)"
| "mode_loop cfg now source (m # s) add p c ns =
     (if m = CHR ''+'' then mode_loop cfg now source s True p c ns
      else if m = CHR ''-'' then mode_loop cfg now source s False p c ns
      else (case mode_step cfg now source m add p c ns of
              None \<Rightarrow> None
            | Some (p, c, ns) \<Rightarrow> mode_loop cfg now source s add p c ns))"

text \<open>The count of the mode changes a server makes within a second.\<close>

definition count_server_modes :: "cscfg \<Rightarrow> int \<Rightarrow> cstr \<Rightarrow> cstr \<Rightarrow> cstr \<Rightarrow> channel \<Rightarrow> channel \<times> cstr" where
  "count_server_modes cfg now source modestr lastm c =
     (if CHR ''.'' \<in> set source \<and> source \<noteq> ServerName cfg \<and> skip_to modestr ''bov'' = []
      then (let (c, lastm) = (if now \<noteq> c_server_modetime c \<or> modestr \<noteq> lastm
                             then (c\<lparr>c_server_modecount := 0, c_server_modetime := now\<rparr>, take 39 modestr)
                             else (c, lastm))
            in (c\<lparr>c_server_modecount := c_server_modecount c + 1\<rparr>, lastm))
      else (c, lastm))"

text \<open>\<open>do_cmode\<close> up to the check of the mode lock.\<close>

definition cmode_body ::
  "cscfg \<Rightarrow> int \<Rightarrow> cstr \<Rightarrow> cstr \<Rightarrow> cstr list \<Rightarrow> channel \<Rightarrow> cs_state \<Rightarrow> cs_state option" where
  "cmode_body cfg now source modestr args c st =
     (let (c, lastm) = count_server_modes cfg now source modestr (cs_lastmodes st) c
      in case mode_loop cfg now source modestr True (int (length args), args) c (cs_ns st) of
           None \<Rightarrow> None
         | Some (c, ns) \<Rightarrow> Some (put_chan c (st\<lparr>cs_ns := ns, cs_lastmodes := lastm\<rparr>)))"

section \<open>The mode lock\<close>

definition count_check :: "int \<Rightarrow> channel \<Rightarrow> ns_state \<Rightarrow> channel \<times> ns_state" where
  "count_check now c ns =
     (let ns = (if 3 \<le> sint (c_server_modecount c) \<and> 3 \<le> sint (c_chanserv_modecount c)
                then say (BouncyModes (c_name c) (sint (c_server_modecount c)) (sint (c_chanserv_modecount c))) ns
                else ns);
          c = (if c_chanserv_modetime c \<noteq> now then c\<lparr>c_chanserv_modecount := 0, c_chanserv_modetime := now\<rparr> else c)
      in (c\<lparr>c_chanserv_modecount := c_chanserv_modecount c + 1\<rparr>, ns))"

text \<open>The ten tests of a bit, with the letters they append to the mode string.\<close>

fun lock_bits :: "bool \<Rightarrow> flags \<Rightarrow> (char \<times> flags) list \<Rightarrow> channel \<Rightarrow> cstr \<times> channel" where
  "lock_bits add modes [] c = ([], c)"
| "lock_bits add modes ((m, f) # fs) c =
     (if has modes f
      then (let (s, c) = lock_bits add modes fs (set_cmode add f c) in (m # s, c))
      else lock_bits add modes fs c)"

definition lock_on :: "sqldb \<Rightarrow> channel \<Rightarrow> cstr \<times> int option \<times> channel" where
  "lock_on db c =
     (let (s, c) = lock_bits True (NOT (c_mode c) AND get_mlock_on db (c_channel_id c)) cmode_table c;
          mlock_limit = get_mlock_limit db (c_channel_id c)
      in if mlock_limit \<noteq> 0 \<and> mlock_limit \<noteq> c_limit c
         then (s @ ''l'', Some (wrap32 (int mlock_limit)), c\<lparr>c_limit := to_uint32 (wrap32 (int mlock_limit))\<rparr>)
         else (s, None, c))"

text \<open>
  The rest of \<open>check_modes\<close> once the key is set: the modes to take away, and the command.
\<close>

definition lock_off :: "cstr \<Rightarrow> int option \<Rightarrow> cstr option \<Rightarrow> channel \<Rightarrow> cs_state \<Rightarrow> cs_state" where
  "lock_off on newlimit newkey c st =
     (let db = ns_db (cs_ns st);
          off = get_mlock_off db (c_channel_id c);
          (s, c) = lock_bits False (c_mode c AND off) cmode_table c;
          (s, newkey, c) = (if c_key c \<noteq> None \<and> has off CMODE_k then (s @ ''k'', c_key c, c\<lparr>c_key := None\<rparr>)
                            else (s, newkey, c));
          (s, c) = (if c_limit c \<noteq> 0 \<and> has off CMODE_l then (s @ ''l'', c\<lparr>c_limit := 0\<rparr>) else (s, c));
          newmodes = (if on = [] then [] else CHR ''+'' # on) @ (if s = [] then [] else CHR ''-'' # s);
          st = put_chan c st
      in if newmodes = [] then st
         else tell (ChanMode (c_name c) newmodes
                (case newlimit of
                   Some l \<Rightarrow> (case newkey of
                                Some k \<Rightarrow> [show_int l, case c_key c of None \<Rightarrow> [] | Some k \<Rightarrow> k]
                              | None \<Rightarrow> [show_int l])
                 | None \<Rightarrow> (case newkey of Some k \<Rightarrow> [k] | None \<Rightarrow> []))) st)"

partial_function (option) check_modes :: "cscfg \<Rightarrow> int \<Rightarrow> cstr \<Rightarrow> cs_state \<Rightarrow> cs_state option" where
  "check_modes cfg now name st =
     (case findchan (cs_chans st) name of
        None \<Rightarrow> Some st
      | Some c \<Rightarrow>
          if c_bouncy_modes c then Some st
          else
            (let (c, ns) = count_check now c (cs_ns st);
                 st = st\<lparr>cs_ns := ns\<rparr>;
                 (on, newlimit, c) = lock_on (ns_db ns) c;
                 st = put_chan c st
             in case get_mlock_key (ns_db ns) (c_channel_id c) of
                  None \<Rightarrow> Some (lock_off on newlimit None c st)
                | Some mlock_key \<Rightarrow>
                    if mlock_key = [] then Some (lock_off on newlimit None c st)
                    else
                      (case c_key c of
                         None \<Rightarrow> Some (lock_off (on @ ''k'') newlimit (Some mlock_key) (c\<lparr>c_key := Some mlock_key\<rparr>) st)
                       | Some key \<Rightarrow>
                           if key = mlock_key then Some (lock_off on newlimit None c st)
                           else
                             do {
                               st \<leftarrow> cmode_body cfg now (s_ChanServ cfg) ''-k'' [key] c
                                      (tell (ChanMode (c_name c) ''-k'' [key]) st);
                               st \<leftarrow> check_modes cfg now (c_name c) st;
                               case findchan (cs_chans st) (c_name c) of
                                 None \<Rightarrow> None
                               | Some c \<Rightarrow>
                                   Some (lock_off (on @ ''k'') newlimit (Some mlock_key) (c\<lparr>c_key := Some mlock_key\<rparr>) st)
                             })))"

definition do_cmode :: "cscfg \<Rightarrow> int \<Rightarrow> cstr \<Rightarrow> cstr \<Rightarrow> cstr \<Rightarrow> cstr list \<Rightarrow> cs_state \<Rightarrow> cs_state option" where
  "do_cmode cfg now source name modestr args st =
     (case findchan (cs_chans st) name of
        None \<Rightarrow> Some st
      | Some c \<Rightarrow>
          do {
            st \<leftarrow> cmode_body cfg now source modestr args c st;
            check_modes cfg now (c_name c) st
          })"


section \<open>Bits of the lock\<close>

definition all_flags :: "(char \<times> flags) list \<Rightarrow> flags" where
  "all_flags fs = foldr (\<lambda>mf a. snd mf OR a) fs 0"

abbreviation lockable :: flags where
  "lockable \<equiv> all_flags cmode_table"

lemma all_flags_simps [simp]: "all_flags [] = 0" "all_flags ((m, f) # fs) = f OR all_flags fs"
  by (simp_all add: all_flags_def)

definition single :: "flags \<Rightarrow> bool" where
  "single f \<longleftrightarrow> (\<forall>x. x AND f = 0 \<or> x AND f = f)"

lemma single_bit: "single (push_bit k 1)"
proof -
  have "x AND push_bit k 1 = 0 \<or> x AND push_bit k 1 = push_bit k 1" for x :: flags
  proof (cases "bit x k")
    case True
    have "x AND push_bit k 1 = push_bit k 1"
      using True by (intro bit_word_eqI) (auto simp: bit_simps)
    then show ?thesis by simp
  next
    case False
    have "x AND push_bit k 1 = 0"
      using False by (intro bit_word_eqI) (auto simp: bit_simps)
    then show ?thesis by simp
  qed
  then show ?thesis by (simp add: single_def)
qed

lemma cmode_single: "list_all (\<lambda>mf. single (snd mf)) cmode_table"
  using single_bit [of 0] single_bit [of 1] single_bit [of 12] single_bit [of 2] single_bit [of 3] single_bit [of 4]
    single_bit [of 5] single_bit [of 10] single_bit [of 11] single_bit [of 8]
  by (simp add: cmode_table_def CMODE_i_def CMODE_m_def CMODE_M_def CMODE_n_def CMODE_p_def CMODE_s_def
      CMODE_t_def CMODE_c_def CMODE_O_def CMODE_R_def push_bit_eq_mult)

lemma single_set: "single f \<Longrightarrow> (if has x f then y OR f else y) = y OR (x AND f)"
  unfolding single_def has_def by (metis or.right_neutral)

lemma single_clear: "single f \<Longrightarrow> (if has x f then y AND NOT f else y) = y AND NOT (x AND f)"
  unfolding single_def has_def by (metis and.right_neutral bit.compl_zero)

lemma or_parts: "(y OR (x AND f)) OR (x AND g) = y OR (x AND (f OR g))" for x y f g :: flags
  by (simp add: bit.conj_disj_distrib or.assoc)

lemma clear_parts: "(y AND NOT (x AND f)) AND NOT (x AND g) = y AND NOT (x AND (f OR g))" for x y f g :: flags
  by (intro bit_word_eqI) (auto simp: bit_and_iff bit_or_iff bit_not_iff)

definition lock_word :: "bool \<Rightarrow> flags \<Rightarrow> flags \<Rightarrow> flags" where
  "lock_word add x y = (if add then y OR x else y AND NOT x)"

lemma lock_word_step:
  assumes "single f"
  shows "lock_word add (modes AND g) (if has modes f then lock_word add f y else y) = lock_word add (modes AND (f OR g)) y"
proof (cases add)
  case True
  have "(if has modes f then y OR f else y) OR (modes AND g) = y OR (modes AND (f OR g))"
    unfolding single_set [OF assms] by (rule or_parts)
  then show ?thesis using True by (cases "has modes f") (simp_all add: lock_word_def)
next
  case False
  have "(if has modes f then y AND NOT f else y) AND NOT (modes AND g) = y AND NOT (modes AND (f OR g))"
    unfolding single_clear [OF assms] by (rule clear_parts)
  then show ?thesis using False by (cases "has modes f") (simp_all add: lock_word_def)
qed

lemma lock_bits_mode:
  "list_all (\<lambda>mf. single (snd mf)) fs \<Longrightarrow>
   snd (lock_bits add modes fs c) = c\<lparr>c_mode := lock_word add (modes AND all_flags fs) (c_mode c)\<rparr>"
proof (induction fs arbitrary: c)
  case Nil
  then show ?case by (simp add: lock_word_def)
next
  case (Cons mf fs)
  obtain m f where mf: "mf = (m, f)" by fastforce
  have "snd (lock_bits add modes (mf # fs) c) =
      c\<lparr>c_mode := lock_word add (modes AND all_flags fs) (if has modes f then lock_word add f (c_mode c) else c_mode c)\<rparr>"
    using Cons by (simp add: mf split_beta set_cmode_def lock_word_def)
  then show ?case using Cons.prems lock_word_step [of f] by (simp add: mf)
qed

lemma lock_bits_none:
  assumes "list_all (\<lambda>mf. single (snd mf)) fs" and "modes AND all_flags fs = 0"
  shows "lock_bits add modes fs c = ([], c)"
  using assms
proof (induction fs)
  case (Cons mf fs)
  obtain m f where mf: "mf = (m, f)" by fastforce
  have "modes AND f = 0 \<and> modes AND all_flags fs = 0"
    using Cons.prems(2) by (simp add: mf bit.conj_disj_distrib or_eq_0_iff)
  then show ?case using Cons by (simp add: mf has_def)
qed simp

section \<open>What the network makes of a mode string\<close>

text \<open>
  The modes, the limit and the key of a channel, and what a MODE command does to them: a key takes a
  parameter both ways, a limit only when it is set.
\<close>

type_synonym modeview = "flags \<times> nat \<times> cstr option"

fun net_modes :: "cstr \<Rightarrow> bool \<Rightarrow> cstr list \<Rightarrow> modeview \<Rightarrow> modeview" where
  "net_modes [] add ps v = v"
| "net_modes (m # s) add ps (fl, lim, key) =
     (if m = CHR ''+'' then net_modes s True ps (fl, lim, key)
      else if m = CHR ''-'' then net_modes s False ps (fl, lim, key)
      else if m = CHR ''k''
      then net_modes s add (tl ps) (fl, lim, if add then Some (concat (take 1 ps)) else None)
      else if m = CHR ''l''
      then (if add then net_modes s add (tl ps) (fl, fst (strtou (concat (take 1 ps))), key)
            else net_modes s add ps (fl, 0, key))
      else (case cmode_flag m of
              Some f \<Rightarrow> net_modes s add ps (lock_word add f fl, lim, key)
            | None \<Rightarrow> net_modes s add ps (fl, lim, key)))"

definition cview :: "channel \<Rightarrow> modeview" where
  "cview c = (c_mode c, c_limit c, c_key c)"

fun net_msg :: "cstr \<Rightarrow> ns_msg \<Rightarrow> modeview \<Rightarrow> modeview" where
  "net_msg name (ChanMode chan modes ps) v = (if chan = name then net_modes modes True ps v else v)"
| "net_msg name _ v = v"

definition table_ok :: "(char \<times> flags) list \<Rightarrow> bool" where
  "table_ok fs \<longleftrightarrow>
     list_all (\<lambda>(m, f). single f \<and> cmode_flag m = Some f \<and> m \<notin> set ''+-kl'') fs"

lemma cmode_table_ok: "table_ok cmode_table"
  using cmode_single by (simp add: table_ok_def cmode_table_def cmode_flag_def)

lemma lock_bits_net:
  "table_ok fs \<Longrightarrow>
   net_modes (fst (lock_bits add modes fs c) @ s) add ps (fl, lim, key) =
   net_modes s add ps (lock_word add (modes AND all_flags fs) fl, lim, key)"
proof (induction fs arbitrary: c fl)
  case Nil
  then show ?case by (simp add: lock_word_def)
next
  case (Cons mf fs)
  obtain m f where mf: "mf = (m, f)" by fastforce
  have f: "single f" "cmode_flag m = Some f" "m \<notin> set ''+-kl''" "table_ok fs"
    using Cons.prems by (simp_all add: mf table_ok_def)
  have "net_modes (fst (lock_bits add modes (mf # fs) c) @ s) add ps (fl, lim, key) =
      net_modes s add ps (lock_word add (modes AND all_flags fs) (if has modes f then lock_word add f fl else fl), lim, key)"
    using Cons.IH [OF f(4)] f(2,3) by (cases "has modes f") (simp_all add: mf split_beta)
  then show ?case using lock_word_step [OF f(1)] by (simp add: mf)
qed


section \<open>The effect of the lock\<close>

definition raised :: "sqldb \<Rightarrow> channel \<Rightarrow> channel" where
  "raised db c = c\<lparr>c_mode := c_mode c OR (get_mlock_on db (c_channel_id c) AND lockable),
     c_limit := if get_mlock_limit db (c_channel_id c) \<noteq> 0 then get_mlock_limit db (c_channel_id c) else c_limit c\<rparr>"

definition lowered :: "flags \<Rightarrow> channel \<Rightarrow> channel" where
  "lowered off c = c\<lparr>c_mode := c_mode c AND NOT (off AND lockable),
     c_limit := if has off CMODE_l then 0 else c_limit c,
     c_key := if has off CMODE_k then None else c_key c\<rparr>"

definition limit_param :: "sqldb \<Rightarrow> channel \<Rightarrow> int option" where
  "limit_param db c =
     (let l = get_mlock_limit db (c_channel_id c) in if l \<noteq> 0 \<and> l \<noteq> c_limit c then Some (int l) else None)"

definition on_bits :: "sqldb \<Rightarrow> channel \<Rightarrow> flags" where
  "on_bits db c = (NOT (c_mode c) AND get_mlock_on db (c_channel_id c)) AND lockable"

lemma on_bits_raise: "y OR ((NOT y AND on) AND l) = y OR (on AND l)" for y on l :: flags
  by (intro bit_word_eqI) (auto simp: bit_and_iff bit_or_iff bit_not_iff)

lemma on_bits_mode: "c_mode c OR on_bits db c = c_mode (raised db c)"
  unfolding on_bits_def raised_def by (simp add: on_bits_raise)

lemma off_bits_lower: "y AND NOT ((y AND off) AND l) = y AND NOT (off AND l)" for y off l :: flags
  by (intro bit_word_eqI) (auto simp: bit_and_iff bit_or_iff bit_not_iff)

lemma chan_same [simp]: "c\<lparr>c_limit := c_limit c\<rparr> = c" "c\<lparr>c_key := c_key c\<rparr> = c"
  by (cases c; simp)+

lemma small_limit: "l < 2 ^ 31 \<Longrightarrow> wrap32 (int l) = int l \<and> to_uint32 (int l) = l"
  by (simp add: to_uint32_def)

lemma lock_on_eq:
  assumes "get_mlock_limit db (c_channel_id c) < 2 ^ 31"
  shows "lock_on db c =
    (fst (lock_bits True (NOT (c_mode c) AND get_mlock_on db (c_channel_id c)) cmode_table c) @
       (if limit_param db c = None then [] else ''l''), limit_param db c, raised db c)"
proof -
  have b: "snd (lock_bits True (NOT (c_mode c) AND get_mlock_on db (c_channel_id c)) cmode_table c) =
      c\<lparr>c_mode := c_mode c OR (get_mlock_on db (c_channel_id c) AND lockable)\<rparr>"
    using cmode_single by (subst lock_bits_mode) (simp_all add: lock_word_def on_bits_raise list_all_iff)
  then show ?thesis
    using small_limit [OF assms]
    by (auto simp: lock_on_def split_beta limit_param_def Let_def raised_def)
qed

lemma strtou_int: "l < 2 ^ 31 \<Longrightarrow> fst (strtou (show_int (int l))) = l"
  using strtou_showd [of l "[]"] by (simp add: show_int_def)

definition param_list :: "int option \<Rightarrow> cstr list" where
  "param_list nl = (case nl of None \<Rightarrow> [] | Some l \<Rightarrow> [show_int l])"

lemma lock_on_net:
  assumes "get_mlock_limit db (c_channel_id c) < 2 ^ 31"
  shows "net_modes (fst (lock_on db c) @ s) True (param_list (limit_param db c) @ ps) (fl, lim, key) =
    net_modes s True ps (fl OR on_bits db c,
      case limit_param db c of None \<Rightarrow> lim | Some l \<Rightarrow> get_mlock_limit db (c_channel_id c), key)"
  using cmode_table_ok strtou_int [OF assms]
  by (auto simp: lock_on_eq [OF assms] lock_bits_net lock_word_def on_bits_def param_list_def limit_param_def Let_def)

text \<open>The rest of the command.\<close>

definition off_letters :: "flags \<Rightarrow> channel \<Rightarrow> cstr" where
  "off_letters off c =
     fst (lock_bits False (c_mode c AND off) cmode_table c) @
     (if c_key c \<noteq> None \<and> has off CMODE_k then ''k'' else []) @
     (if c_limit c \<noteq> 0 \<and> has off CMODE_l then ''l'' else [])"

definition lock_cmd :: "cstr \<Rightarrow> cstr \<Rightarrow> cstr" where
  "lock_cmd on s = (if on = [] then [] else CHR ''+'' # on) @ (if s = [] then [] else CHR ''-'' # s)"

definition lock_params :: "int option \<Rightarrow> cstr option \<Rightarrow> flags \<Rightarrow> channel \<Rightarrow> cstr list" where
  "lock_params nl nk off c =
     (let nk = (if c_key c \<noteq> None \<and> has off CMODE_k then c_key c else nk)
      in case nl of
           Some l \<Rightarrow> (case nk of
                        Some k \<Rightarrow> [show_int l, case c_key (lowered off c) of None \<Rightarrow> [] | Some k \<Rightarrow> k]
                      | None \<Rightarrow> [show_int l])
         | None \<Rightarrow> (case nk of Some k \<Rightarrow> [k] | None \<Rightarrow> []))"

lemma lock_off_eq:
  "lock_off on nl nk c st =
     (let off = get_mlock_off (ns_db (cs_ns st)) (c_channel_id c);
          cmd = lock_cmd on (off_letters off c);
          st = put_chan (lowered off c) st
      in if cmd = [] then st else tell (ChanMode (c_name c) cmd (lock_params nl nk off c)) st)"
proof -
  define off where "off = get_mlock_off (ns_db (cs_ns st)) (c_channel_id c)"
  define s where "s = fst (lock_bits False (c_mode c AND off) cmode_table c)"
  have "snd (lock_bits False (c_mode c AND off) cmode_table c) = c\<lparr>c_mode := c_mode c AND NOT (off AND lockable)\<rparr>"
    unfolding lock_bits_mode [OF cmode_single] lock_word_def if_False off_bits_lower ..
  then have b: "lock_bits False (c_mode c AND off) cmode_table c =
      (s, c\<lparr>c_mode := c_mode c AND NOT (off AND lockable)\<rparr>)"
    by (simp add: s_def prod_eq_iff)
  define c1 where "c1 = c\<lparr>c_mode := c_mode c AND NOT (off AND lockable)\<rparr>"
  have c1: "c_key c1 = c_key c" "c_limit c1 = c_limit c" "c_name c1 = c_name c" by (simp_all add: c1_def)
  have low: "lowered off c = (let c2 = (if c_key c \<noteq> None \<and> has off CMODE_k then c1\<lparr>c_key := None\<rparr> else c1)
      in if c_limit c \<noteq> 0 \<and> has off CMODE_l then c2\<lparr>c_limit := 0\<rparr> else c2)"
    unfolding lowered_def c1_def Let_def by (rule channel.equality) auto
  define A where "A \<longleftrightarrow> c_key c \<noteq> None \<and> has off CMODE_k"
  define B where "B \<longleftrightarrow> c_limit c \<noteq> 0 \<and> has off CMODE_l"
  define A where "A \<longleftrightarrow> c_key c \<noteq> None \<and> has off CMODE_k"
  define B where "B \<longleftrightarrow> c_limit c \<noteq> 0 \<and> has off CMODE_l"
  have upd: "c_limit (d\<lparr>c_key := k\<rparr>) = c_limit d" "c_name (d\<lparr>c_key := k\<rparr>) = c_name d"
    "c_name (d\<lparr>c_limit := l\<rparr>) = c_name d" for d :: channel and k l
    by simp_all
  show ?thesis
    unfolding lock_off_def Let_def off_def [symmetric] b prod.case c1_def [symmetric] low off_letters_def
      lock_params_def lock_cmd_def s_def [symmetric] c1 A_def [symmetric]
    by (cases A; cases B)
      (simp_all only: if_True if_False prod.case c1 upd B_def [symmetric] fst_conv append_Nil append_Nil2 append_assoc)
qed


lemma off_letters_net:
  "net_modes (off_letters off c) False ps (fl, lim, key) =
   (fl AND NOT ((c_mode c AND off) AND lockable), if c_limit c \<noteq> 0 \<and> has off CMODE_l then 0 else lim,
    if c_key c \<noteq> None \<and> has off CMODE_k then None else key)"
proof -
  define A where "A \<longleftrightarrow> c_key c \<noteq> None \<and> has off CMODE_k"
  define B where "B \<longleftrightarrow> c_limit c \<noteq> 0 \<and> has off CMODE_l"
  show ?thesis
    unfolding off_letters_def lock_bits_net [OF cmode_table_ok] lock_word_def if_False
      A_def [symmetric] B_def [symmetric]
    by (cases A; cases B) simp_all
qed

definition key_param :: "cstr option \<Rightarrow> cstr list" where
  "key_param nk = (case nk of None \<Rightarrow> [] | Some k \<Rightarrow> [k])"

lemma lock_cmd_net:
  assumes on: "\<And>s ps. net_modes (on @ s) True ((param_list nl @ key_param nk) @ ps) v = net_modes s True ps (fl, lim, key)"
    and key: "nk \<noteq> None \<Longrightarrow> \<not> has off CMODE_k \<and> c_key c = nk"
  shows "net_modes (lock_cmd on (off_letters off c)) True (lock_params nl nk off c) v =
    (fl AND NOT ((c_mode c AND off) AND lockable), if c_limit c \<noteq> 0 \<and> has off CMODE_l then 0 else lim,
     if c_key c \<noteq> None \<and> has off CMODE_k then None else key)"
proof -
  obtain extra where p: "lock_params nl nk off c = (param_list nl @ key_param nk) @ extra"
  proof (cases "c_key c \<noteq> None \<and> has off CMODE_k")
    case True
    then have "nk = None" using key by (cases nk) auto
    with True have "lock_params nl nk off c = (param_list nl @ key_param nk) @ (if nl = None then [the (c_key c)] else [[]])"
      by (auto simp: lock_params_def Let_def param_list_def key_param_def lowered_def split: option.splits)
    then show thesis by (rule that)
  next
    case False
    have "lock_params nl nk off c = (param_list nl @ key_param nk) @ []"
      using False key
      by (cases nl; cases nk) (auto simp: lock_params_def Let_def param_list_def key_param_def lowered_def)
    then show thesis by (rule that)
  qed
  define minus where "minus = (\<lambda>s. if s = [] then [] else CHR ''-'' # s)"
  have minus: "net_modes (minus s) True extra (fl, lim, key) = net_modes s False extra (fl, lim, key)" for s
    by (cases s) (simp_all add: minus_def)
  have "net_modes (lock_cmd on s) True (lock_params nl nk off c) v = net_modes (minus s) True extra (fl, lim, key)" for s
  proof (cases "on = []")
    case True
    then show ?thesis using on [of "minus s" extra] by (simp add: lock_cmd_def minus_def p)
  next
    case False
    obtain f l k where v: "v = (f, l, k)" by (cases v)
    have "net_modes (CHR ''+'' # on @ minus s) True ((param_list nl @ key_param nk) @ extra) v =
        net_modes (on @ minus s) True ((param_list nl @ key_param nk) @ extra) v"
      by (simp add: v)
    also have "\<dots> = net_modes (minus s) True extra (fl, lim, key)" by (rule on)
    finally show ?thesis using False by (simp add: lock_cmd_def minus_def p)
  qed
  then show ?thesis unfolding minus off_letters_net by (simp add: off_letters_net minus)
qed

text \<open>
  The facts about the lock of a channel that the ChanServ SET command sees to: nothing is both
  locked on and locked off.
\<close>

definition lock_consistent :: "sqldb \<Rightarrow> nat \<Rightarrow> bool" where
  "lock_consistent db i \<longleftrightarrow>
     get_mlock_on db i AND get_mlock_off db i = 0 \<and>
     get_mlock_limit db i < 2 ^ 31 \<and>
     (get_mlock_limit db i \<noteq> 0 \<longrightarrow> \<not> has (get_mlock_off db i) CMODE_l) \<and>
     (get_mlock_key db i \<noteq> None \<and> get_mlock_key db i \<noteq> Some [] \<longrightarrow> \<not> has (get_mlock_off db i) CMODE_k)"

definition wanted_key :: "sqldb \<Rightarrow> nat \<Rightarrow> cstr option" where
  "wanted_key db i = (case get_mlock_key db i of None \<Rightarrow> None | Some k \<Rightarrow> if k = [] then None else Some k)"

definition locked :: "sqldb \<Rightarrow> nat \<Rightarrow> modeview \<Rightarrow> modeview" where
  "locked db i v =
     (case v of (fl, lim, key) \<Rightarrow>
        ((fl OR (get_mlock_on db i AND lockable)) AND NOT (get_mlock_off db i AND lockable),
         if has (get_mlock_off db i) CMODE_l then 0 else if get_mlock_limit db i \<noteq> 0 then get_mlock_limit db i else lim,
         if has (get_mlock_off db i) CMODE_k then None else if wanted_key db i \<noteq> None then wanted_key db i else key))"


section \<open>What a check of the lock does\<close>

definition unmoded :: "channel \<Rightarrow> channel" where
  "unmoded c = c\<lparr>c_mode := 0, c_limit := 0, c_key := None, c_server_modetime := 0, c_chanserv_modetime := 0,
     c_server_modecount := 0, c_chanserv_modecount := 0\<rparr>"

lemma unmoded_fields:
  assumes "unmoded c = unmoded d"
  shows "c_name c = c_name d" "c_channel_id c = c_channel_id d" "c_bouncy_modes c = c_bouncy_modes d"
    "c_users c = c_users d" "c_chanops c = c_chanops d" "c_voices c = c_voices d" "c_bans c = c_bans d"
proof -
  show "c_name c = c_name d" using arg_cong [OF assms, of c_name] by (simp add: unmoded_def)
  show "c_channel_id c = c_channel_id d" using arg_cong [OF assms, of c_channel_id] by (simp add: unmoded_def)
  show "c_bouncy_modes c = c_bouncy_modes d" using arg_cong [OF assms, of c_bouncy_modes] by (simp add: unmoded_def)
  show "c_users c = c_users d" using arg_cong [OF assms, of c_users] by (simp add: unmoded_def)
  show "c_chanops c = c_chanops d" using arg_cong [OF assms, of c_chanops] by (simp add: unmoded_def)
  show "c_voices c = c_voices d" using arg_cong [OF assms, of c_voices] by (simp add: unmoded_def)
  show "c_bans c = c_bans d" using arg_cong [OF assms, of c_bans] by (simp add: unmoded_def)
qed

lemma unmoded_simps [simp]:
  "unmoded (c\<lparr>c_mode := m\<rparr>) = unmoded c" "unmoded (c\<lparr>c_limit := l\<rparr>) = unmoded c"
  "unmoded (c\<lparr>c_key := k\<rparr>) = unmoded c" "unmoded (raised db c) = unmoded c" "unmoded (lowered off c) = unmoded c"
  by (simp_all add: unmoded_def raised_def lowered_def)

lemma count_check_eq:
  obtains c0 ms where "count_check now c ns = (c0, ns\<lparr>ns_out := ns_out ns @ ms\<rparr>)" "cview c0 = cview c"
    "unmoded c0 = unmoded c" "\<And>name v. fold (net_msg name) ms v = v"
proof -
  define b where "b \<longleftrightarrow> 3 \<le> sint (c_server_modecount c) \<and> 3 \<le> sint (c_chanserv_modecount c)"
  define m where "m = BouncyModes (c_name c) (sint (c_server_modecount c)) (sint (c_chanserv_modecount c))"
  define c1 where "c1 = (if c_chanserv_modetime c \<noteq> now then c\<lparr>c_chanserv_modecount := 0, c_chanserv_modetime := now\<rparr> else c)"
  have "count_check now c ns = (c1\<lparr>c_chanserv_modecount := c_chanserv_modecount c1 + 1\<rparr>,
      ns\<lparr>ns_out := ns_out ns @ (if b then [m] else [])\<rparr>)"
    unfolding count_check_def Let_def b_def [symmetric] m_def [symmetric] c1_def [symmetric]
    by (simp add: say_def)
  moreover have "cview (c1\<lparr>c_chanserv_modecount := c_chanserv_modecount c1 + 1\<rparr>) = cview c"
    "unmoded (c1\<lparr>c_chanserv_modecount := c_chanserv_modecount c1 + 1\<rparr>) = unmoded c"
    by (simp_all add: cview_def unmoded_def c1_def)
  moreover have "fold (net_msg name) (if b then [m] else []) v = v" for name v by (simp add: m_def)
  ultimately show thesis by (rule that)
qed

lemma view_fields: "cview c = cview d \<Longrightarrow> c_mode c = c_mode d \<and> c_limit c = c_limit d \<and> c_key c = c_key d"
  by (simp add: cview_def)

text \<open>The limit and the key the network is told to set.\<close>

definition told_limit :: "sqldb \<Rightarrow> channel \<Rightarrow> nat \<Rightarrow> nat" where
  "told_limit db c lim = (if limit_param db c = None then lim else get_mlock_limit db (c_channel_id c))"

definition new_key :: "sqldb \<Rightarrow> channel \<Rightarrow> cstr option" where
  "new_key db c = (if c_key c = wanted_key db (c_channel_id c) then None else wanted_key db (c_channel_id c))"

definition told :: "sqldb \<Rightarrow> flags \<Rightarrow> channel \<Rightarrow> channel \<Rightarrow> modeview \<Rightarrow> modeview" where
  "told db off c c2 v =
     (case v of (fl, lim, key) \<Rightarrow>
        ((fl OR on_bits db c) AND NOT ((c_mode c2 AND off) AND lockable),
         if c_limit c2 \<noteq> 0 \<and> has off CMODE_l then 0 else told_limit db c lim,
         if c_key c2 \<noteq> None \<and> has off CMODE_k then None else if new_key db c = None then key else new_key db c))"

lemma lock_command_told:
  assumes cons: "lock_consistent db (c_channel_id c)" and off: "off = get_mlock_off db (c_channel_id c)"
    and c2: "new_key db c \<noteq> None \<Longrightarrow> c_key c2 = new_key db c"
  shows "net_modes (lock_cmd (fst (lock_on db c) @ (if new_key db c = None then [] else ''k'')) (off_letters off c2)) True
      (lock_params (limit_param db c) (new_key db c) off c2) v = told db off c c2 v"
proof -
  obtain fl lim key where v: "v = (fl, lim, key)" by (cases v)
  have l: "get_mlock_limit db (c_channel_id c) < 2 ^ 31" using cons by (simp add: lock_consistent_def)
  have k: "\<not> has off CMODE_k" if "new_key db c \<noteq> None"
    using that cons off by (auto simp: new_key_def wanted_key_def lock_consistent_def split: option.splits if_splits)
  have "net_modes ((fst (lock_on db c) @ (if new_key db c = None then [] else ''k'')) @ s) True
      ((param_list (limit_param db c) @ key_param (new_key db c)) @ ps) v =
      net_modes s True ps (fl OR on_bits db c, told_limit db c lim, if new_key db c = None then key else new_key db c)" for s ps
    unfolding append_assoc v lock_on_net [OF l]
    by (cases "new_key db c"; cases "limit_param db c") (simp_all add: key_param_def told_limit_def)
  then show ?thesis
    using c2 k by (subst lock_cmd_net) (auto simp: told_def v)
qed


definition set_key :: "sqldb \<Rightarrow> channel \<Rightarrow> channel" where
  "set_key db c = (if new_key db c = None then c else c\<lparr>c_key := new_key db c\<rparr>)"

definition settle :: "sqldb \<Rightarrow> channel \<Rightarrow> channel" where
  "settle db c = lowered (get_mlock_off db (c_channel_id c)) (set_key db (raised db c))"

lemma settle_view:
  assumes "lock_consistent db (c_channel_id c)"
  shows "cview (settle db c) = locked db (c_channel_id c) (cview c)"
  by (auto simp: settle_def cview_def lowered_def set_key_def raised_def locked_def new_key_def)

lemma raised_id [simp]: "c_channel_id (raised db c) = c_channel_id c" "c_key (raised db c) = c_key c"
  "c_name (raised db c) = c_name c"
  by (simp_all add: raised_def)

lemma new_key_raised [simp]: "new_key db (raised db c) = new_key db c"
  by (simp add: new_key_def)

lemma told_nothing:
  assumes "lock_cmd (fst (lock_on db c) @ (if new_key db c = None then [] else ''k'')) (off_letters off c2) = []"
    and "lock_consistent db (c_channel_id c)" "off = get_mlock_off db (c_channel_id c)"
    "new_key db c \<noteq> None \<Longrightarrow> c_key c2 = new_key db c"
  shows "told db off c c2 v = v"
  using lock_command_told [OF assms(2-4), of v] assms(1) by simp

text \<open>The end of \<open>check_modes\<close>, where the channel record is \<open>c2\<close> with its key set.\<close>

lemma lock_off_told:
  assumes "lock_consistent db (c_channel_id c)" and "ns_db (cs_ns st) = db" and "c_name c2 = c_name c"
    and "c_channel_id c2 = c_channel_id c" and "new_key db c \<noteq> None \<Longrightarrow> c_key c2 = new_key db c"
  shows "\<exists>ms. lock_off (fst (lock_on db c) @ (if new_key db c = None then [] else ''k'')) (limit_param db c)
      (new_key db c) c2 st =
      put_chan (lowered (get_mlock_off db (c_channel_id c)) c2)
        (st\<lparr>cs_ns := (cs_ns st)\<lparr>ns_out := ns_out (cs_ns st) @ ms\<rparr>\<rparr>) \<and>
    (\<forall>v. fold (net_msg (c_name c)) ms v = told db (get_mlock_off db (c_channel_id c)) c c2 v)"
proof -
  define off where "off = get_mlock_off db (c_channel_id c)"
  define cmd where "cmd = lock_cmd (fst (lock_on db c) @ (if new_key db c = None then [] else ''k'')) (off_letters off c2)"
  define m where "m = ChanMode (c_name c) cmd (lock_params (limit_param db c) (new_key db c) off c2)"
  have "lock_off (fst (lock_on db c) @ (if new_key db c = None then [] else ''k'')) (limit_param db c) (new_key db c) c2 st =
      put_chan (lowered off c2) (st\<lparr>cs_ns := (cs_ns st)\<lparr>ns_out := ns_out (cs_ns st) @ (if cmd = [] then [] else [m])\<rparr>\<rparr>)"
    unfolding lock_off_eq Let_def assms(2,4) off_def [symmetric] cmd_def [symmetric] m_def assms(3)
    by (simp add: tell_def put_chan_def say_def)
  moreover have "fold (net_msg (c_name c)) (if cmd = [] then [] else [m]) v = told db off c c2 v" for v
    using told_nothing [OF _ assms(1) off_def assms(5), of v] lock_command_told [OF assms(1) off_def assms(5), of v]
    unfolding cmd_def [symmetric] by (simp add: m_def)
  ultimately show ?thesis unfolding off_def by blast
qed

lemma set_key_fields [simp]:
  "c_mode (set_key db c) = c_mode c" "c_limit (set_key db c) = c_limit c" "c_name (set_key db c) = c_name c"
  "c_channel_id (set_key db c) = c_channel_id c"
  "c_key (set_key db c) = (if new_key db c = None then c_key c else new_key db c)"
  "unmoded (set_key db c) = unmoded c"
  by (simp_all add: set_key_def)

lemma raised_fields:
  "c_mode (raised db c) = c_mode c OR on_bits db c"
  "c_limit (raised db c) = told_limit db c (c_limit c)"
  by (simp add: on_bits_mode) (simp add: raised_def told_limit_def limit_param_def Let_def)

lemma lowered_fields:
  "c_mode (lowered off c) = c_mode c AND NOT ((c_mode c AND off) AND lockable)"
  "c_limit (lowered off c) = (if c_limit c \<noteq> 0 \<and> has off CMODE_l then 0 else c_limit c)"
  "c_key (lowered off c) = (if c_key c \<noteq> None \<and> has off CMODE_k then None else c_key c)"
  "c_name (lowered off c) = c_name c" "c_channel_id (lowered off c) = c_channel_id c"
  unfolding off_bits_lower by (simp_all add: lowered_def)

lemma told_settle: "told db (get_mlock_off db (c_channel_id c)) c (set_key db (raised db c)) (cview c) = cview (settle db c)"
  unfolding told_def cview_def settle_def prod.case lowered_fields set_key_fields raised_fields raised_id new_key_raised
  by simp


lemma told_cong:
  assumes "cview c0 = cview c" and "c_channel_id c0 = c_channel_id c" and "cview c2 = cview c3"
  shows "told db off c0 c2 v = told db off c c3 v"
proof -
  have "on_bits db c0 = on_bits db c" "told_limit db c0 = told_limit db c" "new_key db c0 = new_key db c"
    using view_fields [OF assms(1)] assms(2)
    by (simp_all only: on_bits_def told_limit_def limit_param_def new_key_def fun_eq_iff simp_thms)
  moreover have "c_mode c2 = c_mode c3" "c_limit c2 = c_limit c3" "c_key c2 = c_key c3"
    using view_fields [OF assms(3)] by simp_all
  ultimately show ?thesis by (simp only: told_def)
qed

lemma settle_cong:
  assumes "cview c0 = cview c" and "c_channel_id c0 = c_channel_id c"
  shows "cview (settle db c0) = cview (settle db c)" "cview (set_key db (raised db c0)) = cview (set_key db (raised db c))"
proof -
  have "new_key db c0 = new_key db c" using view_fields [OF assms(1)] assms(2) by (simp add: new_key_def)
  moreover have "cview (raised db c0) = cview (raised db c)"
    using view_fields [OF assms(1)] assms(2) by (simp add: cview_def raised_def)
  ultimately show k: "cview (set_key db (raised db c0)) = cview (set_key db (raised db c))" by (simp add: cview_def)
  show "cview (settle db c0) = cview (settle db c)"
    using view_fields [OF k] assms(2) unfolding settle_def by (simp only: cview_def lowered_def channel.simps) simp
qed

text \<open>The call up to the treatment of the key.\<close>

lemma check_modes_start:
  assumes "findchan (cs_chans st) name = Some c" and "\<not> c_bouncy_modes c"
    and "count_check now c (cs_ns st) = (c0, ns)" and "lock_on (ns_db ns) c0 = (on, nl, c1)"
    and "st1 = put_chan c1 (st\<lparr>cs_ns := ns\<rparr>)"
  shows "check_modes cfg now name st =
    (case wanted_key (ns_db ns) (c_channel_id c1) of
       None \<Rightarrow> Some (lock_off on nl None c1 st1)
     | Some mlock_key \<Rightarrow>
         (case c_key c1 of
            None \<Rightarrow> Some (lock_off (on @ ''k'') nl (Some mlock_key) (c1\<lparr>c_key := Some mlock_key\<rparr>) st1)
          | Some key \<Rightarrow>
              if key = mlock_key then Some (lock_off on nl None c1 st1)
              else
                do {
                  st \<leftarrow> cmode_body cfg now (s_ChanServ cfg) ''-k'' [key] c1 (tell (ChanMode (c_name c1) ''-k'' [key]) st1);
                  st \<leftarrow> check_modes cfg now (c_name c1) st;
                  case findchan (cs_chans st) (c_name c1) of
                    None \<Rightarrow> None
                  | Some c \<Rightarrow> Some (lock_off (on @ ''k'') nl (Some mlock_key) (c\<lparr>c_key := Some mlock_key\<rparr>) st)
                }))"
  by (subst check_modes.simps) (simp add: assms wanted_key_def split: option.splits)

text \<open>The case in which the key need not be taken away first.\<close>

lemma check_modes_plain:
  assumes "findchan (cs_chans st) name = Some c" and "\<not> c_bouncy_modes c" and "db = ns_db (cs_ns st)"
    and cons: "lock_consistent db (c_channel_id c)"
    and plain: "c_key c = None \<or> new_key db c = None"
  obtains c' ms where "check_modes cfg now name st =
      Some (st\<lparr>cs_chans := chan_put c' (cs_chans st), cs_ns := (cs_ns st)\<lparr>ns_out := ns_out (cs_ns st) @ ms\<rparr>\<rparr>)"
    and "unmoded c' = unmoded c" and "cview c' = cview (settle db c)"
    and "\<And>v. fold (net_msg (c_name c)) ms v =
      told db (get_mlock_off db (c_channel_id c)) c (set_key db (raised db c)) v"
proof -
  obtain c0 ms0 where c0: "count_check now c (cs_ns st) = (c0, cs_ns st\<lparr>ns_out := ns_out (cs_ns st) @ ms0\<rparr>)"
    "cview c0 = cview c" "unmoded c0 = unmoded c" "\<And>name v. fold (net_msg name) ms0 v = v"
    by (rule count_check_eq [of now c "cs_ns st"]) blast
  have n: "c_name c0 = c_name c" "c_channel_id c0 = c_channel_id c" "c_key c0 = c_key c"
    using unmoded_fields [OF c0(3)] view_fields [OF c0(2)] by simp_all
  define st1 where "st1 = put_chan (raised db c0) (st\<lparr>cs_ns := cs_ns st\<lparr>ns_out := ns_out (cs_ns st) @ ms0\<rparr>\<rparr>)"
  have db: "ns_db (cs_ns st1) = db" by (simp add: st1_def put_chan_def assms(3))
  have cons0: "lock_consistent db (c_channel_id c0)" using cons n by simp
  have l: "get_mlock_limit db (c_channel_id c0) < 2 ^ 31" using cons0 by (simp add: lock_consistent_def)
  have on: "lock_on db c0 = (fst (lock_on db c0), limit_param db c0, raised db c0)" using lock_on_eq [OF l] by simp
  have nk: "new_key db c0 = new_key db c" using n by (simp add: new_key_def)
  define final where "final = lock_off (fst (lock_on db c0) @ (if new_key db c0 = None then [] else ''k''))
      (limit_param db c0) (new_key db c0) (set_key db (raised db c0)) st1"
  have db0: "ns_db (cs_ns st\<lparr>ns_out := ns_out (cs_ns st) @ ms0\<rparr>) = db" by (simp add: assms(3))
  have "lock_on (ns_db (cs_ns st\<lparr>ns_out := ns_out (cs_ns st) @ ms0\<rparr>)) c0 =
      (fst (lock_on db c0), limit_param db c0, raised db c0)"
    unfolding db0 by (rule on)
  from check_modes_start [OF assms(1,2) c0(1) this st1_def, of cfg]
  have start: "check_modes cfg now name st =
    (case wanted_key db (c_channel_id c0) of
       None \<Rightarrow> Some (lock_off (fst (lock_on db c0)) (limit_param db c0) None (raised db c0) st1)
     | Some mlock_key \<Rightarrow>
         (case c_key c0 of
            None \<Rightarrow> Some (lock_off (fst (lock_on db c0) @ ''k'') (limit_param db c0) (Some mlock_key)
                (raised db c0\<lparr>c_key := Some mlock_key\<rparr>) st1)
          | Some key \<Rightarrow>
              if key = mlock_key then Some (lock_off (fst (lock_on db c0)) (limit_param db c0) None (raised db c0) st1)
              else
                do {
                  st \<leftarrow> cmode_body cfg now (s_ChanServ cfg) ''-k'' [key] (raised db c0)
                         (tell (ChanMode (c_name c0) ''-k'' [key]) st1);
                  st \<leftarrow> check_modes cfg now (c_name c0) st;
                  case findchan (cs_chans st) (c_name c0) of
                    None \<Rightarrow> None
                  | Some c \<Rightarrow> Some (lock_off (fst (lock_on db c0) @ ''k'') (limit_param db c0) (Some mlock_key)
                      (c\<lparr>c_key := Some mlock_key\<rparr>) st)
                }))"
    unfolding db0 raised_id .
  have eq: "check_modes cfg now name st = Some final"
  proof (cases "new_key db c0")
    case None
    have k: "set_key db (raised db c0) = raised db c0" using None by (simp add: set_key_def)
    have "wanted_key db (c_channel_id c0) = None \<or> c_key c0 = wanted_key db (c_channel_id c0)"
      using None by (auto simp: new_key_def split: if_splits)
    then show ?thesis
      unfolding final_def k None unfolding start by (auto split: option.splits)
  next
    case (Some k)
    then have w: "wanted_key db (c_channel_id c0) = Some k" by (simp add: new_key_def split: if_splits)
    have "c_key c0 = None" using plain Some nk n by simp
    moreover have "set_key db (raised db c0) = raised db c0\<lparr>c_key := Some k\<rparr>" using Some by (simp add: set_key_def)
    ultimately show ?thesis
      unfolding final_def Some start w by simp
  qed
  have side: "c_name (set_key db (raised db c0)) = c_name c0" "c_channel_id (set_key db (raised db c0)) = c_channel_id c0"
    "new_key db c0 \<noteq> None \<Longrightarrow> c_key (set_key db (raised db c0)) = new_key db c0" by auto
  obtain ms where fin: "final = put_chan (lowered (get_mlock_off db (c_channel_id c0)) (set_key db (raised db c0)))
        (st1\<lparr>cs_ns := (cs_ns st1)\<lparr>ns_out := ns_out (cs_ns st1) @ ms\<rparr>\<rparr>)"
    and ms: "\<And>v. fold (net_msg (c_name c0)) ms v =
      told db (get_mlock_off db (c_channel_id c0)) c0 (set_key db (raised db c0)) v"
    using lock_off_told [OF cons0 db side] unfolding final_def [symmetric] by blast
  have final: "final = st\<lparr>cs_chans := chan_put (settle db c0) (cs_chans st),
      cs_ns := (cs_ns st)\<lparr>ns_out := ns_out (cs_ns st) @ ms0 @ ms\<rparr>\<rparr>"
    unfolding fin by (simp add: put_chan_def st1_def settle_def lowered_fields chan_put_put)
  show thesis
  proof (rule that)
    show "check_modes cfg now name st = Some (st\<lparr>cs_chans := chan_put (settle db c0) (cs_chans st),
        cs_ns := (cs_ns st)\<lparr>ns_out := ns_out (cs_ns st) @ (ms0 @ ms)\<rparr>\<rparr>)"
      unfolding eq final ..
    show "unmoded (settle db c0) = unmoded c" using c0(3) by (simp add: settle_def)
    show "cview (settle db c0) = cview (settle db c)" using settle_cong(1) [OF c0(2) n(2)] .
    show "fold (net_msg (c_name c)) (ms0 @ ms) v =
        told db (get_mlock_off db (c_channel_id c)) c (set_key db (raised db c)) v" for v
      using ms [of v] c0(4) told_cong [OF c0(2) n(2) settle_cong(2) [OF c0(2) n(2)]] n by simp
  qed
qed


text \<open>The call back into \<open>do_cmode\<close> takes the key away.\<close>

lemma count_server_eq:
  obtains c1 lm where "count_server_modes cfg now source modestr lm0 c = (c1, lm)" "cview c1 = cview c" "unmoded c1 = unmoded c"
proof -
  have "cview (fst (count_server_modes cfg now source modestr lm0 c)) = cview c \<and>
      unmoded (fst (count_server_modes cfg now source modestr lm0 c)) = unmoded c"
    by (simp add: count_server_modes_def cview_def unmoded_def)
  then show thesis using that by (cases "count_server_modes cfg now source modestr lm0 c") simp
qed

lemma drop_key:
  obtains c2 lm where "cmode_body cfg now source ''-k'' [key] c st = Some (put_chan c2 (st\<lparr>cs_lastmodes := lm\<rparr>))"
    "cview c2 = (c_mode c, c_limit c, None)" "unmoded c2 = unmoded c"
proof -
  obtain c1 lm where c1: "count_server_modes cfg now source ''-k'' (cs_lastmodes st) c = (c1, lm)"
    "cview c1 = cview c" "unmoded c1 = unmoded c" by (rule count_server_eq)
  have "cmode_flag (CHR ''k'') = None" by (simp add: cmode_flag_def cmode_table_def)
  then have "cmode_body cfg now source ''-k'' [key] c st = Some (put_chan (c1\<lparr>c_key := None\<rparr>) (st\<lparr>cs_lastmodes := lm\<rparr>))"
    by (simp add: cmode_body_def c1(1) mode_step_def with_ns_def key_mode_def)
  moreover have "cview (c1\<lparr>c_key := None\<rparr>) = (c_mode c, c_limit c, None)"
    using view_fields [OF c1(2)] by (simp add: cview_def)
  ultimately show thesis using that c1(3) by simp
qed

lemma nested_bits:
  fixes m on off l :: flags
  assumes "on AND off = 0"
  shows "((m AND NOT (((m OR (on AND l)) AND off) AND l)) OR ((NOT m AND on) AND l)) =
    (m OR (on AND l)) AND NOT (off AND l)"
proof (rule bit_word_eqI)
  fix n
  have "\<not> (bit on n \<and> bit off n)" using assms by (metis bit_and_iff bit_0_eq bot_apply bot_bool_def)
  then show "bit ((m AND NOT (((m OR (on AND l)) AND off) AND l)) OR ((NOT m AND on) AND l)) n =
      bit ((m OR (on AND l)) AND NOT (off AND l)) n" if "n < LENGTH(32)"
    using that by (auto simp: bit_and_iff bit_or_iff bit_not_iff)
qed

lemma twice_low: "(x AND NOT (off AND l)) AND NOT (((x AND NOT (off AND l)) AND off) AND l) = x AND NOT (off AND l)"
  for x off l :: flags
  by (intro bit_word_eqI) (auto simp: bit_and_iff bit_or_iff bit_not_iff)

lemma raise_twice: "(x OR (on AND l)) OR (on AND l) = x OR (on AND l)" for x on l :: flags
  by (simp add: or.assoc)

lemma on_bits_raised: "(NOT (m OR (on AND l)) AND on) AND l = 0" for m on l :: flags
  by (intro bit_word_eqI) (auto simp: bit_and_iff bit_or_iff bit_not_iff)


text \<open>The messages of the call inside and of the rest of the call outside, seen by the network.\<close>

lemma nested_told:
  assumes cons: "lock_consistent db i" and off: "off = get_mlock_off db i"
    and id: "c_channel_id c = i" "c_channel_id c2 = i" and w: "wanted_key db i = Some mk" and key: "c_key c = Some key" "key \<noteq> mk"
    and c2: "cview c2 = (c_mode (raised db c), c_limit (raised db c), None)" and c3: "cview c3 = locked db i (cview c)"
  shows "told db off c c3 (told db off c2 (set_key db (raised db c2)) (c_mode c, c_limit c, None)) = cview c3"
proof -
  define on where "on = get_mlock_on db i"
  define ml where "ml = get_mlock_limit db i"
  define m where "m = c_mode c"
  have disj: "on AND off = 0" and offk: "\<not> has off CMODE_k" and offl: "ml \<noteq> 0 \<Longrightarrow> \<not> has off CMODE_l"
    using cons w unfolding lock_consistent_def on_def off ml_def wanted_key_def
    by (auto split: option.splits if_splits)
  have c2': "c_mode c2 = m OR (on AND lockable)" "c_limit c2 = (if ml \<noteq> 0 then ml else c_limit c)" "c_key c2 = None"
    using c2 id by (simp_all add: cview_def raised_def m_def on_def ml_def)
  have n: "new_key db c = Some mk" "new_key db c2 = Some mk" using w key id c2' by (simp_all add: new_key_def)
  have lp2: "limit_param db c2 = None" using c2'(2) id by (simp add: limit_param_def Let_def flip: ml_def)
  have ob2: "on_bits db c2 = 0" unfolding on_bits_def c2'(1) id on_def by (rule on_bits_raised)
  have r2: "c_mode (set_key db (raised db c2)) = m OR (on AND lockable)" "c_limit (set_key db (raised db c2)) = c_limit c2"
    using lp2 ob2 c2'(1) by (simp_all add: raised_fields told_limit_def)
  have inner: "told db off c2 (set_key db (raised db c2)) (m, c_limit c, None) =
      (m AND NOT (((m OR (on AND lockable)) AND off) AND lockable),
       if c_limit c2 \<noteq> 0 \<and> has off CMODE_l then 0 else c_limit c, Some mk)"
    unfolding told_def prod.case r2 ob2 told_limit_def lp2 n(2) using offk by simp
  have c3': "c_mode c3 = (m OR (on AND lockable)) AND NOT (off AND lockable)"
    "c_limit c3 = (if has off CMODE_l then 0 else if ml \<noteq> 0 then ml else c_limit c)" "c_key c3 = Some mk"
    using c3 w offk id by (simp_all add: locked_def cview_def m_def on_def off ml_def)
  have "told db off c c3 (m AND NOT (((m OR (on AND lockable)) AND off) AND lockable),
       if c_limit c2 \<noteq> 0 \<and> has off CMODE_l then 0 else c_limit c, Some mk) =
      (c_mode c3, c_limit c3, c_key c3)"
  proof -
    have "((m AND NOT (((m OR (on AND lockable)) AND off) AND lockable)) OR on_bits db c) AND
        NOT ((c_mode c3 AND off) AND lockable) = c_mode c3"
      unfolding on_bits_def id m_def [symmetric] on_def [symmetric] nested_bits [OF disj] c3'(1) by (rule twice_low)
    moreover have "(if c_limit c3 \<noteq> 0 \<and> has off CMODE_l then 0
        else told_limit db c (if c_limit c2 \<noteq> 0 \<and> has off CMODE_l then 0 else c_limit c)) = c_limit c3"
      using offl id unfolding told_limit_def limit_param_def c3'(2) c2'(2)
      by (auto simp: Let_def simp flip: ml_def)
    ultimately show ?thesis unfolding told_def prod.case n(1) c3'(3) using offk by simp
  qed
  then show ?thesis unfolding m_def [symmetric] inner by (simp add: cview_def)
qed

lemma lowered_locked:
  assumes "cview c = locked db i v"
  shows "cview (lowered (get_mlock_off db i) c) = cview c"
proof -
  have "(x AND NOT y) AND NOT y = x AND NOT y" for x y :: flags by (simp add: and.assoc)
  then show ?thesis using assms by (cases v) (auto simp: cview_def lowered_def locked_def)
qed

lemma net_drop_key: "net_modes ''-k'' True [key] (fl, lim, k) = (fl, lim, None)"
  by simp

lemma check_modes_nested:
  assumes ok: "chans_ok (cs_chans st)" "cstring name" and c: "findchan (cs_chans st) name = Some c" "\<not> c_bouncy_modes c"
    and db: "db = ns_db (cs_ns st)" and cons: "lock_consistent db (c_channel_id c)"
    and key: "c_key c = Some key" and mk: "wanted_key db (c_channel_id c) = Some mk" "key \<noteq> mk"
  shows "\<exists>st' c' ms. check_modes cfg now name st = Some st' \<and> cs_chans st' = chan_put c' (cs_chans st) \<and>
    cs_ns st' = (cs_ns st)\<lparr>ns_out := ns_out (cs_ns st) @ ms\<rparr> \<and>
    unmoded c' = unmoded c \<and> cview c' = locked db (c_channel_id c) (cview c) \<and>
    fold (net_msg (c_name c)) ms (cview c) = cview c'"
proof -
  define i where "i = c_channel_id c"
  define cl where "cl = cs_chans st"
  obtain c0 ms0 where c0: "count_check now c (cs_ns st) = (c0, cs_ns st\<lparr>ns_out := ns_out (cs_ns st) @ ms0\<rparr>)"
    "cview c0 = cview c" "unmoded c0 = unmoded c" "\<And>name v. fold (net_msg name) ms0 v = v"
    by (rule count_check_eq [of now c "cs_ns st"]) blast
  have n: "c_name c0 = c_name c" "c_channel_id c0 = i" "c_key c0 = Some key"
    using unmoded_fields [OF c0(3)] view_fields [OF c0(2)] key by (simp_all add: i_def)
  have cons0: "lock_consistent db (c_channel_id c0)" using cons n by (simp add: i_def)
  have l: "get_mlock_limit db (c_channel_id c0) < 2 ^ 31" using cons0 by (simp add: lock_consistent_def)
  have on: "lock_on db c0 = (fst (lock_on db c0), limit_param db c0, raised db c0)" using lock_on_eq [OF l] by simp
  define st1 where "st1 = put_chan (raised db c0) (st\<lparr>cs_ns := cs_ns st\<lparr>ns_out := ns_out (cs_ns st) @ ms0\<rparr>\<rparr>)"
  define sta where "sta = tell (ChanMode (c_name c) ''-k'' [key]) st1"
  have cl1: "cs_chans sta = chan_put (raised db c0) cl" by (simp add: sta_def st1_def tell_def put_chan_def cl_def)
  have nsa: "cs_ns sta = cs_ns st\<lparr>ns_out := ns_out (cs_ns st) @ ms0 @ [ChanMode (c_name c) ''-k'' [key]]\<rparr>"
    by (simp add: sta_def st1_def tell_def put_chan_def say_def)
  obtain c2 lm where c2: "cmode_body cfg now (s_ChanServ cfg) ''-k'' [key] (raised db c0) sta =
      Some (put_chan c2 (sta\<lparr>cs_lastmodes := lm\<rparr>))"
    "cview c2 = (c_mode (raised db c0), c_limit (raised db c0), None)" "unmoded c2 = unmoded (raised db c0)"
    by (rule drop_key)
  have n2: "c_name c2 = c_name c" "c_channel_id c2 = i" "c_bouncy_modes c2 = c_bouncy_modes c"
    using unmoded_fields [OF c2(3)] unmoded_fields [OF c0(3)] unmoded_fields [OF unmoded_simps(4) [of db c0]] n by simp_all
  define stb where "stb = put_chan c2 (sta\<lparr>cs_lastmodes := lm\<rparr>)"
  have clb: "cs_chans stb = chan_put c2 cl" using cl1 n n2 by (simp add: stb_def put_chan_def chan_put_put)
  have nsb: "cs_ns stb = cs_ns sta" by (simp add: stb_def put_chan_def)
  have fc: "findchan cl (c_name c) = Some c" "cstring (c_name c)"
    using findchan_name [OF ok c(1)] by (simp_all add: cl_def)
  have okl: "chans_ok cl" using ok by (simp add: cl_def)
  have f2: "findchan (cs_chans stb) (c_name c) = Some c2"
    unfolding clb by (rule findchan_put [OF okl fc(2,1) n2(1)])
  have "c_key c2 = None" using c2(2) by (simp add: cview_def)
  then obtain c3 ms3 where c3: "check_modes cfg now (c_name c) stb =
      Some (stb\<lparr>cs_chans := chan_put c3 (cs_chans stb), cs_ns := (cs_ns stb)\<lparr>ns_out := ns_out (cs_ns stb) @ ms3\<rparr>\<rparr>)"
    "unmoded c3 = unmoded c2" "cview c3 = cview (settle db c2)"
    "\<And>v. fold (net_msg (c_name c2)) ms3 v = told db (get_mlock_off db (c_channel_id c2)) c2 (set_key db (raised db c2)) v"
    using check_modes_plain [OF f2, of db cfg now] c(2) n2 cons nsb nsa db
    by (simp add: i_def) blast
  define stc where "stc = stb\<lparr>cs_chans := chan_put c3 (cs_chans stb), cs_ns := (cs_ns stb)\<lparr>ns_out := ns_out (cs_ns stb) @ ms3\<rparr>\<rparr>"
  have n3: "c_name c3 = c_name c" "c_channel_id c3 = i" using unmoded_fields [OF c3(2)] n2 by simp_all
  have clc: "cs_chans stc = chan_put c3 cl" using n2 n3 by (simp add: stc_def clb chan_put_put)
  have f3: "findchan (cs_chans stc) (c_name c) = Some c3"
    unfolding clc by (rule findchan_put [OF okl fc(2,1) n3(1)])
  have v3: "cview c3 = locked db i (cview c)"
    unfolding c3(3) settle_view [OF cons [folded i_def, folded n2(2)]] n2(2) c2(2)
    using view_fields [OF c0(2)] mk(1) n by (auto simp: locked_def cview_def raised_def raise_twice i_def)
  define c4 where "c4 = c3\<lparr>c_key := Some mk\<rparr>"
  have w: "wanted_key db i = Some mk" using mk by (simp add: i_def)
  have offk: "\<not> has (get_mlock_off db i) CMODE_k"
    using cons w by (auto simp: lock_consistent_def wanted_key_def i_def split: option.splits if_splits)
  have "c_key c3 = Some mk" using v3 w offk by (simp add: cview_def locked_def split: prod.splits)
  then have v4: "cview c4 = locked db i (cview c)" using v3 by (simp add: c4_def cview_def)
  have n4: "c_name c4 = c_name c0" "c_channel_id c4 = c_channel_id c0" using n3 n by (simp_all add: c4_def)
  have nk: "new_key db c0 = Some mk" using w n mk(2) by (simp add: new_key_def)
  define off where "off = get_mlock_off db i"
  have "\<exists>ms4. lock_off (fst (lock_on db c0) @ ''k'') (limit_param db c0) (Some mk) c4 stc =
        put_chan (lowered off c4) (stc\<lparr>cs_ns := (cs_ns stc)\<lparr>ns_out := ns_out (cs_ns stc) @ ms4\<rparr>\<rparr>) \<and>
      (\<forall>v. fold (net_msg (c_name c0)) ms4 v = told db off c0 c4 v)"
  proof -
    have "ns_db (cs_ns stc) = db" by (simp add: stc_def nsb nsa db)
    moreover have "new_key db c0 \<noteq> None \<Longrightarrow> c_key c4 = new_key db c0" by (simp add: nk c4_def)
    ultimately show ?thesis
      using lock_off_told [OF cons0 _ n4, of stc] unfolding nk n(2) off_def by simp
  qed
  then obtain ms4 where ms4: "lock_off (fst (lock_on db c0) @ ''k'') (limit_param db c0) (Some mk) c4 stc =
        put_chan (lowered off c4) (stc\<lparr>cs_ns := (cs_ns stc)\<lparr>ns_out := ns_out (cs_ns stc) @ ms4\<rparr>\<rparr>)"
    "\<And>v. fold (net_msg (c_name c0)) ms4 v = told db off c0 c4 v" by blast
  define c5 where "c5 = lowered off c4"
  define ms where "ms = ms0 @ [ChanMode (c_name c) ''-k'' [key]] @ ms3 @ ms4"
  define st' where "st' = put_chan c5 (stc\<lparr>cs_ns := (cs_ns stc)\<lparr>ns_out := ns_out (cs_ns stc) @ ms4\<rparr>\<rparr>)"
  have v5: "cview c5 = cview c4" unfolding c5_def off_def by (rule lowered_locked [OF v4])
  have "cview c0 = (c_mode c, c_limit c, Some key)" using c0(2) key by (simp add: cview_def)
  have told: "told db off c0 c4 (told db off c2 (set_key db (raised db c2)) (c_mode c0, c_limit c0, None)) = cview c4"
    using cons by (intro nested_told [OF _ off_def n(2) n2(2) w n(3) mk(2) c2(2)]) (simp_all add: i_def v4 c0(2))
  have "fold (net_msg (c_name c)) ms (cview c) = cview c5"
    using c0(4) c3(4) ms4(2) told n(1) n2(1,2) view_fields [OF c0(2)]
    unfolding ms_def v5 off_def by (simp add: cview_def net_drop_key del: net_modes.simps)
  moreover have "check_modes cfg now name st = Some st'"
  proof -
    have db0: "ns_db (cs_ns st\<lparr>ns_out := ns_out (cs_ns st) @ ms0\<rparr>) = db" by (simp add: db)
    have "lock_on (ns_db (cs_ns st\<lparr>ns_out := ns_out (cs_ns st) @ ms0\<rparr>)) c0 =
        (fst (lock_on db c0), limit_param db c0, raised db c0)"
      unfolding db0 by (rule on)
    from check_modes_start [OF c c0(1) this st1_def, of cfg] show ?thesis
      unfolding db0 raised_id n(2,3) w option.case n(1) sta_def [symmetric, unfolded n(1)]
      using mk(2) c2(1) c3(1) f3 ms4(1)
      by (simp add: sta_def [symmetric] stb_def [symmetric] stc_def [symmetric] st'_def c5_def c4_def)
  qed
  moreover have "cs_chans st' = chan_put c5 (cs_chans st)"
    using n3 n4 n by (simp add: st'_def put_chan_def clc chan_put_put c5_def c4_def lowered_fields cl_def)
  moreover have "cs_ns st' = (cs_ns st)\<lparr>ns_out := ns_out (cs_ns st) @ ms\<rparr>"
    by (simp add: st'_def put_chan_def stc_def nsb nsa ms_def)
  moreover have "unmoded c5 = unmoded c"
    using c3(2) c2(3) c0(3) by (simp add: c5_def c4_def)
  moreover have "cview c5 = locked db (c_channel_id c) (cview c)" using v4 v5 by (simp add: i_def)
  ultimately show ?thesis by blast
qed


lemma check_modes_ok:
  assumes ok: "chans_ok (cs_chans st)" "cstring name" and c: "findchan (cs_chans st) name = Some c" "\<not> c_bouncy_modes c"
    and cons: "lock_consistent (ns_db (cs_ns st)) (c_channel_id c)"
  shows "\<exists>st' c' ms. check_modes cfg now name st = Some st' \<and> cs_chans st' = chan_put c' (cs_chans st) \<and>
    cs_ns st' = (cs_ns st)\<lparr>ns_out := ns_out (cs_ns st) @ ms\<rparr> \<and>
    unmoded c' = unmoded c \<and> cview c' = locked (ns_db (cs_ns st)) (c_channel_id c) (cview c) \<and>
    fold (net_msg (c_name c)) ms (cview c) = cview c'"
proof -
  define db where "db = ns_db (cs_ns st)"
  have cons': "lock_consistent db (c_channel_id c)" using cons by (simp add: db_def)
  show ?thesis
  proof (cases "c_key c = None \<or> new_key db c = None")
    case True
    obtain c' ms where *: "check_modes cfg now name st =
        Some (st\<lparr>cs_chans := chan_put c' (cs_chans st), cs_ns := (cs_ns st)\<lparr>ns_out := ns_out (cs_ns st) @ ms\<rparr>\<rparr>)"
      "unmoded c' = unmoded c" "cview c' = cview (settle db c)"
      "fold (net_msg (c_name c)) ms (cview c) =
        told db (get_mlock_off db (c_channel_id c)) c (set_key db (raised db c)) (cview c)"
      using check_modes_plain [OF c db_def cons' True, of cfg now] by blast
    have "cview c' = locked db (c_channel_id c) (cview c)" unfolding *(3) by (rule settle_view [OF cons'])
    moreover have "fold (net_msg (c_name c)) ms (cview c) = cview c'" unfolding *(3,4) by (rule told_settle)
    moreover define st' where "st' = st\<lparr>cs_chans := chan_put c' (cs_chans st),
        cs_ns := (cs_ns st)\<lparr>ns_out := ns_out (cs_ns st) @ ms\<rparr>\<rparr>"
    moreover have "cs_chans st' = chan_put c' (cs_chans st)"
      "cs_ns st' = (cs_ns st)\<lparr>ns_out := ns_out (cs_ns st) @ ms\<rparr>" by (simp_all add: st'_def)
    ultimately show ?thesis using *(1,2) unfolding db_def [symmetric] by blast
  next
    case False
    then obtain key mk where "c_key c = Some key" "wanted_key db (c_channel_id c) = Some mk" "key \<noteq> mk"
      by (auto simp: new_key_def split: if_splits)
    from check_modes_nested [OF ok c db_def cons' this, of cfg now] show ?thesis by (simp flip: db_def)
  qed
qed


section \<open>MODE commands\<close>

text \<open>Every user that is a member of a channel is online.\<close>

definition members_ok :: "userlist \<Rightarrow> channel \<Rightarrow> bool" where
  "members_ok ul c \<longleftrightarrow> set (c_users c) \<union> set (c_chanops c) \<union> set (c_voices c) \<subseteq> u_uid ` set (all_users ul)"

lemma user_at_Some: "i \<in> u_uid ` set (all_users ul) \<Longrightarrow> \<exists>u. user_at ul i = Some u"
  unfolding user_at_def using find_None_iff [of "\<lambda>u. u_uid u = i" "all_users ul"] by fastforce

lemma nick_scan_ok:
  "set is \<subseteq> u_uid ` set (all_users ul) \<Longrightarrow> \<exists>r. nick_scan ul nick is = Some r"
proof (induction "is")
  case (Cons i js)
  then obtain u where "user_at ul i = Some u" using user_at_Some [of i ul] by auto
  with Cons show ?case by simp
qed simp

lemma finduser_all: "finduser ul nick = Some u \<Longrightarrow> u \<in> set (all_users ul)"
proof -
  assume "finduser ul nick = Some u"
  then have "u \<in> set (ul (HASH nick))" unfolding finduser_def by (auto dest: find_Some_set)
  then show ?thesis using HASH_lt [of nick] unfolding all_users_set by blast
qed

lemma finduser_online: "finduser ul nick = Some u \<Longrightarrow> u_uid u \<in> u_uid ` set (all_users ul)"
  using finduser_all by fast

text \<open>
  The state a MODE command runs in, relative to the state at its start.  Operators and voiced users
  stay in a set \<open>S\<close> of users online that has everyone whom the parameters name.
\<close>

definition named_in :: "userlist \<Rightarrow> nat set \<Rightarrow> cstr list \<Rightarrow> bool" where
  "named_in ul S av \<longleftrightarrow> (\<forall>a\<in>set av. \<forall>u. finduser ul a = Some u \<longrightarrow> u_uid u \<in> S)"

definition rights_ok :: "bool \<Rightarrow> userlist \<Rightarrow> nat set \<Rightarrow> channel \<Rightarrow> channel \<Rightarrow> bool" where
  "rights_ok D ul S c0 c \<longleftrightarrow>
     set (c_users c) \<subseteq> u_uid ` set (all_users ul) \<and> S \<subseteq> u_uid ` set (all_users ul) \<and>
     set (c_chanops c) \<union> set (c_voices c) \<subseteq> S \<and>
     (D \<and> distinct (c_chanops c0) \<longrightarrow> distinct (c_chanops c)) \<and>
     (D \<and> distinct (c_voices c0) \<longrightarrow> distinct (c_voices c))"

text \<open>With proper tables and parameters (\<open>D\<close>), nobody is listed twice.\<close>

definition mode_inv :: "bool \<Rightarrow> nat set \<Rightarrow> ns_state \<Rightarrow> channel \<Rightarrow> params \<Rightarrow> channel \<Rightarrow> ns_state \<Rightarrow> bool" where
  "mode_inv D S ns0 c0 p c ns \<longleftrightarrow>
     (\<exists>ms. quiet ms ns0 ns) \<and> fst p \<le> int (length (snd p)) \<and> rights_ok D (ns_users ns0) S c0 c \<and>
     named_in (ns_users ns0) S (snd p) \<and> (D \<longrightarrow> users_ok (ns_users ns0) \<and> (\<forall>a\<in>set (snd p). cstring a)) \<and>
     c_name c = c_name c0 \<and> c_channel_id c = c_channel_id c0 \<and> c_bouncy_modes c = c_bouncy_modes c0 \<and>
     c_users c = c_users c0"

lemma mode_inv_params:
  assumes "mode_inv D S ns0 c0 p c ns" and "fst p' \<le> int (length (snd p'))" and "set (snd p') \<subseteq> set (snd p)"
    and "c_name c' = c_name c"
    and "c_channel_id c' = c_channel_id c" and "c_bouncy_modes c' = c_bouncy_modes c" and "c_users c' = c_users c"
    and "set (c_chanops c') \<union> set (c_voices c') \<subseteq> S"
    and "D \<Longrightarrow> distinct (c_chanops c) \<Longrightarrow> distinct (c_chanops c')"
    and "D \<Longrightarrow> distinct (c_voices c) \<Longrightarrow> distinct (c_voices c')"
  shows "mode_inv D S ns0 c0 p' c' ns"
  using assms by (auto simp: mode_inv_def rights_ok_def named_in_def)

lemma members_sub: "mode_inv D S ns0 c0 p c ns \<Longrightarrow>
    set (c_chanops c) \<subseteq> S \<and> set (c_voices c) \<subseteq> S \<and> S \<subseteq> u_uid ` set (all_users (ns_users ns0))"
  by (auto simp: mode_inv_def rights_ok_def)

text \<open>A user whom the search of a list does not find is not on it.\<close>

lemma user_at_uid:
  assumes "users_ok ul" and "u \<in> set (all_users ul)"
  shows "user_at ul (u_uid u) = Some u"
proof -
  obtain v where v: "user_at ul (u_uid u) = Some v" using user_at_Some [of "u_uid u" ul] assms(2) by auto
  then have "v \<in> set (all_users ul)" "u_uid v = u_uid u"
    unfolding user_at_def by (auto dest: find_Some_set)
  then have "v = u" using assms by (auto simp: users_ok_def all_users_set)
  then show ?thesis using v by simp
qed

lemma nick_scan_none:
  assumes "users_ok ul" and "cstring nick" and "nick_scan ul nick is = Some None" and "finduser ul nick = Some u"
  shows "u_uid u \<notin> set is"
  using assms(3)
proof (induction "is")
  case (Cons i js)
  obtain v where v: "user_at ul i = Some v" "strlower (u_nick v) \<noteq> strlower nick" "nick_scan ul nick js = Some None"
    using Cons.prems by (auto split: option.splits if_splits)
  have "u \<in> set (all_users ul)" "strlower (u_nick u) = strlower nick"
    using assms(4) finduser_char [OF assms(1,2)] by simp_all
  then show ?case using v Cons.IH user_at_uid [OF assms(1), of u] by auto
qed simp

lemma param_left: "mode_inv D S ns0 c0 (ac, av) c ns \<Longrightarrow> \<not> ac - 1 < 0 \<Longrightarrow> \<exists>a av'. av = a # av' \<and> ac - 1 \<le> int (length av')"
  by (cases av) (auto simp: mode_inv_def)

lemma op_mode_inv:
  assumes inv: "mode_inv D S ns0 c0 p c ns" and known: "\<forall>u\<in>set (all_users (ns_users ns0)). known (ns_db ns0) u"
  shows "\<exists>p' c' ns'. op_mode cfg now source add p c ns = Some (p', c', ns') \<and> mode_inv D S ns0 c0 p' c' ns'"
proof -
  obtain ac av where p: "p = (ac, av)" by (cases p)
  obtain ms where q: "quiet ms ns0 ns" using inv by (auto simp: mode_inv_def)
  have ul: "ns_users ns = ns_users ns0" by (rule quiet_users [OF q])
  note sub = members_sub [OF inv]
  show ?thesis
  proof (cases "ac - 1 < 0")
    case True
    have "mode_inv D S ns0 c0 (ac - 1, av) c ns"
      by (rule mode_inv_params [OF inv]) (use True inv sub in \<open>auto simp: mode_inv_def p\<close>)
    then show ?thesis using True by (simp add: op_mode_def p)
  next
    case False
    obtain nick av' where av: "av = nick # av'" "ac - 1 \<le> int (length av')"
      using param_left [of D S ns0 c0 ac av c ns] inv False p by auto
    obtain r where r: "nick_scan (ns_users ns0) nick (c_chanops c) = Some r"
      using nick_scan_ok sub by blast
    have keep: "mode_inv D S ns0 c0 (ac - 1, av') (c\<lparr>c_chanops := is\<rparr>) ns"
      if "set is \<subseteq> S" "D \<Longrightarrow> distinct (c_chanops c) \<Longrightarrow> distinct is" for "is"
      by (rule mode_inv_params [OF inv]) (use that av sub in \<open>auto simp: p\<close>)
    have same: "mode_inv D S ns0 c0 (ac - 1, av') c ns"
      by (rule mode_inv_params [OF inv]) (use av sub in \<open>auto simp: p\<close>)
    have found: "u_uid u \<in> S" if "finduser (ns_users ns0) nick = Some u" for u
      using inv that by (auto simp: mode_inv_def named_in_def p av)
    have proper: "users_ok (ns_users ns0)" "cstring nick" if D
      using inv that by (auto simp: mode_inv_def p av)
    show ?thesis
    proof (cases "r = None \<and> add \<and> finduser (ns_users ns0) nick \<noteq> None")
      case no_op: False
      show ?thesis
      proof (cases r)
        case None
        then have "op_mode cfg now source add p c ns = Some ((ac - 1, av'), c, ns)"
          unfolding op_mode_def p Let_def prod.case av list.case ul r option.case
          using no_op False by (auto split: option.splits)
        then show ?thesis using same by blast
      next
        case (Some i)
        then have "op_mode cfg now source add p c ns =
            Some ((ac - 1, av'), if add then c else c\<lparr>c_chanops := remove1 i (c_chanops c)\<rparr>, ns)"
          using r False by (simp add: op_mode_def p av ul)
        moreover have "set (remove1 i (c_chanops c)) \<subseteq> S"
          using set_remove1_subset [of i "c_chanops c"] sub by blast
        ultimately show ?thesis using same keep by (cases add) auto
      qed
    next
      case True
      then obtain u where u: "finduser (ns_users ns0) nick = Some u" "r = None" add by auto
      have "known (ns_db ns) u"
        using known finduser_all [OF u(1)] quiet_facts(5) [OF q] by (simp add: known_def)
      from yieldsD [OF check_valid_op_yields [OF quiet_ok [OF q] this, of cfg now "c_name c" "CHR ''.'' \<in> set source"]]
      obtain ok ns' ms' where ns': "check_valid_op cfg now u (c_name c) (CHR ''.'' \<in> set source) ns = Some (ok, ns')"
        "quiet ms' ns ns'" by blast
      have "mode_inv D S ns0 c0 (ac - 1, av') (if ok then c\<lparr>c_chanops := u_uid u # c_chanops c\<rparr> else c) ns"
        using keep [of "u_uid u # c_chanops c"] same found [OF u(1)] sub nick_scan_none [OF proper, of "c_chanops c" u] r u
        by (cases ok) simp_all
      then have "mode_inv D S ns0 c0 (ac - 1, av') (if ok then c\<lparr>c_chanops := u_uid u # c_chanops c\<rparr> else c) ns'"
        using quiet_trans [OF q ns'(2)] by (auto simp: mode_inv_def)
      then show ?thesis
        unfolding op_mode_def p Let_def prod.case av list.case ul r u option.case ns'(1)
        using False True by simp
    qed
  qed
qed


lemma voice_mode_inv:
  assumes inv: "mode_inv D S ns0 c0 p c ns"
  shows "\<exists>p' c'. voice_mode add p c (ns_users ns0) = Some (p', c') \<and> mode_inv D S ns0 c0 p' c' ns"
proof -
  obtain ac av where p: "p = (ac, av)" by (cases p)
  note sub = members_sub [OF inv]
  show ?thesis
  proof (cases "ac - 1 < 0")
    case True
    have "mode_inv D S ns0 c0 (ac - 1, av) c ns"
      by (rule mode_inv_params [OF inv]) (use True inv sub in \<open>auto simp: mode_inv_def p\<close>)
    then show ?thesis using True by (simp add: voice_mode_def p)
  next
    case False
    obtain nick av' where av: "av = nick # av'" "ac - 1 \<le> int (length av')"
      using param_left [of D S ns0 c0 ac av c ns] inv False p by auto
    obtain r where r: "nick_scan (ns_users ns0) nick (c_voices c) = Some r"
      using nick_scan_ok sub by blast
    have keep: "mode_inv D S ns0 c0 (ac - 1, av') (c\<lparr>c_voices := is\<rparr>) ns"
      if "set is \<subseteq> S" "D \<Longrightarrow> distinct (c_voices c) \<Longrightarrow> distinct is" for "is"
      by (rule mode_inv_params [OF inv]) (use that av sub in \<open>auto simp: p\<close>)
    have same: "mode_inv D S ns0 c0 (ac - 1, av') c ns"
      by (rule mode_inv_params [OF inv]) (use av sub in \<open>auto simp: p\<close>)
    have proper: "users_ok (ns_users ns0)" "cstring nick" if D
      using inv that by (auto simp: mode_inv_def p av)
    have push: "mode_inv D S ns0 c0 (ac - 1, av') (c\<lparr>c_voices := u_uid u # c_voices c\<rparr>) ns"
      if "finduser (ns_users ns0) nick = Some u" "r = None" for u
    proof -
      have "u_uid u \<in> S" using inv that by (auto simp: mode_inv_def named_in_def p av)
      then show ?thesis
        using keep [of "u_uid u # c_voices c"] sub nick_scan_none [OF proper, of "c_voices c" u] r that by simp
    qed
    have drop: "mode_inv D S ns0 c0 (ac - 1, av') (c\<lparr>c_voices := remove1 i (c_voices c)\<rparr>) ns" for i
      using keep [of "remove1 i (c_voices c)"] set_remove1_subset [of i "c_voices c"] sub by auto
    show ?thesis
      unfolding voice_mode_def p Let_def prod.case av list.case r
      using False same push drop by (cases add) (auto split: option.splits)
  qed
qed

lemma mode_step_inv:
  assumes inv: "mode_inv D S ns0 c0 p c ns" and known: "\<forall>u\<in>set (all_users (ns_users ns0)). known (ns_db ns0) u"
  shows "\<exists>p' c' ns'. mode_step cfg now source m add p c ns = Some (p', c', ns') \<and> mode_inv D S ns0 c0 p' c' ns'"
proof -
  obtain ac av where p: "p = (ac, av)" by (cases p)
  obtain ms where q: "quiet ms ns0 ns" using inv by (auto simp: mode_inv_def)
  have ul: "ns_users ns = ns_users ns0" by (rule quiet_users [OF q])
  note sub = members_sub [OF inv]
  have flag: "mode_inv D S ns0 c0 p (set_cmode add f c) ns" for f
    by (rule mode_inv_params [OF inv]) (use inv sub in \<open>auto simp: set_cmode_def mode_inv_def\<close>)
  have other: "mode_inv D S ns0 c0 p' c' ns"
    if "fst p' \<le> int (length (snd p'))" "c_name c' = c_name c" "c_channel_id c' = c_channel_id c"
      "c_bouncy_modes c' = c_bouncy_modes c" "c_users c' = c_users c" "c_chanops c' = c_chanops c" "c_voices c' = c_voices c"
      "set (snd p') \<subseteq> set (snd p)"
    for p' c' by (rule mode_inv_params [OF inv]) (use that sub in auto)
  have le: "ac \<le> int (length av)" using inv by (simp add: mode_inv_def p)
  have key: "\<exists>p' c'. key_mode add p c = Some (p', c') \<and> mode_inv D S ns0 c0 p' c' ns"
    using le param_left [of D S ns0 c0 ac av c ns] inv
    by (cases av) (auto simp: key_mode_def p Let_def intro!: other)
  have limit: "\<exists>p' c'. limit_mode add p c = Some (p', c') \<and> mode_inv D S ns0 c0 p' c' ns"
    using le by (cases av) (auto simp: limit_mode_def p Let_def intro!: other)
  have ban: "\<exists>p' c'. ban_mode now add p c = Some (p', c') \<and> mode_inv D S ns0 c0 p' c' ns"
    using le by (cases av) (auto simp: ban_mode_def p Let_def intro!: other)
  have lift: "\<exists>p' c' ns'. with_ns r ns = Some (p', c', ns') \<and> mode_inv D S ns0 c0 p' c' ns'"
    if "\<exists>p' c'. r = Some (p', c') \<and> mode_inv D S ns0 c0 p' c' ns" for r
    using that by (auto simp: with_ns_def)
  note params = lift [OF key] lift [OF limit] lift [OF ban] lift [OF voice_mode_inv [OF inv]]
    op_mode_inv [OF inv known, of cfg now source add]
  show ?thesis
  proof (cases "cmode_flag m")
    case (Some f)
    then show ?thesis using flag by (simp add: mode_step_def)
  next
    case None
    show ?thesis
      unfolding mode_step_def None option.case ul
      using params inv
      by (cases "m = CHR ''k''"; cases "m = CHR ''l''"; cases "m = CHR ''b''"; cases "m = CHR ''o''"; cases "m = CHR ''v''")
        (simp_all only: if_True if_False, auto)
  qed
qed

lemma mode_loop_inv:
  assumes known: "\<forall>u\<in>set (all_users (ns_users ns0)). known (ns_db ns0) u"
  shows "mode_inv D S ns0 c0 p c ns \<Longrightarrow>
    \<exists>p' c' ns'. mode_loop cfg now source s add p c ns = Some (c', ns') \<and> mode_inv D S ns0 c0 p' c' ns'"
proof (induction s arbitrary: add p c ns)
  case (Cons m s)
  obtain p1 c1 ns1 where s1: "mode_step cfg now source m add p c ns = Some (p1, c1, ns1)" "mode_inv D S ns0 c0 p1 c1 ns1"
    using mode_step_inv [OF Cons.prems known] by blast
  show ?case
  proof (cases "m = CHR ''+'' \<or> m = CHR ''-''")
    case True
    then show ?thesis using Cons.IH [OF Cons.prems] by auto
  next
    case False
    then show ?thesis using Cons.IH [OF s1(2), of add] s1(1) by auto
  qed
qed auto


lemma touched_mlock:
  assumes "touched db db'"
  shows "get_mlock_on db' i = get_mlock_on db i" "get_mlock_off db' i = get_mlock_off db i"
    "get_mlock_limit db' i = get_mlock_limit db i" "get_mlock_key db' i = get_mlock_key db i"
proof -
  have m: "map_option used_chan (sql_first (\<lambda>r. cr_id r = i) (t_channel db')) =
      map_option used_chan (sql_first (\<lambda>r. cr_id r = i) (t_channel db))"
    by (rule touched_find [OF assms]) simp
  show "get_mlock_on db' i = get_mlock_on db i"
    using used_same [OF m, of cr_mlock_on 0] by (simp add: get_mlock_on_def chan.row_def used_chan_def)
  show "get_mlock_off db' i = get_mlock_off db i"
    using used_same [OF m, of cr_mlock_off 0] by (simp add: get_mlock_off_def chan.row_def used_chan_def)
  show "get_mlock_limit db' i = get_mlock_limit db i"
    using used_same [OF m, of cr_mlock_limit 0] by (simp add: get_mlock_limit_def chan.row_def used_chan_def)
  show "get_mlock_key db' i = get_mlock_key db i"
    using used_same [OF m, of "\<lambda>r. Some (cr_mlock_key r)" None] by (simp add: get_mlock_key_def chan.row_def used_chan_def)
qed

lemma touched_locked:
  assumes "touched db db'"
  shows "lock_consistent db' i = lock_consistent db i" "locked db' i v = locked db i v"
  unfolding lock_consistent_def locked_def wanted_key_def touched_mlock [OF assms, of i] by (rule refl)+

lemma locked_twice:
  assumes "lock_consistent db i"
  shows "locked db i (locked db i v) = locked db i v"
proof -
  have e: "(((x OR on) AND NOT off) OR on) AND NOT off = (x OR on) AND NOT off" for x on off :: flags
    by (intro bit_word_eqI) (auto simp: bit_and_iff bit_or_iff bit_not_iff)
  obtain fl lim key where v: "v = (fl, lim, key)" by (cases v)
  show ?thesis unfolding v locked_def prod.case e by simp
qed

lemma quiet_out:
  assumes "quiet ms ns0 ns"
  shows "quiet (ms @ ms') ns0 (ns\<lparr>ns_out := ns_out ns @ ms'\<rparr>)"
proof -
  have "mine_ok (ns\<lparr>ns_out := ns_out ns @ ms'\<rparr>) = mine_ok ns" by (rule mine_ok_cong) simp_all
  then show ?thesis using assms by (simp add: quiet_def ns_ok_def)
qed

definition all_known :: "ns_state \<Rightarrow> bool" where
  "all_known ns \<longleftrightarrow> (\<forall>u\<in>set (all_users (ns_users ns)). known (ns_db ns) u)"

lemma unmoded_members: "unmoded c = unmoded d \<Longrightarrow> members_ok ul c = members_ok ul d"
  using unmoded_fields [of c d] by (simp add: members_ok_def)

text \<open>A MODE command whose letters have been read, under the mode lock.\<close>

lemma do_cmode_settled:
  assumes ok: "chans_ok (cs_chans st)" "cstring name" and c: "findchan (cs_chans st) name = Some c" "\<not> c_bouncy_modes c2"
    and n2: "c_name c2 = c_name c" "c_channel_id c2 = c_channel_id c"
    and body: "cmode_body cfg now source modestr args c st = Some (put_chan c2 (st\<lparr>cs_ns := ns2, cs_lastmodes := lm\<rparr>))"
    and q2: "quiet ms2 (cs_ns st) ns2"
    and cons: "lock_consistent (ns_db (cs_ns st)) (c_channel_id c)"
  shows "\<exists>st' c' ms. do_cmode cfg now source name modestr args st = Some st' \<and>
    findchan (cs_chans st') name = Some c' \<and> cs_chans st' = chan_put c' (cs_chans st) \<and>
    locked (ns_db (cs_ns st)) (c_channel_id c) (cview c') = cview c' \<and>
    unmoded c' = unmoded c2 \<and> quiet ms (cs_ns st) (cs_ns st')"
proof -
  define cl where "cl = cs_chans st"
  define ns0 where "ns0 = cs_ns st"
  define i where "i = c_channel_id c"
  define st2 where "st2 = put_chan c2 (st\<lparr>cs_ns := ns2, cs_lastmodes := lm\<rparr>)"
  have q2: "quiet ms2 ns0 ns2" using q2 by (simp add: ns0_def)
  have n2: "c_name c2 = c_name c" "c_channel_id c2 = i" using n2 by (simp_all add: i_def)
  have cl2: "cs_chans st2 = chan_put c2 cl" "cs_ns st2 = ns2" by (simp_all add: st2_def put_chan_def cl_def)
  have okl: "chans_ok cl" using ok by (simp add: cl_def)
  have fc: "findchan cl name = Some c" using c(1) by (simp add: cl_def)
  note fn = findchan_name [OF okl ok(2) fc]
  have f2: "findchan (cs_chans st2) (c_name c2) = Some c2"
    unfolding cl2 n2(1) by (rule findchan_put [OF okl fn(2,1) n2(1)])
  have t: "touched (ns_db ns0) (ns_db ns2)" by (rule quiet_touched [OF q2])
  have cons2: "lock_consistent (ns_db (cs_ns st2)) (c_channel_id c2)"
    using cons touched_locked(1) [OF t] n2(2) cl2 by (simp add: ns0_def i_def)
  have "chans_ok (cs_chans st2)" unfolding cl2 by (rule chan_put_ok [OF okl])
  then obtain st3 c3 ms3 where st3: "check_modes cfg now (c_name c2) st2 = Some st3"
    "cs_chans st3 = chan_put c3 (cs_chans st2)" "cs_ns st3 = (cs_ns st2)\<lparr>ns_out := ns_out (cs_ns st2) @ ms3\<rparr>"
    "unmoded c3 = unmoded c2" "cview c3 = locked (ns_db (cs_ns st2)) (c_channel_id c2) (cview c2)"
    using check_modes_ok [OF _ _ f2 c(2) cons2, of cfg now] fn(2) n2(1) by auto
  note f3 = unmoded_fields [OF st3(4)]
  have cl3: "cs_chans st3 = chan_put c3 cl" using f3 by (simp add: st3(2) cl2 chan_put_put)
  have "findchan (cs_chans st3) name = Some c3"
    unfolding cl3 using f3(1) n2(1) by (intro findchan_put [OF okl ok(2) fc]) simp
  moreover have "do_cmode cfg now source name modestr args st = Some st3"
    using c(1) body st3(1) n2(1) by (simp add: do_cmode_def st2_def)
  moreover have "locked (ns_db ns0) i (cview c3) = cview c3"
    unfolding st3(5) cl2(2) n2(2) touched_locked(2) [OF t] using cons by (intro locked_twice) (simp add: ns0_def i_def)
  moreover have "quiet (ms2 @ ms3) ns0 (cs_ns st3)" unfolding st3(3) cl2(2) by (rule quiet_out [OF q2])
  ultimately show ?thesis unfolding ns0_def i_def using cl3 [unfolded cl_def] st3(4) by blast
qed

lemma do_cmode_gen:
  assumes ok: "ns_ok (cs_ns st)" "all_known (cs_ns st)" "chans_ok (cs_chans st)" "cstring name"
    and c: "findchan (cs_chans st) name = Some c" "\<not> c_bouncy_modes c" "rights_ok False (ns_users (cs_ns st)) S c c"
    and named: "named_in (ns_users (cs_ns st)) S args"
    and D: "D \<Longrightarrow> users_ok (ns_users (cs_ns st))" "D \<Longrightarrow> \<forall>a\<in>set args. cstring a"
    and cons: "lock_consistent (ns_db (cs_ns st)) (c_channel_id c)"
  shows "\<exists>st' c' ms. do_cmode cfg now source name modestr args st = Some st' \<and>
    findchan (cs_chans st') name = Some c' \<and> cs_chans st' = chan_put c' (cs_chans st) \<and>
    locked (ns_db (cs_ns st)) (c_channel_id c) (cview c') = cview c' \<and>
    rights_ok D (ns_users (cs_ns st)) S c c' \<and> c_name c' = c_name c \<and> c_channel_id c' = c_channel_id c \<and>
    \<not> c_bouncy_modes c' \<and> c_users c' = c_users c \<and> quiet ms (cs_ns st) (cs_ns st')"
proof -
  define ns0 where "ns0 = cs_ns st"
  define i where "i = c_channel_id c"
  obtain c1 lm where c1: "count_server_modes cfg now source modestr (cs_lastmodes st) c = (c1, lm)"
    "cview c1 = cview c" "unmoded c1 = unmoded c" by (rule count_server_eq)
  note f1 = unmoded_fields [OF c1(3)]
  have rights: "rights_ok D ul S d e = rights_ok D ul S d' e'" if "unmoded d = unmoded d'" "unmoded e = unmoded e'"
    for D ul S d e d' e' using unmoded_fields [OF that(1)] unmoded_fields [OF that(2)] by (simp add: rights_ok_def)
  have "rights_ok False (ns_users ns0) S c1 c1" using c(3) rights [OF c1(3) c1(3)] by (simp add: ns0_def)
  then have inv: "mode_inv D S ns0 c1 (int (length args), args) c1 ns0"
    using ok named D by (auto simp: mode_inv_def ns0_def rights_ok_def intro!: exI [of _ "[]"])
  obtain p2 c2 ns2 where c2: "mode_loop cfg now source modestr True (int (length args), args) c1 ns0 = Some (c2, ns2)"
    "mode_inv D S ns0 c1 p2 c2 ns2"
    using mode_loop_inv [OF _ inv, of cfg now source modestr True] ok(2) by (auto simp: all_known_def ns0_def)
  obtain ms2 where q2: "quiet ms2 ns0 ns2" using c2(2) by (auto simp: mode_inv_def)
  have n2: "c_name c2 = c_name c" "c_channel_id c2 = i" "\<not> c_bouncy_modes c2" "c_users c2 = c_users c"
    "rights_ok D (ns_users ns0) S c c2"
    using c2(2) f1 c(2) rights [OF c1(3) refl, of D "ns_users ns0" S c2] by (simp_all add: mode_inv_def i_def)
  define st2 where "st2 = put_chan c2 (st\<lparr>cs_ns := ns2, cs_lastmodes := lm\<rparr>)"
  have body: "cmode_body cfg now source modestr args c st = Some st2"
    using c1(1) c2(1) by (simp add: cmode_body_def st2_def ns0_def)
  have id2: "c_channel_id c2 = c_channel_id c" and q3: "quiet ms2 (cs_ns st) ns2" using n2(2) q2 by (simp_all add: ns0_def i_def)
  note settled = do_cmode_settled [OF ok(3,4) c(1) n2(3,1) id2 body [unfolded st2_def] q3 cons]
  obtain st3 c3 ms where st3: "do_cmode cfg now source name modestr args st = Some st3"
    "findchan (cs_chans st3) name = Some c3" "cs_chans st3 = chan_put c3 (cs_chans st)"
    "locked (ns_db (cs_ns st)) (c_channel_id c) (cview c3) = cview c3"
    "unmoded c3 = unmoded c2" "quiet ms (cs_ns st) (cs_ns st3)"
    using settled by blast
  note f3 = unmoded_fields [OF st3(5)]
  have "rights_ok D (ns_users ns0) S c c3" using rights [OF refl st3(5), of D "ns_users ns0" S c] n2(5) by simp
  moreover have "c_users c3 = c_users c" "c_name c3 = c_name c" "c_channel_id c3 = c_channel_id c" "\<not> c_bouncy_modes c3"
    using f3 n2 by (simp_all add: i_def)
  ultimately show ?thesis using st3 unfolding ns0_def by blast
qed

lemma do_cmode_ok:
  assumes ok: "ns_ok (cs_ns st)" "all_known (cs_ns st)" "chans_ok (cs_chans st)" "cstring name"
    and c: "findchan (cs_chans st) name = Some c" "\<not> c_bouncy_modes c" "members_ok (ns_users (cs_ns st)) c"
    and cons: "lock_consistent (ns_db (cs_ns st)) (c_channel_id c)"
  shows "\<exists>st' c' ms. do_cmode cfg now source name modestr args st = Some st' \<and>
    findchan (cs_chans st') name = Some c' \<and> cs_chans st' = chan_put c' (cs_chans st) \<and>
    locked (ns_db (cs_ns st)) (c_channel_id c) (cview c') = cview c' \<and>
    members_ok (ns_users (cs_ns st)) c' \<and> c_users c' = c_users c \<and> quiet ms (cs_ns st) (cs_ns st')"
proof -
  define S where "S = u_uid ` set (all_users (ns_users (cs_ns st)))"
  have m: "rights_ok False (ns_users (cs_ns st)) S d e \<longleftrightarrow> members_ok (ns_users (cs_ns st)) e" for d e
    by (auto simp: rights_ok_def members_ok_def S_def)
  have "named_in (ns_users (cs_ns st)) S args"
    unfolding named_in_def S_def using finduser_online by blast
  then show ?thesis
    using do_cmode_gen [OF ok c(1,2), of S args False] c(3) cons unfolding m by blast
qed

text \<open>A ban, whose parameter is not looked up as a nickname.\<close>

lemma do_cmode_ban:
  assumes ok: "ns_ok (cs_ns st)" "chans_ok (cs_chans st)" "cstring name"
    and c: "findchan (cs_chans st) name = Some c" "\<not> c_bouncy_modes c"
    and cons: "lock_consistent (ns_db (cs_ns st)) (c_channel_id c)"
  shows "\<exists>st' c' ms. do_cmode cfg now source name ''+b'' [m] st = Some st' \<and>
    findchan (cs_chans st') name = Some c' \<and> cs_chans st' = chan_put c' (cs_chans st) \<and>
    c_name c' = c_name c \<and> \<not> c_bouncy_modes c' \<and>
    c_users c' = c_users c \<and> c_chanops c' = c_chanops c \<and> c_voices c' = c_voices c \<and>
    quiet ms (cs_ns st) (cs_ns st')"
proof -
  obtain c1 lm where c1: "count_server_modes cfg now source ''+b'' (cs_lastmodes st) c = (c1, lm)"
    "cview c1 = cview c" "unmoded c1 = unmoded c" by (rule count_server_eq)
  note f1 = unmoded_fields [OF c1(3)]
  define c2 where "c2 = c1\<lparr>c_bans := c_bans c1 @ [\<lparr>b_mask = m, b_time = now\<rparr>]\<rparr>"
  have b: "cmode_flag (CHR ''b'') = None" by code_simp
  have "cmode_body cfg now source ''+b'' [m] c st = Some (put_chan c2 (st\<lparr>cs_ns := cs_ns st, cs_lastmodes := lm\<rparr>))"
    using c1(1) by (simp add: cmode_body_def mode_step_def b ban_mode_def with_ns_def c2_def)
  moreover have "\<not> c_bouncy_modes c2" "c_name c2 = c_name c" "c_channel_id c2 = c_channel_id c"
    "c_users c2 = c_users c" "c_chanops c2 = c_chanops c" "c_voices c2 = c_voices c"
    using f1 c(2) by (simp_all add: c2_def)
  ultimately obtain st3 c3 ms where "do_cmode cfg now source name ''+b'' [m] st = Some st3"
    "findchan (cs_chans st3) name = Some c3" "cs_chans st3 = chan_put c3 (cs_chans st)"
    "unmoded c3 = unmoded c2" "quiet ms (cs_ns st) (cs_ns st3)"
    using do_cmode_settled [OF ok(2,3) c(1) _ _ _ _ quiet_refl [OF ok(1)] cons, of c2 cfg now source "''+b''" "[m]" lm] by auto
  then show ?thesis
    using unmoded_fields [of c3 c2] \<open>c_name c2 = c_name c\<close> \<open>\<not> c_bouncy_modes c2\<close> \<open>c_users c2 = c_users c\<close>
      \<open>c_chanops c2 = c_chanops c\<close> \<open>c_voices c2 = c_voices c\<close> by metis
qed

end
