(* ===== verification/Channels.thy ===== *)
theory Channels
  imports Chanmode
begin

text \<open>
  Joining and leaving (\<open>chan_adduser\<close> and \<open>chan_deluser\<close> in src/src/channels.c), the topic and the
  check made on a join (src/src/chanserv.c), and the periodic work on limits and bans
  (\<open>chan_update_events\<close>).
\<close>

section \<open>The topic\<close>

definition record_topic :: "cstr \<Rightarrow> cs_state \<Rightarrow> cs_state" where
  "record_topic name st =
     (case findchan (cs_chans st) name of
        None \<Rightarrow> st
      | Some c \<Rightarrow>
          if c_channel_id c = 0 then st
          else upd_chan (c_channel_id c)
                 (\<lambda>r. r\<lparr>cr_last_topic := (case c_topic c of None \<Rightarrow> [] | Some t \<Rightarrow> t),
                        cr_last_topic_setter := c_topic_setter c, cr_last_topic_time := c_topic_time c\<rparr>) st)"

definition restore_topic :: "cscfg \<Rightarrow> int \<Rightarrow> cstr \<Rightarrow> cs_state \<Rightarrow> cs_state" where
  "restore_topic cfg now name st =
     (case findchan (cs_chans st) name of
        None \<Rightarrow> st
      | Some c \<Rightarrow>
          if c_channel_id c = 0 \<or> \<not> has (get_chan_flags (ns_db (cs_ns st)) (c_channel_id c)) CI_KEEPTOPIC then st
          else
            (let c = (case chan.row (c_channel_id c) (t_channel (ns_db (cs_ns st))) of
                        None \<Rightarrow> c\<lparr>c_topic := None, c_topic_setter := take (NICKMAX - 1) (s_ChanServ cfg)\<rparr>
                      | Some r \<Rightarrow>
                          if cr_last_topic r \<noteq> []
                          then c\<lparr>c_topic := Some (cr_last_topic r),
                                 c_topic_setter := take (NICKMAX - 1) (cr_last_topic_setter r),
                                 c_topic_time := cr_last_topic_time r\<rparr>
                          else c\<lparr>c_topic := None, c_topic_setter := take (NICKMAX - 1) (s_ChanServ cfg)\<rparr>);
                 c = c\<lparr>c_topic_time := now\<rparr>;
                 st = put_chan c st
             in case c_topic c of
                  None \<Rightarrow> st
                | Some t \<Rightarrow> tell (TopicBurst name (c_creation_time c) (c_topic_time c) (c_topic_setter c) t) st))"

definition check_topiclock :: "int \<Rightarrow> cstr \<Rightarrow> cstr \<Rightarrow> channel \<Rightarrow> cs_state \<Rightarrow> (bool \<times> cs_state) option" where
  "check_topiclock now name setter c st =
     (let i = c_channel_id c
      in if i = 0 \<or> \<not> has (get_chan_flags (ns_db (cs_ns st)) i) CI_TOPICLOCK then Some (False, st)
         else do {
           (may, ns) \<leftarrow>
             (case finduser (ns_users (cs_ns st)) setter of
                None \<Rightarrow> Some (False, cs_ns st)
              | Some u \<Rightarrow> if u_nick_id u \<noteq> 0 then check_access now u i CA_SET (cs_ns st) else Some (False, cs_ns st));
           let st = st\<lparr>cs_ns := ns\<rparr>;
           if may then Some (False, st)
           else
             (let c = (case chan.row i (t_channel (ns_db ns)) of
                         None \<Rightarrow> c
                       | Some r \<Rightarrow>
                           c\<lparr>c_topic := if cr_last_topic r \<noteq> [] then Some (cr_last_topic r) else None,
                             c_topic_setter := take (NICKMAX - 1) (cr_last_topic_setter r),
                             c_topic_time := cr_last_topic_time r\<rparr>);
                  c = c\<lparr>c_topic_time := now\<rparr>
              in Some (True,
                   tell (TopicBurst name (c_creation_time c) (c_topic_time c) (c_topic_setter c)
                           (case c_topic c of None \<Rightarrow> [] | Some t \<Rightarrow> t)) (put_chan c st)))
         })"

definition do_topic :: "int \<Rightarrow> cstr \<Rightarrow> cstr \<Rightarrow> cstr list \<Rightarrow> cs_state \<Rightarrow> cs_state option" where
  "do_topic now nick name args st =
     (case findchan (cs_chans st) name of
        None \<Rightarrow> Some st
      | Some c \<Rightarrow>
          do {
            (fixed, st) \<leftarrow> check_topiclock now name nick c st;
            if fixed then Some st
            else
              (let c = c\<lparr>c_topic_setter := take (NICKMAX - 1) nick, c_topic_time := now,
                         c_topic := (case args of [] \<Rightarrow> None | t # _ \<Rightarrow> if t = [] then None else Some t)\<rparr>
               in Some (record_topic name (put_chan c st)))
          })"

section \<open>Joining and leaving\<close>

definition new_channel :: "int \<Rightarrow> cstr \<Rightarrow> nat \<Rightarrow> channel" where
  "new_channel now name i =
     \<lparr>c_name = take (CHANMAX - 1) name, c_channel_id = i, c_creation_time = now, c_topic = None,
      c_topic_setter = [], c_topic_time = 0, c_mode = 0, c_limit = 0, c_key = None, c_bans = [], c_users = [],
      c_chanops = [], c_voices = [], c_server_modetime = 0, c_chanserv_modetime = 0, c_server_modecount = 0,
      c_chanserv_modecount = 0, c_bouncy_modes = False, c_last_limit_time = 0, c_limit_offset = 0,
      c_limit_tolerance = 0, c_limit_period = 0, c_bantime = 0, c_floodserv = False\<rparr>"

definition create_channel :: "cscfg \<Rightarrow> int \<Rightarrow> cstr \<Rightarrow> cs_state \<Rightarrow> cs_state option" where
  "create_channel cfg now name st =
     (let db = ns_db (cs_ns st);
          c = mysql_init_channel db (new_channel now name (mysql_findchan db name));
          st = st\<lparr>cs_chans := chan_link c (cs_chans st)\<rparr>
      in do {
        st \<leftarrow> check_modes cfg now name st;
        let st = restore_topic cfg now name st;
        Some (if c_floodserv c then tell (SJoin (c_name c) (s_FloodServ cfg)) st else st)
      })"

definition chan_adduser :: "cscfg \<Rightarrow> int \<Rightarrow> user \<Rightarrow> cstr \<Rightarrow> cs_state \<Rightarrow> cs_state option" where
  "chan_adduser cfg now u name st =
     do {
       (ptr, st) \<leftarrow> (case findchan (cs_chans st) name of
                     Some c \<Rightarrow> Some (c_name c, st)
                   | None \<Rightarrow> map_option (Pair (take (CHANMAX - 1) name)) (create_channel cfg now name st));
       (op, ns) \<leftarrow> check_should_op now u name (cs_ns st);
       (voice, ns) \<leftarrow> (if op then Some (False, ns) else check_should_voice now u name ns);
       case findchan (cs_chans st) ptr of
         None \<Rightarrow> None
       | Some c \<Rightarrow>
           (let c = (if op then c\<lparr>c_chanops := u_uid u # c_chanops c\<rparr>
                     else if voice then c\<lparr>c_voices := u_uid u # c_voices c\<rparr> else c)
            in Some (put_chan (c\<lparr>c_users := u_uid u # c_users c\<rparr>) (st\<lparr>cs_ns := ns\<rparr>)))
     }"

definition chan_deluser :: "int \<Rightarrow> nat \<Rightarrow> channel \<Rightarrow> cs_state \<Rightarrow> cs_state" where
  "chan_deluser now i c st =
     (let c = c\<lparr>c_users := remove1 i (c_users c), c_chanops := remove1 i (c_chanops c),
                c_voices := remove1 i (c_voices c)\<rparr>;
          st = put_chan c st
      in if c_users c = []
         then (let st = mysql_destroy_channel c st in st\<lparr>cs_chans := chan_unlink c (cs_chans st)\<rparr>)
         else snd (check_autolimit now False c st))"

section \<open>The check on a join\<close>

definition akick_applies :: "sqldb \<Rightarrow> nat \<Rightarrow> nat \<Rightarrow> user \<Rightarrow> akick_row \<Rightarrow> bool" where
  "akick_applies db c nick_id u r \<longleftrightarrow>
     ak_chan r = c \<and>
     ((ak_nick r \<noteq> 0 \<and> (\<exists>n\<in>set (t_nick db). nr_id n = ak_nick r \<and> nick_master n = nick_id)) \<or>
      (ak_nick r = 0 \<and>
       (case ak_mask r of None \<Rightarrow> False
        | Some m \<Rightarrow> irc_match m (u_nick u @ ''!'' @ usermask u) None)))"

definition update_akick_last_used :: "int \<Rightarrow> nat \<Rightarrow> user \<Rightarrow> ns_state \<Rightarrow> ns_state" where
  "update_akick_last_used now k u ns =
     ns\<lparr>ns_db := (ns_db ns)\<lparr>t_akick := sql_update (\<lambda>r. ak_id r = k)
        (\<lambda>r. r\<lparr>ak_last_used := now, ak_last_matched := take 199 (u_nick u @ '' ('' @ usermask u @ '')'')\<rparr>)
        (t_akick (ns_db ns))\<rparr>\<rparr>"

text \<open>
  The label \<open>kick\<close>.  The services leave a channel they have entered for the purpose after some
  seconds; \<open>Inhabit\<close> stands for that timeout.
\<close>

definition kick_out :: "cscfg \<Rightarrow> int \<Rightarrow> user \<Rightarrow> cstr \<Rightarrow> cstr \<Rightarrow> cstr \<Rightarrow> cs_state \<Rightarrow> cs_state option" where
  "kick_out cfg now u name joined_mask reason st =
     (let stay = (findchan (cs_chans st) name = None);
          st = (if stay then tell (SJoin name (s_ChanServ cfg)) st else st);
          st = tell (ChanMode name ''+b:'' [joined_mask]) st
      in do {
        st \<leftarrow> do_cmode cfg now (s_ChanServ cfg) name ''+b'' [joined_mask] st;
        let st = tell (Kick name (u_nick u) reason) st;
        Some (if stay then tell (Inhabit name) st else st)
      })"

definition check_kick :: "cscfg \<Rightarrow> int \<Rightarrow> user \<Rightarrow> cstr \<Rightarrow> cs_state \<Rightarrow> (bool \<times> cs_state) option" where
  "check_kick cfg now u name st =
     (let (c, flags) = mysql_findchanflags (ns_db (cs_ns st)) name
      in if c = 0 then Some (False, st)
         else do {
           (oper, ns) \<leftarrow>
             (if CSAkickOper cfg then Some (False, cs_ns st)
              else if is_oper (ns_users (cs_ns st)) (u_nick u) then Some (True, cs_ns st)
              else is_services_admin cfg now u (cs_ns st));
           let st = st\<lparr>cs_ns := ns\<rparr>;
           if oper then Some (False, st)
           else if has flags CI_VERBOTEN
           then do {
             mask \<leftarrow> create_mask u;
             st \<leftarrow> kick_out cfg now u name (''*!'' @ mask) (may_not_be_used cfg (u_nick_id u)) st;
             Some (True, st)
           }
           else do {
             (rec, ns) \<leftarrow> nick_recognized now u (cs_ns st);
             let st = st\<lparr>cs_ns := ns\<rparr>;
             case filter (akick_applies (ns_db ns) c (if rec then u_nick_id u else 0) u) (t_akick (ns_db ns)) of
               r # _ \<Rightarrow>
                 do {
                   mask \<leftarrow> (if ak_nick r \<noteq> 0 then map_option (\<lambda>m. ''*!'' @ m) (create_mask u) else ak_mask r);
                   let reason = (case ak_reason r of None \<Rightarrow> CSAutokickReason cfg | Some t \<Rightarrow> t);
                   st \<leftarrow> kick_out cfg now u name mask reason
                          (st\<lparr>cs_ns := update_akick_last_used now (ak_id r) u (cs_ns st)\<rparr>);
                   Some (True, st)
                 }
             | [] \<Rightarrow>
                 do {
                   (bad, ns) \<leftarrow> (if now - start_time cfg \<ge> CSRestrictDelay cfg
                                then check_access now u c CA_NOJOIN (cs_ns st) else Some (False, cs_ns st));
                   let st = st\<lparr>cs_ns := ns\<rparr>;
                   if bad
                   then do {
                     mask \<leftarrow> create_mask u;
                     st \<leftarrow> kick_out cfg now u name (''*!'' @ mask) (not_allowed_to_join cfg (u_nick_id u)) st;
                     Some (True, st)
                   }
                   else Some (False, st)
                 }
           }
         })"

section \<open>The periodic work\<close>

definition expired_bans :: "int \<Rightarrow> channel \<Rightarrow> cstr list" where
  "expired_bans now c =
     map b_mask (filter (\<lambda>b. b_time b < now - int (c_bantime c) * 60) (c_bans c))"

fun remove_bans :: "cscfg \<Rightarrow> int \<Rightarrow> cstr \<Rightarrow> cstr list \<Rightarrow> cs_state \<Rightarrow> cs_state option" where
  "remove_bans cfg now name [] st = Some st"
| "remove_bans cfg now name (m # ms) st =
     do {
       st \<leftarrow> do_cmode cfg now (s_ChanServ cfg) name ''-b'' [m] (tell (ChanMode name ''-b'' [m]) st);
       remove_bans cfg now name ms st
     }"

definition update_channel :: "cscfg \<Rightarrow> int \<Rightarrow> channel \<Rightarrow> cs_state \<Rightarrow> cs_state option" where
  "update_channel cfg now c st =
     (if c_channel_id c = 0 then Some st
      else
        (let (c, st) = (if c_limit_offset c > 0 \<and> to_uint32 (now - c_last_limit_time c) \<ge> c_limit_period c * 60
                        then check_autolimit now True c st else (c, st))
         in if c_bantime c \<noteq> 0 then remove_bans cfg now (c_name c) (expired_bans now c) st else Some st))"

text \<open>The walk over the channels, by their names in the order of the chains.\<close>

fun update_channels :: "cscfg \<Rightarrow> int \<Rightarrow> cstr list \<Rightarrow> cs_state \<Rightarrow> cs_state option" where
  "update_channels cfg now [] st = Some st"
| "update_channels cfg now (name # names) st =
     (case findchan (cs_chans st) name of
        None \<Rightarrow> None
      | Some c \<Rightarrow>
          do {
            st \<leftarrow> update_channel cfg now c st;
            update_channels cfg now names st
          })"

definition chan_update_events :: "cscfg \<Rightarrow> int \<Rightarrow> cs_state \<Rightarrow> cs_state option" where
  "chan_update_events cfg now st = update_channels cfg now (map c_name (all_chans (cs_chans st))) st"


section \<open>Membership\<close>

lemma upd_chan_sel [simp]: "cs_chans (upd_chan i f st) = cs_chans st" "ns_users (cs_ns (upd_chan i f st)) = ns_users (cs_ns st)"
  "ns_out (cs_ns (upd_chan i f st)) = ns_out (cs_ns st)"
  by (simp_all add: upd_chan_def)

lemma tell_sel [simp]: "cs_chans (tell m st) = cs_chans st" "ns_db (cs_ns (tell m st)) = ns_db (cs_ns st)"
  "ns_users (cs_ns (tell m st)) = ns_users (cs_ns st)"
  by (simp_all add: tell_def say_def)

lemma put_chan_sel [simp]: "cs_chans (put_chan c st) = chan_put c (cs_chans st)" "cs_ns (put_chan c st) = cs_ns st"
  by (simp_all add: put_chan_def)

text \<open>
  What the work on channels keeps: the invariant of NickServ, the users, which nicknames and channels
  are registered with which links and locks, and that no nickname has been forced on a user.
\<close>

definition nick_link :: "nick_row \<Rightarrow> nat \<times> cstr \<times> nat" where
  "nick_link r = (nr_id r, nr_nick r, nr_link r)"

definition chan_lock :: "chan_row \<Rightarrow> nat \<times> cstr \<times> flags \<times> flags \<times> flags \<times> nat \<times> cstr" where
  "chan_lock r = (cr_id r, cr_name r, cr_flags r, cr_mlock_on r, cr_mlock_off r, cr_mlock_limit r, cr_mlock_key r)"

definition unforced :: "sqldb \<Rightarrow> bool" where
  "unforced db \<longleftrightarrow> (\<forall>r\<in>set (t_nick db). \<not> has (nr_status r) NS_GUESTED)"

definition kept :: "ns_state \<Rightarrow> ns_state \<Rightarrow> bool" where
  "kept ns ns' \<longleftrightarrow>
     ns_ok ns' \<and> ns_users ns' = ns_users ns \<and>
     map nick_link (t_nick (ns_db ns')) = map nick_link (t_nick (ns_db ns)) \<and>
     map chan_lock (t_channel (ns_db ns')) = map chan_lock (t_channel (ns_db ns)) \<and>
     (unforced (ns_db ns) \<longrightarrow> unforced (ns_db ns'))"

lemma kept_refl: "ns_ok ns \<Longrightarrow> kept ns ns"
  by (simp add: kept_def)

lemma kept_trans [trans]: "kept a b \<Longrightarrow> kept b c \<Longrightarrow> kept a c"
  by (simp add: kept_def)

lemma kept_ok: "kept a b \<Longrightarrow> ns_ok b"
  by (simp add: kept_def)

lemma kept_quiet:
  assumes "quiet ms ns ns'"
  shows "kept ns ns'"
proof -
  have t: "touched (ns_db ns) (ns_db ns')" by (rule quiet_touched [OF assms])
  have n: "t_nick (ns_db ns') = t_nick (ns_db ns)" using touched_fields(1) [OF t] .
  have c: "map used_chan (t_channel (ns_db ns')) = map used_chan (t_channel (ns_db ns))"
    using touched_fields(6) [OF t] .
  have u: "chan_lock (used_chan r) = chan_lock r" for r by (simp add: chan_lock_def used_chan_def)
  have "map chan_lock (map used_chan xs) = map chan_lock xs" for xs by (simp add: u)
  then have "map chan_lock (t_channel (ns_db ns')) = map chan_lock (t_channel (ns_db ns))" using c by metis
  then show ?thesis using assms n by (simp add: kept_def quiet_def unforced_def)
qed

lemma kept_out: "ns_ok ns \<Longrightarrow> kept ns (ns\<lparr>ns_out := out\<rparr>)"
  using mine_ok_cong [of "ns\<lparr>ns_out := out\<rparr>" ns] by (simp add: kept_def ns_ok_def)

lemma kept_say: "ns_ok ns \<Longrightarrow> kept ns (say m ns)"
  unfolding say_def by (rule kept_out)

lemma kept_chan_table:
  assumes "ns_ok ns" and "map chan_lock t = map chan_lock (t_channel (ns_db ns))"
  shows "kept ns (ns\<lparr>ns_db := (ns_db ns)\<lparr>t_channel := t\<rparr>\<rparr>)"
proof -
  have "mine_ok (ns\<lparr>ns_db := (ns_db ns)\<lparr>t_channel := t\<rparr>\<rparr>) = mine_ok ns" by (rule mine_ok_cong) simp_all
  moreover have "nick_select ((ns_db ns)\<lparr>t_channel := t\<rparr>) = nick_select (ns_db ns)" by (simp add: nick_select_def)
  ultimately show ?thesis using assms by (simp add: kept_def ns_ok_def unforced_def)
qed

lemma kept_upd_chan:
  assumes "ns_ok (cs_ns st)" and "\<And>r. chan_lock (f r) = chan_lock r"
  shows "kept (cs_ns st) (cs_ns (upd_chan i f st))"
proof -
  have "map chan_lock (sql_update P f t) = map chan_lock t" for P t using assms(2) by (auto simp: sql_update_def)
  then show ?thesis using kept_chan_table [OF assms(1)] by (simp add: upd_chan_def)
qed

text \<open>
  What decides about rights: the tables without the marks of use, the topics, the locks and the
  limits.  A user is barred from a channel if it is registered, operators are not excepted, and the
  channel is forbidden, or an autokick applies to the user, or, once the time of restriction after the start is
  over, the level of the user is one that may not join.
\<close>

definition unmarked :: "akick_row \<Rightarrow> akick_row" where
  "unmarked r = r\<lparr>ak_last_used := 0, ak_last_matched := []\<rparr>"

definition right_chan :: "chan_row \<Rightarrow> chan_row" where
  "right_chan r = (chan_of (cr_id r) (cr_name r) (cr_founder r) 0)\<lparr>cr_flags := cr_flags r\<rparr>"

definition rights :: "sqldb \<Rightarrow> sqldb" where
  "rights db = empty_db\<lparr>t_nick := t_nick db, t_chanlevel := t_chanlevel db, t_admin := t_admin db,
     t_chanaccess := map used_acc (t_chanaccess db), t_akick := map unmarked (t_akick db),
     t_channel := map right_chan (t_channel db)\<rparr>"

definition barred :: "cscfg \<Rightarrow> int \<Rightarrow> sqldb \<Rightarrow> user \<Rightarrow> cstr \<Rightarrow> bool" where
  "barred cfg now db u name \<longleftrightarrow>
     (\<exists>c fl. mysql_findchanflags db name = (c, fl) \<and> c \<noteq> 0 \<and>
       (CSAkickOper cfg \<or> \<not> has (u_mode u) UMODE_o) \<and>
       (has fl CI_VERBOTEN \<or>
        (\<exists>r\<in>set (t_akick db).
           akick_applies db c (if identified db u \<or> has (stat db u) NS_RECOGNIZED then u_nick_id u else 0) u r) \<or>
        (now - start_time cfg \<ge> CSRestrictDelay cfg \<and> allowed db u c CA_NOJOIN)))"

lemma right_chan_sel [simp]:
  "cr_id (right_chan r) = cr_id r" "cr_name (right_chan r) = cr_name r" "cr_flags (right_chan r) = cr_flags r"
  "cr_founder (right_chan r) = cr_founder r" "right_chan (used_chan r) = right_chan r"
  by (simp_all add: right_chan_def chan_of_def)

lemma unmarked_sel [simp]:
  "ak_chan (unmarked r) = ak_chan r" "ak_nick (unmarked r) = ak_nick r" "ak_mask (unmarked r) = ak_mask r"
  by (simp_all add: unmarked_def)

lemma rights_sel [simp]:
  "t_nick (rights db) = t_nick db" "t_chanlevel (rights db) = t_chanlevel db" "t_admin (rights db) = t_admin db"
  "t_chanaccess (rights db) = map used_acc (t_chanaccess db)" "t_akick (rights db) = map unmarked (t_akick db)"
  "t_channel (rights db) = map right_chan (t_channel db)"
  by (simp_all add: rights_def)

lemma find_right:
  "(\<And>r. P (right_chan r) = P r) \<Longrightarrow> sql_first P (map right_chan t) = map_option right_chan (sql_first P t)"
  unfolding sql_first_def by (induction t) simp_all

lemma rights_lookups:
  "mysql_findchanflags (rights db) name = mysql_findchanflags db name"
  "get_chan_flags (rights db) c = get_chan_flags db c"
  "get_chan_level (rights db) c what = get_chan_level db c what"
  "get_founder_master_id (rights db) c = get_founder_master_id db c"
  "stat (rights db) u = stat db u" "identified (rights db) u = identified db u"
  "listed_level (rights db) c i = listed_level db c i"
  "akick_applies (rights db) c i u (unmarked r) = akick_applies db c i u r"
proof -
  show "mysql_findchanflags (rights db) name = mysql_findchanflags db name"
    by (simp add: mysql_findchanflags_def find_right split: option.split)
  show "get_chan_flags (rights db) c = get_chan_flags db c"
    by (simp add: get_chan_flags_def chan.row_def find_right split: option.split)
  show "get_chan_level (rights db) c what = get_chan_level db c what" by (simp add: get_chan_level_def)
  show "get_founder_master_id (rights db) c = get_founder_master_id db c"
    by (simp add: get_founder_master_id_def o_def)
  show "stat (rights db) u = stat db u" by (simp add: stat_def)
  then show "identified (rights db) u = identified db u" by (simp add: identified_def)
  have "chanaccess_rows (rights db) c i = map used_acc (chanaccess_rows db c i)"
    by (simp add: chanaccess_rows_def filter_map o_def)
  then show "listed_level (rights db) c i = listed_level db c i"
    by (simp add: listed_level_def split: list.split)
  show "akick_applies (rights db) c i u (unmarked r) = akick_applies db c i u r" by (simp add: akick_applies_def)
qed

lemma rights_allowed: "allowed (rights db) u c what = allowed db u c what"
  by (simp add: allowed_def access_of_def founder_of_def trusted_def rights_lookups)

lemma rights_barred: "barred cfg now (rights db) u name = barred cfg now db u name"
  by (simp add: barred_def rights_lookups rights_allowed)

lemma barred_same: "rights db' = rights db \<Longrightarrow> barred cfg now db' u name = barred cfg now db u name"
  by (metis rights_barred)

lemma barred_chans [simp]: "barred cfg now db (u\<lparr>u_chans := ps\<rparr>) name = barred cfg now db u name"
proof -
  have "stat db (u\<lparr>u_chans := ps\<rparr>) = stat db u" by (simp add: stat_def)
  moreover have "usermask (u\<lparr>u_chans := ps\<rparr>) = usermask u" by (simp add: usermask_def)
  ultimately show ?thesis
    by (simp add: barred_def identified_def allowed_def access_of_def founder_of_def trusted_def akick_applies_def cong: option.case_cong)
qed

definition held :: "ns_state \<Rightarrow> ns_state \<Rightarrow> bool" where
  "held ns ns' \<longleftrightarrow> kept ns ns' \<and> rights (ns_db ns') = rights (ns_db ns)"

lemma held_kept: "held a b \<Longrightarrow> kept a b"
  by (simp add: held_def)

lemma held_refl: "ns_ok ns \<Longrightarrow> held ns ns"
  by (simp add: held_def kept_refl)

lemma held_trans [trans]: "held a b \<Longrightarrow> held b c \<Longrightarrow> held a c"
  by (auto simp: held_def intro: kept_trans)

lemma held_ok: "held a b \<Longrightarrow> ns_ok b"
  by (rule kept_ok [OF held_kept])

lemma held_users: "held a b \<Longrightarrow> ns_users b = ns_users a"
  by (simp add: held_def kept_def)

lemma touched_rights:
  assumes "touched db db'"
  shows "rights db' = rights db"
proof -
  have "t_akick db' = t_akick db"
    using arg_cong [OF assms [unfolded touched_def], of t_akick] by (simp add: forget_def)
  moreover have "map right_chan t = map right_chan (map used_chan t)" for t by simp
  ultimately show ?thesis using touched_fields [OF assms] by (metis rights_def)
qed

lemma held_quiet: "quiet ms ns ns' \<Longrightarrow> held ns ns'"
  by (simp add: held_def kept_quiet touched_rights [OF quiet_touched])

lemma held_out: "ns_ok ns \<Longrightarrow> held ns (ns\<lparr>ns_out := out\<rparr>)"
  by (simp add: held_def kept_out)

lemma held_say: "ns_ok ns \<Longrightarrow> held ns (say m ns)"
  unfolding say_def by (rule held_out)

lemma held_upd_chan:
  assumes "ns_ok (cs_ns st)" and "\<And>r. chan_lock (f r) = chan_lock r" and "\<And>r. cr_founder (f r) = cr_founder r"
  shows "held (cs_ns st) (cs_ns (upd_chan i f st))"
proof -
  have "right_chan (f r) = right_chan r" for r
    using assms(2,3) [of r] by (simp add: right_chan_def chan_lock_def)
  then have "map right_chan (sql_update P f t) = map right_chan t" for P t by (auto simp: sql_update_def)
  then have "rights (ns_db (cs_ns (upd_chan i f st))) = rights (ns_db (cs_ns st))"
    by (simp add: upd_chan_def rights_def)
  then show ?thesis using kept_upd_chan [OF assms(1,2)] by (simp add: held_def)
qed

lemma held_tell: "ns_ok (cs_ns st) \<Longrightarrow> held (cs_ns st) (cs_ns (tell m st))"
  by (simp add: tell_def held_say)

lemma held_destroy: "ns_ok (cs_ns st) \<Longrightarrow> held (cs_ns st) (cs_ns (mysql_destroy_channel c st))"
  by (auto simp: mysql_destroy_channel_def held_refl chan_lock_def intro!: held_upd_chan)

lemma held_autolimit:
  assumes "ns_ok (cs_ns st)"
  shows "held (cs_ns st) (cs_ns (snd (check_autolimit now up c st)))"
proof -
  have u: "held (cs_ns st) (cs_ns (upd_chan i (\<lambda>r. r\<lparr>cr_last_limit_time := now\<rparr>) (put_chan d st')))"
    if "held (cs_ns st) (cs_ns st')" for i d st'
    using held_upd_chan [of "put_chan d st'" "\<lambda>r. r\<lparr>cr_last_limit_time := now\<rparr>" i] that held_ok [OF that]
    by (simp add: chan_lock_def held_trans)
  show ?thesis
    using held_refl [OF assms] held_tell [OF assms] by (simp add: check_autolimit_def Let_def u)
qed

text \<open>What the members, the name and the number of a channel are.\<close>

definition roster :: "channel \<Rightarrow> cstr \<times> nat \<times> nat list \<times> nat list \<times> nat list" where
  "roster c = (c_name c, c_channel_id c, c_users c, c_chanops c, c_voices c)"

lemma check_autolimit_roster:
  obtains c' where "roster c' = roster c"
    "cs_chans (snd (check_autolimit now up c (put_chan c st))) = chan_put c' (cs_chans st)"
proof -
  obtain c' st' where *: "check_autolimit now up c (put_chan c st) = (c', st')" by fastforce
  then have "roster c' = roster c" "cs_chans st' = chan_put c' (cs_chans st)"
    by (auto simp: check_autolimit_def Let_def roster_def chan_put_put split: if_splits)
  then show thesis using that * by simp
qed

lemma remove1_distinct: "distinct xs \<Longrightarrow> remove1 x xs = filter (\<lambda>y. y \<noteq> x) xs"
  by (rule distinct_remove1_removeAll [THEN trans]) (simp_all add: removeAll_filter_not_eq eq_commute)

lemma chan_deluser_ok:
  assumes ok: "chans_ok (cs_chans st)" "cstring name" and c: "findchan (cs_chans st) name = Some c"
    and dist: "distinct (c_users c)" "distinct (c_chanops c)" "distinct (c_voices c)"
  shows "if set (c_users c) \<subseteq> {i} then findchan (cs_chans (chan_deluser now i c st)) name = None
    else \<exists>c'. findchan (cs_chans (chan_deluser now i c st)) name = Some c' \<and>
      roster c' = (c_name c, c_channel_id c, filter (\<lambda>j. j \<noteq> i) (c_users c), filter (\<lambda>j. j \<noteq> i) (c_chanops c),
        filter (\<lambda>j. j \<noteq> i) (c_voices c))"
proof -
  define c1 where "c1 = c\<lparr>c_users := remove1 i (c_users c), c_chanops := remove1 i (c_chanops c),
                c_voices := remove1 i (c_voices c)\<rparr>"
  have n: "c_name c1 = c_name c" by (simp add: c1_def)
  note fn = findchan_name [OF ok c]
  have empty: "c_users c1 = [] \<longleftrightarrow> set (c_users c) \<subseteq> {i}"
    using dist(1) by (auto simp: c1_def remove1_distinct filter_empty_conv)
  show ?thesis
  proof (cases "set (c_users c) \<subseteq> {i}")
    case True
    have ch: "cs_chans (chan_deluser now i c st) = chan_unlink c1 (chan_put c1 (cs_chans st))"
      using True empty by (simp add: chan_deluser_def Let_def mysql_destroy_channel_def flip: c1_def)
    have okp: "chans_ok (chan_put c1 (cs_chans st))" by (rule chan_put_ok [OF ok(1)])
    have "findchan (chan_put c1 (cs_chans st)) (c_name c1) = Some c1"
      unfolding n by (rule findchan_put [OF ok(1) fn(2,1) n])
    then have in1: "c1 \<in> set (chan_put c1 (cs_chans st) (HASH_chan (c_name c1)))"
      using findchan_char [OF okp, of "c_name c1"] fn(2) n by metis
    have ok3: "chans_ok (chan_unlink c1 (chan_put c1 (cs_chans st)))"
      and none: "findchan (chan_unlink c1 (chan_put c1 (cs_chans st))) (c_name c1) = None"
      using chan_unlink_ok [OF okp in1] by simp_all
    have "findchan (chan_unlink c1 (chan_put c1 (cs_chans st))) name = None"
      using none fn n findchan_None [OF ok3] ok(2) by simp
    then show ?thesis using True ch by simp
  next
    case False
    obtain c' where c': "roster c' = roster c1"
      "cs_chans (snd (check_autolimit now False c1 (put_chan c1 st))) = chan_put c' (cs_chans st)"
      by (rule check_autolimit_roster)
    have "cs_chans (chan_deluser now i c st) = chan_put c' (cs_chans st)"
      using False empty c'(2) by (simp add: chan_deluser_def Let_def flip: c1_def)
    moreover have "findchan (chan_put c' (cs_chans st)) name = Some c'"
      using c'(1) n by (intro findchan_put [OF ok c]) (simp add: roster_def)
    ultimately show ?thesis
      using False c'(1) dist by (simp add: roster_def c1_def remove1_distinct)
  qed
qed

lemma check_autolimit_put:
  obtains c' where "roster c' = roster c" "c_bouncy_modes c' = c_bouncy_modes c"
    "cs_chans (snd (check_autolimit now up c (put_chan c st))) = chan_put c' (cs_chans st)"
proof -
  obtain c' st' where *: "check_autolimit now up c (put_chan c st) = (c', st')" by fastforce
  then have "roster c' = roster c" "c_bouncy_modes c' = c_bouncy_modes c" "cs_chans st' = chan_put c' (cs_chans st)"
    by (auto simp: check_autolimit_def Let_def roster_def chan_put_put split: if_splits)
  then show thesis using that * by simp
qed

lemma chan_deluser_frame:
  assumes ok: "chans_ok (cs_chans st)" "cstring name" and c: "findchan (cs_chans st) name = Some c"
  shows "only_chan name (cs_chans st) (cs_chans (chan_deluser now i c st))"
    and "ns_ok (cs_ns st) \<Longrightarrow> held (cs_ns st) (cs_ns (chan_deluser now i c st))"
proof -
  define c1 where "c1 = c\<lparr>c_users := remove1 i (c_users c), c_chanops := remove1 i (c_chanops c),
                c_voices := remove1 i (c_voices c)\<rparr>"
  have n: "c_name c1 = c_name c" "c_bouncy_modes c1 = c_bouncy_modes c" by (simp_all add: c1_def)
  note fn = findchan_name [OF ok c]
  have w: "only_chan name (cs_chans st) (chan_put c1 (cs_chans st))" by (rule only_chan_write [OF ok c n])
  show "only_chan name (cs_chans st) (cs_chans (chan_deluser now i c st))"
  proof (cases "c_users c1 = []")
    case True
    have ch: "cs_chans (chan_deluser now i c st) = chan_unlink c1 (chan_put c1 (cs_chans st))"
      using True by (simp add: chan_deluser_def Let_def mysql_destroy_channel_def flip: c1_def)
    have okp: "chans_ok (chan_put c1 (cs_chans st))" by (rule chan_put_ok [OF ok(1)])
    have "findchan (chan_put c1 (cs_chans st)) (c_name c1) = Some c1"
      unfolding n by (rule findchan_put [OF ok(1) fn(2,1) n(1)])
    then have "c1 \<in> set (chan_put c1 (cs_chans st) (HASH_chan (c_name c1)))"
      using findchan_char [OF okp, of "c_name c1"] fn(2) n by metis
    then have "only_chan (c_name c1) (chan_put c1 (cs_chans st)) (chan_unlink c1 (chan_put c1 (cs_chans st)))"
      by (rule only_chan_unlink [OF okp])
    then have "only_chan name (chan_put c1 (cs_chans st)) (chan_unlink c1 (chan_put c1 (cs_chans st)))"
      using fn(3) n by (simp add: only_chan_def)
    then show ?thesis unfolding ch by (rule only_chan_trans [OF w])
  next
    case False
    obtain c' where c': "roster c' = roster c1" "c_bouncy_modes c' = c_bouncy_modes c1"
      "cs_chans (snd (check_autolimit now False c1 (put_chan c1 st))) = chan_put c' (cs_chans st)"
      by (rule check_autolimit_put)
    have "cs_chans (chan_deluser now i c st) = chan_put c' (cs_chans st)"
      using False c'(3) by (simp add: chan_deluser_def Let_def flip: c1_def)
    then show ?thesis using c' n by (simp add: only_chan_write [OF ok c] roster_def)
  qed
  show "held (cs_ns st) (cs_ns (chan_deluser now i c st))" if "ns_ok (cs_ns st)"
    using held_destroy [of "put_chan c1 st" c1] held_autolimit [of "put_chan c1 st" now False c1] that
    by (simp add: chan_deluser_def Let_def flip: c1_def)
qed

lemma chan_adduser_old:
  assumes ok: "chans_ok (cs_chans st)" "cstring name" "ns_ok (cs_ns st)" "known (ns_db (cs_ns st)) u"
    and c: "findchan (cs_chans st) name = Some c"
  shows "\<exists>st' c'. chan_adduser cfg now u name st = Some st' \<and> findchan (cs_chans st') name = Some c' \<and>
    cview c' = cview c \<and>
    roster c' = (c_name c, c_channel_id c, u_uid u # c_users c,
      (if auto_applies u name CA_AUTOOP (ns_db (cs_ns st)) then u_uid u # c_chanops c else c_chanops c),
      (if \<not> auto_applies u name CA_AUTOOP (ns_db (cs_ns st)) \<and> auto_applies u name CA_AUTOVOICE (ns_db (cs_ns st))
       then u_uid u # c_voices c else c_voices c)) \<and>
    only_chan name (cs_chans st) (cs_chans st') \<and> (\<exists>ms. quiet ms (cs_ns st) (cs_ns st'))"
proof -
  define op where "op = auto_applies u name CA_AUTOOP (ns_db (cs_ns st))"
  define voice where "voice = auto_applies u name CA_AUTOVOICE (ns_db (cs_ns st))"
  note fn = findchan_name [OF ok(1,2) c]
  obtain ns1 ms1 where ns1: "check_should_op now u name (cs_ns st) = Some (op, ns1)" "quiet ms1 (cs_ns st) ns1"
    using yieldsD [OF check_should_op_yields [OF ok(3,4), of now name]] by (auto simp: op_def)
  have k1: "known (ns_db ns1) u" using ok(4) quiet_facts(5) [OF ns1(2)] by (simp add: known_def)
  have "auto_applies u name CA_AUTOVOICE (ns_db ns1) = voice"
    using touched_access [OF quiet_touched [OF ns1(2)]] by (simp add: voice_def)
  then obtain ns2 ms2 where ns2: "check_should_voice now u name ns1 = Some (voice, ns2)" "quiet ms2 ns1 ns2"
    using yieldsD [OF check_should_voice_yields [OF quiet_ok [OF ns1(2)] k1, of now name]] by auto
  define c' where "c' = (if op then c\<lparr>c_chanops := u_uid u # c_chanops c\<rparr>
      else if voice then c\<lparr>c_voices := u_uid u # c_voices c\<rparr> else c)\<lparr>c_users := u_uid u # c_users c\<rparr>"
  have n: "c_name c' = c_name c" by (simp add: c'_def)
  define ns where "ns = (if op then ns1 else ns2)"
  have "chan_adduser cfg now u name st = Some (put_chan c' (st\<lparr>cs_ns := ns\<rparr>))"
    unfolding chan_adduser_def c option.case
    using ns1(1) ns2(1) fn(1) by (cases op; cases voice) (simp_all add: c'_def Let_def ns_def)
  moreover have "findchan (cs_chans (put_chan c' (st\<lparr>cs_ns := ns\<rparr>))) name = Some c'"
    using findchan_put [OF ok(1,2) c n] by simp
  moreover have "cview c' = cview c" by (simp add: c'_def cview_def)
  moreover have "roster c' = (c_name c, c_channel_id c, u_uid u # c_users c,
      (if op then u_uid u # c_chanops c else c_chanops c),
      (if \<not> op \<and> voice then u_uid u # c_voices c else c_voices c))"
    by (simp add: roster_def c'_def)
  moreover have "only_chan name (cs_chans st) (cs_chans (put_chan c' (st\<lparr>cs_ns := ns\<rparr>)))"
    using only_chan_write [OF ok(1,2) c n] by (simp add: c'_def)
  moreover have "\<exists>ms. quiet ms (cs_ns st) (cs_ns (put_chan c' (st\<lparr>cs_ns := ns\<rparr>)))"
    using ns1(2) quiet_trans [OF ns1(2) ns2(2)] by (auto simp: ns_def)
  ultimately show ?thesis unfolding op_def [symmetric] voice_def [symmetric] by blast
qed


lemma restore_topic_ok:
  assumes ok: "chans_ok (cs_chans st)" "cstring name" and c: "findchan (cs_chans st) name = Some c"
  obtains c' ms where "findchan (cs_chans (restore_topic cfg now name st)) name = Some c'"
    "only_chan name (cs_chans st) (cs_chans (restore_topic cfg now name st))"
    "roster c' = roster c" "cview c' = cview c" "cs_ns (restore_topic cfg now name st) =
      (cs_ns st)\<lparr>ns_out := ns_out (cs_ns st) @ ms\<rparr>"
proof (cases "c_channel_id c = 0 \<or> \<not> has (get_chan_flags (ns_db (cs_ns st)) (c_channel_id c)) CI_KEEPTOPIC")
  case True
  then have "restore_topic cfg now name st = st" using c by (simp add: restore_topic_def)
  then show thesis using that [of c "[]"] c only_chan_refl [OF ok(1)] by simp
next
  case False
  define c1 where "c1 = (case chan.row (c_channel_id c) (t_channel (ns_db (cs_ns st))) of
                        None \<Rightarrow> c\<lparr>c_topic := None, c_topic_setter := take (NICKMAX - 1) (s_ChanServ cfg)\<rparr>
                      | Some r \<Rightarrow>
                          if cr_last_topic r \<noteq> []
                          then c\<lparr>c_topic := Some (cr_last_topic r),
                                 c_topic_setter := take (NICKMAX - 1) (cr_last_topic_setter r),
                                 c_topic_time := cr_last_topic_time r\<rparr>
                          else c\<lparr>c_topic := None, c_topic_setter := take (NICKMAX - 1) (s_ChanServ cfg)\<rparr>)
      \<lparr>c_topic_time := now\<rparr>"
  have same: "roster c1 = roster c" "cview c1 = cview c" "c_name c1 = c_name c" "c_bouncy_modes c1 = c_bouncy_modes c"
    by (simp_all add: c1_def roster_def cview_def split: option.split)
  define ms where "ms = (case c_topic c1 of None \<Rightarrow> []
      | Some t \<Rightarrow> [TopicBurst name (c_creation_time c1) (c_topic_time c1) (c_topic_setter c1) t])"
  have "restore_topic cfg now name st = put_chan c1 (st\<lparr>cs_ns := (cs_ns st)\<lparr>ns_out := ns_out (cs_ns st) @ ms\<rparr>\<rparr>)"
    using c False unfolding restore_topic_def c option.case Let_def c1_def [symmetric]
    by (auto simp: ms_def tell_def put_chan_def say_def split: option.splits)
  then show thesis
    using that [of c1 ms] same findchan_put [OF ok c same(3)] only_chan_write [OF ok c same(3,4)] by simp
qed

lemma init_channel_sel [simp]:
  "c_name (mysql_init_channel db c) = c_name c" "c_channel_id (mysql_init_channel db c) = c_channel_id c"
  "c_bouncy_modes (mysql_init_channel db c) = c_bouncy_modes c" "roster (mysql_init_channel db c) = roster c"
  "cview (mysql_init_channel db c) = cview c"
  by (simp_all add: mysql_init_channel_def Let_def roster_def cview_def split: option.split)

lemma create_channel_ok:
  assumes ok: "chans_ok (cs_chans st)" "cstring name" "length name < CHANMAX"
    and none: "findchan (cs_chans st) name = None"
    and i: "i = mysql_findchan (ns_db (cs_ns st)) name" and cons: "lock_consistent (ns_db (cs_ns st)) i"
  shows "\<exists>st' c ms. create_channel cfg now name st = Some st' \<and> findchan (cs_chans st') name = Some c \<and>
    only_chan name (cs_chans st) (cs_chans st') \<and> c_name c = name \<and> roster c = (name, i, [], [], []) \<and>
    cview c = locked (ns_db (cs_ns st)) i (0, 0, None) \<and>
    cs_ns st' = (cs_ns st)\<lparr>ns_out := ns_out (cs_ns st) @ ms\<rparr>"
proof -
  define db where "db = ns_db (cs_ns st)"
  have i': "i = mysql_findchan db name" using i by (simp add: db_def)
  define c0 where "c0 = mysql_init_channel db (new_channel now name i)"
  have c0: "c_name c0 = name" "c_channel_id c0 = i" "\<not> c_bouncy_modes c0" "roster c0 = (name, i, [], [], [])"
    "cview c0 = (0, 0, None)"
    unfolding c0_def init_channel_sel using ok(3) by (simp_all add: new_channel_def roster_def cview_def)
  define st1 where "st1 = st\<lparr>cs_chans := chan_link c0 (cs_chans st)\<rparr>"
  have st1: "chans_ok (cs_chans st1)" "findchan (cs_chans st1) name = Some c0" "cs_ns st1 = cs_ns st"
    using chan_link_ok [OF ok(1), of c0] ok(2) none c0(1) by (simp_all add: st1_def)
  have "lock_consistent (ns_db (cs_ns st1)) (c_channel_id c0)" using cons c0 st1(3) by simp
  from check_modes_ok [OF st1(1) ok(2) st1(2) c0(3) this, of cfg now]
  obtain st2 c2 ms2 where st2: "check_modes cfg now name st1 = Some st2" "cs_chans st2 = chan_put c2 (cs_chans st1)"
    "cs_ns st2 = (cs_ns st)\<lparr>ns_out := ns_out (cs_ns st) @ ms2\<rparr>" "unmoded c2 = unmoded c0"
    "cview c2 = locked db i (cview c0)"
    using st1(3) c0(2) unfolding db_def by auto
  have n2: "c_name c2 = c_name c0" "roster c2 = roster c0" "c_bouncy_modes c2 = c_bouncy_modes c0"
    using unmoded_fields [OF st2(4)] by (simp_all add: roster_def)
  have "plain_chan c0" using c0 ok(3) by (simp add: plain_chan_def)
  then have only1: "only_chan name (cs_chans st) (cs_chans st1)"
    using only_chan_link [OF ok(1), of c0] ok(2) none c0(1) by (simp add: st1_def)
  have only2: "only_chan name (cs_chans st1) (cs_chans st2)"
    unfolding st2(2) by (rule only_chan_write [OF st1(1) ok(2) st1(2) n2(1,3)])
  have f2: "findchan (cs_chans st2) name = Some c2" unfolding st2(2) by (rule findchan_put [OF st1(1) ok(2) st1(2) n2(1)])
  have ok2: "chans_ok (cs_chans st2)" unfolding st2(2) by (rule chan_put_ok [OF st1(1)])
  obtain c3 ms3 where c3: "findchan (cs_chans (restore_topic cfg now name st2)) name = Some c3"
    "only_chan name (cs_chans st2) (cs_chans (restore_topic cfg now name st2))" "roster c3 = roster c2" "cview c3 = cview c2"
    "cs_ns (restore_topic cfg now name st2) = (cs_ns st2)\<lparr>ns_out := ns_out (cs_ns st2) @ ms3\<rparr>"
    by (rule restore_topic_ok [OF ok2 ok(2) f2])
  define st3 where "st3 = restore_topic cfg now name st2"
  define ms4 where "ms4 = (if c_floodserv c0 then [SJoin (c_name c0) (s_FloodServ cfg)] else [])"
  define st4 where "st4 = (if c_floodserv c0 then tell (SJoin (c_name c0) (s_FloodServ cfg)) st3 else st3)"
  have "create_channel cfg now name st = Some st4"
    unfolding create_channel_def Let_def i [symmetric] db_def [symmetric]
    unfolding i' [symmetric] c0_def [symmetric] st1_def [symmetric] st2(1)
    by (simp add: st3_def st4_def)
  moreover have "findchan (cs_chans st4) name = Some c3" "only_chan name (cs_chans st) (cs_chans st4)"
    using c3(1) only_chan_trans [OF only1 only_chan_trans [OF only2 c3(2)]] by (simp_all add: st4_def st3_def)
  moreover have "cs_ns st4 = (cs_ns st)\<lparr>ns_out := ns_out (cs_ns st) @ (ms2 @ ms3 @ ms4)\<rparr>"
    using c3(5) st2(3) by (simp add: st4_def ms4_def st3_def tell_def say_def)
  moreover have "c_name c3 = name" "roster c3 = (name, i, [], [], [])" "cview c3 = locked db i (0, 0, None)"
    using c3(3,4) n2 c0 st2(5) by (simp_all add: roster_def)
  ultimately show ?thesis unfolding db_def by blast
qed

lemma chan_adduser_new:
  assumes ok: "chans_ok (cs_chans st)" "cstring name" "length name < CHANMAX" "ns_ok (cs_ns st)" "known (ns_db (cs_ns st)) u"
    and none: "findchan (cs_chans st) name = None"
    and i: "i = mysql_findchan (ns_db (cs_ns st)) name" and cons: "lock_consistent (ns_db (cs_ns st)) i"
  shows "\<exists>st' c'. chan_adduser cfg now u name st = Some st' \<and> findchan (cs_chans st') name = Some c' \<and>
    cview c' = locked (ns_db (cs_ns st)) i (0, 0, None) \<and>
    roster c' = (name, i, [u_uid u], (if auto_applies u name CA_AUTOOP (ns_db (cs_ns st)) then [u_uid u] else []),
      (if \<not> auto_applies u name CA_AUTOOP (ns_db (cs_ns st)) \<and> auto_applies u name CA_AUTOVOICE (ns_db (cs_ns st))
       then [u_uid u] else [])) \<and>
    only_chan name (cs_chans st) (cs_chans st') \<and> (\<exists>ms. quiet ms (cs_ns st) (cs_ns st'))"
proof -
  obtain st1 c ms where st1: "create_channel cfg now name st = Some st1" "findchan (cs_chans st1) name = Some c"
    "only_chan name (cs_chans st) (cs_chans st1)" "c_name c = name" "roster c = (name, i, [], [], [])"
    "cview c = locked (ns_db (cs_ns st)) i (0, 0, None)"
    "cs_ns st1 = (cs_ns st)\<lparr>ns_out := ns_out (cs_ns st) @ ms\<rparr>"
    using create_channel_ok [OF ok(1-3) none i cons, of cfg now] by blast
  have q1: "quiet ms (cs_ns st) (cs_ns st1)" using quiet_out [OF quiet_refl [OF ok(4)], of ms] st1(7) by simp
  have chans1: "chans_ok (cs_chans st1)" using st1(3) by (simp add: only_chan_def)
  from q1 have ok1: "ns_ok (cs_ns st1)" "known (ns_db (cs_ns st1)) u" using ok(5) st1(7) by (simp_all add: quiet_ok)
  have "take (CHANMAX - 1) name = name" using ok(3) by simp
  then have same: "chan_adduser cfg now u name st = chan_adduser cfg now u name st1"
    using none st1(1,2,4) by (simp add: chan_adduser_def)
  obtain st' c' ms' where "chan_adduser cfg now u name st1 = Some st'" "findchan (cs_chans st') name = Some c'"
    "cview c' = cview c" "roster c' = (c_name c, c_channel_id c, u_uid u # c_users c,
      (if auto_applies u name CA_AUTOOP (ns_db (cs_ns st1)) then u_uid u # c_chanops c else c_chanops c),
      (if \<not> auto_applies u name CA_AUTOOP (ns_db (cs_ns st1)) \<and> auto_applies u name CA_AUTOVOICE (ns_db (cs_ns st1))
       then u_uid u # c_voices c else c_voices c))"
    and only: "only_chan name (cs_chans st1) (cs_chans st')" and q: "quiet ms' (cs_ns st1) (cs_ns st')"
    using chan_adduser_old [OF chans1 ok(2) ok1 st1(2), of cfg now] by blast
  then show ?thesis
    using same st1(5-7) only_chan_trans [OF st1(3) only] quiet_trans [OF q1 q] by (auto simp: roster_def)
qed


section \<open>Clearing bans\<close>

lemma unban_step:
  assumes ok: "chans_ok (cs_chans st)" "cstring name" and c: "findchan (cs_chans st) name = Some c" "\<not> c_bouncy_modes c"
    and cons: "lock_consistent (ns_db (cs_ns st)) (c_channel_id c)"
  shows "\<exists>st' c'. do_cmode cfg now source name ''-b'' [m] st = Some st' \<and> chans_ok (cs_chans st') \<and>
    findchan (cs_chans st') name = Some c' \<and> roster c' = roster c \<and> \<not> c_bouncy_modes c' \<and>
    c_bans c' = del_ban m (c_bans c) \<and> ns_db (cs_ns st') = ns_db (cs_ns st)"
proof -
  obtain c1 lm where c1: "count_server_modes cfg now source ''-b'' (cs_lastmodes st) c = (c1, lm)"
    "cview c1 = cview c" "unmoded c1 = unmoded c" by (rule count_server_eq)
  note f1 = unmoded_fields [OF c1(3)]
  define c2 where "c2 = c1\<lparr>c_bans := del_ban m (c_bans c1)\<rparr>"
  define st2 where "st2 = put_chan c2 (st\<lparr>cs_lastmodes := lm\<rparr>)"
  have "cmode_flag (CHR ''b'') = None" by (simp add: cmode_flag_def cmode_table_def)
  then have body: "cmode_body cfg now source ''-b'' [m] c st = Some st2"
    by (simp add: cmode_body_def c1(1) mode_step_def with_ns_def ban_mode_def c2_def st2_def)
  have n2: "c_name c2 = c_name c" "c_channel_id c2 = c_channel_id c" "\<not> c_bouncy_modes c2" "roster c2 = roster c"
    using f1 c(2) by (simp_all add: c2_def roster_def)
  note fn = findchan_name [OF ok c(1)]
  have st2: "chans_ok (cs_chans st2)" "findchan (cs_chans st2) (c_name c) = Some c2" "cs_ns st2 = cs_ns st"
    "findchan (cs_chans st2) name = Some c2"
    using chan_put_ok [OF ok(1)] findchan_put [OF ok(1) fn(2,1) n2(1)] findchan_put [OF ok c(1) n2(1)]
    by (simp_all add: st2_def)
  have "lock_consistent (ns_db (cs_ns st2)) (c_channel_id c2)" using cons n2(2) st2(3) by simp
  from check_modes_ok [OF st2(1) fn(2) st2(2) n2(3) this, of cfg now]
  obtain st3 c3 ms where st3: "check_modes cfg now (c_name c) st2 = Some st3" "cs_chans st3 = chan_put c3 (cs_chans st2)"
    "cs_ns st3 = (cs_ns st2)\<lparr>ns_out := ns_out (cs_ns st2) @ ms\<rparr>" "unmoded c3 = unmoded c2" by blast
  note f3 = unmoded_fields [OF st3(4)]
  have "do_cmode cfg now source name ''-b'' [m] st = Some st3" using c(1) body st3(1) by (simp add: do_cmode_def)
  moreover have "findchan (cs_chans st3) name = Some c3"
    unfolding st3(2) using f3(1) by (rule findchan_put [OF st2(1) ok(2) st2(4)])
  moreover have "chans_ok (cs_chans st3)" unfolding st3(2) by (rule chan_put_ok [OF st2(1)])
  moreover have "roster c3 = roster c" "\<not> c_bouncy_modes c3" "c_bans c3 = del_ban m (c_bans c)"
    using f3 n2 f1 by (simp_all add: roster_def c2_def)
  moreover have "ns_db (cs_ns st3) = ns_db (cs_ns st)" using st3(3) st2(3) by simp
  ultimately show ?thesis by blast
qed

lemma remove_bans_ok:
  assumes "chans_ok (cs_chans st)" and "cstring name" and "findchan (cs_chans st) name = Some c"
    and "\<not> c_bouncy_modes c" and "lock_consistent (ns_db (cs_ns st)) (c_channel_id c)"
  shows "\<exists>st' c'. remove_bans cfg now name ms st = Some st' \<and> findchan (cs_chans st') name = Some c' \<and>
    roster c' = roster c \<and> c_bans c' = fold del_ban ms (c_bans c)"
  using assms
proof (induction ms arbitrary: st c)
  case (Cons m ms)
  define st0 where "st0 = tell (ChanMode name ''-b'' [m]) st"
  have st0: "chans_ok (cs_chans st0)" "findchan (cs_chans st0) name = Some c"
    "lock_consistent (ns_db (cs_ns st0)) (c_channel_id c)"
    using Cons.prems by (simp_all add: st0_def)
  from unban_step [OF st0(1) Cons.prems(2) st0(2) Cons.prems(4) st0(3), of cfg now "s_ChanServ cfg" m]
  obtain st1 c1 where st1: "do_cmode cfg now (s_ChanServ cfg) name ''-b'' [m] st0 = Some st1" "chans_ok (cs_chans st1)"
    "findchan (cs_chans st1) name = Some c1" "roster c1 = roster c" "\<not> c_bouncy_modes c1"
    "c_bans c1 = del_ban m (c_bans c)" "ns_db (cs_ns st1) = ns_db (cs_ns st0)" by blast
  have "lock_consistent (ns_db (cs_ns st1)) (c_channel_id c1)"
    using st0(3) st1(4,7) by (simp add: roster_def)
  from Cons.IH [OF st1(2) Cons.prems(2) st1(3,5) this] show ?case
    using st1(1,4,6) by (simp add: st0_def [symmetric])
qed auto

lemma del_ban_prefix: "fold del_ban (map b_mask bs) (bs @ cs) = cs"
  by (induction bs) simp_all

lemma sorted_prefix:
  "sorted (map b_time bs) \<Longrightarrow>
   bs = filter (\<lambda>b. b_time b < t) bs @ filter (\<lambda>b. \<not> b_time b < t) bs"
proof (induction bs)
  case (Cons b bs)
  show ?case
  proof (cases "b_time b < t")
    case True
    then show ?thesis using Cons by simp
  next
    case False
    then have "filter (\<lambda>b. b_time b < t) bs = []" using Cons.prems by (auto simp: filter_empty_conv)
    then show ?thesis using Cons False by simp
  qed
qed simp

lemma upd_chan_mlock:
  assumes "\<And>r. cr_id (f r) = cr_id r" and "\<And>r. cr_mlock_on (f r) = cr_mlock_on r"
    and "\<And>r. cr_mlock_off (f r) = cr_mlock_off r" and "\<And>r. cr_mlock_limit (f r) = cr_mlock_limit r"
    and "\<And>r. cr_mlock_key (f r) = cr_mlock_key r"
  shows "lock_consistent (ns_db (cs_ns (upd_chan j f st))) i = lock_consistent (ns_db (cs_ns st)) i"
proof -
  define db where "db = ns_db (cs_ns st)"
  define db' where "db' = ns_db (cs_ns (upd_chan j f st))"
  have "chan.row i (t_channel db') = map_option (\<lambda>r. if cr_id r = j then f r else r) (chan.row i (t_channel db))"
    using chan.row_update [of f i "\<lambda>r. cr_id r = j" "t_channel db"] assms(1) by (simp add: db'_def db_def upd_chan_def)
  then have "get_mlock_on db' i = get_mlock_on db i" "get_mlock_off db' i = get_mlock_off db i"
    "get_mlock_limit db' i = get_mlock_limit db i" "get_mlock_key db' i = get_mlock_key db i"
    using assms(2-5)
    by (auto simp: get_mlock_on_def get_mlock_off_def get_mlock_limit_def get_mlock_key_def split: option.split)
  then show ?thesis unfolding db_def [symmetric] db'_def [symmetric] by (simp only: lock_consistent_def)
qed

text \<open>The limit is looked at first, which leaves the bans alone.\<close>

lemma check_autolimit_cases:
  assumes "check_autolimit now up c st = (c', st')"
  obtains (same) "c' = c" "st' = st"
    | (new) sta l where "cs_chans sta = cs_chans st" "ns_db (cs_ns sta) = ns_db (cs_ns st)"
      "c' = c\<lparr>c_limit := l, c_last_limit_time := now\<rparr>"
      "st' = upd_chan (c_channel_id c) (\<lambda>r. r\<lparr>cr_last_limit_time := now\<rparr>) (put_chan c' sta)"
proof (cases "(c_channel_id c \<noteq> 0 \<and> c_limit_offset c \<noteq> 0) \<and> \<not> now - c_last_limit_time c \<le> 10")
  case False
  then show thesis using same assms by (auto simp: check_autolimit_def split: if_splits)
next
  case True
  define delta where "delta = wrap32 (int (length (c_users c)) + int (c_limit_offset c) - int (c_limit c))"
  define change where "change \<longleftrightarrow> delta < 0 \<or> (to_uint32 delta > c_limit_tolerance c \<and> up)"
  define l where "l = (if change then to_uint32 (int (length (c_users c) + c_limit_offset c)) else c_limit c)"
  define sta where "sta = (if change then tell (ChanMode (c_name c) ''+l'' [show_int (wrap32 (int l))]) st else st)"
  have "c' = c\<lparr>c_limit := l, c_last_limit_time := now\<rparr> \<and>
      st' = upd_chan (c_channel_id c) (\<lambda>r. r\<lparr>cr_last_limit_time := now\<rparr>) (put_chan c' sta)"
    using assms True unfolding check_autolimit_def Let_def delta_def [symmetric] change_def [symmetric]
    by (cases change) (auto simp: l_def sta_def)
  then show thesis using new [of sta l] by (simp add: sta_def)
qed

lemma update_limit_keeps:
  assumes ok: "chans_ok (cs_chans st)" and c: "findchan (cs_chans st) (c_name c) = Some c" "cstring (c_name c)"
    and "check_autolimit now True c st = (c', st')"
  shows "chans_ok (cs_chans st') \<and> findchan (cs_chans st') (c_name c) = Some c' \<and> roster c' = roster c \<and>
    c_bans c' = c_bans c \<and> c_bantime c' = c_bantime c \<and> c_bouncy_modes c' = c_bouncy_modes c \<and>
    lock_consistent (ns_db (cs_ns st')) i = lock_consistent (ns_db (cs_ns st)) i"
  using assms(4)
proof (cases rule: check_autolimit_cases)
  case same
  then show ?thesis using ok c by simp
next
  case (new sta l)
  have n: "c_name c' = c_name c" using new(3) by simp
  have "lock_consistent (ns_db (cs_ns st')) i = lock_consistent (ns_db (cs_ns (put_chan c' sta))) i"
    unfolding new(4) by (rule upd_chan_mlock) simp_all
  moreover have "cs_chans st' = chan_put c' (cs_chans st)" using new(1) by (simp add: new(4))
  moreover have "roster c' = roster c" "c_bans c' = c_bans c" "c_bantime c' = c_bantime c" "c_bouncy_modes c' = c_bouncy_modes c"
    by (simp_all add: new(3) roster_def)
  ultimately show ?thesis
    using new(2) chan_put_ok [OF ok] findchan_put [OF ok c(2,1) n] by simp
qed

lemma update_channel_bans:
  assumes ok: "chans_ok (cs_chans st)" "cstring (c_name c)" and c: "findchan (cs_chans st) (c_name c) = Some c" "\<not> c_bouncy_modes c"
    and cons: "lock_consistent (ns_db (cs_ns st)) (c_channel_id c)"
    and "c_channel_id c \<noteq> 0" and "c_bantime c \<noteq> 0" and sorted: "sorted (map b_time (c_bans c))"
  shows "\<exists>st' c'. update_channel cfg now c st = Some st' \<and> findchan (cs_chans st') (c_name c) = Some c' \<and>
    roster c' = roster c \<and>
    c_bans c' = filter (\<lambda>b. now - int (c_bantime c) * 60 \<le> b_time b) (c_bans c)"
proof -
  define t where "t = now - int (c_bantime c) * 60"
  define lim where "lim \<longleftrightarrow> c_limit_offset c > 0 \<and> to_uint32 (now - c_last_limit_time c) \<ge> c_limit_period c * 60"
  obtain c1 st1 where 1: "(if lim then check_autolimit now True c st else (c, st)) = (c1, st1)" by fastforce
  have "chans_ok (cs_chans st1) \<and> findchan (cs_chans st1) (c_name c) = Some c1 \<and> roster c1 = roster c \<and>
    c_bans c1 = c_bans c \<and> c_bantime c1 = c_bantime c \<and> c_bouncy_modes c1 = c_bouncy_modes c \<and>
    lock_consistent (ns_db (cs_ns st1)) (c_channel_id c) = lock_consistent (ns_db (cs_ns st)) (c_channel_id c)"
  proof (cases lim)
    case True
    then have "check_autolimit now True c st = (c1, st1)" using 1 by simp
    then show ?thesis by (rule update_limit_keeps [OF ok(1) c(1) ok(2)])
  next
    case False
    then show ?thesis using 1 ok c by simp
  qed
  then have k: "chans_ok (cs_chans st1)" "findchan (cs_chans st1) (c_name c) = Some c1" "roster c1 = roster c"
    "c_bans c1 = c_bans c" "c_bantime c1 = c_bantime c" "c_bouncy_modes c1 = c_bouncy_modes c"
    "lock_consistent (ns_db (cs_ns st1)) (c_channel_id c) = lock_consistent (ns_db (cs_ns st)) (c_channel_id c)"
    by blast+
  have n1: "c_name c1 = c_name c" "c_channel_id c1 = c_channel_id c" using k(3) by (simp_all add: roster_def)
  have e: "fold del_ban (expired_bans now c1) (c_bans c1) = filter (\<lambda>b. \<not> b_time b < t) (c_bans c)"
    using del_ban_prefix [of "filter (\<lambda>b. b_time b < t) (c_bans c)" "filter (\<lambda>b. \<not> b_time b < t) (c_bans c)"]
      sorted_prefix [OF sorted, of t] k(4,5) by (simp add: expired_bans_def flip: t_def)
  have "\<not> c_bouncy_modes c1" "lock_consistent (ns_db (cs_ns st1)) (c_channel_id c1)" using k c(2) cons n1 by simp_all
  from remove_bans_ok [OF k(1) ok(2) k(2) this, of cfg now "expired_bans now c1"]
  obtain st' c' where *: "remove_bans cfg now (c_name c) (expired_bans now c1) st1 = Some st'"
    "findchan (cs_chans st') (c_name c) = Some c'" "roster c' = roster c1"
    "c_bans c' = fold del_ban (expired_bans now c1) (c_bans c1)" by blast
  have "update_channel cfg now c st = Some st'"
    unfolding update_channel_def lim_def [symmetric] 1 Let_def prod.case k(5) n1 *(1)
    using assms(6,7) by simp
  then show ?thesis using * e k(3) by (auto simp: t_def not_less)
qed


section \<open>Properties\<close>

definition lock_row :: chan_row where
  "lock_row = (chan_of 7 ''#a'' 2 0)\<lparr>cr_mlock_on := CMODE_t, cr_mlock_off := CMODE_s, cr_mlock_limit := 5,
     cr_mlock_key := ''new''\<rparr>"

definition sample_record :: channel where
  "sample_record = (new_channel 0 ''#a'' 7)\<lparr>c_mode := CMODE_s, c_key := Some ''old'', c_users := [5], c_bantime := 1,
     c_bans := [\<lparr>b_mask = ''*!*@a'', b_time = 10\<rparr>, \<lparr>b_mask = ''*!*@b'', b_time = 90\<rparr>]\<rparr>"

definition sample_channels :: cs_state where
  "sample_channels =
     \<lparr>cs_ns = sample_ns\<lparr>ns_db := (ns_db sample_ns)\<lparr>t_channel := [lock_row]\<rparr>\<rparr>,
      cs_chans = chan_link sample_record (\<lambda>_. []), cs_lastmodes = []\<rparr>"

lemma sample_channels_ok:
  "chans_ok (cs_chans sample_channels)" "findchan (cs_chans sample_channels) ''#a'' = Some sample_record"
  "ns_ok (cs_ns sample_channels)" "lock_consistent (ns_db (cs_ns sample_channels)) 7"
  "c_channel_id sample_record = 7" "\<not> c_bouncy_modes sample_record" "cstring ''#a''" "c_name sample_record = ''#a''"
proof -
  have n: "c_name sample_record = ''#a''" "c_channel_id sample_record = 7" "\<not> c_bouncy_modes sample_record"
    by (simp_all add: sample_record_def new_channel_def CHANMAX_def)
  have "chans_ok (\<lambda>_. [])" by (simp add: chans_ok_def)
  moreover have "findchan (\<lambda>_. []) ''#a'' = None" by (simp add: findchan_def)
  ultimately show "chans_ok (cs_chans sample_channels)" "findchan (cs_chans sample_channels) ''#a'' = Some sample_record"
    using chan_link_ok [of "\<lambda>_. []" sample_record] n by (simp_all add: sample_channels_def)
  show "ns_ok (cs_ns sample_channels)"
    using ns_ok_db [OF sample_ns_ok] by (simp add: sample_channels_def)
  show "lock_consistent (ns_db (cs_ns sample_channels)) 7"
    by (simp add: lock_consistent_def sample_channels_def get_mlock_on_def get_mlock_off_def get_mlock_limit_def
        get_mlock_key_def chan.row_def sql_first_def lock_row_def chan_of_def has_def CMODE_t_def CMODE_s_def
        CMODE_l_def CMODE_k_def)
  show "c_channel_id sample_record = 7" "\<not> c_bouncy_modes sample_record" "cstring ''#a''" "c_name sample_record = ''#a''"
    using n by simp_all
qed

text \<open>
  C13: the check of the mode lock always returns, also when a wrong key makes it call \<open>do_cmode\<close> and so
  itself; the channel then has exactly the modes, the limit and the key that the lock asks for
  and otherwise the ones it had; and the MODE commands sent take the network from the modes
  before to the modes recorded afterwards.
\<close>

theorem check_modes_correct:
  assumes "chans_ok (cs_chans st)" and "cstring name" and "findchan (cs_chans st) name = Some c" and "\<not> c_bouncy_modes c"
    and "lock_consistent (ns_db (cs_ns st)) (c_channel_id c)"
  shows "\<exists>st' c' ms. check_modes cfg now name st = Some st' \<and> cs_chans st' = chan_put c' (cs_chans st) \<and>
    cs_ns st' = (cs_ns st)\<lparr>ns_out := ns_out (cs_ns st) @ ms\<rparr> \<and>
    unmoded c' = unmoded c \<and> cview c' = locked (ns_db (cs_ns st)) (c_channel_id c) (cview c) \<and>
    fold (net_msg (c_name c)) ms (cview c) = cview c'"
  by (rule check_modes_ok [OF assms])

theorem check_modes_correct_witness:
  "\<exists>st' c' ms. check_modes sample_cs 50 ''#a'' sample_channels = Some st' \<and>
     cs_chans st' = chan_put c' (cs_chans sample_channels) \<and> cview c' = (CMODE_t, 5, Some ''new'') \<and>
     fold (net_msg ''#a'') ms (CMODE_s, 0, Some ''old'') = (CMODE_t, 5, Some ''new'')"
proof -
  have "cview sample_record = (CMODE_s, 0, Some ''old'')"
    by (simp add: cview_def sample_record_def new_channel_def)
  moreover have "locked (ns_db (cs_ns sample_channels)) 7 (CMODE_s, 0, Some ''old'') = (CMODE_t, 5, Some ''new'')"
    by (simp add: locked_def wanted_key_def sample_channels_def get_mlock_on_def get_mlock_off_def get_mlock_limit_def
        get_mlock_key_def chan.row_def sql_first_def lock_row_def chan_of_def has_def cmode_table_def CMODE_i_def
        CMODE_m_def CMODE_M_def CMODE_n_def CMODE_p_def CMODE_s_def CMODE_t_def CMODE_c_def CMODE_O_def CMODE_R_def
        CMODE_l_def CMODE_k_def)
  ultimately show ?thesis
    using check_modes_correct [OF sample_channels_ok(1,7,2,6), of sample_cs 50] sample_channels_ok(4,5,8) by metis
qed

text \<open>
  C12: a MODE command on a channel in use never touches freed memory as long as the members of the
  channel are online; afterwards the channel obeys its mode lock, everybody it lists is
  online, its users are the same, and the rights and the cache are left alone.
\<close>

theorem do_cmode_correct:
  assumes "ns_ok (cs_ns st)" and "all_known (cs_ns st)" and "chans_ok (cs_chans st)" and "cstring name"
    and "findchan (cs_chans st) name = Some c" and "\<not> c_bouncy_modes c" and "members_ok (ns_users (cs_ns st)) c"
    and "lock_consistent (ns_db (cs_ns st)) (c_channel_id c)"
  shows "\<exists>st' c' ms. do_cmode cfg now source name modestr args st = Some st' \<and>
    findchan (cs_chans st') name = Some c' \<and> cs_chans st' = chan_put c' (cs_chans st) \<and>
    locked (ns_db (cs_ns st)) (c_channel_id c) (cview c') = cview c' \<and>
    members_ok (ns_users (cs_ns st)) c' \<and> c_users c' = c_users c \<and> quiet ms (cs_ns st) (cs_ns st')"
  by (rule do_cmode_ok [OF assms])

lemma sample_users: "u \<in> set (all_users (ns_users (cs_ns sample_channels))) \<longleftrightarrow> u = sample_user 5 ''alice''"
  using HASH_lt [of "u_nick (sample_user 5 ''alice'')"]
  by (auto simp: all_users_set sample_channels_def sample_ns_def user_link_def)

theorem do_cmode_correct_witness:
  "\<exists>st' c'. do_cmode sample_cs 50 ''irc.example.org'' ''#a'' ''+ilk-t'' [''9'', ''key''] sample_channels = Some st' \<and>
     findchan (cs_chans st') ''#a'' = Some c' \<and> c_users c' = [5] \<and> c_key c' = Some ''new''"
proof -
  have "all_known (cs_ns sample_channels)"
    unfolding all_known_def Ball_def sample_users by (simp add: known_def sample_user_def)
  moreover have "members_ok (ns_users (cs_ns sample_channels)) sample_record"
    using sample_users [of "sample_user 5 ''alice''"]
    by (force simp: members_ok_def sample_record_def new_channel_def sample_user_def)
  moreover have "\<exists>k. locked (ns_db (cs_ns sample_channels)) 7 (f, l, k0) = (a, b, k) \<and> k = Some ''new''"
    if "locked (ns_db (cs_ns sample_channels)) 7 (f, l, k0) = (a, b, c)" for f l k0 a b c
    using that
    by (auto simp: locked_def wanted_key_def sample_channels_def get_mlock_off_def
        get_mlock_key_def chan.row_def sql_first_def lock_row_def chan_of_def has_def CMODE_s_def CMODE_k_def)
  moreover have "c_users sample_record = [5]" by (simp add: sample_record_def)
  ultimately show ?thesis
    using do_cmode_correct [OF sample_channels_ok(3) _ sample_channels_ok(1,7,2,6), of sample_cs 50 "''irc.example.org''"
        "''+ilk-t''" "[''9'', ''key'']"] sample_channels_ok(4,5)
    unfolding cview_def by (metis prod.inject)
qed


text \<open>
  C17: a user who joins a channel in use becomes one of its users and gets ops, or else voice, by the
  rights in the tables; a channel that was not in use starts with that user alone and with the
  modes of its mode lock.  IRC operators and services administrators get ops by the tables only as well: the
  option CSOpOper, documented to give them ops on every channel they join, is not asked for here.
\<close>

theorem chan_adduser_correct:
  assumes "chans_ok (cs_chans st)" and "cstring name" and "ns_ok (cs_ns st)" and "known (ns_db (cs_ns st)) u"
    and "op = auto_applies u name CA_AUTOOP (ns_db (cs_ns st))"
    and "voice = (\<not> op \<and> auto_applies u name CA_AUTOVOICE (ns_db (cs_ns st)))"
  shows "(findchan (cs_chans st) name = Some c \<longrightarrow>
     (\<exists>st' c'. chan_adduser cfg now u name st = Some st' \<and> findchan (cs_chans st') name = Some c' \<and>
        cview c' = cview c \<and>
        roster c' = (c_name c, c_channel_id c, u_uid u # c_users c,
          (if op then [u_uid u] else []) @ c_chanops c, (if voice then [u_uid u] else []) @ c_voices c))) \<and>
    (findchan (cs_chans st) name = None \<and> length name < CHANMAX \<and> i = mysql_findchan (ns_db (cs_ns st)) name \<and>
     lock_consistent (ns_db (cs_ns st)) i \<longrightarrow>
     (\<exists>st' c'. chan_adduser cfg now u name st = Some st' \<and> findchan (cs_chans st') name = Some c' \<and>
        cview c' = locked (ns_db (cs_ns st)) i (0, 0, None) \<and>
        roster c' = (name, i, [u_uid u], if op then [u_uid u] else [], if voice then [u_uid u] else [])))"
proof (intro conjI impI)
  assume "findchan (cs_chans st) name = Some c"
  from chan_adduser_old [OF assms(1-4) this, of cfg now, folded assms(5), folded assms(6)]
  show "\<exists>st' c'. chan_adduser cfg now u name st = Some st' \<and> findchan (cs_chans st') name = Some c' \<and>
        cview c' = cview c \<and>
        roster c' = (c_name c, c_channel_id c, u_uid u # c_users c,
          (if op then [u_uid u] else []) @ c_chanops c, (if voice then [u_uid u] else []) @ c_voices c)"
    by (auto split: if_splits)
next
  assume "findchan (cs_chans st) name = None \<and> length name < CHANMAX \<and> i = mysql_findchan (ns_db (cs_ns st)) name \<and>
     lock_consistent (ns_db (cs_ns st)) i"
  then have new: "length name < CHANMAX" "findchan (cs_chans st) name = None"
    "i = mysql_findchan (ns_db (cs_ns st)) name" "lock_consistent (ns_db (cs_ns st)) i" by blast+
  from chan_adduser_new [OF assms(1,2) new(1) assms(3,4) new(2-4), of cfg now, folded assms(5), folded assms(6)]
  show "\<exists>st' c'. chan_adduser cfg now u name st = Some st' \<and> findchan (cs_chans st') name = Some c' \<and>
        cview c' = locked (ns_db (cs_ns st)) i (0, 0, None) \<and>
        roster c' = (name, i, [u_uid u], if op then [u_uid u] else [], if voice then [u_uid u] else [])"
    by blast
qed

theorem chan_adduser_correct_witness:
  "\<exists>st' c'. chan_adduser sample_cs 50 (sample_user 5 ''alice'') ''#b'' sample_channels = Some st' \<and>
     findchan (cs_chans st') ''#b'' = Some c' \<and> roster c' = (''#b'', 0, [5], [], [])"
proof -
  have i: "mysql_findchan (ns_db (cs_ns sample_channels)) ''#b'' = 0"
    by (simp add: mysql_findchan_def sample_channels_def sql_first_def lock_row_def chan_of_def sql_eq_def strlower_def
        tolower_def isupper_def)
  have none: "findchan (cs_chans sample_channels) ''#b'' = None"
    using findchan_None [OF sample_channels_ok(1), of "''#b''"] sample_channels_ok(8)
    by (auto simp: sample_channels_def chan_link_def strlower_def tolower_def isupper_def)
  have "lock_consistent (ns_db (cs_ns sample_channels)) 0"
    by (simp add: lock_consistent_def sample_channels_def get_mlock_on_def get_mlock_off_def get_mlock_limit_def
        get_mlock_key_def chan.row_def sql_first_def lock_row_def chan_of_def)
  moreover have "known (ns_db (cs_ns sample_channels)) (sample_user 5 ''alice'')"
    by (simp add: known_def sample_user_def)
  moreover have auto: "False = auto_applies (sample_user 5 ''alice'') ''#b'' what (ns_db (cs_ns sample_channels))" for what
  proof -
    have "fst (mysql_findchanflags (ns_db (cs_ns sample_channels)) ''#b'') = 0"
      using i by (simp add: mysql_findchan_def mysql_findchanflags_def split: option.splits)
    then show ?thesis by (simp add: auto_applies_def Let_def)
  qed
  moreover have "False = (\<not> False \<and> auto_applies (sample_user 5 ''alice'') ''#b'' CA_AUTOVOICE (ns_db (cs_ns sample_channels)))"
    using auto by simp
  moreover have "cstring ''#b''" "length ''#b'' < CHANMAX" "u_uid (sample_user 5 ''alice'') = 5"
    by (simp_all add: CHANMAX_def sample_user_def)
  ultimately show ?thesis
    using chan_adduser_correct [OF sample_channels_ok(1) _ sample_channels_ok(3),
        where name = "''#b''" and u = "sample_user 5 ''alice''" and i = 0 and cfg = sample_cs and now = 50 and op = False
        and voice = False] none i [symmetric] by metis
qed

text \<open>
  C18: a user who leaves is on none of the three lists of the channel any more and everybody else
  stays; the channel goes away exactly if no other user is left.
\<close>

theorem chan_deluser_correct:
  assumes "chans_ok (cs_chans st)" and "cstring name" and "findchan (cs_chans st) name = Some c"
    and "distinct (c_users c)" and "distinct (c_chanops c)" and "distinct (c_voices c)"
  shows "if set (c_users c) \<subseteq> {i} then findchan (cs_chans (chan_deluser now i c st)) name = None
    else \<exists>c'. findchan (cs_chans (chan_deluser now i c st)) name = Some c' \<and>
      roster c' = (c_name c, c_channel_id c, filter (\<lambda>j. j \<noteq> i) (c_users c), filter (\<lambda>j. j \<noteq> i) (c_chanops c),
        filter (\<lambda>j. j \<noteq> i) (c_voices c))"
  by (rule chan_deluser_ok [OF assms])

theorem chan_deluser_correct_witness:
  "findchan (cs_chans (chan_deluser 50 5 sample_record sample_channels)) ''#a'' = None"
  using chan_deluser_correct [OF sample_channels_ok(1,7,2), of 5 50] by (simp add: sample_record_def new_channel_def)

text \<open>
  The periodic work on a registered channel with a time for bans removes exactly the bans that
  are older than that many minutes, and neither users nor their rights.
\<close>

theorem ban_clearance_correct:
  assumes "chans_ok (cs_chans st)" and "cstring (c_name c)" and "findchan (cs_chans st) (c_name c) = Some c"
    and "\<not> c_bouncy_modes c" and "lock_consistent (ns_db (cs_ns st)) (c_channel_id c)"
    and "c_channel_id c \<noteq> 0" and "c_bantime c \<noteq> 0" and "sorted (map b_time (c_bans c))"
  shows "\<exists>st' c'. update_channel cfg now c st = Some st' \<and> findchan (cs_chans st') (c_name c) = Some c' \<and>
    roster c' = roster c \<and> c_bans c' = filter (\<lambda>b. now - int (c_bantime c) * 60 \<le> b_time b) (c_bans c)"
  by (rule update_channel_bans [OF assms])

theorem ban_clearance_correct_witness:
  "\<exists>st' c'. update_channel sample_cs 100 sample_record sample_channels = Some st' \<and>
     findchan (cs_chans st') ''#a'' = Some c' \<and> c_bans c' = [\<lparr>b_mask = ''*!*@b'', b_time = 90\<rparr>]"
  using ban_clearance_correct [OF sample_channels_ok(1), of sample_record sample_cs 100] sample_channels_ok(2,4-8)
  by (auto simp: sample_record_def)

text \<open>
  C26: with numbers of moderate size, a change of the automatic limit never leaves it above the
  number of users by more than the offset, with leave to raise it never below that by more than
  the tolerance, and without leave never raises it; a MODE command is sent exactly for a change.
\<close>

theorem check_autolimit_correct:
  assumes "check_autolimit now up c st = (c', st')" and "c_channel_id c \<noteq> 0" and "c_limit_offset c \<noteq> 0"
    and "now - c_last_limit_time c > 10"
    and "length (c_users c) + c_limit_offset c < 2 ^ 31" and "c_limit c < 2 ^ 31"
  shows "c_limit c' \<le> length (c_users c) + c_limit_offset c \<and>
    (up \<longrightarrow> length (c_users c) + c_limit_offset c \<le> c_limit c' + c_limit_tolerance c) \<and>
    (\<not> up \<longrightarrow> c_limit c' \<le> c_limit c) \<and>
    (c_limit c' \<noteq> c_limit c \<longleftrightarrow> ns_out (cs_ns st') \<noteq> ns_out (cs_ns st))"
  using check_autolimit_bounds [OF assms] by blast

theorem check_autolimit_correct_witness:
  "c_limit (fst (check_autolimit 50 True (sample_record\<lparr>c_limit_offset := 3\<rparr>) sample_channels)) = 4"
proof -
  define c where "c = sample_record\<lparr>c_limit_offset := 3\<rparr>"
  obtain c' st' where r: "check_autolimit 50 True c sample_channels = (c', st')" by fastforce
  have c: "c_channel_id c = 7" "c_limit_offset c = 3" "c_last_limit_time c = 0" "length (c_users c) = 1" "c_limit c = 0"
    "c_limit_tolerance c = 0"
    by (simp_all add: c_def sample_record_def new_channel_def)
  show ?thesis
    using check_autolimit_correct [OF r] unfolding c_def [symmetric] r by (simp add: c)
qed

section \<open>Defects\<close>

text \<open>\<open>-k\<close> counts its parameter but does not step over it: the next mode reads the key.\<close>

lemma mode_loop_misaligned:
  "\<exists>c'. mode_loop cfg now source ''-k+l'' True (2, [''abc'', ''5'']) c ns = Some (c', ns) \<and> c_limit c' = 0"
  by (simp add: mode_step_def cmode_flag_def cmode_table_def with_ns_def key_mode_def limit_mode_def
      strtou_def strtoul_def isspace_def isdigit_def dval_def)

text \<open>When the limit and the key change together, the key that is taken away is sent as an empty word.\<close>

lemma lock_params_no_key:
  "c_key c = Some k \<Longrightarrow> lock_params (Some l) None CMODE_k c = [show_int l, []]"
  by (simp add: lock_params_def lowered_def has_def CMODE_k_def)

text \<open>Ops are recorded for a user who is not on the channel.\<close>

lemma op_mode_stranger:
  assumes "nick_scan (ns_users ns) nick (c_chanops c) = Some None" and "finduser (ns_users ns) nick = Some u"
    and "mysql_findchanflags (ns_db ns) (c_name c) = (0, 0)" and "u_uid u \<notin> set (c_users c)"
  shows "op_mode cfg now source True (1, [nick]) c ns = Some ((0, []), c\<lparr>c_chanops := u_uid u # c_chanops c\<rparr>, ns)"
  using assms by (simp add: op_mode_def check_valid_op_def)

end
