(* ===== verification/Akill.thy ===== *)
theory Akill
  imports Channels Timestr
begin

text \<open>
  Automatic kills (src/src/akill.c): the table of masks, the check of a user who connects, expiry,
  and the OperServ command with its rules for operators of different rank.  The tables of
  sessions and exceptions (src/src/sessions.c) are part of the state, and their operations are in
  the theory Sessions.
\<close>

named_theorems akill_simps \<open>the tables of OperServ\<close>

abbreviation BUFSIZE :: nat where "BUFSIZE \<equiv> 1024"

record akill_row =
  kl_id :: nat
  kl_mask :: cstr
  kl_reason :: cstr
  kl_who :: cstr
  kl_time :: int
  kl_expires :: int

record session_row =
  se_host :: cstr
  se_count :: nat
  se_killcount :: nat

record exception_row =
  ex_id :: nat
  ex_mask :: cstr
  ex_limit :: nat
  ex_who :: cstr
  ex_reason :: cstr
  ex_time :: int
  ex_expires :: int

text \<open>The configuration of OperServ.\<close>

record oscfg =
  s_OperServ :: cstr
  StaticAkillReason :: "cstr option"
  ImmediatelySendAkill :: bool
  AutokillExpiry :: int
  AkillWildThresh :: int
  WallOSAkill :: bool
  WallOSException :: bool
  WallAkillExpire :: bool
  WallExceptionExpire :: bool
  LimitSessions :: bool
  DefSessionLimit :: nat
  ExceptionExpiry :: int
  MaxSessionLimit :: nat
  SessionAkillExpiry :: int
  SessionKillClues :: nat
  SessionLimitExceeded :: "cstr option"
  SessionLimitDetailsLoc :: "cstr option"
  os_noexpire :: bool

record os_state =
  os_cs :: cs_state
  os_akills :: "akill_row list"
  os_akill_next :: nat
  os_sessions :: "session_row list"
  os_exceptions :: "exception_row list"
  os_exception_next :: nat

definition os_say :: "ns_msg \<Rightarrow> os_state \<Rightarrow> os_state" where
  "os_say m st = st\<lparr>os_cs := tell m (os_cs st)\<rparr>"

definition os_ns :: "os_state \<Rightarrow> ns_state" where
  "os_ns st = cs_ns (os_cs st)"

definition os_put :: "ns_state \<Rightarrow> os_state \<Rightarrow> os_state" where
  "os_put ns st = st\<lparr>os_cs := (os_cs st)\<lparr>cs_ns := ns\<rparr>\<rparr>"

section \<open>The table\<close>

definition AKILL_PRESENT :: nat where "AKILL_PRESENT = 1"
definition TOO_MANY_AKILLS :: nat where "TOO_MANY_AKILLS = 2"

definition send_akill :: "cstr \<Rightarrow> cstr \<Rightarrow> os_state \<Rightarrow> os_state" where
  "send_akill msk reason st =
     (case strchr msk (CHR ''@'') of
        None \<Rightarrow> os_say (Wallops ''Missing @ in AKILL'' [msk]) st
      | Some s \<Rightarrow> os_say (Kline (takeWhile (\<lambda>c. c \<noteq> CHR ''@'') msk) (tl s) reason) st)"

text \<open>The text \<open>username@host\<close> in a buffer of 512 bytes.\<close>

definition akill_target :: "cstr \<Rightarrow> cstr \<Rightarrow> cstr" where
  "akill_target username host =
     (let u = take 509 username in u @ ''@'' @ strlower (take (510 - length u) host))"

definition check_akill :: "oscfg \<Rightarrow> cstr \<Rightarrow> cstr \<Rightarrow> cstr \<Rightarrow> os_state \<Rightarrow> bool \<times> os_state" where
  "check_akill cfg nick username host st =
     (case rev (sort_key kl_id (filter (\<lambda>r. irc_match (kl_mask r) (akill_target username host) None) (os_akills st))) of
        [] \<Rightarrow> (False, st)
      | r # _ \<Rightarrow>
          (True, send_akill (kl_mask r) (kl_reason r)
             (os_say (KillMsg nick (s_OperServ cfg @ '' (['' @ showd (kl_id r) @ ''] '' @
                (case StaticAkillReason cfg of Some t \<Rightarrow> t | None \<Rightarrow> kl_reason r) @ '')'')) st)))"

definition akill_expired :: "int \<Rightarrow> akill_row \<Rightarrow> bool" where
  "akill_expired now r \<longleftrightarrow> kl_expires r \<noteq> 0 \<and> kl_expires r < now"

definition announce_expired :: "akill_row \<Rightarrow> os_state \<Rightarrow> os_state" where
  "announce_expired r st =
     (let st = os_say (Wallops ''AKILL on %s has expired'' [kl_mask r]) st
      in case strchr (kl_mask r) (CHR ''@'') of
           None \<Rightarrow> st
         | Some s \<Rightarrow> os_say (Unkline (takeWhile (\<lambda>c. c \<noteq> CHR ''@'') (kl_mask r)) (strlower (tl s))) st)"

definition expire_akills :: "oscfg \<Rightarrow> int \<Rightarrow> os_state \<Rightarrow> os_state" where
  "expire_akills cfg now st =
     (if os_noexpire cfg then st
      else
        (let st = (if WallAkillExpire cfg then fold announce_expired (filter (akill_expired now) (os_akills st)) st
                   else st)
         in st\<lparr>os_akills := sql_delete (akill_expired now) (os_akills st)\<rparr>))"

definition num_akills :: "os_state \<Rightarrow> nat" where
  "num_akills st = length (os_akills st)"

text \<open>INSERT with a unique mask; the result says whether the mask was there already.\<close>

definition mysql_insert_akill :: "cstr \<Rightarrow> cstr \<Rightarrow> cstr \<Rightarrow> int \<Rightarrow> int \<Rightarrow> os_state \<Rightarrow> bool \<times> os_state" where
  "mysql_insert_akill msk reason who t expires st =
     (if \<exists>r\<in>set (os_akills st). sql_eq (kl_mask r) (take 255 msk) then (True, st)
      else (False, st\<lparr>os_akills := os_akills st @
              [\<lparr>kl_id = os_akill_next st, kl_mask = take 255 msk, kl_reason = take 255 reason, kl_who = who,
                kl_time = t, kl_expires = expires\<rparr>],
            os_akill_next := Suc (os_akill_next st)\<rparr>))"

definition mysql_delete_akill :: "nat \<Rightarrow> os_state \<Rightarrow> os_state" where
  "mysql_delete_akill i st = st\<lparr>os_akills := sql_delete (\<lambda>r. kl_id r = i) (os_akills st)\<rparr>"

definition add_akill :: "oscfg \<Rightarrow> int \<Rightarrow> cstr \<Rightarrow> cstr \<Rightarrow> cstr \<Rightarrow> int \<Rightarrow> os_state \<Rightarrow> nat \<times> os_state" where
  "add_akill cfg now msk reason who expiry st =
     (if num_akills st \<ge> 32767 then (TOO_MANY_AKILLS, st)
      else
        (let msk = strlower msk;
             (dup, st) = mysql_insert_akill msk reason (take (NICKMAX - 1) who) now expiry st;
             st = (if ImmediatelySendAkill cfg then send_akill msk reason st else st)
         in (if dup then AKILL_PRESENT else 0, st)))"

definition del_akill :: "cscfg \<Rightarrow> int \<Rightarrow> user \<Rightarrow> cstr \<Rightarrow> os_state \<Rightarrow> (bool \<times> os_state) option" where
  "del_akill ccfg now u msk st =
     (case filter (\<lambda>r. sql_eq (kl_mask r) msk) (os_akills st) of
        [] \<Rightarrow> Some (False, os_say (NoticeLang (u_uid u) ''OPER_AKILL_NOT_FOUND'' [msk]) st)
      | r # _ \<Rightarrow>
          do {
            (oper, ns) \<leftarrow> is_services_oper ccfg now u (os_ns st);
            let st = os_put ns st;
            let db = ns_db ns;
            let i = mysql_findnick db (kl_who r);
            if \<not> oper \<and> (i = 0 \<or> mysql_getlink db i \<noteq> mysql_getlink db (u_nick_id u))
            then Some (False, os_say (NoticeLang (u_uid u) ''OPER_AKILL_ONLY_DELETE_OWN'' []) st)
            else
              (let expirebuf = (if kl_expires r = 0 then ''Would not expire''
                                else ''Would have expired in '' @ disect_time (kl_expires r - now));
                   st = os_say (Wallops ''removed an AKILL'' [u_nick u, kl_mask r, expirebuf, kl_reason r]) st;
                   st = os_say (Wallops ''Originally set by'' [kl_who r]) st
               in Some (True, mysql_delete_akill (kl_id r) st))
          })"

section \<open>The AKILL command\<close>

text \<open>
  The rank of an operator: 2 for a services administrator, 1 for a services operator, 0 for others.
\<close>

definition svs_operadmin :: "cscfg \<Rightarrow> int \<Rightarrow> user \<Rightarrow> os_state \<Rightarrow> (nat \<times> os_state) option" where
  "svs_operadmin ccfg now u st =
     do {
       (admin, ns) \<leftarrow> is_services_admin ccfg now u (os_ns st);
       if admin then Some (2, os_put ns st)
       else do {
         (oper, ns) \<leftarrow> is_services_oper ccfg now u ns;
         Some (if oper then 1 else 0, os_put ns st)
       }
     }"

text \<open>The characters behind the last \<open>@\<close> that are neither wildcards nor dots.\<close>

definition nonwild :: "cstr \<Rightarrow> nat" where
  "nonwild msk = length (filter (\<lambda>c. c \<notin> set ''*?.'') (takeWhile (\<lambda>c. c \<noteq> CHR ''@'') (rev (tl msk))))"

text \<open>
  ADD once a mask and a reason have been read.  A duration in the language of a user is given by
  its seconds.
\<close>

definition akill_add :: "oscfg \<Rightarrow> int \<Rightarrow> user \<Rightarrow> nat \<Rightarrow> bool \<Rightarrow> int \<Rightarrow> cstr \<Rightarrow> cstr \<Rightarrow> os_state \<Rightarrow> os_state option" where
  "akill_add cfg now u rank force expires msk reason st =
     (let note = (\<lambda>t args st. os_say (NoticeLang (u_uid u) t args) st)
      in if CHR ''!'' \<in> set msk then Some (note ''BAD_USERHOST_MASK'' [] (note ''OPER_AKILL_NO_NICK'' [] st))
         else if CHR ''@'' \<notin> set msk then Some (note ''BAD_USERHOST_MASK'' [] st)
         else if \<not> force \<and> AkillWildThresh cfg \<noteq> 0 \<and> int (nonwild msk) < AkillWildThresh cfg
         then Some (note (if rank > 1 then ''OPER_AKILL_MASK_TOO_GENERAL_FORCE'' else ''OPER_AKILL_MASK_TOO_GENERAL'') [] st)
         else do {
           let msk = strlower msk;
           matches \<leftarrow> count_mask_matches (ns_users (os_ns st)) (None, 0) msk;
           if matches > 20 \<and> rank < 1 then Some (note ''OPER_AKILL_TOO_MANY_MATCHES'' [showd matches] st)
           else if expires - now > 43200 \<and> rank < 1 then Some (note ''OPER_AKILL_TOO_LONG'' [disect_time 43200] st)
           else
             (let (add, st) = add_akill cfg now msk reason (u_nick u) expires st
              in if add = AKILL_PRESENT then Some (note ''OPER_AKILL_MASK_ALREADY_AKILLED'' [msk] st)
                 else
                   (let st = note ''OPER_AKILL_ADDED'' [msk, showd matches] st
                    in Some (if WallOSAkill cfg
                             then os_say (Wallops ''added an AKILL'' [u_nick u, msk, showd matches,
                                    if expires = 0 then ''OPER_AKILL_NO_EXPIRE'' else show_int (expires - now + 59),
                                    reason]) st
                             else st)))
         })"

text \<open>ADD behind the expiry time.\<close>

definition akill_forced ::
  "oscfg \<Rightarrow> int \<Rightarrow> user \<Rightarrow> nat \<Rightarrow> cstr option \<Rightarrow> cstr option \<Rightarrow> cstr \<Rightarrow> os_state \<Rightarrow> os_state option" where
  "akill_forced cfg now u rank expiry msk r st =
     (let note = (\<lambda>t. os_say (NoticeLang (u_uid u) t []));
          forcing = (case msk of Some m \<Rightarrow> strlower m = ''force'' | None \<Rightarrow> False)
      in if forcing \<and> \<not> rank > 1 then Some (note ''ACCESS_DENIED'' st)
         else
           (let (msk, r) = (if forcing then strtok r '' '' else (msk, r));
                expires = (case expiry of Some e \<Rightarrow> dotime e | None \<Rightarrow> AutokillExpiry cfg)
            in if expires < 0 then Some (note ''BAD_EXPIRY_TIME'' st)
               else
                 (let expires = (if expires > 0 then expires + now else expires)
                  in case (msk, fst (strtok r [])) of
                       (Some m, Some reason) \<Rightarrow> akill_add cfg now u rank forcing expires m reason st
                     | _ \<Rightarrow> Some (note ''OPER_AKILL_ADD_SYNTAX'' st))))"

definition do_akill_add :: "oscfg \<Rightarrow> int \<Rightarrow> user \<Rightarrow> nat \<Rightarrow> cstr \<Rightarrow> os_state \<Rightarrow> os_state option" where
  "do_akill_add cfg now u rank r st =
     (let note = (\<lambda>t. os_say (NoticeLang (u_uid u) t []))
      in do {
        (idd, ns) \<leftarrow> nick_identified now u (os_ns st);
        let st = os_put ns st;
        if \<not> idd then Some (note ''NICK_IDENTIFY_REQUIRED'' st)
        else if num_akills st \<ge> 32767 then Some (note ''OPER_TOO_MANY_AKILLS'' st)
        else
          (case strtok r '' '' of
             (Some e, r) \<Rightarrow>
               if hd0 e = CHR ''+'' then (case strtok r '' '' of (m, r) \<Rightarrow> akill_forced cfg now u rank (Some e) m r st)
               else akill_forced cfg now u rank None (Some e) r st
           | (None, r) \<Rightarrow> akill_forced cfg now u rank None None r st)
      })"

definition do_akill_del :: "cscfg \<Rightarrow> int \<Rightarrow> user \<Rightarrow> cstr \<Rightarrow> os_state \<Rightarrow> os_state option" where
  "do_akill_del ccfg now u r st =
     do {
       (idd, ns) \<leftarrow> nick_identified now u (os_ns st);
       let st = os_put ns st;
       if \<not> idd then Some (os_say (NoticeLang (u_uid u) ''NICK_IDENTIFY_REQUIRED'' []) st)
       else (case fst (strtok r '' '') of
               None \<Rightarrow> Some (os_say (NoticeLang (u_uid u) ''OPER_AKILL_DEL_SYNTAX'' []) st)
             | Some m \<Rightarrow>
                 do {
                   let name = takeWhile (\<lambda>c. c \<noteq> CHR ''@'') m;
                   let host = strlower (dropWhile (\<lambda>c. c \<noteq> CHR ''@'') m);
                   (done, st) \<leftarrow> del_akill ccfg now u (name @ host) st;
                   if done
                   then (let st = os_say (NoticeLang (u_uid u) ''OPER_AKILL_REMOVED'' [name @ host]) st
                         in Some (if host = [] then st else os_say (Unkline name (tl host)) st))
                   else Some st
                 })
     }"

text \<open>LIST and VIEW; a row of VIEW also shows dates, which are left out.\<close>

definition do_akill_list :: "bool \<Rightarrow> oscfg \<Rightarrow> int \<Rightarrow> user \<Rightarrow> cstr \<Rightarrow> os_state \<Rightarrow> os_state" where
  "do_akill_list full cfg now u r st =
     (let st = expire_akills cfg now st;
          (s, r) = strtok r '' '';
          noexpire = (case s of None \<Rightarrow> False
                      | Some s \<Rightarrow> (case fst (strtok r '' '') of None \<Rightarrow> False | Some e \<Rightarrow> strlower e = ''noexpire''));
          pat = (case s of None \<Rightarrow> ''*''
                 | Some s \<Rightarrow> takeWhile (\<lambda>c. c \<noteq> CHR ''@'') s @ strlower (dropWhile (\<lambda>c. c \<noteq> CHR ''@'') s));
          st = os_say (NoticeLang (u_uid u) ''OPER_AKILL_LIST_HEADER'' []) st
      in fold (\<lambda>k. os_say (if full
                 then NoticeLang (u_uid u) ''OPER_AKILL_VIEW_FORMAT''
                        [kl_mask k, if kl_who k \<noteq> [] then kl_who k else ''<unknown>'', kl_reason k]
                 else NoticeLang (u_uid u) ''OPER_AKILL_LIST_FORMAT'' [kl_mask k, kl_reason k]))
           (filter (\<lambda>k. match_wild pat (kl_mask k) \<and> (noexpire \<longrightarrow> kl_expires k = 0)) (sort_key kl_id (os_akills st))) st)"

definition do_akill :: "cscfg \<Rightarrow> oscfg \<Rightarrow> int \<Rightarrow> user \<Rightarrow> cstr \<Rightarrow> os_state \<Rightarrow> os_state option" where
  "do_akill ccfg cfg now u text st =
     do {
       (rank, st) \<leftarrow> svs_operadmin ccfg now u st;
       let (cmd, r) = strtok text '' '';
       let cmd = strlower (case cmd of None \<Rightarrow> [] | Some c \<Rightarrow> c);
       if cmd = ''add'' then do_akill_add cfg now u rank r st
       else if cmd = ''del'' then do_akill_del ccfg now u r st
       else if cmd = ''list'' then Some (do_akill_list False cfg now u r st)
       else if cmd = ''view'' then Some (do_akill_list True cfg now u r st)
       else if cmd = ''count'' then Some (os_say (NoticeLang (u_uid u) ''OPER_AKILL_COUNT'' [showd (num_akills st)]) st)
       else Some (os_say (NoticeLang (u_uid u) ''OPER_AKILL_SYNTAX'' []) st)
     }"

section \<open>Counting the users of a mask\<close>

lemma tolower_symbol: "\<not> isupper c \<Longrightarrow> \<not> islower c \<Longrightarrow> c \<in> set (strlower s) \<longleftrightarrow> c \<in> set s"
proof -
  assume c: "\<not> isupper c" "\<not> islower c"
  have "tolower d = c \<longleftrightarrow> d = c" for d
  proof
    assume "tolower d = c"
    then have o: "ord c = (if isupper d then ord d + 32 else ord d)" using ord_tolower [of d] by simp
    have "\<not> isupper d" using c(2) o by (auto simp: isupper_def islower_def)
    then show "d = c" using o of_char_eq_iff [of d c, where 'a = nat] by simp
  next
    assume "d = c"
    then have "ord (tolower d) = ord c" using ord_tolower [of d] c(1) by simp
    then show "tolower d = c" using of_char_eq_iff [of "tolower d" c, where 'a = nat] by blast
  qed
  then show ?thesis unfolding strlower_def set_map image_iff by metis
qed

lemma mask_chars [simp]: "CHR ''@'' \<in> set (strlower s) \<longleftrightarrow> CHR ''@'' \<in> set s"
  "CHR ''!'' \<in> set (strlower s) \<longleftrightarrow> CHR ''!'' \<in> set s"
  by (rule tolower_symbol; simp add: isupper_def islower_def)+

lemma match_usermask_userhost_total: "CHR ''!'' \<notin> set m \<Longrightarrow> \<exists>b. match_usermask m u = Some b"
  by (auto simp: match_usermask_def strchr_def Let_def split: prod.splits option.splits)

lemma fold_count:
  assumes "\<And>u. \<exists>b. f u = Some b"
  shows "fold (\<lambda>u r. case (r, f u) of (Some i, Some b) \<Rightarrow> Some (if b then i + 1 else i) | _ \<Rightarrow> None) us (Some (n :: nat)) =
    Some (n + length (filter (\<lambda>u. f u = Some True) us))"
proof (induction us arbitrary: n)
  case (Cons u us)
  obtain b where "f u = Some b" using assms by blast
  then show ?case using Cons.IH [of "if b then n + 1 else n"] by (cases b) simp_all
qed simp

text \<open>The users online that a mask covers.\<close>

definition covered :: "userlist \<Rightarrow> cstr \<Rightarrow> user list" where
  "covered ul m = filter (\<lambda>u. match_usermask m u = Some True) (all_users ul)"

lemma count_mask_matches_ok:
  assumes "users_ok ul" and "CHR ''!'' \<notin> set m"
  shows "count_mask_matches ul (None, k) m = Some (length (covered ul m))"
  unfolding count_mask_matches_def for_users_all [OF assms(1)]
  using fold_count [of "match_usermask m" "all_users ul" 0] match_usermask_userhost_total [OF assms(2)]
  by (simp add: covered_def)

section \<open>Ranks\<close>

definition oper_of :: "cscfg \<Rightarrow> sqldb \<Rightarrow> user \<Rightarrow> bool" where
  "oper_of cfg db u \<longleftrightarrow>
     admin_of cfg db u \<or>
     (has (u_mode u) UMODE_o \<and> identified db u \<and> (u_nick_id u \<in> set (t_oper db) \<or> u_real_id u \<in> set (t_oper db)))"

definition rank_of :: "cscfg \<Rightarrow> sqldb \<Rightarrow> user \<Rightarrow> nat" where
  "rank_of cfg db u = (if admin_of cfg db u then 2 else if oper_of cfg db u then 1 else 0)"

lemma os_sel [simp, akill_simps]:
  "os_akills (os_say m st) = os_akills st" "os_sessions (os_say m st) = os_sessions st"
  "os_exceptions (os_say m st) = os_exceptions st" "os_akill_next (os_say m st) = os_akill_next st"
  "os_ns (os_say m st) = say m (os_ns st)" "os_akills (os_put ns st) = os_akills st"
  "os_sessions (os_put ns st) = os_sessions st" "os_exceptions (os_put ns st) = os_exceptions st"
  "os_akill_next (os_put ns st) = os_akill_next st" "os_ns (os_put ns st) = ns"
  by (simp_all add: os_say_def os_put_def os_ns_def tell_def)

lemma svs_operadmin_ok:
  assumes "ns_ok (os_ns st)" and "known (ns_db (os_ns st)) u"
  shows "\<exists>ns. svs_operadmin cfg now u st = Some (rank_of cfg (ns_db (os_ns st)) u, os_put ns st) \<and> quiet [] (os_ns st) ns"
proof -
  define db where "db = ns_db (os_ns st)"
  obtain ns where ns: "is_services_admin cfg now u (os_ns st) = Some (admin_of cfg db u, ns)" "quiet [] (os_ns st) ns"
    using yieldsD [OF is_services_admin_yields [OF quiet_refl [OF assms(1)] assms(2)],
        of "\<lambda>b s. b = admin_of cfg db u \<and> quiet [] (os_ns st) s" cfg now] by (auto simp: db_def)
  obtain ns' where ns': "is_services_oper cfg now u ns = Some (oper_of cfg db u, ns')" "quiet [] (os_ns st) ns'"
    using yieldsD [OF is_services_oper_yields [OF ns(2) assms(2)],
        of "\<lambda>b s. b = oper_of cfg db u \<and> quiet [] (os_ns st) s" cfg now] by (auto simp: db_def oper_of_def)
  show ?thesis
    using ns ns' by (cases "admin_of cfg db u") (auto simp: svs_operadmin_def rank_of_def simp flip: db_def)
qed

section \<open>The table and its rules\<close>

text \<open>
  The operations change the table of masks and what \<open>quiet\<close> allows; the ids of the rows are
  distinct and below the next one to be given.
\<close>

definition same_os :: "os_state \<Rightarrow> os_state \<Rightarrow> bool" where
  "same_os st st' \<longleftrightarrow>
     (\<exists>ms. quiet ms (os_ns st) (os_ns st')) \<and> os_sessions st' = os_sessions st \<and> os_exceptions st' = os_exceptions st \<and>
     os_exception_next st' = os_exception_next st \<and> cs_chans (os_cs st') = cs_chans (os_cs st)"

definition akills_ok :: "os_state \<Rightarrow> bool" where
  "akills_ok st \<longleftrightarrow> distinct (map kl_id (os_akills st)) \<and> (\<forall>r\<in>set (os_akills st). kl_id r < os_akill_next st)"

lemma same_os_refl [simp]: "ns_ok (os_ns st) \<Longrightarrow> same_os st st"
  by (auto simp: same_os_def intro: quiet_refl)

lemma same_os_say: "same_os s0 st \<Longrightarrow> same_os s0 (os_say m st)"
  by (auto simp: same_os_def os_say_def tell_def os_ns_def dest: quiet_say [of _ _ _ m])

lemma same_os_put: "same_os s0 st \<Longrightarrow> quiet ms (os_ns st) ns \<Longrightarrow> same_os s0 (os_put ns st)"
  unfolding same_os_def by (auto simp: os_put_def os_ns_def dest: quiet_trans)

lemma same_os_akills: "same_os s0 st \<Longrightarrow> same_os s0 (st\<lparr>os_akills := ks, os_akill_next := n\<rparr>)"
  "same_os s0 st \<Longrightarrow> same_os s0 (st\<lparr>os_akills := ks\<rparr>)"
  by (auto simp: same_os_def os_ns_def)

lemma same_os_facts:
  assumes "same_os s0 st"
  shows "ns_users (os_ns st) = ns_users (os_ns s0)" "t_nick (ns_db (os_ns st)) = t_nick (ns_db (os_ns s0))"
    "ns_ok (os_ns st)" "known (ns_db (os_ns st)) u = known (ns_db (os_ns s0)) u"
    "rank_of cfg (ns_db (os_ns st)) u = rank_of cfg (ns_db (os_ns s0)) u"
    "oper_of cfg (ns_db (os_ns st)) u = oper_of cfg (ns_db (os_ns s0)) u"
    "identified (ns_db (os_ns st)) u = identified (ns_db (os_ns s0)) u"
    "mysql_findnick (ns_db (os_ns st)) = mysql_findnick (ns_db (os_ns s0))"
    "mysql_getlink (ns_db (os_ns st)) = mysql_getlink (ns_db (os_ns s0))"
proof -
  obtain ms where q: "quiet ms (os_ns s0) (os_ns st)" using assms by (auto simp: same_os_def)
  note f = quiet_facts [OF q]
  show "ns_users (os_ns st) = ns_users (os_ns s0)" "t_nick (ns_db (os_ns st)) = t_nick (ns_db (os_ns s0))"
    "ns_ok (os_ns st)" using f quiet_ok [OF q] by simp_all
  show "known (ns_db (os_ns st)) u = known (ns_db (os_ns s0)) u" using f by (simp add: known_def)
  show "identified (ns_db (os_ns st)) u = identified (ns_db (os_ns s0)) u" using f by (simp add: identified_def stat_def)
  then show o: "oper_of cfg (ns_db (os_ns st)) u = oper_of cfg (ns_db (os_ns s0)) u"
    using f by (simp add: oper_of_def admin_of_def)
  show "rank_of cfg (ns_db (os_ns st)) u = rank_of cfg (ns_db (os_ns s0)) u"
    using f o \<open>identified (ns_db (os_ns st)) u = identified (ns_db (os_ns s0)) u\<close>
    by (simp add: rank_of_def admin_of_def)
  show "mysql_findnick (ns_db (os_ns st)) = mysql_findnick (ns_db (os_ns s0))"
    "mysql_getlink (ns_db (os_ns st)) = mysql_getlink (ns_db (os_ns s0))"
    using f by (simp_all add: mysql_findnick_def mysql_getlink_def fun_eq_iff)
qed

lemma same_os_send: "same_os s0 st \<Longrightarrow> same_os s0 (send_akill m r st)"
  "os_akills (send_akill m r st) = os_akills st" "os_akill_next (send_akill m r st) = os_akill_next st"
  by (auto simp: send_akill_def same_os_say split: option.split)

lemma announce_fold:
  "same_os s0 st \<Longrightarrow> same_os s0 (fold announce_expired ks st) \<and> os_akills (fold announce_expired ks st) = os_akills st \<and>
    os_akill_next (fold announce_expired ks st) = os_akill_next st"
  by (induction ks arbitrary: st) (auto simp: announce_expired_def Let_def same_os_say split: option.split)

lemma expire_akills_ok:
  assumes "same_os s0 st"
  shows "same_os s0 (expire_akills cfg now st)" "os_akill_next (expire_akills cfg now st) = os_akill_next st"
    "os_akills (expire_akills cfg now st) =
      (if os_noexpire cfg then os_akills st else filter (\<lambda>r. \<not> akill_expired now r) (os_akills st))"
  using assms announce_fold [OF assms, of "filter (akill_expired now) (os_akills st)"]
  by (auto simp: expire_akills_def sql_delete_def Let_def intro: same_os_akills)

text \<open>
  Who may add and delete what.  The test of the longest expiry lets the expiry 0 pass, which stands for
  never: an operator without rank may add permanent entries.
\<close>

definition lawful_akill :: "cscfg \<Rightarrow> oscfg \<Rightarrow> int \<Rightarrow> user \<Rightarrow> ns_state \<Rightarrow> akill_row \<Rightarrow> bool" where
  "lawful_akill ccfg cfg now u ns r \<longleftrightarrow>
     identified (ns_db ns) u \<and> kl_who r = take (NICKMAX - 1) (u_nick u) \<and> kl_time r = now \<and>
     (\<exists>m. kl_mask r = take 255 (strlower m) \<and> CHR ''@'' \<in> set m \<and> CHR ''!'' \<notin> set m \<and>
        (rank_of ccfg (ns_db ns) u = 0 \<longrightarrow>
           (kl_expires r = 0 \<or> now < kl_expires r \<and> kl_expires r \<le> now + 43200) \<and> length (covered (ns_users ns) (strlower m)) \<le> 20) \<and>
        (rank_of ccfg (ns_db ns) u < 2 \<and> AkillWildThresh cfg \<noteq> 0 \<longrightarrow> AkillWildThresh cfg \<le> int (nonwild m)))"

definition may_delete :: "cscfg \<Rightarrow> user \<Rightarrow> sqldb \<Rightarrow> akill_row \<Rightarrow> bool" where
  "may_delete ccfg u db r \<longleftrightarrow>
     identified db u \<and>
     (oper_of ccfg db u \<or>
      (mysql_findnick db (kl_who r) \<noteq> 0 \<and>
       mysql_getlink db (mysql_findnick db (kl_who r)) = mysql_getlink db (u_nick_id u)))"

definition lawful_change :: "cscfg \<Rightarrow> oscfg \<Rightarrow> int \<Rightarrow> user \<Rightarrow> os_state \<Rightarrow> os_state \<Rightarrow> bool" where
  "lawful_change ccfg cfg now u st st' \<longleftrightarrow>
     same_os st st' \<and> akills_ok st' \<and>
     (\<forall>r. r \<in> set (os_akills st') \<and> r \<notin> set (os_akills st) \<longrightarrow> lawful_akill ccfg cfg now u (os_ns st) r) \<and>
     (\<forall>r. r \<in> set (os_akills st) \<and> r \<notin> set (os_akills st') \<longrightarrow>
        akill_expired now r \<or> may_delete ccfg u (ns_db (os_ns st)) r)"

lemma lawful_same:
  "same_os s0 st \<Longrightarrow> akills_ok s0 \<Longrightarrow> os_akills st = os_akills s0 \<Longrightarrow> os_akill_next st = os_akill_next s0 \<Longrightarrow>
   lawful_change ccfg cfg now u s0 st"
  by (simp add: lawful_change_def akills_ok_def)

lemma strlower_idem [simp]: "strlower (strlower s) = strlower s"
  by (simp add: strlower_def)

lemma add_akill_ok:
  assumes same: "same_os s0 st" "os_akills st = os_akills s0" "os_akill_next st = os_akill_next s0" and ok: "akills_ok s0"
    and law: "\<And>i reason'. lawful_akill ccfg cfg now u (os_ns s0) \<lparr>kl_id = i, kl_mask = take 255 (strlower m),
      kl_reason = reason', kl_who = take (NICKMAX - 1) (u_nick u), kl_time = now, kl_expires = expires\<rparr>"
  shows "lawful_change ccfg cfg now u s0 (snd (add_akill cfg now m reason (u_nick u) expires st))"
proof -
  define ins where "ins = mysql_insert_akill (strlower m) reason (take (NICKMAX - 1) (u_nick u)) now expires st"
  have "lawful_change ccfg cfg now u s0 (snd ins)"
  proof (cases "\<exists>r\<in>set (os_akills st). sql_eq (kl_mask r) (take 255 (strlower m))")
    case True
    then have "snd ins = st" by (simp add: ins_def mysql_insert_akill_def)
    then show ?thesis using lawful_same [OF same(1) ok same(2,3)] by simp
  next
    case False
    define r where "r = \<lparr>kl_id = os_akill_next st, kl_mask = take 255 (strlower m), kl_reason = take 255 reason,
        kl_who = take (NICKMAX - 1) (u_nick u), kl_time = now, kl_expires = expires\<rparr>"
    have s: "snd ins = st\<lparr>os_akills := os_akills st @ [r], os_akill_next := Suc (os_akill_next st)\<rparr>"
      using False by (simp add: ins_def mysql_insert_akill_def r_def)
    have "lawful_akill ccfg cfg now u (os_ns s0) r" unfolding r_def by (rule law)
    moreover have "akills_ok (snd ins)"
      using ok same(2,3) unfolding s akills_ok_def by (auto simp: r_def less_Suc_eq)
    moreover have "same_os s0 (snd ins)" unfolding s by (rule same_os_akills [OF same(1)])
    ultimately show ?thesis unfolding lawful_change_def using same(2) by (auto simp: s)
  qed
  moreover have "lawful_change ccfg cfg now u s0 (send_akill (strlower m) reason st')"
    if "lawful_change ccfg cfg now u s0 st'" for st'
    using that same_os_send by (simp add: lawful_change_def akills_ok_def)
  ultimately show ?thesis
    using lawful_same [OF same(1) ok same(2,3)]
    unfolding add_akill_def Let_def ins_def [symmetric] case_prod_unfold by simp
qed

lemma lawful_say: "lawful_change ccfg cfg now u s0 st \<Longrightarrow> lawful_change ccfg cfg now u s0 (os_say m st)"
  by (simp add: lawful_change_def akills_ok_def same_os_say)

lemma akill_add_ok:
  assumes same: "same_os s0 st" "os_akills st = os_akills s0" "os_akill_next st = os_akill_next s0" and ok: "akills_ok s0"
    and users: "users_ok (ns_users (os_ns s0))" and idd: "identified (ns_db (os_ns s0)) u"
    and rank: "rank = rank_of ccfg (ns_db (os_ns s0)) u" and force: "force \<longrightarrow> rank = 2"
    and later: "expires = 0 \<or> now < expires"
  shows "\<exists>st'. akill_add cfg now u rank force expires m reason st = Some st' \<and> lawful_change ccfg cfg now u s0 st'"
proof -
  have keep: "lawful_change ccfg cfg now u s0 st" by (rule lawful_same [OF same(1) ok same(2,3)])
  note refuse = lawful_say [OF keep] lawful_say [OF lawful_say [OF keep]]
  have ul: "ns_users (os_ns st) = ns_users (os_ns s0)" by (rule same_os_facts(1) [OF same(1)])
  define n where "n = length (covered (ns_users (os_ns s0)) (strlower m))"
  show ?thesis
  proof (cases "CHR ''!'' \<in> set m \<or> CHR ''@'' \<notin> set m \<or>
      (\<not> force \<and> AkillWildThresh cfg \<noteq> 0 \<and> int (nonwild m) < AkillWildThresh cfg)")
    case True
    then show ?thesis using refuse by (auto simp: akill_add_def Let_def)
  next
    case False
    have cnt: "count_mask_matches (ns_users (os_ns st)) (None, 0) (strlower m) = Some n"
      using False count_mask_matches_ok [OF users, of "strlower m" 0] by (simp add: n_def ul)
    show ?thesis
    proof (cases "rank < 1 \<and> (n > 20 \<or> expires - now > 43200)")
      case True
      then show ?thesis using False refuse cnt by (auto simp: akill_add_def Let_def)
    next
      case ok2: False
      obtain a st1 where a: "add_akill cfg now (strlower m) reason (u_nick u) expires st = (a, st1)" by fastforce
      have "lawful_change ccfg cfg now u s0 st1"
      proof -
        have "rank_of ccfg (ns_db (os_ns s0)) u < 2 \<Longrightarrow> \<not> force" using rank force by auto
        then have "lawful_akill ccfg cfg now u (os_ns s0) \<lparr>kl_id = i, kl_mask = take 255 (strlower (strlower m)),
            kl_reason = r, kl_who = take (NICKMAX - 1) (u_nick u), kl_time = now, kl_expires = expires\<rparr>" for i r
          using idd False ok2 rank later unfolding lawful_akill_def
          by (intro conjI exI [of _ m]) (auto simp: n_def)
        from add_akill_ok [OF same ok this, where reason = reason] show ?thesis using a by simp
      qed
      note said = lawful_say [OF this] lawful_say [OF lawful_say [OF this]]
      have "akill_add cfg now u rank force expires m reason st =
         (if a = AKILL_PRESENT then Some (os_say (NoticeLang (u_uid u) ''OPER_AKILL_MASK_ALREADY_AKILLED'' [strlower m]) st1)
          else let st2 = os_say (NoticeLang (u_uid u) ''OPER_AKILL_ADDED'' [strlower m, showd n]) st1
               in Some (if WallOSAkill cfg
                        then os_say (Wallops ''added an AKILL'' [u_nick u, strlower m, showd n,
                               if expires = 0 then ''OPER_AKILL_NO_EXPIRE'' else show_int (expires - now + 59), reason]) st2
                        else st2))"
        using False ok2 cnt a unfolding akill_add_def Let_def by auto
      then show ?thesis using said by (auto simp: Let_def)
    qed
  qed
qed

lemma lawful_put:
  "lawful_change ccfg cfg now u s0 st \<Longrightarrow> quiet ms (os_ns st) ns \<Longrightarrow> lawful_change ccfg cfg now u s0 (os_put ns st)"
  by (auto simp: lawful_change_def akills_ok_def dest: same_os_put)

lemma identified_step:
  assumes "ns_ok (os_ns st)" and "known (ns_db (os_ns st)) u"
  shows "\<exists>ns. nick_identified now u (os_ns st) = Some (identified (ns_db (os_ns st)) u, ns) \<and> quiet [] (os_ns st) ns"
  using yieldsD [OF nick_identified_yields [OF quiet_refl [OF assms(1)] assms(2)],
      of "\<lambda>b s. b = identified (ns_db (os_ns st)) u \<and> quiet [] (os_ns st) s" now] by auto

lemma do_akill_add_ok:
  assumes ok: "ns_ok (os_ns st)" "known (ns_db (os_ns st)) u" "akills_ok st" "users_ok (ns_users (os_ns st))"
    and rank: "rank = rank_of ccfg (ns_db (os_ns st)) u"
  shows "\<exists>st'. do_akill_add cfg now u rank r st = Some st' \<and> lawful_change ccfg cfg now u st st'"
proof -
  obtain ns where ns: "nick_identified now u (os_ns st) = Some (identified (ns_db (os_ns st)) u, ns)" "quiet [] (os_ns st) ns"
    using identified_step [OF ok(1,2)] by blast
  define s1 where "s1 = os_put ns st"
  have same: "same_os st s1" "os_akills s1 = os_akills st" "os_akill_next s1 = os_akill_next st"
    using same_os_put [OF same_os_refl [OF ok(1)] ns(2)] by (simp_all add: s1_def)
  note refuse = lawful_say [OF lawful_same [OF same(1) ok(3) same(2,3)]]
  have two: "rank_of ccfg (ns_db (os_ns st)) u > 1 \<Longrightarrow> rank_of ccfg (ns_db (os_ns st)) u = 2"
    by (simp add: rank_of_def split: if_splits)
  note add = akill_add_ok [OF same ok(3,4) _ rank]
  show ?thesis
  proof (cases "identified (ns_db (os_ns st)) u")
    case False
    then show ?thesis using ns(1) refuse by (simp add: do_akill_add_def Let_def flip: s1_def)
  next
    case True
    have "\<exists>st'. akill_forced cfg now u rank e m r s1 = Some st' \<and> lawful_change ccfg cfg now u st st'" for e m r
      using refuse add [OF True] two rank unfolding akill_forced_def Let_def
      by (auto split: prod.split option.split if_splits)
    then show ?thesis
      using ns(1) True refuse
      unfolding do_akill_add_def Let_def
      by (auto simp flip: s1_def split: prod.split option.split)
  qed
qed

lemma delete_lawful:
  assumes keep: "lawful_change ccfg cfg now u s0 st" "os_akills st = os_akills s0" and ok: "akills_ok s0"
    and r: "r \<in> set (os_akills s0)" "may_delete ccfg u (ns_db (os_ns s0)) r"
  shows "lawful_change ccfg cfg now u s0 (mysql_delete_akill (kl_id r) st)"
proof -
  have "s = r" if "s \<in> set (os_akills s0)" "kl_id s = kl_id r" for s
    using ok r(1) that by (auto simp: akills_ok_def distinct_map dest: inj_onD)
  then show ?thesis
    using keep r same_os_akills(2) unfolding lawful_change_def akills_ok_def mysql_delete_akill_def
    by (auto simp: sql_delete_def distinct_map_filter)
qed

lemma del_akill_ok:
  assumes ok: "ns_ok (os_ns s0)" "known (ns_db (os_ns s0)) u" "akills_ok s0" "identified (ns_db (os_ns s0)) u"
    and same: "same_os s0 st" "os_akills st = os_akills s0" "os_akill_next st = os_akill_next s0"
  shows "\<exists>b st'. del_akill ccfg now u m st = Some (b, st') \<and> lawful_change ccfg cfg now u s0 st'"
proof -
  define db where "db = ns_db (os_ns s0)"
  note f = same_os_facts [OF same(1)]
  have keep: "lawful_change ccfg cfg now u s0 st" by (rule lawful_same [OF same(1) ok(3) same(2,3)])
  obtain ns where ns: "is_services_oper ccfg now u (os_ns st) = Some (oper_of ccfg db u, ns)" "quiet [] (os_ns st) ns"
    using yieldsD [OF is_services_oper_yields [OF quiet_refl [OF f(3)]], of u
        "\<lambda>b s. b = oper_of ccfg (ns_db (os_ns st)) u \<and> quiet [] (os_ns st) s" ccfg now] f ok(2)
    by (auto simp: db_def oper_of_def)
  define s1 where "s1 = os_put ns st"
  have keep1: "lawful_change ccfg cfg now u s0 s1" unfolding s1_def by (rule lawful_put [OF keep ns(2)])
  have fn: "mysql_findnick (ns_db ns) = mysql_findnick db" "mysql_getlink (ns_db ns) = mysql_getlink db"
    using quiet_facts(5) [OF ns(2)] f(2) by (simp_all add: mysql_findnick_def mysql_getlink_def fun_eq_iff db_def)
  show ?thesis
  proof (cases "filter (\<lambda>r. sql_eq (kl_mask r) m) (os_akills st)")
    case Nil
    then have "\<exists>x. del_akill ccfg now u m st = Some (False, os_say x st)" by (auto simp: del_akill_def)
    then show ?thesis using lawful_say [OF keep] by blast
  next
    case (Cons r rs)
    have "r \<in> set (filter (\<lambda>r. sql_eq (kl_mask r) m) (os_akills st))" unfolding Cons by simp
    then have r: "r \<in> set (os_akills s0)" using same(2) by simp
    have del: "lawful_change ccfg cfg now u s0 (mysql_delete_akill (kl_id r) s2)"
      if "lawful_change ccfg cfg now u s0 s2" "os_akills s2 = os_akills s0"
        "oper_of ccfg db u \<or> \<not> (mysql_findnick db (kl_who r) = 0 \<or>
           mysql_getlink db (mysql_findnick db (kl_who r)) \<noteq> mysql_getlink db (u_nick_id u))" for s2
      by (rule delete_lawful [OF that(1,2) ok(3) r]) (use that(3) ok(4) in \<open>auto simp: may_delete_def db_def\<close>)
    have "os_akills s1 = os_akills s0" by (simp add: s1_def same(2))
    then show ?thesis
      using ns(1) lawful_say [OF keep1] del lawful_say [OF lawful_say [OF keep1]]
      unfolding del_akill_def Cons Let_def fn list.case s1_def [symmetric]
      by (auto simp: fn simp flip: s1_def)
  qed
qed

lemma do_akill_del_ok:
  assumes ok: "ns_ok (os_ns st)" "known (ns_db (os_ns st)) u" "akills_ok st"
  shows "\<exists>st'. do_akill_del ccfg now u r st = Some st' \<and> lawful_change ccfg cfg now u st st'"
proof -
  obtain ns where ns: "nick_identified now u (os_ns st) = Some (identified (ns_db (os_ns st)) u, ns)" "quiet [] (os_ns st) ns"
    using identified_step [OF ok(1,2)] by blast
  define s1 where "s1 = os_put ns st"
  have same: "same_os st s1" "os_akills s1 = os_akills st" "os_akill_next s1 = os_akill_next st"
    using same_os_put [OF same_os_refl [OF ok(1)] ns(2)] by (simp_all add: s1_def)
  note refuse = lawful_say [OF lawful_same [OF same(1) ok(3) same(2,3)]]
  show ?thesis
  proof (cases "identified (ns_db (os_ns st)) u")
    case False
    then show ?thesis using ns(1) refuse by (simp add: do_akill_del_def Let_def flip: s1_def)
  next
    case True
    have "\<exists>b s2. del_akill ccfg now u m s1 = Some (b, s2) \<and> lawful_change ccfg cfg now u st s2" for m
      by (rule del_akill_ok [OF ok True same])
    then obtain b s2 where d: "\<And>m. del_akill ccfg now u m s1 = Some (b m, s2 m)"
      "\<And>m. lawful_change ccfg cfg now u st (s2 m)" by metis
    note said = lawful_say [OF d(2)] lawful_say [OF lawful_say [OF d(2)]]
    show ?thesis
      using ns(1) True refuse d said
      unfolding do_akill_del_def Let_def
      by (auto simp flip: s1_def split: option.split)
  qed
qed

lemma fold_say_lawful:
  "lawful_change ccfg cfg now u s0 st \<Longrightarrow> lawful_change ccfg cfg now u s0 (fold (\<lambda>k. os_say (f k)) ks st)"
  by (induction ks arbitrary: st) (simp_all add: lawful_say)

lemma expire_lawful:
  assumes "ns_ok (os_ns st)" and "akills_ok st"
  shows "lawful_change ccfg cfg now u st (expire_akills cfg now st)"
  using expire_akills_ok [OF same_os_refl [OF assms(1)], of cfg now] assms(2)
  by (auto simp: lawful_change_def akills_ok_def distinct_map_filter split: if_splits)

lemma do_akill_list_ok:
  assumes "ns_ok (os_ns st)" and "akills_ok st"
  shows "lawful_change ccfg cfg now u st (do_akill_list full cfg now u r st)"
  unfolding do_akill_list_def Let_def case_prod_unfold
  by (intro fold_say_lawful lawful_say expire_lawful assms)

text \<open>Changes relative to the state in which the rank is known.\<close>

lemma lawful_from:
  assumes "same_os s0 s1" "os_akills s1 = os_akills s0" and "lawful_change ccfg cfg now u s1 st"
  shows "lawful_change ccfg cfg now u s0 st"
proof -
  note f = same_os_facts [OF assms(1)]
  obtain ms where q: "quiet ms (os_ns s0) (os_ns s1)" using assms(1) by (auto simp: same_os_def)
  obtain ms' where q': "quiet ms' (os_ns s1) (os_ns st)" using assms(3) by (auto simp: lawful_change_def same_os_def)
  have "same_os s0 st"
    using assms(1,3) quiet_trans [OF q q'] by (auto simp: lawful_change_def same_os_def)
  then show ?thesis
    using assms(2,3) unfolding lawful_change_def lawful_akill_def may_delete_def f by simp
qed

lemma do_akill_ok:
  assumes ok: "ns_ok (os_ns st)" "known (ns_db (os_ns st)) u" "akills_ok st" "users_ok (ns_users (os_ns st))"
  shows "\<exists>st'. do_akill ccfg cfg now u text st = Some st' \<and> lawful_change ccfg cfg now u st st'"
proof -
  obtain ns where ns: "svs_operadmin ccfg now u st = Some (rank_of ccfg (ns_db (os_ns st)) u, os_put ns st)"
    "quiet [] (os_ns st) ns" using svs_operadmin_ok [OF ok(1,2)] by blast
  define s1 where "s1 = os_put ns st"
  have same: "same_os st s1" "os_akills s1 = os_akills st" "os_akill_next s1 = os_akill_next st"
    using same_os_put [OF same_os_refl [OF ok(1)] ns(2)] by (simp_all add: s1_def)
  note f = same_os_facts [OF same(1)]
  have ok1: "ns_ok (os_ns s1)" "known (ns_db (os_ns s1)) u" "akills_ok s1" "users_ok (ns_users (os_ns s1))"
    "rank_of ccfg (ns_db (os_ns st)) u = rank_of ccfg (ns_db (os_ns s1)) u"
    using f ok same by (simp_all add: akills_ok_def)
  obtain a where a: "\<And>r. do_akill_add cfg now u (rank_of ccfg (ns_db (os_ns st)) u) r s1 = Some (a r)"
    "\<And>r. lawful_change ccfg cfg now u s1 (a r)"
    using do_akill_add_ok [OF ok1, of cfg now] by metis
  obtain d where d: "\<And>r. do_akill_del ccfg now u r s1 = Some (d r)" "\<And>r. lawful_change ccfg cfg now u s1 (d r)"
    using do_akill_del_ok [OF ok1(1-3), of ccfg now _ cfg] by metis
  have l: "lawful_change ccfg cfg now u s1 (do_akill_list b cfg now u r s1)" for b r
    by (rule do_akill_list_ok [OF ok1(1,3)])
  have n: "lawful_change ccfg cfg now u s1 (os_say x s1)" for x
    by (rule lawful_say [OF lawful_same [OF same_os_refl [OF ok1(1)] ok1(3)]]) simp_all
  note from_st = lawful_from [OF same(1,2)]
  show ?thesis
    unfolding do_akill_def Let_def ns(1) s1_def [symmetric] case_prod_unfold Option.bind.bind_lunit prod.sel a d
    by (auto simp: a d simp flip: s1_def intro!: from_st a(2) d(2) l n split: option.split)
qed

section \<open>The check of a user who connects\<close>

lemma last_sorted_max:
  assumes "rev (sort_key f xs) = x # ys"
  shows "x \<in> set xs" and "y \<in> set xs \<Longrightarrow> f y \<le> f x"
proof -
  have s: "sort_key f xs = rev ys @ [x]" using assms by (metis rev.simps(2) rev_rev_ident)
  have "set (sort_key f xs) = set xs" by simp
  then show "x \<in> set xs" unfolding s by auto
  assume "y \<in> set xs"
  then have "y \<in> set (rev ys @ [x])" using s by (metis set_sort)
  moreover have "sorted (map f (rev ys @ [x]))" using sorted_sort_key [of f xs] s by simp
  ultimately show "f y \<le> f x" by (auto simp: sorted_append)
qed

lemma send_akill_out: "\<exists>m. ns_out (os_ns (send_akill a b st)) = ns_out (os_ns st) @ [m]"
  by (auto simp: send_akill_def say_def split: option.split)

definition banned :: "os_state \<Rightarrow> cstr \<Rightarrow> cstr \<Rightarrow> akill_row \<Rightarrow> bool" where
  "banned st username host r \<longleftrightarrow> r \<in> set (os_akills st) \<and> irc_match (kl_mask r) (akill_target username host) None"

text \<open>
  C19: a user who connects is killed exactly if an automatic kill matches; the newest one that
  does is used, the kill is sent and then a server ban, and the tables stay the same.
\<close>

theorem check_akill_correct:
  "case check_akill cfg nick username host st of (hit, st') \<Rightarrow>
     (hit \<longleftrightarrow> (\<exists>r. banned st username host r)) \<and> os_akills st' = os_akills st \<and>
     (if hit then \<exists>r t m. banned st username host r \<and> \<not> (\<exists>s. banned st username host s \<and> kl_id s > kl_id r) \<and>
        ns_out (os_ns st') = ns_out (os_ns st) @ [KillMsg nick (s_OperServ cfg @ '' (['' @ showd (kl_id r) @ ''] '' @ t), m]
      else st' = st)"
proof (cases "rev (sort_key kl_id (filter (\<lambda>r. irc_match (kl_mask r) (akill_target username host) None) (os_akills st)))")
  case Nil
  then have "filter (\<lambda>r. irc_match (kl_mask r) (akill_target username host) None) (os_akills st) = []"
    by (metis rev_is_Nil_conv set_empty set_sort)
  then show ?thesis using Nil by (auto simp: check_akill_def banned_def filter_empty_conv)
next
  case (Cons r rs)
  note m = last_sorted_max [OF Cons]
  have "banned st username host r" using m(1) by (simp add: banned_def)
  have "kl_id s \<le> kl_id r" if "banned st username host s" for s using m(2) that by (simp add: banned_def)
  define t where "t = (case StaticAkillReason cfg of Some t \<Rightarrow> t | None \<Rightarrow> kl_reason r) @ '')''"
  define s1 where "s1 = os_say (KillMsg nick (s_OperServ cfg @ '' (['' @ showd (kl_id r) @ ''] '' @ t)) st"
  have c: "check_akill cfg nick username host st = (True, send_akill (kl_mask r) (kl_reason r) s1)"
    using Cons by (simp add: check_akill_def s1_def t_def)
  obtain m' where "ns_out (os_ns (send_akill (kl_mask r) (kl_reason r) s1)) = ns_out (os_ns s1) @ [m']"
    using send_akill_out by blast
  then have "ns_out (os_ns (send_akill (kl_mask r) (kl_reason r) s1)) =
      ns_out (os_ns st) @ [KillMsg nick (s_OperServ cfg @ '' (['' @ showd (kl_id r) @ ''] '' @ t), m']"
    by (simp add: s1_def say_def)
  moreover have "os_akills (send_akill (kl_mask r) (kl_reason r) s1) = os_akills st"
    by (simp add: same_os_send(2) s1_def)
  ultimately show ?thesis
    unfolding c prod.case if_True using \<open>banned st username host r\<close> \<open>\<And>s. banned st username host s \<Longrightarrow> kl_id s \<le> kl_id r\<close>
    by (metis linorder_not_less)
qed

section \<open>The command\<close>

definition sample_oscfg :: oscfg where
  "sample_oscfg =
     \<lparr>s_OperServ = ''OperServ'', StaticAkillReason = None, ImmediatelySendAkill = True, AutokillExpiry = 3600,
      AkillWildThresh = 4, WallOSAkill = False, WallOSException = False, WallAkillExpire = False,
      WallExceptionExpire = False, LimitSessions = True, DefSessionLimit = 2, ExceptionExpiry = 0,
      MaxSessionLimit = 100, SessionAkillExpiry = 600, SessionKillClues = 3, SessionLimitExceeded = None,
      SessionLimitDetailsLoc = None, os_noexpire = False\<rparr>"

definition sample_os :: os_state where
  "sample_os =
     \<lparr>os_cs = \<lparr>cs_ns = sample_chan NS_IDENTIFIED 0, cs_chans = (\<lambda>_. []), cs_lastmodes = []\<rparr>,
      os_akills = [\<lparr>kl_id = 4, kl_mask = ''*@*.bad.example'', kl_reason = ''spam'', kl_who = ''bob'', kl_time = 1,
         kl_expires = 0\<rparr>],
      os_akill_next = 5, os_sessions = [\<lparr>se_host = ''h.example'', se_count = 2, se_killcount = 0\<rparr>],
      os_exceptions = [], os_exception_next = 1\<rparr>"

lemma sample_os_ok:
  "ns_ok (os_ns sample_os)" "known (ns_db (os_ns sample_os)) alice" "akills_ok sample_os"
  using sample_chan_ok alice_stat(2) by (simp_all add: sample_os_def os_ns_def akills_ok_def)

lemma sample_os_users: "users_ok (ns_users (os_ns sample_os))"
proof -
  obtain c where "set_nick_status NS_IDENTIFIED 10 1 sample_ns = Some (db_status (SetStatus NS_IDENTIFIED) 1 sample_ns\<lparr>ns_cache := c\<rparr>)"
    using status_ok(1) [OF sample_ns_ok, of 1 NS_IDENTIFIED 10] by auto
  then have "ns_users (os_ns sample_os) = ns_users sample_ns"
    by (simp add: sample_os_def os_ns_def sample_chan_def db_status_def)
  then show ?thesis by (simp add: sample_ns_def users_ok_def user_link_def alice_def sample_user_def)
qed

text \<open>
  C15: whatever an operator types behind AKILL, the command returns, and every entry it adds names
  the operator, who is identified, as its setter, has a mask of a user and a host, and, for an
  operator without rank, ends within twelve hours or never, and covers at most twenty users online (the
  minimum of literal characters is waived for services administrators only); every entry it
  removes has expired, or the operator is a services operator or the one who set it.  Nothing else in the
  tables changes.  That such an operator may add an entry that never ends is a defect
  (\<open>akill_permanent\<close> below): README and the comment of the code allow twelve hours.
\<close>

theorem do_akill_lawful:
  assumes "ns_ok (os_ns st)" and "known (ns_db (os_ns st)) u" and "akills_ok st" and "users_ok (ns_users (os_ns st))"
  shows "\<exists>st'. do_akill ccfg cfg now u text st = Some st' \<and> akills_ok st' \<and> same_os st st' \<and>
    (\<forall>r. r \<in> set (os_akills st') \<and> r \<notin> set (os_akills st) \<longrightarrow> lawful_akill ccfg cfg now u (os_ns st) r) \<and>
    (\<forall>r. r \<in> set (os_akills st) \<and> r \<notin> set (os_akills st') \<longrightarrow>
       akill_expired now r \<or> may_delete ccfg u (ns_db (os_ns st)) r)"
  using do_akill_ok [OF assms, of ccfg cfg now "text"] by (auto simp: lawful_change_def)

theorem do_akill_lawful_witness:
  "\<exists>st'. do_akill sample_cs sample_oscfg 50 alice ''ADD +1h *@*.worse.example flood'' sample_os = Some st' \<and> akills_ok st'"
  using do_akill_lawful [OF sample_os_ok sample_os_users] by blast

text \<open>
  Expiry removes exactly the automatic kills with a time of expiry that has passed.
\<close>

theorem expire_akills_correct:
  "os_akills (expire_akills cfg now st) =
     (if os_noexpire cfg then os_akills st else filter (\<lambda>r. kl_expires r = 0 \<or> now \<le> kl_expires r) (os_akills st))"
proof -
  have "os_akills (fold announce_expired ks st') = os_akills st'" for ks st'
    by (induction ks arbitrary: st') (simp_all add: announce_expired_def Let_def split: option.split)
  moreover have "(\<lambda>r. \<not> akill_expired now r) = (\<lambda>r. kl_expires r = 0 \<or> now \<le> kl_expires r)"
    by (auto simp: akill_expired_def)
  ultimately show ?thesis by (simp add: expire_akills_def sql_delete_def Let_def)
qed

section \<open>Defects\<close>

text \<open>
  The time \<open>+0\<close> stands for an entry that never expires, and passes the limit of twelve hours.
\<close>

lemma dotime_zero: "dotime ''+0'' = 0"
  by (subst dotime.simps) (simp add: strtol_def isspace_def isdigit_def dval_def digit_val_def long_clamp_def)

lemma akill_permanent:
  assumes users: "users_ok (ns_users (os_ns st))" and m: "strlower m \<noteq> ''force''" "CHR ''!'' \<notin> set m" "CHR ''@'' \<in> set m"
    and reason: "fst (strtok r []) = Some reason" and lit: "AkillWildThresh cfg \<le> int (nonwild m)"
    and few: "length (covered (ns_users (os_ns st)) (strlower m)) \<le> 20"
    and new: "\<forall>k\<in>set (os_akills st). \<not> sql_eq (kl_mask k) (take 255 (strlower m))" "num_akills st < 32767"
    and now: "0 \<le> now"
  shows "\<exists>st' k. akill_forced cfg now u 0 (Some ''+0'') (Some m) r st = Some st' \<and> k \<in> set (os_akills st') \<and>
    kl_mask k = take 255 (strlower m) \<and> kl_expires k = 0"
proof -
  have f: "akill_forced cfg now u 0 (Some ''+0'') (Some m) r st = akill_add cfg now u 0 False 0 m reason st"
    using m(1) reason by (simp add: akill_forced_def Let_def dotime_zero)
  have cnt: "count_mask_matches (ns_users (os_ns st)) (None, 0) (strlower m) = Some (length (covered (ns_users (os_ns st)) (strlower m)))"
    using count_mask_matches_ok [OF users, of "strlower m" 0] m(2) by simp
  obtain a st1 where a: "add_akill cfg now (strlower m) reason (u_nick u) 0 st = (a, st1)" by fastforce
  have "a \<noteq> AKILL_PRESENT" "\<exists>k\<in>set (os_akills st1). kl_mask k = take 255 (strlower m) \<and> kl_expires k = 0"
    using a new by (auto simp: add_akill_def mysql_insert_akill_def Let_def AKILL_PRESENT_def send_akill_def split: option.splits)
  moreover have "akill_add cfg now u 0 False 0 m reason st =
      (let st2 = os_say (NoticeLang (u_uid u) ''OPER_AKILL_ADDED'' [strlower m, showd (length (covered (ns_users (os_ns st)) (strlower m)))]) st1
       in Some (if WallOSAkill cfg
                then os_say (Wallops ''added an AKILL'' [u_nick u, strlower m, showd (length (covered (ns_users (os_ns st)) (strlower m))),
                       ''OPER_AKILL_NO_EXPIRE'', reason]) st2
                else st2))" if "a \<noteq> AKILL_PRESENT"
    using m lit few cnt a now that by (simp add: akill_add_def Let_def)
  ultimately show ?thesis unfolding f by (auto simp: Let_def)
qed

text \<open>An expired entry is taken back from the servers only if its expiry is announced.\<close>

lemma expire_silent: "\<not> WallAkillExpire cfg \<Longrightarrow> os_ns (expire_akills cfg now st) = os_ns st"
  by (simp add: expire_akills_def os_ns_def)

end
