(* ===== verification/Numquery.thy ===== *)
theory Numquery
  imports Numlist
begin

text \<open>
  \<open>mysql_build_query\<close> of src/src/mysql.c: a number list such as "1-5,7" becomes the condition of an
  SQL statement, with numbers above a maximum cut down to it.  The reference is the list of the
  ranges of the text; the theorems say that the text built is the disjunction of their clauses,
  which rows it selects, and that printed ranges select the numbers they show.
\<close>

section \<open>Building the text\<close>

text \<open>What a command takes for a list of numbers.\<close>

definition is_numlist :: "cstr \<Rightarrow> bool" where
  "is_numlist m \<longleftrightarrow> strspn m ''1234567890,-'' = length m"

definition query_item :: "cstr \<Rightarrow> nat \<times> nat \<times> cstr" where
  "query_item = range_item strtou"

lemma length_query_item: "query_item s = (n1, n2, r) \<Longrightarrow> s \<noteq> [] \<Longrightarrow> length r < length s"
  unfolding query_item_def by (rule length_range_item [of strtou]) (rule length_strtou)

text \<open>The chunks fit their buffer of 1024 bytes unless the name of the column is very long.\<close>

function query_loop :: "cstr \<Rightarrow> nat \<Rightarrow> bool \<Rightarrow> cstr \<Rightarrow> cstr \<Rightarrow> cstr" where
  "query_loop column maxn first query s =
     (if s = [] then query
      else
        (case query_item s of (n1, n2, r) \<Rightarrow>
          (let n1 = (if n1 > maxn then maxn else n1);
               n2 = (if n2 > maxn then maxn else n2);
               sep = (if first then [] else '' || '')
           in if n1 = n2
              then query_loop column maxn False
                     (query @ take 1023 (sep @ ''('' @ column @ '' = '' @ showd n1 @ '')'')) r
              else if n1 < n2
              then query_loop column maxn False
                     (query @ take 1023 (sep @ ''('' @ column @ '' BETWEEN '' @ showd n1 @ '' AND '' @ showd n2 @ '')'')) r
              else query_loop column maxn first query r)))"
  by pat_completeness auto
termination
  by (relation "measure (\<lambda>(column, maxn, first, query, s). length s)") (auto dest: length_query_item [OF sym])

declare query_loop.simps [simp del]

definition mysql_build_query :: "cstr \<Rightarrow> cstr \<Rightarrow> cstr \<Rightarrow> nat \<Rightarrow> cstr" where
  "mysql_build_query numstr base column maxn = query_loop column maxn True base numstr"

section \<open>What the text means\<close>

function query_ranges :: "cstr \<Rightarrow> (nat \<times> nat) list" where
  "query_ranges s =
     (if s = [] then [] else (case query_item s of (n1, n2, r) \<Rightarrow> (n1, n2) # query_ranges r))"
  by pat_completeness auto
termination by (relation "measure length") (auto dest: length_query_item [OF sym])

declare query_ranges.simps [simp del]

text \<open>The ranges that are not empty after the cut, their clauses, and the rows they select.\<close>

definition query_clauses :: "nat \<Rightarrow> cstr \<Rightarrow> (nat \<times> nat) list" where
  "query_clauses maxn s = filter (\<lambda>(a, b). a \<le> b) (map (\<lambda>(a, b). (min a maxn, min b maxn)) (query_ranges s))"

fun clause_text :: "cstr \<Rightarrow> nat \<times> nat \<Rightarrow> cstr" where
  "clause_text column (a, b) =
     (if a = b then ''('' @ column @ '' = '' @ showd a @ '')''
      else ''('' @ column @ '' BETWEEN '' @ showd a @ '' AND '' @ showd b @ '')'')"

fun disjunction :: "cstr list \<Rightarrow> cstr" where
  "disjunction [] = []"
| "disjunction [c] = c"
| "disjunction (c # d # cs) = c @ '' || '' @ disjunction (d # cs)"

definition selects :: "(nat \<times> nat) list \<Rightarrow> nat \<Rightarrow> bool" where
  "selects cs i \<longleftrightarrow> (\<exists>(a, b)\<in>set cs. a \<le> i \<and> i \<le> b)"

definition query_rest :: "cstr list \<Rightarrow> cstr" where
  "query_rest cs = concat (map (\<lambda>c. '' || '' @ c) cs)"

lemma disjunction_rest: "disjunction (c # cs) = c @ query_rest cs"
  by (induction cs arbitrary: c) (simp_all add: query_rest_def)

lemma length_showd: "n < 10 ^ k \<Longrightarrow> 0 < k \<Longrightarrow> length (showd n) \<le> k"
proof (induction n arbitrary: k rule: showd.induct)
  case (1 n)
  show ?case
  proof (cases "n < 10")
    case True
    then show ?thesis using "1.prems" by (subst showd.simps) simp
  next
    case False
    then obtain j where k: "k = Suc j" "0 < j" using "1.prems" by (cases k; cases "k - 1") auto
    have "n div 10 < 10 ^ j" using "1.prems" k by (simp add: less_mult_imp_div_less mult.commute)
    from "1.IH" [OF False this k(2)] show ?thesis using False k by (subst showd.simps) simp
  qed
qed

lemma showd_short: "n < 2 ^ 32 \<Longrightarrow> length (showd n) \<le> 10"
  by (rule length_showd) (simp_all add: order_less_le_trans [of n "2 ^ 32"])

lemma query_loop_clauses:
  assumes "length column \<le> 900" and "maxn < 2 ^ 32"
  shows "query_loop column maxn first query s =
    query @ (if first then disjunction (map (clause_text column) (query_clauses maxn s))
             else query_rest (map (clause_text column) (query_clauses maxn s)))"
  using assms
proof (induction column maxn first query s rule: query_loop.induct)
  case (1 column maxn first query s)
  show ?case
  proof (cases "s = []")
    case True
    then show ?thesis
      by (subst query_loop.simps) (simp add: query_clauses_def query_ranges.simps query_rest_def)
  next
    case False
    obtain n1 n2 r where it: "query_item s = (n1, n2, r)" by (metis prod_cases3)
    define a where "a = (if n1 > maxn then maxn else n1)"
    define b where "b = (if n2 > maxn then maxn else n2)"
    have m: "a = min n1 maxn" "b = min n2 maxn" by (simp_all add: a_def b_def min_def)
    have len: "length (showd a) \<le> 10" "length (showd b) \<le> 10"
    proof -
      have "a < 2 ^ 32" "b < 2 ^ 32" using "1.prems"(2) by (auto simp: m min_less_iff_disj)
      then show "length (showd a) \<le> 10" "length (showd b) \<le> 10" by (simp_all add: showd_short)
    qed
    define chunk where "chunk f = (if f then [] else '' || '') @ clause_text column (a, b)" for f
    have t: "take 1023 (chunk f) = chunk f" for f
      using len "1.prems"(1) by (simp add: chunk_def)
    have cl: "query_clauses maxn s = (if a \<le> b then (a, b) # query_clauses maxn r else query_clauses maxn r)"
      unfolding query_clauses_def using False it by (subst query_ranges.simps) (simp add: m)
    have step: "query_loop column maxn first query s =
        (if a \<le> b then query_loop column maxn False (query @ chunk first) r else query_loop column maxn first query r)"
      using False it t [of first] unfolding chunk_def
      by (subst query_loop.simps) (auto simp: Let_def simp flip: a_def b_def)
    note IH = "1.IH" [OF False it [symmetric] refl a_def b_def refl]
    show ?thesis
    proof (cases "a \<le> b")
      case True
      have "query_loop column maxn False (query @ chunk first) r =
          (query @ chunk first) @ query_rest (map (clause_text column) (query_clauses maxn r))"
        using IH(1,2) True t [of first] "1.prems" by (cases "a = b") (simp_all add: chunk_def)
      then show ?thesis
        using True by (simp add: step cl chunk_def disjunction_rest query_rest_def)
    next
      case ge: False
      then show ?thesis using IH(3) "1.prems" by (simp add: step cl)
    qed
  qed
qed

text \<open>
  The text built is the given beginning followed by one clause for every range that is left
  after both ends are cut down to the maximum, in order and separated by "or"; it is the beginning
  itself exactly if no range is left, which is how the callers find out.
\<close>

theorem mysql_build_query_text:
  assumes "length column \<le> 900" and "maxn < 2 ^ 32"
  shows "mysql_build_query numstr base column maxn =
      base @ disjunction (map (clause_text column) (query_clauses maxn numstr)) \<and>
    (length (mysql_build_query numstr base column maxn) = length base \<longleftrightarrow> query_clauses maxn numstr = [])"
proof -
  have "clause_text column c \<noteq> []" for c by (cases c) simp
  then show ?thesis
    unfolding mysql_build_query_def query_loop_clauses [OF assms]
    by (cases "query_clauses maxn numstr") (simp_all add: disjunction_rest)
qed

lemma query_item_show:
  assumes "a < 2 ^ 32" and "b < 2 ^ 32" and "r = [] \<or> r = CHR '','' # r'"
  shows "query_item (showd a @ ''-'' @ showd b @ r) = (a, b, tl r)"
  unfolding query_item_def by (rule range_item_show [OF strtou_showd assms])

lemma query_ranges_show:
  assumes "\<forall>(a, b)\<in>set rs. a < 2 ^ 32 \<and> b < 2 ^ 32"
  shows "query_ranges (show_ranges rs) = rs"
  using assms
proof (induction rs rule: show_ranges.induct)
  case 1
  show ?case by (simp add: query_ranges.simps)
next
  case (2 a b)
  then show ?case
    using query_item_show [of a b "[]"]
    by (subst query_ranges.simps) (simp add: query_ranges.simps [of "[]"])
next
  case (3 a b r rs)
  then show ?case
    using query_item_show [of a b "'','' @ show_ranges (r # rs)"]
    by (subst query_ranges.simps) simp
qed

theorem mysql_build_query_text_witness:
  "mysql_build_query (show_ranges [(2, 3), (7, 7)]) ''WHERE '' ''id'' 5 =
     ''WHERE '' @ disjunction [''(id BETWEEN 2 AND 3)'', ''(id = 5)'']"
proof -
  have "query_ranges (show_ranges [(2, 3), (7, 7)]) = [(2, 3), (7, 7)]" by (rule query_ranges_show) simp
  moreover have d: "showd 2 = ''2''" "showd 3 = ''3''" "showd 5 = ''5''" by code_simp+
  ultimately have "map (clause_text ''id'') (query_clauses 5 (show_ranges [(2, 3), (7, 7)])) =
      [''(id BETWEEN 2 AND 3)'', ''(id = 5)'']"
    using d by (simp add: query_clauses_def)
  then show ?thesis
    using mysql_build_query_text [of "''id''" 5 "show_ranges [(2, 3), (7, 7)]" "''WHERE ''"] by simp
qed

text \<open>
  The condition built from printed ranges that do not pass the maximum selects exactly the
  numbers in one of them.
\<close>

theorem query_selects_show:
  assumes "\<forall>(a, b)\<in>set rs. a \<le> b \<and> b \<le> maxn" and "maxn < 2 ^ 32"
  shows "selects (query_clauses maxn (show_ranges rs)) i \<longleftrightarrow> (\<exists>(a, b)\<in>set rs. a \<le> i \<and> i \<le> b)"
proof -
  have "query_ranges (show_ranges rs) = rs" using assms by (intro query_ranges_show) fastforce
  moreover have "(\<lambda>(a, b). (min a maxn, min b maxn)) r = r" if "r \<in> set rs" for r using assms(1) that by force
  then have "map (\<lambda>(a, b). (min a maxn, min b maxn)) rs = rs" by (simp add: map_idI)
  moreover have "filter (\<lambda>(a, b). a \<le> b) rs = rs" using assms(1) by (intro filter_True) auto
  ultimately show ?thesis by (simp add: query_clauses_def selects_def)
qed

theorem query_selects_show_witness: "selects (query_clauses 10 (show_ranges [(2, 4), (9, 9)])) 3"
  using query_selects_show [of "[(2, 4), (9, 9)]" 10 3] by simp

text \<open>A number above the maximum selects the row whose number is the maximum.\<close>

lemma query_selects_other: "maxn < n \<Longrightarrow> n < 2 ^ 32 \<Longrightarrow> selects (query_clauses maxn (show_ranges [(n, n)])) maxn"
  using query_ranges_show [of "[(n, n)]"] by (simp add: query_clauses_def selects_def)

end
