(* ===== verification/Sessions.thy ===== *)
theory Sessions
  imports Akill Numquery
begin

text \<open>
  Session limiting (src/src/sessions.c): how many users of a host may be connected, the exceptions
  to that limit, and the OperServ command that edits the exceptions.  Counts are columns of 16 bits:
  a larger value is stored as 65535.
\<close>

named_theorems session_simps \<open>the table of sessions\<close>

abbreviation smallint :: "nat \<Rightarrow> nat" where
  "smallint n \<equiv> min n 65535"

section \<open>Sessions\<close>

text \<open>
  The limits of a host: the rows of the exceptions that match, in the order of their table, or
  the default; the loop over the rows leaves the last one.
\<close>

definition session_limit :: "oscfg \<Rightarrow> exception_row list \<Rightarrow> cstr \<Rightarrow> nat" where
  "session_limit cfg exs host =
     (case rev (filter (\<lambda>x. irc_match (ex_mask x) host None) exs) of
        [] \<Rightarrow> DefSessionLimit cfg
      | x # _ \<Rightarrow> ex_limit x)"

definition upd_session :: "cstr \<Rightarrow> (session_row \<Rightarrow> session_row) \<Rightarrow> os_state \<Rightarrow> os_state" where
  "upd_session host f st = st\<lparr>os_sessions := sql_update (\<lambda>s. sql_eq (se_host s) host) f (os_sessions st)\<rparr>"

text \<open>What becomes of a user above the limit: notices, and a kill or, after several of them, an automatic kill.\<close>

definition exceed :: "oscfg \<Rightarrow> int \<Rightarrow> cstr \<Rightarrow> cstr \<Rightarrow> nat \<Rightarrow> os_state \<Rightarrow> (nat \<times> os_state) option" where
  "exceed cfg now nick host killcount st =
     (let st = (case SessionLimitExceeded cfg of None \<Rightarrow> st | Some t \<Rightarrow> os_say (NoticeText nick t) st);
          st = (case SessionLimitDetailsLoc cfg of None \<Rightarrow> st | Some t \<Rightarrow> os_say (NoticeText nick t) st);
          killcount = killcount + 1
      in if SessionKillClues cfg \<noteq> 0 \<and> killcount > SessionKillClues cfg
         then
           (let msk = take (BUFSIZE - 1) (''*@'' @ host);
                expiry = (if SessionAkillExpiry cfg \<noteq> 0 then SessionAkillExpiry cfg else AutokillExpiry cfg) + now
            in do {
              matches \<leftarrow> (if WallOSAkill cfg then count_mask_matches (ns_users (os_ns st)) (None, 0) msk else Some 0);
              let (r, st) = add_akill cfg now msk ''Session limit exceeded'' (s_OperServ cfg) expiry st;
              Some (0, if WallOSAkill cfg
                       then os_say (Wallops ''added an AKILL'' [s_OperServ cfg, msk, disect_time (expiry - now), showd matches]) st
                       else st)
            })
         else Some (killcount, os_say (KillMsg nick (s_OperServ cfg @ '' (Session limit exceeded)'')) st))"

text \<open>A host has at most one row; what it counts.\<close>

definition sessions_ok :: "os_state \<Rightarrow> bool" where
  "sessions_ok st \<longleftrightarrow> distinct (map (\<lambda>s. strlower (se_host s)) (os_sessions st))"

definition host_count :: "os_state \<Rightarrow> cstr \<Rightarrow> nat" where
  "host_count st host =
     (case sql_first (\<lambda>s. sql_eq (se_host s) host) (os_sessions st) of None \<Rightarrow> 0 | Some s \<Rightarrow> se_count s)"

text \<open>
  The host stands unescaped between quotes in the statements of \<open>add_session\<close>.  \<open>sql_literal\<close> is the
  text the database reads there; None, if a quote or a backslash ends the literal elsewhere: what is left of
  the statement is then not the one that is meant, and an error of the database ends the services.
\<close>

definition sql_escape :: "char \<Rightarrow> cstr" where
  "sql_escape c =
     (if c = CHR ''0'' then [nul] else if c = CHR ''b'' then [CHR 0x08] else if c = CHR ''n'' then [CHR 0x0A]
      else if c = CHR ''r'' then [CHR 0x0D] else if c = CHR ''t'' then [CHR 0x09] else if c = CHR ''Z'' then [CHR 0x1A]
      else if c = CHR ''%'' \<or> c = CHR ''_'' then [CHR 0x5C, c] else [c])"

fun sql_literal :: "cstr \<Rightarrow> cstr option" where
  "sql_literal [] = Some []"
| "sql_literal (c # cs) =
     (if c = CHR 0x27
      then (case cs of
              [] \<Rightarrow> None
            | d # ds \<Rightarrow> if d = CHR 0x27 then map_option (Cons d) (sql_literal ds) else None)
      else if c = CHR 0x5C
      then (case cs of [] \<Rightarrow> None | d # ds \<Rightarrow> map_option ((@) (sql_escape d)) (sql_literal ds))
      else map_option (Cons c) (sql_literal cs))"

definition plain_host :: "cstr \<Rightarrow> bool" where
  "plain_host h \<longleftrightarrow> CHR 0x27 \<notin> set h \<and> CHR 0x5C \<notin> set h \<and> length h \<le> 255"

lemma sql_literal_plain: "CHR 0x27 \<notin> set h \<Longrightarrow> CHR 0x5C \<notin> set h \<Longrightarrow> sql_literal h = Some h"
  by (induction h) auto

lemma plain_host_literal: "plain_host h \<Longrightarrow> sql_literal h = Some h" "plain_host h \<Longrightarrow> take 255 h = h"
  by (simp_all add: plain_host_def sql_literal_plain)

text \<open>
  \<open>add_session\<close>: the INSERT, which cuts the host at the 255 characters of its column, fails if the host
  has a row already.  The SELECT and the UPDATE ask for the whole host; if they find no row, the
  count, the limit and what is written stay zero, one and nothing.  The answer is whether the user may stay.
\<close>

definition add_session :: "oscfg \<Rightarrow> int \<Rightarrow> cstr \<Rightarrow> cstr \<Rightarrow> os_state \<Rightarrow> (bool \<times> os_state) option" where
  "add_session cfg now nick host st =
     (case sql_literal host of
        None \<Rightarrow> None
      | Some h \<Rightarrow>
          if \<forall>s\<in>set (os_sessions st). \<not> sql_eq (se_host s) (take 255 h)
          then Some (True, st\<lparr>os_sessions := os_sessions st @ [\<lparr>se_host = take 255 h, se_count = 1, se_killcount = 0\<rparr>]\<rparr>)
          else
            (case sql_first (\<lambda>s. sql_eq (se_host s) h) (os_sessions st) of
               None \<Rightarrow> Some (True, st)
             | Some s \<Rightarrow>
                 (let count = se_count s;
                      limit = session_limit cfg (os_exceptions st) (se_host s)
                  in if limit \<noteq> 0 \<and> count \<ge> limit
                     then do {
                       (killcount, st) \<leftarrow> exceed cfg now nick host (se_killcount s) st;
                       Some (False, upd_session h (\<lambda>s. s\<lparr>se_count := smallint count, se_killcount := smallint killcount\<rparr>) st)
                     }
                     else Some (True, upd_session h
                            (\<lambda>s. s\<lparr>se_count := smallint (count + 1), se_killcount := smallint (se_killcount s)\<rparr>) st))))"

lemma add_session_plain:
  assumes "plain_host host"
  shows "add_session cfg now nick host st =
     (case sql_first (\<lambda>s. sql_eq (se_host s) host) (os_sessions st) of
        None \<Rightarrow> Some (True, st\<lparr>os_sessions := os_sessions st @ [\<lparr>se_host = host, se_count = 1, se_killcount = 0\<rparr>]\<rparr>)
      | Some s \<Rightarrow>
          (let count = se_count s;
               limit = session_limit cfg (os_exceptions st) (se_host s)
           in if limit \<noteq> 0 \<and> count \<ge> limit
              then do {
                (killcount, st) \<leftarrow> exceed cfg now nick host (se_killcount s) st;
                Some (False, upd_session host (\<lambda>s. s\<lparr>se_count := smallint count, se_killcount := smallint killcount\<rparr>) st)
              }
              else Some (True, upd_session host
                     (\<lambda>s. s\<lparr>se_count := smallint (count + 1), se_killcount := smallint (se_killcount s)\<rparr>) st)))"
proof (cases "sql_first (\<lambda>s. sql_eq (se_host s) host) (os_sessions st)")
  case None
  then have "\<forall>s\<in>set (os_sessions st). \<not> sql_eq (se_host s) host" by (simp add: sql_first_None)
  then show ?thesis using None by (simp add: add_session_def plain_host_literal [OF assms])
next
  case (Some s)
  then have "\<not> (\<forall>s\<in>set (os_sessions st). \<not> sql_eq (se_host s) host)" by (auto dest: sql_first_Some)
  then show ?thesis unfolding add_session_def plain_host_literal [OF assms] option.case Some by (simp only: if_False)
qed

text \<open>
  A host with a quote ends the services; one of more than 255 characters is counted once, and limited
  never.
\<close>

lemma quoted_host_ends: "add_session cfg now nick (''o'' @ [CHR 0x27] @ ''brien.example'') st = None"
  by (simp add: add_session_def)

lemma long_host_unlimited:
  assumes "CHR 0x27 \<notin> set h" and "CHR 0x5C \<notin> set h" and "255 < length h"
    and "\<forall>s\<in>set (os_sessions st). length (se_host s) \<le> 255"
  shows "\<exists>st'. add_session cfg now nick h st = Some (True, st') \<and> host_count st' h = 0 \<and>
    (\<forall>s\<in>set (os_sessions st'). length (se_host s) \<le> 255)"
proof -
  have len: "sql_eq a b \<Longrightarrow> length a = length b" for a b
    using map_eq_imp_length_eq [of tolower a tolower b] by (simp add: sql_eq_def strlower_def)
  have none: "sql_first (\<lambda>s. sql_eq (se_host s) h) ss = None" if "\<forall>s\<in>set ss. length (se_host s) \<le> 255" for ss
    using that assms(3) len by (fastforce simp: sql_first_None)
  have lit: "sql_literal h = Some h" using assms(1,2) by (rule sql_literal_plain)
  define st' where "st' = st\<lparr>os_sessions := os_sessions st @ [\<lparr>se_host = take 255 h, se_count = 1, se_killcount = 0\<rparr>]\<rparr>"
  show ?thesis
  proof (cases "\<forall>s\<in>set (os_sessions st). \<not> sql_eq (se_host s) (take 255 h)")
    case True
    have short: "\<forall>s\<in>set (os_sessions st'). length (se_host s) \<le> 255" using assms(4) by (auto simp: st'_def)
    moreover have "add_session cfg now nick h st = Some (True, st')"
      unfolding add_session_def lit option.case if_P [OF True] st'_def ..
    ultimately show ?thesis using none [OF short] by (auto simp: host_count_def)
  next
    case False
    then have "add_session cfg now nick h st = Some (True, st)"
      unfolding add_session_def lit option.case if_not_P [OF False] none [OF assms(4)] by simp
    then show ?thesis using none [OF assms(4)] assms(4) by (simp add: host_count_def)
  qed
qed

text \<open>Below zero, the unsigned difference is the largest value of the column.\<close>

definition del_session :: "cstr \<Rightarrow> os_state \<Rightarrow> os_state" where
  "del_session host st =
     upd_session host (\<lambda>s. s\<lparr>se_count := if se_count s = 0 then 65535 else se_count s - 1\<rparr>) st"

section \<open>Exceptions\<close>

definition exception_expired :: "int \<Rightarrow> exception_row \<Rightarrow> bool" where
  "exception_expired now x \<longleftrightarrow> ex_expires x \<noteq> 0 \<and> ex_expires x < now"

definition expire_exceptions :: "oscfg \<Rightarrow> int \<Rightarrow> os_state \<Rightarrow> os_state" where
  "expire_exceptions cfg now st =
     (if os_noexpire cfg then st
      else
        (let st = (if WallExceptionExpire cfg
                   then fold (\<lambda>x. os_say (Wallops ''Session limit exception for %s (%s) has expired.'' [showd (ex_id x), ex_mask x]))
                          (filter (exception_expired now) (os_exceptions st)) st
                   else st)
         in st\<lparr>os_exceptions := sql_delete (exception_expired now) (os_exceptions st)\<rparr>))"

definition num_exceptions :: "os_state \<Rightarrow> nat" where
  "num_exceptions st = length (os_exceptions st)"

definition mysql_insert_exception :: "cstr \<Rightarrow> nat \<Rightarrow> cstr \<Rightarrow> cstr \<Rightarrow> int \<Rightarrow> int \<Rightarrow> os_state \<Rightarrow> bool \<times> os_state" where
  "mysql_insert_exception msk limit who reason t expires st =
     (if \<exists>x\<in>set (os_exceptions st). sql_eq (ex_mask x) (take 255 msk) then (True, st)
      else (False, st\<lparr>os_exceptions := os_exceptions st @
              [\<lparr>ex_id = os_exception_next st, ex_mask = take 255 msk, ex_limit = smallint limit, ex_who = who,
                ex_reason = take 255 reason, ex_time = t, ex_expires = expires\<rparr>],
            os_exception_next := Suc (os_exception_next st)\<rparr>))"

definition exception_add :: "int \<Rightarrow> cstr \<Rightarrow> nat \<Rightarrow> cstr \<Rightarrow> cstr \<Rightarrow> int \<Rightarrow> os_state \<Rightarrow> bool \<times> os_state" where
  "exception_add now msk limit reason who expires st =
     (let (dup, st) = mysql_insert_exception msk limit (take (NICKMAX - 1) who) reason now expires st
      in (\<not> dup, st))"

section \<open>The EXCEPTION command\<close>

definition exception_parsed ::
  "oscfg \<Rightarrow> int \<Rightarrow> user \<Rightarrow> int \<Rightarrow> cstr option \<Rightarrow> int \<Rightarrow> cstr \<Rightarrow> os_state \<Rightarrow> os_state option" where
  "exception_parsed cfg now u expires msk limit reason st =
     (let note = (\<lambda>t args. os_say (NoticeLang (u_uid u) t args))
      in if expires < 0 then Some (note ''BAD_EXPIRY_TIME'' [] st)
         else if limit < 0 \<or> nat limit > MaxSessionLimit cfg
         then Some (note ''OPER_EXCEPTION_INVALID_LIMIT'' [showd (MaxSessionLimit cfg)] st)
         else (case msk of
                 None \<Rightarrow> None
               | Some m \<Rightarrow>
                   if CHR ''!'' \<in> set m \<or> CHR ''@'' \<in> set m then Some (note ''OPER_EXCEPTION_INVALID_HOSTMASK'' [] st)
                   else
                     (let expires = (if expires > 0 then wrap32 (expires + now) else expires);
                          m = strlower m;
                          (added, st) = exception_add now m (nat limit) reason (u_nick u) expires st
                      in if added
                         then
                           (let st = note ''OPER_EXCEPTION_ADDED'' [m, show_int limit] st
                            in Some (if WallOSException cfg
                                     then os_say (Wallops ''added a session limit exception'' [u_nick u, show_int limit, m,
                                            if expires = 0 then ''OPER_AKILL_NO_EXPIRE'' else show_int (expires - now + 59)]) st
                                     else st))
                         else Some (note ''OPER_EXCEPTION_ALREADY_PRESENT'' [m, show_int limit] st))))"

definition do_exception_add :: "oscfg \<Rightarrow> int \<Rightarrow> user \<Rightarrow> cstr \<Rightarrow> os_state \<Rightarrow> os_state option" where
  "do_exception_add cfg now u r st =
     (let note = (\<lambda>t args. os_say (NoticeLang (u_uid u) t args))
      in if num_exceptions st \<ge> 32767 then Some (note ''OPER_EXCEPTION_TOO_MANY'' [] st)
         else
           (let (msk, r) = strtok r '' '';
                expiry = (case msk of Some e \<Rightarrow> if hd0 e = CHR ''+'' then Some e else None | None \<Rightarrow> None);
                (msk, r) = (if expiry \<noteq> None then strtok r '' '' else (msk, r));
                (limitstr, r) = strtok r '' ''
            in case fst (strtok r []) of
                 None \<Rightarrow> Some (note ''OPER_EXCEPTION_ADD_SYNTAX'' [] st)
               | Some reason \<Rightarrow>
                   exception_parsed cfg now u (case expiry of Some e \<Rightarrow> dotime e | None \<Rightarrow> ExceptionExpiry cfg) msk
                     (case limitstr of Some l \<Rightarrow> if isdigit (hd0 l) then atoi l else -1 | None \<Rightarrow> -1) reason st))"

text \<open>
  The statements for number lists: the base with the condition that \<open>mysql_build_query\<close> writes behind it.
  A statement is cut to 4095 characters: one of that length loses the parenthesis at its end.  The
  database accepts neither that nor a condition without a clause, and an error ends the services.
\<close>

definition del_base :: cstr where
  "del_base = ''DELETE FROM exception WHERE (''"

definition list_base :: "bool \<Rightarrow> cstr" where
  "list_base full =
     (if full then ''SELECT exception_id, mask, ex_limit, who, reason, time, expires FROM exception WHERE (''
      else ''SELECT exception_id, ex_limit, mask, expires FROM exception WHERE ('')"

definition number_query :: "oscfg \<Rightarrow> cstr \<Rightarrow> cstr \<Rightarrow> cstr" where
  "number_query cfg base m = mysql_build_query m base ''exception_id'' (MaxSessionLimit cfg)"

definition arrives_whole :: "cstr \<Rightarrow> bool" where
  "arrives_whole query \<longleftrightarrow> length (query @ '')'') \<le> 4095"

text \<open>DEL: by numbers or by a mask that the text of the command matches.\<close>

definition exceptions_cut :: "user \<Rightarrow> (exception_row \<Rightarrow> bool) \<Rightarrow> os_state \<Rightarrow> os_state" where
  "exceptions_cut u P st =
     (let note = (\<lambda>t args. os_say (NoticeLang (u_uid u) t args));
          rows = sql_deleted P (os_exceptions st);
          st = st\<lparr>os_exceptions := sql_delete P (os_exceptions st)\<rparr>
      in if rows = 0 then note ''OPER_EXCEPTION_NO_MATCH'' [] st
         else if rows = 1 then note ''OPER_EXCEPTION_DELETED_ONE'' [] st
         else note ''OPER_EXCEPTION_DELETED_SEVERAL'' [showd rows] st)"

definition do_exception_del :: "oscfg \<Rightarrow> user \<Rightarrow> cstr \<Rightarrow> os_state \<Rightarrow> os_state option" where
  "do_exception_del cfg u r st =
     (let note = (\<lambda>t args. os_say (NoticeLang (u_uid u) t args))
      in case fst (strtok r '' '') of
           None \<Rightarrow> Some (note ''OPER_EXCEPTION_DEL_SYNTAX'' [] st)
         | Some m \<Rightarrow>
             if isdigit (hd0 m) \<and> is_numlist m
             then
               (let query = number_query cfg del_base m
                in if length query = length del_base then Some (note ''OPER_EXCEPTION_DEL_SYNTAX'' [] st)
                   else if \<not> arrives_whole query then None
                   else Some (exceptions_cut u (\<lambda>x. selects (query_clauses (MaxSessionLimit cfg) m) (ex_id x)) st))
             else Some (exceptions_cut u (\<lambda>x. irc_match (ex_mask x) m None) st))"

text \<open>LIST and VIEW; a row of VIEW also shows dates, which are left out.\<close>

definition do_exception_list :: "bool \<Rightarrow> oscfg \<Rightarrow> int \<Rightarrow> user \<Rightarrow> cstr \<Rightarrow> os_state \<Rightarrow> os_state option" where
  "do_exception_list full cfg now u r st =
     (let note = (\<lambda>t args. os_say (NoticeLang (u_uid u) t args));
          st = expire_exceptions cfg now st;
          (msk, r) = strtok r '' '';
          noexpire = (msk \<noteq> None \<and> (case fst (strtok r '' '') of None \<Rightarrow> False | Some e \<Rightarrow> strlower e = ''noexpire''));
          numbers = (case msk of None \<Rightarrow> False | Some m \<Rightarrow> is_numlist (strlower m));
          query = number_query cfg (list_base full) (strlower (the msk));
          rows = (if numbers then filter (\<lambda>x. selects (query_clauses (MaxSessionLimit cfg) (strlower (the msk))) (ex_id x)) (os_exceptions st)
                  else filter (\<lambda>x. case msk of None \<Rightarrow> True | Some m \<Rightarrow> match_wild (strlower m) (ex_mask x))
                         (sort_key ex_id (os_exceptions st)));
          rows = filter (\<lambda>x. noexpire \<longrightarrow> ex_expires x = 0) rows
      in if numbers \<and> (query = list_base full \<or> \<not> arrives_whole query) then None
         else if rows = [] then Some (note ''OPER_EXCEPTION_NO_MATCH'' [] st)
         else
           (let st = note ''OPER_EXCEPTION_LIST_HEADER'' [] st;
                st = (if full then st else note ''OPER_EXCEPTION_LIST_COLHEAD'' [] st)
            in Some (fold (\<lambda>x. if full
                        then note ''OPER_EXCEPTION_VIEW_FORMAT'' [showd (ex_id x), ex_mask x, ex_who x, showd (ex_limit x), ex_reason x]
                        else note ''OPER_EXCEPTION_LIST_FORMAT'' [showd (ex_id x), showd (ex_limit x), ex_mask x]) rows st)))"

definition do_exception :: "oscfg \<Rightarrow> int \<Rightarrow> user \<Rightarrow> cstr \<Rightarrow> os_state \<Rightarrow> os_state option" where
  "do_exception cfg now u t st =
     (let (cmd, r) = strtok t '' '';
          cmd = strlower (case cmd of None \<Rightarrow> [] | Some c \<Rightarrow> c)
      in if \<not> LimitSessions cfg then Some (os_say (NoticeLang (u_uid u) ''OPER_EXCEPTION_DISABLED'' []) st)
         else if cmd = ''add'' then do_exception_add cfg now u r st
         else if cmd = ''del'' then do_exception_del cfg u r st
         else if cmd = ''list'' then do_exception_list False cfg now u r st
         else if cmd = ''view'' then do_exception_list True cfg now u r st
         else Some (os_say (NoticeLang (u_uid u) ''OPER_EXCEPTION_SYNTAX'' []) st))"

section \<open>Counting\<close>

lemma host_count_cong: "sql_eq h g \<Longrightarrow> host_count st h = host_count st g"
  by (simp add: host_count_def sql_eq_def)

lemma upd_session_sel [simp]: "os_exceptions (upd_session h f st) = os_exceptions st"
  "os_akills (upd_session h f st) = os_akills st" "os_ns (upd_session h f st) = os_ns st"
  by (simp_all add: upd_session_def os_ns_def)

lemma upd_session_count:
  assumes "\<And>s. se_host (f s) = se_host s"
  shows "host_count (upd_session h f st) g =
    (if sql_eq g h then (case sql_first (\<lambda>s. sql_eq (se_host s) h) (os_sessions st) of None \<Rightarrow> 0 | Some s \<Rightarrow> se_count (f s))
     else host_count st g)"
    and "sessions_ok (upd_session h f st) = sessions_ok st"
proof -
  have e: "sql_first (\<lambda>s. sql_eq (se_host s) g) (sql_update (\<lambda>s. sql_eq (se_host s) h) f t) =
      map_option (\<lambda>s. if sql_eq (se_host s) h then f s else s) (sql_first (\<lambda>s. sql_eq (se_host s) g) t)" for t
    unfolding sql_first_def sql_update_def by (induction t) (auto simp: assms sql_eq_def)
  show "host_count (upd_session h f st) g =
    (if sql_eq g h then (case sql_first (\<lambda>s. sql_eq (se_host s) h) (os_sessions st) of None \<Rightarrow> 0 | Some s \<Rightarrow> se_count (f s))
     else host_count st g)"
    using e [of "os_sessions st"] sql_first_Some [of "\<lambda>s. sql_eq (se_host s) g" "os_sessions st"]
    by (auto simp: host_count_def upd_session_def sql_eq_def split: option.split)
  have "(\<lambda>s. strlower (se_host s)) \<circ> (\<lambda>s. if sql_eq (se_host s) h then f s else s) = (\<lambda>s. strlower (se_host s))"
    by (auto simp: fun_eq_iff assms)
  then show "sessions_ok (upd_session h f st) = sessions_ok st"
    by (simp add: sessions_ok_def upd_session_def sql_update_def)
qed

lemma add_akill_sessions [simp]:
  "os_sessions (snd (add_akill cfg now m reason who e st)) = os_sessions st"
  "os_exceptions (snd (add_akill cfg now m reason who e st)) = os_exceptions st"
  "ns_users (os_ns (snd (add_akill cfg now m reason who e st))) = ns_users (os_ns st)"
  by (auto simp: add_akill_def mysql_insert_akill_def send_akill_def os_ns_def os_say_def tell_def say_def Let_def
      split: option.split)

lemma exceed_ok:
  assumes "users_ok (ns_users (os_ns st))" and "CHR ''!'' \<notin> set host"
  shows "\<exists>k st'. exceed cfg now nick host killcount st = Some (k, st') \<and> os_sessions st' = os_sessions st \<and>
    os_exceptions st' = os_exceptions st \<and> ns_users (os_ns st') = ns_users (os_ns st) \<and>
    (if SessionKillClues cfg \<noteq> 0 \<and> SessionKillClues cfg \<le> killcount then k = 0
     else k = killcount + 1 \<and> (\<exists>t. KillMsg nick t \<in> set (ns_out (os_ns st'))))"
proof -
  define st1 where "st1 = (case SessionLimitExceeded cfg of None \<Rightarrow> st | Some t \<Rightarrow> os_say (NoticeText nick t) st)"
  define st2 where "st2 = (case SessionLimitDetailsLoc cfg of None \<Rightarrow> st1 | Some t \<Rightarrow> os_say (NoticeText nick t) st1)"
  have st2: "os_sessions st2 = os_sessions st" "os_exceptions st2 = os_exceptions st" "ns_users (os_ns st2) = ns_users (os_ns st)"
    by (simp_all add: st2_def st1_def say_def split: option.split)
  define m where "m = take (BUFSIZE - 1) (''*@'' @ host)"
  have "CHR ''!'' \<notin> set m" using assms(2) by (auto simp: m_def dest: in_set_takeD)
  then have c: "count_mask_matches (ns_users (os_ns st2)) (None, 0) m = Some (length (covered (ns_users (os_ns st)) m))"
    using count_mask_matches_ok [OF assms(1)] by (simp add: st2(3))
  show ?thesis
  proof (cases "SessionKillClues cfg \<noteq> 0 \<and> SessionKillClues cfg \<le> killcount")
    case True
    define e where "e = (if SessionAkillExpiry cfg \<noteq> 0 then SessionAkillExpiry cfg else AutokillExpiry cfg) + now"
    obtain r st3 where a: "add_akill cfg now m ''Session limit exceeded'' (s_OperServ cfg) e st2 = (r, st3)" by fastforce
    then have "st3 = snd (add_akill cfg now m ''Session limit exceeded'' (s_OperServ cfg) e st2)" by simp
    then have st3: "os_sessions st3 = os_sessions st" "os_exceptions st3 = os_exceptions st"
      "ns_users (os_ns st3) = ns_users (os_ns st)"
      by (simp_all add: st2)
    then show ?thesis
      using True c a st2
      unfolding exceed_def Let_def st1_def [symmetric] st2_def [symmetric] m_def [symmetric] e_def [symmetric]
      by (cases "WallOSAkill cfg") (simp_all add: say_def)
  next
    case False
    then show ?thesis
      using st2 unfolding exceed_def Let_def st1_def [symmetric] st2_def [symmetric]
      by (auto simp: say_def)
  qed
qed

lemma host_count_other: "os_sessions st' = os_sessions st \<Longrightarrow> host_count st' h = host_count st h"
  "os_sessions st' = os_sessions st \<Longrightarrow> sessions_ok st' = sessions_ok st"
  by (simp_all add: host_count_def sessions_ok_def)

text \<open>
  What a connection does to the count of its host, which must be below the bound of the column.
\<close>

lemma add_session_ok:
  assumes users: "users_ok (ns_users (os_ns st))" "CHR ''!'' \<notin> set host" and plain: "plain_host host" and ok: "sessions_ok st"
    and low: "host_count st host < 65535"
  shows "\<exists>b st'. add_session cfg now nick host st = Some (b, st') \<and> sessions_ok st' \<and>
    os_exceptions st' = os_exceptions st \<and> ns_users (os_ns st') = ns_users (os_ns st) \<and>
    (\<forall>g. host_count st' g = (if b \<and> sql_eq g host then host_count st g + 1 else host_count st g)) \<and>
    (case sql_first (\<lambda>s. sql_eq (se_host s) host) (os_sessions st) of
       None \<Rightarrow> b
     | Some s \<Rightarrow> b = (session_limit cfg (os_exceptions st) (se_host s) = 0 \<or>
                     se_count s < session_limit cfg (os_exceptions st) (se_host s)))"
proof (cases "sql_first (\<lambda>s. sql_eq (se_host s) host) (os_sessions st)")
  case None
  define st' where "st' = st\<lparr>os_sessions := os_sessions st @ [\<lparr>se_host = host, se_count = 1, se_killcount = 0\<rparr>]\<rparr>"
  have new: "strlower host \<noteq> strlower (se_host s)" if "s \<in> set (os_sessions st)" for s
    using None that by (auto simp: sql_first_None sql_eq_def)
  then have "strlower host \<notin> strlower ` se_host ` set (os_sessions st)" by blast
  then have "sessions_ok st'" using ok by (auto simp: sessions_ok_def st'_def)
  moreover have "host_count st' g = (if sql_eq g host then host_count st g + 1 else host_count st g)" for g
  proof (cases "sql_eq g host")
    case True
    then have "host_count st g = 0" using None host_count_cong [OF True] by (simp add: host_count_def)
    moreover have "find (\<lambda>s. sql_eq (se_host s) host) (xs @ [n]) = Some n"
      if "\<forall>s \<in> set xs. strlower host \<noteq> strlower (se_host s)" "se_host n = host" for xs :: "session_row list" and n
      using that by (induction xs) (auto simp: sql_eq_def)
    then have "host_count st' host = 1"
      using new by (simp add: host_count_def st'_def sql_first_def)
    ultimately show ?thesis using True host_count_cong [OF True, of st'] by simp
  next
    case False
    have "find (\<lambda>s. sql_eq (se_host s) g) (xs @ [\<lparr>se_host = host, se_count = 1, se_killcount = 0\<rparr>]) =
        find (\<lambda>s. sql_eq (se_host s) g) xs" for xs :: "session_row list"
      using False by (induction xs) (auto simp: sql_eq_def)
    then show ?thesis using False by (simp add: host_count_def st'_def sql_first_def)
  qed
  moreover have "add_session cfg now nick host st = Some (True, st')" using None by (simp add: add_session_plain [OF plain] st'_def)
  ultimately show ?thesis using None by (auto simp: st'_def os_ns_def)
next
  case (Some s)
  define limit where "limit = session_limit cfg (os_exceptions st) (se_host s)"
  have hc: "host_count st host = se_count s" using Some by (simp add: host_count_def)
  show ?thesis
  proof (cases "limit \<noteq> 0 \<and> limit \<le> se_count s")
    case False
    define f where "f = (\<lambda>s. s\<lparr>se_count := smallint (se_count s + 1), se_killcount := smallint (se_killcount s)\<rparr>)"
    have r: "add_session cfg now nick host st = Some (True, upd_session host (\<lambda>r. r\<lparr>se_count := smallint (se_count s + 1),
        se_killcount := smallint (se_killcount r)\<rparr>) st)"
      using Some False by (auto simp: add_session_plain [OF plain] Let_def simp flip: limit_def)
    show ?thesis unfolding r Some
      using False ok low hc host_count_cong [of _ host st] upd_session_count
      by (auto simp: upd_session_count Some simp flip: limit_def)
  next
    case True
    obtain k st1 where x: "exceed cfg now nick host (se_killcount s) st = Some (k, st1)" "os_sessions st1 = os_sessions st"
      "os_exceptions st1 = os_exceptions st" "ns_users (os_ns st1) = ns_users (os_ns st)"
      using exceed_ok [OF users] by blast
    have r: "add_session cfg now nick host st = Some (False, upd_session host
        (\<lambda>r. r\<lparr>se_count := smallint (se_count s), se_killcount := smallint k\<rparr>) st1)"
      using Some True x(1) by (simp add: add_session_plain [OF plain] Let_def flip: limit_def)
    show ?thesis unfolding r Some
      using True ok low hc x host_count_cong [of _ host st] host_count_other [OF x(2)]
      by (auto simp: upd_session_count Some simp flip: limit_def)
  qed
qed

text \<open>
  A connection of a host is counted unless the count stands at a limit that is not zero: then the
  count stays, and the user is killed, or, once more kills than \<open>SessionKillClues\<close> are
  recorded, the host gets an automatic kill.  No other host is concerned, and at most one row per
  host remains.
\<close>

theorem add_session_correct:
  assumes "users_ok (ns_users (os_ns st))" and "CHR ''!'' \<notin> set host" and "plain_host host" and "sessions_ok st"
    and "host_count st host < 65535"
  shows "\<exists>b st'. add_session cfg now nick host st = Some (b, st') \<and> sessions_ok st' \<and>
    (\<forall>g. \<not> sql_eq g host \<longrightarrow> host_count st' g = host_count st g) \<and>
    host_count st' host = (if b then host_count st host + 1 else host_count st host) \<and>
    (case sql_first (\<lambda>s. sql_eq (se_host s) host) (os_sessions st) of
       None \<Rightarrow> b
     | Some s \<Rightarrow>
         (let limit = session_limit cfg (os_exceptions st) (se_host s)
          in (b \<longleftrightarrow> limit = 0 \<or> host_count st' host \<le> limit \<and> host_count st host < limit)))"
proof -
  obtain b st' where r: "add_session cfg now nick host st = Some (b, st')" "sessions_ok st'"
    "\<forall>g. host_count st' g = (if b \<and> sql_eq g host then host_count st g + 1 else host_count st g)"
    "case sql_first (\<lambda>s. sql_eq (se_host s) host) (os_sessions st) of
       None \<Rightarrow> b
     | Some s \<Rightarrow> b = (session_limit cfg (os_exceptions st) (se_host s) = 0 \<or>
                     se_count s < session_limit cfg (os_exceptions st) (se_host s))"
    using add_session_ok [OF assms] by blast
  have "se_count s = host_count st host" if "sql_first (\<lambda>s. sql_eq (se_host s) host) (os_sessions st) = Some s" for s
    using that by (simp add: host_count_def)
  then show ?thesis using r
    by (intro exI [of _ b] exI [of _ st']) (auto simp: Let_def sql_eq_def split: option.splits)
qed

theorem add_session_correct_witness:
  "\<exists>b st'. add_session sample_oscfg 50 ''eve'' ''h.example'' sample_os = Some (b, st') \<and> \<not> b \<and>
     host_count st' ''h.example'' = 2"
proof -
  have r: "sql_first (\<lambda>s. sql_eq (se_host s) ''h.example'') (os_sessions sample_os) =
      Some \<lparr>se_host = ''h.example'', se_count = 2, se_killcount = 0\<rparr>"
    "session_limit sample_oscfg (os_exceptions sample_os) ''h.example'' = 2"
    by (simp_all add: sample_os_def sql_first_def sql_eq_def session_limit_def sample_oscfg_def)
  then have h: "host_count sample_os ''h.example'' = 2" by (simp add: host_count_def)
  moreover have "sessions_ok sample_os" by (simp add: sessions_ok_def sample_os_def)
  ultimately show ?thesis
    using add_session_correct [OF sample_os_users, of "''h.example''" sample_oscfg 50 "''eve''"] r by (auto simp: plain_host_def)
qed

section \<open>A run of the network\<close>

text \<open>
  The hosts of the users whom the table counts: a connection that was admitted, a departure of one of
  them, or work of the services that leaves the table of sessions alone.  Hosts have no quote and no
  backslash and at most 255 characters.
\<close>

inductive session_run :: "oscfg \<Rightarrow> os_state \<Rightarrow> cstr list \<Rightarrow> bool" for cfg where
  start: "os_sessions st = [] \<Longrightarrow> users_ok (ns_users (os_ns st)) \<Longrightarrow> session_run cfg st []"
| connect: "session_run cfg st hs \<Longrightarrow> CHR ''!'' \<notin> set host \<Longrightarrow> plain_host host \<Longrightarrow> length hs < 65535 \<Longrightarrow>
    add_session cfg now nick host st = Some (b, st') \<Longrightarrow> session_run cfg st' (if b then host # hs else hs)"
| depart: "session_run cfg st hs \<Longrightarrow> host \<in> set hs \<Longrightarrow> session_run cfg (del_session host st) (remove1 host hs)"
| other: "session_run cfg st hs \<Longrightarrow> os_sessions st' = os_sessions st \<Longrightarrow> users_ok (ns_users (os_ns st')) \<Longrightarrow>
    session_run cfg st' hs"

lemma del_session_count:
  "host_count (del_session h st) g =
    (if sql_eq g h \<and> sql_first (\<lambda>s. sql_eq (se_host s) h) (os_sessions st) \<noteq> None
     then (if host_count st h = 0 then 65535 else host_count st h - 1) else host_count st g)"
  "sessions_ok (del_session h st) = sessions_ok st" "os_ns (del_session h st) = os_ns st"
proof -
  show "host_count (del_session h st) g =
    (if sql_eq g h \<and> sql_first (\<lambda>s. sql_eq (se_host s) h) (os_sessions st) \<noteq> None
     then (if host_count st h = 0 then 65535 else host_count st h - 1) else host_count st g)"
    unfolding del_session_def
    by (subst upd_session_count, simp)
       (auto simp: host_count_def sql_eq_def split: option.splits)
qed (simp_all add: del_session_def upd_session_count)

definition of_host :: "cstr list \<Rightarrow> cstr \<Rightarrow> nat" where
  "of_host hs g = length (filter (sql_eq g) hs)"

lemma of_host_cong: "sql_eq g h \<Longrightarrow> of_host hs g = of_host hs h"
  unfolding of_host_def sql_eq_def by simp

lemma of_host_pos: "h \<in> set hs \<Longrightarrow> 0 < of_host hs h"
  by (auto simp: of_host_def sql_eq_def filter_empty_conv)

lemma of_host_remove:
  assumes "h \<in> set hs" shows "of_host (remove1 h hs) g = (if sql_eq g h then of_host hs g - 1 else of_host hs g)"
  using assms
proof (induction hs)
  case (Cons a hs)
  show ?case
  proof (cases "h = a")
    case False
    then have "h \<in> set hs" using Cons.prems by simp
    moreover from this have "0 < of_host hs g" if "sql_eq g h" using that of_host_pos of_host_cong by simp
    ultimately show ?thesis using False Cons.IH by (auto simp: of_host_def)
  qed (simp add: of_host_def)
qed simp

lemma session_run_ok:
  assumes "session_run cfg st hs"
  shows "users_ok (ns_users (os_ns st)) \<and> sessions_ok st \<and> (\<forall>g. host_count st g = of_host hs g)"
  using assms
proof induction
  case (start st)
  then show ?case by (simp add: sessions_ok_def host_count_def sql_first_def of_host_def)
next
  case (connect st hs host now nick b st')
  have "of_host hs host \<le> length hs" by (simp add: of_host_def)
  then have "host_count st host < 65535" using connect by simp
  then obtain b2 st2 where "add_session cfg now nick host st = Some (b2, st2)" "sessions_ok st2"
    "ns_users (os_ns st2) = ns_users (os_ns st)"
    "\<forall>g. host_count st2 g = (if b2 \<and> sql_eq g host then host_count st g + 1 else host_count st g)"
    using add_session_ok [of st host cfg now nick] connect by blast
  then show ?case using connect by (auto simp: of_host_def)
next
  case (depart st hs host)
  have p: "0 < host_count st host" using depart of_host_pos by simp
  then have "sql_first (\<lambda>s. sql_eq (se_host s) host) (os_sessions st) \<noteq> None"
    by (auto simp: host_count_def split: option.splits)
  then have "host_count (del_session host st) g = of_host (remove1 host hs) g" for g
    using p depart.IH depart.hyps(2) of_host_cong [of g host hs]
    by (cases "sql_eq g host") (simp_all add: del_session_count(1) of_host_remove)
  then show ?case using depart.IH by (simp add: del_session_count)
next
  case (other st hs st')
  then show ?case using host_count_other [of st' st] by simp
qed

text \<open>
  C14: in every run with hosts that have no quote, no backslash and at most 255 characters, the count of a host is the number of its users that were admitted and have not
  left; the count is never below zero, where the unsigned column would wrap, and a host has one row.
\<close>

theorem sessions_counted:
  assumes "session_run cfg st hs"
  shows "sessions_ok st \<and> (\<forall>g. host_count st g = of_host hs g)"
  using session_run_ok [OF assms] by simp

theorem sessions_counted_witness:
  "\<exists>st'. session_run sample_oscfg st' [''h.example''] \<and> host_count st' ''h.example'' = 1"
proof -
  define st where "st = sample_os\<lparr>os_sessions := []\<rparr>"
  define st' where "st' = st\<lparr>os_sessions := [\<lparr>se_host = ''h.example'', se_count = 1, se_killcount = 0\<rparr>]\<rparr>"
  have "session_run sample_oscfg st []"
    using sample_os_users by (auto intro!: session_run.start simp: st_def os_ns_def)
  moreover have "add_session sample_oscfg 50 ''eve'' ''h.example'' st = Some (True, st')"
    by (simp add: add_session_plain plain_host_def st_def st'_def sql_first_def)
  ultimately have "session_run sample_oscfg st' [''h.example'']"
    using session_run.connect [of sample_oscfg st "[]" "''h.example''" 50 "''eve''" True st'] by (simp add: plain_host_def)
  then show ?thesis using sessions_counted [of sample_oscfg st' "[''h.example'']"]
    by (auto simp: of_host_def sql_eq_def)
qed

section \<open>The table of exceptions\<close>

text \<open>An exception is numbered below the next number, has a limit in range and a mask of a host only.\<close>

definition exceptions_ok :: "oscfg \<Rightarrow> os_state \<Rightarrow> bool" where
  "exceptions_ok cfg st \<longleftrightarrow>
     distinct (map ex_id (os_exceptions st)) \<and>
     distinct (map (\<lambda>x. strlower (ex_mask x)) (os_exceptions st)) \<and>
     (\<forall>x \<in> set (os_exceptions st). ex_id x < os_exception_next st \<and> ex_limit x \<le> MaxSessionLimit cfg \<and>
        CHR ''!'' \<notin> set (ex_mask x) \<and> CHR ''@'' \<notin> set (ex_mask x))"

lemma os_exception_next_say [simp]: "os_exception_next (os_say m st) = os_exception_next st"
  by (simp add: os_say_def)

lemma exceptions_ok_say [simp]: "exceptions_ok cfg (os_say m st) = exceptions_ok cfg st"
  by (simp add: exceptions_ok_def)

lemma exceptions_ok_fold [simp]: "exceptions_ok cfg (fold (\<lambda>x. os_say (f x)) xs st) = exceptions_ok cfg st"
  by (induction xs arbitrary: st) simp_all

lemma exceptions_ok_delete:
  "exceptions_ok cfg st \<Longrightarrow> exceptions_ok cfg (st\<lparr>os_exceptions := sql_delete P (os_exceptions st)\<rparr>)"
  by (auto simp: exceptions_ok_def sql_delete_def intro: distinct_map_filter)

lemma exceptions_ok_add:
  assumes "exceptions_ok cfg st" and "CHR ''!'' \<notin> set m" "CHR ''@'' \<notin> set m" and "limit \<le> MaxSessionLimit cfg"
  shows "exceptions_ok cfg (snd (exception_add now m limit reason who e st))"
  using assms
  by (auto simp: exceptions_ok_def exception_add_def mysql_insert_exception_def Let_def sql_eq_def dest: in_set_takeD)

lemma expire_exceptions_kept: "exceptions_ok cfg st \<Longrightarrow> exceptions_ok cfg (expire_exceptions cfg now st)"
proof -
  assume a: "exceptions_ok cfg st"
  have "os_exceptions (fold (\<lambda>x. os_say (f x)) xs st) = os_exceptions st" for f :: "exception_row \<Rightarrow> ns_msg" and xs st
    by (induction xs arbitrary: st) simp_all
  then show ?thesis using a exceptions_ok_delete
      [of cfg "if WallExceptionExpire cfg then fold (\<lambda>x. os_say (Wallops ''Session limit exception for %s (%s) has expired.'' [showd (ex_id x), ex_mask x]))
                          (filter (exception_expired now) (os_exceptions st)) st
                   else st" "exception_expired now"]
    by (auto simp: expire_exceptions_def Let_def)
qed

lemma tolower_not_alpha: "\<not> isalpha c \<Longrightarrow> tolower d = c \<longleftrightarrow> d = c"
proof (cases "isupper d")
  case True
  then have "islower (tolower d)" using ord_tolower [of d] by (simp add: isupper_def islower_def)
  then show "\<not> isalpha c \<Longrightarrow> tolower d = c \<longleftrightarrow> d = c" using True by (auto simp: isalpha_def)
qed (simp add: tolower_def)

lemma set_strlower: "\<not> isalpha c \<Longrightarrow> c \<in> set (strlower m) \<longleftrightarrow> c \<in> set m"
  by (induction m) (auto simp: strlower_def eq_commute [of c] tolower_not_alpha)

lemma exception_parsed_kept:
  assumes "exceptions_ok cfg st" and "exception_parsed cfg now u e msk limit reason st = Some st'"
  shows "exceptions_ok cfg st'"
proof (cases "e < 0 \<or> limit < 0 \<or> nat limit > MaxSessionLimit cfg")
  case True
  then show ?thesis using assms by (auto simp: exception_parsed_def Let_def split: if_splits)
next
  case False
  then obtain m where m: "msk = Some m" using assms(2) by (auto simp: exception_parsed_def split: option.splits)
  show ?thesis
  proof (cases "CHR ''!'' \<in> set m \<or> CHR ''@'' \<in> set m")
    case True
    then show ?thesis using assms False m by (auto simp: exception_parsed_def)
  next
    case plain: False
    define e2 where "e2 = (if e > 0 then wrap32 (e + now) else e)"
    obtain b st1 where a: "exception_add now (strlower m) (nat limit) reason (u_nick u) e2 st = (b, st1)" by fastforce
    have "CHR ''!'' \<notin> set (strlower m)" "CHR ''@'' \<notin> set (strlower m)"
      using plain by (simp_all add: set_strlower isalpha_def isupper_def islower_def)
    then have "exceptions_ok cfg st1"
      using exceptions_ok_add [OF assms(1), of "strlower m" "nat limit" now reason "u_nick u" e2] False a by simp
    moreover have "st' = os_say (NoticeLang (u_uid u) ''OPER_EXCEPTION_ALREADY_PRESENT'' [strlower m, show_int limit]) st1 \<or>
        (\<exists>x y. st' = os_say x (os_say y st1)) \<or> (\<exists>y. st' = os_say y st1)"
      using assms(2) False plain a unfolding exception_parsed_def Let_def e2_def [symmetric] m
      by (simp split: if_splits) (blast+)?
    ultimately show ?thesis by auto
  qed
qed

lemma do_exception_add_kept:
  assumes "exceptions_ok cfg st" and "do_exception_add cfg now u r st = Some st'"
  shows "exceptions_ok cfg st'"
  using assms exception_parsed_kept [OF assms(1)]
  by (auto simp: do_exception_add_def Let_def split: if_splits prod.splits option.splits)

lemma do_exception_del_kept:
  assumes "exceptions_ok cfg st" and "do_exception_del cfg u r st = Some st'"
  shows "exceptions_ok cfg st'"
proof -
  have "exceptions_ok cfg (exceptions_cut u P st)" for P
    using exceptions_ok_delete [OF assms(1)] by (simp add: exceptions_cut_def Let_def)
  then show ?thesis using assms by (auto simp: do_exception_del_def Let_def split: option.splits if_splits)
qed

lemma do_exception_list_kept:
  assumes "exceptions_ok cfg st" and "do_exception_list full cfg now u r st = Some st'"
  shows "exceptions_ok cfg st'"
  using assms expire_exceptions_kept [OF assms(1), of now]
  by (auto simp: do_exception_list_def Let_def split: if_splits prod.splits)

text \<open>
  C21: every EXCEPTION command keeps the table in order: numbers and masks are distinct, numbers are
  below the next one, no limit is above \<open>MaxSessionLimit\<close>, and a mask is that of a host.
\<close>

theorem exceptions_kept:
  assumes "exceptions_ok cfg st" and "do_exception cfg now u text st = Some st'"
  shows "exceptions_ok cfg st'"
proof -
  obtain c r where t: "strtok text '' '' = (c, r)" by fastforce
  define cmd where "cmd = strlower (case c of None \<Rightarrow> [] | Some c \<Rightarrow> c)"
  have r: "do_exception cfg now u text st =
      (if \<not> LimitSessions cfg then Some (os_say (NoticeLang (u_uid u) ''OPER_EXCEPTION_DISABLED'' []) st)
       else if cmd = ''add'' then do_exception_add cfg now u r st
       else if cmd = ''del'' then do_exception_del cfg u r st
       else if cmd = ''list'' then do_exception_list False cfg now u r st
       else if cmd = ''view'' then do_exception_list True cfg now u r st
       else Some (os_say (NoticeLang (u_uid u) ''OPER_EXCEPTION_SYNTAX'' []) st))"
    by (simp only: do_exception_def t Let_def case_prod_conv cmd_def)
  show ?thesis
    using assms(2) do_exception_add_kept [OF assms(1), of now u r st'] do_exception_del_kept [OF assms(1), of u r st']
      do_exception_list_kept [OF assms(1), of _ now u r st'] assms(1)
    unfolding r by (auto split: if_splits)
qed

definition no_exceptions :: "cs_state \<Rightarrow> os_state" where
  "no_exceptions cs = \<lparr>os_cs = cs, os_akills = [], os_akill_next = 1, os_sessions = [], os_exceptions = [], os_exception_next = 1\<rparr>"

lemma add_sample:
  defines "t \<equiv> ''ADD *.good.example 5 friends''"
  shows "\<exists>st'. do_exception sample_oscfg 50 alice t (no_exceptions cs) = Some st' \<and> map ex_limit (os_exceptions st') = [5]"
proof -
  have t: "strtok t '' '' = (Some ''ADD'', ''*.good.example 5 friends'')"
    "strtok ''*.good.example 5 friends'' '' '' = (Some ''*.good.example'', ''5 friends'')"
    "strtok ''5 friends'' '' '' = (Some ''5'', ''friends'')" "strtok ''friends'' [] = (Some ''friends'', [])"
    "strlower ''ADD'' = ''add''" "hd0 ''*.good.example'' = CHR ''*''" "isdigit (hd0 ''5'')" "atoi ''5'' = 5"
    unfolding t_def by code_simp+
  have c: "LimitSessions sample_oscfg" "ExceptionExpiry sample_oscfg = 0" "MaxSessionLimit sample_oscfg = 100"
    "\<not> WallOSException sample_oscfg"
    by (simp_all add: sample_oscfg_def)
  have "do_exception sample_oscfg 50 alice t (no_exceptions cs) =
      do_exception_add sample_oscfg 50 alice ''*.good.example 5 friends'' (no_exceptions cs)"
    using t c by (simp add: do_exception_def)
  also have "\<dots> = exception_parsed sample_oscfg 50 alice 0 (Some ''*.good.example'') 5 ''friends'' (no_exceptions cs)"
    using t c by (simp add: do_exception_add_def num_exceptions_def no_exceptions_def)
  finally show ?thesis using c
    by (simp add: exception_parsed_def exception_add_def mysql_insert_exception_def no_exceptions_def Let_def)
qed

theorem exceptions_kept_witness:
  "\<exists>st'. do_exception sample_oscfg 50 alice ''ADD *.good.example 5 friends'' (no_exceptions (os_cs sample_os)) = Some st' \<and>
     exceptions_ok sample_oscfg st' \<and> map ex_limit (os_exceptions st') = [5]"
proof -
  have ok: "exceptions_ok sample_oscfg (no_exceptions (os_cs sample_os))"
    by (simp add: exceptions_ok_def no_exceptions_def)
  obtain st' where st':
    "do_exception sample_oscfg 50 alice ''ADD *.good.example 5 friends'' (no_exceptions (os_cs sample_os)) = Some st'"
    "map ex_limit (os_exceptions st') = [5]"
    using add_sample [of "os_cs sample_os"] by (elim exE conjE)
  then show ?thesis using exceptions_kept [OF ok st'(1)] by (intro exI conjI)
qed

section \<open>How a command can end the services\<close>

lemma strtok_after_None: "strtok s d = (None, r) \<Longrightarrow> fst (strtok r d') = None"
  by (auto simp: strtok_def Let_def split: if_splits)

lemma exception_parsed_returns: "msk \<noteq> None \<Longrightarrow> exception_parsed cfg now u e msk limit reason st \<noteq> None"
  by (auto simp: exception_parsed_def Let_def split: option.splits prod.splits)

lemma exception_parsed_no_limit: "exception_parsed cfg now u e msk (-1) reason st \<noteq> None"
  by (simp add: exception_parsed_def Let_def)

lemma do_exception_add_returns: "do_exception_add cfg now u r st \<noteq> None"
proof -
  have l: "fst (strtok r d) = None \<Longrightarrow> fst (strtok (snd (strtok r d)) d') = None" for r d d'
    using strtok_after_None [of r d] by (metis prod.collapse)
  obtain m r1 where m: "strtok r '' '' = (m, r1)" by fastforce
  define ex where "ex = (case m of Some e \<Rightarrow> if hd0 e = CHR ''+'' then Some e else None | None \<Rightarrow> None)"
  obtain m2 r2 where m2: "(if ex \<noteq> None then strtok r1 '' '' else (m, r1)) = (m2, r2)" by fastforce
  obtain l r3 where l': "strtok r2 '' '' = (l, r3)" by fastforce
  have "l = None" if "m2 = None"
    using that m m2 l' l [of r "'' ''" "'' ''"] l [of r1 "'' ''" "'' ''"] by (auto split: if_splits)
  then show ?thesis
    using exception_parsed_returns exception_parsed_no_limit
    unfolding do_exception_add_def Let_def m case_prod_conv ex_def [symmetric] m2 l'
    by (cases "m2 = None") (auto split: option.split)
qed

text \<open>The condition for a number list, and the text of its statement.\<close>

definition condition :: "oscfg \<Rightarrow> cstr \<Rightarrow> cstr" where
  "condition cfg m = disjunction (map (clause_text ''exception_id'') (query_clauses (MaxSessionLimit cfg) m))"

lemma number_query_text: "MaxSessionLimit cfg < 2 ^ 32 \<Longrightarrow> number_query cfg base m = base @ condition cfg m"
  by (simp add: number_query_def mysql_build_query_def query_loop_clauses condition_def)

text \<open>
  C20: an EXCEPTION command ends the services exactly if sessions are limited and it is a LIST or VIEW
  with a list of numbers, made of digits, commas and signs, that gives no condition, as the range 5-3, or a
  DEL, LIST or VIEW with such a list whose statement, the condition behind its base, has 4095 characters or more: the
  statement that is sent then is not valid SQL.
\<close>

theorem do_exception_ends:
  assumes "MaxSessionLimit cfg < 2 ^ 31"
  shows "do_exception cfg now u text st = None \<longleftrightarrow>
    LimitSessions cfg \<and>
    (\<exists>c r m. strtok text '' '' = (Some c, r) \<and> fst (strtok r '' '') = Some m \<and>
      (strlower c = ''list'' \<and> is_numlist (strlower m) \<and>
         (condition cfg (strlower m) = [] \<or> 4095 \<le> length (list_base False) + length (condition cfg (strlower m))) \<or>
       strlower c = ''view'' \<and> is_numlist (strlower m) \<and>
         (condition cfg (strlower m) = [] \<or> 4095 \<le> length (list_base True) + length (condition cfg (strlower m))) \<or>
       strlower c = ''del'' \<and> is_numlist m \<and> isdigit (hd0 m) \<and>
         4095 \<le> length del_base + length (condition cfg m)))"
proof -
  obtain c r where t: "strtok text '' '' = (c, r)" by fastforce
  obtain m r2 where m: "strtok r '' '' = (m, r2)" by fastforce
  define cmd where "cmd = strlower (case c of None \<Rightarrow> [] | Some c \<Rightarrow> c)"
  have q: "number_query cfg base x = base @ condition cfg x" for base x
    using assms by (intro number_query_text) simp
  define bad where "bad full x \<longleftrightarrow> is_numlist (strlower x) \<and>
    (condition cfg (strlower x) = [] \<or> 4095 \<le> length (list_base full) + length (condition cfg (strlower x)))" for full x
  define worse where "worse x \<longleftrightarrow> is_numlist x \<and> isdigit (hd0 x) \<and> 4095 \<le> length del_base + length (condition cfg x)" for x
  have l: "do_exception_list full cfg now u r st = None \<longleftrightarrow> (\<exists>x. m = Some x \<and> bad full x)" for full
    by (cases m) (auto simp: do_exception_list_def Let_def m q bad_def arrives_whole_def)
  have d: "do_exception_del cfg u r st = None \<longleftrightarrow> (\<exists>x. m = Some x \<and> worse x)"
    by (cases m) (auto simp: do_exception_del_def Let_def m q worse_def arrives_whole_def del_base_def)
  have "do_exception cfg now u text st = None \<longleftrightarrow>
      LimitSessions cfg \<and> (\<exists>x. m = Some x \<and> (cmd = ''list'' \<and> bad False x \<or> cmd = ''view'' \<and> bad True x \<or> cmd = ''del'' \<and> worse x))"
    unfolding do_exception_def Let_def t case_prod_conv cmd_def [symmetric]
    using l d do_exception_add_returns [of cfg now u r st] by auto
  also have "\<dots> \<longleftrightarrow> LimitSessions cfg \<and>
    (\<exists>c r m. strtok text '' '' = (Some c, r) \<and> fst (strtok r '' '') = Some m \<and>
      (strlower c = ''list'' \<and> bad False m \<or> strlower c = ''view'' \<and> bad True m \<or> strlower c = ''del'' \<and> worse m))"
    using m by (cases c) (auto simp: t cmd_def strlower_def)
  finally show ?thesis unfolding bad_def worse_def by simp
qed

theorem do_exception_ends_witness: "do_exception (sample_oscfg\<lparr>LimitSessions := True\<rparr>) 50 alice ''LIST 5-3'' sample_os = None"
proof -
  define cfg where "cfg = sample_oscfg\<lparr>LimitSessions := True\<rparr>"
  have c: "LimitSessions cfg" "MaxSessionLimit cfg = 100" by (simp_all add: cfg_def sample_oscfg_def)
  have n: "strtok ''LIST 5-3'' '' '' = (Some ''LIST'', ''5-3'')" "fst (strtok ''5-3'' '' '') = Some ''5-3''"
    "strlower ''LIST'' = ''list''" "strlower ''5-3'' = ''5-3''" "is_numlist ''5-3''" "show_ranges [(5, 3)] = ''5-3''"
    by code_simp+
  have "query_ranges (show_ranges [(5, 3)]) = [(5, 3)]" by (rule query_ranges_show) simp
  then have "condition cfg ''5-3'' = []" unfolding n(6) by (simp add: condition_def query_clauses_def c(2))
  then show ?thesis
    using do_exception_ends [of cfg 50 alice "''LIST 5-3''" sample_os] n c unfolding cfg_def [symmetric] by auto
qed

text \<open>The last exception that matches decides, not the first one.\<close>

lemma last_exception_decides:
  "session_limit sample_oscfg
     [\<lparr>ex_id = 1, ex_mask = ''h.example'', ex_limit = 9, ex_who = [], ex_reason = [], ex_time = 1, ex_expires = 0\<rparr>,
      \<lparr>ex_id = 2, ex_mask = ''*.example'', ex_limit = 3, ex_who = [], ex_reason = [], ex_time = 1, ex_expires = 0\<rparr>]
     ''h.example'' = 3"
  by code_simp

text \<open>A host whose users have all left keeps its row.\<close>

lemma session_row_stays:
  "\<lparr>se_host = ''h'', se_count = 0, se_killcount = 0\<rparr> \<in> set (os_sessions
     (del_session ''h'' (sample_os\<lparr>os_sessions := [\<lparr>se_host = ''h'', se_count = 1, se_killcount = 0\<rparr>]\<rparr>)))"
  by (simp add: del_session_def upd_session_def sql_update_def sql_eq_def)

end
