(* ===== verification/News.thy ===== *)
theory News
  imports Akill
begin

text \<open>
  The news shown to users who connect and to new operators (src/src/news.c): one table, and the
  OperServ commands LOGONNEWS and OPERNEWS that edit it.  Dates are left out of the notices.
\<close>

definition NEWS_LOGON :: nat where "NEWS_LOGON = 0"
definition NEWS_OPER :: nat where "NEWS_OPER = 1"

text \<open>The name of a type; the messages of a type are called after it.\<close>

definition findmsgs :: "nat \<Rightarrow> cstr option" where
  "findmsgs ty = (if ty = NEWS_LOGON then Some ''LOGON'' else if ty = NEWS_OPER then Some ''OPER'' else None)"

definition news_msg :: "user \<Rightarrow> cstr \<Rightarrow> cstr \<Rightarrow> cstr list \<Rightarrow> ns_state \<Rightarrow> ns_state" where
  "news_msg u name key args = say (NoticeLang (u_uid u) (''NEWS_'' @ name @ ''_'' @ key) args)"

definition display_news :: "user \<Rightarrow> nat \<Rightarrow> ns_state \<Rightarrow> ns_state" where
  "display_news u ty st =
     (case findmsgs ty of
        None \<Rightarrow> st
      | Some name \<Rightarrow>
          fold (\<lambda>r. news_msg u name ''TEXT'' [nw_text r])
            (sort_key (\<lambda>r. - nw_time r) (filter (\<lambda>r. nw_type r = ty) (t_news (ns_db st)))) st)"

section \<open>Editing\<close>

definition num_news :: "ns_state \<Rightarrow> nat" where
  "num_news st = length (t_news (ns_db st))"

definition add_newsitem :: "int \<Rightarrow> user \<Rightarrow> cstr \<Rightarrow> nat \<Rightarrow> ns_state \<Rightarrow> int \<times> ns_state" where
  "add_newsitem now u t ty st =
     (if num_news st \<ge> 32767 then (-1, st)
      else (let db = ns_db st; i = next_news db
            in (int i, st\<lparr>ns_db := db\<lparr>t_news := t_news db @
                  [\<lparr>nw_id = i, nw_type = ty, nw_text = t, nw_who = u_nick u, nw_time = now\<rparr>],
                  next_news := Suc i\<rparr>\<rparr>)))"

definition notify_newsitem :: "cstr \<Rightarrow> nat \<Rightarrow> ns_state \<Rightarrow> ns_state" where
  "notify_newsitem t ty =
     (if ty = NEWS_LOGON then say (Cmd ''GLOBAL'' [''[Logon News] '' @ t])
      else if ty = NEWS_OPER then say (Wallops ''[Oper News] %s'' [t]) else id)"

text \<open>The type plays no part in the removal of a numbered item.\<close>

definition del_newsitem :: "nat \<Rightarrow> nat \<Rightarrow> ns_state \<Rightarrow> nat \<times> ns_state" where
  "del_newsitem num ty st =
     (let db = ns_db st; P = (if num = 0 then (\<lambda>r. nw_type r = ty) else (\<lambda>r. nw_id r = num))
      in (sql_deleted P (t_news db), st\<lparr>ns_db := db\<lparr>t_news := sql_delete P (t_news db)\<rparr>\<rparr>))"

section \<open>The commands\<close>

definition do_news_list :: "user \<Rightarrow> nat \<Rightarrow> cstr \<Rightarrow> ns_state \<Rightarrow> ns_state" where
  "do_news_list u ty name st =
     (let rows = filter (\<lambda>r. nw_type r = ty) (t_news (ns_db st))
      in if rows = [] then news_msg u name ''LIST_NONE'' [] st
         else fold (\<lambda>r. news_msg u name ''LIST_ENTRY'' [showd (nw_id r), nw_who r, nw_text r]) rows
                (news_msg u name ''LIST_HEADER'' [] st))"

definition do_news_add :: "int \<Rightarrow> user \<Rightarrow> nat \<Rightarrow> cstr \<Rightarrow> cstr \<Rightarrow> ns_state \<Rightarrow> ns_state" where
  "do_news_add now u ty name r st =
     (case fst (strtok r []) of
        None \<Rightarrow> news_msg u name ''ADD_SYNTAX'' [] st
      | Some t \<Rightarrow>
          (let (n, st) = add_newsitem now u t ty st
           in if n < 0 then news_msg u name ''ADD_FULL'' [] st
              else news_msg u name ''ADDED'' [show_int n] (notify_newsitem t ty st)))"

definition do_news_del :: "user \<Rightarrow> nat \<Rightarrow> cstr \<Rightarrow> cstr \<Rightarrow> ns_state \<Rightarrow> ns_state" where
  "do_news_del u ty name r st =
     (case fst (strtok r '' '') of
        None \<Rightarrow> news_msg u name ''DEL_SYNTAX'' [] st
      | Some t \<Rightarrow>
          if strlower t \<noteq> ''all''
          then (let num = to_uint32 (atoi t)
                in if num > 0
                   then (let (rows, st) = del_newsitem num ty st
                         in news_msg u name (if rows > 0 then ''DELETED'' else ''DEL_NOT_FOUND'') [showd num] st)
                   else news_msg u name ''DEL_NOT_FOUND'' [showd num] st)
          else (let (rows, st) = del_newsitem 0 ty st
                in news_msg u name (if rows > 0 then ''DELETED_ALL'' else ''DEL_NONE'') [] st))"

definition do_news :: "cscfg \<Rightarrow> int \<Rightarrow> user \<Rightarrow> nat \<Rightarrow> cstr \<Rightarrow> ns_state \<Rightarrow> ns_state option" where
  "do_news cfg now u ty t st =
     do {
       (adm, st) \<leftarrow> is_services_admin cfg now u st;
       let (cmd, r) = strtok t '' '';
       let cmd = strlower (case cmd of None \<Rightarrow> [] | Some c \<Rightarrow> c);
       case findmsgs ty of
         None \<Rightarrow> Some st
       | Some name \<Rightarrow>
           Some (if cmd = ''list'' then do_news_list u ty name st
                 else if cmd = ''add''
                 then (if adm then do_news_add now u ty name r st
                       else say (NoticeLang (u_uid u) ''PERMISSION_DENIED'' []) st)
                 else if cmd = ''del''
                 then (if adm then do_news_del u ty name r st
                       else say (NoticeLang (u_uid u) ''PERMISSION_DENIED'' []) st)
                 else news_msg u name ''SYNTAX'' [] st)
     }"

definition do_logonnews :: "cscfg \<Rightarrow> int \<Rightarrow> user \<Rightarrow> cstr \<Rightarrow> ns_state \<Rightarrow> ns_state option" where
  "do_logonnews cfg now u t st = do_news cfg now u NEWS_LOGON t st"

definition do_opernews :: "cscfg \<Rightarrow> int \<Rightarrow> user \<Rightarrow> cstr \<Rightarrow> ns_state \<Rightarrow> ns_state option" where
  "do_opernews cfg now u t st = do_news cfg now u NEWS_OPER t st"

section \<open>The table\<close>

text \<open>Numbers are distinct and below the next one, and every type is one of the two.\<close>

definition news_ok :: "sqldb \<Rightarrow> bool" where
  "news_ok db \<longleftrightarrow>
     distinct (map nw_id (t_news db)) \<and> length (t_news db) \<le> 32767 \<and>
     (\<forall>r\<in>set (t_news db). nw_id r < next_news db \<and> nw_type r \<in> {NEWS_LOGON, NEWS_OPER})"

lemma news_msg_db [simp]: "ns_db (news_msg u name key args st) = ns_db st"
  by (simp add: news_msg_def say_def)

lemma fold_news_msg_db [simp]: "ns_db (fold (\<lambda>r. news_msg u name key (f r)) xs st) = ns_db st"
  by (induction xs arbitrary: st) simp_all

lemma notify_db [simp]: "ns_db (notify_newsitem t ty st) = ns_db st"
  by (simp add: notify_newsitem_def say_def)

lemma do_news_list_db [simp]: "ns_db (do_news_list u ty name st) = ns_db st"
  by (simp add: do_news_list_def Let_def)

lemma display_news_db [simp]: "ns_db (display_news u ty st) = ns_db st"
  by (simp add: display_news_def split: option.split)

lemma do_news_add_ok:
  assumes "news_ok (ns_db st)" and "findmsgs ty = Some name"
  shows "news_ok (ns_db (do_news_add now u ty name r st))"
  using assms
  by (auto simp: do_news_add_def add_newsitem_def news_ok_def num_news_def Let_def findmsgs_def
      split: option.splits if_splits)

lemma del_newsitem_ok: "news_ok (ns_db st) \<Longrightarrow> news_ok (ns_db (snd (del_newsitem num ty st)))"
  by (auto simp: del_newsitem_def news_ok_def Let_def sql_delete_def distinct_map_filter
      intro: order_trans [OF length_filter_le])

lemma do_news_del_ok: "news_ok (ns_db st) \<Longrightarrow> news_ok (ns_db (do_news_del u ty name r st))"
  using del_newsitem_ok [of st _ ty]
  by (auto simp: do_news_del_def Let_def split_beta split: option.splits)

text \<open>
  What a line asks for, and what it does to the table: ADD appends one item while there is room,
  DEL removes the item with the number, of whatever type, or all items of the type.
\<close>

datatype request = Nothing | Put cstr | Remove nat | Clear

definition request :: "cstr \<Rightarrow> request" where
  "request t =
     (let (cmd, r) = strtok t '' ''; cmd = strlower (case cmd of None \<Rightarrow> [] | Some c \<Rightarrow> c)
      in if cmd = ''add'' then (case fst (strtok r []) of None \<Rightarrow> Nothing | Some t \<Rightarrow> Put t)
         else if cmd = ''del''
         then (case fst (strtok r '' '') of
                 None \<Rightarrow> Nothing
               | Some t \<Rightarrow> if strlower t = ''all'' then Clear else Remove (to_uint32 (atoi t)))
         else Nothing)"

fun news_after :: "int \<Rightarrow> cstr \<Rightarrow> nat \<Rightarrow> request \<Rightarrow> nat \<Rightarrow> news_row list \<Rightarrow> news_row list" where
  "news_after now who ty Nothing i rows = rows"
| "news_after now who ty (Put t) i rows =
     (if length rows < 32767
      then rows @ [\<lparr>nw_id = i, nw_type = ty, nw_text = t, nw_who = who, nw_time = now\<rparr>] else rows)"
| "news_after now who ty (Remove n) i rows = (if n = 0 then rows else filter (\<lambda>r. nw_id r \<noteq> n) rows)"
| "news_after now who ty Clear i rows = filter (\<lambda>r. nw_type r \<noteq> ty) rows"

definition same_but_news :: "sqldb \<Rightarrow> sqldb \<Rightarrow> bool" where
  "same_but_news db db' \<longleftrightarrow> db'\<lparr>t_news := t_news db, next_news := next_news db\<rparr> = db"

lemma do_news_add_effect:
  assumes "request t0 = (case fst (strtok r []) of None \<Rightarrow> Nothing | Some t \<Rightarrow> Put t)"
  shows "t_news (ns_db (do_news_add now u ty name r st)) =
      news_after now (u_nick u) ty (request t0) (next_news (ns_db st)) (t_news (ns_db st))"
    and "same_but_news (ns_db st) (ns_db (do_news_add now u ty name r st))"
  unfolding assms
  by (auto simp: do_news_add_def add_newsitem_def num_news_def same_but_news_def Let_def split: option.splits)

lemma do_news_del_effect:
  assumes "request t0 = (case fst (strtok r '' '') of
      None \<Rightarrow> Nothing | Some t \<Rightarrow> if strlower t = ''all'' then Clear else Remove (to_uint32 (atoi t)))"
  shows "t_news (ns_db (do_news_del u ty name r st)) =
      news_after now (u_nick u) ty (request t0) (next_news (ns_db st)) (t_news (ns_db st))"
    and "same_but_news (ns_db st) (ns_db (do_news_del u ty name r st))"
  unfolding assms
  by (auto simp: do_news_del_def del_newsitem_def same_but_news_def sql_delete_def Let_def split: option.splits)

text \<open>
  C35: whatever a user types behind LOGONNEWS or OPERNEWS, the command returns and the table stays
  in order.  For anyone but a services administrator, and for any other line than ADD and DEL, the table
  stays as it is; ADD of an administrator appends exactly one item, of the type of the command, under the
  nickname of the administrator and with the time of the command, if the table has room; DEL removes
  exactly the item with the given number, or with ALL exactly the items of the type.  No other
  table changes, times of last use apart.
\<close>

theorem do_news_lawful:
  assumes "ns_ok st" and "known (ns_db st) u" and "news_ok (ns_db st)" and "ty \<in> {NEWS_LOGON, NEWS_OPER}"
  shows "\<exists>st1 st'. do_news cfg now u ty text st = Some st' \<and> news_ok (ns_db st') \<and>
    t_news (ns_db st') =
      news_after now (u_nick u) ty (if admin_of cfg (ns_db st) u then request text else Nothing)
        (next_news (ns_db st)) (t_news (ns_db st)) \<and>
    quiet [] st st1 \<and> same_but_news (ns_db st1) (ns_db st')"
proof -
  obtain st1 where st1: "is_services_admin cfg now u st = Some (admin_of cfg (ns_db st) u, st1)" "quiet [] st st1"
    using yieldsD [OF is_services_admin_yields [OF quiet_refl [OF assms(1)] assms(2),
      of "\<lambda>b st'. b = admin_of cfg (ns_db st) u \<and> quiet [] st st'"]] by auto
  have "touched (ns_db st) (ns_db st1)" using st1(2) by (rule quiet_touched)
  then have t: "t_news (ns_db st1) = t_news (ns_db st)" "next_news (ns_db st1) = next_news (ns_db st)"
    unfolding touched_def forget_def by (metis sqldb.ext_inject sqldb.surjective sqldb.update_convs)+
  then have ok: "news_ok (ns_db st1)" using assms(3) by (simp add: news_ok_def)
  obtain name where name: "findmsgs ty = Some name" using assms(4) by (auto simp: findmsgs_def NEWS_LOGON_def NEWS_OPER_def)
  obtain c r where c: "strtok text '' '' = (c, r)" by fastforce
  define cmd where "cmd = strlower (case c of None \<Rightarrow> [] | Some c \<Rightarrow> c)"
  define adm where "adm = admin_of cfg (ns_db st) u"
  have q: "request text =
     (if cmd = ''add'' then (case fst (strtok r []) of None \<Rightarrow> Nothing | Some t \<Rightarrow> Put t)
      else if cmd = ''del''
      then (case fst (strtok r '' '') of
              None \<Rightarrow> Nothing
            | Some t \<Rightarrow> if strlower t = ''all'' then Clear else Remove (to_uint32 (atoi t)))
      else Nothing)"
    unfolding cmd_def by (simp add: request_def c Let_def)
  define st' where "st' = (if cmd = ''list'' then do_news_list u ty name st1
      else if cmd = ''add''
      then (if adm then do_news_add now u ty name r st1 else say (NoticeLang (u_uid u) ''PERMISSION_DENIED'' []) st1)
      else if cmd = ''del''
      then (if adm then do_news_del u ty name r st1 else say (NoticeLang (u_uid u) ''PERMISSION_DENIED'' []) st1)
      else news_msg u name ''SYNTAX'' [] st1)"
  have run: "do_news cfg now u ty text st = Some st'"
    unfolding cmd_def st'_def adm_def by (simp add: do_news_def st1(1) c name Let_def)
  have add: "st' = do_news_add now u ty name r st1" if "adm" "cmd = ''add''" using that by (simp add: st'_def)
  have del: "st' = do_news_del u ty name r st1" if "adm" "cmd = ''del''" using that by (simp add: st'_def)
  have other: "ns_db st' = ns_db st1" if "\<not> adm \<or> cmd \<notin> {''add'', ''del''}"
    using that by (cases adm) (simp_all add: st'_def say_def)
  have idle: "request text = Nothing" if "cmd \<notin> {''add'', ''del''}" using that by (simp add: q)
  consider "\<not> adm \<or> cmd \<notin> {''add'', ''del''}" | "adm" "cmd = ''add''" | "adm" "cmd = ''del''" by blast
  then have "news_ok (ns_db st') \<and> same_but_news (ns_db st1) (ns_db st') \<and> t_news (ns_db st') =
      news_after now (u_nick u) ty (if adm then request text else Nothing) (next_news (ns_db st1)) (t_news (ns_db st1))"
  proof cases
    case 1
    then show ?thesis using ok idle other [OF 1] by (auto simp: same_but_news_def)
  next
    case 2
    then show ?thesis
      using do_news_add_ok [OF ok name] do_news_add_effect [of "text" r] q add [OF 2] by simp
  next
    case 3
    then show ?thesis
      using do_news_del_ok [OF ok] do_news_del_effect [of "text" r] q del [OF 3] by simp
  qed
  then show ?thesis using run st1(2) unfolding adm_def t by blast
qed

text \<open>An administrator deletes the first of two items, and a user without rights adds none.\<close>

definition sample_news :: "news_row list" where
  "sample_news =
     [\<lparr>nw_id = 3, nw_type = NEWS_OPER, nw_text = ''old'', nw_who = ''bob'', nw_time = 1\<rparr>,
      \<lparr>nw_id = 4, nw_type = NEWS_OPER, nw_text = ''new'', nw_who = ''bob'', nw_time = 2\<rparr>]"

definition news_state :: ns_state where
  "news_state = (os_ns sample_os)\<lparr>ns_db := (ns_db (os_ns sample_os))\<lparr>t_news := sample_news, next_news := 5\<rparr>\<rparr>"

lemma news_state_ok:
  "ns_ok news_state" "known (ns_db news_state) u = known (ns_db (os_ns sample_os)) u" "news_ok (ns_db news_state)"
  "t_news (ns_db news_state) = sample_news" "next_news (ns_db news_state) = 5"
  using sample_os_ok(1)
  by (auto simp: news_state_def known_def news_ok_def sample_news_def NEWS_OPER_def NEWS_LOGON_def intro: ns_ok_db)

lemma news_state_admin:
  "admin_of (sample_cs\<lparr>ServicesRoot := ''alice''\<rparr>) (ns_db news_state) (alice\<lparr>u_mode := UMODE_o\<rparr>)"
  "\<not> admin_of (sample_cs\<lparr>ServicesRoot := ''alice''\<rparr>) (ns_db news_state) alice"
proof -
  have "t_nick (ns_db news_state) = t_nick (ns_db (sample_chan NS_IDENTIFIED 0))"
    by (simp add: news_state_def sample_os_def os_ns_def)
  then have "identified (ns_db news_state) (alice\<lparr>u_mode := UMODE_o\<rparr>)"
    by (simp add: sample_chan_db identified_def stat_def alice_def nick_of_def nick.row_def sql_first_def
        has_def NS_IDENTIFIED_def)
  then show "admin_of (sample_cs\<lparr>ServicesRoot := ''alice''\<rparr>) (ns_db news_state) (alice\<lparr>u_mode := UMODE_o\<rparr>)"
    by (simp add: admin_of_def has_def alice_def UMODE_o_def)
  show "\<not> admin_of (sample_cs\<lparr>ServicesRoot := ''alice''\<rparr>) (ns_db news_state) alice"
    by (simp add: admin_of_def alice_def sample_user_def has_def)
qed

theorem do_news_lawful_witness:
  "\<exists>st'. do_news (sample_cs\<lparr>ServicesRoot := ''alice''\<rparr>) 50 (alice\<lparr>u_mode := UMODE_o\<rparr>) NEWS_OPER ''DEL 3'' news_state = Some st' \<and>
     t_news (ns_db st') = tl sample_news"
proof -
  have q: "request ''DEL 3'' = Remove 3" by code_simp
  have k: "known (ns_db news_state) (alice\<lparr>u_mode := UMODE_o\<rparr>)"
    using sample_os_ok(2) by (simp add: news_state_ok(2)) (simp add: known_def alice_def)
  have "news_after 50 who NEWS_OPER (Remove 3) 5 sample_news = tl sample_news" for who
    by (simp add: sample_news_def)
  then show ?thesis
    using do_news_lawful [OF news_state_ok(1) k news_state_ok(3), of NEWS_OPER "sample_cs\<lparr>ServicesRoot := ''alice''\<rparr>" 50 "''DEL 3''"]
      news_state_admin(1) q by (auto simp: news_state_ok(4,5))
qed

text \<open>LOGONNEWS DEL removes an item of the other type by its number.\<close>

lemma news_del_other_type:
  assumes "t_news (ns_db st) = [\<lparr>nw_id = 3, nw_type = NEWS_OPER, nw_text = t, nw_who = w, nw_time = 1\<rparr>]"
  shows "t_news (ns_db (do_news_del u NEWS_LOGON ''LOGON'' ''3'' st)) = []"
proof -
  have "strtok ''3'' '' '' = (Some ''3'', [])" "atoi ''3'' = 3" "strlower ''3'' \<noteq> ''all''" by code_simp+
  then show ?thesis using assms by (simp add: do_news_del_def del_newsitem_def sql_delete_def sql_deleted_def to_uint32_def)
qed

end
