(* ===== verification/Servers.thy ===== *)
theory Servers
  imports NickServ
begin

text \<open>
  The servers of the network (src/src/servers.c).  A record has pointers to its hub, its first child
  and its next sibling; pointers are numbers, and the store has no record for a number that is not
  allocated or has been freed.  The doubly linked list of all servers is a sequence, newest first.
\<close>

record server =
  sv_name :: cstr
  sv_join :: int
  sv_hub :: "nat option"
  sv_child :: "nat option"
  sv_sibling :: "nat option"

type_synonym sstore = "nat \<Rightarrow> server option"

record srv_state =
  sv_heap :: sstore
  sv_list :: "nat list"
  sv_last :: "nat option"
  sv_brk :: nat
  sv_count :: int
  sv_out :: "ns_msg list"

section \<open>Operations\<close>

text \<open>The number of servers is kept in 16 bits.\<close>

definition wrap16 :: "int \<Rightarrow> int" where
  "wrap16 x = (x + 2 ^ 15) mod 2 ^ 16 - 2 ^ 15"

definition new_server :: "cstr \<Rightarrow> srv_state \<Rightarrow> nat \<times> srv_state" where
  "new_server name st =
     (let p = sv_brk st
      in (p, st\<lparr>sv_count := wrap16 (sv_count st + 1),
              sv_heap := (sv_heap st)(p \<mapsto> \<lparr>sv_name = name, sv_join = 0, sv_hub = None, sv_child = None, sv_sibling = None\<rparr>),
              sv_list := p # sv_list st, sv_brk := Suc p\<rparr>))"

definition delete_server :: "nat \<Rightarrow> srv_state \<Rightarrow> srv_state option" where
  "delete_server p st =
     (case sv_heap st p of
        None \<Rightarrow> None
      | Some s \<Rightarrow> Some (st\<lparr>sv_last := if sv_last st = Some p then None else sv_last st,
                         sv_count := wrap16 (sv_count st - 1), sv_heap := (sv_heap st)(p := None),
                         sv_list := remove1 p (sv_list st)\<rparr>))"

fun list_server :: "sstore \<Rightarrow> cstr \<Rightarrow> nat list \<Rightarrow> nat option option" where
  "list_server H name [] = Some None"
| "list_server H name (p # ps) =
     (case H p of
        None \<Rightarrow> None
      | Some s \<Rightarrow> if strlower name = strlower (sv_name s) then Some (Some p) else list_server H name ps)"

definition scan_list :: "cstr \<Rightarrow> srv_state \<Rightarrow> (nat option \<times> srv_state) option" where
  "scan_list name st =
     map_option (\<lambda>r. (r, case r of None \<Rightarrow> st | Some p \<Rightarrow> st\<lparr>sv_last := Some p\<rparr>))
       (list_server (sv_heap st) name (sv_list st))"

definition findserver :: "cstr \<Rightarrow> srv_state \<Rightarrow> (nat option \<times> srv_state) option" where
  "findserver name st =
     (case sv_last st of
        Some p \<Rightarrow>
          (case sv_heap st p of
             None \<Rightarrow> None
           | Some s \<Rightarrow> if strlower name = strlower (sv_name s) then Some (Some p, st) else scan_list name st)
      | None \<Rightarrow> scan_list name st)"

definition set_server :: "nat \<Rightarrow> (server \<Rightarrow> server) \<Rightarrow> srv_state \<Rightarrow> srv_state option" where
  "set_server p f st = map_option (\<lambda>s. st\<lparr>sv_heap := (sv_heap st)(p \<mapsto> f s)\<rparr>) (sv_heap st p)"

text \<open>The loop to the last sibling.\<close>

partial_function (option) last_sibling :: "nat \<Rightarrow> sstore \<Rightarrow> nat option" where
  "last_sibling p H =
     (case H p of
        None \<Rightarrow> None
      | Some s \<Rightarrow> (case sv_sibling s of None \<Rightarrow> Some p | Some q \<Rightarrow> last_sibling q H))"

text \<open>A SERVER command; an empty source is that of our own hub.\<close>

definition link_server :: "cstr \<Rightarrow> cstr \<Rightarrow> nat \<Rightarrow> nat option \<Rightarrow> srv_state \<Rightarrow> srv_state option" where
  "link_server source name p h st =
     do {
       st \<leftarrow> set_server p (\<lambda>s. s\<lparr>sv_hub := h\<rparr>) st;
       case h of
         None \<Rightarrow> Some (st\<lparr>sv_out := sv_out st @ [Wallops ''Could not find server'' [source, name]]\<rparr>)
       | Some h \<Rightarrow> do {
           hs \<leftarrow> sv_heap st h;
           case sv_child hs of
             None \<Rightarrow> set_server h (\<lambda>s. s\<lparr>sv_child := Some p\<rparr>) st
           | Some c \<Rightarrow> do {
               t \<leftarrow> last_sibling c (sv_heap st);
               set_server t (\<lambda>s. s\<lparr>sv_sibling := Some p\<rparr>) st
             }
         }
     }"

definition do_server :: "int \<Rightarrow> cstr \<Rightarrow> cstr \<Rightarrow> srv_state \<Rightarrow> srv_state option" where
  "do_server now source name st =
     (let (p, st) = new_server name st
      in do {
        st \<leftarrow> set_server p (\<lambda>s. s\<lparr>sv_join := now, sv_child := None, sv_sibling := None\<rparr>) st;
        if source = [] then Some (st\<lparr>sv_out := sv_out st @ [Cmd ''SQLINES'' []]\<rparr>)
        else do {
          (h, st) \<leftarrow> findserver source st;
          link_server source name p h st
        }
      })"

text \<open>\<open>recursive_squit\<close>: the loop over a chain of siblings, with the recursion to their children.\<close>

partial_function (option) squit_chain :: "nat option \<Rightarrow> srv_state \<Rightarrow> srv_state option" where
  "squit_chain ptr st =
     (case ptr of
        None \<Rightarrow> Some st
      | Some p \<Rightarrow>
          Option.bind (sv_heap st p) (\<lambda>s.
          Option.bind (if sv_child s \<noteq> None then squit_chain (sv_child s) st else Some st) (\<lambda>st1.
          Option.bind (sv_heap st1 p) (\<lambda>s1.
          Option.bind (delete_server p st1) (\<lambda>st2. squit_chain (sv_sibling s1) st2)))))"

definition recursive_squit :: "nat \<Rightarrow> srv_state \<Rightarrow> srv_state option" where
  "recursive_squit p st = Option.bind (sv_heap st p) (\<lambda>s. squit_chain (sv_child s) st)"

text \<open>The loop that takes a server out of the chain of its siblings.\<close>

partial_function (option) unlink_sibling :: "nat \<Rightarrow> nat \<Rightarrow> nat option \<Rightarrow> srv_state \<Rightarrow> srv_state option" where
  "unlink_sibling t p nxt st =
     (case sv_heap st t of
        None \<Rightarrow> None
      | Some s \<Rightarrow>
          (case sv_sibling s of
             None \<Rightarrow> Some st
           | Some q \<Rightarrow> if q = p then set_server t (\<lambda>s. s\<lparr>sv_sibling := nxt\<rparr>) st else unlink_sibling q p nxt st))"

definition unlink_server :: "nat \<Rightarrow> nat \<Rightarrow> srv_state \<Rightarrow> srv_state option" where
  "unlink_server h p st =
     do {
       hs \<leftarrow> sv_heap st h;
       s \<leftarrow> sv_heap st p;
       case sv_child hs of
         None \<Rightarrow> None
       | Some c \<Rightarrow> if c = p then set_server h (\<lambda>r. r\<lparr>sv_child := sv_sibling s\<rparr>) st
                   else unlink_sibling c p (sv_sibling s) st
     }"

definition do_squit :: "cstr \<Rightarrow> srv_state \<Rightarrow> srv_state option" where
  "do_squit name st =
     do {
       (r, st) \<leftarrow> findserver name st;
       case r of
         None \<Rightarrow> Some (st\<lparr>sv_out := sv_out st @ [Wallops ''Tried to quit non-existent server'' [name]]\<rparr>)
       | Some p \<Rightarrow> do {
           st \<leftarrow> recursive_squit p st;
           s \<leftarrow> sv_heap st p;
           case sv_hub s of
             None \<Rightarrow> Some st
           | Some h \<Rightarrow> do {
               st \<leftarrow> unlink_server h p st;
               delete_server p st
             }
         }
     }"

section \<open>Trees of servers\<close>

datatype stree = Node nat "stree list"

fun ids_of :: "stree list \<Rightarrow> nat list" where
  "ids_of [] = []"
| "ids_of (Node a ts # us) = a # ids_of ts @ ids_of us"

text \<open>A chain of siblings under a hub, in the store.\<close>

fun chain_rep :: "sstore \<Rightarrow> nat option \<Rightarrow> nat option \<Rightarrow> stree list \<Rightarrow> bool" where
  "chain_rep H h p [] = (p = None)"
| "chain_rep H h p (Node a ts # us) =
     (p = Some a \<and>
      (case H a of
         None \<Rightarrow> False
       | Some s \<Rightarrow> sv_hub s = h \<and> chain_rep H (Some a) (sv_child s) ts \<and> chain_rep H h (sv_sibling s) us))"

lemma chain_rep_cong:
  "(\<forall>a\<in>set (ids_of ts). H a = H' a) \<Longrightarrow> chain_rep H h p ts = chain_rep H' h p ts"
  by (induction H h p ts rule: chain_rep.induct) (auto split: option.split)

lemma chain_rep_dom: "chain_rep H h p ts \<Longrightarrow> a \<in> set (ids_of ts) \<Longrightarrow> H a \<noteq> None"
  by (induction H h p ts rule: chain_rep.induct) (auto split: option.splits)

lemma ids_of_append [simp]: "ids_of (ts @ us) = ids_of ts @ ids_of us"
  by (induction ts rule: ids_of.induct) auto

text \<open>The deletion of a chain with all its descendants.\<close>

definition freed :: "nat set \<Rightarrow> srv_state \<Rightarrow> srv_state \<Rightarrow> bool" where
  "freed A st st' \<longleftrightarrow>
     (\<forall>a. sv_heap st' a = (if a \<in> A then None else sv_heap st a)) \<and>
     sv_list st' = filter (\<lambda>a. a \<notin> A) (sv_list st) \<and>
     sv_last st' = (case sv_last st of None \<Rightarrow> None | Some p \<Rightarrow> if p \<in> A then None else Some p) \<and>
     sv_brk st' = sv_brk st \<and> sv_out st' = sv_out st"

lemma freed_refl: "freed {} st st"
  by (simp add: freed_def split: option.split)

lemma freed_trans: "freed A st1 st2 \<Longrightarrow> freed B st2 st3 \<Longrightarrow> freed (A \<union> B) st1 st3"
  by (auto simp: freed_def filter_filter split: option.splits intro!: filter_cong)

lemma delete_server_freed:
  assumes "sv_heap st p = Some s" and "distinct (sv_list st)"
  shows "\<exists>st'. delete_server p st = Some st' \<and> freed {p} st st'"
proof -
  have "remove1 p (sv_list st) = filter (\<lambda>a. a \<notin> {p}) (sv_list st)"
    using assms(2) by (auto simp: distinct_remove1_removeAll removeAll_filter_not_eq intro: filter_cong)
  then show ?thesis using assms(1) by (cases "sv_last st") (auto simp: delete_server_def freed_def)
qed

lemma squit_chain_freed:
  assumes "chain_rep (sv_heap st) h p ts" and "distinct (ids_of ts)" and "distinct (sv_list st)"
  shows "\<exists>st'. squit_chain p st = Some st' \<and> freed (set (ids_of ts)) st st'"
  using assms
proof (induction ts arbitrary: h p st rule: ids_of.induct)
  case 1
  then show ?case by (simp add: squit_chain.simps [of None] freed_refl)
next
  case (2 a ts us)
  obtain s where s: "sv_heap st a = Some s" "chain_rep (sv_heap st) (Some a) (sv_child s) ts"
    "chain_rep (sv_heap st) h (sv_sibling s) us" and p: "p = Some a"
    using "2.prems"(1) by (auto split: option.splits)
  obtain st1 where st1: "squit_chain (sv_child s) st = Some st1" "freed (set (ids_of ts)) st st1"
    using "2.IH"(1) [OF s(2)] "2.prems"(2,3) by auto
  have h1: "sv_heap st1 a = Some s" using st1(2) s(1) "2.prems"(2) by (auto simp: freed_def)
  have d1: "distinct (sv_list st1)" using st1(2) "2.prems"(3) by (simp add: freed_def)
  obtain st2 where st2: "delete_server a st1 = Some st2" "freed {a} st1 st2"
    using delete_server_freed [OF h1 d1] by blast
  have f2: "freed (set (ids_of ts) \<union> {a}) st st2" by (rule freed_trans [OF st1(2) st2(2)])
  have "chain_rep (sv_heap st2) h (sv_sibling s) us"
  proof (rule chain_rep_cong [of us "sv_heap st" "sv_heap st2", THEN iffD1])
    show "\<forall>b\<in>set (ids_of us). sv_heap st b = sv_heap st2 b"
      using f2 "2.prems"(2) by (auto simp: freed_def)
  qed (rule s(3))
  moreover have "distinct (sv_list st2)" using f2 "2.prems"(3) by (simp add: freed_def)
  moreover have "distinct (ids_of us)" using "2.prems"(2) by simp
  ultimately obtain st3 where st3: "squit_chain (sv_sibling s) st2 = Some st3" "freed (set (ids_of us)) st2 st3"
    using "2.IH"(2) [of st2 h "sv_sibling s"] by blast
  have "(if sv_child s \<noteq> None then squit_chain (sv_child s) st else Some st) = Some st1"
    using st1(1) squit_chain.simps [of None] by (cases "sv_child s") auto
  then have "squit_chain p st = Some st3"
    by (subst squit_chain.simps) (simp add: p s(1) h1 st2(1) st3(1))
  moreover have "freed (set (ids_of (Node a ts # us))) st st3"
    using freed_trans [OF f2 st3(2)] by (simp add: insert_commute Un_commute Un_left_commute)
  ultimately show ?case by blast
qed

text \<open>The children of a server in a tree, and the tree in which they are others.\<close>

fun children :: "nat \<Rightarrow> stree list \<Rightarrow> stree list option" where
  "children x [] = None"
| "children x (Node a ts # us) =
     (if a = x then Some ts else case children x ts of None \<Rightarrow> children x us | Some ws \<Rightarrow> Some ws)"

fun with_children :: "nat \<Rightarrow> stree list \<Rightarrow> stree list \<Rightarrow> stree list" where
  "with_children x ws [] = []"
| "with_children x ws (Node a ts # us) =
     Node a (if a = x then ws else with_children x ws ts) # with_children x ws us"

lemma children_ids: "children x ts = Some ws \<Longrightarrow> x \<in> set (ids_of ts) \<and> set (ids_of ws) \<subseteq> set (ids_of ts)"
  by (induction ts rule: ids_of.induct) (auto split: if_splits option.splits)

lemma children_None: "children x ts = None \<longleftrightarrow> x \<notin> set (ids_of ts)"
  by (induction ts rule: ids_of.induct) (auto split: option.splits)

lemma children_distinct:
  "children x ts = Some ws \<Longrightarrow> distinct (ids_of ts) \<Longrightarrow> distinct (ids_of ws) \<and> x \<notin> set (ids_of ws)"
  by (induction ts rule: ids_of.induct) (auto split: if_splits option.splits)

lemma with_children_none: "x \<notin> set (ids_of ts) \<Longrightarrow> with_children x ws ts = ts"
  by (induction ts rule: ids_of.induct) auto

lemma children_rep:
  "chain_rep H h p ts \<Longrightarrow> children x ts = Some ws \<Longrightarrow> \<exists>s. H x = Some s \<and> chain_rep H (Some x) (sv_child s) ws"
  by (induction H h p ts rule: chain_rep.induct) (auto split: if_splits option.splits)

lemma chain_rep_subst:
  assumes "chain_rep H h p ts" and "distinct (ids_of ts)" and "children x ts = Some ws"
    and "\<forall>a\<in>set (ids_of ts). a \<noteq> x \<longrightarrow> a \<notin> set (ids_of ws) \<longrightarrow> H' a = H a"
    and "H x = Some s" and "H' x = Some s'" and "sv_hub s' = sv_hub s" and "sv_sibling s' = sv_sibling s"
    and "chain_rep H' (Some x) (sv_child s') ws'"
  shows "chain_rep H' h p (with_children x ws' ts)"
  using assms(1-4)
proof (induction ts arbitrary: h p rule: ids_of.induct)
  case (2 a ts us)
  have cong: "chain_rep H' h q vs" if "chain_rep H h q vs" "set (ids_of vs) \<subseteq> set (ids_of (Node a ts # us))"
    "x \<notin> set (ids_of vs)" "set (ids_of vs) \<inter> set (ids_of ws) = {}" for h q vs
  proof (rule chain_rep_cong [of vs H H', THEN iffD1])
    show "\<forall>b\<in>set (ids_of vs). H b = H' b" using that "2.prems"(4) by fastforce
  qed (rule that(1))
  obtain r where r: "H a = Some r" "sv_hub r = h" "chain_rep H (Some a) (sv_child r) ts"
    "chain_rep H h (sv_sibling r) us" and p: "p = Some a"
    using "2.prems"(1) by (auto split: option.splits)
  show ?case
  proof (cases "a = x")
    case True
    then have w: "ws = ts" using "2.prems"(3) by simp
    then have "chain_rep H' h (sv_sibling s) us"
      using r(4) True "2.prems"(2) assms(5) r(1) by (intro cong) auto
    then show ?thesis
      using True w p r assms(5-9) "2.prems"(2) by (auto simp: with_children_none)
  next
    case False
    consider (left) "children x ts = Some ws" | (right) "children x ts = None" "children x us = Some ws"
      using "2.prems"(3) False by (auto split: option.splits)
    then show ?thesis
    proof cases
      case left
      note l = children_ids [OF left]
      have "chain_rep H' (Some a) (sv_child r) (with_children x ws' ts)"
        using "2.IH"(1) [OF r(3) _ left] "2.prems"(2,4) by auto
      moreover have "chain_rep H' h (sv_sibling r) us"
        using r(4) l "2.prems"(2) by (intro cong) auto
      moreover have "H' a = H a" using "2.prems"(2,4) False l by auto
      moreover have "x \<notin> set (ids_of us)" using l "2.prems"(2) by auto
      ultimately show ?thesis using False p r(1,2) by (simp add: with_children_none)
    next
      case right
      note l = children_ids [OF right(2)]
      have "chain_rep H' h (sv_sibling r) (with_children x ws' us)"
        using "2.IH"(2) [OF r(4) _ right(2)] "2.prems"(2,4) by auto
      moreover have n: "x \<notin> set (ids_of ts)" using right(1) by (simp add: children_None)
      then have "chain_rep H' (Some a) (sv_child r) ts"
        using r(3) l "2.prems"(2) by (intro cong) auto
      moreover have "H' a = H a" using "2.prems"(2,4) False l by auto
      ultimately show ?thesis using False p r(1,2) n by (simp add: with_children_none)
    qed
  qed
qed simp

fun root_of :: "stree \<Rightarrow> nat" where
  "root_of (Node a ts) = a"

definition tops :: "stree list \<Rightarrow> nat list" where
  "tops ts = map root_of ts"

lemma tops_simps [simp]: "tops [] = []" "tops (Node a ts # us) = a # tops us" "tops (ts @ us) = tops ts @ tops us"
  by (simp_all add: tops_def)

lemma tops_ids: "set (tops ts) \<subseteq> set (ids_of ts)"
  by (induction ts rule: ids_of.induct) auto

lemma last_sibling_chain:
  "chain_rep H h (Some c) (t # ts) \<Longrightarrow> last_sibling c H = Some (root_of (last (t # ts)))"
proof (induction ts arbitrary: c t)
  case Nil
  then obtain ws where t: "t = Node c ws" by (cases t) auto
  then obtain s where "H c = Some s" "sv_sibling s = None" using Nil by (auto split: option.splits)
  then show ?case using t by (subst last_sibling.simps) simp
next
  case (Cons u ts)
  obtain ws where t: "t = Node c ws" using Cons.prems by (cases t) auto
  obtain s where s: "H c = Some s" "chain_rep H h (sv_sibling s) (u # ts)"
    using Cons.prems by (auto simp: t split: option.splits)
  obtain d where d: "sv_sibling s = Some d" using s(2) by (cases u) auto
  then have "last_sibling d H = Some (root_of (last (u # ts)))" using Cons.IH [of d u] s(2) by simp
  then show ?case using s(1) d by (subst last_sibling.simps) simp
qed

text \<open>A new last sibling.\<close>

lemma chain_snoc:
  assumes "chain_rep H h p (ts @ [t])" and "distinct (ids_of (ts @ [t]))" and "H (root_of t) = Some s"
    and "n \<notin> set (ids_of (ts @ [t]))"
    and "H n = Some r" and "sv_hub r = h" "sv_child r = None" "sv_sibling r = None"
  shows "chain_rep (H(root_of t \<mapsto> s\<lparr>sv_sibling := Some n\<rparr>)) h p (ts @ [t, Node n []])"
  using assms(1,2,4)
proof (induction ts arbitrary: p)
  case Nil
  obtain a ws where t: "t = Node a ws" by (cases t)
  define H' where "H' = H(a \<mapsto> s\<lparr>sv_sibling := Some n\<rparr>)"
  have w: "chain_rep H (Some a) (sv_child s) ws" "sv_hub s = h" "p = Some a"
    using Nil assms(3) by (auto simp: t)
  have "chain_rep H' (Some a) (sv_child s) ws"
    using w(1) Nil(2) t by (subst chain_rep_cong [of ws _ H]) (auto simp: H'_def)
  moreover have "H' a = Some (s\<lparr>sv_sibling := Some n\<rparr>)" "H' n = Some r"
    using Nil(3) assms(5) by (simp_all add: H'_def t)
  ultimately have "chain_rep H' h p [t, Node n []]" using w assms(6-8) by (simp add: t)
  then show ?case by (simp only: H'_def t root_of.simps append.simps)
next
  case (Cons u ts)
  obtain b ws where u: "u = Node b ws" by (cases u)
  define H' where "H' = H(root_of t \<mapsto> s\<lparr>sv_sibling := Some n\<rparr>)"
  have rt: "root_of t \<in> set (ids_of [t])" by (cases t) simp
  obtain q where q: "H b = Some q" "sv_hub q = h" "chain_rep H (Some b) (sv_child q) ws"
    "chain_rep H h (sv_sibling q) (ts @ [t])" "p = Some b"
    using Cons.prems(1) by (auto simp: u split: option.splits)
  have "chain_rep H' h (sv_sibling q) (ts @ [t, Node n []])"
    unfolding H'_def using Cons.prems(2,3) by (intro Cons.IH [OF q(4)]) (simp_all add: u)
  moreover have "chain_rep H' (Some b) (sv_child q) ws"
    using q(3) Cons.prems(2) rt by (subst chain_rep_cong [of ws _ H]) (auto simp: H'_def u)
  moreover have "H' b = H b" using Cons.prems(2) rt by (auto simp: H'_def u)
  ultimately have "chain_rep H' h p ((u # ts) @ [t, Node n []])" using q by (simp add: u)
  then show ?case by (simp only: H'_def)
qed

text \<open>A part of a chain, up to a pointer.\<close>

fun seg_rep :: "sstore \<Rightarrow> nat option \<Rightarrow> nat option \<Rightarrow> stree list \<Rightarrow> nat option \<Rightarrow> bool" where
  "seg_rep H h p [] e = (p = e)"
| "seg_rep H h p (Node a ts # us) e =
     (p = Some a \<and>
      (case H a of
         None \<Rightarrow> False
       | Some s \<Rightarrow> sv_hub s = h \<and> chain_rep H (Some a) (sv_child s) ts \<and> seg_rep H h (sv_sibling s) us e))"

lemma chain_split: "chain_rep H h p (xs @ ys) \<longleftrightarrow> (\<exists>e. seg_rep H h p xs e \<and> chain_rep H h e ys)"
  by (induction H h p xs rule: chain_rep.induct) (auto split: option.split)

lemma seg_rep_cong:
  "(\<forall>a\<in>set (ids_of ts). H a = H' a) \<Longrightarrow> seg_rep H h p ts e = seg_rep H' h p ts e"
proof (induction H h p ts e rule: seg_rep.induct)
  case (2 H h p a ts us e)
  then show ?case using chain_rep_cong [of ts H H'] by (auto split: option.split)
qed simp

text \<open>A sibling taken out of the middle of a chain.\<close>

lemma chain_unlink:
  assumes "seg_rep (sv_heap st) h (Some c) (t # ts) (Some p)" and "chain_rep (sv_heap st) h (sv_sibling s) us"
    and "distinct (ids_of (t # ts @ us))" and "p \<notin> set (ids_of (t # ts @ us))" and "sv_heap st p = Some s"
  shows "\<exists>q r H. q \<in> set (tops (t # ts)) \<and> sv_heap st q = Some r \<and>
    H = (sv_heap st)(q \<mapsto> r\<lparr>sv_sibling := sv_sibling s\<rparr>) \<and>
    unlink_sibling c p (sv_sibling s) st = Some (st\<lparr>sv_heap := H\<rparr>) \<and> chain_rep H h (Some c) (t # ts @ us)"
  using assms(1,3,4)
proof (induction ts arbitrary: c t)
  case Nil
  obtain vs where t: "t = Node c vs" using Nil(1) by (cases t) auto
  obtain r where r: "sv_heap st c = Some r" "sv_hub r = h" "chain_rep (sv_heap st) (Some c) (sv_child r) vs"
    "sv_sibling r = Some p"
    using Nil(1) by (auto simp: t split: option.splits)
  define H' where "H' = (sv_heap st)(c \<mapsto> r\<lparr>sv_sibling := sv_sibling s\<rparr>)"
  have "chain_rep H' (Some c) (sv_child r) vs"
    using r(3) Nil(2) by (subst chain_rep_cong [of vs _ "sv_heap st"]) (auto simp: H'_def t)
  moreover have "chain_rep H' h (sv_sibling s) us"
    using assms(2) Nil(2) by (subst chain_rep_cong [of us _ "sv_heap st"]) (auto simp: H'_def t)
  moreover have "unlink_sibling c p (sv_sibling s) st = Some (st\<lparr>sv_heap := H'\<rparr>)"
    using r by (simp add: unlink_sibling.simps [of c] set_server_def H'_def)
  moreover have "H' c = Some (r\<lparr>sv_sibling := sv_sibling s\<rparr>)" by (simp add: H'_def)
  ultimately have "chain_rep H' h (Some c) (t # [] @ us)" "unlink_sibling c p (sv_sibling s) st = Some (st\<lparr>sv_heap := H'\<rparr>)"
    using r by (simp_all add: t)
  moreover have "c \<in> set (tops [t])" by (simp add: t)
  ultimately show ?case using r(1) H'_def by (intro exI [of _ c] exI [of _ r] exI [of _ H'] conjI)
next
  case (Cons u ts)
  obtain vs where t: "t = Node c vs" using Cons.prems(1) by (cases t) auto
  obtain b xs where u: "u = Node b xs" by (cases u)
  obtain r where r: "sv_heap st c = Some r" "sv_hub r = h" "chain_rep (sv_heap st) (Some c) (sv_child r) vs"
    "sv_sibling r = Some b" "seg_rep (sv_heap st) h (Some b) (u # ts) (Some p)"
    using Cons.prems(1) by (auto simp: t u split: option.splits)
  have d: "distinct (ids_of (u # ts @ us))" "p \<notin> set (ids_of (u # ts @ us))"
    using Cons.prems(2,3) by (simp_all add: t)
  obtain q r2 H' where q: "q \<in> set (tops (u # ts))" "sv_heap st q = Some r2"
    and H'_def: "H' = (sv_heap st)(q \<mapsto> r2\<lparr>sv_sibling := sv_sibling s\<rparr>)"
    and q': "unlink_sibling b p (sv_sibling s) st = Some (st\<lparr>sv_heap := H'\<rparr>)" "chain_rep H' h (Some b) (u # ts @ us)"
    using Cons.IH [OF r(5) d] by blast
  have qin: "q \<in> set (ids_of (u # ts))" using q(1) tops_ids by blast
  then have qn: "q \<notin> insert c (set (ids_of vs))" using Cons.prems(2) by (auto simp: t u)
  have "chain_rep H' (Some c) (sv_child r) vs"
    using r(3) qn by (subst chain_rep_cong [of vs _ "sv_heap st"]) (auto simp: H'_def)
  moreover have "H' c = Some r" using r(1) qn by (simp add: H'_def)
  ultimately have "chain_rep H' h (Some c) (t # (u # ts) @ us)" using r q'(2) by (simp add: t)
  moreover have "b \<noteq> p" using Cons.prems(3) by (auto simp: t u)
  then have "unlink_sibling c p (sv_sibling s) st = Some (st\<lparr>sv_heap := H'\<rparr>)"
    using r q'(1) by (simp add: unlink_sibling.simps [of c])
  moreover have "q \<in> set (tops (t # u # ts))" using q(1) by (simp add: tops_def)
  ultimately have "q \<in> set (tops (t # u # ts)) \<and> sv_heap st q = Some r2 \<and>
      H' = (sv_heap st)(q \<mapsto> r2\<lparr>sv_sibling := sv_sibling s\<rparr>) \<and>
      unlink_sibling c p (sv_sibling s) st = Some (st\<lparr>sv_heap := H'\<rparr>) \<and> chain_rep H' h (Some c) (t # (u # ts) @ us)"
    using q(2) H'_def by (intro conjI)
  then show ?case by blast
qed

section \<open>The network as a forest\<close>

definition roots_rep :: "sstore \<Rightarrow> stree list \<Rightarrow> bool" where
  "roots_rep H ts \<longleftrightarrow> (\<forall>t\<in>set ts. chain_rep H None (Some (root_of t)) [t])"

definition servers_ok :: "srv_state \<Rightarrow> stree list \<Rightarrow> bool" where
  "servers_ok st ts \<longleftrightarrow>
     roots_rep (sv_heap st) ts \<and> distinct (ids_of ts) \<and> set (sv_list st) = set (ids_of ts) \<and> distinct (sv_list st) \<and>
     (\<forall>a. sv_heap st a \<noteq> None \<longleftrightarrow> a \<in> set (ids_of ts)) \<and> (\<forall>a\<in>set (ids_of ts). a < sv_brk st) \<and>
     (case sv_last st of None \<Rightarrow> True | Some p \<Rightarrow> p \<in> set (ids_of ts))"

lemma ids_of_Cons: "ids_of (t # ts) = ids_of [t] @ ids_of ts"
  by (cases t) simp

lemma with_children_Cons: "with_children x ws (t # ts) = with_children x ws [t] @ with_children x ws ts"
  by (cases t) simp

lemma children_Cons: "children x (t # ts) = (case children x [t] of None \<Rightarrow> children x ts | Some ws \<Rightarrow> Some ws)"
  by (cases t) (auto split: option.split)

lemma roots_rep_cong: "(\<forall>a\<in>set (ids_of ts). H a = H' a) \<Longrightarrow> roots_rep H ts = roots_rep H' ts"
proof (induction ts)
  case (Cons t ts)
  have "\<forall>a\<in>set (ids_of [t]). H a = H' a" "\<forall>a\<in>set (ids_of ts). H a = H' a"
    using Cons.prems ids_of_Cons [of t ts] by auto
  then show ?case
    using Cons.IH chain_rep_cong [of "[t]" H H'] by (simp add: roots_rep_def)
qed (simp add: roots_rep_def)

lemma roots_rep_Cons: "roots_rep H (t # ts) \<longleftrightarrow> chain_rep H None (Some (root_of t)) [t] \<and> roots_rep H ts"
  by (simp add: roots_rep_def)

lemma roots_children_rep:
  "roots_rep H ts \<Longrightarrow> children x ts = Some ws \<Longrightarrow> \<exists>s. H x = Some s \<and> chain_rep H (Some x) (sv_child s) ws"
proof (induction ts)
  case (Cons t ts)
  then show ?case
    using children_rep [of H None "Some (root_of t)" "[t]" x ws] children_Cons [of x t ts]
    by (auto simp: roots_rep_Cons split: option.splits)
qed simp

lemma roots_rep_subst:
  assumes "roots_rep H ts" and "distinct (ids_of ts)" and "children x ts = Some ws"
    and "\<forall>a\<in>set (ids_of ts). a \<noteq> x \<longrightarrow> a \<notin> set (ids_of ws) \<longrightarrow> H' a = H a"
    and "H x = Some s" and "H' x = Some s'" and "sv_hub s' = sv_hub s" and "sv_sibling s' = sv_sibling s"
    and "chain_rep H' (Some x) (sv_child s') ws'"
  shows "roots_rep H' (with_children x ws' ts)"
  using assms(1-4)
proof (induction ts)
  case (Cons t ts)
  have d: "distinct (ids_of [t])" "distinct (ids_of ts)" "set (ids_of [t]) \<inter> set (ids_of ts) = {}"
    and agree: "\<forall>a\<in>set (ids_of [t]) \<union> set (ids_of ts). a \<noteq> x \<longrightarrow> a \<notin> set (ids_of ws) \<longrightarrow> H' a = H a"
    using Cons.prems(2,4) ids_of_Cons [of t ts] by auto
  obtain b us where t: "t = Node b us" by (cases t)
  have r: "chain_rep H None (Some b) [t]" "roots_rep H ts" using Cons.prems(1) by (simp_all add: roots_rep_Cons t)
  show ?case
  proof (cases "children x [t]")
    case None
    then have ts: "children x ts = Some ws" and n: "x \<notin> set (ids_of [t])"
      using Cons.prems(3) children_Cons [of x t ts] None children_None by auto
    note l = children_ids [OF ts]
    have "\<forall>a\<in>set (ids_of [t]). H a = H' a"
    proof
      fix a assume a: "a \<in> set (ids_of [t])"
      then have "a \<noteq> x" "a \<notin> set (ids_of ws)" using n l d(3) by blast+
      then show "H a = H' a" using agree a by simp
    qed
    then have "chain_rep H' None (Some b) [t]" using r(1) chain_rep_cong by blast
    moreover have "roots_rep H' (with_children x ws' ts)" using Cons.IH [OF r(2) d(2) ts] agree by auto
    ultimately show ?thesis
      using with_children_none [OF n] by (simp add: with_children_Cons [of x ws' t] roots_rep_Cons t)
  next
    case (Some vs)
    then have ws: "children x [t] = Some ws" using Cons.prems(3) children_Cons [of x t ts] by simp
    note l = children_ids [OF ws]
    have "chain_rep H' None (Some b) (with_children x ws' [t])"
      using chain_rep_subst [OF r(1) d(1) ws _ assms(5-9)] agree by auto
    moreover have "\<forall>a\<in>set (ids_of ts). H a = H' a"
    proof
      fix a assume a: "a \<in> set (ids_of ts)"
      then have "a \<noteq> x" "a \<notin> set (ids_of ws)" using l d(3) by blast+
      then show "H a = H' a" using agree a by simp
    qed
    then have "roots_rep H' ts" using r(2) roots_rep_cong by blast
    moreover have "x \<notin> set (ids_of ts)" using l d(3) by auto
    ultimately show ?thesis
      by (simp add: with_children_Cons [of x ws' t] roots_rep_Cons with_children_none t)
  qed
qed (simp add: roots_rep_def)

section \<open>Finding a server\<close>

definition named :: "srv_state \<Rightarrow> cstr \<Rightarrow> nat \<Rightarrow> bool" where
  "named st name p \<longleftrightarrow> (case sv_heap st p of None \<Rightarrow> False | Some s \<Rightarrow> strlower (sv_name s) = strlower name)"

lemma list_server_ok:
  assumes "\<forall>p\<in>set ps. H p \<noteq> None"
  shows "\<exists>r. list_server H name ps = Some r \<and>
    (case r of
       None \<Rightarrow> \<forall>p\<in>set ps. \<forall>s. H p = Some s \<longrightarrow> strlower (sv_name s) \<noteq> strlower name
     | Some p \<Rightarrow> p \<in> set ps \<and> (\<exists>s. H p = Some s \<and> strlower (sv_name s) = strlower name))"
  using assms
proof (induction ps)
  case (Cons p ps)
  then obtain s where s: "H p = Some s" by auto
  show ?case
  proof (cases "strlower name = strlower (sv_name s)")
    case True
    then show ?thesis using s by (auto intro!: exI [of _ "Some p"])
  next
    case False
    obtain r where r: "list_server H name ps = Some r"
      "case r of
         None \<Rightarrow> \<forall>p\<in>set ps. \<forall>s. H p = Some s \<longrightarrow> strlower (sv_name s) \<noteq> strlower name
       | Some p \<Rightarrow> p \<in> set ps \<and> (\<exists>s. H p = Some s \<and> strlower (sv_name s) = strlower name)"
      using Cons by auto
    then show ?thesis using s False by (auto intro!: exI [of _ r] split: option.splits)
  qed
qed auto

lemma servers_heap: "servers_ok st ts \<Longrightarrow> p \<in> set (ids_of ts) \<Longrightarrow> \<exists>s. sv_heap st p = Some s"
  unfolding servers_ok_def by (metis option.exhaust)

lemma findserver_ok:
  assumes "servers_ok st ts"
  shows "\<exists>r l. findserver name st = Some (r, st\<lparr>sv_last := l\<rparr>) \<and> servers_ok (st\<lparr>sv_last := l\<rparr>) ts \<and>
    (case r of None \<Rightarrow> \<forall>p. \<not> named st name p | Some p \<Rightarrow> p \<in> set (ids_of ts) \<and> named st name p)"
proof -
  have ps: "\<forall>p\<in>set (sv_list st). sv_heap st p \<noteq> None" and all: "\<And>p. sv_heap st p \<noteq> None \<longleftrightarrow> p \<in> set (sv_list st)"
    using assms by (simp_all add: servers_ok_def)
  obtain r where r: "list_server (sv_heap st) name (sv_list st) = Some r"
    "case r of
       None \<Rightarrow> \<forall>p\<in>set (sv_list st). \<forall>s. sv_heap st p = Some s \<longrightarrow> strlower (sv_name s) \<noteq> strlower name
     | Some p \<Rightarrow> p \<in> set (sv_list st) \<and> (\<exists>s. sv_heap st p = Some s \<and> strlower (sv_name s) = strlower name)"
    using list_server_ok [OF ps, of name] by blast
  have found: "case r of None \<Rightarrow> \<forall>p. \<not> named st name p | Some p \<Rightarrow> p \<in> set (ids_of ts) \<and> named st name p"
  proof (cases r)
    case None
    have "\<not> named st name p" for p
    proof (cases "sv_heap st p")
      case (Some s)
      then have "p \<in> set (sv_list st)" using all by auto
      then show ?thesis using r(2) None Some by (simp add: named_def)
    qed (simp add: named_def)
    then show ?thesis using None by simp
  next
    case (Some p)
    have "set (sv_list st) = set (ids_of ts)" using assms by (simp add: servers_ok_def)
    then show ?thesis using r(2) Some by (auto simp: named_def)
  qed
  define l where "l = (case r of None \<Rightarrow> sv_last st | Some p \<Rightarrow> Some p)"
  have scan: "scan_list name st = Some (r, st\<lparr>sv_last := l\<rparr>)"
    using r(1) by (auto simp: scan_list_def l_def split: option.split)
  have ok: "servers_ok (st\<lparr>sv_last := l\<rparr>) ts"
    using assms found by (auto simp: servers_ok_def l_def split: option.splits)
  show ?thesis
  proof (cases "sv_last st")
    case None
    then have "findserver name st = scan_list name st" by (simp add: findserver_def)
    then show ?thesis using scan ok found by (intro exI [of _ r] exI [of _ l]) simp
  next
    case (Some p)
    then have p: "p \<in> set (ids_of ts)" using assms by (simp add: servers_ok_def)
    then obtain s where s: "sv_heap st p = Some s" using servers_heap [OF assms] by blast
    show ?thesis
    proof (cases "strlower name = strlower (sv_name s)")
      case True
      then have "findserver name st = Some (Some p, st)" using Some s by (simp add: findserver_def)
      moreover have "st\<lparr>sv_last := sv_last st\<rparr> = st" by simp
      moreover have "named st name p" using s True by (simp add: named_def)
      ultimately show ?thesis
        using assms p by (intro exI [of _ "Some p"] exI [of _ "sv_last st"]) simp
    next
      case False
      then have "findserver name st = scan_list name st" using Some s by (simp add: findserver_def)
      then show ?thesis using scan ok found by (intro exI [of _ r] exI [of _ l]) simp
    qed
  qed
qed

section \<open>A new server\<close>

lemma ids_with_children:
  "distinct (ids_of ts) \<Longrightarrow> children x ts = Some ws \<Longrightarrow>
   set (ids_of (with_children x ws' ts)) = set (ids_of ts) - set (ids_of ws) \<union> set (ids_of ws')"
proof (induction ts rule: ids_of.induct)
  case (2 a ts us)
  show ?case
  proof (cases "a = x")
    case True
    then show ?thesis using 2 by (auto simp: with_children_none)
  next
    case False
    show ?thesis
    proof (cases "children x ts")
      case None
      then have n: "x \<notin> set (ids_of ts)" "children x us = Some ws"
        using "2.prems"(2) False children_None [of x ts] by auto
      have "set (ids_of ws) \<subseteq> set (ids_of us)" using children_ids [OF n(2)] by simp
      then show ?thesis using 2 False None n by (auto simp: with_children_none)
    next
      case (Some vs)
      then have w: "children x ts = Some ws" using 2 False by simp
      note l = children_ids [OF w]
      have "x \<notin> set (ids_of us)" using l "2.prems"(1) by auto
      then show ?thesis using 2 False w l by (auto simp: with_children_none)
    qed
  qed
qed simp

lemma distinct_with_children:
  "distinct (ids_of ts) \<Longrightarrow> children x ts = Some ws \<Longrightarrow> distinct (ids_of ws') \<Longrightarrow>
   set (ids_of ws') \<inter> (set (ids_of ts) - set (ids_of ws)) = {} \<Longrightarrow> distinct (ids_of (with_children x ws' ts))"
proof (induction ts rule: ids_of.induct)
  case (2 a ts us)
  show ?case
  proof (cases "a = x")
    case True
    then show ?thesis using 2 by (auto simp: with_children_none)
  next
    case False
    show ?thesis
    proof (cases "children x ts")
      case None
      then have n: "x \<notin> set (ids_of ts)" "children x us = Some ws"
        using "2.prems"(2) False children_None [of x ts] by auto
      have l: "set (ids_of ws) \<subseteq> set (ids_of us)" using children_ids [OF n(2)] by simp
      have "distinct (ids_of (with_children x ws' us))" using 2 n l by auto
      moreover have "set (ids_of (with_children x ws' us)) = set (ids_of us) - set (ids_of ws) \<union> set (ids_of ws')"
        using ids_with_children [of us x ws ws'] n(2) "2.prems"(1) by simp
      ultimately show ?thesis using "2.prems" False n l by (auto simp: with_children_none)
    next
      case (Some vs)
      then have w: "children x ts = Some ws" using 2 False by simp
      note l = children_ids [OF w]
      have x: "x \<notin> set (ids_of us)" using l "2.prems"(1) by auto
      have "distinct (ids_of (with_children x ws' ts))" using 2 w l by auto
      moreover have "set (ids_of (with_children x ws' ts)) = set (ids_of ts) - set (ids_of ws) \<union> set (ids_of ws')"
        using ids_with_children [of ts x ws ws'] w "2.prems"(1) by simp
      ultimately show ?thesis using "2.prems" False x l by (auto simp: with_children_none)
    qed
  qed
qed simp

lemma last_sibling_attach:
  assumes "chain_rep (sv_heap st) h (Some c) (t # ts)" and "distinct (ids_of (t # ts))"
    and "n \<notin> set (ids_of (t # ts))" and "sv_heap st n = Some r" "sv_hub r = h" "sv_child r = None" "sv_sibling r = None"
  shows "\<exists>q s H. q \<in> set (tops (t # ts)) \<and> sv_heap st q = Some s \<and>
    H = (sv_heap st)(q \<mapsto> s\<lparr>sv_sibling := Some n\<rparr>) \<and>
    Option.bind (last_sibling c (sv_heap st)) (\<lambda>q. set_server q (\<lambda>s. s\<lparr>sv_sibling := Some n\<rparr>) st) =
      Some (st\<lparr>sv_heap := H\<rparr>) \<and>
    chain_rep H h (Some c) (t # ts @ [Node n []])"
proof -
  obtain xs y where xs: "t # ts = xs @ [y]" by (metis append_butlast_last_id list.distinct(1))
  define q where "q = root_of y"
  have l: "last_sibling c (sv_heap st) = Some q" using last_sibling_chain [OF assms(1)] by (simp add: xs q_def)
  have "q \<in> set (ids_of (t # ts))" unfolding xs by (cases y) (simp add: q_def)
  then obtain s where s: "sv_heap st q = Some s" using chain_rep_dom [OF assms(1)] by blast
  define H where "H = (sv_heap st)(q \<mapsto> s\<lparr>sv_sibling := Some n\<rparr>)"
  have "chain_rep H h (Some c) (xs @ [y, Node n []])"
    unfolding H_def q_def
    using assms s by (intro chain_snoc) (simp_all add: xs q_def)
  then have "chain_rep H h (Some c) (t # ts @ [Node n []])" using xs by (metis append.assoc append_Cons append_Nil)
  moreover have "set_server q (\<lambda>s. s\<lparr>sv_sibling := Some n\<rparr>) st = Some (st\<lparr>sv_heap := H\<rparr>)"
    using s by (simp add: set_server_def H_def)
  moreover have "q \<in> set (tops (t # ts))" unfolding xs by (simp add: tops_def q_def)
  ultimately show ?thesis using l s H_def by (intro exI [of _ q] exI [of _ s] exI [of _ H] conjI) simp_all
qed

lemma root_added:
  assumes "servers_ok st ts"
  shows "servers_ok (st\<lparr>sv_count := k, sv_heap := (sv_heap st)(sv_brk st \<mapsto> \<lparr>sv_name = name, sv_join = now, sv_hub = None,
      sv_child = None, sv_sibling = None\<rparr>), sv_list := sv_brk st # sv_list st, sv_brk := Suc (sv_brk st)\<rparr>)
    (Node (sv_brk st) [] # ts)"
proof -
  have n: "sv_brk st \<notin> set (ids_of ts)" using assms by (auto simp: servers_ok_def)
  define H where "H = (sv_heap st)(sv_brk st \<mapsto> \<lparr>sv_name = name, sv_join = now, sv_hub = None,
      sv_child = None, sv_sibling = None\<rparr>)"
  have "\<forall>a\<in>set (ids_of ts). sv_heap st a = H a" using n by (auto simp: H_def)
  then have "roots_rep H ts" using roots_rep_cong assms by (metis servers_ok_def)
  moreover have "H (sv_brk st) = Some \<lparr>sv_name = name, sv_join = now, sv_hub = None, sv_child = None, sv_sibling = None\<rparr>"
    by (simp add: H_def)
  ultimately have "roots_rep H (Node (sv_brk st) [] # ts)" by (simp add: roots_rep_Cons)
  moreover have "\<forall>a. H a \<noteq> None \<longleftrightarrow> a \<in> set (ids_of (Node (sv_brk st) [] # ts))"
    using assms by (auto simp: H_def servers_ok_def)
  ultimately show ?thesis unfolding H_def [symmetric]
    using assms n by (auto simp: servers_ok_def split: option.splits)
qed

lemma servers_okI:
  assumes "servers_ok st ts" and "children h ts = Some ws" and "roots_rep H (with_children h ws' ts)"
    and "distinct (ids_of ws')" and "set (ids_of ws') \<inter> (set (ids_of ts) - set (ids_of ws)) = {}"
    and "set l = set (ids_of ts) - set (ids_of ws) \<union> set (ids_of ws')" and "distinct l"
    and "\<forall>a. H a \<noteq> None \<longleftrightarrow> a \<in> set l" and "\<forall>a\<in>set l. a < b"
    and "case lastp of None \<Rightarrow> True | Some p \<Rightarrow> p \<in> set l"
  shows "servers_ok \<lparr>sv_heap = H, sv_list = l, sv_last = lastp, sv_brk = b, sv_count = k, sv_out = out\<rparr> (with_children h ws' ts)"
proof -
  have d: "distinct (ids_of ts)" using assms(1) by (simp add: servers_ok_def)
  note s = ids_with_children [OF d assms(2), of ws'] distinct_with_children [OF d assms(2,4,5)]
  have "set l = set (ids_of (with_children h ws' ts))" using s(1) assms(6) by simp
  then show ?thesis using assms(3,7-10) s(2) unfolding servers_ok_def by (cases lastp) simp_all
qed

lemma do_server_linked:
  assumes ok: "servers_ok st ts" and new: "n \<notin> set (ids_of ts)" and h: "children h ts = Some ws"
    and st1: "sv_heap st1 = (sv_heap st)(n \<mapsto> r)" and r: "sv_hub r = Some h" "sv_child r = None" "sv_sibling r = None"
  shows "\<exists>H. Option.bind (sv_heap st1 h) (\<lambda>hs. case sv_child hs of
                None \<Rightarrow> set_server h (\<lambda>s. s\<lparr>sv_child := Some n\<rparr>) st1
              | Some c \<Rightarrow> Option.bind (last_sibling c (sv_heap st1)) (\<lambda>t. set_server t (\<lambda>s. s\<lparr>sv_sibling := Some n\<rparr>) st1)) =
      Some (st1\<lparr>sv_heap := H\<rparr>) \<and>
    roots_rep H (with_children h (ws @ [Node n []]) ts) \<and> (\<forall>a. H a \<noteq> None \<longleftrightarrow> a = n \<or> sv_heap st a \<noteq> None)"
proof -
  have d: "distinct (ids_of ts)" and rr: "roots_rep (sv_heap st) ts" using ok by (simp_all add: servers_ok_def)
  note ids = children_ids [OF h] children_distinct [OF h d]
  obtain s where s: "sv_heap st h = Some s" "chain_rep (sv_heap st) (Some h) (sv_child s) ws"
    using roots_children_rep [OF rr h] by blast
  have hn: "h \<noteq> n" using ids(1) new by auto
  have nw: "n \<notin> set (ids_of ws)" using ids(1) new by auto
  have s1: "sv_heap st1 h = Some s" "sv_heap st1 n = Some r" using s(1) hn by (simp_all add: st1)
  have w1: "chain_rep (sv_heap st1) (Some h) (sv_child s) ws"
    using s(2) nw by (subst chain_rep_cong [of ws _ "sv_heap st"]) (auto simp: st1)
  show ?thesis
  proof (cases "sv_child s")
    case None
    then have ws: "ws = []" using s(2) by (cases ws rule: ids_of.cases) auto
    define s' where "s' = s\<lparr>sv_child := Some n\<rparr>"
    define H where "H = (sv_heap st1)(h \<mapsto> s')"
    have H: "H h = Some s'" "H n = Some r" using s1 hn by (simp_all add: H_def)
    have "chain_rep H (Some h) (sv_child s') (ws @ [Node n []])"
      using H r by (simp add: ws s'_def)
    moreover have "\<forall>a\<in>set (ids_of ts). a \<noteq> h \<longrightarrow> a \<notin> set (ids_of ws) \<longrightarrow> H a = sv_heap st a"
      using new by (auto simp: H_def st1)
    ultimately have "roots_rep H (with_children h (ws @ [Node n []]) ts)"
      using roots_rep_subst [of "sv_heap st" ts h ws H s s'] rr d h s(1) H(1) by (simp add: s'_def)
    moreover have "set_server h (\<lambda>s. s\<lparr>sv_child := Some n\<rparr>) st1 = Some (st1\<lparr>sv_heap := H\<rparr>)"
      using s1 by (simp add: set_server_def H_def s'_def)
    moreover have "\<forall>a. H a \<noteq> None \<longleftrightarrow> a = n \<or> sv_heap st a \<noteq> None" using s(1) by (auto simp: H_def st1)
    ultimately show ?thesis using s1 None by (intro exI [of _ H]) simp
  next
    case (Some c)
    then obtain t us where ws: "ws = t # us" using s(2) by (cases ws) auto
    obtain q sq H where q: "q \<in> set (tops ws)" "sv_heap st1 q = Some sq"
      and H: "H = (sv_heap st1)(q \<mapsto> sq\<lparr>sv_sibling := Some n\<rparr>)"
      and run: "Option.bind (last_sibling c (sv_heap st1)) (\<lambda>q. set_server q (\<lambda>s. s\<lparr>sv_sibling := Some n\<rparr>) st1) =
        Some (st1\<lparr>sv_heap := H\<rparr>)"
      and chain: "chain_rep H (Some h) (Some c) (t # us @ [Node n []])"
      using last_sibling_attach [of st1 "Some h" c t us n r] w1 Some ids nw s1(2) r unfolding ws by metis
    have qw: "q \<in> set (ids_of ws)" using q(1) tops_ids by blast
    have Hh: "H h = Some s" using s1(1) qw ids(2) by (auto simp: H)
    have "\<forall>a\<in>set (ids_of ts). a \<noteq> h \<longrightarrow> a \<notin> set (ids_of ws) \<longrightarrow> H a = sv_heap st a"
      using new qw by (auto simp: H st1)
    moreover have "chain_rep H (Some h) (sv_child s) (ws @ [Node n []])" using chain Some by (simp add: ws)
    ultimately have "roots_rep H (with_children h (ws @ [Node n []]) ts)"
      using roots_rep_subst [of "sv_heap st" ts h ws H s s] rr d h s(1) Hh by simp
    moreover have "q \<noteq> n" using qw nw by auto
    then have "\<forall>a. H a \<noteq> None \<longleftrightarrow> a = n \<or> sv_heap st a \<noteq> None" using q(2) by (auto simp: H st1)
    ultimately show ?thesis using s1 Some run by (intro exI [of _ H]) simp
  qed
qed

text \<open>
  C33: a SERVER command with a name other than its source puts the server below the last child of its
  hub; the server of an empty or unknown source is a tree of its own.
\<close>

theorem do_server_correct:
  assumes ok: "servers_ok st ts" and other: "strlower source \<noteq> strlower name"
  shows "\<exists>st'. do_server now source name st = Some st' \<and>
    (if source = [] \<or> (\<forall>p. \<not> named st source p) then servers_ok st' (Node (sv_brk st) [] # ts)
     else \<exists>h ws. named st source h \<and> children h ts = Some ws \<and>
       servers_ok st' (with_children h (ws @ [Node (sv_brk st) []]) ts))"
proof -
  define n where "n = sv_brk st"
  have new: "n \<notin> set (ids_of ts)" using ok by (auto simp: servers_ok_def n_def)
  define r where "r = \<lparr>sv_name = name, sv_join = now, sv_hub = None, sv_child = None, sv_sibling = None\<rparr>"
  define st1 where "st1 = st\<lparr>sv_count := wrap16 (sv_count st + 1), sv_list := n # sv_list st, sv_brk := Suc n,
      sv_heap := (sv_heap st)(n \<mapsto> r)\<rparr>"
  have ok1: "servers_ok st1 (Node n [] # ts)"
    using root_added [OF ok, where k = "wrap16 (sv_count st + 1)" and name = name and now = now] by (simp add: st1_def r_def n_def servers_ok_def)
  have run: "do_server now source name st =
      (if source = [] then Some (st1\<lparr>sv_out := sv_out st1 @ [Cmd ''SQLINES'' []]\<rparr>)
       else Option.bind (findserver source st1) (\<lambda>(h, st). link_server source name n h st))"
    by (simp add: do_server_def new_server_def Let_def set_server_def st1_def n_def r_def)
  have names: "named st1 source p \<longleftrightarrow> named st source p" for p
    using other new ok by (auto simp: named_def st1_def r_def n_def servers_ok_def)
  show ?thesis
  proof (cases "source = []")
    case True
    then show ?thesis using run ok1 by (auto simp: servers_ok_def n_def)
  next
    case False
    obtain h l where h: "findserver source st1 = Some (h, st1\<lparr>sv_last := l\<rparr>)" "servers_ok (st1\<lparr>sv_last := l\<rparr>) (Node n [] # ts)"
      "case h of None \<Rightarrow> \<forall>p. \<not> named st1 source p | Some p \<Rightarrow> p \<in> set (ids_of (Node n [] # ts)) \<and> named st1 source p"
      using findserver_ok [OF ok1, of source] by blast
    show ?thesis
    proof (cases h)
      case None
      have "set_server n (\<lambda>s. s\<lparr>sv_hub := None\<rparr>) (st1\<lparr>sv_last := l\<rparr>) = Some (st1\<lparr>sv_last := l\<rparr>)"
        by (simp add: set_server_def st1_def r_def)
      then show ?thesis using run h False None names
        by (auto simp: link_server_def servers_ok_def n_def)
    next
      case (Some x)
      have "x \<noteq> n" using h(3) Some other by (auto simp: named_def st1_def r_def)
      then have x: "x \<in> set (ids_of ts)" "named st source x" using h(3) Some names by auto
      then obtain ws where ws: "children x ts = Some ws" using children_None [of x ts] by auto
      define st2 where "st2 = st1\<lparr>sv_last := l, sv_heap := (sv_heap st)(n \<mapsto> r\<lparr>sv_hub := Some x\<rparr>)\<rparr>"
      have s2: "set_server n (\<lambda>s. s\<lparr>sv_hub := Some x\<rparr>) (st1\<lparr>sv_last := l\<rparr>) = Some st2"
        by (simp add: set_server_def st1_def st2_def)
      have e: "link_server source name n (Some x) (st1\<lparr>sv_last := l\<rparr>) = Option.bind (sv_heap st2 x) (\<lambda>hs. case sv_child hs of
                None \<Rightarrow> set_server x (\<lambda>s. s\<lparr>sv_child := Some n\<rparr>) st2
              | Some c \<Rightarrow> Option.bind (last_sibling c (sv_heap st2)) (\<lambda>t. set_server t (\<lambda>s. s\<lparr>sv_sibling := Some n\<rparr>) st2))"
        by (simp add: link_server_def s2)
      have heap2: "sv_heap st2 = (sv_heap st)(n \<mapsto> r\<lparr>sv_hub := Some x\<rparr>)" by (simp add: st2_def)
      have r2: "sv_hub (r\<lparr>sv_hub := Some x\<rparr>) = Some x" "sv_child (r\<lparr>sv_hub := Some x\<rparr>) = None"
        "sv_sibling (r\<lparr>sv_hub := Some x\<rparr>) = None"
        by (simp_all add: r_def)
      obtain H where H: "link_server source name n (Some x) (st1\<lparr>sv_last := l\<rparr>) = Some (st2\<lparr>sv_heap := H\<rparr>)"
        "roots_rep H (with_children x (ws @ [Node n []]) ts)" "\<forall>a. H a \<noteq> None \<longleftrightarrow> a = n \<or> sv_heap st a \<noteq> None"
        using do_server_linked [OF ok new ws heap2 r2] unfolding e by blast
      have ids: "x \<in> set (ids_of ts)" "set (ids_of ws) \<subseteq> set (ids_of ts)" "distinct (ids_of ws)"
        using children_ids [OF ws] children_distinct [OF ws] ok by (auto simp: servers_ok_def)
      have "servers_ok (st2\<lparr>sv_heap := H\<rparr>) (with_children x (ws @ [Node n []]) ts)"
      proof -
        have f: "sv_list (st2\<lparr>sv_heap := H\<rparr>) = n # sv_list st" "sv_last (st2\<lparr>sv_heap := H\<rparr>) = l"
          "sv_brk (st2\<lparr>sv_heap := H\<rparr>) = Suc n" "sv_heap (st2\<lparr>sv_heap := H\<rparr>) = H"
          by (simp_all add: st2_def st1_def)
        have sl: "set (sv_list st) = set (ids_of ts)" "distinct (sv_list st)"
          "\<forall>a. sv_heap st a \<noteq> None \<longleftrightarrow> a \<in> set (ids_of ts)" "\<forall>a\<in>set (ids_of ts). a < n"
          using ok by (simp_all add: servers_ok_def n_def)
        have ll: "case l of None \<Rightarrow> True | Some p \<Rightarrow> p = n \<or> p \<in> set (ids_of ts)"
          using h(2) by (auto simp: servers_ok_def split: option.splits)
        have "servers_ok \<lparr>sv_heap = H, sv_list = n # sv_list st, sv_last = l, sv_brk = Suc n, sv_count = k, sv_out = out\<rparr>
            (with_children x (ws @ [Node n []]) ts)" for k out
        proof (rule servers_okI [OF ok ws H(2)])
          show "set (n # sv_list st) = set (ids_of ts) - set (ids_of ws) \<union> set (ids_of (ws @ [Node n []]))"
            using sl(1) ids(2) by auto
          show "set (ids_of (ws @ [Node n []])) \<inter> (set (ids_of ts) - set (ids_of ws)) = {}"
            using new by auto
          show "\<forall>a. H a \<noteq> None \<longleftrightarrow> a \<in> set (n # sv_list st)" using H(3) sl(1,3) by simp
        qed (use sl ll new ids in \<open>auto simp: less_Suc_eq split: option.splits\<close>)
        then show ?thesis using f by (simp add: servers_ok_def)
      qed
      then show ?thesis using run h(1) False Some H(1) x(2) ws by (auto simp: n_def)
    qed
  qed
qed

section \<open>A server that is lost\<close>

lemma tops_split: "x \<in> set (tops ws) \<Longrightarrow> \<exists>xs us ys. ws = xs @ Node x us # ys"
proof (induction ws)
  case (Cons t ws)
  obtain a vs where t: "t = Node a vs" by (cases t)
  show ?case
  proof (cases "x = a")
    case True
    then show ?thesis using t by (metis append_Nil)
  next
    case False
    then obtain xs us ys where "ws = xs @ Node x us # ys" using Cons t by auto
    then show ?thesis by (metis append_Cons)
  qed
qed simp

lemma hub_of:
  assumes "distinct (ids_of ts)" and "x \<in> set (ids_of ts)" and "x \<notin> set (tops ts)"
  shows "\<exists>y ws. children y ts = Some ws \<and> x \<in> set (tops ws)"
  using assms
proof (induction ts rule: ids_of.induct)
  case (2 a ts us)
  show ?case
  proof (cases "x \<in> set (ids_of ts)")
    case True
    show ?thesis
    proof (cases "x \<in> set (tops ts)")
      case True
      then show ?thesis by (intro exI [of _ a] exI [of _ ts]) simp
    next
      case False
      then obtain y ws where y: "children y ts = Some ws" "x \<in> set (tops ws)" using 2 True by auto
      then have "a \<noteq> y" using children_ids [OF y(1)] "2.prems"(1) by auto
      then show ?thesis using y by (intro exI [of _ y] exI [of _ ws]) simp
    qed
  next
    case False
    then obtain y ws where y: "children y us = Some ws" "x \<in> set (tops ws)" using 2 by auto
    then have "y \<in> set (ids_of us)" using children_ids by blast
    then have "a \<noteq> y" "children y ts = None" using "2.prems"(1) children_None [of y ts] by auto
    then show ?thesis using y by (intro exI [of _ y] exI [of _ ws]) simp
  qed
qed simp

lemma unlink_server_ok:
  assumes ch: "seg_rep (sv_heap st) (Some y) (sv_child sy) xs (Some x)" "chain_rep (sv_heap st) (Some y) (sv_sibling s) ys"
    and d: "distinct (ids_of (xs @ ys))" "x \<notin> set (ids_of (xs @ ys))" "y \<notin> set (ids_of (xs @ ys))" "x \<noteq> y"
    and s: "sv_heap st x = Some s" "sv_heap st y = Some sy"
  shows "\<exists>H sy'. unlink_server y x st = Some (st\<lparr>sv_heap := H\<rparr>) \<and> H y = Some sy' \<and> sv_hub sy' = sv_hub sy \<and>
    sv_sibling sy' = sv_sibling sy \<and> H x = Some s \<and> chain_rep H (Some y) (sv_child sy') (xs @ ys) \<and>
    (\<forall>a. a \<noteq> y \<longrightarrow> a \<notin> set (ids_of xs) \<longrightarrow> H a = sv_heap st a) \<and> (\<forall>a. H a \<noteq> None \<longleftrightarrow> sv_heap st a \<noteq> None)"
proof (cases xs)
  case Nil
  define sy' where "sy' = sy\<lparr>sv_child := sv_sibling s\<rparr>"
  define H where "H = (sv_heap st)(y \<mapsto> sy')"
  have c: "sv_child sy = Some x" using ch(1) Nil by simp
  have "chain_rep H (Some y) (sv_sibling s) ys"
    using ch(2) d(3) Nil by (subst chain_rep_cong [of ys _ "sv_heap st"]) (auto simp: H_def)
  moreover have "unlink_server y x st = Some (st\<lparr>sv_heap := H\<rparr>)"
    using s c by (simp add: unlink_server_def set_server_def H_def sy'_def)
  moreover have "H y = Some sy'" "H x = Some s" "\<forall>a. a \<noteq> y \<longrightarrow> H a = sv_heap st a" using s(1) d(4) by (auto simp: H_def)
  moreover have "\<forall>a. H a \<noteq> None \<longleftrightarrow> sv_heap st a \<noteq> None" using s(2) by (auto simp: H_def)
  ultimately show ?thesis using Nil by (intro exI [of _ H] exI [of _ sy']) (simp add: sy'_def)
next
  case (Cons t ts)
  obtain c vs where t: "t = Node c vs" by (cases t)
  have c: "sv_child sy = Some c" "c \<noteq> x" using ch(1) d(2) Cons t by auto
  obtain q r H where q: "q \<in> set (tops (t # ts))" "sv_heap st q = Some r"
    and H: "H = (sv_heap st)(q \<mapsto> r\<lparr>sv_sibling := sv_sibling s\<rparr>)"
    and run: "unlink_sibling c x (sv_sibling s) st = Some (st\<lparr>sv_heap := H\<rparr>)" "chain_rep H (Some y) (Some c) (t # ts @ ys)"
    using chain_unlink [of st "Some y" c t ts x s ys] ch c d s(1) Cons by auto
  have qx: "q \<in> set (ids_of xs)" using q(1) tops_ids Cons by blast
  then have n: "q \<noteq> x" "q \<noteq> y" using d(2,3) by auto
  have "unlink_server y x st = Some (st\<lparr>sv_heap := H\<rparr>)" using s c run(1) by (simp add: unlink_server_def)
  moreover have "H y = Some sy" "H x = Some s" "\<forall>a. a \<noteq> y \<longrightarrow> a \<notin> set (ids_of xs) \<longrightarrow> H a = sv_heap st a"
    "\<forall>a. H a \<noteq> None \<longleftrightarrow> sv_heap st a \<noteq> None"
    using s n qx q(2) by (auto simp: H)
  moreover have "chain_rep H (Some y) (sv_child sy) (xs @ ys)" using run(2) c Cons by simp
  ultimately show ?thesis by blast
qed

text \<open>
  C34: a SQUIT of a server that has a hub returns, and takes the server and all servers behind it, and
  only those, out of the tree, the list and the store; the recursion over the pointers ends, and no
  freed server is looked at.  An unknown name changes nothing.
\<close>

theorem do_squit_correct:
  assumes ok: "servers_ok st ts" and inner: "\<forall>p. named st name p \<longrightarrow> p \<notin> set (tops ts)"
  shows "\<exists>st'. do_squit name st = Some st' \<and>
    (if \<forall>p. \<not> named st name p then servers_ok st' ts
     else \<exists>x y xs us ys. named st name x \<and> children y ts = Some (xs @ Node x us # ys) \<and>
       servers_ok st' (with_children y (xs @ ys) ts))"
proof -
  have d: "distinct (ids_of ts)" and rr: "roots_rep (sv_heap st) ts"
    and list: "set (sv_list st) = set (ids_of ts)" "distinct (sv_list st)"
    and dom: "\<And>a. sv_heap st a \<noteq> None \<longleftrightarrow> a \<in> set (ids_of ts)" and brk: "\<forall>a\<in>set (ids_of ts). a < sv_brk st"
    using ok by (simp_all add: servers_ok_def)
  obtain r l where r: "findserver name st = Some (r, st\<lparr>sv_last := l\<rparr>)" "servers_ok (st\<lparr>sv_last := l\<rparr>) ts"
    "case r of None \<Rightarrow> \<forall>p. \<not> named st name p | Some p \<Rightarrow> p \<in> set (ids_of ts) \<and> named st name p"
    using findserver_ok [OF ok, of name] by blast
  define st1 where "st1 = st\<lparr>sv_last := l\<rparr>"
  show ?thesis
  proof (cases r)
    case None
    then show ?thesis using r by (auto simp: do_squit_def servers_ok_def)
  next
    case (Some x)
    have x: "x \<in> set (ids_of ts)" "named st name x" "x \<notin> set (tops ts)" using r(3) Some inner by auto
    obtain y ws where y: "children y ts = Some ws" "x \<in> set (tops ws)" using hub_of [OF d x(1,3)] by blast
    obtain xs us ys where ws: "ws = xs @ Node x us # ys" using tops_split [OF y(2)] by blast
    obtain sy where sy: "sv_heap st y = Some sy" "chain_rep (sv_heap st) (Some y) (sv_child sy) ws"
      using roots_children_rep [OF rr y(1)] by blast
    have dw: "distinct (ids_of ws)" "y \<notin> set (ids_of ws)" using children_distinct [OF y(1) d] by simp_all
    note cy = children_ids [OF y(1)]
    obtain s where s: "sv_heap st x = Some s" "sv_hub s = Some y" "chain_rep (sv_heap st) (Some x) (sv_child s) us"
      "chain_rep (sv_heap st) (Some y) (sv_sibling s) ys" "seg_rep (sv_heap st) (Some y) (sv_child sy) xs (Some x)"
      using sy(2) unfolding ws chain_split by (auto split: option.splits)
    have u: "distinct (ids_of us)" "x \<notin> set (ids_of us)" "y \<notin> set (ids_of us)" "x \<noteq> y"
      "set (ids_of us) \<inter> set (ids_of (xs @ ys)) = {}" "x \<notin> set (ids_of (xs @ ys))" "y \<notin> set (ids_of (xs @ ys))"
      "distinct (ids_of (xs @ ys))"
      using dw by (auto simp: ws)
    obtain st2 where st2: "squit_chain (sv_child s) st1 = Some st2" "freed (set (ids_of us)) st1 st2"
      using squit_chain_freed [of st1 "Some x" "sv_child s" us] s(3) u(1) list(2) by (auto simp: st1_def)
    have h2: "sv_heap st2 a = (if a \<in> set (ids_of us) then None else sv_heap st a)" for a
      using st2(2) by (simp add: freed_def st1_def)
    have rec: "recursive_squit x st1 = Some st2" using s(1) st2(1) by (simp add: recursive_squit_def st1_def)
    have seg2: "seg_rep (sv_heap st2) (Some y) (sv_child sy) xs (Some x)"
      using s(5) u(5) by (subst seg_rep_cong [of xs _ "sv_heap st"]) (auto simp: h2)
    have sib2: "chain_rep (sv_heap st2) (Some y) (sv_sibling s) ys"
      using s(4) u(5) by (subst chain_rep_cong [of ys _ "sv_heap st"]) (auto simp: h2)
    have s2: "sv_heap st2 x = Some s" "sv_heap st2 y = Some sy" using s(1) sy(1) u by (simp_all add: h2)
    obtain H sy' where H: "unlink_server y x st2 = Some (st2\<lparr>sv_heap := H\<rparr>)" "H y = Some sy'" "sv_hub sy' = sv_hub sy"
      "sv_sibling sy' = sv_sibling sy" "H x = Some s" "chain_rep H (Some y) (sv_child sy') (xs @ ys)"
      "\<forall>a. a \<noteq> y \<longrightarrow> a \<notin> set (ids_of xs) \<longrightarrow> H a = sv_heap st2 a" "\<forall>a. H a \<noteq> None \<longleftrightarrow> sv_heap st2 a \<noteq> None"
      using unlink_server_ok [OF seg2 sib2 u(8,6,7,4) s2] by blast
    define st3 where "st3 = st2\<lparr>sv_heap := H\<rparr>"
    have "distinct (sv_list st3)" using st2(2) list(2) by (simp add: freed_def st3_def st1_def)
    then obtain st4 where st4: "delete_server x st3 = Some st4" "freed {x} st3 st4"
      using delete_server_freed [of st3 x s] H(5) by (auto simp: st3_def)
    have run: "do_squit name st = Some st4"
      using r(1) Some rec s2(1) s(2) H(1) st4(1) by (simp add: do_squit_def st1_def st3_def)
    have h4: "sv_heap st4 a = (if a = x then None else H a)" for a using st4(2) by (auto simp: freed_def st3_def)
    have "chain_rep (sv_heap st4) (Some y) (sv_child sy') (xs @ ys)"
      using H(6) u(6) by (subst chain_rep_cong [of "xs @ ys" _ H]) (auto simp: h4)
    moreover have "sv_heap st4 y = Some sy'" using H(2) u(4) by (simp add: h4)
    moreover have "\<forall>a\<in>set (ids_of ts). a \<noteq> y \<longrightarrow> a \<notin> set (ids_of ws) \<longrightarrow> sv_heap st4 a = sv_heap st a"
      using H(7) by (auto simp: h4 h2 ws)
    ultimately have rep: "roots_rep (sv_heap st4) (with_children y (xs @ ys) ts)"
      using roots_rep_subst [of "sv_heap st" ts y ws "sv_heap st4" sy sy' "xs @ ys"] rr d y(1) sy(1) H(3,4) by simp
    define k where "k = sv_count st4"
    define out where "out = sv_out st4"
    have gone: "set (ids_of ts) - insert x (set (ids_of us)) = set (ids_of ts) - set (ids_of ws) \<union> set (ids_of (xs @ ys))"
      using cy dw by (auto simp: ws)
    have l4: "sv_list st4 = filter (\<lambda>a. a \<notin> {x}) (filter (\<lambda>a. a \<notin> set (ids_of us)) (sv_list st))"
      "sv_brk st4 = sv_brk st" using st2(2) st4(2) by (simp_all add: freed_def st3_def st1_def)
    then have sl: "set (sv_list st4) = set (ids_of ts) - insert x (set (ids_of us))" "distinct (sv_list st4)"
      using list by auto
    have ll: "case sv_last st4 of None \<Rightarrow> True | Some p \<Rightarrow> p \<in> set (sv_list st4)"
      using st2(2) st4(2) r(2) unfolding sl by (auto simp: freed_def st3_def st1_def servers_ok_def split: option.splits if_splits)
    have "servers_ok \<lparr>sv_heap = sv_heap st4, sv_list = sv_list st4, sv_last = sv_last st4, sv_brk = sv_brk st4,
        sv_count = k, sv_out = out\<rparr> (with_children y (xs @ ys) ts)"
    proof (rule servers_okI [OF ok y(1) rep u(8) _ _ sl(2)])
      show "set (ids_of (xs @ ys)) \<inter> (set (ids_of ts) - set (ids_of ws)) = {}" by (auto simp: ws)
      show "set (sv_list st4) = set (ids_of ts) - set (ids_of ws) \<union> set (ids_of (xs @ ys))" using sl(1) gone by simp
      show "\<forall>a. sv_heap st4 a \<noteq> None \<longleftrightarrow> a \<in> set (sv_list st4)"
        using H(8) dom by (auto simp: h4 h2 sl(1))
      show "\<forall>a\<in>set (sv_list st4). a < sv_brk st4" using brk list(1) by (simp add: sl(1) l4)
    qed (rule ll)
    then have "servers_ok st4 (with_children y (xs @ ys) ts)" by (simp add: servers_ok_def)
    moreover have "children y ts = Some (xs @ Node x us # ys)" using y(1) ws by simp
    moreover have "\<not> (\<forall>p. \<not> named st name p)" using x(2) by blast
    ultimately show ?thesis using run x(2) by (simp only: if_False) blast
  qed
qed

text \<open>Our own hub is not deleted, and keeps the pointer to its first child, which is freed.\<close>

definition sample_servers :: srv_state where
  "sample_servers =
     \<lparr>sv_heap = [0 \<mapsto> \<lparr>sv_name = ''hub'', sv_join = 1, sv_hub = None, sv_child = Some 1, sv_sibling = None\<rparr>,
                 1 \<mapsto> \<lparr>sv_name = ''leaf'', sv_join = 2, sv_hub = Some 0, sv_child = Some 2, sv_sibling = Some 3\<rparr>,
                 2 \<mapsto> \<lparr>sv_name = ''deep'', sv_join = 3, sv_hub = Some 1, sv_child = None, sv_sibling = None\<rparr>,
                 3 \<mapsto> \<lparr>sv_name = ''other'', sv_join = 4, sv_hub = Some 0, sv_child = None, sv_sibling = None\<rparr>],
      sv_list = [3, 2, 1, 0], sv_last = None, sv_brk = 4, sv_count = 4, sv_out = []\<rparr>"

lemma sample_servers_ok: "servers_ok sample_servers [Node 0 [Node 1 [Node 2 []], Node 3 []]]"
  by (auto simp: servers_ok_def sample_servers_def roots_rep_def)

lemma sample_named: "named sample_servers ''leaf'' p \<longleftrightarrow> p = 1" "named sample_servers ''hub'' p \<longleftrightarrow> p = 0"
proof -
  have l: "strlower ''leaf'' = ''leaf''" "strlower ''hub'' = ''hub''" "strlower ''deep'' = ''deep''" "strlower ''other'' = ''other''"
    by code_simp+
  show "named sample_servers ''leaf'' p \<longleftrightarrow> p = 1" "named sample_servers ''hub'' p \<longleftrightarrow> p = 0"
    unfolding named_def sample_servers_def by (auto simp only: l srv_state.select_convs server.select_convs split: option.splits)
       (auto simp: l split: if_splits)
qed

theorem do_server_correct_witness:
  "\<exists>st'. do_server 9 ''leaf'' ''new'' sample_servers = Some st' \<and>
     servers_ok st' [Node 0 [Node 1 [Node 2 [], Node 4 []], Node 3 []]]"
proof -
  have "strlower ''leaf'' \<noteq> strlower ''new''" by code_simp
  moreover have "sv_brk sample_servers = 4" by (simp add: sample_servers_def)
  ultimately show ?thesis
    using do_server_correct [OF sample_servers_ok, of "''leaf''" "''new''" 9] by (auto simp: sample_named)
qed

theorem do_squit_correct_witness:
  "\<exists>st'. do_squit ''leaf'' sample_servers = Some st' \<and> servers_ok st' [Node 0 [Node 3 []]]"
proof -
  obtain st' x y xs us ys where st': "do_squit ''leaf'' sample_servers = Some st'" "x = 1"
    "children y [Node 0 [Node 1 [Node 2 []], Node 3 []]] = Some (xs @ Node x us # ys)"
    "servers_ok st' (with_children y (xs @ ys) [Node 0 [Node 1 [Node 2 []], Node 3 []]])"
    using do_squit_correct [OF sample_servers_ok, of "''leaf''"] by (auto simp: sample_named)
  have "y = 0 \<and> xs = [] \<and> ys = [Node 3 []]"
    using st'(2,3) by (auto simp: Cons_eq_append_conv split: if_splits)
  then show ?thesis using st'(1,4) by auto
qed

lemma squit_our_hub:
  "Option.is_none (Option.bind (do_squit ''hub'' sample_servers) (do_server 9 ''hub'' ''new''))"
proof -
  have l: "strlower ''leaf'' = ''leaf''" "strlower ''hub'' = ''hub''" "strlower ''deep'' = ''deep''" "strlower ''other'' = ''other''"
    by code_simp+
  show ?thesis
    by (simp add: do_squit_def findserver_def scan_list_def sample_servers_def recursive_squit_def
        squit_chain.simps [of None] squit_chain.simps [of "Some p" for p] delete_server_def l
        do_server_def new_server_def set_server_def link_server_def last_sibling.simps [of "Suc 0"])
qed

end
