(* ===== verification/UserOps.thy ===== *)
theory UserOps
  imports Sessions News Servers
begin

text \<open>
  What the server tells about users (src/src/users.c, and m_nick of src/src/messages.c): arrivals,
  changes of nickname, departures, joining and leaving channels, and modes of users.

  \<open>n_stat\<close> is the table stat.  The list \<open>chans\<close> of a user has pointers to channels; such a pointer is the name of the channel,
  and following it needs a channel of that name in the table.  Records of users are numbered in the
  order of their allocation.
\<close>

record netcfg =
  k_ns :: nscfg
  k_cs :: cscfg
  k_os :: oscfg
  LogMaxUsers :: bool
  WallOper :: bool
  k_address :: int

record net_state =
  n_os :: os_state
  n_srv :: srv_state
  n_usercnt :: int
  n_opcnt :: int
  n_maxusercnt :: int
  n_maxusertime :: int
  n_stat :: "cstr \<Rightarrow> int option"
  n_next :: nat

definition net_cs :: "net_state \<Rightarrow> cs_state" where
  "net_cs n = os_cs (n_os n)"

definition with_cs :: "cs_state \<Rightarrow> net_state \<Rightarrow> net_state" where
  "with_cs cs n = n\<lparr>n_os := (n_os n)\<lparr>os_cs := cs\<rparr>\<rparr>"

definition net_ns :: "net_state \<Rightarrow> ns_state" where
  "net_ns n = cs_ns (net_cs n)"

definition with_nick :: "ns_state \<Rightarrow> net_state \<Rightarrow> net_state" where
  "with_nick ns n = with_cs ((net_cs n)\<lparr>cs_ns := ns\<rparr>) n"

definition net_say :: "ns_msg \<Rightarrow> net_state \<Rightarrow> net_state" where
  "net_say m n = with_nick (say m (net_ns n)) n"

definition set_users :: "(userlist \<Rightarrow> userlist) \<Rightarrow> ns_state \<Rightarrow> ns_state" where
  "set_users f ns = ns\<lparr>ns_users := f (ns_users ns)\<rparr>"

abbreviation cs_users :: "cs_state \<Rightarrow> userlist" where
  "cs_users cs \<equiv> ns_users (cs_ns cs)"

section \<open>Records of users\<close>

text \<open>The nickname a user is registered under: the one the user has, and the one it is a link to.\<close>

definition master_id :: "sqldb \<Rightarrow> nat \<Rightarrow> nat" where
  "master_id db i = (if i = 0 then 0 else mysql_getlink db i)"

definition fresh_user :: "sqldb \<Rightarrow> nat \<Rightarrow> cstr \<Rightarrow> user" where
  "fresh_user db i nick =
     \<lparr>u_uid = i, u_nick = take (NICKMAX - 1) nick, u_nick_id = master_id db (mysql_findnick db nick),
      u_real_id = mysql_findnick db nick, u_server = None, u_username = [], u_host = [], u_realname = [],
      u_services_stamp = 0, u_signon = 0, u_my_signon = 0, u_mode = 0, u_chans = [], u_founder_chans = [],
      u_invalid_pw_count = 0, u_invalid_pw_time = 0, u_lastmemosend = 0\<rparr>"

definition new_user :: "netcfg \<Rightarrow> int \<Rightarrow> cstr \<Rightarrow> net_state \<Rightarrow> nat \<times> net_state" where
  "new_user cfg now nick n =
     (let i = n_next n;
          n = with_nick (set_users (user_link (fresh_user (ns_db (net_ns n)) i nick)) (net_ns n)) n;
          n = n\<lparr>n_next := Suc i, n_usercnt := n_usercnt n + 1\<rparr>
      in (i, if n_usercnt n > n_maxusercnt n
             then (let n = n\<lparr>n_maxusercnt := n_usercnt n, n_maxusertime := now\<rparr>;
                       n = n\<lparr>n_stat := (n_stat n)(''maxusercnt'' \<mapsto> n_maxusercnt n, ''maxusertime'' \<mapsto> n_maxusertime n)\<rparr>
                   in if LogMaxUsers cfg
                      then net_say (Wallops ''New maximum user count'' [show_int (n_maxusercnt n)]) n else n)
             else n))"

text \<open>
  \<open>change_user_nick\<close>: without a real change the status of the nickname linked to is given to the
  nickname.
\<close>

definition renamed :: "sqldb \<Rightarrow> cstr \<Rightarrow> user \<Rightarrow> user" where
  "renamed db nick u =
     u\<lparr>u_nick := take (NICKMAX - 1) nick, u_real_id := mysql_findnick db nick,
       u_nick_id := master_id db (mysql_findnick db nick)\<rparr>"

definition change_user_nick :: "int \<Rightarrow> user \<Rightarrow> cstr \<Rightarrow> bool \<Rightarrow> ns_state \<Rightarrow> ns_state option" where
  "change_user_nick now u nick ni_changed ns =
     (let i = mysql_findnick (ns_db ns) nick;
          ul = user_link (renamed (ns_db ns) nick u) (user_unlink u (ns_users ns))
      in do {
        ns \<leftarrow> (if i \<noteq> 0 \<and> \<not> ni_changed
               then do { (s, ns) \<leftarrow> get_nick_status now (u_nick_id u) ns; set_nick_status s now i ns }
               else Some ns);
        Some (ns\<lparr>ns_users := ul\<rparr>)
      })"

section \<open>Leaving channels\<close>

text \<open>The loop over the list of channels of a user who leaves them all.\<close>

fun leave_chans :: "int \<Rightarrow> nat \<Rightarrow> cstr list \<Rightarrow> cs_state \<Rightarrow> cs_state option" where
  "leave_chans now i [] cs = Some cs"
| "leave_chans now i (p # ps) cs =
     (case findchan (cs_chans cs) p of
        None \<Rightarrow> None
      | Some c \<Rightarrow> leave_chans now i ps (chan_deluser now i c cs))"

definition set_chans :: "nat \<Rightarrow> (cstr list \<Rightarrow> cstr list) \<Rightarrow> cs_state \<Rightarrow> cs_state" where
  "set_chans i f cs = cs\<lparr>cs_ns := set_users (user_set (\<lambda>u. u\<lparr>u_chans := f (u_chans u)\<rparr>) i) (cs_ns cs)\<rparr>"

text \<open>The search of the list for a channel; it reads the names of the channels before it.\<close>

fun find_entry :: "chanlist \<Rightarrow> cstr \<Rightarrow> cstr list \<Rightarrow> (cstr \<times> channel) option option" where
  "find_entry cl name [] = Some None"
| "find_entry cl name (p # ps) =
     (case findchan cl p of
        None \<Rightarrow> None
      | Some c \<Rightarrow> if strlower name = strlower (c_name c) then Some (Some (p, c)) else find_entry cl name ps)"

definition leave_one :: "int \<Rightarrow> user \<Rightarrow> cstr \<Rightarrow> cs_state \<Rightarrow> cs_state option" where
  "leave_one now u name cs =
     (case find_entry (cs_chans cs) name (u_chans u) of
        None \<Rightarrow> None
      | Some None \<Rightarrow> Some cs
      | Some (Some (p, c)) \<Rightarrow> Some (set_chans (u_uid u) (remove1 p) (chan_deluser now (u_uid u) c cs)))"

definition delete_user :: "netcfg \<Rightarrow> int \<Rightarrow> user \<Rightarrow> net_state \<Rightarrow> net_state option" where
  "delete_user cfg now u n =
     (let n = n\<lparr>n_usercnt := n_usercnt n - 1,
               n_opcnt := if has (u_mode u) UMODE_o then n_opcnt n - 1 else n_opcnt n\<rparr>
      in do {
        ns \<leftarrow> cancel_user (k_ns cfg) now u (net_ns n);
        cs \<leftarrow> leave_chans now (u_uid u) (u_chans u) ((net_cs n)\<lparr>cs_ns := ns\<rparr>);
        Some (with_cs (cs\<lparr>cs_ns := set_users (user_unlink u) (cs_ns cs)\<rparr>) n)
      })"

section \<open>NICK\<close>

definition nick_settled :: "netcfg \<Rightarrow> int \<Rightarrow> nat \<Rightarrow> cstr \<Rightarrow> bool \<Rightarrow> net_state \<Rightarrow> net_state option" where
  "nick_settled cfg now i nick ni_changed n =
     do {
       u \<leftarrow> user_at (ns_users (net_ns n)) i;
       ns \<leftarrow> (if ni_changed
              then do {
                (ok, ns) \<leftarrow> validate_user (k_ns cfg) now u (net_ns n);
                Some (if ok then say (CheckMemos i) ns else ns)
              }
              else map_option snd (check_on_access now u (net_ns n)));
       (idd, ns) \<leftarrow> nick_identified now u ns;
       Some (with_nick
         (if idd
          then (let ns = (if \<not> ni_changed \<and> u_real_id u \<noteq> 0 \<and> u_real_id u \<noteq> u_nick_id u
                          then mysql_update_last_seen now u 0 ns else ns)
                in set_users (user_set (\<lambda>u. u\<lparr>u_mode := u_mode u OR UMODE_r\<rparr>) i) (say (SvsMode nick '':+Rr'') ns))
          else ns) n)
     }"

text \<open>A new user: the parameters are nickname, signon time, username, host, server and real name.\<close>

definition do_nick_new ::
  "netcfg \<Rightarrow> int \<Rightarrow> cstr \<Rightarrow> cstr \<Rightarrow> cstr \<Rightarrow> cstr \<Rightarrow> cstr \<Rightarrow> cstr \<Rightarrow> net_state \<Rightarrow> (bool \<times> net_state) option" where
  "do_nick_new cfg now nick signon username host server realname n =
     (let (bad, os) = check_akill (k_os cfg) nick username host (n_os n);
          n = n\<lparr>n_os := os\<rparr>
      in if bad then Some (False, n)
         else do {
           (ok, os) \<leftarrow> (if LimitSessions (k_os cfg) then add_session (k_os cfg) now nick host (n_os n) else Some (True, n_os n));
           let n = n\<lparr>n_os := os\<rparr>;
           if \<not> ok then Some (False, n)
           else do {
             let (i, n) = new_user cfg now nick n;
             (srv, ss) \<leftarrow> findserver server (n_srv n);
             let n = with_nick (set_users (user_set (\<lambda>u. u\<lparr>u_signon := fst (strtol signon), u_username := username, u_host := host,
                        u_server := srv, u_realname := realname, u_my_signon := now\<rparr>) i) (net_ns n)) (n\<lparr>n_srv := ss\<rparr>);
             u \<leftarrow> user_at (ns_users (net_ns n)) i;
             let n = with_nick (display_news u NEWS_LOGON (net_ns n)) n;
             n \<leftarrow> nick_settled cfg now i nick True n;
             Some (True, n)
           }
         })"

definition do_nick_change :: "netcfg \<Rightarrow> int \<Rightarrow> cstr \<Rightarrow> cstr \<Rightarrow> net_state \<Rightarrow> (bool \<times> net_state) option" where
  "do_nick_change cfg now source nick n =
     (case finduser (ns_users (net_ns n)) source of
        None \<Rightarrow> Some (False, n)
      | Some u \<Rightarrow>
          (let ni_changed = (irc_stricmp nick source \<noteq> 0);
               f = (\<lambda>v :: user. if ni_changed then v\<lparr>u_my_signon := now\<rparr> else v);
               ns = set_users (user_set f (u_uid u)) (net_ns n);
               u = f u
           in do {
             ns \<leftarrow> cancel_user (k_ns cfg) now u ns;
             ns \<leftarrow> change_user_nick now u nick ni_changed ns;
             n \<leftarrow> nick_settled cfg now (u_uid u) nick ni_changed (with_nick ns n);
             Some (True, n)
           }))"

section \<open>JOIN and SJOIN\<close>

text \<open>The pieces of a list, as the loops around strcspn cut it: there is none behind a last separator.\<close>

fun pieces :: "char \<Rightarrow> cstr \<Rightarrow> cstr list" where
  "pieces d [] = []"
| "pieces d (c # cs) =
     (let s = takeWhile (\<lambda>x. x \<noteq> d) (c # cs) in s # pieces d (drop (Suc (length s)) (c # cs)))"

definition display_entry_message :: "user \<Rightarrow> nat \<Rightarrow> ns_state \<Rightarrow> ns_state" where
  "display_entry_message u i ns =
     (if i = 0 then ns
      else (case filter (\<lambda>r. cr_id r = i \<and> cr_entry_message r \<noteq> []) (t_channel (ns_db ns)) of
              [] \<Rightarrow> ns
            | r # _ \<Rightarrow> say (NoticeText (u_nick u) (''['' @ cr_name r @ ''] '' @ cr_entry_message r)) ns))"

text \<open>
  A user enters a channel, the part that JOIN and SJOIN share; the result is whether the user was let
  in.  The pointer to the channel is stored in the user's list; a null pointer is followed at the next
  walk over the list.
\<close>

definition enter_channel :: "cscfg \<Rightarrow> int \<Rightarrow> nat \<Rightarrow> cstr \<Rightarrow> cs_state \<Rightarrow> (bool \<times> cs_state) option" where
  "enter_channel cfg now i name cs =
     do {
       u \<leftarrow> user_at (cs_users cs) i;
       (kicked, cs) \<leftarrow> check_kick cfg now u name cs;
       if kicked then Some (False, cs)
       else do {
         cs \<leftarrow> chan_adduser cfg now u name cs;
         let k = mysql_findchan (ns_db (cs_ns cs)) name;
         let ns = (if k \<noteq> 0
                   then say (CheckChanMemos i k)
                          (if now - start_time cfg \<ge> 10 then display_entry_message u k (cs_ns cs) else cs_ns cs)
                   else cs_ns cs);
         let cs = cs\<lparr>cs_ns := ns\<rparr>;
         c \<leftarrow> findchan (cs_chans cs) name;
         Some (True, set_chans i (Cons (c_name c)) cs)
       }
     }"

definition join_piece :: "cscfg \<Rightarrow> int \<Rightarrow> nat \<Rightarrow> cstr \<Rightarrow> cs_state \<Rightarrow> cs_state option" where
  "join_piece cfg now i name cs =
     (if hd0 name = CHR ''0''
      then do {
        u \<leftarrow> user_at (cs_users cs) i;
        cs \<leftarrow> leave_chans now i (u_chans u) cs;
        Some (set_chans i (\<lambda>_. []) cs)
      }
      else map_option snd (enter_channel cfg now i name cs))"

fun join_loop :: "cscfg \<Rightarrow> int \<Rightarrow> nat \<Rightarrow> cstr list \<Rightarrow> cs_state \<Rightarrow> cs_state option" where
  "join_loop cfg now i [] cs = Some cs"
| "join_loop cfg now i (s # ss) cs = do { cs \<leftarrow> join_piece cfg now i s cs; join_loop cfg now i ss cs }"

definition do_join :: "cscfg \<Rightarrow> int \<Rightarrow> cstr \<Rightarrow> cstr \<Rightarrow> cs_state \<Rightarrow> cs_state option" where
  "do_join cfg now source chans cs =
     (case finduser (cs_users cs) source of
        None \<Rightarrow> Some cs
      | Some u \<Rightarrow> join_loop cfg now (u_uid u) (pieces (CHR '','') chans) cs)"

text \<open>
  The modes in front of a nickname go into a buffer of four bytes: with more than two of them the
  write behind it is None.  The creation time of the channel is the address of the first parameter.
\<close>

definition rank_mode :: "char \<Rightarrow> char" where
  "rank_mode p = (if p = CHR ''@'' then CHR ''o'' else CHR ''v'')"

definition sjoin_piece ::
  "netcfg \<Rightarrow> int \<Rightarrow> cstr \<Rightarrow> cstr \<Rightarrow> cstr \<Rightarrow> nat \<times> cs_state \<Rightarrow> (nat \<times> cs_state) option" where
  "sjoin_piece cfg now source channel piece jc =
     (let ranks = takeWhile (\<lambda>x. x \<in> {CHR ''@'', CHR ''+''}) piece;
          nick = drop (length ranks) piece
      in if length ranks > 2 then None
         else (case finduser (cs_users (snd jc)) nick of
                 None \<Rightarrow> Some jc
               | Some u \<Rightarrow>
                   do {
                     (joined, cs) \<leftarrow> enter_channel (k_cs cfg) now (u_uid u) channel (snd jc);
                     if \<not> joined then Some (fst jc, cs)
                     else do {
                       c \<leftarrow> findchan (cs_chans cs) channel;
                       let cs = put_chan (c\<lparr>c_creation_time := k_address cfg\<rparr>) cs;
                       cs \<leftarrow> (if ranks \<noteq> []
                              then do_cmode (k_cs cfg) now source channel (CHR ''+'' # map rank_mode ranks)
                                     (replicate (length ranks) nick) cs
                              else Some cs);
                       Some (fst jc + 1, cs)
                     }
                   }))"

fun sjoin_loop ::
  "netcfg \<Rightarrow> int \<Rightarrow> cstr \<Rightarrow> cstr \<Rightarrow> cstr list \<Rightarrow> nat \<times> cs_state \<Rightarrow> (nat \<times> cs_state) option" where
  "sjoin_loop cfg now source channel [] jc = Some jc"
| "sjoin_loop cfg now source channel (s # ss) jc =
     do { jc \<leftarrow> sjoin_piece cfg now source channel s jc; sjoin_loop cfg now source channel ss jc }"

text \<open>
  The parameters without a leading join timestamp.  The mode parameters are copied into an array of
  two; a list that needs more reads behind it.
\<close>

definition do_sjoin :: "netcfg \<Rightarrow> int \<Rightarrow> cstr \<Rightarrow> cstr list \<Rightarrow> cs_state \<Rightarrow> cs_state option" where
  "do_sjoin cfg now source args cs =
     (if length args < 2 then None
      else
        (let av = (if isdigit (hd0 (args ! 1)) then tl args else args)
         in if length av < 2 then None
            else
              (let channel = av ! 1;
                   t = (if 4 \<le> length av then last av else source)
               in do {
                 (joins, cs) \<leftarrow> sjoin_loop cfg now source channel (pieces (CHR '' '') t) (0, cs);
                 if joins \<noteq> 0 \<and> 2 < length av \<and> drop 1 (av ! 2) \<noteq> []
                 then (if 6 < length av then None
                       else do_cmode (k_cs cfg) now source channel (av ! 2) (take (length av - 4) (drop 3 av)) cs)
                 else Some cs
               })))"

section \<open>PART and KICK\<close>

fun part_loop :: "int \<Rightarrow> nat \<Rightarrow> cstr list \<Rightarrow> cs_state \<Rightarrow> cs_state option" where
  "part_loop now i [] cs = Some cs"
| "part_loop now i (s # ss) cs =
     do {
       u \<leftarrow> user_at (cs_users cs) i;
       cs \<leftarrow> leave_one now u s cs;
       part_loop now i ss cs
     }"

definition do_part :: "int \<Rightarrow> cstr \<Rightarrow> cstr \<Rightarrow> cs_state \<Rightarrow> cs_state option" where
  "do_part now source chans cs =
     (case finduser (cs_users cs) source of
        None \<Rightarrow> Some cs
      | Some u \<Rightarrow> part_loop now (u_uid u) (pieces (CHR '','') chans) cs)"

fun kick_loop :: "int \<Rightarrow> cstr \<Rightarrow> cstr list \<Rightarrow> cs_state \<Rightarrow> cs_state option" where
  "kick_loop now channel [] cs = Some cs"
| "kick_loop now channel (s # ss) cs =
     (case finduser (cs_users cs) s of
        None \<Rightarrow> kick_loop now channel ss cs
      | Some u \<Rightarrow> do { cs \<leftarrow> leave_one now u channel cs; kick_loop now channel ss cs })"

definition do_kick :: "int \<Rightarrow> cstr \<Rightarrow> cstr \<Rightarrow> cs_state \<Rightarrow> cs_state option" where
  "do_kick now channel nicks cs = kick_loop now channel (pieces (CHR '','') nicks) cs"

section \<open>Modes of users\<close>

definition NI_CLOAK :: flags where "NI_CLOAK = 0x00010000"

definition set_umode :: "bool \<Rightarrow> flags \<Rightarrow> nat \<Rightarrow> net_state \<Rightarrow> net_state" where
  "set_umode add f i n =
     with_nick (set_users (user_set (\<lambda>u. u\<lparr>u_mode := if add then u_mode u OR f else u_mode u AND NOT f\<rparr>) i) (net_ns n)) n"

definition get_email_from_id :: "sqldb \<Rightarrow> nat \<Rightarrow> cstr option" where
  "get_email_from_id db i = map_option nr_email (nick.row i (t_nick db))"

definition get_cloak_from_id :: "sqldb \<Rightarrow> nat \<Rightarrow> cstr option" where
  "get_cloak_from_id db i = map_option nr_cloak (nick.row i (t_nick db))"

text \<open>Mode +R: the server has identified the user.  Without a row the length of a null pointer is taken.\<close>

definition auto_identified :: "netcfg \<Rightarrow> int \<Rightarrow> user \<Rightarrow> ns_state \<Rightarrow> ns_state option" where
  "auto_identified cfg now u ns =
     (let i = u_real_id u
      in do {
        let ns = mysql_update_last_seen now u NS_IDENTIFIED ns;
        ns \<leftarrow> map_option (\<lambda>(_, c). ns\<lparr>ns_cache := c\<rparr>) (nickcache_update (nick_select (ns_db ns)) now (ns_cache ns) i);
        let ns = say (NoticeText (u_nick u) ''You have been automatically identified'') ns;
        let ns = say (SvsMode (u_nick u) '':+R'') ns;
        email \<leftarrow> get_email_from_id (ns_db ns) i;
        let ns = (if length email \<le> 1 then say (NoticeLang (u_uid u) ''NICK_BEG_SET_EMAIL'' []) ns else ns);
        (s, ns) \<leftarrow> get_nick_status now i ns;
        let ns = (if \<not> has s NS_RECOGNIZED then say (CheckMemos (u_uid u)) ns else ns);
        (s, ns) \<leftarrow> get_nick_status now i ns;
        Some (if \<not> has s NS_RECOGNIZED \<and> has (get_nick_flags i ns) NI_CLOAK
              then (let cloak = (case get_cloak_from_id (ns_db ns) i of None \<Rightarrow> [] | Some c \<Rightarrow> c);
                        ns = (if cloak \<noteq> [] then say (Cmd ''SVSCLOAK'' [u_nick u, cloak]) ns else ns)
                    in say (CheckAutojoins (u_uid u)) ns)
              else ns)
      })"

definition umode_a :: "netcfg \<Rightarrow> int \<Rightarrow> bool \<Rightarrow> cstr \<Rightarrow> user \<Rightarrow> ns_state \<Rightarrow> ns_state option" where
  "umode_a cfg now add nick u ns =
     do {
       (admin, ns) \<leftarrow> (if is_oper (ns_users ns) (u_nick u) then is_services_admin (k_cs cfg) now u ns
                       else Some (False, ns));
       Some (if admin then (if add then ns else say (SvsMode nick '':+a'') ns)
             else (if add then say (SvsMode nick '':-a'') ns else ns))
     }"

definition umode_o :: "netcfg \<Rightarrow> bool \<Rightarrow> nat \<Rightarrow> net_state \<Rightarrow> net_state option" where
  "umode_o cfg add i n =
     (let n = set_umode add UMODE_o i n
      in if add
         then do {
           u \<leftarrow> user_at (ns_users (net_ns n)) i;
           let n = (if WallOper cfg then net_say (Wallops (u_nick u @ '' is now an IRC operator.'') []) n else n);
           let n = with_nick (display_news u NEWS_OPER (net_ns n)) n;
           Some (n\<lparr>n_opcnt := n_opcnt n + 1\<rparr>)
         }
         else Some (n\<lparr>n_opcnt := n_opcnt n - 1\<rparr>))"

definition umode_step :: "netcfg \<Rightarrow> int \<Rightarrow> cstr \<Rightarrow> char \<Rightarrow> bool \<Rightarrow> nat \<Rightarrow> net_state \<Rightarrow> net_state option" where
  "umode_step cfg now nick m add i n =
     (if m = CHR ''R''
      then (let n = set_umode add UMODE_r i n
            in do {
              u \<leftarrow> user_at (ns_users (net_ns n)) i;
              if add \<and> u_real_id u \<noteq> 0
              then map_option (\<lambda>ns. with_nick ns n) (auto_identified cfg now u (net_ns n))
              else Some n
            })
      else if m = CHR ''a''
      then do {
        u \<leftarrow> user_at (ns_users (net_ns n)) i;
        map_option (\<lambda>ns. with_nick ns n) (umode_a cfg now add nick u (net_ns n))
      }
      else if m = CHR ''i'' then Some (set_umode add UMODE_i i n)
      else if m = CHR ''w'' then Some (set_umode add UMODE_w i n)
      else if m = CHR ''g'' then Some (set_umode add UMODE_g i n)
      else if m = CHR ''s'' then Some (set_umode add UMODE_s i n)
      else if m = CHR ''o'' then umode_o cfg add i n
      else Some n)"

fun umode_loop :: "netcfg \<Rightarrow> int \<Rightarrow> cstr \<Rightarrow> cstr \<Rightarrow> bool \<Rightarrow> nat \<Rightarrow> net_state \<Rightarrow> net_state option" where
  "umode_loop cfg now nick [] add i n = Some n"
| "umode_loop cfg now nick (m # ms) add i n =
     (if m = CHR ''+'' then umode_loop cfg now nick ms True i n
      else if m = CHR ''-'' then umode_loop cfg now nick ms False i n
      else do { n \<leftarrow> umode_step cfg now nick m add i n; umode_loop cfg now nick ms add i n })"

definition do_umode :: "netcfg \<Rightarrow> int \<Rightarrow> cstr \<Rightarrow> cstr \<Rightarrow> cstr \<Rightarrow> net_state \<Rightarrow> net_state option" where
  "do_umode cfg now source nick modes n =
     (if strlower source \<noteq> strlower nick
      then Some (net_say (Wallops ''attempted to change mode'' [source, modes, nick]) n)
      else (case finduser (ns_users (net_ns n)) source of
              None \<Rightarrow> Some n
            | Some u \<Rightarrow> umode_loop cfg now nick modes True (u_uid u) n))"

section \<open>QUIT and KILL\<close>

definition mysql_quit_user :: "int \<Rightarrow> user \<Rightarrow> cstr \<Rightarrow> ns_state \<Rightarrow> ns_state" where
  "mysql_quit_user now u msg ns =
     (if \<exists>r\<in>set (t_nick (ns_db ns)). nr_id r = u_real_id u \<and> \<not> has (nr_status r) NS_VERBOTEN \<and>
           has (nr_status r) (NS_IDENTIFIED OR NS_RECOGNIZED)
      then ns\<lparr>ns_db := upd_nick (\<lambda>r. nr_id r = u_real_id u)
             (\<lambda>r. r\<lparr>nr_last_seen := now, nr_last_quit := msg, nr_last_quit_time := now\<rparr>) (ns_db ns)\<rparr>
      else ns)"

text \<open>What QUIT and KILL do with a user online.\<close>

definition user_gone :: "netcfg \<Rightarrow> int \<Rightarrow> user \<Rightarrow> cstr \<Rightarrow> net_state \<Rightarrow> net_state option" where
  "user_gone cfg now u msg n =
     (let n = (if u_nick_id u \<noteq> 0 then with_nick (mysql_quit_user now u msg (net_ns n)) n else n);
          n = (if LimitSessions (k_os cfg) then n\<lparr>n_os := del_session (u_host u) (n_os n)\<rparr> else n)
      in delete_user cfg now u n)"

definition do_quit :: "netcfg \<Rightarrow> int \<Rightarrow> cstr \<Rightarrow> cstr \<Rightarrow> net_state \<Rightarrow> net_state option" where
  "do_quit cfg now source msg n =
     (case finduser (ns_users (net_ns n)) source of
        None \<Rightarrow> Some n
      | Some u \<Rightarrow> user_gone cfg now u msg n)"

definition do_kill :: "netcfg \<Rightarrow> int \<Rightarrow> cstr \<Rightarrow> cstr \<Rightarrow> net_state \<Rightarrow> net_state option" where
  "do_kill cfg now nick msg n =
     (case finduser (ns_users (net_ns n)) nick of
        None \<Rightarrow> Some n
      | Some u \<Rightarrow> user_gone cfg now u msg n)"

text \<open>\<open>m_nick\<close>: the number of parameters decides, and the modes of a new user are set.\<close>

definition m_nick :: "netcfg \<Rightarrow> int \<Rightarrow> cstr \<Rightarrow> cstr list \<Rightarrow> net_state \<Rightarrow> net_state option" where
  "m_nick cfg now source av n =
     (if source = []
      then (case av of
              [nick, hops, signon, modes, username, host, server, realname] \<Rightarrow>
                do {
                  (ok, n) \<leftarrow> do_nick_new cfg now nick signon username host server realname n;
                  if ok then do_umode cfg now nick nick modes n else Some n
                }
            | _ \<Rightarrow> Some n)
      else (case av of
              [nick, time] \<Rightarrow>
                do {
                  (ok, n) \<leftarrow> do_nick_change cfg now source nick n;
                  if ok then do_umode cfg now nick nick [] n else Some n
                }
            | _ \<Rightarrow> Some n))"

section \<open>Questions about users and channels\<close>

definition is_on_chan :: "userlist \<Rightarrow> chanlist \<Rightarrow> cstr \<Rightarrow> cstr \<Rightarrow> bool option" where
  "is_on_chan ul cl nick name =
     (case finduser ul nick of
        None \<Rightarrow> Some False
      | Some u \<Rightarrow> map_option (\<lambda>e. e \<noteq> None) (find_entry cl name (u_chans u)))"

definition is_chanop :: "userlist \<Rightarrow> chanlist \<Rightarrow> cstr \<Rightarrow> cstr \<Rightarrow> bool option" where
  "is_chanop ul cl nick name =
     (case findchan cl name of
        None \<Rightarrow> Some False
      | Some c \<Rightarrow> map_option (\<lambda>e. e \<noteq> None) (nick_scan ul nick (c_chanops c)))"

definition is_voiced :: "userlist \<Rightarrow> chanlist \<Rightarrow> cstr \<Rightarrow> cstr \<Rightarrow> bool option" where
  "is_voiced ul cl nick name =
     (case findchan cl name of
        None \<Rightarrow> Some False
      | Some c \<Rightarrow> map_option (\<lambda>e. e \<noteq> None) (nick_scan ul nick (c_voices c)))"

definition chan_count_users :: "channel option \<Rightarrow> nat" where
  "chan_count_users c = (case c of None \<Rightarrow> 0 | Some c \<Rightarrow> length (c_users c))"

fun banned_by :: "cstr list \<Rightarrow> user \<Rightarrow> bool option" where
  "banned_by [] u = Some False"
| "banned_by (m # ms) u = do { b \<leftarrow> match_usermask m u; if b then Some True else banned_by ms u }"

definition is_banned :: "user \<Rightarrow> channel option \<Rightarrow> bool option" where
  "is_banned u c = (case c of None \<Rightarrow> Some False | Some c \<Rightarrow> banned_by (map b_mask (c_bans c)) u)"

end
