(* ===== verification/Network.thy ===== *)
theory Network
  imports UserOps
begin

text \<open>
  The network as the services see it: what the operations on nicknames keep, users under a change of
  the table, membership as a relation between the lists of users and the rosters of channels, and
  the invariant of users, channels and the registrations behind them.
\<close>

section \<open>What the work on nicknames keeps\<close>

text \<open>\<open>kept\<close> without the invariant of NickServ, which comes from the lemmas on the operations.\<close>

definition frame :: "ns_state \<Rightarrow> ns_state \<Rightarrow> bool" where
  "frame ns ns' \<longleftrightarrow>
     ns_users ns' = ns_users ns \<and>
     map nick_link (t_nick (ns_db ns')) = map nick_link (t_nick (ns_db ns)) \<and>
     map chan_lock (t_channel (ns_db ns')) = map chan_lock (t_channel (ns_db ns)) \<and>
     (unforced (ns_db ns) \<longrightarrow> unforced (ns_db ns'))"

named_theorems frames \<open>operations within a frame\<close>

lemma kept_frame: "kept ns ns' \<longleftrightarrow> ns_ok ns' \<and> frame ns ns'"
  by (auto simp: kept_def frame_def)

lemma frame_refl [simp]: "frame ns ns"
  by (simp add: frame_def)

lemma frame_trans: "frame a b \<Longrightarrow> frame b c \<Longrightarrow> frame a c"
  by (simp add: frame_def)

lemma frame_same [frames]:
  "frame a (b\<lparr>ns_cache := c\<rparr>) = frame a b" "frame a (b\<lparr>ns_mine := ms\<rparr>) = frame a b"
  "frame a (b\<lparr>ns_timers := ts\<rparr>) = frame a b" "frame a (b\<lparr>ns_brk := k\<rparr>) = frame a b"
  "frame a (b\<lparr>ns_counter := n\<rparr>) = frame a b" "frame a (say m b) = frame a b"
  by (simp_all add: frame_def say_def)

lemma frame_timeout [frames]: "frame a (ns_add_timeout now i ty d b) = frame a b"
  by (simp add: ns_add_timeout_def split_beta frame_def)

lemma frame_del_timeout: "ns_del_timeout i ty b = Some b' \<Longrightarrow> frame a b' = frame a b"
  by (auto simp: ns_del_timeout_def frame_def)

lemma frame_nicks:
  assumes "frame a b" and "\<And>r. nick_link (f r) = nick_link r"
    and "\<And>r. \<not> has (nr_status r) NS_GUESTED \<Longrightarrow> P r \<Longrightarrow> \<not> has (nr_status (f r)) NS_GUESTED"
  shows "frame a (b\<lparr>ns_db := upd_nick P f (ns_db b)\<rparr>)"
proof -
  have "map nick_link (sql_update P f t) = map nick_link t" for t using assms(2) by (auto simp: sql_update_def)
  moreover have "unforced (ns_db b) \<Longrightarrow> unforced (upd_nick P f (ns_db b))"
    using assms(3) by (auto simp: unforced_def upd_nick_def sql_update_def)
  ultimately show ?thesis using assms(1) by (auto simp: frame_def upd_nick_def)
qed

definition harmless :: "status_op \<Rightarrow> bool" where
  "harmless p \<longleftrightarrow> (\<forall>s. \<not> has s NS_GUESTED \<longrightarrow> \<not> has (status_effect p s) NS_GUESTED)"

lemma harmless_ops:
  "harmless (RemoveStatus s)" "harmless (AddStatus NS_ON_ACCESS)" "harmless (AddStatus NS_RECOGNIZED)"
  "harmless (AddStatus NS_IDENTIFIED)"
proof -
  have "has (t AND u) m \<Longrightarrow> has t m" for t u m
    by (auto simp: has_def bit_eq_iff bit_and_iff)
  then show "harmless (RemoveStatus s)" by (auto simp: harmless_def)
  have "\<not> has NS_ON_ACCESS NS_GUESTED" "\<not> has NS_RECOGNIZED NS_GUESTED" "\<not> has NS_IDENTIFIED NS_GUESTED"
    by (simp_all add: has_def NS_GUESTED_def NS_ON_ACCESS_def NS_RECOGNIZED_def NS_IDENTIFIED_def)
  then show "harmless (AddStatus NS_ON_ACCESS)" "harmless (AddStatus NS_RECOGNIZED)" "harmless (AddStatus NS_IDENTIFIED)"
    by (simp_all add: harmless_def has_or)
qed

lemma frame_cache: "cache_status p now i b = Some b' \<Longrightarrow> frame a b' = frame a b"
  by (auto simp: cache_status_def frames)

lemma frame_db_status: "frame a b \<Longrightarrow> harmless p \<Longrightarrow> frame a (db_status p i b)"
  unfolding db_status_def by (rule frame_nicks) (auto simp: harmless_def nick_link_def)

lemma frame_status: "cache_status p now i (db_status p i b) = Some b' \<Longrightarrow> frame a b \<Longrightarrow> harmless p \<Longrightarrow> frame a b'"
  using frame_cache frame_db_status by metis

lemma frame_remove: "remove_nick_status s now i b = Some b' \<Longrightarrow> frame a b \<Longrightarrow> frame a b'"
  unfolding remove_nick_status_def using frame_status harmless_ops(1) by blast

lemma frame_seen: "frame a b \<Longrightarrow> frame a (mysql_update_last_seen now u 0 b)"
  unfolding mysql_update_last_seen_def by (rule frame_nicks) (auto simp: nick_link_def)

lemma frame_quit: "frame a b \<Longrightarrow> frame a (mysql_quit_user now u msg b)"
  unfolding mysql_quit_user_def by (auto intro!: frame_nicks simp: nick_link_def)

lemma frame_validate:
  assumes "validate_user cfg now u st = Some (b, st')"
  shows "frame st st'"
proof -
  have bits: "harmless (AddStatus NS_IDENTIFIED)" "harmless (AddStatus NS_RECOGNIZED)" "harmless (AddStatus NS_ON_ACCESS)"
    using harmless_ops by simp_all
  have f: "frame st (c\<lparr>ns_db := upd_nick P (set_bits s) (ns_db c)\<rparr>)" if "frame st c" "harmless (AddStatus s)" for c P s
    by (rule frame_nicks [OF that(1)]) (use that(2) in \<open>simp_all add: nick_link_def set_bits_def harmless_def\<close>)
  have g: "frame st (c\<lparr>ns_db := upd_nick P (seen_as u now) (ns_db c)\<rparr>)" if "frame st c" for c P
    by (rule frame_nicks [OF that(1)]) (use bits(2) in \<open>simp_all add: nick_link_def seen_as_def set_bits_def harmless_def\<close>)
  have on: "frame st d" if "frame st c" "add_nick_status NS_ON_ACCESS now i c = Some d" for c d i
    using frame_status [OF _ that(1) bits(3)] that(2) by (auto simp: add_nick_status_def)
  define i where "i = u_real_id u"
  show ?thesis
  proof (cases "i = 0 \<or> nick_forbidden (ns_db st) i")
    case True
    then show ?thesis using assms by (auto simp: validate_user_def Let_def frames i_def split: if_splits)
  next
    case False
    then obtain st1 where st1: "remove_nick_status NS_TEMPORARY now i st = Some st1"
      using assms by (auto simp: validate_user_def Let_def i_def split: bind_splits)
    then have f1: "frame st st1" using frame_remove frame_refl by blast
    define rows where "rows = (if NoSplitRecovery cfg then 0
        else sql_changed (stamp_matches u) (set_bits NS_IDENTIFIED) (t_nick (ns_db st1)))"
    show ?thesis
    proof (cases "rows = 0")
      case True
      define on where "on = is_on_access u (u_nick_id u) (ns_db st1)"
      obtain st2 where st2: "(if on then add_nick_status NS_ON_ACCESS now i st1 else Some st1) = Some st2"
        using assms False True st1 unfolding validate_user_def Let_def i_def [symmetric] on_def
        by (auto simp flip: rows_def split: bind_splits)
      have f2: "frame st st2" using st2 f1 on [OF f1] by (auto split: if_splits)
      show ?thesis
      proof (cases "\<not> has (get_nick_flags (u_nick_id u) st) NI_SECURE \<and> on")
        case yes: True
        then have "map_option (Pair True) (cache_status (AddStatus NS_RECOGNIZED) now i
            (st2\<lparr>ns_db := upd_nick (\<lambda>r. nr_id r = i) (seen_as u now) (ns_db st2)\<rparr>)) = Some (b, st')"
          using assms False True st1 st2 unfolding validate_user_def Let_def i_def [symmetric]
          by (auto simp flip: on_def rows_def)
        then show ?thesis using g [OF f2] frame_cache by auto
      next
        case no: False
        then show ?thesis
          using assms False True st1 st2 f2 unfolding validate_user_def Let_def i_def [symmetric]
          by (auto simp: frames simp flip: on_def rows_def split: if_splits)
      qed
    next
      case no: False
      then have "map_option (\<lambda>st. (True, say (CheckAutojoins (u_uid u)) st)) (cache_status (AddStatus NS_IDENTIFIED) now i
          (st1\<lparr>ns_db := upd_nick (stamp_matches u) (set_bits NS_IDENTIFIED) (ns_db st1)\<rparr>)) = Some (b, st')"
        using assms False st1 unfolding validate_user_def Let_def i_def [symmetric] by (auto simp flip: rows_def)
      then show ?thesis using f [OF f1 bits(1)] frame_cache by (auto simp: frames)
    qed
  qed
qed

text \<open>With the invariant of NickServ, and no nickname forced on a user, the operations return.\<close>

lemma cancel_user_kept:
  assumes "ns_ok ns" and "unforced (ns_db ns)"
  shows "\<exists>ns'. cancel_user cfg now u ns = Some ns' \<and> kept ns ns'"
proof (cases "u_real_id u = 0")
  case True
  then show ?thesis using assms by (simp add: cancel_user_def kept_refl)
next
  case False
  define P where "P = (\<lambda>r :: nick_row. nr_id r = u_real_id u \<and> has (nr_status r) NS_GUESTED)"
  define f where "f = (\<lambda>r :: nick_row. r\<lparr>nr_status := nr_status r AND NOT NS_TEMPORARY\<rparr>)"
  have none: "\<not> P s" if "s \<in> set (t_nick (ns_db ns))" for s using assms(2) that by (auto simp: unforced_def P_def)
  then have "sql_changed P f (t_nick (ns_db ns)) = 0" by (simp add: sql_changed_def)
  moreover have "sql_update P f (t_nick (ns_db ns)) = t_nick (ns_db ns)"
    using none by (simp add: sql_update_def map_idI)
  then have "ns\<lparr>ns_db := upd_nick P f (ns_db ns)\<rparr> = ns" by (simp add: upd_nick_def)
  moreover obtain ns1 where ns1: "remove_nick_status NS_TEMPORARY now (u_real_id u) ns = Some ns1" "ns_ok ns1"
    using nick_status_ok [OF assms(1) False, where p = "RemoveStatus NS_TEMPORARY" and now = now]
    by (auto simp: remove_nick_status_def)
  moreover have "frame ns ns1" using frame_remove [OF ns1(1)] by simp
  moreover obtain ms ts where ns2: "ns_del_timeout (u_real_id u) TO_COLLIDE ns1 = Some (ns1\<lparr>ns_mine := ms, ns_timers := ts\<rparr>)"
    "ns_ok (ns1\<lparr>ns_mine := ms, ns_timers := ts\<rparr>)"
    using ns_del_timeout_ok [OF ns1(2), of "u_real_id u" TO_COLLIDE] by metis
  ultimately show ?thesis
    using False unfolding cancel_user_def P_def f_def by (simp add: Let_def kept_frame frames)
qed

lemma validate_user_kept:
  assumes "ns_ok ns" and "known (ns_db ns) u"
  shows "\<exists>b ns'. validate_user cfg now u ns = Some (b, ns') \<and> kept ns ns'"
proof (cases "u_real_id u = 0")
  case True
  then show ?thesis using assms by (auto simp: validate_user_def Let_def kept_refl)
next
  case False
  then obtain r where "nick.row (u_real_id u) (t_nick (ns_db ns)) = Some r" using assms(2) by (auto simp: known_def)
  from validate_user_ok [OF assms(1) this False, of cfg now]
  show ?thesis using frame_validate kept_frame by blast
qed

lemma check_on_access_kept:
  assumes "ns_ok ns" and "u_nick_id u \<noteq> 0 \<longrightarrow> u_real_id u \<noteq> 0"
  shows "\<exists>b ns'. check_on_access now u ns = Some (b, ns') \<and> kept ns ns'"
proof (cases "u_nick_id u \<noteq> 0 \<and> is_on_access u (u_nick_id u) (ns_db ns)")
  case True
  then obtain c where c: "cache_status (AddStatus NS_ON_ACCESS) now (u_real_id u)
      (db_status (AddStatus NS_ON_ACCESS) (u_real_id u) ns) =
        Some (db_status (AddStatus NS_ON_ACCESS) (u_real_id u) ns\<lparr>ns_cache := c\<rparr>)"
    "ns_ok (db_status (AddStatus NS_ON_ACCESS) (u_real_id u) ns\<lparr>ns_cache := c\<rparr>)"
    using nick_status_ok [OF assms(1), of "u_real_id u" "AddStatus NS_ON_ACCESS" now] assms(2) by blast
  moreover have "frame ns (db_status (AddStatus NS_ON_ACCESS) (u_real_id u) ns\<lparr>ns_cache := c\<rparr>)"
    using frame_db_status [OF frame_refl harmless_ops(2)] by (simp add: frames)
  ultimately show ?thesis using True by (auto simp: check_on_access_def kept_frame)
next
  case False
  then show ?thesis using assms(1) by (auto simp: check_on_access_def kept_refl)
qed

lemma nick_identified_kept:
  assumes "ns_ok ns" and "known (ns_db ns) u"
  shows "\<exists>b ns'. nick_identified now u ns = Some (b, ns') \<and> kept ns ns'"
proof -
  have "yields (nick_identified now u ns) (\<lambda>b ns'. kept ns ns')"
    using assms by (auto intro!: nick_identified_yields quiet_refl intro: kept_quiet)
  then show ?thesis by (auto dest: yieldsD)
qed

lemma same_select:
  assumes "\<And>r. nr_id (f r) = nr_id r \<and> nr_status (f r) = nr_status r \<and> nr_language (f r) = nr_language r"
  shows "nick_select (upd_nick P f db) = nick_select db"
proof
  fix j
  show "nick_select (upd_nick P f db) j = nick_select db j"
    using upd_nick_row [of f j P db] assms by (cases "nick.row j (t_nick db)") (auto simp: nick_select_def)
qed

lemma seen_kept: "ns_ok ns \<Longrightarrow> kept ns (mysql_update_last_seen now u 0 ns)"
proof -
  assume ok: "ns_ok ns"
  have "nick_select (ns_db (mysql_update_last_seen now u 0 ns)) = nick_select (ns_db ns)"
    by (simp add: mysql_update_last_seen_def same_select)
  then have "ns_ok (mysql_update_last_seen now u 0 ns)"
    using ok mine_ok_cong [of "mysql_update_last_seen now u 0 ns" ns]
    by (simp add: ns_ok_def mysql_update_last_seen_def upd_nick_unique)
  then show ?thesis using frame_seen by (simp add: kept_frame)
qed

lemma quit_kept: "ns_ok ns \<Longrightarrow> kept ns (mysql_quit_user now u msg ns)"
proof -
  assume ok: "ns_ok ns"
  have "nick_select (ns_db (mysql_quit_user now u msg ns)) = nick_select (ns_db ns)"
    by (simp add: mysql_quit_user_def same_select)
  then have "ns_ok (mysql_quit_user now u msg ns)"
    using ok mine_ok_cong [of "mysql_quit_user now u msg ns" ns]
    by (simp add: ns_ok_def mysql_quit_user_def upd_nick_unique)
  then show ?thesis using frame_quit by (simp add: kept_frame)
qed

lemma news_kept:
  assumes "ns_ok ns"
  shows "kept ns (display_news u ty ns)"
proof -
  have "kept ns (fold (\<lambda>r. news_msg u name key (g r)) rs ns)" if "ns_ok ns" for name key g rs ns
    using that
  proof (induction rs arbitrary: ns)
    case (Cons r rs)
    then show ?case using kept_say kept_trans kept_ok by (simp add: news_msg_def) blast
  qed (simp add: kept_refl)
  then show ?thesis using assms by (auto simp: display_news_def kept_refl split: option.split)
qed

section \<open>Users under a change\<close>

lemma user_at_iff:
  assumes "users_ok ul"
  shows "user_at ul i = Some u \<longleftrightarrow> u \<in> set (all_users ul) \<and> u_uid u = i"
proof
  assume "user_at ul i = Some u"
  then show "u \<in> set (all_users ul) \<and> u_uid u = i"
    unfolding user_at_def by (auto dest: find_Some_set)
next
  assume u: "u \<in> set (all_users ul) \<and> u_uid u = i"
  then obtain v where v: "user_at ul i = Some v" using user_at_Some [of i ul] by blast
  then have w: "v \<in> set (all_users ul)" "u_uid v = i" unfolding user_at_def by (auto dest: find_Some_set)
  obtain b c where "v \<in> set (ul b)" "u \<in> set (ul c)" using w u unfolding all_users_set by blast
  then have "v = u" using assms u w(2) unfolding users_ok_def by blast
  then show "user_at ul i = Some u" using v by simp
qed

lemma all_users_bucket: "users_ok ul \<Longrightarrow> u \<in> set (all_users ul) \<longleftrightarrow> (\<exists>b. u \<in> set (ul b))"
  unfolding all_users_set using users_ok_bucket by blast

lemma user_set_ok:
  assumes "users_ok ul" and "\<And>u. u_uid (f u) = u_uid u \<and> u_nick (f u) = u_nick u"
  shows "users_ok (user_set f i ul)"
    and "user_at (user_set f i ul) j = (if j = i then map_option f (user_at ul j) else user_at ul j)"
    and "u \<in> set (all_users (user_set f i ul)) \<longleftrightarrow>
      (\<exists>v\<in>set (all_users ul). u = (if u_uid v = i then f v else v))"
proof -
  have m: "map u_uid (user_set f i ul b) = map u_uid (ul b)"
    "map (\<lambda>u. strlower (u_nick u)) (user_set f i ul b) = map (\<lambda>u. strlower (u_nick u)) (ul b)" for b
    using assms(2) by (auto simp: user_set_def)
  have s: "u \<in> set (user_set f i ul b) \<longleftrightarrow> (\<exists>v\<in>set (ul b). u = (if u_uid v = i then f v else v))" for u b
    by (simp only: user_set_def set_map image_iff)
  have o1: "\<forall>b. \<forall>u\<in>set (user_set f i ul b). HASH (u_nick u) = b \<and> cstring (u_nick u)"
  proof (intro allI ballI)
    fix b u assume "u \<in> set (user_set f i ul b)"
    then obtain v where v: "v \<in> set (ul b)" "u = (if u_uid v = i then f v else v)" unfolding s by blast
    then have "u_nick u = u_nick v" using assms(2) by simp
    then show "HASH (u_nick u) = b \<and> cstring (u_nick u)" using assms(1) v(1) by (simp add: users_ok_def)
  qed
  have o4: "\<forall>b c. \<forall>u\<in>set (user_set f i ul b). \<forall>v\<in>set (user_set f i ul c). u_uid u = u_uid v \<longrightarrow> u = v"
  proof (intro allI ballI impI)
    fix b c u v assume "u \<in> set (user_set f i ul b)" "v \<in> set (user_set f i ul c)" and e: "u_uid u = u_uid v"
    then obtain u0 v0 where uv: "u0 \<in> set (ul b)" "v0 \<in> set (ul c)"
      "u = (if u_uid u0 = i then f u0 else u0)" "v = (if u_uid v0 = i then f v0 else v0)"
      unfolding s by blast
    then have "u_uid u0 = u_uid v0" using e assms(2) by (auto split: if_splits)
    then have "u0 = v0" using assms(1) uv(1,2) unfolding users_ok_def by blast
    then show "u = v" using uv by simp
  qed
  show ok: "users_ok (user_set f i ul)"
    using o1 o4 assms(1) unfolding users_ok_def m by simp
  show a: "u \<in> set (all_users (user_set f i ul)) \<longleftrightarrow>
      (\<exists>v\<in>set (all_users ul). u = (if u_uid v = i then f v else v))" for u
    unfolding all_users_bucket [OF ok] s Bex_def all_users_bucket [OF assms(1)] by blast
  show "user_at (user_set f i ul) j = (if j = i then map_option f (user_at ul j) else user_at ul j)"
  proof (rule option_ext)
    fix d
    show "user_at (user_set f i ul) j = Some d \<longleftrightarrow>
        (if j = i then map_option f (user_at ul j) else user_at ul j) = Some d"
      using assms(2) unfolding user_at_iff [OF ok] a
      by (auto simp: user_at_iff [OF assms(1)] split: if_splits)
  qed
qed

lemma user_link_ok:
  assumes "users_ok ul" and "cstring (u_nick u)" and "finduser ul (u_nick u) = None"
    and "\<forall>v\<in>set (all_users ul). u_uid v \<noteq> u_uid u"
  shows "users_ok (user_link u ul)"
    and "v \<in> set (all_users (user_link u ul)) \<longleftrightarrow> v = u \<or> v \<in> set (all_users ul)"
    and "user_at (user_link u ul) j = (if j = u_uid u then Some u else user_at ul j)"
proof -
  have s: "v \<in> set (user_link u ul b) \<longleftrightarrow> (v = u \<and> b = HASH (u_nick u)) \<or> v \<in> set (ul b)" for v b
    by (auto simp: user_link_def)
  have new: "strlower (u_nick v) \<noteq> strlower (u_nick u)" "u_uid v \<noteq> u_uid u" if "v \<in> set (ul b)" for v b
  proof -
    have v: "v \<in> set (all_users ul)" using that all_users_bucket [OF assms(1)] by blast
    then show "u_uid v \<noteq> u_uid u" using assms(4) by blast
    show "strlower (u_nick v) \<noteq> strlower (u_nick u)"
      using finduser_char [OF assms(1,2), of v] assms(3) v by auto
  qed
  have d: "distinct (map u_uid (user_link u ul b))" "distinct (map (\<lambda>u. strlower (u_nick u)) (user_link u ul b))" for b
  proof -
    have "u_uid u \<notin> u_uid ` set (ul b)" "strlower (u_nick u) \<notin> (\<lambda>u. strlower (u_nick u)) ` set (ul b)"
      using new [of _ b] by (metis (mono_tags, lifting) imageE)+
    then show "distinct (map u_uid (user_link u ul b))" "distinct (map (\<lambda>u. strlower (u_nick u)) (user_link u ul b))"
      using assms(1) by (cases "b = HASH (u_nick u)"; simp add: users_ok_def user_link_def)+
  qed
  have "HASH (u_nick v) = b \<and> cstring (u_nick v)" if "v \<in> set (user_link u ul b)" for v b
    using that assms(1,2) unfolding s users_ok_def by blast
  moreover have "v = w" if "v \<in> set (user_link u ul b)" "w \<in> set (user_link u ul c)" "u_uid v = u_uid w" for v w b c
    using that assms(1) new(2) unfolding s users_ok_def by metis
  ultimately show ok: "users_ok (user_link u ul)"
    unfolding users_ok_def using d by blast
  show a: "v \<in> set (all_users (user_link u ul)) \<longleftrightarrow> v = u \<or> v \<in> set (all_users ul)" for v
    unfolding all_users_bucket [OF ok] s all_users_bucket [OF assms(1)] by blast
  show "user_at (user_link u ul) j = (if j = u_uid u then Some u else user_at ul j)"
  proof (rule option_ext)
    fix d
    show "user_at (user_link u ul) j = Some d \<longleftrightarrow> (if j = u_uid u then Some u else user_at ul j) = Some d"
      using assms(4) unfolding user_at_iff [OF ok] a by (auto simp: user_at_iff [OF assms(1)])
  qed
qed

lemma user_unlink_ok:
  assumes "users_ok ul" and "u \<in> set (all_users ul)"
  shows "users_ok (user_unlink u ul)"
    and "v \<in> set (all_users (user_unlink u ul)) \<longleftrightarrow> v \<in> set (all_users ul) \<and> u_uid v \<noteq> u_uid u"
    and "user_at (user_unlink u ul) j = (if j = u_uid u then None else user_at ul j)"
    and "finduser (user_unlink u ul) (u_nick u) = None"
proof -
  obtain c where c: "u \<in> set (ul c)" using assms(2) all_users_set by blast
  then have h: "HASH (u_nick u) = c" "cstring (u_nick u)" using users_ok_bucket [OF assms(1)] by blast+
  have s: "v \<in> set (user_unlink u ul b) \<longleftrightarrow> v \<in> set (ul b) \<and> u_uid v \<noteq> u_uid u" for v b
  proof (cases "b = c")
    case False
    have "u_uid v \<noteq> u_uid u" if "v \<in> set (ul b)"
    proof
      assume "u_uid v = u_uid u"
      then have "v = u" using assms(1) c that unfolding users_ok_def by blast
      then show False using users_ok_bucket [OF assms(1) that] h False by simp
    qed
    then show ?thesis using False h by (auto simp: user_unlink_def)
  qed (simp add: user_unlink_def h)
  have d: "distinct (map u_uid (user_unlink u ul b))" "distinct (map (\<lambda>u. strlower (u_nick u)) (user_unlink u ul b))" for b
    using assms(1) by (auto simp: users_ok_def user_unlink_def distinct_map_filter)
  show ok: "users_ok (user_unlink u ul)"
    unfolding users_ok_def Ball_def s using d assms(1) unfolding users_ok_def Ball_def by blast
  show a: "v \<in> set (all_users (user_unlink u ul)) \<longleftrightarrow> v \<in> set (all_users ul) \<and> u_uid v \<noteq> u_uid u" for v
    unfolding all_users_bucket [OF ok] s all_users_bucket [OF assms(1)] by blast
  show "user_at (user_unlink u ul) j = (if j = u_uid u then None else user_at ul j)"
  proof (rule option_ext)
    fix d
    show "user_at (user_unlink u ul) j = Some d \<longleftrightarrow> (if j = u_uid u then None else user_at ul j) = Some d"
      unfolding user_at_iff [OF ok] a by (auto simp: user_at_iff [OF assms(1)])
  qed
  have one: "v = u" if "v \<in> set (all_users ul)" "strlower (u_nick v) = strlower (u_nick u)" for v
    using finduser_char [OF assms(1) h(2), of v] finduser_char [OF assms(1) h(2), of u] that assms(2) by simp
  show "finduser (user_unlink u ul) (u_nick u) = None"
  proof (rule ccontr)
    assume "finduser (user_unlink u ul) (u_nick u) \<noteq> None"
    then obtain v where "finduser (user_unlink u ul) (u_nick u) = Some v" by blast
    then have "v \<in> set (all_users ul)" "u_uid v \<noteq> u_uid u" "strlower (u_nick v) = strlower (u_nick u)"
      using finduser_char [OF ok h(2), of v] a by simp_all
    then show False using one by blast
  qed
qed

section \<open>Membership\<close>

text \<open>
  The abstract network has the list of channels of each user online.  Every entry of a list is the
  name of a channel; a channel has just the users that list it, each once, at least one of them, and
  its operators and voiced users are among them.
\<close>

type_synonym network = "nat \<Rightarrow> cstr list option"

definition on :: "network \<Rightarrow> nat \<Rightarrow> cstr \<Rightarrow> bool" where
  "on F i p \<longleftrightarrow> (\<exists>ps. F i = Some ps \<and> p \<in> set ps)"

definition lists_ok :: "network \<Rightarrow> bool" where
  "lists_ok F \<longleftrightarrow> (\<forall>i ps. F i = Some ps \<longrightarrow> distinct (map strlower ps) \<and> (\<forall>p\<in>set ps. cstring p))"

definition good_chan :: "network \<Rightarrow> channel \<Rightarrow> bool" where
  "good_chan F c \<longleftrightarrow>
     c_users c \<noteq> [] \<and> distinct (c_users c) \<and> distinct (c_chanops c) \<and> distinct (c_voices c) \<and>
     set (c_chanops c) \<union> set (c_voices c) \<subseteq> set (c_users c) \<and> (\<forall>i. i \<in> set (c_users c) \<longleftrightarrow> on F i (c_name c))"

definition members :: "network \<Rightarrow> chanlist \<Rightarrow> bool" where
  "members F cl \<longleftrightarrow>
     lists_ok F \<and> (\<forall>i p. on F i p \<longrightarrow> (\<exists>c. findchan cl p = Some c \<and> c_name c = p)) \<and>
     (\<forall>p c. cstring p \<longrightarrow> findchan cl p = Some c \<longrightarrow> good_chan F c)"

lemma members_at: "members F cl \<Longrightarrow> on F i p \<Longrightarrow> \<exists>c. findchan cl p = Some c \<and> c_name c = p"
  unfolding members_def by blast

lemma findchan_lower:
  assumes "chans_ok cl" and "cstring p" and "cstring q" and "strlower p = strlower q"
  shows "findchan cl p = findchan cl q"
  using findchan_char [OF assms(1,2)] findchan_char [OF assms(1,3)] HASH_chan_same [OF assms(4)] assms(4)
  by (intro option_ext) simp

lemma on_cstring: "lists_ok F \<Longrightarrow> on F i p \<Longrightarrow> cstring p"
  by (auto simp: on_def lists_ok_def)

text \<open>A step on one channel: what has to be seen to of the channels and the lists.\<close>

lemma members_step:
  assumes m: "members F cl" and ok: "chans_ok cl" and only: "only_chan name cl cl'" and name: "cstring name"
    and same: "\<And>i p. strlower p \<noteq> strlower name \<Longrightarrow> on F' i p = on F i p" and lists: "lists_ok F'"
    and here: "case findchan cl' name of None \<Rightarrow> \<forall>i p. on F' i p \<longrightarrow> strlower p \<noteq> strlower name
      | Some c \<Rightarrow> good_chan F' c \<and> (\<forall>i p. on F' i p \<and> strlower p = strlower name \<longrightarrow> p = c_name c)"
  shows "members F' cl'"
proof -
  have ok': "chans_ok cl'" and other: "\<And>p. cstring p \<Longrightarrow> strlower p \<noteq> strlower name \<Longrightarrow> findchan cl' p = findchan cl p"
    using only by (simp_all add: only_chan_def)
  have "\<exists>c. findchan cl' p = Some c \<and> c_name c = p" if p: "on F' i p" for i p
  proof (cases "strlower p = strlower name")
    case True
    then obtain c where c: "findchan cl' name = Some c" "p = c_name c"
      using here p by (cases "findchan cl' name") auto
    then show ?thesis using findchan_name(1) [OF ok' name c(1)] by auto
  next
    case False
    then show ?thesis using m p same [OF False] other [OF on_cstring [OF lists p] False] by (auto simp: members_def)
  qed
  moreover have "good_chan F' d" if d: "cstring p" "findchan cl' p = Some d" for p d
  proof (cases "strlower p = strlower name")
    case True
    then have "findchan cl' name = Some d" using findchan_lower [OF ok' d(1) name] d by simp
    then show ?thesis using here by simp
  next
    case False
    then have d': "findchan cl p = Some d" using other d by simp
    have "strlower (c_name d) \<noteq> strlower name" using findchan_name(3) [OF ok d(1) d'] False by simp
    from same [OF this] have "on F' i (c_name d) = on F i (c_name d)" for i .
    moreover have "good_chan F d" using m d(1) d' by (simp add: members_def)
    ultimately show ?thesis by (simp add: good_chan_def)
  qed
  ultimately show ?thesis using lists by (simp add: members_def)
qed

lemma on_upd: "on (F(i := G)) j p = (if j = i then (\<exists>ps. G = Some ps \<and> p \<in> set ps) else on F j p)"
  by (auto simp: on_def)

lemma remove1_lower:
  assumes "distinct (map strlower ps)" and "p \<in> set ps" and "q \<in> set (remove1 p ps)"
  shows "strlower q \<noteq> strlower p"
proof -
  have "distinct ps" using assms(1) by (simp add: distinct_map)
  then have "q \<in> set ps" "q \<noteq> p" using assms(3) by (auto simp: remove1_distinct)
  then show ?thesis using assms(1,2) by (auto simp: distinct_map inj_on_def)
qed

text \<open>Somebody leaves a channel.\<close>

lemma members_leave:
  assumes m: "members F (cs_chans cs)" and ok: "chans_ok (cs_chans cs)" and i: "F i = Some ps" "p \<in> set ps"
  obtains c where "findchan (cs_chans cs) p = Some c" "c_name c = p"
    "members (F(i \<mapsto> remove1 p ps)) (cs_chans (chan_deluser now i c cs))"
    "only_chan p (cs_chans cs) (cs_chans (chan_deluser now i c cs))"
proof -
  have on: "on F i p" using i by (auto simp: on_def)
  have lists: "lists_ok F" using m by (simp add: members_def)
  have p: "cstring p" by (rule on_cstring [OF lists on])
  have di: "distinct (map strlower ps)" using lists i by (auto simp: lists_ok_def)
  obtain c where c: "findchan (cs_chans cs) p = Some c" "c_name c = p" using m on by (auto simp: members_def)
  have g: "good_chan F c" using m p c by (auto simp: members_def)
  define F' where "F' = F(i \<mapsto> remove1 p ps)"
  define cl' where "cl' = cs_chans (chan_deluser now i c cs)"
  have only: "only_chan p (cs_chans cs) cl'" unfolding cl'_def by (rule chan_deluser_frame(1) [OF ok p c(1)])
  have here: "on F' j q \<longleftrightarrow> j \<noteq> i \<and> q = p" if "strlower q = strlower p" "on F' j q \<or> on F j q" for j q
  proof -
    have q: "cstring q" "on F j q"
      using that(2) on_cstring [OF lists] i set_remove1_subset [of p ps] by (auto simp: F'_def on_upd on_def split: if_splits)
    then have "findchan (cs_chans cs) q = Some c" using findchan_lower [OF ok q(1) p that(1)] c by simp
    moreover obtain d where "findchan (cs_chans cs) q = Some d" "c_name d = q" using m q(2) by (auto simp: members_def)
    ultimately have "q = p" using c(2) by simp
    then show ?thesis using q(2) remove1_lower [OF di i(2), of p] by (auto simp: F'_def on_upd)
  qed
  have del: "if set (c_users c) \<subseteq> {i} then findchan cl' p = None
    else \<exists>c'. findchan cl' p = Some c' \<and>
      roster c' = (c_name c, c_channel_id c, filter (\<lambda>j. j \<noteq> i) (c_users c), filter (\<lambda>j. j \<noteq> i) (c_chanops c),
        filter (\<lambda>j. j \<noteq> i) (c_voices c))"
    unfolding cl'_def using g by (intro chan_deluser_ok [OF ok p c(1)]) (simp_all add: good_chan_def)
  have "members F' cl'"
  proof (rule members_step [OF m ok only p])
    fix j q assume "strlower q \<noteq> strlower p"
    then show "on F' j q = on F j q"
      using i by (auto simp: F'_def on_upd on_def) (metis in_set_remove1)+
  next
    have s: "set (remove1 p ps) \<subseteq> set ps" by (rule set_remove1_subset)
    moreover have "distinct (map strlower (remove1 p ps))"
      using di inj_on_subset [of strlower, OF _ s] by (simp add: distinct_map distinct_remove1)
    ultimately show "lists_ok F'" using lists i by (auto simp: F'_def lists_ok_def)
  next
    show "case findchan cl' p of None \<Rightarrow> \<forall>j q. on F' j q \<longrightarrow> strlower q \<noteq> strlower p
      | Some c \<Rightarrow> good_chan F' c \<and> (\<forall>j q. on F' j q \<and> strlower q = strlower p \<longrightarrow> q = c_name c)"
    proof (cases "set (c_users c) \<subseteq> {i}")
      case True
      have "\<not> on F' j q" if "strlower q = strlower p" for j q
      proof
        assume o: "on F' j q"
        then have "j \<noteq> i \<and> q = p" using here [OF that] by blast
        then have "on F j p" using o by (auto simp: F'_def on_upd)
        then have "j \<in> set (c_users c)" using g c(2) by (simp add: good_chan_def)
        then show False using True \<open>j \<noteq> i \<and> q = p\<close> by blast
      qed
      then show ?thesis using True del by auto
    next
      case False
      then obtain c' where c': "findchan cl' p = Some c'" "c_name c' = p"
        "c_users c' = filter (\<lambda>j. j \<noteq> i) (c_users c)" "c_chanops c' = filter (\<lambda>j. j \<noteq> i) (c_chanops c)"
        "c_voices c' = filter (\<lambda>j. j \<noteq> i) (c_voices c)"
        using del c(2) by (auto simp: roster_def)
      have "j \<in> set (c_users c') \<longleftrightarrow> on F' j p" for j
        using g c(2) here [of p j] by (auto simp: c' good_chan_def F'_def on_upd)
      then have "good_chan F' c'" using g False by (auto simp: c' good_chan_def filter_empty_conv)
      moreover have "q = p" if "on F' j q" "strlower q = strlower p" for j q using here [OF that(2)] that(1) by blast
      ultimately show ?thesis using c' by auto
    qed
  qed
  then show thesis using that [of c] c only by (simp add: F'_def cl'_def)
qed

text \<open>A step that leaves who is where, and who has which rank.\<close>

definition seats :: "channel \<Rightarrow> cstr \<times> nat list \<times> nat list \<times> nat list" where
  "seats c = (c_name c, c_users c, c_chanops c, c_voices c)"

definition steady :: "cstr \<Rightarrow> chanlist \<Rightarrow> chanlist \<Rightarrow> bool" where
  "steady name cl cl' \<longleftrightarrow> only_chan name cl cl' \<and> map_option seats (findchan cl' name) = map_option seats (findchan cl name)"

lemma steady_refl: "chans_ok cl \<Longrightarrow> steady name cl cl"
  by (simp add: steady_def only_chan_refl)

lemma good_chan_seats: "seats c = seats d \<Longrightarrow> good_chan F c = good_chan F d"
  by (simp add: seats_def good_chan_def)

lemma members_same:
  assumes m: "members F cl" and ok: "chans_ok cl" and name: "cstring name" and only: "only_chan name cl cl'"
    and here: "case findchan cl' name of None \<Rightarrow> findchan cl name = None
      | Some c' \<Rightarrow> \<exists>c. findchan cl name = Some c \<and> c_name c' = c_name c \<and> good_chan F c'"
  shows "members F cl'"
proof (rule members_step [OF m ok only name refl])
  show lists: "lists_ok F" using m by (simp add: members_def)
  have at: "findchan cl p = findchan cl name" if "on F i p" "strlower p = strlower name" for i p
    using findchan_lower [OF ok on_cstring [OF lists that(1)] name that(2)] .
  show "case findchan cl' name of None \<Rightarrow> \<forall>i p. on F i p \<longrightarrow> strlower p \<noteq> strlower name
      | Some c \<Rightarrow> good_chan F c \<and> (\<forall>i p. on F i p \<and> strlower p = strlower name \<longrightarrow> p = c_name c)"
  proof (cases "findchan cl' name")
    case None
    then have n: "findchan cl name = None" using here by simp
    have "strlower p \<noteq> strlower name" if "on F i p" for i p
      using at [OF that] members_at [OF m that] n by auto
    then show ?thesis using None by simp
  next
    case (Some c')
    then obtain c where c: "findchan cl name = Some c" "c_name c' = c_name c" "good_chan F c'" using here by auto
    moreover have "p = c_name c" if p: "on F i p" "strlower p = strlower name" for i p
    proof -
      obtain d where "findchan cl p = Some d" "c_name d = p" using members_at [OF m p(1)] by blast
      then show ?thesis using at [OF p] c(1) by simp
    qed
    ultimately show ?thesis using Some by auto
  qed
qed

lemma members_steady:
  assumes m: "members F cl" and ok: "chans_ok cl" and name: "cstring name" and st: "steady name cl cl'"
  shows "members F cl'"
proof (rule members_same [OF m ok name])
  have g: "good_chan F c" if "findchan cl name = Some c" for c using m name that by (simp add: members_def)
  show "case findchan cl' name of None \<Rightarrow> findchan cl name = None
      | Some c' \<Rightarrow> \<exists>c. findchan cl name = Some c \<and> c_name c' = c_name c \<and> good_chan F c'"
  proof (cases "findchan cl' name")
    case None
    then show ?thesis using st by (simp add: steady_def)
  next
    case (Some c')
    then obtain c where c: "findchan cl name = Some c" "seats c' = seats c" using st by (cases "findchan cl name") (simp_all add: steady_def)
    then show ?thesis using Some g good_chan_seats [OF c(2)] by (simp add: seats_def)
  qed
qed (use st in \<open>simp add: steady_def\<close>)

text \<open>Somebody joins a channel, alone or with others on it.\<close>

lemma members_join:
  assumes m: "members F cl" and ok: "chans_ok cl" and only: "only_chan name cl cl'" and name: "cstring name"
    and i: "F i = Some ps" "strlower name \<notin> strlower ` set ps"
    and c': "findchan cl' name = Some c'"
    and seat: "case findchan cl name of
        None \<Rightarrow> c_name c' = name \<and> c_users c' = [i] \<and> set (c_chanops c') \<union> set (c_voices c') \<subseteq> {i} \<and>
          distinct (c_chanops c') \<and> distinct (c_voices c')
      | Some c \<Rightarrow> c_name c' = c_name c \<and> c_users c' = i # c_users c \<and>
          c_chanops c' \<in> {c_chanops c, i # c_chanops c} \<and> c_voices c' \<in> {c_voices c, i # c_voices c}"
  shows "members (F(i \<mapsto> c_name c' # ps)) cl'"
proof (rule members_step [OF m ok only name])
  have lists: "lists_ok F" using m by (simp add: members_def)
  have ok': "chans_ok cl'" using only by (simp add: only_chan_def)
  note n = findchan_name(2,3) [OF ok' name c']
  have notin: "strlower p \<noteq> strlower name" if "p \<in> set ps" for p using i(2) that by (metis image_eqI)
  show "on (F(i \<mapsto> c_name c' # ps)) j p = on F j p" if "strlower p \<noteq> strlower name" for j p
    using that n(2) i(1) by (auto simp: on_upd on_def)
  have "strlower (c_name c') \<notin> strlower ` set ps" using i(2) n(2) by simp
  then have "distinct (map strlower (c_name c' # ps))" "\<forall>p\<in>set (c_name c' # ps). cstring p"
    using lists i(1) n(1) by (auto simp: lists_ok_def)
  then show "lists_ok (F(i \<mapsto> c_name c' # ps))"
    using lists unfolding lists_ok_def fun_upd_apply by (metis option.inject)
  have here: "on (F(i \<mapsto> c_name c' # ps)) j p \<longleftrightarrow> p = c_name c' \<and> (j = i \<or> on F j p)"
    if p: "strlower p = strlower name" "on (F(i \<mapsto> c_name c' # ps)) j p \<or> on F j p" for j p
  proof (cases "on F j p")
    case True
    obtain d where "findchan cl p = Some d" "c_name d = p" using m True by (auto simp: members_def)
    then have "findchan cl name = Some d" "c_name d = p"
      using findchan_lower [OF ok on_cstring [OF lists True] name p(1)] by simp_all
    then have "p = c_name c'" using seat by simp
    moreover have "j \<noteq> i" using True i(1) notin p(1) by (auto simp: on_def)
    ultimately show ?thesis using True by (simp add: on_upd)
  next
    case False
    then show ?thesis using p i(1) notin by (auto simp: on_upd split: if_splits)
  qed
  have mem: "j \<in> set (c_users c') \<longleftrightarrow> on (F(i \<mapsto> c_name c' # ps)) j (c_name c')" for j
  proof (cases "findchan cl name")
    case None
    have "\<not> on F j (c_name c')"
    proof
      assume o: "on F j (c_name c')"
      then obtain d where "findchan cl (c_name c') = Some d" using members_at [OF m] by blast
      then show False using findchan_lower [OF ok n(1) name n(2)] None by simp
    qed
    then show ?thesis using seat None by (auto simp: on_upd)
  next
    case (Some c)
    then have "good_chan F c" using m name by (simp add: members_def)
    then show ?thesis using seat Some i(1) by (auto simp: on_upd good_chan_def)
  qed
  have "i \<notin> set (c_users c)" if "findchan cl name = Some c" for c
  proof -
    have "good_chan F c" using m name that by (simp add: members_def)
    moreover have "\<not> on F i (c_name c)" using notin i(1) findchan_name(3) [OF ok name that] by (auto simp: on_def)
    ultimately show ?thesis by (simp add: good_chan_def)
  qed
  moreover have "good_chan F c" if "findchan cl name = Some c" for c using m name that by (simp add: members_def)
  ultimately have "good_chan (F(i \<mapsto> c_name c' # ps)) c'"
    using seat unfolding good_chan_def mem [symmetric]
    by (cases "findchan cl name") (auto simp: good_chan_def)
  then show "case findchan cl' name of None \<Rightarrow> \<forall>j p. on (F(i \<mapsto> c_name c' # ps)) j p \<longrightarrow> strlower p \<noteq> strlower name
      | Some c \<Rightarrow> good_chan (F(i \<mapsto> c_name c' # ps)) c \<and>
          (\<forall>j p. on (F(i \<mapsto> c_name c' # ps)) j p \<and> strlower p = strlower name \<longrightarrow> p = c_name c)"
    using c' here by auto
qed

section \<open>The invariant\<close>

text \<open>
  What users are registered as follows from the tables, whose links lead somewhere, no nickname has been
  forced on anybody, and the locks of the channels do not contradict themselves.  A host with a dot in front would make
  \<open>create_mask\<close> read before the string.
\<close>

definition linked :: "sqldb \<Rightarrow> user \<Rightarrow> bool" where
  "linked db u \<longleftrightarrow> u_real_id u = mysql_findnick db (u_nick u) \<and> u_nick_id u = master_id db (u_real_id u)"

definition links_ok :: "sqldb \<Rightarrow> bool" where
  "links_ok db \<longleftrightarrow> (\<forall>r\<in>set (t_nick db). nr_link r \<noteq> 0 \<longrightarrow> (\<exists>s\<in>set (t_nick db). nr_id s = nr_link r))"

definition base_ok :: "ns_state \<Rightarrow> bool" where
  "base_ok ns \<longleftrightarrow>
     ns_ok ns \<and> unforced (ns_db ns) \<and> links_ok (ns_db ns) \<and> users_ok (ns_users ns) \<and> (\<forall>i. lock_consistent (ns_db ns) i) \<and>
     (\<forall>u\<in>set (all_users (ns_users ns)). linked (ns_db ns) u \<and> hd0 (u_host u) \<noteq> CHR ''.'')"

definition lists_of :: "userlist \<Rightarrow> network" where
  "lists_of ul i = map_option u_chans (user_at ul i)"

definition net_ok :: "cs_state \<Rightarrow> bool" where
  "net_ok cs \<longleftrightarrow>
     base_ok (cs_ns cs) \<and> chans_ok (cs_chans cs) \<and> plain_chans (cs_chans cs) \<and>
     members (lists_of (cs_users cs)) (cs_chans cs)"

text \<open>What only depends on the numbers, names and links of nicknames.\<close>

lemma findnick_links:
  assumes "map nick_link t = map nick_link t'"
  shows "map nr_id (filter (\<lambda>r. sql_eq (nr_nick r) n) t) = map nr_id (filter (\<lambda>r. sql_eq (nr_nick r) n) t')"
    and "map_option nr_link (find (\<lambda>r. nr_id r = i) t) = map_option nr_link (find (\<lambda>r. nr_id r = i) t')"
  using assms by (induction t t' rule: list_induct2', auto simp: nick_link_def)

lemma rev_hd: "(case rev (filter P t) of [] \<Rightarrow> 0 | r # _ \<Rightarrow> nr_id r) = (case rev (map nr_id (filter P t)) of [] \<Rightarrow> 0 | k # _ \<Rightarrow> k)"
  by (cases "rev (filter P t)") (simp_all flip: rev_map)

lemma findnick_frame: "frame ns ns' \<Longrightarrow> mysql_findnick (ns_db ns') n = mysql_findnick (ns_db ns) n"
  using findnick_links(1) [of "t_nick (ns_db ns')" "t_nick (ns_db ns)" n]
  by (simp add: frame_def mysql_findnick_def rev_hd)

lemma getlink_frame: "frame ns ns' \<Longrightarrow> mysql_getlink (ns_db ns') i = mysql_getlink (ns_db ns) i"
  using findnick_links(2) [of "t_nick (ns_db ns')" "t_nick (ns_db ns)" i]
  by (auto simp: frame_def mysql_getlink_def nick.row_def sql_first_def map_option_case split: option.splits)

lemma linked_frame: "frame ns ns' \<Longrightarrow> linked (ns_db ns') u = linked (ns_db ns) u"
  by (simp add: linked_def findnick_frame getlink_frame master_id_def)

lemma links_frame: "frame ns ns' \<Longrightarrow> links_ok (ns_db ns') = links_ok (ns_db ns)"
proof -
  have e: "links_ok db \<longleftrightarrow> (\<forall>x\<in>set (map nick_link (t_nick db)). snd (snd x) \<noteq> 0 \<longrightarrow>
      (\<exists>y\<in>set (map nick_link (t_nick db)). fst y = snd (snd x)))" for db
    by (simp add: links_ok_def nick_link_def)
  show "frame ns ns' \<Longrightarrow> links_ok (ns_db ns') = links_ok (ns_db ns)" unfolding e frame_def by simp
qed

lemma lock_find:
  assumes "map chan_lock t = map chan_lock t'"
  shows "map_option chan_lock (find (\<lambda>r. cr_id r = i) t) = map_option chan_lock (find (\<lambda>r. cr_id r = i) t')"
  using assms by (induction t t' rule: list_induct2') (auto simp: chan_lock_def)

lemma lock_frame: "frame ns ns' \<Longrightarrow> lock_consistent (ns_db ns') i = lock_consistent (ns_db ns) i"
  using lock_find [of "t_channel (ns_db ns')" "t_channel (ns_db ns)" i]
  by (auto simp: frame_def lock_consistent_def get_mlock_on_def get_mlock_off_def get_mlock_limit_def get_mlock_key_def
      chan.row_def sql_first_def chan_lock_def map_option_case split: option.splits)

lemma base_frame:
  assumes "base_ok ns" and "kept ns ns'"
  shows "base_ok ns'"
proof -
  have f: "frame ns ns'" "ns_ok ns'" using assms(2) by (simp_all add: kept_frame)
  moreover have "ns_users ns' = ns_users ns" "unforced (ns_db ns) \<longrightarrow> unforced (ns_db ns')"
    using f(1) by (simp_all add: frame_def)
  ultimately show ?thesis
    using assms(1) by (simp add: base_ok_def linked_frame lock_frame links_frame)
qed

lemma findnick_known:
  assumes "nick.unique (t_nick db)" and "linked db u"
  shows "known db u"
proof -
  have "nick.row (mysql_findnick db n) (t_nick db) \<noteq> None" if "mysql_findnick db n \<noteq> 0" for n
  proof -
    obtain r rs where "rev (filter (\<lambda>r. sql_eq (nr_nick r) n) (t_nick db)) = r # rs"
      using \<open>mysql_findnick db n \<noteq> 0\<close> by (auto simp: mysql_findnick_def split: list.splits)
    then have "r \<in> set (filter (\<lambda>r. sql_eq (nr_nick r) n) (t_nick db))" "mysql_findnick db n = nr_id r"
      by (metis list.set_intros(1) set_rev) (simp add: mysql_findnick_def \<open>rev _ = _\<close>)
    then show ?thesis using nick.row_in [OF assms(1), of "nr_id r" r] by simp
  qed
  then show ?thesis using assms(2) by (auto simp: known_def linked_def)
qed

lemma create_mask_total:
  assumes "hd0 (u_host u) \<noteq> CHR ''.''"
  shows "\<exists>m. create_mask u = Some m"
proof (cases "three_dots (u_host u)")
  case True
  then obtain a b c d where h: "u_host u = a @ CHR ''.'' # b @ CHR ''.'' # c @ CHR ''.'' # d"
    "CHR ''.'' \<notin> set (a @ b @ c @ d)"
    using three_dots_split by blast
  have "cut_dot (u_host u) = Some (a @ CHR ''.'' # b @ CHR ''.'' # c)"
    using cut_dot_append [of d "a @ CHR ''.'' # b @ CHR ''.'' # c"] h by simp
  moreover have "cut_dot (a @ CHR ''.'' # b @ CHR ''.'' # c) = Some (a @ CHR ''.'' # b)"
    using cut_dot_append [of c "a @ CHR ''.'' # b"] h(2) by simp
  moreover have "cut_dot (a @ CHR ''.'' # b) = Some a" using cut_dot_append [of b a] h(2) by simp
  ultimately show ?thesis using assms unfolding create_mask_def Let_def by simp
next
  case False
  then show ?thesis using assms by (simp add: create_mask_def Let_def)
qed

lemma base_known:
  assumes "base_ok ns" and "u \<in> set (all_users (ns_users ns))"
  shows "known (ns_db ns) u" and "u_nick_id u \<noteq> 0 \<longrightarrow> u_real_id u \<noteq> 0" and "\<exists>m. create_mask u = Some m"
proof -
  have l: "linked (ns_db ns) u" and h: "hd0 (u_host u) \<noteq> CHR ''.''" using assms by (auto simp: base_ok_def)
  show "known (ns_db ns) u" using assms(1) l by (intro findnick_known) (auto simp: base_ok_def ns_ok_def)
  show "u_nick_id u \<noteq> 0 \<longrightarrow> u_real_id u \<noteq> 0" using l by (simp add: linked_def master_id_def)
  show "\<exists>m. create_mask u = Some m" by (rule create_mask_total [OF h])
qed

text \<open>The nickname a user is registered under has a row.\<close>

lemma base_master:
  assumes b: "base_ok ns" and u: "u \<in> set (all_users (ns_users ns))" and r: "u_real_id u \<noteq> 0"
  shows "u_nick_id u \<noteq> 0" and "\<exists>s. nick.row (u_nick_id u) (t_nick (ns_db ns)) = Some s"
proof -
  have uniq: "nick.unique (t_nick (ns_db ns))" and links: "links_ok (ns_db ns)" and l: "linked (ns_db ns) u"
    using b u by (auto simp: base_ok_def ns_ok_def)
  obtain row where row: "nick.row (u_real_id u) (t_nick (ns_db ns)) = Some row" using base_known(1) [OF b u] r by (auto simp: known_def)
  have n: "u_nick_id u = (if nr_link row \<noteq> 0 then nr_link row else u_real_id u)"
    using l r row by (simp add: linked_def master_id_def mysql_getlink_def)
  then show "u_nick_id u \<noteq> 0" using r by simp
  show "\<exists>s. nick.row (u_nick_id u) (t_nick (ns_db ns)) = Some s"
  proof (cases "nr_link row = 0")
    case True
    then show ?thesis using n row by simp
  next
    case False
    have "row \<in> set (t_nick (ns_db ns))" using nick.row_in [OF uniq] row by blast
    then obtain s where "s \<in> set (t_nick (ns_db ns))" "nr_id s = u_nick_id u" using links False n by (auto simp: links_ok_def)
    then show ?thesis using nick.row_in [OF uniq] by blast
  qed
qed

end
