(* ===== verification/Traffic.thy ===== *)
theory Traffic
  imports Network
begin

text \<open>
  The messages about channels (JOIN, PART, KICK, MODE and SJOIN) under the invariant of the network:
  they return, keep it, and change who is where as the protocol says.
\<close>

section \<open>The check on a join\<close>

lemma base_all_known: "base_ok ns \<Longrightarrow> all_known ns"
  using base_known(1) by (simp add: all_known_def)

lemma net_found:
  assumes "net_ok cs" and "cstring name" and "findchan (cs_chans cs) name = Some c"
  shows "\<not> c_bouncy_modes c" "length (c_name c) < CHANMAX" "good_chan (lists_of (cs_users cs)) c"
  using assms plain_found [of "cs_chans cs" name c] by (simp_all add: net_ok_def plain_chan_def members_def)

lemma tell_held: "held ns (cs_ns cs) \<Longrightarrow> held ns (cs_ns (tell m cs))"
  using held_tell held_ok held_trans by blast

lemma kick_out_ok:
  assumes ok: "base_ok (cs_ns cs)" "chans_ok (cs_chans cs)" "plain_chans (cs_chans cs)" and name: "cstring name"
  shows "\<exists>cs'. kick_out cfg now u name m reason cs = Some cs' \<and> held (cs_ns cs) (cs_ns cs') \<and>
    steady name (cs_chans cs) (cs_chans cs')"
proof -
  define stay where "stay = (findchan (cs_chans cs) name = None)"
  define cs1 where "cs1 = tell (ChanMode name ''+b:'' [m]) (if stay then tell (SJoin name (s_ChanServ cfg)) cs else cs)"
  have k0: "held (cs_ns cs) (cs_ns cs)" using ok(1) held_refl by (auto simp: base_ok_def)
  have k1: "held (cs_ns cs) (cs_ns cs1)" using k0 by (simp add: cs1_def tell_held)
  have cl1: "cs_chans cs1 = cs_chans cs" by (simp add: cs1_def)
  have "\<exists>cs2. do_cmode cfg now (s_ChanServ cfg) name ''+b'' [m] cs1 = Some cs2 \<and>
      held (cs_ns cs) (cs_ns cs2) \<and> steady name (cs_chans cs) (cs_chans cs2)"
  proof (cases "findchan (cs_chans cs) name")
    case None
    then show ?thesis using k1 cl1 ok(2) by (simp add: do_cmode_def steady_refl)
  next
    case (Some c)
    have b: "\<not> c_bouncy_modes c" using plain_found [OF ok(2) name Some ok(3)] by (simp add: plain_chan_def)
    have "lock_consistent (ns_db (cs_ns cs1)) (c_channel_id c)"
      using base_frame [OF ok(1) held_kept [OF k1]] by (simp add: base_ok_def)
    from do_cmode_ban [OF held_ok [OF k1] _ name _ b this, of cfg now "s_ChanServ cfg" m] Some ok(2)
    obtain cs2 c' ms where c': "do_cmode cfg now (s_ChanServ cfg) name ''+b'' [m] cs1 = Some cs2"
      "findchan (cs_chans cs2) name = Some c'" "cs_chans cs2 = chan_put c' (cs_chans cs)"
      "c_name c' = c_name c" "\<not> c_bouncy_modes c'" "c_users c' = c_users c" "c_chanops c' = c_chanops c"
      "c_voices c' = c_voices c" "quiet ms (cs_ns cs1) (cs_ns cs2)"
      unfolding cl1 by blast
    have "only_chan name (cs_chans cs) (cs_chans cs2)"
      unfolding c'(3) using c' b by (intro only_chan_write [OF ok(2) name Some]) simp_all
    then have "steady name (cs_chans cs) (cs_chans cs2)" using c' Some by (simp add: steady_def seats_def)
    then show ?thesis using c'(1) held_trans [OF k1 held_quiet [OF c'(9)]] by blast
  qed
  then obtain cs2 where cs2: "do_cmode cfg now (s_ChanServ cfg) name ''+b'' [m] cs1 = Some cs2"
    "held (cs_ns cs) (cs_ns cs2)" "steady name (cs_chans cs) (cs_chans cs2)" by blast
  define cs3 where "cs3 = tell (Kick name (u_nick u) reason) cs2"
  have "kick_out cfg now u name m reason cs = Some (if stay then tell (Inhabit name) cs3 else cs3)"
    using cs2(1) unfolding kick_out_def Let_def stay_def [symmetric] cs1_def [symmetric] by (simp add: cs3_def)
  then show ?thesis using cs2 by (auto simp: cs3_def tell_held)
qed

lemma akick_held:
  assumes "ns_ok ns"
  shows "held ns (update_akick_last_used now k u ns)"
proof -
  have "map unmarked (sql_update P (\<lambda>r. r\<lparr>ak_last_used := a, ak_last_matched := b\<rparr>) t) = map unmarked t" for P a b t
    by (simp add: sql_update_def unmarked_def)
  then have "rights (ns_db (update_akick_last_used now k u ns)) = rights (ns_db ns)"
    by (simp add: update_akick_last_used_def rights_def)
  then show ?thesis
    using ns_ok_db [OF assms, of "ns_db (update_akick_last_used now k u ns)"] assms
    by (simp add: update_akick_last_used_def held_def kept_def unforced_def)
qed

lemma yields_held: "yields x (\<lambda>b ns'. b = y \<and> (\<exists>ms. quiet ms ns ns')) \<Longrightarrow> \<exists>ns'. x = Some (y, ns') \<and> held ns ns'"
  by (auto dest!: yieldsD intro: held_quiet)

lemma admin_held: "ns_ok ns \<Longrightarrow> known (ns_db ns) u \<Longrightarrow>
    \<exists>ns'. is_services_admin cfg now u ns = Some (admin_of cfg (ns_db ns) u, ns') \<and> held ns ns'"
  by (rule yields_held, rule is_services_admin_yields [OF quiet_refl]) auto

lemma recognized_held: "ns_ok ns \<Longrightarrow> known (ns_db ns) u \<Longrightarrow>
    \<exists>ns'. nick_recognized now u ns = Some (identified (ns_db ns) u \<or> has (stat (ns_db ns) u) NS_RECOGNIZED, ns') \<and> held ns ns'"
  by (rule yields_held, rule nick_recognized_yields [OF quiet_refl]) auto

lemma access_held: "ns_ok ns \<Longrightarrow> known (ns_db ns) u \<Longrightarrow>
    \<exists>ns'. check_access now u c what ns = Some (allowed (ns_db ns) u c what, ns') \<and> held ns ns'"
  by (rule yields_held, rule check_access_yields [OF quiet_refl]) auto

lemma rights_akick:
  "(\<exists>r\<in>set (t_akick (rights db)). akick_applies (rights db) c i u r) \<longleftrightarrow> (\<exists>r\<in>set (t_akick db). akick_applies db c i u r)"
  by (simp add: rights_lookups)

lemma held_facts:
  assumes "held a b"
  shows "stat (ns_db b) u = stat (ns_db a) u" "identified (ns_db b) u = identified (ns_db a) u"
    "allowed (ns_db b) u c what = allowed (ns_db a) u c what"
    "(\<exists>r\<in>set (t_akick (ns_db b)). akick_applies (ns_db b) c i u r) \<longleftrightarrow>
      (\<exists>r\<in>set (t_akick (ns_db a)). akick_applies (ns_db a) c i u r)"
    "barred cfg now (ns_db b) u name = barred cfg now (ns_db a) u name"
  using assms rights_lookups(5,6) rights_allowed rights_akick rights_barred unfolding held_def by metis+

lemma check_kick_ok:
  assumes ok: "net_ok cs" and u: "user_at (cs_users cs) i = Some u" and name: "cstring name"
  shows "\<exists>cs'. check_kick cfg now u name cs = Some (barred cfg now (ns_db (cs_ns cs)) u name, cs') \<and> held (cs_ns cs) (cs_ns cs') \<and>
    steady name (cs_chans cs) (cs_chans cs')"
proof -
  define ns where "ns = cs_ns cs"
  have b: "base_ok ns" and cl: "chans_ok (cs_chans cs)" "plain_chans (cs_chans cs)" using ok by (simp_all add: net_ok_def ns_def)
  have nsok: "ns_ok ns" using b by (simp add: base_ok_def)
  have on: "u \<in> set (all_users (ns_users ns))" using u user_at_iff [of "ns_users ns" i u] b by (simp add: base_ok_def ns_def)
  obtain m where m: "create_mask u = Some m" using base_known(3) [OF b on] by blast
  have kn: "known (ns_db ns') u" if "held ns ns'" for ns'
    using base_known(1) [OF base_frame [OF b held_kept [OF that]]] on held_users [OF that] by simp
  have out: "\<exists>cs'. kick_out cfg now u name mm reason (cs\<lparr>cs_ns := ns'\<rparr>) = Some cs' \<and> held ns (cs_ns cs') \<and>
      steady name (cs_chans cs) (cs_chans cs')" if "held ns ns'" for ns' mm reason
    using kick_out_ok [of "cs\<lparr>cs_ns := ns'\<rparr>" name cfg now u mm reason] base_frame [OF b held_kept [OF that]] cl name held_trans [OF that]
    by auto
  have same: "held ns (cs_ns (cs\<lparr>cs_ns := ns'\<rparr>)) \<and> steady name (cs_chans cs) (cs_chans (cs\<lparr>cs_ns := ns'\<rparr>))"
    if "held ns ns'" for ns' using that cl by (simp add: steady_refl)
  have fd: "finduser (ns_users ns) (u_nick u) = Some u"
  proof -
    have ul: "users_ok (ns_users ns)" using b by (simp add: base_ok_def)
    then have "cstring (u_nick u)" using on all_users_bucket [OF ul] users_ok_bucket [OF ul] by blast
    then show ?thesis using finduser_char [OF ul] on by simp
  qed
  show ?thesis
  proof (cases "fst (mysql_findchanflags (ns_db ns) name) = 0")
    case True
    then have "\<not> barred cfg now (ns_db ns) u name" by (auto simp: barred_def)
    then show ?thesis using True same [OF held_refl [OF nsok]] by (auto simp: check_kick_def ns_def split_beta)
  next
    case False
    obtain k fl where kf: "mysql_findchanflags (ns_db ns) name = (k, fl)" "k \<noteq> 0"
      using False by (cases "mysql_findchanflags (ns_db ns) name") auto
    define oper where "oper = (\<not> CSAkickOper cfg \<and> has (u_mode u) UMODE_o)"
    have "\<not> has (u_mode u) UMODE_o \<Longrightarrow> \<not> admin_of cfg (ns_db ns) u" by (simp add: admin_of_def)
    then obtain ns1 where ns1: "(if CSAkickOper cfg then Some (False, ns)
        else if is_oper (ns_users ns) (u_nick u) then Some (True, ns)
        else is_services_admin cfg now u ns) = Some (oper, ns1)" "held ns ns1"
      using admin_held [OF nsok kn [OF held_refl [OF nsok]], of cfg now] held_refl [OF nsok]
      by (cases "CSAkickOper cfg"; cases "has (u_mode u) UMODE_o") (auto simp: oper_def is_oper_def fd)
    define rec where "rec = (identified (ns_db ns) u \<or> has (stat (ns_db ns) u) NS_RECOGNIZED)"
    obtain ns2 where ns2: "nick_recognized now u ns1 = Some (rec, ns2)" "held ns1 ns2"
      using recognized_held [OF held_ok [OF ns1(2)] kn [OF ns1(2)], of now] held_facts(1,2) [OF ns1(2)]
      by (auto simp: rec_def)
    have k2: "held ns ns2" by (rule held_trans [OF ns1(2) ns2(2)])
    define bad where "bad = (now - start_time cfg \<ge> CSRestrictDelay cfg \<and> allowed (ns_db ns) u k CA_NOJOIN)"
    obtain ns3 where ns3: "(if now - start_time cfg \<ge> CSRestrictDelay cfg
        then check_access now u k CA_NOJOIN ns2 else Some (False, ns2)) = Some (bad, ns3)" "held ns2 ns3"
      using access_held [OF held_ok [OF k2] kn [OF k2], of now k CA_NOJOIN] held_refl [OF held_ok [OF k2]] held_facts(3) [OF k2]
      by (cases "now - start_time cfg \<ge> CSRestrictDelay cfg") (auto simp: bad_def)
    have k3: "held ns ns3" by (rule held_trans [OF k2 ns3(2)])
    define hits where "hits = filter (akick_applies (ns_db ns2) k (if rec then u_nick_id u else 0) u) (t_akick (ns_db ns2))"
    have hits: "hits = [] \<longleftrightarrow> \<not> (\<exists>r\<in>set (t_akick (ns_db ns)). akick_applies (ns_db ns) k (if rec then u_nick_id u else 0) u r)"
      unfolding hits_def filter_empty_conv held_facts(4) [OF k2, symmetric] by blast
    have bar: "barred cfg now (ns_db ns) u name \<longleftrightarrow> \<not> oper \<and> (has fl CI_VERBOTEN \<or> hits \<noteq> [] \<or> bad)"
      using kf unfolding hits barred_def oper_def rec_def bad_def by auto
    note start = check_kick_def [of cfg now u name cs, folded ns_def, unfolded kf(1) Let_def prod.case]
    show ?thesis
    proof (cases "oper \<or> has fl CI_VERBOTEN")
      case True
      obtain cs1 where "kick_out cfg now u name (''*!'' @ m) (may_not_be_used cfg (u_nick_id u)) (cs\<lparr>cs_ns := ns1\<rparr>) = Some cs1"
        "held ns (cs_ns cs1)" "steady name (cs_chans cs) (cs_chans cs1)" using out [OF ns1(2)] by blast
      then show ?thesis using True kf(2) ns1 m same [OF ns1(2)] unfolding start ns_def [symmetric] bar by (cases oper) auto
    next
      case False
      show ?thesis
      proof (cases hits)
        case Nil
        obtain cs1 where "kick_out cfg now u name (''*!'' @ m) (not_allowed_to_join cfg (u_nick_id u)) (cs\<lparr>cs_ns := ns3\<rparr>) = Some cs1"
          "held ns (cs_ns cs1)" "steady name (cs_chans cs) (cs_chans cs1)" using out [OF k3] by blast
        moreover have "check_kick cfg now u name cs =
            (if bad then do {
               st \<leftarrow> kick_out cfg now u name (''*!'' @ m) (not_allowed_to_join cfg (u_nick_id u)) (cs\<lparr>cs_ns := ns3\<rparr>);
               Some (True, st)
             } else Some (False, cs\<lparr>cs_ns := ns3\<rparr>))"
          using kf(2) ns1(1) ns2(1) ns3(1) False m Nil [unfolded hits_def] unfolding start ns_def [symmetric]
          by (cases rec; cases "CSRestrictDelay cfg \<le> now - start_time cfg") simp_all
        ultimately show ?thesis
          using False Nil same [OF k3] unfolding ns_def [symmetric] bar by (cases bad) auto
      next
        case (Cons r rs)
        define reason where "reason = (case ak_reason r of None \<Rightarrow> CSAutokickReason cfg | Some t \<Rightarrow> t)"
        have "akick_applies (ns_db ns2) k (if rec then u_nick_id u else 0) u r"
          using Cons list.set_intros(1) [of r rs] unfolding hits_def by (metis (lifting) mem_Collect_eq set_filter)
        then have "ak_nick r = 0 \<longrightarrow> ak_mask r \<noteq> None" by (auto simp: akick_applies_def split: option.splits)
        then obtain mm where mm: "(if ak_nick r \<noteq> 0 then map_option (\<lambda>m. ''*!'' @ m) (create_mask u) else ak_mask r) = Some mm"
          using m by (cases "ak_nick r = 0") auto
        have k4: "held ns (update_akick_last_used now (ak_id r) u ns2)"
          by (rule held_trans [OF k2 akick_held [OF held_ok [OF k2]]])
        obtain cs1 where "kick_out cfg now u name mm reason (cs\<lparr>cs_ns := update_akick_last_used now (ak_id r) u ns2\<rparr>) = Some cs1"
          "held ns (cs_ns cs1)" "steady name (cs_chans cs) (cs_chans cs1)" using out [OF k4] by blast
        then show ?thesis
          using kf(2) ns1 ns2 False Cons mm unfolding start reason_def ns_def [symmetric] bar
          by (auto simp flip: hits_def)
      qed
    qed
  qed
qed

section \<open>Joining\<close>

text \<open>Who is online, with the nickname and the channels in lower case.\<close>

type_synonym online = "nat \<Rightarrow> (cstr \<times> cstr list) option"

definition online :: "userlist \<Rightarrow> online" where
  "online ul i = map_option (\<lambda>u. (strlower (u_nick u), map strlower (u_chans u))) (user_at ul i)"

definition hosts :: "userlist \<Rightarrow> nat \<Rightarrow> cstr option" where
  "hosts ul i = map_option u_host (user_at ul i)"

definition on_chans :: "nat \<Rightarrow> (cstr list \<Rightarrow> cstr list) \<Rightarrow> online \<Rightarrow> online" where
  "on_chans i f A = A(i := map_option (apsnd f) (A i))"

lemma ns_ok_users [simp]: "ns_ok (ns\<lparr>ns_users := ul\<rparr>) = ns_ok ns"
  using mine_ok_cong [of "ns\<lparr>ns_users := ul\<rparr>" ns] by (simp add: ns_ok_def)

lemma user_set_sel: "ns_users (set_users f ns) = f (ns_users ns)" "ns_db (set_users f ns) = ns_db ns"
  "ns_ok (set_users f ns) = ns_ok ns"
  by (simp_all add: set_users_def)

text \<open>Writes to a record that leave the registration and the host alone.\<close>

lemma base_user_set:
  assumes "base_ok ns" and f: "\<And>u. u_uid (f u) = u_uid u \<and> u_nick (f u) = u_nick u \<and> u_host (f u) = u_host u \<and>
      u_real_id (f u) = u_real_id u \<and> u_nick_id (f u) = u_nick_id u"
  shows "base_ok (set_users (user_set f i) ns)"
proof -
  have ul: "users_ok (ns_users ns)" using assms(1) by (simp add: base_ok_def)
  note s = user_set_ok [OF ul, where f = f and i = i]
  have "linked (ns_db ns) v \<and> hd0 (u_host v) \<noteq> CHR ''.''" if v: "v \<in> set (all_users (user_set f i (ns_users ns)))" for v
  proof -
    obtain w where w: "w \<in> set (all_users (ns_users ns))" "v = (if u_uid w = i then f w else w)"
      using v s(3) f by blast
    then have "linked (ns_db ns) w" "hd0 (u_host w) \<noteq> CHR ''.''" using assms(1) by (auto simp: base_ok_def)
    then show ?thesis using w(2) f by (simp add: linked_def)
  qed
  then show ?thesis using assms(1) s(1) f by (simp add: base_ok_def user_set_sel)
qed

lemma set_chans_ok:
  assumes b: "base_ok (cs_ns cs)"
  shows "base_ok (cs_ns (set_chans i f cs))" and "cs_chans (set_chans i f cs) = cs_chans cs"
    and "lists_of (cs_users (set_chans i f cs)) =
      (lists_of (cs_users cs))(i := map_option f (lists_of (cs_users cs) i))"
    and "user_at (cs_users (set_chans i f cs)) j =
      (if j = i then map_option (\<lambda>u. u\<lparr>u_chans := f (u_chans u)\<rparr>) (user_at (cs_users cs) j) else user_at (cs_users cs) j)"
proof -
  have ul: "users_ok (cs_users cs)" using b by (simp add: base_ok_def)
  note s = user_set_ok [OF ul, where f = "\<lambda>u. u\<lparr>u_chans := f (u_chans u)\<rparr>" and i = i]
  show "base_ok (cs_ns (set_chans i f cs))"
    using base_user_set [OF b, of "\<lambda>u. u\<lparr>u_chans := f (u_chans u)\<rparr>" i] by (simp add: set_chans_def)
  show "cs_chans (set_chans i f cs) = cs_chans cs" by (simp add: set_chans_def)
  show "user_at (cs_users (set_chans i f cs)) j =
      (if j = i then map_option (\<lambda>u. u\<lparr>u_chans := f (u_chans u)\<rparr>) (user_at (cs_users cs) j) else user_at (cs_users cs) j)" for j
    using s(2) by (simp add: set_chans_def user_set_sel)
  then show "lists_of (cs_users (set_chans i f cs)) =
      (lists_of (cs_users cs))(i := map_option f (lists_of (cs_users cs) i))"
    by (simp add: lists_of_def fun_eq_iff option.map_comp o_def)
qed

text \<open>The part of \<open>chan_adduser\<close> that matters for the membership.\<close>

lemma adduser_members:
  assumes ok: "net_ok cs" and u: "user_at (cs_users cs) i = Some u" and name: "cstring name" "length name < CHANMAX"
    and new: "strlower name \<notin> strlower ` set (u_chans u)"
  shows "\<exists>cs' c. chan_adduser cfg now u name cs = Some cs' \<and> findchan (cs_chans cs') name = Some c \<and>
    held (cs_ns cs) (cs_ns cs') \<and> only_chan name (cs_chans cs) (cs_chans cs') \<and> strlower (c_name c) = strlower name \<and>
    members ((lists_of (cs_users cs))(i \<mapsto> c_name c # u_chans u)) (cs_chans cs')"
proof -
  have b: "base_ok (cs_ns cs)" and cl: "chans_ok (cs_chans cs)" and m: "members (lists_of (cs_users cs)) (cs_chans cs)"
    using ok by (simp_all add: net_ok_def)
  have on: "u \<in> set (all_users (cs_users cs))" "u_uid u = i"
    using u user_at_iff [of "cs_users cs" i u] b by (simp_all add: base_ok_def)
  have F: "lists_of (cs_users cs) i = Some (u_chans u)" using u by (simp add: lists_of_def)
  have n: "ns_ok (cs_ns cs)" "lock_consistent (ns_db (cs_ns cs)) k" for k using b by (simp_all add: base_ok_def)
  note kn = base_known(1) [OF b on(1)]
  have "\<exists>cs' c ms. chan_adduser cfg now u name cs = Some cs' \<and> findchan (cs_chans cs') name = Some c \<and>
      only_chan name (cs_chans cs) (cs_chans cs') \<and> quiet ms (cs_ns cs) (cs_ns cs') \<and>
      members ((lists_of (cs_users cs))(i \<mapsto> c_name c # u_chans u)) (cs_chans cs')"
  proof (cases "findchan (cs_chans cs) name")
    case None
    from chan_adduser_new [OF cl name n(1) kn None refl n(2), of cfg now] obtain cs' c ms
      where c: "chan_adduser cfg now u name cs = Some cs'" "findchan (cs_chans cs') name = Some c"
        "only_chan name (cs_chans cs) (cs_chans cs')" "quiet ms (cs_ns cs) (cs_ns cs')"
        "c_name c = name" "c_users c = [i]" "set (c_chanops c) \<subseteq> {i}" "set (c_voices c) \<subseteq> {i}"
        "distinct (c_chanops c)" "distinct (c_voices c)"
      using on(2) by (auto simp: roster_def split: if_splits)
    from members_join [OF m cl c(3) name(1) F new c(2)] c None show ?thesis by auto
  next
    case (Some d)
    from chan_adduser_old [OF cl name(1) n(1) kn Some, of cfg now] obtain cs' c ms
      where c: "chan_adduser cfg now u name cs = Some cs'" "findchan (cs_chans cs') name = Some c"
        "only_chan name (cs_chans cs) (cs_chans cs')" "quiet ms (cs_ns cs) (cs_ns cs')"
        "c_name c = c_name d" "c_users c = i # c_users d" "c_chanops c \<in> {c_chanops d, i # c_chanops d}"
        "c_voices c \<in> {c_voices d, i # c_voices d}"
      using on(2) by (auto simp: roster_def split: if_splits)
    from members_join [OF m cl c(3) name(1) F new c(2)] c Some show ?thesis by auto
  qed
  then obtain cs' c ms where *: "chan_adduser cfg now u name cs = Some cs'" "findchan (cs_chans cs') name = Some c"
    "only_chan name (cs_chans cs) (cs_chans cs')" "quiet ms (cs_ns cs) (cs_ns cs')"
    "members ((lists_of (cs_users cs))(i \<mapsto> c_name c # u_chans u)) (cs_chans cs')" by blast
  moreover have "strlower (c_name c) = strlower name"
    using *(3) findchan_name(3) [OF _ name(1) *(2)] by (simp add: only_chan_def)
  ultimately show ?thesis using held_quiet by blast
qed

lemma net_steady:
  assumes "net_ok cs" and "cstring name" and "held (cs_ns cs) (cs_ns cs')" and "steady name (cs_chans cs) (cs_chans cs')"
  shows "net_ok cs'" and "cs_users cs' = cs_users cs"
proof -
  show u: "cs_users cs' = cs_users cs" using assms(3) by (rule held_users)
  have "members (lists_of (cs_users cs)) (cs_chans cs')"
    using assms(1,2,4) by (auto simp: net_ok_def intro: members_steady)
  moreover have "chans_ok (cs_chans cs')" "plain_chans (cs_chans cs')"
    using assms(1,4) by (simp_all add: net_ok_def steady_def only_chan_def)
  ultimately show "net_ok cs'" using assms(1) base_frame [OF _ held_kept [OF assms(3)]] u by (simp add: net_ok_def)
qed

lemma net_user: "net_ok cs \<Longrightarrow> user_at (cs_users cs) i = Some u \<longleftrightarrow> u \<in> set (all_users (cs_users cs)) \<and> u_uid u = i"
  using user_at_iff by (simp add: net_ok_def base_ok_def)

lemma entry_held: "ns_ok ns \<Longrightarrow> held ns (display_entry_message u k ns)"
  by (simp add: display_entry_message_def held_refl held_say split: list.split)

text \<open>A change of the list of one user, against the channels.\<close>

lemma net_lists:
  assumes b: "base_ok (cs_ns cs)" and cl: "chans_ok (cs_chans cs)" "plain_chans (cs_chans cs)"
    and u: "user_at (cs_users cs) i = Some u"
    and m: "members ((lists_of (cs_users cs))(i \<mapsto> f (u_chans u))) (cs_chans cs)"
    and g: "map strlower (f (u_chans u)) = g (map strlower (u_chans u))"
  shows "net_ok (set_chans i f cs)" and "online (cs_users (set_chans i f cs)) = on_chans i g (online (cs_users cs))"
    and "hosts (cs_users (set_chans i f cs)) = hosts (cs_users cs)"
proof -
  note s = set_chans_ok [OF b, of i f]
  have "lists_of (cs_users cs) i = Some (u_chans u)" using u by (simp add: lists_of_def)
  then show "net_ok (set_chans i f cs)" using s(1-3) cl m by (simp add: net_ok_def)
  show "online (cs_users (set_chans i f cs)) = on_chans i g (online (cs_users cs))"
    using u g by (simp add: online_def on_chans_def s(4) fun_eq_iff)
  show "hosts (cs_users (set_chans i f cs)) = hosts (cs_users cs)"
    by (simp add: hosts_def s(4) fun_eq_iff option.map_comp o_def)
qed

text \<open>Who is kept out of which channel, by the tables; the work on channels does not change it.\<close>

definition judge :: "cscfg \<Rightarrow> int \<Rightarrow> cs_state \<Rightarrow> nat \<Rightarrow> cstr \<Rightarrow> bool" where
  "judge cfg now cs i name \<longleftrightarrow>
     (\<exists>u. user_at (cs_users cs) i = Some u \<and> barred cfg now (ns_db (cs_ns cs)) u name)"

lemma judge_held: "held (cs_ns cs) (cs_ns cs') \<Longrightarrow> judge cfg now cs' = judge cfg now cs"
  by (simp add: judge_def fun_eq_iff held_users held_facts(5))

lemma judge_set_chans: "base_ok (cs_ns cs) \<Longrightarrow> judge cfg now (set_chans i f cs) = judge cfg now cs"
proof (intro ext)
  fix j name assume b: "base_ok (cs_ns cs)"
  have "ns_db (cs_ns (set_chans i f cs)) = ns_db (cs_ns cs)" by (simp add: set_chans_def user_set_sel)
  then show "judge cfg now (set_chans i f cs) j name = judge cfg now cs j name"
    by (auto simp: judge_def set_chans_ok(4) [OF b])
qed

text \<open>Whether somebody may enter a channel: the name fits, and the user is not on it.\<close>

definition enterable :: "user \<Rightarrow> cstr \<Rightarrow> bool" where
  "enterable u name \<longleftrightarrow> cstring name \<and> length name < CHANMAX \<and> strlower name \<notin> strlower ` set (u_chans u)"

lemma enter_channel_ok:
  assumes ok: "net_ok cs" and u: "user_at (cs_users cs) i = Some u" and e: "enterable u name"
  shows "\<exists>b cs'. enter_channel cfg now i name cs = Some (b, cs') \<and> b = (\<not> judge cfg now cs i name) \<and>
    judge cfg now cs' = judge cfg now cs \<and> net_ok cs' \<and> hosts (cs_users cs') = hosts (cs_users cs) \<and>
    online (cs_users cs') = (if b then on_chans i (Cons (strlower name)) (online (cs_users cs)) else online (cs_users cs)) \<and>
    (b \<longrightarrow> (\<exists>c. findchan (cs_chans cs') name = Some c \<and> i \<in> set (c_users c)))"
proof -
  have name: "cstring name" "length name < CHANMAX" "strlower name \<notin> strlower ` set (u_chans u)"
    using e by (simp_all add: enterable_def)
  define b where "b = judge cfg now cs i name"
  obtain cs1 where cs1: "check_kick cfg now u name cs = Some (b, cs1)" "held (cs_ns cs) (cs_ns cs1)"
    "steady name (cs_chans cs) (cs_chans cs1)" using check_kick_ok [OF ok u name(1)] u by (auto simp: b_def judge_def)
  note j1 = judge_held [OF cs1(2)]
  note n1 = net_steady [OF ok name(1) cs1(2,3)]
  show ?thesis
  proof (cases b)
    case True
    then have "enter_channel cfg now i name cs = Some (False, cs1)" using u cs1(1) by (simp add: enter_channel_def)
    then show ?thesis using n1 True j1 by (auto simp: b_def)
  next
    case False
    have u1: "user_at (cs_users cs1) i = Some u" using u n1(2) by simp
    obtain cs2 c where c: "chan_adduser cfg now u name cs1 = Some cs2" "findchan (cs_chans cs2) name = Some c"
      "held (cs_ns cs1) (cs_ns cs2)" "only_chan name (cs_chans cs1) (cs_chans cs2)" "strlower (c_name c) = strlower name"
      "members ((lists_of (cs_users cs1))(i \<mapsto> c_name c # u_chans u)) (cs_chans cs2)"
      using adduser_members [OF n1(1) u1 name] by blast
    define k where "k = mysql_findchan (ns_db (cs_ns cs2)) name"
    define cs3 where "cs3 = cs2\<lparr>cs_ns := (if k \<noteq> 0
                   then say (CheckChanMemos i k)
                          (if now - start_time cfg \<ge> 10 then display_entry_message u k (cs_ns cs2) else cs_ns cs2)
                   else cs_ns cs2)\<rparr>"
    have ok2: "ns_ok (cs_ns cs2)" using held_ok [OF c(3)] .
    have k23: "held (cs_ns cs2) (cs_ns cs3)"
    proof -
      have d: "held (cs_ns cs2) (display_entry_message u k (cs_ns cs2))" by (rule entry_held [OF ok2])
      have "held (cs_ns cs2) (say (CheckChanMemos i k) (display_entry_message u k (cs_ns cs2)))"
        by (rule held_trans [OF d held_say [OF held_ok [OF d]]])
      then show ?thesis using ok2 held_say [OF ok2] held_refl [OF ok2] by (simp add: cs3_def)
    qed
    have k13: "held (cs_ns cs1) (cs_ns cs3)" by (rule held_trans [OF c(3) k23])
    have b3: "base_ok (cs_ns cs3)" using base_frame [OF _ held_kept [OF k13]] n1(1) by (simp add: net_ok_def)
    have us3: "cs_users cs3 = cs_users cs1" using k13 by (rule held_users)
    have cl3: "cs_chans cs3 = cs_chans cs2" "chans_ok (cs_chans cs3)" "plain_chans (cs_chans cs3)"
      using c(4) n1(1) by (simp_all add: cs3_def only_chan_def net_ok_def)
    have u3: "user_at (cs_users cs3) i = Some u" using u1 us3 by simp
    have m3: "members ((lists_of (cs_users cs3))(i \<mapsto> c_name c # u_chans u)) (cs_chans cs3)"
      using c(6) us3 cl3(1) by simp
    have "enter_channel cfg now i name cs = Some (True, set_chans i (Cons (c_name c)) cs3)"
      using u cs1(1) False c(1,2) unfolding enter_channel_def by (simp add: Let_def cs3_def k_def)
    moreover have "net_ok (set_chans i (Cons (c_name c)) cs3)"
      "online (cs_users (set_chans i (Cons (c_name c)) cs3)) = on_chans i (Cons (strlower name)) (online (cs_users cs3))"
      "hosts (cs_users (set_chans i (Cons (c_name c)) cs3)) = hosts (cs_users cs3)"
      using net_lists [where f = "Cons (c_name c)" and g = "Cons (strlower name)", OF b3 cl3(2,3) u3 m3] c(5) by simp_all
    moreover have "on ((lists_of (cs_users cs3))(i \<mapsto> c_name c # u_chans u)) i (c_name c)" by (simp add: on_def)
    then have "i \<in> set (c_users c)" using m3 c(2) cl3(1) name(1) by (auto simp: members_def good_chan_def)
    moreover have "cs_chans (set_chans i (Cons (c_name c)) cs3) = cs_chans cs2" using cl3(1) set_chans_ok(2) [OF b3] by simp
    moreover have "judge cfg now (set_chans i (Cons (c_name c)) cs3) = judge cfg now cs"
      using judge_set_chans [OF b3] judge_held [OF k13] j1 by simp
    ultimately show ?thesis using c(2,5) us3 n1(2) False by (auto simp: b_def)
  qed
qed

section \<open>Leaving\<close>

text \<open>The invariant while the list of a user is not up to date.\<close>

definition sound :: "network \<Rightarrow> cs_state \<Rightarrow> bool" where
  "sound F cs \<longleftrightarrow>
     base_ok (cs_ns cs) \<and> chans_ok (cs_chans cs) \<and> plain_chans (cs_chans cs) \<and> members F (cs_chans cs)"

lemma net_sound: "net_ok cs \<longleftrightarrow> sound (lists_of (cs_users cs)) cs"
  by (simp add: net_ok_def sound_def)

lemma deluser_sound:
  assumes s: "sound F cs" and i: "F i = Some ps" "p \<in> set ps"
  obtains c where "findchan (cs_chans cs) p = Some c" "c_name c = p"
    "sound (F(i \<mapsto> remove1 p ps)) (chan_deluser now i c cs)" "held (cs_ns cs) (cs_ns (chan_deluser now i c cs))"
proof -
  have m: "members F (cs_chans cs)" and cl: "chans_ok (cs_chans cs)" and b: "base_ok (cs_ns cs)" and pl: "plain_chans (cs_chans cs)"
    using s by (simp_all add: sound_def)
  obtain c where c: "findchan (cs_chans cs) p = Some c" "c_name c = p"
    "members (F(i \<mapsto> remove1 p ps)) (cs_chans (chan_deluser now i c cs))"
    "only_chan p (cs_chans cs) (cs_chans (chan_deluser now i c cs))"
    by (rule members_leave [OF m cl i])
  have p: "cstring p" using on_cstring [of F i p] m i by (auto simp: members_def on_def)
  have k: "held (cs_ns cs) (cs_ns (chan_deluser now i c cs))"
    using chan_deluser_frame(2) [OF cl p c(1)] b by (simp add: base_ok_def)
  have "sound (F(i \<mapsto> remove1 p ps)) (chan_deluser now i c cs)"
    using base_frame [OF b held_kept [OF k]] c(3,4) pl by (simp add: sound_def only_chan_def)
  then show thesis using that c k by blast
qed

lemma leave_chans_ok:
  assumes "sound F cs" and "F i = Some ps"
  shows "\<exists>cs'. leave_chans now i ps cs = Some cs' \<and> sound (F(i \<mapsto> [])) cs' \<and> held (cs_ns cs) (cs_ns cs')"
  using assms
proof (induction ps arbitrary: F cs)
  case Nil
  then have "F(i \<mapsto> []) = F" "ns_ok (cs_ns cs)" by (auto simp: sound_def base_ok_def)
  then show ?case using Nil held_refl by simp
next
  case (Cons p ps)
  obtain c where c: "findchan (cs_chans cs) p = Some c" "sound (F(i \<mapsto> ps)) (chan_deluser now i c cs)"
    "held (cs_ns cs) (cs_ns (chan_deluser now i c cs))"
    using deluser_sound [OF Cons.prems, of p now] by auto
  obtain cs' where "leave_chans now i ps (chan_deluser now i c cs) = Some cs'"
    "sound (F(i \<mapsto> [])) cs'" "held (cs_ns (chan_deluser now i c cs)) (cs_ns cs')"
    using Cons.IH [OF c(2) fun_upd_same] unfolding fun_upd_upd by blast
  then show ?case unfolding leave_chans.simps c(1) option.case using held_trans [OF c(3)] by blast
qed

lemma find_entry_ok:
  assumes m: "members F cl" and ok: "chans_ok cl" and i: "F i = Some qs" "set ps \<subseteq> set qs"
  shows "\<exists>e. find_entry cl name ps = Some e \<and>
    (case e of None \<Rightarrow> strlower name \<notin> strlower ` set ps
     | Some (p, c) \<Rightarrow> p \<in> set ps \<and> findchan cl p = Some c \<and> strlower p = strlower name)"
  using i(2)
proof (induction ps)
  case (Cons p ps)
  have "on F i p" using Cons.prems i(1) by (auto simp: on_def)
  then obtain c where c: "findchan cl p = Some c" "c_name c = p" using members_at [OF m] by blast
  show ?case
  proof (cases "strlower name = strlower p")
    case True
    then show ?thesis using c by simp
  next
    case False
    then show ?thesis using c Cons by (auto split: option.splits)
  qed
qed simp

lemma map_remove1: "inj_on f (set xs) \<Longrightarrow> p \<in> set xs \<Longrightarrow> map f (remove1 p xs) = remove1 (f p) (map f xs)"
  by (induction xs) (auto simp: inj_on_def)

text \<open>An entry that is not there is not removed.\<close>

lemma leave_one_ok:
  assumes ok: "net_ok cs" and u: "user_at (cs_users cs) i = Some u"
  shows "\<exists>cs'. leave_one now u name cs = Some cs' \<and> net_ok cs' \<and> hosts (cs_users cs') = hosts (cs_users cs) \<and>
    online (cs_users cs') = on_chans i (remove1 (strlower name)) (online (cs_users cs))"
proof -
  have uid: "u_uid u = i" using u net_user [OF ok] by blast
  have s: "sound (lists_of (cs_users cs)) cs" using ok by (simp add: net_sound)
  have m: "members (lists_of (cs_users cs)) (cs_chans cs)" and cl: "chans_ok (cs_chans cs)" using s by (simp_all add: sound_def)
  have F: "lists_of (cs_users cs) i = Some (u_chans u)" using u by (simp add: lists_of_def)
  have A: "online (cs_users cs) i = Some (strlower (u_nick u), map strlower (u_chans u))" using u by (simp add: online_def)
  obtain e where e: "find_entry (cs_chans cs) name (u_chans u) = Some e"
    "case e of None \<Rightarrow> strlower name \<notin> strlower ` set (u_chans u)
     | Some (p, c) \<Rightarrow> p \<in> set (u_chans u) \<and> findchan (cs_chans cs) p = Some c \<and> strlower p = strlower name"
    using find_entry_ok [where name = name, OF m cl F order_refl] by blast
  show ?thesis
  proof (cases e)
    case None
    then have "online (cs_users cs) = on_chans i (remove1 (strlower name)) (online (cs_users cs))"
      using A e(2) by (auto simp: on_chans_def fun_eq_iff remove1_idem)
    then show ?thesis using None e(1) ok by (simp add: leave_one_def)
  next
    case (Some pc)
    then obtain p c where pc: "e = Some (p, c)" by (cases pc) auto
    then have p: "p \<in> set (u_chans u)" "findchan (cs_chans cs) p = Some c" "strlower p = strlower name" using e(2) by auto
    define cs1 where "cs1 = chan_deluser now i c cs"
    have s1: "sound ((lists_of (cs_users cs))(i \<mapsto> remove1 p (u_chans u))) cs1" "held (cs_ns cs) (cs_ns cs1)"
      using deluser_sound [OF s F p(1), of now] p(2) by (auto simp: cs1_def)
    have us: "cs_users cs1 = cs_users cs" using s1(2) by (rule held_users)
    have g: "map strlower (remove1 p (u_chans u)) = remove1 (strlower name) (map strlower (u_chans u))"
    proof -
      have "inj_on strlower (set (u_chans u))" using m F by (auto simp: members_def lists_ok_def distinct_map)
      then show ?thesis using map_remove1 [of strlower "u_chans u" p] p(1,3) by simp
    qed
    have b1: "base_ok (cs_ns cs1)" "chans_ok (cs_chans cs1)" "plain_chans (cs_chans cs1)" using s1(1) by (simp_all add: sound_def)
    have u1: "user_at (cs_users cs1) i = Some u" using u us by simp
    have m1: "members ((lists_of (cs_users cs1))(i \<mapsto> remove1 p (u_chans u))) (cs_chans cs1)"
      using s1(1) us by (simp add: sound_def)
    have "leave_one now u name cs = Some (set_chans i (remove1 p) cs1)"
      using e(1) pc uid by (simp add: leave_one_def cs1_def)
    then show ?thesis
      using net_lists [where f = "remove1 p" and g = "remove1 (strlower name)", OF b1 u1 m1 g] us by simp
  qed
qed

section \<open>The messages about channels\<close>

text \<open>
  JOIN, where the answers tell who was let in: a name starting with a zero leaves all channels.  A list
  can be joined when every name fits and is new.
\<close>

fun abs_join :: "nat \<Rightarrow> (cstr \<times> bool) list \<Rightarrow> online \<Rightarrow> online" where
  "abs_join i [] A = A"
| "abs_join i ((s, b) # ps) A =
     abs_join i ps (if hd0 s = CHR ''0'' then on_chans i (\<lambda>_. []) A
                    else if b then on_chans i (Cons (strlower s)) A else A)"

fun joinable :: "cstr list \<Rightarrow> cstr list \<Rightarrow> bool" where
  "joinable cur [] \<longleftrightarrow> True"
| "joinable cur (s # ss) \<longleftrightarrow>
     (if hd0 s = CHR ''0'' then joinable [] ss
      else cstring s \<and> length s < CHANMAX \<and> strlower s \<notin> set cur \<and> joinable (strlower s # cur) ss)"

lemma joinable_fewer: "joinable cur ss \<Longrightarrow> set cur' \<subseteq> set cur \<Longrightarrow> joinable cur' ss"
proof (induction ss arbitrary: cur cur')
  case (Cons s ss)
  have "set (strlower s # cur') \<subseteq> set (strlower s # cur)" using Cons.prems(2) by auto
  from Cons.IH [OF _ this] Cons.prems show ?case by (auto split: if_splits)
qed simp

lemma online_at: "online ul i = Some (n, ls) \<longleftrightarrow> (\<exists>u. user_at ul i = Some u \<and> n = strlower (u_nick u) \<and> ls = map strlower (u_chans u))"
  by (auto simp: online_def)

lemma join_piece_ok:
  assumes ok: "net_ok cs" and u: "online (cs_users cs) i = Some (n, ls)" and j: "joinable ls [s]"
  shows "\<exists>cs'. join_piece cfg now i s cs = Some cs' \<and> judge cfg now cs' = judge cfg now cs \<and>
    net_ok cs' \<and> hosts (cs_users cs') = hosts (cs_users cs) \<and>
    online (cs_users cs') = abs_join i [(s, \<not> judge cfg now cs i s)] (online (cs_users cs))"
proof -
  obtain u where u: "user_at (cs_users cs) i = Some u" "ls = map strlower (u_chans u)" using u by (auto simp: online_at)
  show ?thesis
  proof (cases "hd0 s = CHR ''0''")
    case False
    then have "enterable u s" using j u(2) by (simp add: enterable_def)
    from enter_channel_ok [OF ok u(1) this, of cfg now] show ?thesis using False by (force simp: join_piece_def)
  next
    case True
    have s: "sound (lists_of (cs_users cs)) cs" using ok by (simp add: net_sound)
    have "lists_of (cs_users cs) i = Some (u_chans u)" using u by (simp add: lists_of_def)
    from leave_chans_ok [OF s this, of now] obtain cs1 where cs1: "leave_chans now i (u_chans u) cs = Some cs1"
      "sound ((lists_of (cs_users cs))(i \<mapsto> [])) cs1" "held (cs_ns cs) (cs_ns cs1)" by blast
    have us: "cs_users cs1 = cs_users cs" using cs1(3) by (rule held_users)
    have b1: "base_ok (cs_ns cs1)" "chans_ok (cs_chans cs1)" "plain_chans (cs_chans cs1)" using cs1(2) by (simp_all add: sound_def)
    have u1: "user_at (cs_users cs1) i = Some u" using u us by simp
    have m1: "members ((lists_of (cs_users cs1))(i \<mapsto> [])) (cs_chans cs1)" using cs1(2) us by (simp add: sound_def)
    show ?thesis
      using True u(1) cs1(1) us net_lists [where f = "\<lambda>_. []" and g = "\<lambda>_. []", OF b1 u1 m1]
        judge_set_chans [OF b1(1), of cfg now i "\<lambda>_. []"] judge_held [OF cs1(3)]
      by (simp add: join_piece_def)
  qed
qed

lemma abs_join_list:
  assumes "A i = Some (n, ls)" and "joinable ls (s # ss)"
  obtains ls' where "abs_join i [(s, b)] A i = Some (n, ls')" "joinable ls' ss"
proof (cases "hd0 s = CHR ''0''")
  case True
  then show thesis using that [of "[]"] assms by (simp add: on_chans_def)
next
  case False
  then have "joinable (if b then strlower s # ls else ls) ss"
    using assms(2) joinable_fewer [of "strlower s # ls" ss ls] by auto
  then show thesis using that [of "if b then strlower s # ls else ls"] False assms(1) by (simp add: on_chans_def)
qed

lemma join_loop_ok:
  assumes "net_ok cs" and "online (cs_users cs) i = Some (n, ls)" and "joinable ls ss"
  shows "\<exists>cs'. join_loop cfg now i ss cs = Some cs' \<and> net_ok cs' \<and> hosts (cs_users cs') = hosts (cs_users cs) \<and>
    online (cs_users cs') = abs_join i (map (\<lambda>s. (s, \<not> judge cfg now cs i s)) ss) (online (cs_users cs))"
  using assms
proof (induction ss arbitrary: cs ls)
  case (Cons s ss)
  have "joinable ls [s]" using Cons.prems(3) by (auto split: if_splits)
  from join_piece_ok [OF Cons.prems(1,2) this, of cfg now] obtain cs1 where cs1: "join_piece cfg now i s cs = Some cs1"
    "judge cfg now cs1 = judge cfg now cs" "net_ok cs1" "hosts (cs_users cs1) = hosts (cs_users cs)"
    "online (cs_users cs1) = abs_join i [(s, \<not> judge cfg now cs i s)] (online (cs_users cs))" by blast
  obtain ls' where "online (cs_users cs1) i = Some (n, ls')" "joinable ls' ss"
    unfolding cs1(5)
    by (rule abs_join_list [where A = "online (cs_users cs)" and i = i and b = "\<not> judge cfg now cs i s", OF Cons.prems(2,3)])
  from Cons.IH [OF cs1(3) this] obtain cs' where "join_loop cfg now i ss cs1 = Some cs'"
    "net_ok cs'" "hosts (cs_users cs') = hosts (cs_users cs1)"
    "online (cs_users cs') = abs_join i (map (\<lambda>s. (s, \<not> judge cfg now cs i s)) ss) (online (cs_users cs1))"
    unfolding cs1(2) by blast
  then show ?case using cs1 by (intro exI [of _ cs']) simp
qed simp

lemma part_loop_ok:
  assumes "net_ok cs" and "user_at (cs_users cs) i \<noteq> None"
  shows "\<exists>cs'. part_loop now i ss cs = Some cs' \<and> net_ok cs' \<and> hosts (cs_users cs') = hosts (cs_users cs) \<and>
    online (cs_users cs') = fold (\<lambda>s. on_chans i (remove1 (strlower s))) ss (online (cs_users cs))"
  using assms
proof (induction ss arbitrary: cs)
  case (Cons s ss)
  then obtain u where u: "user_at (cs_users cs) i = Some u" by blast
  from leave_one_ok [OF Cons.prems(1) u, of now s] obtain cs1 where cs1: "leave_one now u s cs = Some cs1" "net_ok cs1"
    "hosts (cs_users cs1) = hosts (cs_users cs)" "online (cs_users cs1) = on_chans i (remove1 (strlower s)) (online (cs_users cs))" by blast
  have "online (cs_users cs1) i \<noteq> None" using u by (simp add: cs1(4) on_chans_def online_def)
  then have "user_at (cs_users cs1) i \<noteq> None" by (simp add: online_def)
  from Cons.IH [OF cs1(2) this] show ?case using u cs1(1,3,4) by simp
qed simp

text \<open>A change of the list of the user with a nickname; KICK takes the channel off it.\<close>

definition abs_named :: "cstr \<Rightarrow> (cstr list \<Rightarrow> cstr list) \<Rightarrow> online \<Rightarrow> online" where
  "abs_named s f A i = map_option (\<lambda>(n, ls). (n, if n = strlower s then f ls else ls)) (A i)"

lemma net_finduser:
  assumes ok: "net_ok cs" and s: "cstring s"
  shows "finduser (cs_users cs) s = Some u \<longleftrightarrow> user_at (cs_users cs) (u_uid u) = Some u \<and> strlower (u_nick u) = strlower s"
  using finduser_char [of "cs_users cs" s u] net_user [OF ok] ok s by (auto simp: net_ok_def base_ok_def)

lemma named_one:
  assumes ok: "net_ok cs" and s: "cstring s"
  shows "abs_named s f (online (cs_users cs)) =
    (case finduser (cs_users cs) s of None \<Rightarrow> online (cs_users cs)
     | Some u \<Rightarrow> on_chans (u_uid u) f (online (cs_users cs)))"
proof
  fix i
  have uid: "u_uid v = j" if "user_at (cs_users cs) j = Some v" for v j using that net_user [OF ok] by blast
  show "abs_named s f (online (cs_users cs)) i =
    (case finduser (cs_users cs) s of None \<Rightarrow> online (cs_users cs)
     | Some u \<Rightarrow> on_chans (u_uid u) f (online (cs_users cs))) i"
  proof (cases "user_at (cs_users cs) i")
    case None
    then show ?thesis using net_finduser [OF ok s] by (auto simp: abs_named_def online_def on_chans_def split: option.split)
  next
    case (Some v)
    have fd: "finduser (cs_users cs) s = Some v \<longleftrightarrow> strlower (u_nick v) = strlower s"
      using net_finduser [OF ok s, of v] Some uid [OF Some] by simp
    show ?thesis
    proof (cases "finduser (cs_users cs) s")
      case None
      then show ?thesis using fd Some by (simp add: abs_named_def online_def)
    next
      case fu: (Some w)
      have w: "user_at (cs_users cs) (u_uid w) = Some w" using net_finduser [OF ok s] fu by blast
      show ?thesis
      proof (cases "u_uid w = i")
        case True
        then have "w = v" using w Some by simp
        then show ?thesis using fd fu Some True by (simp add: abs_named_def online_def on_chans_def)
      next
        case False
        then have "w \<noteq> v" using uid [OF Some] by blast
        then show ?thesis using fd fu Some False by (simp add: abs_named_def online_def on_chans_def)
      qed
    qed
  qed
qed

lemma kick_loop_ok:
  assumes "net_ok cs" and "\<forall>s\<in>set ss. cstring s"
  shows "\<exists>cs'. kick_loop now channel ss cs = Some cs' \<and> net_ok cs' \<and> hosts (cs_users cs') = hosts (cs_users cs) \<and>
    online (cs_users cs') = fold (\<lambda>s. abs_named s (remove1 (strlower channel))) ss (online (cs_users cs))"
  using assms
proof (induction ss arbitrary: cs)
  case (Cons s ss)
  then have s: "cstring s" "\<forall>s\<in>set ss. cstring s" by simp_all
  note k = named_one [OF Cons.prems(1) s(1), of "remove1 (strlower channel)"]
  show ?case
  proof (cases "finduser (cs_users cs) s")
    case None
    then show ?thesis using Cons.IH [OF Cons.prems(1) s(2)] k by simp
  next
    case (Some u)
    then have "user_at (cs_users cs) (u_uid u) = Some u" using net_finduser [OF Cons.prems(1) s(1)] by blast
    from leave_one_ok [OF Cons.prems(1) this, of now channel] obtain cs1 where cs1: "leave_one now u channel cs = Some cs1"
      "net_ok cs1" "hosts (cs_users cs1) = hosts (cs_users cs)" "online (cs_users cs1) = on_chans (u_uid u) (remove1 (strlower channel)) (online (cs_users cs))" by blast
    from Cons.IH [OF cs1(2) s(2)] show ?thesis using Some cs1 k by simp
  qed
qed simp

section \<open>MODE and SJOIN\<close>

text \<open>The parameters of a MODE command name nobody outside the channel.\<close>

definition names_members :: "userlist \<Rightarrow> cstr \<Rightarrow> cstr list \<Rightarrow> bool" where
  "names_members ul name args \<longleftrightarrow>
     (\<forall>a\<in>set args. cstring a \<and> (\<forall>u. finduser ul a = Some u \<longrightarrow> strlower name \<in> strlower ` set (u_chans u)))"

lemma mode_net_ok:
  assumes ok: "net_ok cs" and name: "cstring name" and named: "names_members (cs_users cs) name args"
  shows "\<exists>cs'. do_cmode cfg now source name modes args cs = Some cs' \<and> net_ok cs' \<and> cs_users cs' = cs_users cs \<and>
    held (cs_ns cs) (cs_ns cs')"
proof (cases "findchan (cs_chans cs) name")
  case None
  moreover have "ns_ok (cs_ns cs)" using ok by (simp add: net_ok_def base_ok_def)
  ultimately show ?thesis using ok by (simp add: do_cmode_def held_refl)
next
  case (Some c)
  define F where "F = lists_of (cs_users cs)"
  have b: "base_ok (cs_ns cs)" and cl: "chans_ok (cs_chans cs)" and m: "members F (cs_chans cs)"
    using ok by (simp_all add: net_ok_def F_def)
  note f = net_found [OF ok name Some, folded F_def]
  have g: "good_chan F c" by (rule f(3))
  have on: "u_uid u \<in> set (c_users c)" if u: "user_at (cs_users cs) (u_uid u) = Some u" "p \<in> set (u_chans u)"
    "strlower p = strlower name" for u p
  proof -
    have o: "on F (u_uid u) p" using u by (simp add: on_def F_def lists_of_def)
    have "findchan (cs_chans cs) p = Some c"
      using findchan_lower [OF cl _ name u(3)] on_cstring [OF _ o] m Some by (simp add: members_def)
    then have "c_name c = p" using members_at [OF m o] by simp
    then show ?thesis using g o by (simp add: good_chan_def)
  qed
  have named_in: "named_in (cs_users cs) (set (c_users c)) args"
    unfolding named_in_def
  proof (intro ballI allI impI)
    fix a u assume a: "a \<in> set args" "finduser (cs_users cs) a = Some u"
    then have "cstring a" "strlower name \<in> strlower ` set (u_chans u)" using named by (auto simp: names_members_def)
    moreover have "user_at (cs_users cs) (u_uid u) = Some u" using net_finduser [OF ok \<open>cstring a\<close>] a(2) by blast
    ultimately show "u_uid u \<in> set (c_users c)" using on by (metis imageE)
  qed
  have online: "set (c_users c) \<subseteq> u_uid ` set (all_users (cs_users cs))"
  proof
    fix i assume "i \<in> set (c_users c)"
    then have "on F i (c_name c)" using g by (simp add: good_chan_def)
    then obtain u where "user_at (cs_users cs) i = Some u" by (auto simp: on_def F_def lists_of_def)
    then show "i \<in> u_uid ` set (all_users (cs_users cs))" using net_user [OF ok] by (metis image_eqI)
  qed
  have r: "rights_ok False (cs_users cs) (set (c_users c)) c c"
    using g online by (simp add: rights_ok_def good_chan_def)
  have D: "users_ok (cs_users cs)" "\<forall>a\<in>set args. cstring a" and n: "ns_ok (cs_ns cs)" "lock_consistent (ns_db (cs_ns cs)) k" for k
    using b named by (simp_all add: base_ok_def names_members_def)
  obtain cs' c' ms where c': "do_cmode cfg now source name modes args cs = Some cs'"
    "findchan (cs_chans cs') name = Some c'" "cs_chans cs' = chan_put c' (cs_chans cs)"
    "rights_ok True (cs_users cs) (set (c_users c)) c c'" "c_name c' = c_name c" "\<not> c_bouncy_modes c'"
    "c_users c' = c_users c" "quiet ms (cs_ns cs) (cs_ns cs')"
    using do_cmode_gen [OF n(1) base_all_known [OF b] cl name Some f(1) r named_in D n(2)] by blast
  have k: "held (cs_ns cs) (cs_ns cs')" by (rule held_quiet [OF c'(8)])
  have only: "only_chan name (cs_chans cs) (cs_chans cs')"
    unfolding c'(3) using c' f(1) by (intro only_chan_write [OF cl name Some]) simp_all
  have "good_chan F c'"
    using c'(4) g by (simp add: rights_ok_def good_chan_def c'(5,7))
  then have "members F (cs_chans cs')"
    using c'(2,5) Some by (intro members_same [OF m cl name only]) simp
  moreover have "cs_users cs' = cs_users cs" using k by (rule held_users)
  ultimately show ?thesis
    using c'(1) base_frame [OF b held_kept [OF k]] only ok k by (simp add: net_ok_def only_chan_def F_def)
qed

text \<open>
  SJOIN brings in the users of a list, each with at most two signs of rank; a list is fit when its
  nicknames differ and nobody of them is on the channel.
\<close>

definition bare_nick :: "cstr \<Rightarrow> cstr" where
  "bare_nick piece = dropWhile (\<lambda>x. x \<in> {CHR ''@'', CHR ''+''}) piece"

definition fit :: "cstr \<Rightarrow> cstr list \<Rightarrow> online \<Rightarrow> bool" where
  "fit channel ss A \<longleftrightarrow>
     distinct (map (\<lambda>s. strlower (bare_nick s)) ss) \<and>
     (\<forall>s\<in>set ss. length s \<le> length (bare_nick s) + 2 \<and> cstring (bare_nick s) \<and>
        (\<forall>i ls. A i = Some (strlower (bare_nick s), ls) \<longrightarrow> strlower channel \<notin> set ls))"

definition abs_sjoin :: "cstr \<Rightarrow> cstr \<times> bool \<Rightarrow> online \<Rightarrow> online" where
  "abs_sjoin channel sb A = (if snd sb then abs_named (bare_nick (fst sb)) (Cons (strlower channel)) A else A)"

text \<open>Whether nobody with the nickname of a piece is barred from the channel.\<close>

definition let_in :: "(nat \<Rightarrow> cstr \<Rightarrow> bool) \<Rightarrow> online \<Rightarrow> cstr \<Rightarrow> cstr \<Rightarrow> bool" where
  "let_in J A channel s \<longleftrightarrow> (\<forall>i ls. A i = Some (strlower (bare_nick s), ls) \<longrightarrow> \<not> J i channel)"

lemma let_in_step: "let_in J (abs_sjoin channel sb A) channel t = let_in J A channel t"
proof -
  have "(\<exists>ls. abs_sjoin channel sb A i = Some (n, ls)) \<longleftrightarrow> (\<exists>ls. A i = Some (n, ls))" for i n
    by (cases "A i") (auto simp: abs_sjoin_def abs_named_def)
  then show ?thesis unfolding let_in_def by blast
qed

lemma fit_step: "fit channel (s # ss) A \<Longrightarrow> fit channel ss (abs_sjoin channel (s, b) A)"
proof -
  assume f: "fit channel (s # ss) A"
  then have "strlower (bare_nick s) \<notin> (\<lambda>s. strlower (bare_nick s)) ` set ss" by (simp add: fit_def)
  then have "strlower (bare_nick t) \<noteq> strlower (bare_nick s)" if "t \<in> set ss" for t using that by (metis (mono_tags, lifting) imageI)
  then show ?thesis using f by (auto simp: fit_def abs_sjoin_def abs_named_def split: if_splits)
qed

lemma put_time_steady:
  assumes "net_ok cs" and "cstring name" and "findchan (cs_chans cs) name = Some c"
  shows "net_ok (put_chan (c\<lparr>c_creation_time := t\<rparr>) cs)" and "cs_users (put_chan (c\<lparr>c_creation_time := t\<rparr>) cs) = cs_users cs"
proof -
  have cl: "chans_ok (cs_chans cs)" and k: "held (cs_ns cs) (cs_ns (put_chan (c\<lparr>c_creation_time := t\<rparr>) cs))"
    using assms(1) by (simp_all add: net_ok_def base_ok_def held_refl)
  have "steady name (cs_chans cs) (cs_chans (put_chan (c\<lparr>c_creation_time := t\<rparr>) cs))"
    using only_chan_write [OF cl assms(2,3), of "c\<lparr>c_creation_time := t\<rparr>"]
      findchan_put [OF cl assms(2,3), of "c\<lparr>c_creation_time := t\<rparr>"] assms(3) by (simp add: steady_def seats_def)
  from net_steady [OF assms(1,2) k this]
  show "net_ok (put_chan (c\<lparr>c_creation_time := t\<rparr>) cs)" "cs_users (put_chan (c\<lparr>c_creation_time := t\<rparr>) cs) = cs_users cs" .
qed

lemma sjoin_piece_ok:
  assumes ok: "net_ok cs" and ch: "cstring channel" "length channel < CHANMAX" and f: "fit channel [s] (online (cs_users cs))"
  shows "\<exists>k cs'. sjoin_piece cfg now source channel s (j, cs) = Some (k, cs') \<and> net_ok cs' \<and>
    judge (k_cs cfg) now cs' = judge (k_cs cfg) now cs \<and> hosts (cs_users cs') = hosts (cs_users cs) \<and>
    online (cs_users cs') = abs_sjoin channel (s, let_in (judge (k_cs cfg) now cs) (online (cs_users cs)) channel s) (online (cs_users cs))"
proof -
  define ranks where "ranks = takeWhile (\<lambda>x. x \<in> {CHR ''@'', CHR ''+''}) s"
  have sp: "s = ranks @ bare_nick s" by (simp add: ranks_def bare_nick_def)
  have nick: "drop (length ranks) s = bare_nick s" by (subst sp) simp
  have "length s = length ranks + length (bare_nick s)" by (subst sp) simp
  then have r2: "length ranks \<le> 2" and cs: "cstring (bare_nick s)" using f by (simp_all add: fit_def)
  note start = sjoin_piece_def [of cfg now source channel s "(j, cs)", folded ranks_def, unfolded Let_def nick snd_conv fst_conv]
  show ?thesis
  proof (cases "finduser (cs_users cs) (bare_nick s)")
    case None
    then show ?thesis
      using ok r2 named_one [OF ok cs, of "Cons (strlower channel)"] unfolding start by (simp add: abs_sjoin_def)
  next
    case (Some u)
    define i where "i = u_uid u"
    have u: "user_at (cs_users cs) i = Some u" "strlower (u_nick u) = strlower (bare_nick s)"
      using net_finduser [OF ok cs] Some unfolding i_def by blast+
    have "online (cs_users cs) i = Some (strlower (bare_nick s), map strlower (u_chans u))" using u by (simp add: online_def)
    moreover have "\<forall>i ls. online (cs_users cs) i = Some (strlower (bare_nick s), ls) \<longrightarrow> strlower channel \<notin> set ls"
      using f by (simp add: fit_def)
    ultimately have "strlower channel \<notin> set (map strlower (u_chans u))" by blast
    then have "enterable u channel" using ch by (simp add: enterable_def)
    from enter_channel_ok [OF ok u(1) this, of "k_cs cfg" now] obtain b cs1 where
      j1: "b = (\<not> judge (k_cs cfg) now cs i channel)" "judge (k_cs cfg) now cs1 = judge (k_cs cfg) now cs" and
      cs1: "enter_channel (k_cs cfg) now i channel cs = Some (b, cs1)" "net_ok cs1"
        "online (cs_users cs1) = (if b then on_chans i (Cons (strlower channel)) (online (cs_users cs)) else online (cs_users cs))"
        "b \<longrightarrow> (\<exists>c. findchan (cs_chans cs1) channel = Some c)" and h1: "hosts (cs_users cs1) = hosts (cs_users cs)" by blast
    have i_only: "k = i" if "online (cs_users cs) k = Some (strlower (bare_nick s), ls)" for k ls
    proof -
      obtain w where w: "user_at (cs_users cs) k = Some w" "strlower (u_nick w) = strlower (bare_nick s)"
        using \<open>online (cs_users cs) k = _\<close> by (auto simp: online_at)
      have "u_uid w = k" using w(1) net_user [OF ok] by blast
      then show ?thesis using net_finduser [OF ok cs, of w] w Some by (simp add: i_def)
    qed
    moreover have "online (cs_users cs) i = Some (strlower (bare_nick s), map strlower (u_chans u))"
      using u by (simp add: online_def)
    ultimately have b: "b = let_in (judge (k_cs cfg) now cs) (online (cs_users cs)) channel s"
      unfolding j1(1) let_in_def by blast
    have a: "abs_sjoin channel (s, b) (online (cs_users cs)) = online (cs_users cs1)"
      using named_one [OF ok cs, of "Cons (strlower channel)"] Some cs1(3) by (simp add: abs_sjoin_def i_def)
    show ?thesis
    proof (cases b)
      case False
      then have "sjoin_piece cfg now source channel s (j, cs) = Some (j, cs1)"
        using Some cs1(1) r2 unfolding start by (simp add: i_def)
      then show ?thesis using cs1(2) h1 a j1(2) unfolding b [symmetric] by metis
    next
      case True
      then obtain c where c: "findchan (cs_chans cs1) channel = Some c" using cs1(4) by blast
      define cs2 where "cs2 = put_chan (c\<lparr>c_creation_time := k_address cfg\<rparr>) cs1"
      have cs2: "net_ok cs2" "cs_users cs2 = cs_users cs1"
        using put_time_steady [OF cs1(2) ch(1) c] by (simp_all add: cs2_def)
      have "online (cs_users cs2) i = Some (strlower (bare_nick s), strlower channel # map strlower (u_chans u))"
        using cs1(3) True u cs2(2) by (simp add: on_chans_def online_def)
      then obtain v where v: "user_at (cs_users cs2) i = Some v" "strlower (u_nick v) = strlower (bare_nick s)"
        "strlower channel \<in> strlower ` set (u_chans v)" by (auto simp: online_at)
      have vi: "u_uid v = i" using v(1) net_user [OF cs2(1)] by blast
      have "finduser (cs_users cs2) (bare_nick s) = Some v" using net_finduser [OF cs2(1) cs, of v] v vi by simp
      then have "names_members (cs_users cs2) channel (replicate (length ranks) (bare_nick s))"
        using v(3) cs by (simp add: names_members_def)
      from mode_net_ok [OF cs2(1) ch(1) this, of "k_cs cfg" now source "CHR ''+'' # map rank_mode ranks"] obtain cs3 where
        cs3: "do_cmode (k_cs cfg) now source channel (CHR ''+'' # map rank_mode ranks) (replicate (length ranks) (bare_nick s)) cs2 = Some cs3"
          "net_ok cs3" "cs_users cs3 = cs_users cs2" "held (cs_ns cs2) (cs_ns cs3)" by blast
      have j2: "judge (k_cs cfg) now cs2 = judge (k_cs cfg) now cs" using j1(2) cs2(2) by (simp add: judge_def fun_eq_iff cs2_def)
      have j3: "judge (k_cs cfg) now cs3 = judge (k_cs cfg) now cs" using judge_held [OF cs3(4)] j2 by simp
      have "sjoin_piece cfg now source channel s (j, cs) = Some (j + 1, if ranks = [] then cs2 else cs3)"
        using Some cs1(1) r2 c cs3(1) True unfolding start by (simp add: i_def cs2_def)
      then show ?thesis using cs2 cs3(2,3) a h1 j2 j3 unfolding b [symmetric] by auto
    qed
  qed
qed

lemma sjoin_loop_ok:
  assumes "net_ok cs" and "cstring channel" "length channel < CHANMAX" and "fit channel ss (online (cs_users cs))"
  shows "\<exists>k cs'. sjoin_loop cfg now source channel ss (j, cs) = Some (k, cs') \<and> net_ok cs' \<and> hosts (cs_users cs') = hosts (cs_users cs) \<and>
    online (cs_users cs') =
      fold (abs_sjoin channel) (map (\<lambda>s. (s, let_in (judge (k_cs cfg) now cs) (online (cs_users cs)) channel s)) ss)
        (online (cs_users cs))"
  using assms
proof (induction ss arbitrary: cs j)
  case (Cons s ss)
  have "fit channel [s] (online (cs_users cs))" using Cons.prems(4) by (simp add: fit_def)
  from sjoin_piece_ok [OF Cons.prems(1-3) this, of cfg now source j] obtain k cs1 where
    cs1: "sjoin_piece cfg now source channel s (j, cs) = Some (k, cs1)" "net_ok cs1"
      "judge (k_cs cfg) now cs1 = judge (k_cs cfg) now cs" "hosts (cs_users cs1) = hosts (cs_users cs)"
      "online (cs_users cs1) = abs_sjoin channel (s, let_in (judge (k_cs cfg) now cs) (online (cs_users cs)) channel s)
         (online (cs_users cs))" by blast
  have same: "let_in J (online (cs_users cs1)) channel t = let_in J (online (cs_users cs)) channel t" for J t
    unfolding cs1(5) by (rule let_in_step)
  have "fit channel ss (online (cs_users cs1))" unfolding cs1(5) by (rule fit_step [OF Cons.prems(4)])
  from Cons.IH [OF cs1(2) Cons.prems(2,3) this, of k] obtain k' cs' where
    "sjoin_loop cfg now source channel ss (k, cs1) = Some (k', cs')" "net_ok cs'" "hosts (cs_users cs') = hosts (cs_users cs1)"
    "online (cs_users cs') =
      fold (abs_sjoin channel) (map (\<lambda>s. (s, let_in (judge (k_cs cfg) now cs) (online (cs_users cs)) channel s)) ss)
        (online (cs_users cs1))"
    unfolding cs1(3) same by blast
  then show ?case using cs1 by (intro exI [of _ k'] exI [of _ cs']) simp
qed simp

end
