(* ===== verification/Arrivals.thy ===== *)
theory Arrivals
  imports Traffic
begin

text \<open>
  Users who come, change their nicknames or modes, and go: the invariant of the whole state, with the
  counts of users and of the sessions of a host, and all messages of the server as one step.
\<close>

section \<open>The whole state\<close>

text \<open>
  The count of users, the numbers of records still to come, the tree of servers, and the sessions of
  every host.
\<close>

definition hosts_on :: "(nat \<Rightarrow> cstr option) \<Rightarrow> cstr \<Rightarrow> nat" where
  "hosts_on H g = card {i. \<exists>h. H i = Some h \<and> sql_eq g h}"

definition counted :: "netcfg \<Rightarrow> (nat \<Rightarrow> cstr option) \<Rightarrow> net_state \<Rightarrow> bool" where
  "counted cfg H n \<longleftrightarrow>
     n_usercnt n = int (card (dom H)) \<and> n_usercnt n \<le> n_maxusercnt n \<and>
     (\<forall>i h. H i = Some h \<longrightarrow> i < n_next n \<and> CHR ''!'' \<notin> set h) \<and>
     (LimitSessions (k_os cfg) \<longrightarrow> sessions_ok (n_os n) \<and> (\<forall>g. host_count (n_os n) g = hosts_on H g))"

definition net_good :: "netcfg \<Rightarrow> net_state \<Rightarrow> bool" where
  "net_good cfg n \<longleftrightarrow>
     net_ok (net_cs n) \<and> counted cfg (hosts (ns_users (net_ns n))) n \<and> (\<exists>ts. servers_ok (n_srv n) ts)"

lemma net_sel [simp]:
  "net_cs (with_cs cs n) = cs" "n_srv (with_cs cs n) = n_srv n" "n_usercnt (with_cs cs n) = n_usercnt n"
  "n_maxusercnt (with_cs cs n) = n_maxusercnt n" "n_next (with_cs cs n) = n_next n"
  "net_cs (n\<lparr>n_usercnt := k\<rparr>) = net_cs n" "net_cs (n\<lparr>n_opcnt := k\<rparr>) = net_cs n" "net_cs (n\<lparr>n_srv := ss\<rparr>) = net_cs n"
  "net_cs (n\<lparr>n_os := os\<rparr>) = os_cs os" "net_cs (n\<lparr>n_next := i\<rparr>) = net_cs n"
  "net_cs (n\<lparr>n_maxusercnt := k\<rparr>) = net_cs n" "net_cs (n\<lparr>n_maxusertime := t\<rparr>) = net_cs n" "net_cs (n\<lparr>n_stat := f\<rparr>) = net_cs n"
  "net_ns (with_nick ns n) = ns" "n_srv (with_nick ns n) = n_srv n" "n_usercnt (with_nick ns n) = n_usercnt n"
  "n_maxusercnt (with_nick ns n) = n_maxusercnt n" "n_next (with_nick ns n) = n_next n"
  "cs_ns (net_cs n) = net_ns n" "net_cs (with_nick ns n) = (net_cs n)\<lparr>cs_ns := ns\<rparr>"
  by (simp_all add: net_cs_def with_cs_def with_nick_def net_ns_def)

lemma host_count_cs [simp]:
  "host_count (n_os (with_cs cs n)) g = host_count (n_os n) g" "sessions_ok (n_os (with_cs cs n)) = sessions_ok (n_os n)"
  "host_count (n_os (with_nick ns n)) g = host_count (n_os n) g" "sessions_ok (n_os (with_nick ns n)) = sessions_ok (n_os n)"
  by (simp_all add: host_count_def sessions_ok_def with_cs_def with_nick_def)

section \<open>Departures\<close>

lemma members_cong:
  assumes "members F cl" and "\<And>i p. on F' i p = on F i p" and "lists_ok F'"
  shows "members F' cl"
  using assms by (simp add: members_def good_chan_def)

lemma counted_finite: "counted cfg H n \<Longrightarrow> finite (dom H)"
  by (rule finite_subset [of _ "{..<n_next n}"]) (auto simp: counted_def)

lemma hosts_removed:
  assumes "finite (dom H)" and "H i = Some h"
  shows "hosts_on (H(i := None)) g = (if sql_eq g h then hosts_on H g - 1 else hosts_on H g)"
    and "sql_eq g h \<Longrightarrow> 0 < hosts_on H g" and "int (card (dom (H(i := None)))) = int (card (dom H)) - 1"
proof -
  have f: "finite {j. \<exists>h. H j = Some h \<and> sql_eq g h}" by (rule finite_subset [OF _ assms(1)]) auto
  have "{j. \<exists>h. (H(i := None)) j = Some h \<and> sql_eq g h} = {j. \<exists>h. H j = Some h \<and> sql_eq g h} - {i}" by auto
  then show "hosts_on (H(i := None)) g = (if sql_eq g h then hosts_on H g - 1 else hosts_on H g)"
    using assms(2) f by (simp add: hosts_on_def card_Diff_singleton_if)
  show "0 < hosts_on H g" if "sql_eq g h"
    unfolding hosts_on_def using assms(2) that f by (intro card_gt_0_iff [THEN iffD2] conjI) auto
  have "i \<in> dom H" using assms(2) by auto
  then show "int (card (dom (H(i := None)))) = int (card (dom H)) - 1"
    using assms(1) by (simp add: card_Diff_singleton card_gt_0_iff of_nat_diff) (metis One_nat_def Suc_leI card_gt_0_iff empty_iff of_nat_1 of_nat_diff)
qed

lemma hosts_added:
  assumes "finite (dom H)" and "H i = None"
  shows "hosts_on (H(i \<mapsto> h)) g = (if sql_eq g h then hosts_on H g + 1 else hosts_on H g)"
    and "int (card (dom (H(i \<mapsto> h)))) = int (card (dom H)) + 1"
proof -
  have f: "finite {j. \<exists>h. H j = Some h \<and> sql_eq g h}" by (rule finite_subset [OF _ assms(1)]) auto
  have "{j. \<exists>k. (H(i \<mapsto> h)) j = Some k \<and> sql_eq g k} =
      (if sql_eq g h then insert i {j. \<exists>h. H j = Some h \<and> sql_eq g h} else {j. \<exists>h. H j = Some h \<and> sql_eq g h})"
    using assms(2) by auto
  then show "hosts_on (H(i \<mapsto> h)) g = (if sql_eq g h then hosts_on H g + 1 else hosts_on H g)"
    using assms(2) f by (simp add: hosts_on_def)
  show "int (card (dom (H(i \<mapsto> h)))) = int (card (dom H)) + 1"
    using assms by (simp add: domIff)
qed

lemma unlink_net_ok:
  assumes s: "sound (F(u_uid u \<mapsto> [])) cs" and F: "F = lists_of (cs_users cs)"
    and u: "v \<in> set (all_users (cs_users cs))" "u_uid v = u_uid u" "u_nick v = u_nick u"
  shows "net_ok (cs\<lparr>cs_ns := set_users (user_unlink u) (cs_ns cs)\<rparr>)"
    and "online (user_unlink u (cs_users cs)) = (online (cs_users cs))(u_uid u := None)"
    and "user_unlink u (cs_users cs) = user_unlink v (cs_users cs)"
proof -
  show uv: "user_unlink u (cs_users cs) = user_unlink v (cs_users cs)" using u by (simp add: user_unlink_def)
  have b: "base_ok (cs_ns cs)" using s by (simp add: sound_def)
  have ul: "users_ok (cs_users cs)" using b by (simp add: base_ok_def)
  note k = user_unlink_ok [OF ul u(1), folded uv]
  have l: "lists_of (user_unlink u (cs_users cs)) = F(u_uid u := None)"
    by (simp add: lists_of_def F k(3) u(2) fun_eq_iff)
  have "on (F(u_uid u := None)) i p = on (F(u_uid u \<mapsto> [])) i p" for i p by (simp add: on_upd)
  moreover have "lists_ok (F(u_uid u := None))"
    using s by (auto simp: sound_def members_def lists_ok_def split: if_splits)
  ultimately have "members (F(u_uid u := None)) (cs_chans cs)"
    using s members_cong [of "F(u_uid u \<mapsto> [])" "cs_chans cs"] unfolding sound_def by blast
  moreover have "base_ok (set_users (user_unlink u) (cs_ns cs))"
    using b k(1,2) by (simp add: base_ok_def user_set_sel)
  ultimately show "net_ok (cs\<lparr>cs_ns := set_users (user_unlink u) (cs_ns cs)\<rparr>)"
    using s l by (simp add: net_ok_def user_set_sel sound_def)
  show "online (user_unlink u (cs_users cs)) = (online (cs_users cs))(u_uid u := None)"
    by (simp add: online_def k(3) u(2) fun_eq_iff)
qed

lemma delete_user_ok:
  assumes ok: "net_ok (net_cs n)" and u: "user_at (ns_users (net_ns n)) i = Some u"
  shows "\<exists>cs. delete_user cfg now u n = Some (with_cs cs (n\<lparr>n_usercnt := n_usercnt n - 1,
        n_opcnt := if has (u_mode u) UMODE_o then n_opcnt n - 1 else n_opcnt n\<rparr>)) \<and>
      net_ok cs \<and> cs_users cs = user_unlink u (ns_users (net_ns n)) \<and>
      online (cs_users cs) = (online (ns_users (net_ns n)))(i := None)"
proof -
  define n1 where "n1 = n\<lparr>n_usercnt := n_usercnt n - 1,
        n_opcnt := if has (u_mode u) UMODE_o then n_opcnt n - 1 else n_opcnt n\<rparr>"
  have n1: "net_cs n1 = net_cs n" "net_ns n1 = net_ns n" by (simp_all add: n1_def net_cs_def net_ns_def)
  have b: "base_ok (net_ns n)" using ok by (simp add: net_ok_def)
  have uu: "u \<in> set (all_users (ns_users (net_ns n)))" "u_uid u = i" using net_user [OF ok, of i u] u by simp_all
  obtain ns where ns: "cancel_user (k_ns cfg) now u (net_ns n) = Some ns" "kept (net_ns n) ns"
    using cancel_user_kept [of "net_ns n" "k_ns cfg" now u] b by (auto simp: base_ok_def)
  define cs1 where "cs1 = (net_cs n)\<lparr>cs_ns := ns\<rparr>"
  have us: "cs_users cs1 = ns_users (net_ns n)" using ns(2) by (simp add: cs1_def kept_def)
  define F where "F = lists_of (ns_users (net_ns n))"
  have s1: "sound F cs1" using ok base_frame [OF b ns(2)] us by (simp add: net_ok_def sound_def cs1_def F_def)
  have Fi: "F (u_uid u) = Some (u_chans u)" using u uu by (simp add: F_def lists_of_def)
  obtain cs2 where cs2: "leave_chans now (u_uid u) (u_chans u) cs1 = Some cs2" "sound (F(u_uid u \<mapsto> [])) cs2"
    "kept (cs_ns cs1) (cs_ns cs2)" using leave_chans_ok [OF s1 Fi, of now] held_kept by blast
  have us2: "cs_users cs2 = ns_users (net_ns n)" using cs2(3) us by (simp add: kept_def)
  have F2: "F = lists_of (cs_users cs2)" by (simp add: F_def us2)
  have "delete_user cfg now u n = Some (with_cs (cs2\<lparr>cs_ns := set_users (user_unlink u) (cs_ns cs2)\<rparr>) n1)"
    using ns(1) cs2(1) by (simp add: delete_user_def Let_def n1_def [symmetric] n1 cs1_def)
  then show ?thesis
    using unlink_net_ok(1,2) [OF cs2(2) F2, of u] uu us2 unfolding n1_def [symmetric]
    by (intro exI [of _ "cs2\<lparr>cs_ns := set_users (user_unlink u) (cs_ns cs2)\<rparr>"]) (simp add: user_set_sel)
qed

lemma net_kept:
  assumes "net_ok cs" and "kept (cs_ns cs) ns"
  shows "net_ok (cs\<lparr>cs_ns := ns\<rparr>)"
  using assms base_frame by (auto simp: net_ok_def kept_def)

lemma good_kept:
  assumes "net_good cfg n" and "kept (net_ns n) ns"
  shows "net_good cfg (with_nick ns n)" and "ns_users (net_ns (with_nick ns n)) = ns_users (net_ns n)"
proof -
  show u: "ns_users (net_ns (with_nick ns n)) = ns_users (net_ns n)" using assms(2) by (simp add: kept_def)
  show "net_good cfg (with_nick ns n)"
    using assms(1) u net_kept [of "net_cs n" ns] assms(2) by (simp add: net_good_def counted_def)
qed

lemma del_session_cs [simp]: "os_cs (del_session h st) = os_cs st"
  by (simp add: del_session_def upd_session_def)

lemma del_session_counts:
  assumes "sessions_ok st" and "\<forall>g. host_count st g = hosts_on H g" and "finite (dom H)" and "H i = Some h"
  shows "sessions_ok (del_session h st)" and "host_count (del_session h st) g = hosts_on (H(i := None)) g"
proof -
  show "sessions_ok (del_session h st)" using assms(1) by (simp add: del_session_count)
  have c: "sql_eq h h" for h by (simp add: sql_eq_def)
  have pos: "0 < host_count st h" using hosts_removed(2) [OF assms(3,4) c] assms(2) by simp
  then have "sql_first (\<lambda>s. sql_eq (se_host s) h) (os_sessions st) \<noteq> None"
    by (auto simp: host_count_def split: option.splits)
  then show "host_count (del_session h st) g = hosts_on (H(i := None)) g"
    using pos hosts_removed(1) [OF assms(3,4), of g] assms(2) host_count_cong [of g h st]
    by (simp add: del_session_count)
qed

lemma user_gone_ok:
  assumes good: "net_good cfg n" and u: "user_at (ns_users (net_ns n)) i = Some u"
  shows "\<exists>n'. user_gone cfg now u msg n = Some n' \<and> net_good cfg n' \<and>
    online (ns_users (net_ns n')) = (online (ns_users (net_ns n)))(i := None)"
proof -
  have ok: "net_ok (net_cs n)" using good by (simp add: net_good_def)
  have b: "base_ok (net_ns n)" using ok by (simp add: net_ok_def)
  have ul: "users_ok (ns_users (net_ns n))" and nsok: "ns_ok (net_ns n)" using b by (simp_all add: base_ok_def)
  have uu: "u \<in> set (all_users (ns_users (net_ns n)))" "u_uid u = i" using user_at_iff [OF ul] u by blast+
  define n1 where "n1 = (if u_nick_id u \<noteq> 0 then with_nick (mysql_quit_user now u msg (net_ns n)) n else n)"
  have n1: "net_good cfg n1" "ns_users (net_ns n1) = ns_users (net_ns n)"
    using good_kept [OF good quit_kept [OF nsok]] good by (simp_all add: n1_def)
  define n2 where "n2 = (if LimitSessions (k_os cfg) then n1\<lparr>n_os := del_session (u_host u) (n_os n1)\<rparr> else n1)"
  have n2: "net_cs n2 = net_cs n1" "net_ns n2 = net_ns n1" "n_srv n2 = n_srv n1" "n_usercnt n2 = n_usercnt n1" "n_next n2 = n_next n1"
    "n_maxusercnt n2 = n_maxusercnt n1"
    by (simp_all add: n2_def net_cs_def net_ns_def)
  have u2: "user_at (ns_users (net_ns n2)) i = Some u" using u n1(2) n2(2) by simp
  have "net_ok (net_cs n2)" using n1(1) n2(1) by (simp add: net_good_def)
  from delete_user_ok [OF this u2, of cfg now] obtain cs where
    cs: "delete_user cfg now u n2 = Some (with_cs cs (n2\<lparr>n_usercnt := n_usercnt n2 - 1,
        n_opcnt := if has (u_mode u) UMODE_o then n_opcnt n2 - 1 else n_opcnt n2\<rparr>))"
      "net_ok cs" "cs_users cs = user_unlink u (ns_users (net_ns n2))"
      "online (cs_users cs) = (online (ns_users (net_ns n2)))(i := None)" by blast
  define n3 where "n3 = with_cs cs (n2\<lparr>n_usercnt := n_usercnt n2 - 1,
        n_opcnt := if has (u_mode u) UMODE_o then n_opcnt n2 - 1 else n_opcnt n2\<rparr>)"
  have n3: "net_cs n3 = cs" "net_ns n3 = cs_ns cs" "n_srv n3 = n_srv n1" "n_usercnt n3 = n_usercnt n1 - 1" "n_next n3 = n_next n1"
    "n_maxusercnt n3 = n_maxusercnt n1" "host_count (n_os n3) = host_count (n_os n2)" "sessions_ok (n_os n3) = sessions_ok (n_os n2)"
    using n2 by (simp_all add: n3_def net_ns_def fun_eq_iff host_count_def sessions_ok_def with_cs_def net_cs_def)
  define H where "H = hosts (ns_users (net_ns n))"
  have Hi: "H i = Some (u_host u)" using u by (simp add: H_def hosts_def)
  have h3: "hosts (ns_users (net_ns n3)) = H(i := None)"
  proof
    fix j
    have "ns_users (net_ns n3) = user_unlink u (ns_users (net_ns n))" using cs(3) n1(2) n2(2) n3(2) by simp
    then show "hosts (ns_users (net_ns n3)) j = (H(i := None)) j"
      using user_unlink_ok(3) [OF ul uu(1), of j] uu(2) by (simp add: H_def hosts_def)
  qed
  have c1: "counted cfg H n1" using n1 by (simp add: net_good_def H_def)
  note fin = counted_finite [OF c1]
  have "sessions_ok (n_os n3) \<and> (\<forall>g. host_count (n_os n3) g = hosts_on (H(i := None)) g)"
    if l: "LimitSessions (k_os cfg)"
    unfolding n3(7,8) using c1 l del_session_counts [OF _ _ fin Hi, of "n_os n1"] by (simp add: n2_def counted_def)
  then have "counted cfg (H(i := None)) n3"
    using c1 n3(4-6) hosts_removed(3) [OF fin Hi] by (simp add: counted_def)
  then have "net_good cfg n3" using n1(1) n3(1-3) cs(2) h3 by (simp add: net_good_def)
  moreover have "user_gone cfg now u msg n = Some n3"
    using cs(1) unfolding user_gone_def Let_def n1_def [symmetric] n2_def [symmetric] n3_def by simp
  ultimately show ?thesis using cs(4) n1(2) n2(2) n3(2) by auto
qed

section \<open>Changes of nickname\<close>

text \<open>Writes to one record that the invariant does not look at.\<close>

definition mild :: "(user \<Rightarrow> user) \<Rightarrow> bool" where
  "mild f \<longleftrightarrow>
     (\<forall>u. u_uid (f u) = u_uid u \<and> u_nick (f u) = u_nick u \<and> u_host (f u) = u_host u \<and>
        u_real_id (f u) = u_real_id u \<and> u_nick_id (f u) = u_nick_id u \<and> u_chans (f u) = u_chans u)"

text \<open>A step within the table of users: who is online where, and from which host, stays.\<close>

definition settled :: "ns_state \<Rightarrow> ns_state \<Rightarrow> bool" where
  "settled ns ns' \<longleftrightarrow>
     base_ok ns' \<and> online (ns_users ns') = online (ns_users ns) \<and> hosts (ns_users ns') = hosts (ns_users ns) \<and>
     lists_of (ns_users ns') = lists_of (ns_users ns)"

lemma settled_trans: "settled a b \<Longrightarrow> settled b c \<Longrightarrow> settled a c"
  by (simp add: settled_def)

lemma settled_kept: "base_ok ns \<Longrightarrow> kept ns ns' \<Longrightarrow> settled ns ns'"
  using base_frame by (auto simp: settled_def kept_def)

lemma settled_user_set:
  assumes "base_ok ns" and f: "mild f"
  shows "settled ns (set_users (user_set f i) ns)"
    and "user_at (ns_users (set_users (user_set f i) ns)) i = map_option f (user_at (ns_users ns) i)"
proof -
  have ul: "users_ok (ns_users ns)" using assms(1) by (simp add: base_ok_def)
  have f': "u_uid (f u) = u_uid u" "u_nick (f u) = u_nick u" "u_host (f u) = u_host u" "u_chans (f u) = u_chans u" for u
    using f by (simp_all add: mild_def)
  have at: "user_at (user_set f i (ns_users ns)) j =
      (if j = i then map_option f (user_at (ns_users ns) j) else user_at (ns_users ns) j)" for j
    using user_set_ok(2) [OF ul, of f i] f' by simp
  have same: "map_option g (user_at (user_set f i (ns_users ns)) j) = map_option g (user_at (ns_users ns) j)"
    if "\<And>u. g (f u) = g u" for g :: "user \<Rightarrow> 'x" and j
    using that by (cases "user_at (ns_users ns) j") (auto simp: at)
  have "base_ok (set_users (user_set f i) ns)"
    using f by (intro base_user_set [OF assms(1)]) (simp add: mild_def)
  moreover have "online (user_set f i (ns_users ns)) = online (ns_users ns)"
    "hosts (user_set f i (ns_users ns)) = hosts (ns_users ns)" "lists_of (user_set f i (ns_users ns)) = lists_of (ns_users ns)"
    by (rule ext, simp only: online_def hosts_def lists_of_def, rule same, simp add: f')+
  ultimately show "settled ns (set_users (user_set f i) ns)" by (simp add: settled_def user_set_sel)
  show "user_at (ns_users (set_users (user_set f i) ns)) i = map_option f (user_at (ns_users ns) i)"
    by (simp add: user_set_sel at)
qed

lemma good_settled:
  assumes "net_good cfg n" and "settled (net_ns n) ns"
  shows "net_good cfg (with_nick ns n)" and "online (ns_users (net_ns (with_nick ns n))) = online (ns_users (net_ns n))"
  using assms by (auto simp: net_good_def counted_def settled_def net_ok_def)

text \<open>The record gets its new name: nobody else has it.\<close>

definition free_nick :: "online \<Rightarrow> nat \<Rightarrow> cstr \<Rightarrow> bool" where
  "free_nick A i nick \<longleftrightarrow>
     cstring nick \<and> length nick < NICKMAX \<and> (\<forall>j ls. A j = Some (strlower nick, ls) \<longrightarrow> j = i)"

lemma free_nick_find:
  assumes "users_ok ul" and "free_nick (online ul) i nick"
  shows "finduser ul nick = Some u \<Longrightarrow> u_uid u = i"
proof -
  assume "finduser ul nick = Some u"
  then have "u \<in> set (all_users ul)" "strlower (u_nick u) = strlower nick"
    using finduser_char [OF assms(1)] assms(2) by (auto simp: free_nick_def)
  then have "online ul (u_uid u) = Some (strlower nick, map strlower (u_chans u))"
    using user_at_iff [OF assms(1), of "u_uid u" u] by (simp add: online_def)
  then show "u_uid u = i" using assms(2) by (simp add: free_nick_def)
qed

lemma renamed_ok:
  assumes b: "base_ok ns" and u: "user_at (ns_users ns) i = Some u" and free: "free_nick (online (ns_users ns)) i nick"
  defines "ul \<equiv> user_link (renamed (ns_db ns) nick u) (user_unlink u (ns_users ns))"
  shows "base_ok (ns\<lparr>ns_users := ul\<rparr>)" and "hosts ul = hosts (ns_users ns)" and "lists_of ul = lists_of (ns_users ns)"
    and "online ul = (online (ns_users ns))(i \<mapsto> (strlower nick, map strlower (u_chans u)))"
    and "user_at ul i = Some (renamed (ns_db ns) nick u)"
proof -
  have uok: "users_ok (ns_users ns)" using b by (simp add: base_ok_def)
  have uu: "u \<in> set (all_users (ns_users ns))" "u_uid u = i" using u user_at_iff [OF uok] by blast+
  note k = user_unlink_ok [OF uok uu(1)]
  define v where "v = renamed (ns_db ns) nick u"
  have n: "take (NICKMAX - 1) nick = nick" "cstring nick" using free by (simp_all add: free_nick_def)
  have v: "u_uid v = i" "u_nick v = nick" "u_host v = u_host u" "u_chans v = u_chans u" "linked (ns_db ns) v"
    using n uu(2) by (simp_all add: v_def renamed_def linked_def)
  have none: "finduser (user_unlink u (ns_users ns)) (u_nick v) = None"
  proof (rule ccontr)
    assume "finduser (user_unlink u (ns_users ns)) (u_nick v) \<noteq> None"
    then obtain w where w: "finduser (user_unlink u (ns_users ns)) nick = Some w" using v(2) by auto
    then have "w \<in> set (all_users (ns_users ns))" "u_uid w \<noteq> i" "strlower (u_nick w) = strlower nick"
      using finduser_char [OF k(1) n(2)] k(2) uu(2) by auto
    then show False using free_nick_find [OF uok free, of w] finduser_char [OF uok n(2), of w] by auto
  qed
  have fresh: "\<forall>w\<in>set (all_users (user_unlink u (ns_users ns))). u_uid w \<noteq> u_uid v" using k(2) uu(2) v(1) by simp
  note l = user_link_ok [OF k(1) _ none fresh, unfolded v(2), OF n(2)]
  have ul: "ul = user_link v (user_unlink u (ns_users ns))" by (simp add: ul_def v_def)
  have at: "user_at ul j = (if j = i then Some v else user_at (ns_users ns) j)" for j
    using l(3) k(3) v(1) uu(2) by (simp add: ul)
  then show "user_at ul i = Some (renamed (ns_db ns) nick u)" by (simp add: v_def)
  show "hosts ul = hosts (ns_users ns)" "lists_of ul = lists_of (ns_users ns)"
    "online ul = (online (ns_users ns))(i \<mapsto> (strlower nick, map strlower (u_chans u)))"
    using u v by (auto simp: hosts_def lists_of_def online_def at)
  have "linked (ns_db ns) w \<and> hd0 (u_host w) \<noteq> CHR ''.''" if "w \<in> set (all_users ul)" for w
  proof -
    have "w = v \<or> w \<in> set (all_users (ns_users ns))" using that l(2) k(2) by (auto simp: ul)
    then show ?thesis using v b uu(1) by (auto simp: base_ok_def)
  qed
  then show "base_ok (ns\<lparr>ns_users := ul\<rparr>)" using b l(1) by (simp add: base_ok_def ul)
qed

text \<open>Taking over the status of the master keeps the tables in order; nobody is forced.\<close>

lemma harmless_set: "\<not> has s NS_GUESTED \<Longrightarrow> harmless (SetStatus s)"
  by (simp add: harmless_def)

lemma change_user_nick_ok:
  assumes b: "base_ok ns" and u: "user_at (ns_users ns) i = Some u" and free: "free_nick (online (ns_users ns)) i nick"
    and real: "\<not> changed \<longrightarrow> strlower nick = strlower (u_nick u)"
  shows "\<exists>ns' v. change_user_nick now u nick changed ns = Some ns' \<and> base_ok ns' \<and>
    hosts (ns_users ns') = hosts (ns_users ns) \<and> lists_of (ns_users ns') = lists_of (ns_users ns) \<and>
    online (ns_users ns') = (online (ns_users ns))(i \<mapsto> (strlower nick, map strlower (u_chans u)))"
proof -
  define k where "k = mysql_findnick (ns_db ns) nick"
  define ul where "ul = user_link (renamed (ns_db ns) nick u) (user_unlink u (ns_users ns))"
  have uok: "users_ok (ns_users ns)" and nsok: "ns_ok ns" using b by (simp_all add: base_ok_def)
  have uu: "u \<in> set (all_users (ns_users ns))" "u_uid u = i" using u user_at_iff [OF uok] by blast+
  have "\<exists>ns1. (if k \<noteq> 0 \<and> \<not> changed
      then do { (s, ns) \<leftarrow> get_nick_status now (u_nick_id u) ns; set_nick_status s now k ns } else Some ns) = Some ns1 \<and> kept ns ns1"
  proof (cases "k \<noteq> 0 \<and> \<not> changed")
    case True
    then have "mysql_findnick (ns_db ns) (u_nick u) = k" using real by (simp add: k_def mysql_findnick_def sql_eq_def)
    then have r: "u_real_id u \<noteq> 0" using b uu(1) True by (auto simp: base_ok_def linked_def)
    obtain row where row: "nick.row (u_nick_id u) (t_nick (ns_db ns)) = Some row" using base_master(2) [OF b uu(1) r] by blast
    obtain c where c: "get_nick_status now (u_nick_id u) ns = Some (nr_status row, ns\<lparr>ns_cache := c\<rparr>)" "ns_ok (ns\<lparr>ns_cache := c\<rparr>)"
      using get_nick_status_ok [OF nsok base_master(1) [OF b uu(1) r] row] by blast
    have "row \<in> set (t_nick (ns_db ns))" using nick.row_in row nsok by (auto simp: ns_ok_def)
    then have "\<not> has (nr_status row) NS_GUESTED" using b by (auto simp: base_ok_def unforced_def)
    then have h: "harmless (SetStatus (nr_status row))" by (rule harmless_set)
    obtain ns1 where ns1: "set_nick_status (nr_status row) now k (ns\<lparr>ns_cache := c\<rparr>) = Some ns1" "ns_ok ns1"
      using nick_status_ok [OF c(2), of k "SetStatus (nr_status row)" now] True by (auto simp: set_nick_status_def)
    have "frame ns ns1"
      by (rule frame_status [OF ns1(1) [unfolded set_nick_status_def] _ h]) (simp add: frames)
    then show ?thesis using True c(1) ns1 by (simp add: kept_frame)
  next
    case False
    then show ?thesis using kept_refl [OF nsok] by auto
  qed
  then obtain ns1 where ns1: "(if k \<noteq> 0 \<and> \<not> changed
      then do { (s, ns) \<leftarrow> get_nick_status now (u_nick_id u) ns; set_nick_status s now k ns } else Some ns) = Some ns1" "kept ns ns1"
    by blast
  have f: "frame ns ns1" "ns_users ns1 = ns_users ns" using ns1(2) by (simp_all add: kept_frame frame_def)
  have "renamed (ns_db ns1) nick u = renamed (ns_db ns) nick u"
    using f(1) by (simp add: renamed_def findnick_frame getlink_frame master_id_def)
  then have ul1: "ul = user_link (renamed (ns_db ns1) nick u) (user_unlink u (ns_users ns1))" by (simp add: ul_def f(2))
  have "change_user_nick now u nick changed ns = Some (ns1\<lparr>ns_users := ul\<rparr>)"
    unfolding change_user_nick_def Let_def k_def [symmetric] ul_def [symmetric] ns1(1) by simp
  then show ?thesis
    using renamed_ok(1-4) [OF base_frame [OF b ns1(2)], of i u nick] u free f(2) unfolding ul1 [symmetric] by simp
qed

text \<open>A step that leaves the network as it is.\<close>

definition calm :: "net_state \<Rightarrow> net_state \<Rightarrow> bool" where
  "calm n n' \<longleftrightarrow>
     settled (net_ns n) (net_ns n') \<and> cs_chans (net_cs n') = cs_chans (net_cs n) \<and> n_srv n' = n_srv n \<and>
     n_usercnt n' = n_usercnt n \<and> n_maxusercnt n' = n_maxusercnt n \<and> n_next n' = n_next n \<and>
     os_sessions (n_os n') = os_sessions (n_os n)"

lemma calm_trans: "calm a b \<Longrightarrow> calm b c \<Longrightarrow> calm a c"
  by (auto simp: calm_def dest: settled_trans)

lemma with_nick_sessions [simp]: "os_sessions (n_os (with_nick ns n)) = os_sessions (n_os n)"
  by (simp add: with_nick_def with_cs_def)

lemma calm_nick: "settled (net_ns n) ns \<Longrightarrow> calm n (with_nick ns n)"
  by (simp add: calm_def)

lemma calm_refl: "base_ok (net_ns n) \<Longrightarrow> calm n n"
  by (simp add: calm_def settled_def)

lemma calm_kept: "base_ok (net_ns n) \<Longrightarrow> kept (net_ns n) ns \<Longrightarrow> calm n (with_nick ns n)"
  by (simp add: calm_nick settled_kept)

lemma net_ns_opcnt [simp]: "net_ns (n\<lparr>n_opcnt := k\<rparr>) = net_ns n" "net_ns (n\<lparr>n_srv := ss\<rparr>) = net_ns n"
  by (simp_all add: net_ns_def net_cs_def)

lemma calm_opcnt: "calm n n' \<Longrightarrow> calm n (n'\<lparr>n_opcnt := k\<rparr>)"
  by (simp add: calm_def)

lemma calm_base: "calm n n' \<Longrightarrow> base_ok (net_ns n')"
  by (simp add: calm_def settled_def)

lemma calm_good:
  assumes "net_good cfg n" and "calm n n'"
  shows "net_good cfg n'" and "online (ns_users (net_ns n')) = online (ns_users (net_ns n))"
  using assms
  by (auto simp: net_good_def counted_def calm_def settled_def net_ok_def host_count_def sessions_ok_def)

lemma calm_user: "calm n n' \<Longrightarrow> user_at (ns_users (net_ns n)) i = Some u \<Longrightarrow> \<exists>v. user_at (ns_users (net_ns n')) i = Some v"
proof -
  assume "calm n n'" "user_at (ns_users (net_ns n)) i = Some u"
  then have "online (ns_users (net_ns n')) i = online (ns_users (net_ns n)) i" "online (ns_users (net_ns n)) i \<noteq> None"
    by (simp_all add: calm_def settled_def online_def)
  then show ?thesis by (auto simp: online_def)
qed

lemma base_user: "base_ok ns \<Longrightarrow> user_at (ns_users ns) i = Some u \<Longrightarrow> u \<in> set (all_users (ns_users ns)) \<and> u_uid u = i"
  using user_at_iff by (auto simp: base_ok_def)

text \<open>The end of a NICK message.\<close>

lemma mild_mode: "mild (\<lambda>u. u\<lparr>u_mode := g u\<rparr>)"
  by (simp add: mild_def)

lemma nick_settled_ok:
  assumes b: "base_ok (net_ns n)" and u: "user_at (ns_users (net_ns n)) i = Some u"
  shows "\<exists>n'. nick_settled cfg now i nick changed n = Some n' \<and> calm n n'"
proof -
  define ns where "ns = net_ns n"
  have nsok: "ns_ok ns" and bb: "base_ok ns" using b by (simp_all add: base_ok_def ns_def)
  have on: "u \<in> set (all_users (ns_users ns))" using base_user [OF b u] by (simp add: ns_def)
  have "\<exists>ns1. (if changed then do { (ok, ns) \<leftarrow> validate_user (k_ns cfg) now u ns; Some (if ok then say (CheckMemos i) ns else ns) }
      else map_option snd (check_on_access now u ns)) = Some ns1 \<and> kept ns ns1"
  proof (cases changed)
    case True
    obtain ok ns1 where 1: "validate_user (k_ns cfg) now u ns = Some (ok, ns1)" "kept ns ns1"
      using validate_user_kept [OF nsok base_known(1) [OF bb on]] by blast
    then show ?thesis using True kept_trans [OF 1(2) kept_say [OF kept_ok [OF 1(2)]]] by simp
  next
    case False
    obtain ok ns1 where "check_on_access now u ns = Some (ok, ns1)" "kept ns ns1"
      using check_on_access_kept [OF nsok base_known(2) [OF bb on]] by blast
    then show ?thesis using False by simp
  qed
  then obtain ns1 where ns1: "(if changed then do { (ok, ns) \<leftarrow> validate_user (k_ns cfg) now u ns; Some (if ok then say (CheckMemos i) ns else ns) }
      else map_option snd (check_on_access now u ns)) = Some ns1" "kept ns ns1" by blast
  have b1: "base_ok ns1" by (rule base_frame [OF bb ns1(2)])
  have on1: "u \<in> set (all_users (ns_users ns1))" using on ns1(2) by (simp add: kept_def)
  obtain idd ns2 where ns2: "nick_identified now u ns1 = Some (idd, ns2)" "kept ns1 ns2"
    using nick_identified_kept [OF kept_ok [OF ns1(2)] base_known(1) [OF b1 on1]] by blast
  define ns3 where "ns3 = (if \<not> changed \<and> u_real_id u \<noteq> 0 \<and> u_real_id u \<noteq> u_nick_id u
                           then mysql_update_last_seen now u 0 ns2 else ns2)"
  have k3: "kept ns (say (SvsMode nick '':+Rr'') ns3)"
  proof -
    have k2: "kept ns ns2" by (rule kept_trans [OF ns1(2) ns2(2)])
    then have "kept ns ns3" using kept_trans [OF k2 seen_kept [OF kept_ok [OF k2]]] by (simp add: ns3_def)
    then show ?thesis using kept_trans kept_say kept_ok by blast
  qed
  define ns4 where "ns4 = set_users (user_set (\<lambda>u. u\<lparr>u_mode := u_mode u OR UMODE_r\<rparr>) i) (say (SvsMode nick '':+Rr'') ns3)"
  have s4: "settled ns ns4"
    unfolding ns4_def
    by (rule settled_trans [OF settled_kept [OF bb k3] settled_user_set(1) [OF base_frame [OF bb k3] mild_mode]])
  have s2: "settled ns ns2" by (rule settled_kept [OF bb kept_trans [OF ns1(2) ns2(2)]])
  have "nick_settled cfg now i nick changed n = Some (with_nick (if idd then ns4 else ns2) n)"
    using u ns1(1) ns2(1) unfolding nick_settled_def ns_def [symmetric]
    by (cases idd) (simp_all add: Let_def ns4_def ns3_def)
  then show ?thesis using s4 s2 calm_nick by (auto simp: ns_def)
qed

section \<open>Modes of users\<close>

lemma identified_kept:
  fixes now :: int and u :: user and ns :: ns_state
  assumes ok: "ns_ok ns" and r: "u_real_id u \<noteq> 0" and row: "nick.row (u_real_id u) (t_nick (ns_db ns)) = Some row"
  defines "ns1 \<equiv> mysql_update_last_seen now u NS_IDENTIFIED ns"
  shows "\<exists>a c row'. nickcache_update (nick_select (ns_db ns1)) now (ns_cache ns1) (u_real_id u) = Some (a, c) \<and>
    kept ns (ns1\<lparr>ns_cache := c\<rparr>) \<and> nick.row (u_real_id u) (t_nick (ns_db (ns1\<lparr>ns_cache := c\<rparr>))) = Some row'"
proof -
  define i where "i = u_real_id u"
  define f where "f = (\<lambda>r :: nick_row. r\<lparr>nr_status := nr_status r OR NS_IDENTIFIED, nr_id_stamp := u_services_stamp u, nr_last_seen := now,
               nr_last_usermask := usermask u, nr_last_realname := u_realname u\<rparr>)"
  have ns1: "ns1 = ns\<lparr>ns_db := upd_nick (\<lambda>r. nr_id r = i) f (ns_db ns)\<rparr>"
    by (simp add: ns1_def mysql_update_last_seen_def f_def i_def)
  have fr: "frame ns ns1"
    unfolding ns1 using harmless_ops(4) by (intro frame_nicks) (simp_all add: f_def nick_link_def harmless_def)
  have rows: "nick.row j (t_nick (ns_db ns1)) = map_option (\<lambda>r. if nr_id r = i then f r else r) (nick.row j (t_nick (ns_db ns)))" for j
    unfolding ns1 by (cases "nick.row j (t_nick (ns_db ns))") (simp_all add: upd_nick_row f_def)
  have row1: "nick.row i (t_nick (ns_db ns1)) = Some (f row)"
    using row nick_row_id [OF row] by (simp add: rows i_def)
  then have sel: "nick_select (ns_db ns1) i = Some (nr_status (f row), nr_language (f row))" by (simp add: nick_select_def)
  have other: "nick_select (ns_db ns1) j = nick_select (ns_db ns) j" if "j \<noteq> i" for j
    using that by (cases "nick.row j (t_nick (ns_db ns))") (auto simp: nick_select_def rows dest: nick_row_id)
  obtain ch where "cache_rep (ns_cache ns) ch" using ok by (auto simp: ns_ok_def cache_ok_def)
  then obtain a c ch' where c: "nickcache_update (nick_select (ns_db ns1)) now (ns_cache ns) i = Some (Some a, c)" "cache_rep c ch'"
    "\<And>j. j \<noteq> 0 \<Longrightarrow> nc_look c j = (if j = i then Some (fresh_data now (nr_status (f row), nr_language (f row))) else nc_look (ns_cache ns) j)"
    using nickcache_update_ok [of "ns_cache ns" ch i "nick_select (ns_db ns1)" _ now, OF _ _ sel] r i_def by blast
  have sync: "nc.in_sync (ns_cache ns) (nick_select (ns_db ns))" and uniq: "nick.unique (t_nick (ns_db ns))" using ok by (simp_all add: ns_ok_def)
  have "nc.in_sync c (nick_select (ns_db ns1))"
    unfolding nc.in_sync_def
  proof (intro allI impI)
    fix j d st lang assume j: "j \<noteq> 0" "nc_look c j = Some d" "nick_select (ns_db ns1) j = Some (st, lang)"
    show "cd_status d = st"
    proof (cases "j = i")
      case True
      then show ?thesis using j c(3) sel by (auto simp: fresh_data_def)
    next
      case False
      then show ?thesis using j c(3) other sync unfolding nc.in_sync_def by (metis (no_types))
    qed
  qed
  moreover have "cache_ok c" using c(2) by (auto simp: cache_ok_def)
  moreover have "nick.unique (t_nick (ns_db ns1))" unfolding ns1 using uniq by (simp add: upd_nick_unique f_def)
  moreover have "mine_ok (ns1\<lparr>ns_cache := c\<rparr>)"
    using ok mine_ok_cong [of "ns1\<lparr>ns_cache := c\<rparr>" ns] by (simp add: ns_ok_def ns1)
  ultimately have "ns_ok (ns1\<lparr>ns_cache := c\<rparr>)" by (simp add: ns_ok_def)
  then have "kept ns (ns1\<lparr>ns_cache := c\<rparr>)" using fr by (simp add: kept_frame frames)
  moreover have "ns_cache ns1 = ns_cache ns" by (simp add: ns1)
  ultimately show ?thesis using c(1) row1 unfolding i_def by auto
qed

lemma status_kept:
  assumes "base_ok ns" and "u \<in> set (all_users (ns_users ns))" and "u_real_id u \<noteq> 0"
  shows "\<exists>s ns'. get_nick_status now (u_real_id u) ns = Some (s, ns') \<and> kept ns ns'"
proof -
  have ok: "ns_ok ns" using assms(1) by (simp add: base_ok_def)
  obtain r where "nick.row (u_real_id u) (t_nick (ns_db ns)) = Some r"
    using base_known(1) [OF assms(1,2)] assms(3) by (auto simp: known_def)
  then obtain c where "get_nick_status now (u_real_id u) ns = Some (nr_status r, ns\<lparr>ns_cache := c\<rparr>)" "ns_ok (ns\<lparr>ns_cache := c\<rparr>)"
    using get_nick_status_ok [OF ok assms(3)] by blast
  then show ?thesis by (simp add: kept_frame frames)
qed

lemma auto_identified_kept:
  assumes b: "base_ok ns" and u: "u \<in> set (all_users (ns_users ns))" and r: "u_real_id u \<noteq> 0"
  shows "\<exists>ns'. auto_identified cfg now u ns = Some ns' \<and> kept ns ns'"
proof -
  have onward: "base_ok a" "u \<in> set (all_users (ns_users a))" "ns_ok a" if "kept ns a" for a
    using base_frame [OF b that] that u by (simp_all add: kept_def)
  have says: "kept ns (say m a)" if "kept ns a" for m a using kept_trans [OF that kept_say [OF kept_ok [OF that]]] .
  obtain row where row: "nick.row (u_real_id u) (t_nick (ns_db ns)) = Some row"
    using base_known(1) [OF b u] r by (auto simp: known_def)
  define ns0 where "ns0 = mysql_update_last_seen now u NS_IDENTIFIED ns"
  from identified_kept [OF onward(3) [OF kept_refl] r row, of now] b obtain a c row' where
    c: "nickcache_update (nick_select (ns_db ns0)) now (ns_cache ns0) (u_real_id u) = Some (a, c)"
    and k1: "kept ns (ns0\<lparr>ns_cache := c\<rparr>)"
    and row1: "nick.row (u_real_id u) (t_nick (ns_db (ns0\<lparr>ns_cache := c\<rparr>))) = Some row'"
    by (auto simp: ns0_def base_ok_def)
  define ns1 where "ns1 = say (SvsMode (u_nick u) '':+R'') (say (NoticeText (u_nick u) ''You have been automatically identified'')
      (ns0\<lparr>ns_cache := c\<rparr>))"
  have k2: "kept ns ns1" unfolding ns1_def by (intro says k1)
  have mail: "get_email_from_id (ns_db ns1) (u_real_id u) = Some (nr_email row')"
    using row1 by (simp add: get_email_from_id_def ns1_def say_def)
  define ns2 where "ns2 = (if length (nr_email row') \<le> 1 then say (NoticeLang (u_uid u) ''NICK_BEG_SET_EMAIL'' []) ns1 else ns1)"
  have k3: "kept ns ns2" using k2 says by (simp add: ns2_def)
  obtain s ns3 where s3: "get_nick_status now (u_real_id u) ns2 = Some (s, ns3)" "kept ns2 ns3"
    using status_kept [OF onward(1,2) [OF k3] r] by blast
  define ns4 where "ns4 = (if \<not> has s NS_RECOGNIZED then say (CheckMemos (u_uid u)) ns3 else ns3)"
  have k4: "kept ns ns4" using kept_trans [OF k3 s3(2)] says by (simp add: ns4_def)
  obtain t ns5 where s5: "get_nick_status now (u_real_id u) ns4 = Some (t, ns5)" "kept ns4 ns5"
    using status_kept [OF onward(1,2) [OF k4] r] by blast
  have k5: "kept ns ns5" by (rule kept_trans [OF k4 s5(2)])
  show ?thesis
    using c mail s3(1) s5(1) k5 says
    unfolding auto_identified_def ns0_def [symmetric] Let_def
    by (cases "length (nr_email row') \<le> 1"; cases "has s NS_RECOGNIZED") (simp_all add: ns1_def ns2_def ns4_def)
qed

lemma umode_a_kept:
  assumes b: "base_ok ns" and u: "u \<in> set (all_users (ns_users ns))"
  shows "\<exists>ns'. umode_a cfg now add nick u ns = Some ns' \<and> kept ns ns'"
proof -
  have ok: "ns_ok ns" using b by (simp add: base_ok_def)
  obtain admin ns1 where a: "(if is_oper (ns_users ns) (u_nick u) then is_services_admin (k_cs cfg) now u ns
      else Some (False, ns)) = Some (admin, ns1)" "kept ns ns1"
    using admin_held [OF ok base_known(1) [OF b u], of "k_cs cfg" now] held_kept kept_refl [OF ok] by (cases "is_oper (ns_users ns) (u_nick u)") fastforce+
  have "kept ns (say m ns1)" for m by (rule kept_trans [OF a(2) kept_say [OF kept_ok [OF a(2)]]])
  then show ?thesis using a by (simp add: umode_a_def)
qed

lemma set_umode_calm: "base_ok (net_ns n) \<Longrightarrow> calm n (set_umode add f i n)"
  unfolding set_umode_def by (intro calm_nick settled_user_set(1) mild_mode)

lemma umode_o_calm:
  assumes b: "base_ok (net_ns n)" and u: "user_at (ns_users (net_ns n)) i = Some u"
  shows "\<exists>n'. umode_o cfg add i n = Some n' \<and> calm n n'"
proof -
  define n1 where "n1 = set_umode add UMODE_o i n"
  have c1: "calm n n1" unfolding n1_def by (rule set_umode_calm [OF b])
  obtain v where v: "user_at (ns_users (net_ns n1)) i = Some v" using calm_user [OF c1 u] by blast
  define n2 where "n2 = (if WallOper cfg then net_say (Wallops (u_nick v @ '' is now an IRC operator.'') []) n1 else n1)"
  have say: "calm n (with_nick ns m)" if "calm n m" "\<And>x. ns_ok x \<Longrightarrow> kept x (f x)" "ns = f (net_ns m)" for m f ns
    using calm_trans [OF that(1) calm_kept [OF calm_base [OF that(1)]]] that(2,3) calm_base [OF that(1)]
    by (simp add: base_ok_def)
  have c2: "calm n n2" using c1 say [OF c1, of "say _"] kept_say by (simp add: n2_def net_say_def)
  have c3: "calm n (with_nick (display_news v NEWS_OPER (net_ns n2)) n2)" by (rule say [OF c2 news_kept refl])
  show ?thesis
    using v calm_opcnt [OF c1] calm_opcnt [OF c3]
    by (simp add: umode_o_def Let_def n1_def [symmetric] n2_def [symmetric])
qed

lemma umode_step_calm:
  assumes b: "base_ok (net_ns n)" and u: "user_at (ns_users (net_ns n)) i = Some u"
  shows "\<exists>n'. umode_step cfg now nick m add i n = Some n' \<and> calm n n'"
proof -
  note set = set_umode_calm [OF b]
  define n1 where "n1 = set_umode add UMODE_r i n"
  have c1: "calm n n1" unfolding n1_def by (rule set)
  obtain v where v: "user_at (ns_users (net_ns n1)) i = Some v" using calm_user [OF c1 u] by blast
  have on: "v \<in> set (all_users (ns_users (net_ns n1)))" using base_user [OF calm_base [OF c1] v] by simp
  have R: "\<exists>n'. (if add \<and> u_real_id v \<noteq> 0 then map_option (\<lambda>ns. with_nick ns n1) (auto_identified cfg now v (net_ns n1))
      else Some n1) = Some n' \<and> calm n n'"
    using c1 auto_identified_kept [OF calm_base [OF c1] on, of cfg now] calm_trans [OF c1 calm_kept [OF calm_base [OF c1]]] by auto
  have A: "\<exists>n'. map_option (\<lambda>ns. with_nick ns n) (umode_a cfg now add nick u (net_ns n)) = Some n' \<and> calm n n'"
    using umode_a_kept [OF b, of u cfg now add nick] base_user [OF b u] calm_kept [OF b] by auto
  show ?thesis
    using set R A u v umode_o_calm [OF b u, of cfg add] calm_refl [OF b]
    by (simp add: umode_step_def Let_def n1_def [symmetric])
qed

lemma umode_loop_calm:
  assumes "base_ok (net_ns n)" and "user_at (ns_users (net_ns n)) i = Some u"
  shows "\<exists>n'. umode_loop cfg now nick ms add i n = Some n' \<and> calm n n'"
  using assms
proof (induction ms arbitrary: add n u)
  case Nil
  then show ?case by (simp add: calm_refl)
next
  case (Cons m ms)
  obtain n1 where n1: "umode_step cfg now nick m add i n = Some n1" "calm n n1"
    using umode_step_calm [OF Cons.prems] by blast
  obtain v where v: "user_at (ns_users (net_ns n1)) i = Some v" using calm_user [OF n1(2) Cons.prems(2)] by blast
  obtain n2 where "umode_loop cfg now nick ms add i n1 = Some n2" "calm n1 n2"
    using Cons.IH [OF calm_base [OF n1(2)] v] by blast
  then show ?case
    using n1 calm_trans [OF n1(2)] Cons.IH [OF Cons.prems, of True] Cons.IH [OF Cons.prems, of False] by simp
qed

lemma do_umode_calm:
  assumes b: "base_ok (net_ns n)"
  shows "\<exists>n'. do_umode cfg now source nick modes n = Some n' \<and> calm n n'"
proof -
  have ul: "users_ok (ns_users (net_ns n))" and ok: "ns_ok (net_ns n)" using b by (simp_all add: base_ok_def)
  have "\<exists>n'. umode_loop cfg now nick modes True (u_uid u) n = Some n' \<and> calm n n'"
    if "finduser (ns_users (net_ns n)) source = Some u" for u
    using umode_loop_calm [OF b] user_at_iff [OF ul, of "u_uid u" u] finduser_all [OF that] by blast
  then show ?thesis
    using calm_refl [OF b] calm_kept [OF b kept_say [OF ok]]
    by (auto simp: do_umode_def net_say_def split: option.split)
qed

section \<open>NICK\<close>

lemma good_moved:
  assumes "net_good cfg n" and "base_ok ns" and "hosts (ns_users ns) = hosts (ns_users (net_ns n))"
    and "lists_of (ns_users ns) = lists_of (ns_users (net_ns n))"
  shows "net_good cfg (with_nick ns n)"
  using assms by (auto simp: net_good_def counted_def net_ok_def)

lemma do_nick_change_ok:
  assumes good: "net_good cfg n" and src: "cstring source"
    and free: "\<And>u. finduser (ns_users (net_ns n)) source = Some u \<Longrightarrow> free_nick (online (ns_users (net_ns n))) (u_uid u) nick"
  shows "case finduser (ns_users (net_ns n)) source of
      None \<Rightarrow> do_nick_change cfg now source nick n = Some (False, n)
    | Some u \<Rightarrow> \<exists>n'. do_nick_change cfg now source nick n = Some (True, n') \<and> net_good cfg n' \<and>
        online (ns_users (net_ns n')) = (online (ns_users (net_ns n)))(u_uid u \<mapsto> (strlower nick, map strlower (u_chans u)))"
proof (cases "finduser (ns_users (net_ns n)) source")
  case None
  then show ?thesis by (simp add: do_nick_change_def)
next
  case (Some u)
  have b: "base_ok (net_ns n)" using good by (simp add: net_good_def net_ok_def)
  have ul: "users_ok (ns_users (net_ns n))" using b by (simp add: base_ok_def)
  have u: "u \<in> set (all_users (ns_users (net_ns n)))" "strlower (u_nick u) = strlower source"
    using finduser_char [OF ul src, of u] Some by simp_all
  then have at: "user_at (ns_users (net_ns n)) (u_uid u) = Some u" using user_at_iff [OF ul] by blast
  define changed where "changed = (irc_stricmp nick source \<noteq> 0)"
  define f where "f = (\<lambda>v :: user. if changed then v\<lparr>u_my_signon := now\<rparr> else v)"
  have f: "mild f" by (simp add: f_def mild_def)
  define ns1 where "ns1 = set_users (user_set f (u_uid u)) (net_ns n)"
  have s1: "settled (net_ns n) ns1" and a1: "user_at (ns_users ns1) (u_uid u) = Some (f u)"
    using settled_user_set [OF b f, of "u_uid u"] at by (simp_all add: ns1_def)
  then have "ns_ok ns1" "unforced (ns_db ns1)" by (simp_all add: settled_def base_ok_def)
  then obtain ns2 where ns2: "cancel_user (k_ns cfg) now (f u) ns1 = Some ns2" "kept ns1 ns2"
    using cancel_user_kept [of ns1] by blast
  have s2: "settled (net_ns n) ns2"
    using settled_trans [OF s1 settled_kept [OF _ ns2(2)]] s1 by (simp add: settled_def)
  have a2: "user_at (ns_users ns2) (u_uid u) = Some (f u)" using a1 ns2(2) by (simp add: kept_def)
  have fr: "free_nick (online (ns_users ns2)) (u_uid u) nick" using free [OF Some] s2 by (simp add: settled_def)
  have fu: "u_nick (f u) = u_nick u" "u_chans (f u) = u_chans u" "u_uid (f u) = u_uid u" by (simp_all add: f_def)
  have same: "\<not> changed \<longrightarrow> strlower nick = strlower (u_nick (f u))"
    using free [OF Some] src irc_stricmp_zero by (simp add: changed_def fu u(2) free_nick_def)
  have b2: "base_ok ns2" using s2 by (simp add: settled_def)
  from change_user_nick_ok [OF b2 a2 fr same, of now] obtain ns3 where
    ns3: "change_user_nick now (f u) nick changed ns2 = Some ns3" "base_ok ns3"
      "hosts (ns_users ns3) = hosts (ns_users ns2)" "lists_of (ns_users ns3) = lists_of (ns_users ns2)"
      "online (ns_users ns3) = (online (ns_users ns2))(u_uid u \<mapsto> (strlower nick, map strlower (u_chans u)))"
    by (auto simp: fu)
  have good3: "net_good cfg (with_nick ns3 n)" using good_moved [OF good ns3(2)] ns3(3,4) s2 by (simp add: settled_def)
  have "online (ns_users ns3) (u_uid u) \<noteq> None" by (simp add: ns3(5))
  then obtain v where v: "user_at (ns_users (net_ns (with_nick ns3 n))) (u_uid u) = Some v" by (auto simp: online_def)
  obtain n' where n': "nick_settled cfg now (u_uid u) nick changed (with_nick ns3 n) = Some n'" "calm (with_nick ns3 n) n'"
    using nick_settled_ok [OF _ v, of cfg now nick changed] ns3(2) by auto
  have "do_nick_change cfg now source nick n = Some (True, n')"
    using Some ns2(1) ns3(1) n'(1) unfolding do_nick_change_def Let_def changed_def [symmetric]
    by (cases changed) (simp_all add: ns1_def f_def)
  then show ?thesis using Some calm_good [OF good3 n'(2)] ns3(5) s2 by (simp add: settled_def)
qed

text \<open>OperServ speaks, and nothing else of the network changes.\<close>

definition unheard :: "os_state \<Rightarrow> cs_state" where
  "unheard st = (os_cs st)\<lparr>cs_ns := (cs_ns (os_cs st))\<lparr>ns_out := []\<rparr>\<rparr>"

lemma unheard_simps [simp]:
  "unheard (os_say m b) = unheard b" "unheard (send_akill k r b) = unheard b" "unheard (upd_session h f b) = unheard b"
  "unheard (b\<lparr>os_sessions := ss\<rparr>) = unheard b" "unheard (b\<lparr>os_akills := ks, os_akill_next := i\<rparr>) = unheard b"
  by (simp_all add: unheard_def os_say_def tell_def say_def send_akill_def upd_session_def split: option.split)

lemma send_akill_sessions [simp]: "os_sessions (send_akill k r b) = os_sessions b"
  by (simp add: send_akill_def os_say_def split: option.split)

lemma check_akill_unheard:
  "unheard (snd (check_akill cfg nick username host st)) = unheard st"
  "os_sessions (snd (check_akill cfg nick username host st)) = os_sessions st"
  by (simp_all add: check_akill_def os_say_def [where st = st] split: list.split)
     (simp_all add: unheard_def tell_def say_def)

lemma exceed_unheard:
  assumes "exceed cfg now nick host k st = Some (k', st')"
  shows "unheard st' = unheard st"
proof -
  have "unheard (snd (add_akill cfg now m t w e x)) = unheard x" for m t w e x
    by (simp add: add_akill_def mysql_insert_akill_def Let_def)
  then show ?thesis
    using assms by (auto simp: exceed_def Let_def split_beta bind_eq_Some_conv split: option.splits if_splits)
qed

lemma add_session_unheard:
  assumes "add_session cfg now nick host st = Some (b, st')"
  shows "unheard st' = unheard st"
  using assms exceed_unheard by (auto simp: add_session_def Let_def split_beta bind_eq_Some_conv split: option.splits if_splits)

lemma heard_ok:
  assumes "unheard os = unheard (n_os n)" and "net_ok (net_cs n)"
  shows "net_ok (os_cs os)" and "ns_users (cs_ns (os_cs os)) = ns_users (net_ns n)" and "kept (net_ns n) (cs_ns (os_cs os))"
proof -
  define out where "out = ns_out (cs_ns (os_cs os))"
  have "(unheard os)\<lparr>cs_ns := (cs_ns (unheard os))\<lparr>ns_out := out\<rparr>\<rparr> =
      (unheard (n_os n))\<lparr>cs_ns := (cs_ns (unheard (n_os n)))\<lparr>ns_out := out\<rparr>\<rparr>"
    by (simp add: assms(1))
  then have e: "os_cs os = (net_cs n)\<lparr>cs_ns := (net_ns n)\<lparr>ns_out := out\<rparr>\<rparr>"
    by (simp add: unheard_def out_def net_cs_def net_ns_def)
  have k: "kept (net_ns n) ((net_ns n)\<lparr>ns_out := out\<rparr>)"
    using assms(2) by (intro kept_out) (simp add: net_ok_def base_ok_def)
  show "net_ok (os_cs os)" unfolding e using net_kept [OF assms(2)] k by simp
  show "ns_users (cs_ns (os_cs os)) = ns_users (net_ns n)" "kept (net_ns n) (cs_ns (os_cs os))" using k by (simp_all add: e)
qed

lemma hosts_on_le: "finite (dom H) \<Longrightarrow> hosts_on H g \<le> card (dom H)"
  unfolding hosts_on_def by (rule card_mono) auto

text \<open>
  The limit of sessions at an arrival: the count of the host goes up if the user may stay, and the
  user may not if as many users of the host are online as the limit of the host allows.
\<close>

lemma match_lower:
  "\<not> d \<longrightarrow> do_match_wild d p (strlower s) = do_match_wild d p s"
  "\<not> d \<longrightarrow> match_star d p (strlower s) = match_star d p s"
proof (induction d p s and d p s rule: do_match_wild_match_star.induct)
  case (2 d c p s)
  then show ?case by (cases s) (auto simp: strlower_def hd0_def same_char_def)
next
  case (3 d p s)
  then show ?case by (cases s) (auto simp: strlower_def hd0_def same_char_def)
qed (simp add: strlower_def)

lemma irc_match_lower: "sql_eq g h \<Longrightarrow> irc_match m g None = irc_match m h None"
proof -
  assume "sql_eq g h"
  moreover have zero: "ord c = 0 \<longleftrightarrow> c = nul" for c using of_char_eq_iff [of c nul] by simp
  have "tolower c = nul \<longleftrightarrow> c = nul" for c
    unfolding zero [symmetric] by (auto simp: ord_tolower isupper_def)
  then have "cstr_of (strlower x) = strlower (cstr_of x)" for x
    by (simp add: cstr_of_def strlower_def takeWhile_map o_def)
  ultimately show ?thesis using match_lower(1) [of False] unfolding irc_match_def sql_eq_def option.case by metis
qed

lemma session_limit_lower: "sql_eq g h \<Longrightarrow> session_limit cfg xs g = session_limit cfg xs h"
  by (simp add: session_limit_def irc_match_lower [of g h])

definition host_full :: "oscfg \<Rightarrow> exception_row list \<Rightarrow> nat \<Rightarrow> cstr \<Rightarrow> bool" where
  "host_full cfg xs k host \<longleftrightarrow> session_limit cfg xs host \<noteq> 0 \<and> session_limit cfg xs host \<le> k"

lemma admitted_ok:
  assumes ok: "net_ok (net_cs n)" and c: "counted cfg H n" and host: "CHR ''!'' \<notin> set host" "plain_host host"
    and low: "n_usercnt n < 65535"
  shows "\<exists>b os. (if LimitSessions (k_os cfg) then add_session (k_os cfg) now nick host (n_os n) else Some (True, n_os n)) = Some (b, os) \<and>
    unheard os = unheard (n_os n) \<and>
    (b \<longleftrightarrow> \<not> (LimitSessions (k_os cfg) \<and> host_full (k_os cfg) (os_exceptions (n_os n)) (hosts_on H host) host)) \<and>
    (LimitSessions (k_os cfg) \<longrightarrow> sessions_ok os \<and> (\<forall>g. host_count os g = (if b \<and> sql_eq g host then hosts_on H g + 1 else hosts_on H g)))"
proof (cases "LimitSessions (k_os cfg)")
  case True
  have "host_count (n_os n) host = hosts_on H host" "sessions_ok (n_os n)" using True c by (simp_all add: counted_def)
  moreover have "hosts_on H host < 65535" using hosts_on_le [OF counted_finite [OF c], of host] c low by (simp add: counted_def)
  moreover have "users_ok (ns_users (os_ns (n_os n)))"
    using ok by (simp add: net_ok_def base_ok_def net_cs_def os_ns_def)
  ultimately obtain b os where a: "add_session (k_os cfg) now nick host (n_os n) = Some (b, os)" "sessions_ok os"
    "\<forall>g. host_count os g = (if b \<and> sql_eq g host then host_count (n_os n) g + 1 else host_count (n_os n) g)"
    "case sql_first (\<lambda>s. sql_eq (se_host s) host) (os_sessions (n_os n)) of
       None \<Rightarrow> b
     | Some s \<Rightarrow> b = (session_limit (k_os cfg) (os_exceptions (n_os n)) (se_host s) = 0 \<or>
                     se_count s < session_limit (k_os cfg) (os_exceptions (n_os n)) (se_host s))"
    using add_session_ok [of "n_os n" host "k_os cfg" now nick] host by auto
  have "b \<longleftrightarrow> \<not> host_full (k_os cfg) (os_exceptions (n_os n)) (hosts_on H host) host"
  proof (cases "sql_first (\<lambda>s. sql_eq (se_host s) host) (os_sessions (n_os n))")
    case None
    then have "hosts_on H host = 0" using \<open>host_count (n_os n) host = _\<close> by (simp add: host_count_def)
    then show ?thesis using a(4) None by (auto simp: host_full_def)
  next
    case (Some s)
    then have "se_count s = hosts_on H host" "sql_eq (se_host s) host"
      using \<open>host_count (n_os n) host = _\<close> sql_first_Some [OF Some] by (simp_all add: host_count_def)
    then show ?thesis using a(4) Some session_limit_lower by (auto simp: host_full_def)
  qed
  then show ?thesis using True c a(1-3) add_session_unheard by (auto simp: counted_def)
qed (auto intro: exI [of _ True])

lemma arrival_ok:
  assumes b: "base_ok ns" and i: "user_at (ns_users ns) (u_uid u) = None"
    and free: "free_nick (online (ns_users ns)) (u_uid u) (u_nick u)"
    and u: "linked (ns_db ns) u" "hd0 (u_host u) \<noteq> CHR ''.''" "u_chans u = []"
  defines "ul \<equiv> user_link u (ns_users ns)"
  shows "base_ok (ns\<lparr>ns_users := ul\<rparr>)" and "hosts ul = (hosts (ns_users ns))(u_uid u \<mapsto> u_host u)"
    and "lists_of ul = (lists_of (ns_users ns))(u_uid u \<mapsto> [])" and "online ul = (online (ns_users ns))(u_uid u \<mapsto> (strlower (u_nick u), []))"
    and "user_at ul (u_uid u) = Some u"
proof -
  have uok: "users_ok (ns_users ns)" using b by (simp add: base_ok_def)
  have n: "cstring (u_nick u)" using free by (simp add: free_nick_def)
  have fresh: "\<forall>w\<in>set (all_users (ns_users ns)). u_uid w \<noteq> u_uid u" using i user_at_iff [OF uok, of "u_uid u"] by auto
  have none: "finduser (ns_users ns) (u_nick u) = None"
    using free_nick_find [OF uok free] fresh finduser_all by (metis not_None_eq)
  note l = user_link_ok [OF uok n none fresh]
  have at: "user_at ul j = (if j = u_uid u then Some u else user_at (ns_users ns) j)" for j
    using l(3) by (simp add: ul_def)
  then show "user_at ul (u_uid u) = Some u" by simp
  show "hosts ul = (hosts (ns_users ns))(u_uid u \<mapsto> u_host u)" "lists_of ul = (lists_of (ns_users ns))(u_uid u \<mapsto> [])"
    "online ul = (online (ns_users ns))(u_uid u \<mapsto> (strlower (u_nick u), []))"
    using u by (auto simp: hosts_def lists_of_def online_def at)
  have "linked (ns_db ns) w \<and> hd0 (u_host w) \<noteq> CHR ''.''" if "w \<in> set (all_users ul)" for w
    using that l(2) u b by (auto simp: ul_def base_ok_def)
  then show "base_ok (ns\<lparr>ns_users := ul\<rparr>)" using b l(1) by (simp add: base_ok_def ul_def)
qed

lemma user_set_link:
  assumes "u_uid u = i" and "\<forall>b. \<forall>v\<in>set (ul b). u_uid v \<noteq> i" and "u_nick (f u) = u_nick u"
  shows "user_set f i (user_link u ul) = user_link (f u) ul"
proof
  fix b
  have "map (\<lambda>u. if u_uid u = i then f u else u) (ul b) = ul b" for b
    using assms(2) by (intro map_idI) simp
  then show "user_set f i (user_link u ul) b = user_link (f u) ul b" using assms(1,3) by (simp add: user_set_def user_link_def)
qed

lemma new_user_state:
  fixes cfg :: netcfg and now :: int and nick :: cstr
  defines "n1 \<equiv> \<lambda>n. snd (new_user cfg now nick n)"
  shows "fst (new_user cfg now nick n) = n_next n"
    and "net_ns (n1 n) = (net_ns n)\<lparr>ns_users := user_link (fresh_user (ns_db (net_ns n)) (n_next n) nick) (ns_users (net_ns n)),
        ns_out := ns_out (net_ns (n1 n))\<rparr>"
    and "net_cs (n1 n) = (net_cs n)\<lparr>cs_ns := net_ns (n1 n)\<rparr>" and "n_srv (n1 n) = n_srv n" and "n_next (n1 n) = Suc (n_next n)"
    and "n_usercnt (n1 n) = n_usercnt n + 1" and "n_maxusercnt (n1 n) = max (n_maxusercnt n) (n_usercnt n + 1)"
    and "os_sessions (n_os (n1 n)) = os_sessions (n_os n)"
  by (simp_all add: n1_def new_user_def Let_def net_say_def say_def set_users_def net_ns_def net_cs_def with_nick_def with_cs_def)

lemma members_arrival:
  assumes "members F cl" and "F i = None"
  shows "members (F(i \<mapsto> [])) cl"
proof (rule members_cong [OF assms(1)])
  show "on (F(i \<mapsto> [])) j p = on F j p" for j p using assms(2) by (simp add: on_upd on_def)
  show "lists_ok (F(i \<mapsto> []))" using assms(1) by (auto simp: members_def lists_ok_def)
qed

text \<open>The new record, once its fields are filled in.\<close>

lemma welcomed_ok:
  fixes now :: int and n :: net_state
  assumes ok: "net_ok (net_cs n)" and c: "counted cfg H (n\<lparr>n_os := os0\<rparr>)" and H: "H = hosts (ns_users (net_ns n))"
    and sess: "LimitSessions (k_os cfg) \<longrightarrow> sessions_ok (n_os n) \<and>
      (\<forall>g. host_count (n_os n) g = (if sql_eq g host then hosts_on H g + 1 else hosts_on H g))"
    and srv: "servers_ok ss ts" and free: "free_nick (online (ns_users (net_ns n))) (n_next n) nick"
    and host: "CHR ''!'' \<notin> set host" "hd0 host \<noteq> CHR ''.''"
    and g: "\<And>u. u_uid (g u) = u_uid u \<and> u_nick (g u) = u_nick u \<and> u_host (g u) = host \<and> u_real_id (g u) = u_real_id u \<and>
      u_nick_id (g u) = u_nick_id u \<and> u_chans (g u) = u_chans u"
  defines "n1 \<equiv> snd (new_user cfg now nick n)"
  defines "n2 \<equiv> with_nick (set_users (user_set g (n_next n)) (net_ns n1)) (n1\<lparr>n_srv := ss\<rparr>)"
  shows "net_good cfg n2" and "online (ns_users (net_ns n2)) = (online (ns_users (net_ns n)))(n_next n \<mapsto> (strlower nick, []))"
    and "\<exists>u. user_at (ns_users (net_ns n2)) (n_next n) = Some u"
proof -
  define i where "i = n_next n"
  have b: "base_ok (net_ns n)" using ok by (simp add: net_ok_def)
  have nsok: "ns_ok (net_ns n)" and uok: "users_ok (ns_users (net_ns n))" using b by (simp_all add: base_ok_def)
  note new = new_user_state [of cfg now nick n, folded n1_def]
  define out where "out = ns_out (net_ns n1)"
  have out: "net_ns n1 = (net_ns n)\<lparr>ns_users := user_link (fresh_user (ns_db (net_ns n)) i nick) (ns_users (net_ns n)), ns_out := out\<rparr>"
    using new(2) by (simp add: out_def i_def)
  define ns where "ns = (net_ns n)\<lparr>ns_out := out\<rparr>"
  define v where "v = g (fresh_user (ns_db (net_ns n)) i nick)"
  have Hi: "H i = None" using c by (cases "H i") (auto simp: counted_def i_def)
  then have at: "user_at (ns_users (net_ns n)) i = None" by (simp add: H hosts_def)
  have nb: "base_ok ns" using base_frame [OF b kept_out [OF nsok]] by (simp add: ns_def)
  have nick: "cstring nick" "take (NICKMAX - 1) nick = nick" using free by (simp_all add: free_nick_def)
  have v: "u_uid v = i" "u_nick v = nick" "u_host v = host" "u_chans v = []" "linked (ns_db ns) v"
    using nick by (simp_all add: v_def g fresh_user_def ns_def linked_def)
  have "\<forall>c. \<forall>w\<in>set (ns_users (net_ns n) c). u_uid w \<noteq> i"
    using at user_at_iff [OF uok, of i] all_users_bucket [OF uok] by fastforce
  then have link: "set_users (user_set g i) (net_ns n1) = ns\<lparr>ns_users := user_link v (ns_users ns)\<rparr>"
    using user_set_link [of "fresh_user (ns_db (net_ns n)) i nick" i "ns_users (net_ns n)" g] g
    by (simp add: set_users_def out ns_def v_def fresh_user_def)
  note arr = arrival_ok [OF nb, of v, unfolded v, OF _ _ v(5) host(2) refl]
  have "user_at (ns_users ns) i = None" "free_nick (online (ns_users ns)) i nick" using at free by (simp_all add: ns_def i_def)
  note arr = arr [OF this]
  have n2: "net_cs n2 = (net_cs n)\<lparr>cs_ns := ns\<lparr>ns_users := user_link v (ns_users ns)\<rparr>\<rparr>"
    by (simp add: n2_def link i_def [symmetric] new(3))
  have u2: "ns_users (net_ns n2) = user_link v (ns_users ns)" by (simp add: n2_def link i_def [symmetric])
  have F: "lists_of (ns_users ns) i = None" using at by (simp add: lists_of_def ns_def)
  have "members (lists_of (user_link v (ns_users ns))) (cs_chans (net_cs n))"
    using members_arrival [of "lists_of (ns_users ns)", OF _ F] ok unfolding arr(3) by (simp add: net_ok_def ns_def)
  then have k: "net_ok (net_cs n2)" using arr(1) ok by (simp add: n2 net_ok_def)
  note h = hosts_added [OF counted_finite [OF c] Hi, of host]
  have h2: "hosts (ns_users (net_ns n2)) = H(i \<mapsto> host)" by (simp add: u2 arr(2) H) (simp add: ns_def)
  have "counted cfg (H(i \<mapsto> host)) n2"
    using c sess new(4-8) host(1) h by (auto simp: counted_def n2_def i_def less_Suc_eq host_count_def sessions_ok_def)
  then show "net_good cfg n2" using k srv h2 by (auto simp: net_good_def n2_def)
  show "online (ns_users (net_ns n2)) = (online (ns_users (net_ns n)))(n_next n \<mapsto> (strlower nick, []))"
    by (simp add: u2 arr(4) i_def) (simp add: ns_def)
  show "\<exists>u. user_at (ns_users (net_ns n2)) (n_next n) = Some u" using arr(5) by (simp add: u2 i_def)
qed

text \<open>
  Who is turned away: a user whose address an automatic kill matches, and, with limits on sessions,
  one from whose host as many users are online as its limit allows.
\<close>

definition turned_away :: "netcfg \<Rightarrow> net_state \<Rightarrow> cstr \<Rightarrow> cstr \<Rightarrow> bool" where
  "turned_away cfg n username host \<longleftrightarrow>
     (\<exists>r. banned (n_os n) username host r) \<or>
     LimitSessions (k_os cfg) \<and>
       host_full (k_os cfg) (os_exceptions (n_os n)) (hosts_on (hosts (ns_users (net_ns n))) host) host"

lemma check_akill_hit:
  "fst (check_akill cfg nick username host st) \<longleftrightarrow> (\<exists>r. banned st username host r)"
proof (cases "rev (sort_key kl_id (filter (\<lambda>r. irc_match (kl_mask r) (akill_target username host) None) (os_akills st)))")
  case Nil
  then have "filter (\<lambda>r. irc_match (kl_mask r) (akill_target username host) None) (os_akills st) = []"
    by (metis rev_is_Nil_conv set_empty set_sort)
  then show ?thesis using Nil by (auto simp: check_akill_def banned_def filter_empty_conv)
next
  case (Cons r rs)
  then have "r \<in> set (filter (\<lambda>r. irc_match (kl_mask r) (akill_target username host) None) (os_akills st))"
    by (metis list.set_intros(1) set_rev set_sort)
  then show ?thesis using Cons by (auto simp: check_akill_def banned_def)
qed

lemma check_akill_exceptions: "os_exceptions (snd (check_akill cfg nick username host st)) = os_exceptions st"
  by (simp add: check_akill_def send_akill_def os_say_def split: list.split option.split)

lemma do_nick_new_ok:
  assumes good: "net_good cfg n" and free: "free_nick (online (ns_users (net_ns n))) (n_next n) nick"
    and host: "CHR ''!'' \<notin> set host" "hd0 host \<noteq> CHR ''.''" "plain_host host" and low: "n_usercnt n < 65535"
  shows "\<exists>n'. do_nick_new cfg now nick signon username host server realname n =
      Some (\<not> turned_away cfg n username host, n') \<and>
    net_good cfg n' \<and> online (ns_users (net_ns n')) =
      (if turned_away cfg n username host then online (ns_users (net_ns n))
       else (online (ns_users (net_ns n)))(n_next n \<mapsto> (strlower nick, [])))"
proof -
  define H where "H = hosts (ns_users (net_ns n))"
  have ok: "net_ok (net_cs n)" and c: "counted cfg H n" using good by (simp_all add: net_good_def H_def)
  obtain ts where ts: "servers_ok (n_srv n) ts" using good by (auto simp: net_good_def)
  have nsn: "net_ns (m\<lparr>n_os := os\<rparr>) = cs_ns (os_cs os)" for os and m :: net_state
    using net_ns_def [of "m\<lparr>n_os := os\<rparr>"] by simp
  obtain bad os1 where k: "check_akill (k_os cfg) nick username host (n_os n) = (bad, os1)" by fastforce
  have os1: "unheard os1 = unheard (n_os n)" "os_sessions os1 = os_sessions (n_os n)"
    using check_akill_unheard [of "k_os cfg" nick username host "n_os n"] by (simp_all add: k)
  define n1 where "n1 = n\<lparr>n_os := os1\<rparr>"
  note h1 = heard_ok [OF os1(1) ok]
  have c1: "counted cfg H n1" using c os1(2) by (simp add: counted_def n1_def host_count_def sessions_ok_def)
  have ok1: "net_ok (net_cs n1)" and u1: "ns_users (net_ns n1) = ns_users (net_ns n)" using h1(1,2) by (simp_all add: n1_def nsn)
  have g1: "net_good cfg n1" using c1 ok1 u1 ts by (auto simp: net_good_def H_def) (auto simp: n1_def)
  obtain b os2 where a: "(if LimitSessions (k_os cfg) then add_session (k_os cfg) now nick host (n_os n1) else Some (True, n_os n1)) = Some (b, os2)"
    "unheard os2 = unheard (n_os n1)" "LimitSessions (k_os cfg) \<longrightarrow> sessions_ok os2 \<and>
      (\<forall>g. host_count os2 g = (if b \<and> sql_eq g host then hosts_on H g + 1 else hosts_on H g))"
    "b \<longleftrightarrow> \<not> (LimitSessions (k_os cfg) \<and> host_full (k_os cfg) (os_exceptions os1) (hosts_on H host) host)"
    using admitted_ok [OF ok1 c1 host(1,3), of now nick] low by (auto simp: n1_def)
  have r: "turned_away cfg n username host \<longleftrightarrow> bad \<or> \<not> b"
    using a(4) check_akill_hit [of "k_os cfg" nick username host "n_os n"]
      check_akill_exceptions [of "k_os cfg" nick username host "n_os n"]
    by (simp add: turned_away_def k H_def)
  define n2 where "n2 = n1\<lparr>n_os := os2\<rparr>"
  note h2 = heard_ok [OF a(2) ok1]
  have ok2: "net_ok (net_cs n2)" and u2: "ns_users (net_ns n2) = ns_users (net_ns n)"
    using h2(1,2) u1 by (simp_all add: n2_def nsn)
  show ?thesis
  proof (cases "bad \<or> \<not> b")
    case True
    have "net_good cfg n2" if "\<not> b"
      using c1 a(3) that ok2 u2 ts by (auto simp: net_good_def counted_def H_def) (auto simp: n2_def n1_def)
    moreover have "do_nick_new cfg now nick signon username host server realname n = Some (False, if bad then n1 else n2)"
      using True k a(1) unfolding do_nick_new_def n1_def n2_def
      by (cases bad) (simp_all add: Let_def split del: if_split)
    ultimately show ?thesis using True r g1 u1 u2 by (cases bad) simp_all
  next
    case False
    define n3 where "n3 = snd (new_user cfg now nick n2)"
    define i where "i = n_next n2"
    have i: "i = n_next n" by (simp add: i_def n2_def n1_def)
    have new: "new_user cfg now nick n2 = (i, n3)" using new_user_state(1) [of cfg now nick n2] by (simp add: n3_def i_def prod_eq_iff)
    have s3: "servers_ok (n_srv n3) ts" using ts new_user_state(4) [of cfg now nick n2] by (simp add: n3_def n2_def n1_def)
    obtain srv l where srv: "findserver server (n_srv n3) = Some (srv, (n_srv n3)\<lparr>sv_last := l\<rparr>)" "servers_ok ((n_srv n3)\<lparr>sv_last := l\<rparr>) ts"
      using findserver_ok [OF s3] by blast
    define g where "g = (\<lambda>u :: user. u\<lparr>u_signon := fst (strtol signon), u_username := username, u_host := host,
                        u_server := srv, u_realname := realname, u_my_signon := now\<rparr>)"
    define n4 where "n4 = with_nick (set_users (user_set g i) (net_ns n3)) (n3\<lparr>n_srv := (n_srv n3)\<lparr>sv_last := l\<rparr>\<rparr>)"
    have c2: "counted cfg H (n2\<lparr>n_os := n_os n1\<rparr>)" using c1 by (simp add: n2_def n1_def)
    have fr: "free_nick (online (ns_users (net_ns n2))) (n_next n2) nick" using free u2 by (simp add: n2_def n1_def)
    have ss: "LimitSessions (k_os cfg) \<longrightarrow> sessions_ok (n_os n2) \<and>
      (\<forall>g. host_count (n_os n2) g = (if sql_eq g host then hosts_on H g + 1 else hosts_on H g))" using a(3) False by (simp add: n2_def)
    have H2: "H = hosts (ns_users (net_ns n2))" by (simp add: u2 H_def)
    have g: "u_uid (g u) = u_uid u \<and> u_nick (g u) = u_nick u \<and> u_host (g u) = host \<and> u_real_id (g u) = u_real_id u \<and>
      u_nick_id (g u) = u_nick_id u \<and> u_chans (g u) = u_chans u" for u by (simp add: g_def)
    note w = welcomed_ok [OF ok2 c2 H2 ss srv(2) fr host(1,2) g, of now, folded n3_def, folded i_def n4_def, unfolded u2]
    have w: "net_good cfg n4" "online (ns_users (net_ns n4)) = (online (ns_users (net_ns n)))(i \<mapsto> (strlower nick, []))"
      "\<exists>u. user_at (ns_users (net_ns n4)) i = Some u"
      using w unfolding n4_def by simp_all
    obtain u where u: "user_at (ns_users (net_ns n4)) i = Some u" using w(3) by blast
    have b4: "base_ok (net_ns n4)" using w(1) by (simp add: net_good_def net_ok_def)
    define n5 where "n5 = with_nick (display_news u NEWS_LOGON (net_ns n4)) n4"
    have c5: "calm n4 n5" unfolding n5_def using calm_kept [OF b4] news_kept b4 by (simp add: base_ok_def)
    obtain v where v: "user_at (ns_users (net_ns n5)) i = Some v" using calm_user [OF c5 u] by blast
    obtain n6 where n6: "nick_settled cfg now i nick True n5 = Some n6" "calm n5 n6"
      using nick_settled_ok [OF calm_base [OF c5] v, of cfg now nick True] by blast
    have "do_nick_new cfg now nick signon username host server realname n = Some (True, n6)"
      using False k a(1) new srv(1) u n6(1) unfolding do_nick_new_def n1_def n2_def
      by (simp add: Let_def g_def n4_def n5_def split del: if_split)
    then show ?thesis using r False calm_good [OF w(1) calm_trans [OF c5 n6(2)]] w(2) i by simp
  qed
qed

end
