(* ===== verification/Process.thy ===== *)
theory Process
  imports UserOps
begin

text \<open>
  A line from the server (src/src/process.c): users to be ignored, cutting the line into source,
  command and parameters, and the table of messages (src/src/messages.c) with the handlers, which
  check the number of parameters and call the operations of the components.

  Answers to INFO, MOTD, STATS and TIME are one message in the output each.  The commands of the
  services, FloodServ and the quarantine are functions of \<open>hooks\<close>.
\<close>

section \<open>Ignored users\<close>

type_synonym ignores = "char \<Rightarrow> (cstr \<times> int) list"

fun first_time :: "(cstr \<Rightarrow> bool) \<Rightarrow> (int \<Rightarrow> int) \<Rightarrow> (cstr \<times> int) list \<Rightarrow> (cstr \<times> int) list option" where
  "first_time P f [] = None"
| "first_time P f ((w, t) # es) =
     (if P w then Some ((w, f t) # es) else map_option (Cons (w, t)) (first_time P f es))"

definition add_ignore :: "int \<Rightarrow> cstr \<Rightarrow> int \<Rightarrow> ignores \<Rightarrow> ignores" where
  "add_ignore now nick delta ig =
     (let who = take (NICKMAX - 1) nick;
          b = tolower (hd0 nick)
      in case first_time (\<lambda>w. strlower w = strlower who) (\<lambda>t. if t > now then t + delta else now + delta) (ig b) of
           Some es \<Rightarrow> ig(b := es)
         | None \<Rightarrow> ig(b := (who, now + delta) # ig b))"

fun remove_first :: "(cstr \<Rightarrow> bool) \<Rightarrow> (cstr \<times> int) list \<Rightarrow> (cstr \<times> int) list" where
  "remove_first P [] = []"
| "remove_first P (e # es) = (if P (fst e) then es else e # remove_first P es)"

definition get_ignore :: "int \<Rightarrow> cstr \<Rightarrow> ignores \<Rightarrow> int option \<times> ignores" where
  "get_ignore now nick ig =
     (let b = tolower (hd0 nick);
          same = (\<lambda>w. irc_stricmp w nick = 0)
      in case find (\<lambda>e. same (fst e)) (ig b) of
           None \<Rightarrow> (None, ig)
         | Some e \<Rightarrow> if snd e \<le> now then (None, ig(b := remove_first same (ig b))) else (Some (snd e), ig))"

section \<open>Cutting a line\<close>

text \<open>\<open>split_buf\<close>: a parameter with a colon in front is the rest of the line.\<close>

function split_buf :: "cstr \<Rightarrow> cstr list" where
  "split_buf [] = []"
| "split_buf (c # cs) =
     (if c = CHR '':'' then [cs]
      else (case dropWhile (\<lambda>x. x \<noteq> CHR '' '') (c # cs) of
              [] \<Rightarrow> [c # cs]
            | _ # s \<Rightarrow> takeWhile (\<lambda>x. x \<noteq> CHR '' '') (c # cs) # split_buf (dropWhile isspace s)))"
  by pat_completeness auto

termination
proof (relation "measure length")
  fix c cs x s
  assume "dropWhile (\<lambda>x. x \<noteq> CHR '' '') (c # cs) = x # s"
  then have "length (x # s) \<le> length (c # cs)" by (metis length_dropWhile_le)
  moreover have "length (dropWhile isspace s) \<le> length s" by (rule length_dropWhile_le)
  ultimately show "(dropWhile isspace s, c # cs) \<in> measure length" by simp
qed simp

definition command_of :: "cstr \<Rightarrow> cstr \<Rightarrow> (cstr \<times> cstr \<times> cstr list) option" where
  "command_of source buf =
     (if buf = [] then None
      else
        (let s = (case strchr buf (CHR '' '') of None \<Rightarrow> [] | Some s \<Rightarrow> dropWhile isspace (tl s))
         in Some (source, take 63 (takeWhile (\<lambda>x. x \<noteq> CHR '' '') buf), split_buf s)))"

text \<open>A byte 255 in front of the line is passed over.\<close>

definition buf_start :: "cstr \<Rightarrow> cstr" where
  "buf_start inbuf = (if hd0 inbuf = CHR 0xFF then tl inbuf else inbuf)"

definition cut_line :: "cstr \<Rightarrow> (cstr \<times> cstr \<times> cstr list) option" where
  "cut_line inbuf =
     (let buf = take 511 (buf_start inbuf)
      in if hd0 buf = CHR '':''
         then (case strchr buf (CHR '' '') of
                 None \<Rightarrow> None
               | Some s \<Rightarrow> command_of (take 63 (tl (takeWhile (\<lambda>x. x \<noteq> CHR '' '') buf))) (dropWhile isspace (tl s)))
         else command_of [] buf)"

section \<open>The table of messages\<close>

datatype handler =
  M_nickcoll | M_away | M_info | M_join | M_kick | M_kill | M_mode | M_motd | M_nick | M_part | M_ping
| M_privmsg | M_quit | M_server | M_squit | M_stats | M_time | M_topic | M_user | M_version | M_whois
| M_sjoin | M_sqline

definition messages :: "(cstr \<times> handler option) list" where
  "messages =
     [(''436'', Some M_nickcoll), (''AWAY'', Some M_away), (''INFO'', Some M_info), (''JOIN'', Some M_join),
      (''KICK'', Some M_kick), (''KILL'', Some M_kill), (''MODE'', Some M_mode), (''MOTD'', Some M_motd),
      (''NICK'', Some M_nick), (''NOTICE'', None), (''PART'', Some M_part), (''PASS'', None),
      (''PING'', Some M_ping), (''PRIVMSG'', Some M_privmsg), (''QUIT'', Some M_quit), (''SERVER'', Some M_server),
      (''SQUIT'', Some M_squit), (''STATS'', Some M_stats), (''TIME'', Some M_time), (''TOPIC'', Some M_topic),
      (''USER'', Some M_user), (''VERSION'', Some M_version), (''WALLOPS'', None), (''WHOIS'', Some M_whois),
      (''CAPAB'', None), (''SVINFO'', None), (''SJOIN'', Some M_sjoin), (''AKILL'', None), (''GLOBOPS'', None),
      (''CHATOPS'', None), (''GNOTICE'', None), (''GOPER'', None), (''SQLINE'', Some M_sqline), (''RAKILL'', None)]"

definition find_message :: "cstr \<Rightarrow> (cstr \<times> handler option) option" where
  "find_message name = find (\<lambda>m. strlower name = strlower (fst m)) messages"

section \<open>The handlers\<close>

record proccfg =
  p_net :: netcfg
  s_NickServ :: cstr
  s_MemoServ :: cstr
  s_HelpServ :: cstr
  s_GlobalNoticer :: cstr
  s_IrcIIHelp :: "cstr option"
  s_DevNull :: "cstr option"
  WallBadOS :: bool
  allow_ignore :: bool
  VERSION :: cstr
  desc_of :: "cstr \<Rightarrow> cstr"

record proc_state =
  p_state :: net_state
  p_ignore :: ignores
  p_lasttimes :: "int list"

definition p_say :: "ns_msg \<Rightarrow> proc_state \<Rightarrow> proc_state" where
  "p_say m st = st\<lparr>p_state := net_say m (p_state st)\<rparr>"

definition p_says :: "ns_msg list \<Rightarrow> proc_state \<Rightarrow> proc_state" where
  "p_says ms st = fold p_say ms st"

definition on_net :: "(net_state \<Rightarrow> net_state option) \<Rightarrow> proc_state \<Rightarrow> proc_state option" where
  "on_net f st = map_option (\<lambda>n. st\<lparr>p_state := n\<rparr>) (f (p_state st))"

definition on_chan :: "(cs_state \<Rightarrow> cs_state option) \<Rightarrow> proc_state \<Rightarrow> proc_state option" where
  "on_chan f = on_net (\<lambda>n. map_option (\<lambda>cs. with_cs cs n) (f (net_cs n)))"

definition on_servers :: "(srv_state \<Rightarrow> srv_state option) \<Rightarrow> proc_state \<Rightarrow> proc_state option" where
  "on_servers f = on_net (\<lambda>n. map_option (\<lambda>ss. n\<lparr>n_srv := ss\<rparr>) (f (n_srv n)))"

abbreviation p_users :: "proc_state \<Rightarrow> userlist" where
  "p_users st \<equiv> ns_users (net_ns (p_state st))"

text \<open>
  The nicknames of the services, the modes they give themselves, in the order of their introduction.
\<close>

definition pseudo_clients :: "proccfg \<Rightarrow> (cstr \<times> cstr option) list" where
  "pseudo_clients cfg =
     [(s_NickServ cfg, Some ''+o''), (s_ChanServ (k_cs (p_net cfg)), Some ''+o''), (s_HelpServ cfg, None)] @
     (case s_IrcIIHelp cfg of None \<Rightarrow> [] | Some s \<Rightarrow> [(s, None)]) @
     [(s_MemoServ cfg, Some ''+o''), (s_OperServ (k_os (p_net cfg)), Some ''+oi'')] @
     (case s_DevNull cfg of None \<Rightarrow> [] | Some s \<Rightarrow> [(s, Some ''+i'')]) @
     [(s_GlobalNoticer cfg, Some ''+oi''), (s_FloodServ (k_cs (p_net cfg)), Some ''+oi'')]"

definition introduce_user :: "proccfg \<Rightarrow> int \<Rightarrow> cstr option \<Rightarrow> proc_state \<Rightarrow> proc_state option" where
  "introduce_user cfg now user st =
     (if hd (p_lasttimes st) \<ge> now - 3 then None
      else Some (p_says
        (concat (map (\<lambda>(name, mode). Cmd ''NICK'' [name, desc_of cfg name] # (case mode of None \<Rightarrow> [] | Some m \<Rightarrow> [Cmd ''MODE'' [name, m]]))
           (filter (\<lambda>(name, mode). case user of None \<Rightarrow> True | Some u \<Rightarrow> strlower u = strlower name) (pseudo_clients cfg))))
        (st\<lparr>p_lasttimes := tl (p_lasttimes st) @ [now]\<rparr>)))"

definition m_nickcoll :: "proccfg \<Rightarrow> int \<Rightarrow> cstr list \<Rightarrow> proc_state \<Rightarrow> proc_state option" where
  "m_nickcoll cfg now av st = (case av of [] \<Rightarrow> Some st | a # _ \<Rightarrow> introduce_user cfg now (Some a) st)"

definition m_ping :: "proccfg \<Rightarrow> cstr list \<Rightarrow> proc_state \<Rightarrow> proc_state option" where
  "m_ping cfg av st =
     (case av of
        [] \<Rightarrow> Some st
      | [a] \<Rightarrow> Some (p_say (Cmd ''PONG'' [ServerName (k_cs (p_net cfg)), a]) st)
      | a # b # _ \<Rightarrow> Some (p_say (Cmd ''PONG'' [b, a]) st))"

definition m_away :: "cstr \<Rightarrow> cstr list \<Rightarrow> proc_state \<Rightarrow> proc_state option" where
  "m_away source av st =
     (case finduser (p_users st) source of
        None \<Rightarrow> Some st
      | Some u \<Rightarrow> Some (if av = [] \<or> hd av = [] then p_say (CheckMemos (u_uid u)) st else st))"

definition m_join :: "proccfg \<Rightarrow> int \<Rightarrow> cstr \<Rightarrow> cstr list \<Rightarrow> proc_state \<Rightarrow> proc_state option" where
  "m_join cfg now source av st =
     (case av of [chans] \<Rightarrow> on_chan (do_join (k_cs (p_net cfg)) now source chans) st | _ \<Rightarrow> Some st)"

definition m_kick :: "int \<Rightarrow> cstr list \<Rightarrow> proc_state \<Rightarrow> proc_state option" where
  "m_kick now av st = (case av of [channel, nicks, reason] \<Rightarrow> on_chan (do_kick now channel nicks) st | _ \<Rightarrow> Some st)"

text \<open>A service that is killed comes back; FloodServ is not among the names that are compared.\<close>

definition own_names :: "proccfg \<Rightarrow> cstr list" where
  "own_names cfg =
     [s_OperServ (k_os (p_net cfg)), s_NickServ cfg, s_ChanServ (k_cs (p_net cfg)), s_MemoServ cfg, s_HelpServ cfg,
      s_GlobalNoticer cfg] @ (case s_IrcIIHelp cfg of None \<Rightarrow> [] | Some s \<Rightarrow> [s]) @ (case s_DevNull cfg of None \<Rightarrow> [] | Some s \<Rightarrow> [s])"

definition m_kill :: "proccfg \<Rightarrow> int \<Rightarrow> cstr \<Rightarrow> cstr list \<Rightarrow> proc_state \<Rightarrow> proc_state option" where
  "m_kill cfg now source av st =
     (case av of
        [nick, msg] \<Rightarrow>
          if strlower nick \<in> strlower ` set (own_names cfg) then introduce_user cfg now (Some nick) st
          else on_net (do_kill (p_net cfg) now nick msg) st
      | _ \<Rightarrow> Some st)"

text \<open>The first parameter is read before their number is checked.\<close>

definition m_mode :: "proccfg \<Rightarrow> int \<Rightarrow> cstr \<Rightarrow> cstr list \<Rightarrow> proc_state \<Rightarrow> proc_state option" where
  "m_mode cfg now source av st =
     (case av of
        [] \<Rightarrow> None
      | name # rest \<Rightarrow>
          if hd0 name \<in> {CHR ''#'', CHR ''&''}
          then (case rest of
                  [] \<Rightarrow> Some st
                | modes # args \<Rightarrow> on_chan (do_cmode (k_cs (p_net cfg)) now source name modes args) st)
          else (case rest of
                  [modes] \<Rightarrow> on_net (do_umode (p_net cfg) now source name modes) st
                | _ \<Rightarrow> Some st))"

definition m_part :: "int \<Rightarrow> cstr \<Rightarrow> cstr list \<Rightarrow> proc_state \<Rightarrow> proc_state option" where
  "m_part now source av st =
     (if av = [] \<or> length av > 2 then Some st else on_chan (do_part now source (hd av)) st)"

definition m_quit :: "proccfg \<Rightarrow> int \<Rightarrow> cstr \<Rightarrow> cstr list \<Rightarrow> proc_state \<Rightarrow> proc_state option" where
  "m_quit cfg now source av st =
     (case av of [msg] \<Rightarrow> on_net (do_quit (p_net cfg) now source msg) st | _ \<Rightarrow> Some st)"

definition m_server :: "int \<Rightarrow> cstr \<Rightarrow> cstr list \<Rightarrow> proc_state \<Rightarrow> proc_state option" where
  "m_server now source av st = (case av of [] \<Rightarrow> None | name # _ \<Rightarrow> on_servers (do_server now source name) st)"

definition m_squit :: "cstr list \<Rightarrow> proc_state \<Rightarrow> proc_state option" where
  "m_squit av st = (case av of [] \<Rightarrow> None | name # _ \<Rightarrow> on_servers (do_squit name) st)"

definition m_topic :: "int \<Rightarrow> cstr \<Rightarrow> cstr list \<Rightarrow> proc_state \<Rightarrow> proc_state option" where
  "m_topic now source av st =
     (case av of [name, text] \<Rightarrow> on_chan (do_topic now source name [text]) st | _ \<Rightarrow> Some st)"

definition m_sjoin :: "proccfg \<Rightarrow> int \<Rightarrow> cstr \<Rightarrow> cstr list \<Rightarrow> proc_state \<Rightarrow> proc_state option" where
  "m_sjoin cfg now source av st =
     (if length av = 3 \<or> length av < 2 then Some st
      else on_chan (do_sjoin (p_net cfg) now source av) st)"

definition m_version :: "proccfg \<Rightarrow> cstr \<Rightarrow> proc_state \<Rightarrow> proc_state option" where
  "m_version cfg source st = Some (p_say (Cmd ''351'' [source, VERSION cfg, ServerName (k_cs (p_net cfg))]) st)"

text \<open>The letters that STATS answers to.\<close>

definition m_stats :: "cstr \<Rightarrow> cstr list \<Rightarrow> proc_state \<Rightarrow> proc_state option" where
  "m_stats source av st =
     (case av of
        [] \<Rightarrow> Some st
      | a # _ \<Rightarrow>
          Some (if hd0 a \<in> set ''uchikmoy'' \<or> hd0 a = CHR ''l'' \<and> is_oper (p_users st) source
                then p_say (Cmd ''STATS'' [source, [hd0 a]]) st else st))"

definition whois_names :: "proccfg \<Rightarrow> cstr list" where
  "whois_names cfg =
     [s_NickServ cfg, s_ChanServ (k_cs (p_net cfg)), s_MemoServ cfg, s_HelpServ cfg] @
     (case s_IrcIIHelp cfg of None \<Rightarrow> [] | Some s \<Rightarrow> [s]) @ [s_OperServ (k_os (p_net cfg)), s_GlobalNoticer cfg] @
     (case s_DevNull cfg of None \<Rightarrow> [] | Some s \<Rightarrow> [s])"

definition m_whois :: "proccfg \<Rightarrow> cstr \<Rightarrow> cstr list \<Rightarrow> proc_state \<Rightarrow> proc_state option" where
  "m_whois cfg source av st =
     (case av of
        [] \<Rightarrow> Some st
      | name # _ \<Rightarrow>
          Some (case find (\<lambda>s. strlower name = strlower s) (whois_names cfg) of
                  None \<Rightarrow> p_say (Cmd ''401'' [source, name]) st
                | Some s \<Rightarrow> p_says [Cmd ''311'' [source, name, desc_of cfg s],
                                    Cmd ''312'' [source, name, ServerName (k_cs (p_net cfg))], Cmd ''318'' []] st))"

section \<open>Messages to the services\<close>

datatype service = ToOper | ToNick | ToChan | ToMemo | ToHelp | ToFlood | ToIrcII

text \<open>A command of a service takes its time: the result has the clock at its end.\<close>

record hooks =
  h_service :: "service \<Rightarrow> int \<Rightarrow> cstr \<Rightarrow> cstr \<Rightarrow> proc_state \<Rightarrow> (int \<times> proc_state) option"
  h_flood :: "int \<Rightarrow> cstr \<Rightarrow> cstr list \<Rightarrow> proc_state \<Rightarrow> proc_state option"
  h_sqline :: "cstr \<Rightarrow> cstr list \<Rightarrow> proc_state \<Rightarrow> proc_state option"

definition addressee :: "proccfg \<Rightarrow> cstr \<Rightarrow> service option" where
  "addressee cfg name =
     (let is = (\<lambda>s. strlower name = strlower s)
      in if is (s_OperServ (k_os (p_net cfg))) then Some ToOper
         else if is (s_NickServ cfg) then Some ToNick
         else if is (s_ChanServ (k_cs (p_net cfg))) then Some ToChan
         else if is (s_MemoServ cfg) then Some ToMemo
         else if is (s_HelpServ cfg) then Some ToHelp
         else if is (s_FloodServ (k_cs (p_net cfg))) then Some ToFlood
         else if case s_IrcIIHelp cfg of None \<Rightarrow> False | Some s \<Rightarrow> is s then Some ToIrcII
         else None)"

definition denied_oper :: "proccfg \<Rightarrow> cstr \<Rightarrow> proc_state \<Rightarrow> proc_state" where
  "denied_oper cfg source st =
     (let st = p_say (case finduser (p_users st) source of
                        Some u \<Rightarrow> NoticeLang (u_uid u) ''ACCESS_DENIED'' []
                      | None \<Rightarrow> NoticeText source ''Access denied.'') st
      in if WallBadOS cfg then p_say (Wallops ''Denied access to OperServ'' [source]) st else st)"

definition deliver ::
  "proccfg \<Rightarrow> hooks \<Rightarrow> int \<Rightarrow> cstr \<Rightarrow> cstr \<Rightarrow> cstr \<Rightarrow> bool \<Rightarrow> proc_state \<Rightarrow> proc_state option" where
  "deliver cfg h now source name text oper st =
     (case addressee cfg name of
        None \<Rightarrow> h_flood h now source [name, text] st
      | Some a \<Rightarrow>
          do {
            (stop, st) \<leftarrow> (if a = ToOper \<and> \<not> oper then Some (now, denied_oper cfg source st)
                          else h_service h a now source
                                 (if a = ToIrcII then take (BUFSIZE - 1) (''ircII '' @ text) else text) st);
            Some (if allow_ignore cfg \<and> stop > now \<and> source \<noteq> [] \<and> CHR ''.'' \<notin> set source
                  then st\<lparr>p_ignore := add_ignore stop source (stop - now) (p_ignore st)\<rparr> else st)
          })"

definition m_privmsg ::
  "proccfg \<Rightarrow> hooks \<Rightarrow> int \<Rightarrow> cstr \<Rightarrow> cstr list \<Rightarrow> proc_state \<Rightarrow> proc_state option" where
  "m_privmsg cfg h now source av st =
     (case av of
        [name, text] \<Rightarrow>
          (let oper = is_oper (p_users st) source;
               (ign, ig) = (if allow_ignore cfg \<and> \<not> oper then get_ignore now source (p_ignore st) else (None, p_ignore st));
               st = st\<lparr>p_ignore := ig\<rparr>
           in if case ign of None \<Rightarrow> False | Some t \<Rightarrow> t > now then Some st
              else
                (case strchr name (CHR ''@'') of
                   Some s \<Rightarrow>
                     if strlower (tl s) \<noteq> strlower (ServerName (k_cs (p_net cfg))) then Some st
                     else deliver cfg h now source (takeWhile (\<lambda>x. x \<noteq> CHR ''@'') name) text oper st
                 | None \<Rightarrow> deliver cfg h now source name text oper st))
      | _ \<Rightarrow> Some st)"

section \<open>A line\<close>

definition perform ::
  "proccfg \<Rightarrow> hooks \<Rightarrow> int \<Rightarrow> handler \<Rightarrow> cstr \<Rightarrow> cstr list \<Rightarrow> proc_state \<Rightarrow> proc_state option" where
  "perform cfg h now m source av st =
     (case m of
        M_nickcoll \<Rightarrow> m_nickcoll cfg now av st
      | M_away \<Rightarrow> m_away source av st
      | M_info \<Rightarrow> Some (p_say (Cmd ''INFO'' [source]) st)
      | M_join \<Rightarrow> m_join cfg now source av st
      | M_kick \<Rightarrow> m_kick now av st
      | M_kill \<Rightarrow> m_kill cfg now source av st
      | M_mode \<Rightarrow> m_mode cfg now source av st
      | M_motd \<Rightarrow> Some (p_say (Cmd ''MOTD'' [source]) st)
      | M_nick \<Rightarrow> on_net (m_nick (p_net cfg) now source av) st
      | M_part \<Rightarrow> m_part now source av st
      | M_ping \<Rightarrow> m_ping cfg av st
      | M_privmsg \<Rightarrow> m_privmsg cfg h now source av st
      | M_quit \<Rightarrow> m_quit cfg now source av st
      | M_server \<Rightarrow> m_server now source av st
      | M_squit \<Rightarrow> m_squit av st
      | M_stats \<Rightarrow> m_stats source av st
      | M_time \<Rightarrow> Some (p_say (Cmd ''TIME'' []) st)
      | M_topic \<Rightarrow> m_topic now source av st
      | M_user \<Rightarrow> Some st
      | M_version \<Rightarrow> m_version cfg source st
      | M_whois \<Rightarrow> m_whois cfg source av st
      | M_sjoin \<Rightarrow> m_sjoin cfg now source av st
      | M_sqline \<Rightarrow> if length av \<noteq> 2 then Some st else h_sqline h source av st)"

definition process :: "proccfg \<Rightarrow> hooks \<Rightarrow> int \<Rightarrow> cstr \<Rightarrow> proc_state \<Rightarrow> proc_state option" where
  "process cfg h now inbuf st =
     (let st = (if hd0 inbuf = CHR 0xFF then p_say (Cmd ''SNOOP'' [''read of -1'', inbuf]) st else st)
      in case cut_line inbuf of
           None \<Rightarrow> Some st
         | Some (source, cmd, av) \<Rightarrow>
             (case find_message cmd of
                None \<Rightarrow> Some (p_say (Cmd ''SNOOP'' [''Unknown message from server'', buf_start inbuf]) st)
              | Some (name, None) \<Rightarrow> Some st
              | Some (name, Some m) \<Rightarrow> perform cfg h now m source av st))"

section \<open>Lines that are printed and cut again\<close>

text \<open>
  How a server prints a message: words without white space, and the last parameter behind a colon.
\<close>

definition word_ok :: "cstr \<Rightarrow> bool" where
  "word_ok w \<longleftrightarrow> w \<noteq> [] \<and> hd w \<noteq> CHR '':'' \<and> list_all (\<lambda>c. \<not> isspace c) w"

definition print_line :: "cstr \<Rightarrow> cstr \<Rightarrow> cstr list \<Rightarrow> cstr option \<Rightarrow> cstr" where
  "print_line source cmd args trail =
     (if source = [] then [] else CHR '':'' # source @ '' '') @ cmd @ concat (map (Cons (CHR '' '')) args) @
     (case trail of None \<Rightarrow> [] | Some t \<Rightarrow> '' :'' @ t)"

lemma space_here: "isspace (CHR '' '')" "\<not> isspace (CHR '':'')"
  by (simp_all add: isspace_def)

lemma word_parts:
  assumes "list_all (\<lambda>c. \<not> isspace c) w"
  shows "takeWhile (\<lambda>x. x \<noteq> CHR '' '') (w @ CHR '' '' # s) = w" and "dropWhile (\<lambda>x. x \<noteq> CHR '' '') (w @ CHR '' '' # s) = CHR '' '' # s"
    and "takeWhile (\<lambda>x. x \<noteq> CHR '' '') w = w" and "dropWhile (\<lambda>x. x \<noteq> CHR '' '') w = []"
proof -
  have n: "\<forall>x\<in>set w. x \<noteq> CHR '' ''" using assms space_here(1) by (auto simp only: list_all_iff)
  then have t: "takeWhile (\<lambda>x. x \<noteq> CHR '' '') w = w" "dropWhile (\<lambda>x. x \<noteq> CHR '' '') w = []"
    by (simp_all only: takeWhile_eq_all_conv dropWhile_eq_Nil_conv)
  show "takeWhile (\<lambda>x. x \<noteq> CHR '' '') (w @ CHR '' '' # s) = w" "dropWhile (\<lambda>x. x \<noteq> CHR '' '') (w @ CHR '' '' # s) = CHR '' '' # s"
    using n by (simp_all add: takeWhile_append dropWhile_append t)
  show "takeWhile (\<lambda>x. x \<noteq> CHR '' '') w = w" "dropWhile (\<lambda>x. x \<noteq> CHR '' '') w = []" by (rule t)+
qed

lemma strchr_word:
  assumes "list_all (\<lambda>c. \<not> isspace c) w"
  shows "strchr (w @ CHR '' '' # s) (CHR '' '') = Some (CHR '' '' # s)" and "strchr w (CHR '' '') = None"
proof -
  have "CHR '' '' \<notin> set w" using assms space_here(1) by (auto simp only: list_all_iff)
  then show "strchr w (CHR '' '') = None" by (simp add: strchr_def)
  show "strchr (w @ CHR '' '' # s) (CHR '' '') = Some (CHR '' '' # s)"
    unfolding strchr_def word_parts [OF assms] by simp
qed

lemma word_start: "word_ok w \<Longrightarrow> dropWhile isspace (w @ s) = w @ s"
  by (cases w) (auto simp: word_ok_def)

text \<open>The parameters behind the command, as they are printed.\<close>

definition tail_text :: "cstr list \<Rightarrow> cstr option \<Rightarrow> cstr" where
  "tail_text args trail = concat (map (Cons (CHR '' '')) args) @ (case trail of None \<Rightarrow> [] | Some t \<Rightarrow> '' :'' @ t)"

lemma tail_start:
  assumes "list_all word_ok args" and "tail_text args trail \<noteq> []"
  shows "\<exists>s. tail_text args trail = CHR '' '' # s \<and> dropWhile isspace s = s"
proof (cases args)
  case Nil
  then show ?thesis using assms by (auto simp: tail_text_def space_here split: option.splits)
next
  case (Cons a as)
  then show ?thesis using assms(1) word_start by (simp add: tail_text_def)
qed

lemma split_buf_tail:
  assumes "list_all word_ok args"
  shows "split_buf (tl (tail_text args trail)) = args @ (case trail of None \<Rightarrow> [] | Some t \<Rightarrow> [t])"
  using assms
proof (induction args)
  case Nil
  then show ?case by (simp add: tail_text_def split: option.split)
next
  case (Cons a as)
  obtain c w where a: "a = c # w" "c \<noteq> CHR '':''" using Cons.prems by (cases a) (auto simp: word_ok_def)
  have sp: "list_all (\<lambda>c. \<not> isspace c) a" using Cons.prems by (simp add: word_ok_def)
  have t: "tl (tail_text (a # as) trail) = a @ tail_text as trail" by (simp add: tail_text_def)
  show ?case
  proof (cases "tail_text as trail = []")
    case True
    then have "as = [] \<and> trail = None" by (cases as; cases trail) (auto simp: tail_text_def)
    then show ?thesis using t True word_parts(4) [OF sp] a by simp
  next
    case False
    then obtain s where s: "tail_text as trail = CHR '' '' # s" "dropWhile isspace s = s" using tail_start Cons.prems by auto
    have "split_buf (a @ CHR '' '' # s) = a # split_buf s"
      using a word_parts(1,2) [OF sp, of s] s(2) by simp
    moreover have "split_buf s = as @ (case trail of None \<Rightarrow> [] | Some t \<Rightarrow> [t])" using Cons s by simp
    ultimately show ?thesis using t s(1) by simp
  qed
qed

lemma command_of_print:
  assumes "word_ok cmd" and "length cmd \<le> 63" and "list_all word_ok args"
  shows "command_of source (cmd @ tail_text args trail) =
    Some (source, cmd, args @ (case trail of None \<Rightarrow> [] | Some t \<Rightarrow> [t]))"
proof -
  have sp: "list_all (\<lambda>c. \<not> isspace c) cmd" "cmd \<noteq> []" using assms(1) by (simp_all add: word_ok_def)
  show ?thesis
  proof (cases "tail_text args trail = []")
    case True
    then have "args = [] \<and> trail = None" by (cases args; cases trail) (auto simp: tail_text_def)
    then show ?thesis
      using sp(2) assms(2) unfolding command_of_def True append_Nil2 strchr_word(2) [OF sp(1)] word_parts(3) [OF sp(1)] by simp
  next
    case False
    then obtain s where s: "tail_text args trail = CHR '' '' # s" "dropWhile isspace s = s" using tail_start assms(3) by blast
    then have "split_buf s = args @ (case trail of None \<Rightarrow> [] | Some t \<Rightarrow> [t])" using split_buf_tail [OF assms(3), of trail] by simp
    then show ?thesis
      using s strchr_word(1) [OF sp(1), of s] word_parts(1) [OF sp(1), of s] sp(2) assms(2) by (simp add: command_of_def)
  qed
qed

lemma cut_line_print:
  assumes "source = [] \<or> list_all (\<lambda>c. \<not> isspace c) source" and "length source \<le> 63"
    and "word_ok cmd" and "length cmd \<le> 63" and "hd cmd \<noteq> CHR 0xFF" and "list_all word_ok args"
    and "length (print_line source cmd args trail) \<le> 511"
  shows "cut_line (print_line source cmd args trail) =
    Some (source, cmd, args @ (case trail of None \<Rightarrow> [] | Some t \<Rightarrow> [t]))"
proof -
  define rest where "rest = cmd @ tail_text args trail"
  obtain c w where cmd: "cmd = c # w" using assms(3) by (cases cmd) (auto simp: word_ok_def)
  have c: "c \<noteq> CHR '':''" "c \<noteq> CHR 0xFF" using assms(3,5) cmd by (simp_all add: word_ok_def)
  have out: "command_of source rest = Some (source, cmd, args @ (case trail of None \<Rightarrow> [] | Some t \<Rightarrow> [t]))"
    unfolding rest_def by (rule command_of_print [OF assms(3,4,6)])
  have line: "print_line source cmd args trail = (if source = [] then rest else CHR '':'' # source @ CHR '' '' # rest)"
    by (simp add: print_line_def rest_def tail_text_def)
  show ?thesis
  proof (cases "source = []")
    case True
    then show ?thesis using line out c assms(7) by (simp add: cut_line_def buf_start_def hd0_def rest_def cmd)
  next
    case False
    then have sp: "list_all (\<lambda>c. \<not> isspace c) (CHR '':'' # source)" using assms(1) by (simp add: space_here)
    have start: "dropWhile isspace rest = rest" unfolding rest_def by (rule word_start [OF assms(3)])
    have l: "print_line source cmd args trail = (CHR '':'' # source) @ CHR '' '' # rest" using False line by simp
    have "take 511 (print_line source cmd args trail) = (CHR '':'' # source) @ CHR '' '' # rest" using l assms(7) by simp
    then show ?thesis
      using l strchr_word(1) [OF sp, of rest] word_parts(1) [OF sp, of rest] start out assms(2)
      by (simp add: cut_line_def buf_start_def hd0_def)
  qed
qed

text \<open>
  C4: a message that a server prints is cut into the source, the command and the parameters it
  was printed from, if the words have no white space and no colon in front, source and command have
  at most 63 characters and the line at most 511.
\<close>

theorem cut_print_line:
  assumes "source = [] \<or> list_all (\<lambda>c. \<not> isspace c) source" and "length source \<le> 63"
    and "word_ok cmd" and "length cmd \<le> 63" and "hd cmd \<noteq> CHR 0xFF" and "list_all word_ok args"
    and "length (print_line source cmd args trail) \<le> 511"
  shows "cut_line (print_line source cmd args trail) =
    Some (source, cmd, args @ (case trail of None \<Rightarrow> [] | Some t \<Rightarrow> [t]))"
  by (rule cut_line_print [OF assms])

theorem cut_print_line_witness:
  "cut_line (print_line ''eve'' ''PART'' [''#a,#b''] (Some ''bye now'')) = Some (''eve'', ''PART'', [''#a,#b'', ''bye now''])"
  using cut_print_line [of "''eve''" "''PART''" "[''#a,#b'']" "Some ''bye now''"]
  by (simp add: word_ok_def isspace_def print_line_def)

section \<open>The list of ignored users\<close>

definition ignored_at :: "int \<Rightarrow> cstr \<Rightarrow> ignores \<Rightarrow> bool" where
  "ignored_at t nick ig \<longleftrightarrow> (\<exists>e\<in>set (ig (tolower (hd0 nick))). strlower (fst e) = strlower nick \<and> t < snd e)"

definition ignores_ok :: "ignores \<Rightarrow> bool" where
  "ignores_ok ig \<longleftrightarrow> (\<forall>b. distinct (map (\<lambda>e. strlower (fst e)) (ig b)) \<and> (\<forall>e\<in>set (ig b). cstring (fst e)))"

lemma strlower_bucket: "strlower a = strlower b \<Longrightarrow> tolower (hd0 a) = tolower (hd0 b)"
  by (cases a; cases b) (auto simp: strlower_def hd0_def)

lemma same_key: "distinct (map f xs) \<Longrightarrow> x \<in> set xs \<Longrightarrow> y \<in> set xs \<Longrightarrow> f x = f y \<Longrightarrow> x = y"
  by (simp add: distinct_map inj_on_def)

lemma first_time_None: "first_time P f es = None \<longleftrightarrow> (\<forall>e\<in>set es. \<not> P (fst e))"
  by (induction P f es rule: first_time.induct) auto

lemma first_time_Some:
  "first_time P f es = Some es' \<Longrightarrow> distinct (map (\<lambda>e. strlower (fst e)) es) \<Longrightarrow> (\<And>w. P w \<longleftrightarrow> strlower w = k) \<Longrightarrow>
     es' = map (\<lambda>e. if strlower (fst e) = k then (fst e, f (snd e)) else e) es"
proof (induction P f es arbitrary: es' rule: first_time.induct)
  case (2 P f w t es)
  show ?case
  proof (cases "P w")
    case True
    then have "map (\<lambda>e. if strlower (fst e) = k then (fst e, f (snd e)) else e) es = es"
      using 2(3,4) by (intro map_idI) (auto simp: image_iff)
    then show ?thesis using True 2 by simp
  next
    case False
    then show ?thesis using 2 by auto
  qed
qed simp

lemma ignored_entry:
  assumes "ignores_ok ig" and e: "e \<in> set (ig (tolower (hd0 nick)))" "strlower (fst e) = strlower nick"
    and m: "strlower m = strlower nick"
  shows "ignored_at t m ig \<longleftrightarrow> t < snd e"
proof
  assume "ignored_at t m ig"
  then obtain g where g: "g \<in> set (ig (tolower (hd0 nick)))" "strlower (fst g) = strlower nick" "t < snd g"
    using m strlower_bucket [OF m] by (auto simp: ignored_at_def)
  have "distinct (map (\<lambda>e. strlower (fst e)) (ig (tolower (hd0 nick))))" using assms(1) by (simp add: ignores_ok_def)
  then have "g = e" by (rule same_key [OF _ g(1) e(1)]) (simp add: g(2) e(2))
  then show "t < snd e" using g(3) by simp
next
  assume "t < snd e"
  then show "ignored_at t m ig" unfolding ignored_at_def strlower_bucket [OF m] m using e by blast
qed

text \<open>Looking up an ignored user, and ignoring one for longer.\<close>

lemma get_ignore_ok:
  assumes ok: "ignores_ok ig" and nick: "cstring nick"
  shows "case get_ignore now nick ig of (r, ig') \<Rightarrow>
    ignores_ok ig' \<and> (r \<noteq> None \<longleftrightarrow> ignored_at now nick ig) \<and> (\<forall>t. r = Some t \<longrightarrow> now < t) \<and>
    (\<forall>t\<ge>now. \<forall>m. ignored_at t m ig' \<longleftrightarrow> ignored_at t m ig)"
proof -
  define b where "b = tolower (hd0 nick)"
  define same where "same = (\<lambda>w. irc_stricmp w nick = 0)"
  have d: "distinct (map (\<lambda>e. strlower (fst e)) (ig b))" and c: "\<forall>e\<in>set (ig b). cstring (fst e)" using ok by (simp_all add: ignores_ok_def)
  have s: "same w \<longleftrightarrow> strlower w = strlower nick" if "cstring w" for w
    unfolding same_def by (rule irc_stricmp_zero [OF that nick])
  show ?thesis
  proof (cases "find (\<lambda>e. same (fst e)) (ig b)")
    case None
    then have "\<forall>e\<in>set (ig b). \<not> same (fst e)" by (auto simp: find_None_iff)
    then have "\<forall>e\<in>set (ig b). strlower (fst e) \<noteq> strlower nick" using s c by blast
    then have "\<not> ignored_at now nick ig" by (auto simp: ignored_at_def b_def [symmetric])
    then show ?thesis using None ok by (simp add: get_ignore_def Let_def b_def [symmetric] same_def [symmetric])
  next
    case (Some e)
    then have e: "e \<in> set (ig b)" "strlower (fst e) = strlower nick" using s c find_Some_set [OF Some] by auto
    have i: "ignored_at now nick ig \<longleftrightarrow> now < snd e" by (rule ignored_entry [OF ok e [unfolded b_def] refl])
    show ?thesis
    proof (cases "snd e \<le> now")
      case True
      define es where "es = remove_first same (ig b)"
      have "remove_first same xs = filter (\<lambda>e. strlower (fst e) \<noteq> strlower nick) xs"
        if "distinct (map (\<lambda>e. strlower (fst e)) xs)" "\<forall>e\<in>set xs. cstring (fst e)" for xs
        using that
      proof (induction xs)
        case (Cons x xs)
        have "filter (\<lambda>e. strlower (fst e) \<noteq> strlower nick) xs = xs" if "strlower (fst x) = strlower nick"
          using Cons.prems(1) that by (auto simp: filter_id_conv image_iff)
        then show ?case using Cons s by auto
      qed simp
      then have es: "es = filter (\<lambda>e. strlower (fst e) \<noteq> strlower nick) (ig b)" using d c by (simp add: es_def)
      have "\<forall>e\<in>set es. cstring (fst e)" "distinct (map (\<lambda>e. strlower (fst e)) es)"
        using c d unfolding es by (fastforce, simp add: distinct_map_filter)
      then have ok': "ignores_ok (ig(b := es))" using ok unfolding ignores_ok_def by simp
      have "ignored_at t m (ig(b := es)) \<longleftrightarrow> ignored_at t m ig" if "t \<ge> now" for t m
      proof (cases "tolower (hd0 m) = b")
        case in_b: True
        have "\<not> t < snd e" using True that by simp
        then have "\<not> t < snd f" if "f \<in> set (ig b)" "strlower (fst f) = strlower nick" for f
          using same_key [OF d that(1) e(1)] that(2) e(2) by simp
        moreover have "set es = {f\<in>set (ig b). strlower (fst f) \<noteq> strlower nick}" by (simp add: es)
        ultimately show ?thesis unfolding ignored_at_def in_b fun_upd_same by (metis (mono_tags, lifting) mem_Collect_eq)
      qed (simp add: ignored_at_def)
      then show ?thesis
        using True Some i ok' by (simp add: get_ignore_def Let_def b_def [symmetric] same_def [symmetric] es_def [symmetric])
    next
      case False
      then show ?thesis using Some i ok by (simp add: get_ignore_def Let_def b_def [symmetric] same_def [symmetric])
    qed
  qed
qed

lemma add_ignore_ok:
  assumes ok: "ignores_ok ig" and nick: "cstring nick" "length nick < NICKMAX" and t: "now \<le> t"
  shows "ignores_ok (add_ignore now nick delta ig)"
    and "ignored_at t m (add_ignore now nick delta ig) \<longleftrightarrow>
      (if strlower m = strlower nick then (if ignored_at now nick ig then ignored_at (t - delta) m ig else t < now + delta)
       else ignored_at t m ig)"
proof -
  define b where "b = tolower (hd0 nick)"
  define f where "f = (\<lambda>u. if u > now then u + delta else now + delta)"
  have d: "distinct (map (\<lambda>e. strlower (fst e)) (ig b))" and c: "\<forall>e\<in>set (ig b). cstring (fst e)" using ok by (simp_all add: ignores_ok_def)
  have add: "add_ignore now nick delta ig =
      (case first_time (\<lambda>w. strlower w = strlower nick) f (ig b) of
         Some es \<Rightarrow> ig(b := es) | None \<Rightarrow> ig(b := (nick, now + delta) # ig b))"
    unfolding add_ignore_def Let_def b_def f_def using nick by (simp split: option.split)
  have mb: "tolower (hd0 m) = b" if "strlower m = strlower nick" using strlower_bucket [OF that] by (simp add: b_def)
  have "ignores_ok (add_ignore now nick delta ig) \<and> (ignored_at t m (add_ignore now nick delta ig) \<longleftrightarrow>
      (if strlower m = strlower nick then (if ignored_at now nick ig then ignored_at (t - delta) m ig else t < now + delta)
       else ignored_at t m ig))"
  proof (cases "first_time (\<lambda>w. strlower w = strlower nick) f (ig b)")
    case None
    then have n: "\<forall>e\<in>set (ig b). strlower (fst e) \<noteq> strlower nick" by (simp add: first_time_None)
    then have "\<not> ignored_at now nick ig" by (auto simp: ignored_at_def b_def)
    moreover have "ignores_ok (add_ignore now nick delta ig)"
      using None n ok d nick by (auto simp: add ignores_ok_def)
    ultimately show ?thesis using None n mb by (auto simp: add ignored_at_def)
  next
    case (Some es)
    have es: "es = map (\<lambda>e. if strlower (fst e) = strlower nick then (fst e, f (snd e)) else e) (ig b)"
      by (rule first_time_Some [OF Some d]) simp
    obtain e where e: "e \<in> set (ig b)" "strlower (fst e) = strlower nick"
      using Some first_time_None [of "\<lambda>w. strlower w = strlower nick" f "ig b"] by auto
    have keys: "map (\<lambda>e. strlower (fst e)) es = map (\<lambda>e. strlower (fst e)) (ig b)" by (simp add: es)
    have "\<forall>e\<in>set es. cstring (fst e)" using c by (auto simp: es)
    then have k: "ignores_ok (add_ignore now nick delta ig)"
      using Some ok d unfolding add ignores_ok_def by (simp add: keys)
    have i: "ignored_at u n ig \<longleftrightarrow> u < snd e" if "strlower n = strlower nick" for u n
      by (rule ignored_entry [OF ok e [unfolded b_def] that])
    have "(fst e, f (snd e)) \<in> set es" using e by (force simp: es)
    then have "ignored_at t m (add_ignore now nick delta ig) \<longleftrightarrow> t < f (snd e)" if "strlower m = strlower nick"
      using ignored_entry [OF k, of "(fst e, f (snd e))" nick m t] that Some e(2) by (simp add: add b_def)
    moreover have "ignored_at t m (add_ignore now nick delta ig) \<longleftrightarrow> ignored_at t m ig" if "strlower m \<noteq> strlower nick"
      using Some that by (auto simp: add ignored_at_def es split: if_splits)
    ultimately show ?thesis using k i by (auto simp: f_def)
  qed
  then show "ignores_ok (add_ignore now nick delta ig)" "ignored_at t m (add_ignore now nick delta ig) \<longleftrightarrow>
      (if strlower m = strlower nick then (if ignored_at now nick ig then ignored_at (t - delta) m ig else t < now + delta)
       else ignored_at t m ig)" by blast+
qed

end
