(* ===== verification/Protocol.thy ===== *)
theory Protocol
  imports Arrivals Process
begin

text \<open>
  The lines of the server about users and channels as events, and what each does to who is online
  and who is on which channel: every line of an event that a server may send is handled, in every
  state that such lines lead to.
\<close>

section \<open>Events\<close>

datatype event =
  Arrive cstr cstr cstr cstr cstr cstr cstr cstr
| Rename cstr cstr cstr
| Joins cstr cstr
| Burst cstr cstr cstr cstr "cstr list" cstr
| Parts cstr cstr
| Kicks cstr cstr cstr cstr
| Modes cstr cstr cstr "cstr list"
| Umodes cstr cstr
| Quits cstr cstr
| Kills cstr cstr cstr

text \<open>Source, command, words and last parameter of the line of an event.\<close>

fun event_line :: "event \<Rightarrow> cstr \<times> cstr \<times> cstr list \<times> cstr option" where
  "event_line (Arrive nick hops signon modes user host server name) =
     ([], ''NICK'', [nick, hops, signon, modes, user, host, server], Some name)"
| "event_line (Rename source nick time) = (source, ''NICK'', [nick], Some time)"
| "event_line (Joins source chans) = (source, ''JOIN'', [], Some chans)"
| "event_line (Burst source time channel modes args nicks) =
     (source, ''SJOIN'', [time, time, channel, modes] @ args, Some nicks)"
| "event_line (Parts source chans) = (source, ''PART'', [chans], None)"
| "event_line (Kicks source channel nicks reason) = (source, ''KICK'', [channel, nicks], Some reason)"
| "event_line (Modes source channel modes args) = (source, ''MODE'', [channel, modes] @ args, None)"
| "event_line (Umodes source modes) = (source, ''MODE'', [source, modes], None)"
| "event_line (Quits source msg) = (source, ''QUIT'', [], Some msg)"
| "event_line (Kills source nick msg) = (source, ''KILL'', [nick], Some msg)"

definition print_event :: "event \<Rightarrow> cstr" where
  "print_event e = (case event_line e of (source, cmd, args, trail) \<Rightarrow> print_line source cmd args trail)"

definition writable :: "event \<Rightarrow> bool" where
  "writable e \<longleftrightarrow>
     (case event_line e of (source, cmd, args, trail) \<Rightarrow>
        list_all (\<lambda>c. \<not> isspace c) source \<and> length source \<le> 63 \<and> (source = [] \<longleftrightarrow> (\<exists>a b c d f g h i. e = Arrive a b c d f g h i)) \<and>
        list_all word_ok args \<and> length (print_event e) \<le> 511)"

text \<open>
  What the server may send while \<open>A\<close> are online: nicknames and names of channels as the protocol has them, none
  that is taken or empty, and nothing that is known to break the services (hosts that are no plain SQL
  literals, more than two signs of rank, more mode parameters in SJOIN than the buffer has room for).
\<close>

definition nobody :: "online \<Rightarrow> cstr \<Rightarrow> bool" where
  "nobody A nick \<longleftrightarrow> (\<forall>i ls. A i \<noteq> Some (strlower nick, ls))"

fun legal :: "proccfg \<Rightarrow> event \<Rightarrow> online \<Rightarrow> bool" where
  "legal cfg (Arrive nick hops signon modes user host server name) A \<longleftrightarrow>
     cstring nick \<and> length nick < NICKMAX \<and> nobody A nick \<and> CHR ''!'' \<notin> set host \<and> hd0 host \<noteq> CHR ''.'' \<and> plain_host host \<and>
     card (dom A) < 65535"
| "legal cfg (Rename source nick time) A \<longleftrightarrow>
     cstring source \<and> cstring nick \<and> length nick < NICKMAX \<and>
     (\<forall>i j ls ms. A i = Some (strlower source, ls) \<and> A j = Some (strlower nick, ms) \<longrightarrow> i = j)"
| "legal cfg (Joins source chans) A \<longleftrightarrow>
     cstring source \<and> [] \<notin> set (pieces (CHR '','') chans) \<and>
     (\<forall>i ls. A i = Some (strlower source, ls) \<longrightarrow> joinable ls (pieces (CHR '','') chans))"
| "legal cfg (Burst source time channel modes args nicks) A \<longleftrightarrow>
     isdigit (hd0 time) \<and> channel \<noteq> [] \<and> cstring channel \<and> length channel < CHANMAX \<and> fit channel (pieces (CHR '' '') nicks) A \<and>
     length args \<le> 2 \<and> (\<forall>a\<in>set args. cstring a \<and> nobody A a)"
| "legal cfg (Parts source chans) A \<longleftrightarrow> cstring source"
| "legal cfg (Kicks source channel nicks reason) A \<longleftrightarrow> (\<forall>s\<in>set (pieces (CHR '','') nicks). cstring s)"
| "legal cfg (Modes source channel modes args) A \<longleftrightarrow>
     hd0 channel \<in> {CHR ''#'', CHR ''&''} \<and> cstring channel \<and>
     (\<forall>a\<in>set args. cstring a \<and> (\<forall>i ls. A i = Some (strlower a, ls) \<longrightarrow> strlower channel \<in> set ls))"
| "legal cfg (Umodes source modes) A \<longleftrightarrow> hd0 source \<notin> {CHR ''#'', CHR ''&''}"
| "legal cfg (Quits source msg) A \<longleftrightarrow> cstring source"
| "legal cfg (Kills source nick msg) A \<longleftrightarrow> cstring nick \<and> strlower nick \<notin> strlower ` set (own_names cfg)"

text \<open>A change to the user with a nickname, if there is one.\<close>

definition for_nick :: "cstr \<Rightarrow> (nat \<Rightarrow> cstr list \<Rightarrow> online \<Rightarrow> bool) \<Rightarrow> online \<Rightarrow> online \<Rightarrow> bool" where
  "for_nick nick P A A' \<longleftrightarrow>
     (if nobody A nick then A' = A else (\<exists>i ls. A i = Some (strlower nick, ls) \<and> P i ls A'))"

text \<open>
  The verdicts of the services, as the tables and the users online stand when a line comes: whom they turn
  away, by user name and host, and whom they keep out of a channel.
\<close>

record verdicts =
  v_away :: "cstr \<Rightarrow> cstr \<Rightarrow> bool"
  v_barred :: "nat \<Rightarrow> cstr \<Rightarrow> bool"

definition verdicts_of :: "proccfg \<Rightarrow> int \<Rightarrow> proc_state \<Rightarrow> verdicts" where
  "verdicts_of cfg now st =
     \<lparr>v_away = turned_away (p_net cfg) (p_state st),
      v_barred = judge (k_cs (p_net cfg)) now (net_cs (p_state st))\<rparr>"

text \<open>What becomes of \<open>A\<close> under the verdicts \<open>v\<close>; only the number of a new user is left open.\<close>

fun shift :: "verdicts \<Rightarrow> event \<Rightarrow> online \<Rightarrow> online \<Rightarrow> bool" where
  "shift v (Arrive nick hops signon modes user host server name) A A' \<longleftrightarrow>
     (if v_away v user host then A' = A else (\<exists>i. A i = None \<and> A' = A(i \<mapsto> (strlower nick, []))))"
| "shift v (Rename source nick time) A A' \<longleftrightarrow> for_nick source (\<lambda>i ls A'. A' = A(i \<mapsto> (strlower nick, ls))) A A'"
| "shift v (Joins source chans) A A' \<longleftrightarrow>
     for_nick source
       (\<lambda>i ls A'. A' = abs_join i (map (\<lambda>s. (s, \<not> v_barred v i s)) (pieces (CHR '','') chans)) A) A A'"
| "shift v (Burst source time channel modes args nicks) A A' \<longleftrightarrow>
     A' = fold (abs_sjoin channel) (map (\<lambda>s. (s, let_in (v_barred v) A channel s)) (pieces (CHR '' '') nicks)) A"
| "shift v (Parts source chans) A A' \<longleftrightarrow>
     for_nick source (\<lambda>i ls A'. A' = fold (\<lambda>s. on_chans i (remove1 (strlower s))) (pieces (CHR '','') chans) A) A A'"
| "shift v (Kicks source channel nicks reason) A A' \<longleftrightarrow>
     A' = fold (\<lambda>s. abs_named s (remove1 (strlower channel))) (pieces (CHR '','') nicks) A"
| "shift v (Modes source channel modes args) A A' \<longleftrightarrow> A' = A"
| "shift v (Umodes source modes) A A' \<longleftrightarrow> A' = A"
| "shift v (Quits source msg) A A' \<longleftrightarrow> for_nick source (\<lambda>i ls A'. A' = A(i := None)) A A'"
| "shift v (Kills source nick msg) A A' \<longleftrightarrow> for_nick nick (\<lambda>i ls A'. A' = A(i := None)) A A'"

section \<open>States\<close>

definition p_good :: "proccfg \<Rightarrow> proc_state \<Rightarrow> bool" where
  "p_good cfg st \<longleftrightarrow> net_good (p_net cfg) (p_state st)"

definition p_online :: "proc_state \<Rightarrow> online" where
  "p_online st = online (p_users st)"

lemma good_parts:
  assumes "net_good cfg n"
  shows "net_ok (net_cs n)" and "base_ok (net_ns n)" and "users_ok (ns_users (net_ns n))" and "cs_users (net_cs n) = ns_users (net_ns n)"
  using assms by (simp_all add: net_good_def net_ok_def base_ok_def)

lemma nobody_iff:
  assumes "net_good cfg n" and "cstring nick"
  shows "nobody (online (ns_users (net_ns n))) nick \<longleftrightarrow> finduser (ns_users (net_ns n)) nick = None"
    and "finduser (ns_users (net_ns n)) nick = Some u \<Longrightarrow>
      user_at (ns_users (net_ns n)) (u_uid u) = Some u \<and>
      online (ns_users (net_ns n)) (u_uid u) = Some (strlower nick, map strlower (u_chans u))"
proof -
  note f = net_finduser [OF good_parts(1) [OF assms(1)] assms(2), unfolded good_parts(4) [OF assms(1)]]
  have uid: "u_uid v = i" if "user_at (ns_users (net_ns n)) i = Some v" for v i
    using that user_at_iff [OF good_parts(3) [OF assms(1)]] by blast
  show "nobody (online (ns_users (net_ns n))) nick \<longleftrightarrow> finduser (ns_users (net_ns n)) nick = None"
  proof
    assume n: "nobody (online (ns_users (net_ns n))) nick"
    show "finduser (ns_users (net_ns n)) nick = None"
    proof (rule ccontr)
      assume "finduser (ns_users (net_ns n)) nick \<noteq> None"
      then obtain u where "user_at (ns_users (net_ns n)) (u_uid u) = Some u" "strlower (u_nick u) = strlower nick"
        using f by blast
      then show False using n by (auto simp: nobody_def online_def)
    qed
  next
    assume "finduser (ns_users (net_ns n)) nick = None"
    then have "\<not> (user_at (ns_users (net_ns n)) (u_uid u) = Some u \<and> strlower (u_nick u) = strlower nick)" for u
      using f by simp
    then show "nobody (online (ns_users (net_ns n))) nick"
      unfolding nobody_def using uid by (metis online_at)
  qed
  show "user_at (ns_users (net_ns n)) (u_uid u) = Some u \<and>
      online (ns_users (net_ns n)) (u_uid u) = Some (strlower nick, map strlower (u_chans u))"
    if "finduser (ns_users (net_ns n)) nick = Some u"
    using that f by (auto simp: online_def)
qed

lemma for_nick_shift:
  assumes "net_good cfg n" and "cstring nick"
    and "finduser (ns_users (net_ns n)) nick = None \<Longrightarrow> A' = online (ns_users (net_ns n))"
    and "\<And>u. finduser (ns_users (net_ns n)) nick = Some u \<Longrightarrow> P (u_uid u) (map strlower (u_chans u)) A'"
  shows "for_nick nick P (online (ns_users (net_ns n))) A'"
proof (cases "finduser (ns_users (net_ns n)) nick")
  case None
  then show ?thesis using assms(3) nobody_iff(1) [OF assms(1,2)] by (simp add: for_nick_def)
next
  case (Some u)
  then show ?thesis
    using assms(4) [OF Some] nobody_iff [OF assms(1,2)] by (auto simp: for_nick_def)
qed

lemma good_chan_op:
  assumes "net_good cfg n" and "net_ok cs" and "hosts (cs_users cs) = hosts (ns_users (net_ns n))"
  shows "net_good cfg (with_cs cs n)" and "ns_users (net_ns (with_cs cs n)) = cs_users cs"
proof -
  show "ns_users (net_ns (with_cs cs n)) = cs_users cs"
    using net_ns_def [of "with_cs cs n"] by simp
  then show "net_good cfg (with_cs cs n)"
    using assms by (auto simp: net_good_def counted_def)
qed

section \<open>Each event\<close>

text \<open>The handlers, on a good state: a result, a good state again, and the change that the event stands for.\<close>

definition handled :: "proccfg \<Rightarrow> int \<Rightarrow> event \<Rightarrow> proc_state \<Rightarrow> proc_state option \<Rightarrow> bool" where
  "handled cfg now e st r \<longleftrightarrow>
     (\<exists>st'. r = Some st' \<and> p_good cfg st' \<and> shift (verdicts_of cfg now st) e (p_online st) (p_online st'))"

lemma handled_net:
  assumes "f (p_state st) = Some n'" and "net_good (p_net cfg) n'" and "shift (verdicts_of cfg now st) e (p_online st) (online (ns_users (net_ns n')))"
  shows "handled cfg now e st (on_net f st)"
  using assms by (simp add: handled_def on_net_def p_good_def p_online_def)

lemma handled_chan:
  assumes good: "p_good cfg st" and f: "f (net_cs (p_state st)) = Some cs'" "net_ok cs'" "hosts (cs_users cs') = hosts (p_users st)"
    and s: "shift (verdicts_of cfg now st) e (p_online st) (online (cs_users cs'))"
  shows "handled cfg now e st (on_chan f st)"
proof -
  note g = good_chan_op [OF good [unfolded p_good_def] f(2,3)]
  show ?thesis unfolding on_chan_def
    by (rule handled_net [where n' = "with_cs cs' (p_state st)"]) (simp_all add: f(1) g(1) s g(2))
qed

lemma arrive_handled:
  assumes good: "p_good cfg st" and l: "legal cfg (Arrive nick hops signon modes user host server name) (p_online st)"
  shows "handled cfg now (Arrive nick hops signon modes user host server name) st
    (on_net (m_nick (p_net cfg) now [] [nick, hops, signon, modes, user, host, server, name]) st)"
proof -
  define n where "n = p_state st"
  have g: "net_good (p_net cfg) n" using good by (simp add: p_good_def n_def)
  define A where "A = online (ns_users (net_ns n))"
  have l: "cstring nick" "length nick < NICKMAX" "nobody A nick" "CHR ''!'' \<notin> set host" "hd0 host \<noteq> CHR ''.''" "plain_host host" "card (dom A) < 65535"
    using l by (simp_all add: p_online_def A_def n_def)
  have c: "counted (p_net cfg) (hosts (ns_users (net_ns n))) n" using g by (simp add: net_good_def)
  have "dom (hosts (ns_users (net_ns n))) = dom A" by (auto simp: hosts_def A_def online_def dom_def)
  then have low: "n_usercnt n < 65535" using c l(7) by (simp add: counted_def)
  have free: "free_nick A (n_next n) nick" using l(1-3) by (simp add: free_nick_def nobody_def)
  have i: "A (n_next n) = None"
  proof -
    have "hosts (ns_users (net_ns n)) (n_next n) = None"
      using c by (cases "hosts (ns_users (net_ns n)) (n_next n)") (auto simp: counted_def)
    then show ?thesis by (auto simp: hosts_def A_def online_def)
  qed
  from do_nick_new_ok [OF g free [unfolded A_def] l(4,5,6) low, of now signon user server name] obtain n1 where
    n1: "do_nick_new (p_net cfg) now nick signon user host server name n = Some (\<not> turned_away (p_net cfg) n user host, n1)"
      "net_good (p_net cfg) n1"
      "online (ns_users (net_ns n1)) = (if turned_away (p_net cfg) n user host then A else A(n_next n \<mapsto> (strlower nick, [])))"
    unfolding A_def by blast
  obtain n2 where n2: "do_umode (p_net cfg) now nick nick modes n1 = Some n2" "calm n1 n2"
    using do_umode_calm [OF good_parts(2) [OF n1(2)]] by blast
  note c2 = calm_good [OF n1(2) n2(2)]
  define r where "r = turned_away (p_net cfg) n user host"
  have "m_nick (p_net cfg) now [] [nick, hops, signon, modes, user, host, server, name] n = Some (if r then n1 else n2)"
    using n1(1) n2(1) by (simp add: m_nick_def r_def)
  moreover have "shift (verdicts_of cfg now st) (Arrive nick hops signon modes user host server name) A (online (ns_users (net_ns (if r then n1 else n2))))"
    using n1(3) c2(2) i by (auto simp: r_def verdicts_of_def n_def)
  ultimately show ?thesis
    using n1(2) c2(1) by (intro handled_net [where n' = "if r then n1 else n2"]) (simp_all add: p_online_def A_def n_def)
qed

lemma rename_handled:
  assumes good: "p_good cfg st" and l: "legal cfg (Rename source nick time) (p_online st)" and src: "source \<noteq> []"
  shows "handled cfg now (Rename source nick time) st (on_net (m_nick (p_net cfg) now source [nick, time]) st)"
proof -
  define n where "n = p_state st"
  have g: "net_good (p_net cfg) n" using good by (simp add: p_good_def n_def)
  define A where "A = online (ns_users (net_ns n))"
  have l: "cstring source" "cstring nick" "length nick < NICKMAX"
    "\<forall>i j ls ms. A i = Some (strlower source, ls) \<and> A j = Some (strlower nick, ms) \<longrightarrow> i = j"
    using l by (auto simp: p_online_def A_def n_def)
  have free: "free_nick A (u_uid u) nick" if "finduser (ns_users (net_ns n)) source = Some u" for u
    using nobody_iff(2) [OF g l(1) that] l(2-4) unfolding free_nick_def A_def by blast
  have fn: "for_nick source (\<lambda>i ls A'. A' = A(i \<mapsto> (strlower nick, ls))) A A'"
    if "case finduser (ns_users (net_ns n)) source of None \<Rightarrow> A' = A
        | Some u \<Rightarrow> A' = A(u_uid u \<mapsto> (strlower nick, map strlower (u_chans u)))" for A'
    unfolding A_def by (rule for_nick_shift [OF g l(1)]) (use that in \<open>auto simp: A_def\<close>)
  show ?thesis
  proof (cases "finduser (ns_users (net_ns n)) source")
    case None
    then have "m_nick (p_net cfg) now source [nick, time] n = Some n"
      using do_nick_change_ok [OF g l(1), of nick now] src by (simp add: m_nick_def)
    then show ?thesis
      using g fn [of A] None by (intro handled_net [where n' = n]) (simp_all add: p_online_def A_def n_def)
  next
    case (Some u)
    then obtain n1 where n1: "do_nick_change (p_net cfg) now source nick n = Some (True, n1)" "net_good (p_net cfg) n1"
      "online (ns_users (net_ns n1)) = A(u_uid u \<mapsto> (strlower nick, map strlower (u_chans u)))"
      using do_nick_change_ok [OF g l(1) free [unfolded A_def], of now] by (auto simp: A_def)
    obtain n2 where n2: "do_umode (p_net cfg) now nick nick [] n1 = Some n2" "calm n1 n2"
      using do_umode_calm [OF good_parts(2) [OF n1(2)]] by blast
    have "m_nick (p_net cfg) now source [nick, time] n = Some n2" using n1(1) n2(1) src by (simp add: m_nick_def)
    then show ?thesis
      using calm_good [OF n1(2) n2(2)] n1(3) fn [of "online (ns_users (net_ns n2))"] Some
      by (intro handled_net [where n' = n2]) (simp_all add: p_online_def A_def n_def)
  qed
qed

lemma gone_handled:
  assumes good: "p_good cfg st" and nick: "cstring nick"
    and op: "\<And>n. f n = (case finduser (ns_users (net_ns n)) nick of None \<Rightarrow> Some n | Some u \<Rightarrow> user_gone (p_net cfg) now u msg n)"
    and e: "\<And>v A A'. shift v e A A' = for_nick nick (\<lambda>i ls A'. A' = A(i := None)) A A'"
  shows "handled cfg now e st (on_net f st)"
proof -
  define n where "n = p_state st"
  have g: "net_good (p_net cfg) n" using good by (simp add: p_good_def n_def)
  show ?thesis
  proof (cases "finduser (ns_users (net_ns n)) nick")
    case None
    then have "for_nick nick (\<lambda>i ls A'. A' = (online (ns_users (net_ns n)))(i := None)) (online (ns_users (net_ns n))) (online (ns_users (net_ns n)))"
      using nobody_iff(1) [OF g nick] by (simp add: for_nick_def)
    then show ?thesis
      using None g by (intro handled_net [where n' = n]) (simp_all add: e op p_online_def n_def)
  next
    case (Some u)
    have "user_at (ns_users (net_ns n)) (u_uid u) = Some u" using nobody_iff(2) [OF g nick Some] by blast
    from user_gone_ok [OF g this, of now msg] obtain n' where n': "user_gone (p_net cfg) now u msg n = Some n'"
      "net_good (p_net cfg) n'" "online (ns_users (net_ns n')) = (online (ns_users (net_ns n)))(u_uid u := None)" by blast
    have "for_nick nick (\<lambda>i ls A'. A' = (online (ns_users (net_ns n)))(i := None)) (online (ns_users (net_ns n))) (online (ns_users (net_ns n')))"
      by (rule for_nick_shift [OF g nick]) (simp_all add: n'(3) Some)
    then show ?thesis
      using Some n' by (intro handled_net [where n' = n']) (simp_all add: e op p_online_def n_def)
  qed
qed

lemma chan_users: "p_good cfg st \<Longrightarrow> cs_users (net_cs (p_state st)) = p_users st"
  by (simp add: p_good_def good_parts(4))

lemma join_handled:
  assumes good: "p_good cfg st" and l: "legal cfg (Joins source chans) (p_online st)"
  shows "handled cfg now (Joins source chans) st (m_join cfg now source [chans] st)"
proof -
  define n where "n = p_state st"
  have g: "net_good (p_net cfg) n" using good by (simp add: p_good_def n_def)
  have us: "cs_users (net_cs n) = ns_users (net_ns n)" by (rule good_parts(4) [OF g])
  define A where "A = online (ns_users (net_ns n))"
  define ss where "ss = pieces (CHR '','') chans"
  have src: "cstring source" and j: "\<And>i ls. A i = Some (strlower source, ls) \<Longrightarrow> joinable ls ss"
    using l by (simp_all add: p_online_def A_def n_def ss_def)
  have "\<exists>cs'. do_join (k_cs (p_net cfg)) now source chans (net_cs n) = Some cs' \<and> net_ok cs' \<and>
      hosts (cs_users cs') = hosts (ns_users (net_ns n)) \<and> shift (verdicts_of cfg now st) (Joins source chans) A (online (cs_users cs'))"
  proof (cases "finduser (ns_users (net_ns n)) source")
    case None
    then have "nobody A source" using nobody_iff(1) [OF g src] by (simp add: A_def)
    then show ?thesis
      using None good_parts(1) [OF g] by (simp add: do_join_def us for_nick_def A_def)
  next
    case (Some u)
    have a: "A (u_uid u) = Some (strlower source, map strlower (u_chans u))"
      using nobody_iff(2) [OF g src Some] by (simp add: A_def)
    obtain cs' where cs': "join_loop (k_cs (p_net cfg)) now (u_uid u) ss (net_cs n) = Some cs'" "net_ok cs'"
      "hosts (cs_users cs') = hosts (ns_users (net_ns n))" "online (cs_users cs') =
        abs_join (u_uid u) (map (\<lambda>s. (s, \<not> judge (k_cs (p_net cfg)) now (net_cs n) (u_uid u) s)) ss) A"
      using join_loop_ok [OF good_parts(1) [OF g], of "u_uid u" "strlower source" "map strlower (u_chans u)" ss "k_cs (p_net cfg)" now]
        a j [OF a] unfolding us A_def by blast
    have "\<not> nobody A source" using a by (auto simp: nobody_def)
    then have "shift (verdicts_of cfg now st) (Joins source chans) A (online (cs_users cs'))"
      using a cs'(4) by (auto simp: for_nick_def ss_def [symmetric] verdicts_of_def n_def)
    then show ?thesis using Some cs' by (simp add: do_join_def us ss_def)
  qed
  then show ?thesis
    unfolding m_join_def using good by (auto simp: n_def A_def p_online_def intro!: handled_chan)
qed

lemma part_handled:
  assumes good: "p_good cfg st" and l: "legal cfg (Parts source chans) (p_online st)"
  shows "handled cfg now (Parts source chans) st (m_part now source [chans] st)"
proof -
  define n where "n = p_state st"
  have g: "net_good (p_net cfg) n" using good by (simp add: p_good_def n_def)
  have us: "cs_users (net_cs n) = ns_users (net_ns n)" by (rule good_parts(4) [OF g])
  define A where "A = online (ns_users (net_ns n))"
  define ss where "ss = pieces (CHR '','') chans"
  have src: "cstring source" using l by simp
  have "\<exists>cs'. do_part now source chans (net_cs n) = Some cs' \<and> net_ok cs' \<and>
      hosts (cs_users cs') = hosts (ns_users (net_ns n)) \<and> shift (verdicts_of cfg now st) (Parts source chans) A (online (cs_users cs'))"
  proof (cases "finduser (ns_users (net_ns n)) source")
    case None
    then have "nobody A source" using nobody_iff(1) [OF g src] by (simp add: A_def)
    then show ?thesis
      using None good_parts(1) [OF g] by (simp add: do_part_def us for_nick_def A_def)
  next
    case (Some u)
    have a: "user_at (cs_users (net_cs n)) (u_uid u) \<noteq> None" "A (u_uid u) = Some (strlower source, map strlower (u_chans u))"
      using nobody_iff(2) [OF g src Some] us by (simp_all add: A_def)
    obtain cs' where cs': "part_loop now (u_uid u) ss (net_cs n) = Some cs'" "net_ok cs'"
      "hosts (cs_users cs') = hosts (ns_users (net_ns n))"
      "online (cs_users cs') = fold (\<lambda>s. on_chans (u_uid u) (remove1 (strlower s))) ss A"
      using part_loop_ok [OF good_parts(1) [OF g] a(1), of now ss] unfolding us A_def by blast
    have "\<not> nobody A source" using a by (auto simp: nobody_def)
    then have "shift (verdicts_of cfg now st) (Parts source chans) A (online (cs_users cs'))"
      using a cs'(4) by (auto simp: for_nick_def ss_def [symmetric])
    then show ?thesis using Some cs' by (simp add: do_part_def us ss_def)
  qed
  then show ?thesis
    unfolding m_part_def using good by (auto simp: n_def A_def p_online_def intro!: handled_chan)
qed

lemma kick_handled:
  assumes good: "p_good cfg st" and l: "legal cfg (Kicks source channel nicks reason) (p_online st)"
  shows "handled cfg now (Kicks source channel nicks reason) st (m_kick now [channel, nicks, reason] st)"
proof -
  have g: "net_good (p_net cfg) (p_state st)" using good by (simp add: p_good_def)
  from kick_loop_ok [OF good_parts(1) [OF g], of "pieces (CHR '','') nicks" now channel] l obtain cs' where
    "kick_loop now channel (pieces (CHR '','') nicks) (net_cs (p_state st)) = Some cs'" "net_ok cs'"
    "hosts (cs_users cs') = hosts (p_users st)"
    "online (cs_users cs') = fold (\<lambda>s. abs_named s (remove1 (strlower channel))) (pieces (CHR '','') nicks) (p_online st)"
    unfolding chan_users [OF good] p_online_def by auto
  then show ?thesis
    unfolding m_kick_def using good by (simp add: do_kick_def handled_chan)
qed

lemma named_members:
  assumes good: "p_good cfg st"
    and "\<forall>a\<in>set args. cstring a \<and> (\<forall>i ls. p_online st i = Some (strlower a, ls) \<longrightarrow> strlower channel \<in> set ls)"
  shows "names_members (p_users st) channel args"
  unfolding names_members_def
proof (intro ballI conjI allI impI)
  fix a u assume a: "a \<in> set args"
  then show c: "cstring a" using assms(2) by blast
  assume "finduser (p_users st) a = Some u"
  from nobody_iff(2) [OF good [unfolded p_good_def] c this]
  have "strlower channel \<in> set (map strlower (u_chans u))" using assms(2) a unfolding p_online_def by blast
  then show "strlower channel \<in> strlower ` set (u_chans u)" by simp
qed

lemma mode_handled:
  assumes good: "p_good cfg st" and l: "legal cfg (Modes source channel modes args) (p_online st)"
  shows "handled cfg now (Modes source channel modes args) st (m_mode cfg now source (channel # modes # args) st)"
proof -
  have g: "net_good (p_net cfg) (p_state st)" using good by (simp add: p_good_def)
  have "names_members (cs_users (net_cs (p_state st))) channel args"
    unfolding chan_users [OF good] by (rule named_members [OF good]) (use l in simp)
  from mode_net_ok [OF good_parts(1) [OF g] _ this, of "k_cs (p_net cfg)" now source modes] l obtain cs' where
    "do_cmode (k_cs (p_net cfg)) now source channel modes args (net_cs (p_state st)) = Some cs'" "net_ok cs'" "cs_users cs' = p_users st"
    unfolding chan_users [OF good] by auto
  then show ?thesis
    using good l by (auto simp: m_mode_def p_online_def intro!: handled_chan)
qed

lemma umode_handled:
  assumes good: "p_good cfg st" and l: "legal cfg (Umodes source modes) (p_online st)"
  shows "handled cfg now (Umodes source modes) st (m_mode cfg now source [source, modes] st)"
proof -
  have g: "net_good (p_net cfg) (p_state st)" using good by (simp add: p_good_def)
  obtain n' where n': "do_umode (p_net cfg) now source source modes (p_state st) = Some n'" "calm (p_state st) n'"
    using do_umode_calm [OF good_parts(2) [OF g]] by blast
  have "handled cfg now (Umodes source modes) st (on_net (do_umode (p_net cfg) now source source modes) st)"
    using calm_good [OF g n'(2)] n'(1) by (intro handled_net [where n' = n']) (simp_all add: p_online_def)
  then show ?thesis using l by (simp add: m_mode_def)
qed

lemma burst_handled:
  assumes good: "p_good cfg st" and l: "legal cfg (Burst source time channel modes args nicks) (p_online st)"
  shows "handled cfg now (Burst source time channel modes args nicks) st
    (m_sjoin cfg now source ([time, time, channel, modes] @ args @ [nicks]) st)"
proof -
  define n where "n = p_state st"
  have g: "net_good (p_net cfg) n" using good by (simp add: p_good_def n_def)
  have us: "cs_users (net_cs n) = ns_users (net_ns n)" by (rule good_parts(4) [OF g])
  define A where "A = online (ns_users (net_ns n))"
  define ss where "ss = pieces (CHR '' '') nicks"
  have l: "isdigit (hd0 time)" "cstring channel" "length channel < CHANMAX" "fit channel ss A" "length args \<le> 2"
    "\<forall>a\<in>set args. cstring a \<and> nobody A a"
    using l by (simp_all add: p_online_def A_def n_def ss_def)
  define J where "J = judge (k_cs (p_net cfg)) now (net_cs n)"
  obtain k cs1 where cs1: "sjoin_loop (p_net cfg) now source channel ss (0, net_cs n) = Some (k, cs1)" "net_ok cs1"
    "hosts (cs_users cs1) = hosts (ns_users (net_ns n))" "online (cs_users cs1) =
      fold (abs_sjoin channel) (map (\<lambda>s. (s, let_in J A channel s)) ss) A"
    using sjoin_loop_ok [OF good_parts(1) [OF g] l(2,3), of ss "p_net cfg" now source 0] l(4) unfolding us A_def J_def by blast
  have nicks: "map_option fst (fold (abs_sjoin channel) ps B i) = map_option fst (B i)" for ps B i
  proof (induction ps arbitrary: B)
    case (Cons p ps)
    have "map_option fst (abs_sjoin channel p B i) = map_option fst (B i)"
      by (cases "B i") (auto simp: abs_sjoin_def abs_named_def)
    then show ?case using Cons by simp
  qed simp
  have "names_members (cs_users cs1) channel args"
    unfolding names_members_def
  proof (intro ballI conjI allI impI)
    fix a u assume a: "a \<in> set args"
    then show c: "cstring a" using l(6) by blast
    assume "finduser (cs_users cs1) a = Some u"
    then have "map_option fst (online (cs_users cs1) (u_uid u)) = Some (strlower a)"
      using net_finduser [OF cs1(2) c] by (simp add: online_def)
    then have "map_option fst (A (u_uid u)) = Some (strlower a)" by (simp add: cs1(4) nicks)
    then show "strlower channel \<in> strlower ` set (u_chans u)" using l(6) a by (auto simp: nobody_def)
  qed
  from mode_net_ok [OF cs1(2) l(2) this, of "k_cs (p_net cfg)" now source modes] obtain cs2 where
    cs2: "do_cmode (k_cs (p_net cfg)) now source channel modes args cs1 = Some cs2" "net_ok cs2" "cs_users cs2 = cs_users cs1" by blast
  define cs3 where "cs3 = (if k \<noteq> 0 \<and> drop 1 modes \<noteq> [] then cs2 else cs1)"
  have "do_sjoin (p_net cfg) now source ([time, time, channel, modes] @ args @ [nicks]) (net_cs n) = Some cs3"
    using l(1,5) cs1(1) cs2(1) by (simp add: do_sjoin_def Let_def ss_def cs3_def)
  moreover have "net_ok cs3" "cs_users cs3 = cs_users cs1" using cs1(2) cs2 by (simp_all add: cs3_def)
  ultimately show ?thesis
    unfolding m_sjoin_def using good cs1(3,4)
    by (auto simp: n_def A_def p_online_def ss_def J_def verdicts_of_def intro!: handled_chan)
qed

section \<open>A line\<close>

lemma find_commands:
  "find_message ''NICK'' = Some (''NICK'', Some M_nick)" "find_message ''JOIN'' = Some (''JOIN'', Some M_join)"
  "find_message ''SJOIN'' = Some (''SJOIN'', Some M_sjoin)" "find_message ''PART'' = Some (''PART'', Some M_part)"
  "find_message ''KICK'' = Some (''KICK'', Some M_kick)" "find_message ''MODE'' = Some (''MODE'', Some M_mode)"
  "find_message ''QUIT'' = Some (''QUIT'', Some M_quit)" "find_message ''KILL'' = Some (''KILL'', Some M_kill)"
  by (simp_all add: find_message_def messages_def strlower_def tolower_def isupper_def)

lemma print_start: "writable e \<Longrightarrow> hd0 (print_event e) \<noteq> CHR 0xFF"
  by (cases e) (auto simp: writable_def print_event_def print_line_def hd0_def)

lemma cut_event:
  assumes "writable e"
  shows "cut_line (print_event e) = (case event_line e of (source, cmd, args, trail) \<Rightarrow>
    Some (source, cmd, args @ (case trail of None \<Rightarrow> [] | Some t \<Rightarrow> [t])))"
proof -
  obtain source cmd args trail where e: "event_line e = (source, cmd, args, trail)" by (cases "event_line e") auto
  have cmd: "word_ok cmd" "length cmd \<le> 63" "hd cmd \<noteq> CHR 0xFF"
    using e by (cases e; auto simp: word_ok_def isspace_def)+
  have "cut_line (print_line source cmd args trail) = Some (source, cmd, args @ (case trail of None \<Rightarrow> [] | Some t \<Rightarrow> [t]))"
    using assms e by (intro cut_line_print cmd) (simp_all add: writable_def print_event_def)
  then show ?thesis by (simp add: print_event_def e)
qed

lemma process_handled:
  assumes good: "p_good cfg st" and l: "legal cfg e (p_online st)" and w: "writable e"
  shows "handled cfg now e st (process cfg h now (print_event e) st)"
proof -
  obtain source cmd args trail where line: "event_line e = (source, cmd, args, trail)" by (cases "event_line e") auto
  define av where "av = args @ (case trail of None \<Rightarrow> [] | Some t \<Rightarrow> [t])"
  have p: "process cfg h now (print_event e) st =
      (case find_message cmd of
         None \<Rightarrow> Some (p_say (Cmd ''SNOOP'' [''Unknown message from server'', buf_start (print_event e)]) st)
       | Some (name, None) \<Rightarrow> Some st
       | Some (name, Some m) \<Rightarrow> perform cfg h now m source av st)"
    using print_start [OF w] by (simp add: process_def cut_event [OF w] line av_def split: option.split prod.split)
  have src: "source \<noteq> []" if "\<And>a b c d f g h i. e \<noteq> Arrive a b c d f g h i" using w line that by (simp add: writable_def)
  show ?thesis
  proof (cases e)
    case (Arrive nick hops signon modes user host server name)
    then show ?thesis
      using arrive_handled [OF good l [unfolded Arrive], of now] line unfolding p
      by (auto simp: av_def find_commands perform_def)
  next
    case (Rename s nick time)
    then show ?thesis
      using rename_handled [OF good l [unfolded Rename], of now] line src unfolding p
      by (auto simp: av_def find_commands perform_def)
  next
    case (Joins s chans)
    then show ?thesis
      using join_handled [OF good l [unfolded Joins], of now] line unfolding p by (auto simp: av_def find_commands perform_def)
  next
    case (Burst s time channel modes as nicks)
    then show ?thesis
      using burst_handled [OF good l [unfolded Burst], of now] line unfolding p by (auto simp: av_def find_commands perform_def)
  next
    case (Parts s chans)
    then show ?thesis
      using part_handled [OF good l [unfolded Parts], of now] line unfolding p by (auto simp: av_def find_commands perform_def)
  next
    case (Kicks s channel nicks reason)
    then show ?thesis
      using kick_handled [OF good l [unfolded Kicks], of now] line unfolding p by (auto simp: av_def find_commands perform_def)
  next
    case (Modes s channel modes as)
    then show ?thesis
      using mode_handled [OF good l [unfolded Modes], of now] line unfolding p by (auto simp: av_def find_commands perform_def)
  next
    case (Umodes s modes)
    then show ?thesis
      using umode_handled [OF good l [unfolded Umodes], of now] line unfolding p by (auto simp: av_def find_commands perform_def)
  next
    case (Quits s msg)
    have "handled cfg now e st (on_net (do_quit (p_net cfg) now s msg) st)"
      by (rule gone_handled [OF good, of s]) (use l Quits in \<open>simp_all add: do_quit_def\<close>)
    then show ?thesis using line unfolding p unfolding Quits by (auto simp: av_def find_commands perform_def m_quit_def)
  next
    case (Kills s nick msg)
    have "handled cfg now e st (on_net (do_kill (p_net cfg) now nick msg) st)"
      by (rule gone_handled [OF good, of nick]) (use l Kills in \<open>simp_all add: do_kill_def\<close>)
    then show ?thesis using line l unfolding p unfolding Kills by (auto simp: av_def find_commands perform_def m_kill_def)
  qed
qed

section \<open>Runs\<close>

text \<open>
  A system that acts on events, the view of its state that decides which events may come, and the
  effect of an event on the view, which may depend on the state.
\<close>

inductive steps :: "('e \<Rightarrow> 's \<Rightarrow> 's option) \<Rightarrow> ('e \<Rightarrow> 's \<Rightarrow> bool) \<Rightarrow> 's \<Rightarrow> 'e list \<Rightarrow> 's \<Rightarrow> bool"
  for act :: "'e \<Rightarrow> 's \<Rightarrow> 's option" and may :: "'e \<Rightarrow> 's \<Rightarrow> bool" and s0 :: 's where
  steps_Nil: "steps act may s0 [] s0"
| steps_Snoc: "steps act may s0 es s \<Longrightarrow> may e s \<Longrightarrow> act e s = Some s' \<Longrightarrow> steps act may s0 (es @ [e]) s'"

inductive_cases steps_NilE: "steps act may s0 [] s"

locale event_system =
  fixes act :: "'e \<Rightarrow> 's \<Rightarrow> 's option" and good :: "'s \<Rightarrow> bool" and seen :: "'s \<Rightarrow> 'a"
    and may :: "'e \<Rightarrow> 'a \<Rightarrow> bool" and effect :: "'s \<Rightarrow> 'e \<Rightarrow> 'a \<Rightarrow> 'a \<Rightarrow> bool"
  assumes simulates: "good s \<Longrightarrow> may e (seen s) \<Longrightarrow> \<exists>s'. act e s = Some s' \<and> good s' \<and> effect s e (seen s) (seen s')"
begin

lemma steps_good:
  assumes "steps act (\<lambda>e s. may e (seen s)) s0 es s" and "good s0"
  shows "good s"
  using assms
proof (induction rule: steps.induct)
  case (steps_Snoc es s e s')
  then have "good s" by blast
  from simulates [OF this steps_Snoc.hyps(2)] show ?case using steps_Snoc.hyps(3) by auto
qed simp

lemma steps_effect:
  assumes "steps act (\<lambda>e s. may e (seen s)) s0 es s" and "good s0" and "may e (seen s)" and "act e s = Some s'"
  shows "effect s e (seen s) (seen s')"
  using simulates [OF steps_good [OF assms(1,2)] assms(3)] assms(4) by auto

lemma steps_go_on:
  assumes "steps act (\<lambda>e s. may e (seen s)) s0 es s" and "good s0" and "may e (seen s)"
  shows "\<exists>s'. act e s = Some s' \<and> steps act (\<lambda>e s. may e (seen s)) s0 (es @ [e]) s'"
proof -
  from simulates [OF steps_good [OF assms(1,2)] assms(3)] obtain s' where "act e s = Some s'" by blast
  then show ?thesis using steps_Snoc [OF assms(1), of e s'] assms(3) by blast
qed

end

text \<open>No channel has the empty name: the lines name none.\<close>

definition named :: "online \<Rightarrow> bool" where
  "named A \<longleftrightarrow> (\<forall>i n ls. A i = Some (n, ls) \<longrightarrow> [] \<notin> set ls)"

lemma strlower_empty [simp]: "strlower s = [] \<longleftrightarrow> s = []" "[] = strlower s \<longleftrightarrow> s = []"
  by (auto simp: strlower_def)

lemma named_on_chans: "named A \<Longrightarrow> (\<And>ls. [] \<notin> set ls \<Longrightarrow> [] \<notin> set (f ls)) \<Longrightarrow> named (on_chans i f A)"
  unfolding named_def on_chans_def by (cases "A i") auto

lemma named_abs_named: "named A \<Longrightarrow> (\<And>ls. [] \<notin> set ls \<Longrightarrow> [] \<notin> set (f ls)) \<Longrightarrow> named (abs_named s f A)"
  unfolding named_def abs_named_def by (auto split: if_splits)

lemma not_in_remove1: "x \<notin> set ls \<Longrightarrow> x \<notin> set (remove1 y ls)"
  using set_remove1_subset by fast

lemma named_fold: "named A \<Longrightarrow> (\<And>x B. x \<in> set xs \<Longrightarrow> named B \<Longrightarrow> named (f x B)) \<Longrightarrow> named (fold f xs A)"
  by (induction xs arbitrary: A) simp_all

lemma named_abs_join: "named A \<Longrightarrow> [] \<notin> fst ` set ps \<Longrightarrow> named (abs_join i ps A)"
proof (induction i ps A rule: abs_join.induct)
  case (2 i s b ps A)
  have "named (if hd0 s = CHR ''0'' then on_chans i (\<lambda>_. []) A
      else if b then on_chans i (Cons (strlower s)) A else A)"
    using 2(2,3) by (auto intro!: named_on_chans)
  then show ?case using 2 by simp
qed simp

lemma for_nick_named:
  "for_nick nick P A A' \<Longrightarrow> named A \<Longrightarrow> (\<And>i ls. A i = Some (strlower nick, ls) \<Longrightarrow> P i ls A' \<Longrightarrow> named A') \<Longrightarrow> named A'"
  unfolding for_nick_def by (auto split: if_splits)

lemma shift_named:
  assumes "shift v e A A'" and "legal cfg e A" and n: "named A"
  shows "named A'"
proof (cases e)
  case (Arrive nick hops signon modes user host server name)
  then have "A' = A \<or> (\<exists>i. A' = A(i \<mapsto> (strlower nick, [])))" using assms(1) by (auto split: if_splits)
  then show ?thesis using n by (auto simp: named_def split: if_splits)
next
  case (Joins source chans)
  then have "for_nick source (\<lambda>i ls A'. A' = abs_join i (map (\<lambda>s. (s, \<not> v_barred v i s)) (pieces (CHR '','') chans)) A) A A'"
    "[] \<notin> set (pieces (CHR '','') chans)" using assms(1,2) by simp_all
  then show ?thesis by (elim for_nick_named) (use n in \<open>auto simp: image_image intro!: named_abs_join\<close>)
next
  case (Parts source chans)
  then have "for_nick source
      (\<lambda>i ls A'. A' = fold (\<lambda>s. on_chans i (remove1 (strlower s))) (pieces (CHR '','') chans) A) A A'"
    using assms(1) by simp
  then show ?thesis
    by (elim for_nick_named) (use n in \<open>auto intro!: named_fold named_on_chans not_in_remove1\<close>)
next
  case (Rename source nick time)
  then have "for_nick source (\<lambda>i ls A'. A' = A(i \<mapsto> (strlower nick, ls))) A A'" using assms(1) by simp
  then show ?thesis by (elim for_nick_named) (use n in \<open>auto simp: named_def\<close>)
next
  case (Quits source msg)
  then have "for_nick source (\<lambda>i ls A'. A' = A(i := None)) A A'" using assms(1) by simp
  then show ?thesis by (elim for_nick_named) (use n in \<open>auto simp: named_def\<close>)
next
  case (Kills source nick msg)
  then have "for_nick nick (\<lambda>i ls A'. A' = A(i := None)) A A'" using assms(1) by simp
  then show ?thesis by (elim for_nick_named) (use n in \<open>auto simp: named_def\<close>)
qed (use assms in \<open>auto simp: abs_sjoin_def intro!: named_fold named_abs_named not_in_remove1\<close>)

definition sane :: "proccfg \<Rightarrow> proc_state \<Rightarrow> bool" where
  "sane cfg st \<longleftrightarrow> p_good cfg st \<and> named (p_online st)"

text \<open>The services, with the time at which each line comes.\<close>

definition serve :: "proccfg \<Rightarrow> hooks \<Rightarrow> int \<times> event \<Rightarrow> proc_state \<Rightarrow> proc_state option" where
  "serve cfg h x st = process cfg h (fst x) (print_event (snd x)) st"

definition may_send :: "proccfg \<Rightarrow> int \<times> event \<Rightarrow> online \<Rightarrow> bool" where
  "may_send cfg x A \<longleftrightarrow> writable (snd x) \<and> legal cfg (snd x) A"

definition happens :: "proccfg \<Rightarrow> proc_state \<Rightarrow> int \<times> event \<Rightarrow> online \<Rightarrow> online \<Rightarrow> bool" where
  "happens cfg st x = shift (verdicts_of cfg (fst x) st) (snd x)"

interpretation services: event_system "serve cfg h" "sane cfg" p_online "may_send cfg" "happens cfg" for cfg h
proof
  fix s x assume s: "sane cfg s" and m: "may_send cfg x (p_online s)"
  obtain s' where s': "serve cfg h x s = Some s'" "p_good cfg s'" "happens cfg s x (p_online s) (p_online s')"
    using process_handled [where cfg = cfg and st = s and e = "snd x" and h = h and now = "fst x"] s m
    by (auto simp: serve_def may_send_def happens_def handled_def sane_def)
  moreover have "named (p_online s')"
    using shift_named [OF s'(3) [unfolded happens_def], of cfg] s m unfolding sane_def may_send_def by blast
  ultimately show "\<exists>s'. serve cfg h x s = Some s' \<and> sane cfg s' \<and> happens cfg s x (p_online s) (p_online s')"
    by (auto simp: sane_def)
qed

text \<open>At the start nobody is known, whatever is registered.\<close>

definition boot :: "ns_state \<Rightarrow> akill_row list \<Rightarrow> exception_row list \<Rightarrow> proc_state" where
  "boot ns akills exceptions =
     \<lparr>p_state = \<lparr>n_os = \<lparr>os_cs = \<lparr>cs_ns = ns\<lparr>ns_users := (\<lambda>_. [])\<rparr>, cs_chans = (\<lambda>_. []), cs_lastmodes = []\<rparr>,
        os_akills = akills, os_akill_next = 1 + fold max (map kl_id akills) 0, os_sessions = [],
        os_exceptions = exceptions, os_exception_next = 1 + fold max (map ex_id exceptions) 0\<rparr>,
      n_srv = \<lparr>sv_heap = (\<lambda>_. None), sv_list = [], sv_last = None, sv_brk = 0, sv_count = 0, sv_out = []\<rparr>,
      n_usercnt = 0, n_opcnt = 0, n_maxusercnt = 0, n_maxusertime = 0, n_stat = (\<lambda>_. None), n_next = 0\<rparr>,
      p_ignore = (\<lambda>_. []), p_lasttimes = replicate 20 0\<rparr>"

definition registry_ok :: "ns_state \<Rightarrow> bool" where
  "registry_ok ns \<longleftrightarrow> ns_ok ns \<and> unforced (ns_db ns) \<and> links_ok (ns_db ns) \<and> (\<forall>i. lock_consistent (ns_db ns) i)"

lemma nobody_there: "all_users (\<lambda>_. []) = []" "user_at (\<lambda>_. []) i = None" "findchan (\<lambda>_. []) name = None"
proof -
  have "concat (map (\<lambda>_. []) xs) = []" for xs :: "nat list" by (induction xs) simp_all
  then show "all_users (\<lambda>_. []) = []" by (simp only: all_users_def)
  then show "user_at (\<lambda>_. []) i = None" by (simp add: user_at_def)
  show "findchan (\<lambda>_. []) name = None" by (simp add: findchan_def)
qed

lemma boot_good:
  assumes "registry_ok ns"
  shows "sane cfg (boot ns ks xs)" and "p_online (boot ns ks xs) = (\<lambda>_. None)"
proof -
  define n where "n = p_state (boot ns ks xs)"
  have cs: "net_cs n = \<lparr>cs_ns = ns\<lparr>ns_users := (\<lambda>_. [])\<rparr>, cs_chans = (\<lambda>_. []), cs_lastmodes = []\<rparr>"
    by (simp add: n_def boot_def net_cs_def)
  have us: "ns_users (net_ns n) = (\<lambda>_. [])" unfolding net_ns_def cs by simp
  have "users_ok (\<lambda>_. [])" by (simp add: users_ok_def)
  then have "base_ok (cs_ns (net_cs n))" using assms by (simp add: cs base_ok_def registry_ok_def nobody_there)
  moreover have "members (lists_of (\<lambda>_. [])) (\<lambda>_. [])"
    by (simp add: members_def lists_ok_def on_def lists_of_def nobody_there)
  moreover have "chans_ok (\<lambda>_. [])" "plain_chans (\<lambda>_. [])" by (simp_all add: chans_ok_def plain_chans_def)
  ultimately have ok: "net_ok (net_cs n)" by (simp add: net_ok_def cs)
  have H: "hosts (\<lambda>_. []) = (\<lambda>_. None)" by (simp add: hosts_def nobody_there fun_eq_iff)
  have "counted (p_net cfg) (hosts (ns_users (net_ns n))) n"
    unfolding us H by (simp add: counted_def n_def boot_def sessions_ok_def host_count_def hosts_on_def sql_first_def)
  moreover have "servers_ok (n_srv n) []" by (simp add: n_def boot_def servers_ok_def roots_rep_def)
  ultimately have good: "p_good cfg (boot ns ks xs)" using ok by (auto simp: p_good_def net_good_def n_def)
  show none: "p_online (boot ns ks xs) = (\<lambda>_. None)"
    unfolding p_online_def us [unfolded n_def] by (simp add: online_def nobody_there fun_eq_iff)
  show "sane cfg (boot ns ks xs)" using good none by (simp add: sane_def named_def)
qed

section \<open>Properties\<close>

definition sample_net :: netcfg where
  "sample_net = \<lparr>k_ns = sample_cfg, k_cs = sample_cs, k_os = sample_oscfg\<lparr>LimitSessions := True\<rparr>, LogMaxUsers = True,
     WallOper = True, k_address = 0\<rparr>"

definition sample_proc :: proccfg where
  "sample_proc = \<lparr>p_net = sample_net, s_NickServ = ''NickServ'', s_MemoServ = ''MemoServ'', s_HelpServ = ''HelpServ'',
     s_GlobalNoticer = ''Global'', s_IrcIIHelp = None, s_DevNull = None, WallBadOS = True, allow_ignore = True,
     VERSION = ''1'', desc_of = (\<lambda>s. s)\<rparr>"

definition bob_arrives :: event where
  "bob_arrives = Arrive ''Bob'' ''1'' ''7'' ''+i'' ''bob'' ''h.example'' ''irc.example'' ''Bob''"

lemma sample_registry: "registry_ok sample_ns"
  using sample_ns_ok
  by (auto simp: registry_ok_def unforced_def links_ok_def sample_ns_def nick_of_def has_def lock_consistent_def
      empty_db_def chan.row_def sql_first_def get_mlock_limit_def get_mlock_on_def get_mlock_off_def wanted_key_def get_mlock_key_def)

lemma bob_may: "may_send sample_proc (50, bob_arrives) (\<lambda>_. None)"
  by (simp add: may_send_def bob_arrives_def writable_def word_ok_def isspace_def print_event_def print_line_def nobody_def hd0_def plain_host_def)

text \<open>Parts of the services that leave everything as it is.\<close>

definition sample_hooks :: hooks where
  "sample_hooks = \<lparr>h_service = (\<lambda>_ _ _ _ st. Some (0, st)), h_flood = (\<lambda>_ _ _ st. Some st), h_sqline = (\<lambda>_ _ st. Some st)\<rparr>"

lemma bob_came:
  "\<exists>st. steps (serve sample_proc sample_hooks) (\<lambda>x st. may_send sample_proc x (p_online st)) (boot sample_ns [] []) [(50, bob_arrives)] st"
proof -
  have "may_send sample_proc (50, bob_arrives) (p_online (boot sample_ns [] []))"
    using bob_may by (simp add: boot_good(2) [OF sample_registry])
  from services.steps_go_on [OF steps_Nil boot_good(1) [OF sample_registry] this] show ?thesis by fastforce
qed

text \<open>
  C1: the services know who is online under which nickname and on which channels as the lines of the
  server tell it.  At the start nobody is; after any run of lines about users and channels, in any order,
  the next line changes the picture exactly as its event says, under the verdicts of the tables at that
  time: a new user is online unless an automatic kill matches the address or the limit of sessions
  of the host is reached, and a user enters a channel unless the channel is forbidden, an autokick
  applies, or the level of the user may not join.
\<close>

theorem lines_refine:
  assumes "registry_ok ns" and "steps (serve cfg h) (\<lambda>x st. may_send cfg x (p_online st)) (boot ns ks xs) es st"
  shows "(es = [] \<longrightarrow> p_online st = (\<lambda>_. None)) \<and>
    (\<forall>now e st'. may_send cfg (now, e) (p_online st) \<longrightarrow> serve cfg h (now, e) st = Some st' \<longrightarrow>
       shift (verdicts_of cfg now st) e (p_online st) (p_online st'))"
proof (intro conjI impI allI)
  show "p_online st = (\<lambda>_. None)" if "es = []"
    using assms(2) boot_good(2) [OF assms(1)] unfolding that by (auto elim: steps_NilE)
  fix now e st' assume "may_send cfg (now, e) (p_online st)" "serve cfg h (now, e) st = Some st'"
  then show "shift (verdicts_of cfg now st) e (p_online st) (p_online st')"
    using services.steps_effect [OF assms(2) boot_good(1) [OF assms(1)]] by (fastforce simp: happens_def)
qed

text \<open>Bob arrives where nobody is online and nothing speaks against it.\<close>

theorem lines_refine_witness:
  "\<exists>st i. serve sample_proc sample_hooks (50, bob_arrives) (boot sample_ns [] []) = Some st \<and>
     p_online st = [i \<mapsto> (''bob'', [])]"
proof -
  have m: "may_send sample_proc (50, bob_arrives) (p_online (boot sample_ns [] []))"
    using bob_may by (simp add: boot_good(2) [OF sample_registry])
  from services.steps_go_on [OF steps_Nil boot_good(1) [OF sample_registry] m, of sample_hooks] obtain st where
    st: "serve sample_proc sample_hooks (50, bob_arrives) (boot sample_ns [] []) = Some st" by blast
  have "shift (verdicts_of sample_proc 50 (boot sample_ns [] [])) bob_arrives (\<lambda>_. None) (p_online st)"
    using lines_refine [where cfg = sample_proc and h = sample_hooks, OF sample_registry steps_Nil] m st
    unfolding boot_good(2) [OF sample_registry] by blast
  moreover have "\<not> v_away (verdicts_of sample_proc 50 (boot sample_ns [] [])) ''bob'' ''h.example''"
  proof -
    have "ns_users (net_ns (p_state (boot sample_ns [] []))) = (\<lambda>_. [])"
      unfolding net_ns_def by (simp add: boot_def net_cs_def)
    then have "hosts_on (hosts (ns_users (net_ns (p_state (boot sample_ns [] []))))) g = 0" for g
      by (simp add: hosts_on_def hosts_def nobody_there)
    then show ?thesis
      by (auto simp: verdicts_of_def turned_away_def banned_def host_full_def boot_def)
  qed
  ultimately have "\<exists>i. p_online st = [i \<mapsto> (strlower ''Bob'', [])]" by (auto simp: bob_arrives_def)
  moreover have "strlower ''Bob'' = ''bob''" by code_simp
  ultimately show ?thesis using st by auto
qed

text \<open>
  C2: the services never get stuck on the lines about users and channels: after any run from the
  start, every further line that the server may send is handled, without a fault or an endless loop.
  What it may send is \<open>legal\<close>: among others, hosts without a quote or a backslash (a quote in a host does end
  the services, \<open>quoted_host_ends\<close> in Sessions), no empty name of a channel, and at most two signs of rank.
\<close>

theorem lines_go_on:
  assumes "registry_ok ns" and "steps (serve cfg h) (\<lambda>x st. may_send cfg x (p_online st)) (boot ns ks xs) es st"
    and "may_send cfg x (p_online st)"
  shows "\<exists>st'. serve cfg h x st = Some st' \<and>
    steps (serve cfg h) (\<lambda>x st. may_send cfg x (p_online st)) (boot ns ks xs) (es @ [x]) st'"
  by (rule services.steps_go_on [OF assms(2) boot_good(1) [OF assms(1)] assms(3)])

theorem lines_go_on_witness:
  "\<exists>st'. serve sample_proc sample_hooks (50, bob_arrives) (boot sample_ns [] []) = Some st'"
proof -
  have "may_send sample_proc (50, bob_arrives) (p_online (boot sample_ns [] []))"
    using bob_may by (simp add: boot_good(2) [OF sample_registry])
  from lines_go_on [OF sample_registry steps_Nil this] show ?thesis by blast
qed

text \<open>
  C3: in every run from the start the lists of channels of the users and the lists of users of the
  channels agree, operators and voiced users of a channel are on it, no channel is empty or without a name, a look-up of a channel does
  not depend on the memory behind the name, users are counted, and with limits on sessions the count of every host is the number of its users online.
\<close>

theorem lines_consistent:
  assumes "registry_ok ns" and "steps (serve cfg h) (\<lambda>x st. may_send cfg x (p_online st)) (boot ns ks xs) es st"
  shows "(\<forall>i u p. user_at (p_users st) i = Some u \<and> p \<in> set (u_chans u) \<longrightarrow>
       (\<exists>c. findchan (cs_chans (net_cs (p_state st))) p = Some c \<and> i \<in> set (c_users c))) \<and>
    (\<forall>name c. cstring name \<and> findchan (cs_chans (net_cs (p_state st))) name = Some c \<longrightarrow>
       c_name c \<noteq> [] \<and> c_users c \<noteq> [] \<and> distinct (c_users c) \<and> set (c_chanops c) \<union> set (c_voices c) \<subseteq> set (c_users c) \<and>
       (\<forall>i\<in>set (c_users c). \<exists>u. user_at (p_users st) i = Some u \<and> c_name c \<in> set (u_chans u))) \<and>
    (\<forall>beyond name. find (\<lambda>c. irc_stricmp (c_name c) name = 0)
       (cs_chans (net_cs (p_state st)) (HASH_mem beyond name)) = findchan (cs_chans (net_cs (p_state st))) name) \<and>
    n_usercnt (p_state st) = int (card {i. user_at (p_users st) i \<noteq> None}) \<and>
    (LimitSessions (k_os (p_net cfg)) \<longrightarrow>
       (\<forall>g. host_count (n_os (p_state st)) g = card {i. \<exists>u. user_at (p_users st) i = Some u \<and> sql_eq g (u_host u)}))"
proof -
  define n where "n = p_state st"
  have sane: "sane cfg st" by (rule services.steps_good [OF assms(2) boot_good(1) [OF assms(1)]])
  then have g: "net_good (p_net cfg) n" by (simp add: sane_def p_good_def n_def)
  have m: "members (lists_of (ns_users (net_ns n))) (cs_chans (net_cs n))"
    using good_parts(1,4) [OF g] by (simp add: net_ok_def)
  have c: "counted (p_net cfg) (hosts (ns_users (net_ns n))) n" using g by (simp add: net_good_def)
  have on: "on (lists_of (ns_users (net_ns n))) i p \<longleftrightarrow> (\<exists>u. user_at (ns_users (net_ns n)) i = Some u \<and> p \<in> set (u_chans u))" for i p
    by (auto simp: on_def lists_of_def)
  have 1: "\<exists>c. findchan (cs_chans (net_cs n)) p = Some c \<and> i \<in> set (c_users c)"
    if "user_at (ns_users (net_ns n)) i = Some u" "p \<in> set (u_chans u)" for i u p
  proof -
    have o: "on (lists_of (ns_users (net_ns n))) i p" using that on by blast
    obtain c where c: "findchan (cs_chans (net_cs n)) p = Some c" "c_name c = p" using members_at [OF m o] by blast
    have "cstring p" using on_cstring [OF _ o] m by (simp add: members_def)
    then have "good_chan (lists_of (ns_users (net_ns n))) c" using m c(1) by (simp add: members_def)
    then show ?thesis using c o by (auto simp: good_chan_def)
  qed
  have 2: "c_users c \<noteq> [] \<and> distinct (c_users c) \<and> set (c_chanops c) \<union> set (c_voices c) \<subseteq> set (c_users c) \<and>
      (\<forall>i\<in>set (c_users c). \<exists>u. user_at (ns_users (net_ns n)) i = Some u \<and> c_name c \<in> set (u_chans u))"
    if "cstring name" "findchan (cs_chans (net_cs n)) name = Some c" for name c
    using m that on by (simp add: members_def good_chan_def)
  have 3: "\<forall>b. \<forall>c\<in>set (cs_chans (net_cs n) b). c_name c \<noteq> [] \<and> cstring (c_name c)"
  proof (intro allI ballI)
    fix b c assume c: "c \<in> set (cs_chans (net_cs n) b)"
    have ok: "chans_ok (cs_chans (net_cs n))" using good_parts(1) [OF g] by (simp add: net_ok_def)
    have cn: "cstring (c_name c)" "findchan (cs_chans (net_cs n)) (c_name c) = Some c"
      using ok c findchan_char [OF ok, of "c_name c" c] by (auto simp: chans_ok_def)
    then obtain i u where "user_at (ns_users (net_ns n)) i = Some u" "c_name c \<in> set (u_chans u)"
      using 2 [OF cn] by (meson hd_in_set)
    then have "online (ns_users (net_ns n)) i = Some (strlower (u_nick u), map strlower (u_chans u))"
      "strlower (c_name c) \<in> set (map strlower (u_chans u))" by (simp_all add: online_def)
    then show "c_name c \<noteq> [] \<and> cstring (c_name c)"
      using sane cn(1) unfolding sane_def named_def p_online_def n_def [symmetric] by fastforce
  qed
  note mem = findchan_mem [OF 3]
  have 4: "c_name c \<noteq> []" if "findchan (cs_chans (net_cs n)) name = Some c" for name c
    using that 3 unfolding findchan_def by (metis find_Some_iff nth_mem)
  have d: "dom (hosts (ns_users (net_ns n))) = {i. user_at (ns_users (net_ns n)) i \<noteq> None}" by (auto simp: hosts_def)
  have h: "hosts_on (hosts (ns_users (net_ns n))) g = card {i. \<exists>u. user_at (ns_users (net_ns n)) i = Some u \<and> sql_eq g (u_host u)}" for g
    unfolding hosts_on_def hosts_def by (rule arg_cong [where f = card]) auto
  have "n_usercnt n = int (card {i. user_at (ns_users (net_ns n)) i \<noteq> None})" unfolding d [symmetric] using c by (simp add: counted_def)
  moreover have "LimitSessions (k_os (p_net cfg)) \<longrightarrow>
      (\<forall>g. host_count (n_os n) g = card {i. \<exists>u. user_at (ns_users (net_ns n)) i = Some u \<and> sql_eq g (u_host u)})"
    unfolding h [symmetric] using c by (simp add: counted_def)
  ultimately show ?thesis unfolding n_def [symmetric] using 1 2 4 mem by (intro conjI allI impI; (elim conjE)?; blast)
qed

theorem lines_consistent_witness:
  "\<exists>st. steps (serve sample_proc sample_hooks) (\<lambda>x st. may_send sample_proc x (p_online st)) (boot sample_ns [] []) [(50, bob_arrives)] st \<and>
     n_usercnt (p_state st) = int (card {i. user_at (p_users st) i \<noteq> None})"
proof -
  obtain st where st: "steps (serve sample_proc sample_hooks) (\<lambda>x st. may_send sample_proc x (p_online st)) (boot sample_ns [] []) [(50, bob_arrives)] st"
    using bob_came by blast
  show ?thesis using st lines_consistent [OF sample_registry st] by blast
qed

end
