(* ===== verification/CsAccess.thy ===== *)
theory CsAccess
  imports Access Numquery
begin

text \<open>
  The access lists of channels (src/src/cs_access.c): the ChanServ command ACCESS with its forms ADD,
  DEL, LIST, VIEW and COUNT, and the shorthands VOP, AOP and SOP, which add at the level the channel
  asks for a category.  Every change numbers the list of the channel again, by falling level.  The
  property is that a user changes only entries below the user's own level, and leaves the lists in
  order.

  A date in a notice is given by its seconds.  A statement that the server rejects ends the services,
  which is None.
\<close>

definition CI_VERBOSE :: flags where "CI_VERBOSE = 0x00000800"
definition NI_NOOP :: flags where "NI_NOOP = 0x00000800"
definition NI_HIDE_MASK :: flags where "NI_HIDE_MASK = 0x00000100"

definition tell_user :: "user \<Rightarrow> cstr \<Rightarrow> cstr list \<Rightarrow> ns_state \<Rightarrow> ns_state" where
  "tell_user u key args = say (NoticeLang (u_uid u) key args)"

definition bold :: "cstr \<Rightarrow> cstr" where
  "bold s = CHR 0x02 # s @ [CHR 0x02]"

text \<open>A notice to the operators of a channel.\<close>

definition opnotice :: "cstr \<Rightarrow> cstr \<Rightarrow> ns_state \<Rightarrow> ns_state" where
  "opnotice ch t = say (NoticeText (CHR ''@'' # ch) t)"

section \<open>Rows\<close>

definition get_channelinfo_from_id :: "sqldb \<Rightarrow> nat \<Rightarrow> chan_row option" where
  "get_channelinfo_from_id db c = chan.row c (t_channel db)"

definition get_chan_name :: "sqldb \<Rightarrow> nat \<Rightarrow> cstr" where
  "get_chan_name db c = (case chan.row c (t_channel db) of Some r \<Rightarrow> cr_name r | None \<Rightarrow> [])"

definition mysql_findnickinfo :: "sqldb \<Rightarrow> cstr \<Rightarrow> nick_row option" where
  "mysql_findnickinfo db n = sql_first (\<lambda>r. sql_eq (nr_nick r) n) (t_nick db)"

definition get_nickinfo_from_id :: "sqldb \<Rightarrow> nat \<Rightarrow> nick_row option" where
  "get_nickinfo_from_id db i = nick.row i (t_nick db)"

definition get_chanaccess_from_nickid :: "sqldb \<Rightarrow> nat \<Rightarrow> nat \<Rightarrow> access_row option" where
  "get_chanaccess_from_nickid db i c = sql_first (\<lambda>a. ca_nick a = i \<and> ca_chan a = c) (t_chanaccess db)"

definition chanaccess_count :: "sqldb \<Rightarrow> nat \<Rightarrow> nat" where
  "chanaccess_count db c = length (filter (\<lambda>a. ca_chan a = c) (t_chanaccess db))"

definition upd_access :: "(access_row list \<Rightarrow> access_row list) \<Rightarrow> ns_state \<Rightarrow> ns_state" where
  "upd_access f st = st\<lparr>ns_db := (ns_db st)\<lparr>t_chanaccess := f (t_chanaccess (ns_db st))\<rparr>\<rparr>"

text \<open>
  REPLACE: the rows that share a unique key with the new one make room for it.  A row with the number
  of the new one keeps its place.
\<close>

definition replace_access :: "access_row \<Rightarrow> access_row list \<Rightarrow> access_row list" where
  "replace_access r t =
     (let t = filter (\<lambda>a. ca_id a = ca_id r \<or> \<not> (ca_chan a = ca_chan r \<and> ca_nick a = ca_nick r)) t
      in if \<exists>a\<in>set t. ca_id a = ca_id r then map (\<lambda>a. if ca_id a = ca_id r then r else a) t else t @ [r])"

text \<open>The rows of the temporary table, which numbers them in the order they are put in.\<close>

definition private_tmp_chanaccess :: "nat \<Rightarrow> access_row list \<Rightarrow> access_row list" where
  "private_tmp_chanaccess c t =
     map (\<lambda>(i, a). a\<lparr>ca_idx := i\<rparr>) (enumerate 1 (sort_key (\<lambda>a. - ca_level a) (filter (\<lambda>a. ca_chan a = c) t)))"

definition sort_chan_access :: "nat \<Rightarrow> ns_state \<Rightarrow> ns_state" where
  "sort_chan_access c = upd_access (\<lambda>t. fold (\<lambda>r. replace_access (r\<lparr>ca_chan := c\<rparr>)) (private_tmp_chanaccess c t) t)"

section \<open>Changes\<close>

definition nick_text :: "sqldb \<Rightarrow> nat \<Rightarrow> cstr" where
  "nick_text db i = (case get_nick_from_id db i of Some n \<Rightarrow> n | None \<Rightarrow> ''(null)'')"

definition verbose :: "nat \<Rightarrow> cstr \<Rightarrow> cstr \<Rightarrow> ns_state \<Rightarrow> ns_state" where
  "verbose c name t st = (if has (get_chan_flags (ns_db st) c) CI_VERBOSE then opnotice name t st else st)"

definition modify_access :: "int \<Rightarrow> access_row \<Rightarrow> nat \<Rightarrow> int \<Rightarrow> user \<Rightarrow> ns_state \<Rightarrow> ns_state" where
  "modify_access now ca c level u st =
     (let name = get_chan_name (ns_db st) c;
          n = nick_text (ns_db st) (ca_nick ca);
          f = (if ca_added_by ca \<noteq> []
               then (\<lambda>a. a\<lparr>ca_level := level, ca_last_modified := now, ca_modified_by := u_nick u\<rparr>)
               else (\<lambda>a. a\<lparr>ca_level := level, ca_added := now, ca_last_modified := now, ca_added_by := u_nick u,
                            ca_modified_by := u_nick u\<rparr>));
          st = upd_access (sql_update (\<lambda>a. ca_id a = ca_id ca \<and> ca_chan a = c) f) st;
          st = verbose c name (u_nick u @ '' changed the access level for '' @ bold n @ '' from '' @
                 bold (show_int (ca_level ca)) @ '' to '' @ bold (show_int level)) st;
          st = tell_user u ''CHAN_ACCESS_LEVEL_CHANGED'' [n, name, show_int level] st
      in sort_chan_access c st)"

definition insert_access :: "int \<Rightarrow> nat \<Rightarrow> nat \<Rightarrow> int \<Rightarrow> user \<Rightarrow> ns_state \<Rightarrow> ns_state" where
  "insert_access now c i level u st =
     (let name = get_chan_name (ns_db st) c;
          n = nick_text (ns_db st) i;
          k = next_chanaccess (ns_db st);
          st = upd_access (\<lambda>t. t @ [\<lparr>ca_id = k, ca_chan = c, ca_idx = 0, ca_level = level, ca_nick = i, ca_added = now,
                 ca_last_modified = now, ca_last_used = 0, ca_memo_read = 0, ca_added_by = u_nick u,
                 ca_modified_by = u_nick u\<rparr>]) st;
          st = st\<lparr>ns_db := (ns_db st)\<lparr>next_chanaccess := Suc k\<rparr>\<rparr>;
          st = verbose c name (u_nick u @ '' added '' @ bold n @ '' to the access list (level '' @ bold (show_int level) @
                 '')'') st;
          st = tell_user u ''CHAN_ACCESS_ADDED'' [n, name, show_int level] st
      in sort_chan_access c st)"

definition delete_access :: "nat \<Rightarrow> ns_state \<Rightarrow> ns_state" where
  "delete_access k = upd_access (sql_delete (\<lambda>a. ca_id a = k))"

definition removal :: "user \<Rightarrow> cstr \<Rightarrow> int \<Rightarrow> cstr" where
  "removal u n level = u_nick u @ '' removed '' @ bold n @ '' (level '' @ bold (show_int level) @ '') from the access list''"

section \<open>ACCESS ADD\<close>

text \<open>The change of an entry that is there, and the new entry otherwise; the four commands share it.\<close>

definition set_access :: "cscfg \<Rightarrow> int \<Rightarrow> user \<Rightarrow> chan_row \<Rightarrow> nick_row \<Rightarrow> int \<Rightarrow> int \<Rightarrow> ns_state \<Rightarrow> ns_state" where
  "set_access cfg now u ci ni level ulev st =
     (case get_chanaccess_from_nickid (ns_db st) (nr_id ni) (cr_id ci) of
        Some ca \<Rightarrow>
          if ca_level ca \<ge> ulev then tell_user u ''PERMISSION_DENIED'' [] st
          else if ca_level ca = level
          then tell_user u ''CHAN_ACCESS_LEVEL_UNCHANGED'' [nr_nick ni, cr_name ci, show_int level] st
          else modify_access now ca (cr_id ci) level u st
      | None \<Rightarrow>
          if chanaccess_count (ns_db st) (cr_id ci) \<ge> CSAccessMax cfg
          then tell_user u ''CHAN_ACCESS_REACHED_LIMIT'' [showd (CSAccessMax cfg)] st
          else insert_access now (cr_id ci) (nr_id ni) level u st)"

definition bad_level :: "int \<Rightarrow> bool" where
  "bad_level level \<longleftrightarrow> level \<le> ACCESS_INVALID \<or> level \<ge> ACCESS_FOUNDER"

definition do_cs_access_add :: "cscfg \<Rightarrow> int \<Rightarrow> user \<Rightarrow> chan_row \<Rightarrow> cstr \<Rightarrow> cstr \<Rightarrow> ns_state \<Rightarrow> ns_state option" where
  "do_cs_access_add cfg now u ci n s st =
     do {
       let level = atoi s;
       (ulev, st) \<leftarrow> get_access now u (cr_id ci) st;
       if level = 0 then Some (tell_user u ''CHAN_ACCESS_LEVEL_NONZERO'' [] st)
       else if bad_level level
       then Some (tell_user u ''CHAN_ACCESS_LEVEL_RANGE'' [show_int (ACCESS_INVALID + 1), show_int (ACCESS_FOUNDER - 1)] st)
       else if level \<ge> ulev then Some (tell_user u ''ACCESS_DENIED'' [] st)
       else do {
         (akick, st) \<leftarrow> (if level < 0 then check_access now u (cr_id ci) CA_AKICK st else Some (True, st));
         if \<not> akick then Some (tell_user u ''ACCESS_DENIED'' [] st)
         else
           (let i = mysql_findnick (ns_db st) n
            in case (if i = 0 then None else get_nickinfo_from_id (ns_db st) i) of
                 None \<Rightarrow> Some (tell_user u ''CHAN_ACCESS_NICKS_ONLY'' [] st)
               | Some ni \<Rightarrow>
                   Some (if has (nr_status ni) NS_VERBOTEN then tell_user u ''NICK_X_FORBIDDEN'' [n] st
                         else if has (nr_flags ni) NI_NOOP then tell_user u ''NICK_X_NOOP'' [n] st
                         else set_access cfg now u ci ni level ulev st))
       }
     }"

section \<open>ACCESS DEL\<close>

text \<open>The callback for an entry of a list, on the number of refusals, the last number and the state.\<close>

type_synonym del_state = "int \<times> nat \<times> ns_state"

definition access_with_nick :: "sqldb \<Rightarrow> nat \<Rightarrow> (access_row \<times> nick_row) list" where
  "access_with_nick db c =
     concat (map (\<lambda>a. map (Pair a) (filter (\<lambda>r. ca_nick a = nr_id r) (t_nick db)))
       (filter (\<lambda>a. ca_chan a = c) (t_chanaccess db)))"

definition access_del_callback :: "user \<Rightarrow> nat \<Rightarrow> int \<Rightarrow> int \<Rightarrow> nat \<Rightarrow> del_state \<Rightarrow> int \<times> del_state" where
  "access_del_callback u c uacc akick_lev num s =
     (case s of (perm, lst, st) \<Rightarrow>
       if num < 1 then (0, s)
       else
         (case filter (\<lambda>(a, r). ca_idx a = num) (access_with_nick (ns_db st) c) of
            [] \<Rightarrow> (0, perm, num, st)
          | (a, r) # _ \<Rightarrow>
              if ca_id a = 0 then (0, perm, num, st)
              else if uacc \<le> ca_level a \<or> (ca_level a < 0 \<and> uacc \<le> akick_lev)
              then (0, wrap32 (perm + 1), num, st)
              else (1, perm, num, verbose c (get_chan_name (ns_db st) c) (removal u (nr_nick r) (ca_level a))
                        (delete_access (ca_id a) st))))"

text \<open>
  \<open>process_numlist\<close> hands one \<open>va_list\<close> to every call of its callback, and the callback takes its
  arguments from it with \<open>va_arg\<close>.  Where a \<open>va_list\<close> is passed by value (a pointer into the stack,
  as on i386) every call finds its arguments; where the callee works on the list of the caller (an
  array, as on x86-64) only the first does, and what a second one reads is undefined.  The C
  standard leaves the list indeterminate.  The way it is passed is an argument of the model, and a
  call that reads past the arguments is \<open>Lost\<close>.
\<close>

datatype va_passing = ByValue | ByReference

datatype 's va_state = Intact 's | Spent 's | Lost

fun with_args :: "va_passing \<Rightarrow> (nat \<Rightarrow> 's \<Rightarrow> int \<times> 's) \<Rightarrow> nat \<Rightarrow> 's va_state \<Rightarrow> int \<times> 's va_state" where
  "with_args va cb num (Intact s) =
     (case cb num s of (res, s') \<Rightarrow> (res, if va = ByValue then Intact s' else Spent s'))"
| "with_args va cb num v = (0, Lost)"

fun args_state :: "'s va_state \<Rightarrow> 's option" where
  "args_state (Intact s) = Some s"
| "args_state (Spent s) = Some s"
| "args_state Lost = None"

text \<open>
  The count of refusals and the last number are not initialised by the code: what they hold is an
  argument as well.
\<close>

type_synonym platform = "va_passing \<times> int \<times> nat"

definition do_cs_access_del :: "cscfg \<Rightarrow> platform \<Rightarrow> int \<Rightarrow> user \<Rightarrow> chan_row \<Rightarrow> cstr \<Rightarrow> ns_state \<Rightarrow> ns_state option" where
  "do_cs_access_del cfg junk now u ci n st =
     (let c = cr_id ci; akick_lev = get_level (ns_db st) c CA_AKICK
      in if isdigit (hd0 n) \<and> is_numlist n
         then do {
           (uacc, st) \<leftarrow> get_access now u c st;
           (deleted, count, v) \<leftarrow>
             process_numlist n 1 (to_uint32 (int (CSAccessMax cfg) - 1))
               (with_args (fst junk) (access_del_callback u c uacc akick_lev))
               (Intact (fst (snd junk), snd (snd junk), st));
           (perm, lst, st) \<leftarrow> args_state v;
           Some (if deleted = 0
                 then (if perm \<noteq> 0 then tell_user u ''PERMISSION_DENIED'' [] st
                       else if count = 1 then tell_user u ''CHAN_ACCESS_NO_SUCH_ENTRY'' [showd lst, cr_name ci] st
                       else tell_user u ''CHAN_ACCESS_NO_MATCH'' [cr_name ci] st)
                 else if deleted = 1 then tell_user u ''CHAN_ACCESS_DELETED_ONE'' [cr_name ci] (sort_chan_access c st)
                 else tell_user u ''CHAN_ACCESS_DELETED_SEVERAL'' [show_int deleted, cr_name ci] (sort_chan_access c st))
         }
         else
           (case mysql_findnickinfo (ns_db st) n of
              None \<Rightarrow> Some (tell_user u ''NICK_X_NOT_REGISTERED'' [n] st)
            | Some ni \<Rightarrow>
                (case sql_first (\<lambda>a. ca_chan a = c \<and> ca_nick a = nr_id ni) (t_chanaccess (ns_db st)) of
                   None \<Rightarrow> Some (tell_user u ''CHAN_ACCESS_NOT_FOUND'' [n, cr_name ci] st)
                 | Some a \<Rightarrow>
                     do {
                       (uacc, st) \<leftarrow> get_access now u c st;
                       Some (if uacc \<le> ca_level a then tell_user u ''PERMISSION_DENIED'' [] st
                             else tell_user u ''CHAN_ACCESS_DELETED'' [nr_nick ni, cr_name ci]
                                    (verbose c (cr_name ci) (removal u (nr_nick ni) (ca_level a))
                                      (sort_chan_access c (delete_access (ca_id a) st))))
                     })))"

section \<open>ACCESS LIST and VIEW\<close>

text \<open>
  A statement is cut to 4095 characters.  \<open>order_by\<close> is what is left of the end of the statement
  behind the conditions: nothing the server accepts, a list in storage order, or one in order of the
  numbers.
\<close>

definition order_by :: "cstr \<Rightarrow> bool option" where
  "order_by query =
     (let t = take (4095 - length query) '') ORDER BY chanaccess.idx ASC''
      in if t = '')'' \<or> t = '') '' then Some False
         else if t = '') ORDER BY chanaccess.idx'' \<or> t = '') ORDER BY chanaccess.idx '' \<or>
                 t = '') ORDER BY chanaccess.idx ASC'' then Some True
         else None)"

definition access_base :: "bool \<Rightarrow> nat \<Rightarrow> cstr" where
  "access_base full c =
     ''SELECT chanaccess.idx, chanaccess.level, nick.nick, IF(nick.flags & 256, NULL, nick.last_usermask)'' @
     (if full then '', chanaccess.added, chanaccess.last_modified, chanaccess.added_by, chanaccess.modified_by, chanaccess.last_used'' else []) @
     '' FROM chanaccess, nick WHERE chanaccess.nick_id=nick.nick_id && chanaccess.channel_id='' @ showd c @ '' && (''"

definition by_idx :: "(access_row \<times> nick_row) list \<Rightarrow> (access_row \<times> nick_row) list" where
  "by_idx = sort_key (\<lambda>(a, r). ca_idx a)"

text \<open>The rows LIST and VIEW show.\<close>

definition access_select :: "cscfg \<Rightarrow> bool \<Rightarrow> nat \<Rightarrow> cstr option \<Rightarrow> sqldb \<Rightarrow> (access_row \<times> nick_row) list option" where
  "access_select cfg full c n db =
     (let rows = access_with_nick db c
      in case n of
           None \<Rightarrow> Some (by_idx rows)
         | Some n \<Rightarrow>
             if is_numlist n
             then
               (let query = mysql_build_query n (access_base full c) ''chanaccess.idx'' (CSAccessMax cfg);
                    sel = filter (\<lambda>(a, r). selects (query_clauses (CSAccessMax cfg) n) (ca_idx a)) rows
                in if length query = length (access_base full c) then None
                   else map_option (\<lambda>ord. if ord then by_idx sel else sel) (order_by query))
             else Some (by_idx (filter (\<lambda>(a, r). sql_eq (nr_nick r) n) rows)))"

definition mask_shown :: "nick_row \<Rightarrow> cstr list" where
  "mask_shown r = (if has (nr_flags r) NI_HIDE_MASK then [[], [], []] else ['' ('', nr_last_usermask r, '')''])"

definition list_entry :: "user \<Rightarrow> cstr \<Rightarrow> access_row \<times> nick_row \<Rightarrow> ns_state \<Rightarrow> ns_state" where
  "list_entry u key = (\<lambda>(a, r). tell_user u key ([showd (ca_idx a), show_int (ca_level a), nr_nick r] @ mask_shown r))"

definition view_entry :: "user \<Rightarrow> access_row \<times> nick_row \<Rightarrow> ns_state \<Rightarrow> ns_state" where
  "view_entry u = (\<lambda>(a, r) st.
     (let st = list_entry u ''CHAN_ACCESS_VIEW_FORMAT1'' (a, r) st;
          st = (if ca_added a \<noteq> 0
                then tell_user u ''CHAN_ACCESS_VIEW_FORMAT3'' [show_int (ca_added a)]
                       (if ca_last_modified a \<noteq> 0
                        then tell_user u ''CHAN_ACCESS_VIEW_FORMAT2'' [ca_added_by a, ca_modified_by a] st
                        else tell_user u ''CHAN_ACCESS_VIEW_FORMAT2_NOMODIFY'' [ca_added_by a] st)
                else st);
          st = (if ca_last_modified a \<noteq> 0
                then tell_user u ''CHAN_ACCESS_VIEW_FORMAT4'' [show_int (ca_last_modified a)] st else st)
      in if ca_last_used a \<noteq> 0 then tell_user u ''CHAN_ACCESS_VIEW_FORMAT5'' [show_int (ca_last_used a)] st
         else tell_user u ''CHAN_ACCESS_VIEW_FORMAT5_NEVER_USED'' [] st))"

definition show_entries ::
  "user \<Rightarrow> cstr \<Rightarrow> (access_row \<times> nick_row \<Rightarrow> ns_state \<Rightarrow> ns_state) \<Rightarrow> cstr \<Rightarrow> (access_row \<times> nick_row) list \<Rightarrow>
   ns_state \<Rightarrow> ns_state" where
  "show_entries u header f name rows st =
     (if rows = [] then tell_user u ''CHAN_ACCESS_NO_MATCH'' [name] st else fold f rows (tell_user u header [name] st))"

definition do_cs_access_list :: "cscfg \<Rightarrow> user \<Rightarrow> chan_row \<Rightarrow> cstr option \<Rightarrow> ns_state \<Rightarrow> ns_state option" where
  "do_cs_access_list cfg u ci n st =
     (if chanaccess_count (ns_db st) (cr_id ci) = 0 then Some (tell_user u ''CHAN_ACCESS_LIST_EMPTY'' [cr_name ci] st)
      else map_option (\<lambda>rows. show_entries u ''CHAN_ACCESS_LIST_HEADER'' (list_entry u ''CHAN_ACCESS_LIST_FORMAT'')
                         (cr_name ci) rows st)
             (access_select cfg False (cr_id ci) n (ns_db st)))"

definition do_cs_access_view :: "cscfg \<Rightarrow> user \<Rightarrow> chan_row \<Rightarrow> cstr option \<Rightarrow> ns_state \<Rightarrow> ns_state option" where
  "do_cs_access_view cfg u ci n st =
     (if chanaccess_count (ns_db st) (cr_id ci) = 0 then Some (tell_user u ''CHAN_ACCESS_LIST_EMPTY'' [cr_name ci] st)
      else map_option (\<lambda>rows. show_entries u ''CHAN_ACCESS_VIEW_HEADER'' (view_entry u) (cr_name ci) rows st)
             (access_select cfg True (cr_id ci) n (ns_db st)))"

section \<open>ACCESS\<close>

text \<open>The words of a command, one \<open>strtok\<close> after the other.\<close>

fun word :: "nat \<Rightarrow> cstr \<Rightarrow> cstr option" where
  "word 0 t = fst (strtok t '' '')"
| "word (Suc k) t = word k (snd (strtok t '' ''))"

definition opt_lower :: "cstr option \<Rightarrow> cstr" where
  "opt_lower s = (case s of None \<Rightarrow> [] | Some s \<Rightarrow> strlower s)"

definition syntax_error :: "cstr \<Rightarrow> user \<Rightarrow> cstr \<Rightarrow> cstr \<Rightarrow> ns_state \<Rightarrow> ns_state" where
  "syntax_error service u command key st =
     tell_user u ''MORE_INFO'' [service, command] (tell_user u ''SYNTAX_ERROR'' [key] st)"

text \<open>The channel of a command, with what is said of it when there is none.\<close>

definition command_chan :: "user \<Rightarrow> cstr option \<Rightarrow> ns_state \<Rightarrow> ns_state + chan_row" where
  "command_chan u ch st =
     (let name = (case ch of None \<Rightarrow> [] | Some n \<Rightarrow> n);
          c = mysql_findchan (ns_db st) name
      in case (if c = 0 then None else get_channelinfo_from_id (ns_db st) c) of
           None \<Rightarrow> Inl (tell_user u ''CHAN_X_NOT_REGISTERED'' [name] st)
         | Some ci \<Rightarrow>
             if has (cr_flags ci) CI_VERBOTEN then Inl (tell_user u ''CHAN_X_FORBIDDEN'' [name] st) else Inr ci)"

text \<open>\<open>!check_access(...) && !is_services_admin(u)\<close> fails.\<close>

definition access_or_admin :: "cscfg \<Rightarrow> int \<Rightarrow> user \<Rightarrow> nat \<Rightarrow> nat \<Rightarrow> ns_state \<Rightarrow> (bool \<times> ns_state) option" where
  "access_or_admin cfg now u c what st =
     do {
       (ok, st) \<leftarrow> check_access now u c what st;
       if ok then Some (True, st) else is_services_admin cfg now u st
     }"

text \<open>The forms of the command, and the command.\<close>

definition access_form ::
  "cscfg \<Rightarrow> platform \<Rightarrow> int \<Rightarrow> user \<Rightarrow> chan_row \<Rightarrow> cstr \<Rightarrow> cstr option \<Rightarrow> cstr option \<Rightarrow> ns_state \<Rightarrow> ns_state option" where
  "access_form cfg junk now u ci cmd n s st =
     (if cmd = ''add'' then do_cs_access_add cfg now u ci (the n) (the s) st
      else if cmd = ''del'' then do_cs_access_del cfg junk now u ci (the n) st
      else if cmd = ''list'' then do_cs_access_list cfg u ci n st
      else if cmd = ''view'' then do_cs_access_view cfg u ci n st
      else if cmd = ''count''
      then Some (tell_user u ''CHAN_ACCESS_COUNT'' [cr_name ci, showd (chanaccess_count (ns_db st) (cr_id ci))] st)
      else Some (syntax_error (s_ChanServ cfg) u ''ACCESS'' ''CHAN_ACCESS_SYNTAX'' st))"

definition do_cs_access :: "cscfg \<Rightarrow> platform \<Rightarrow> int \<Rightarrow> user \<Rightarrow> cstr \<Rightarrow> ns_state \<Rightarrow> ns_state option" where
  "do_cs_access cfg junk now u t st =
     (let cmd = opt_lower (word 1 t); is_list = (cmd \<in> {''list'', ''count'', ''view''})
      in do {
        (idd, st) \<leftarrow> (if is_list then Some (True, st) else nick_identified now u st);
        if \<not> idd then Some (tell_user u ''NICK_IDENTIFY_REQUIRED'' [s_ChanServ cfg] st)
        else if word 1 t = None \<or>
          (\<not> is_list \<and> (if cmd = ''del'' then word 2 t = None \<or> word 3 t \<noteq> None else word 3 t = None))
        then Some (syntax_error (s_ChanServ cfg) u ''ACCESS'' ''CHAN_ACCESS_SYNTAX'' st)
        else (case command_chan u (word 0 t) st of
                Inl st \<Rightarrow> Some st
              | Inr ci \<Rightarrow> do {
                  (ok, st) \<leftarrow> access_or_admin cfg now u (cr_id ci) (if is_list then CA_ACCESS_LIST else CA_ACCESS_CHANGE) st;
                  if ok then access_form cfg junk now u ci cmd (word 2 t) (word 3 t) st
                  else Some (tell_user u ''ACCESS_DENIED'' [] st)
                })
      })"

section \<open>VOP, AOP and SOP\<close>

text \<open>
  The three commands are copies that differ in the category and in the name; SOP gives the name VOP
  for a missing word.
\<close>

definition do_cs_level_cmd ::
  "cstr \<Rightarrow> cstr \<Rightarrow> nat \<Rightarrow> cscfg \<Rightarrow> int \<Rightarrow> user \<Rightarrow> cstr \<Rightarrow> ns_state \<Rightarrow> ns_state option" where
  "do_cs_level_cmd missing name what cfg now u t st =
     (let ch = word 0 t; cmd = word 1 t; n = word 2 t; key = ''CHAN_'' @ name @ ''_SYNTAX''
      in if cmd = None \<or> ch = None \<or> n = None then Some (syntax_error (s_ChanServ cfg) u missing key st)
         else
           (case command_chan u ch st of
              Inl st \<Rightarrow> Some st
            | Inr ci \<Rightarrow> do {
                (ok, st) \<leftarrow> access_or_admin cfg now u (cr_id ci) CA_ACCESS_CHANGE st;
                if \<not> ok then Some (tell_user u ''ACCESS_DENIED'' [] st)
                else if opt_lower cmd \<noteq> ''add'' then Some (syntax_error (s_ChanServ cfg) u name key st)
                else do {
                  let reqlev = get_chan_level (ns_db st) (cr_id ci) what;
                  if reqlev \<le> 0 then Some (tell_user u (''CHAN_'' @ name @ ''_DISABLED'') [] st)
                  else do {
                    (ulev, st) \<leftarrow> get_access now u (cr_id ci) st;
                    if reqlev \<ge> ulev then Some (tell_user u ''PERMISSION_DENIED'' [] st)
                    else if bad_level reqlev
                    then Some (tell_user u ''CHAN_ACCESS_LEVEL_RANGE'' [show_int (ACCESS_INVALID + 1), show_int (ACCESS_FOUNDER - 1)] st)
                    else
                      (case mysql_findnickinfo (ns_db st) (the n) of
                         None \<Rightarrow> Some (tell_user u ''CHAN_ACCESS_NICKS_ONLY'' [] st)
                       | Some ni \<Rightarrow>
                           Some (if has (nr_status ni) NS_VERBOTEN then tell_user u ''NICK_X_FORBIDDEN'' [the n] st
                                 else if has (nr_flags ni) NI_NOOP then tell_user u ''NICK_X_NOOP'' [the n] st
                                 else set_access cfg now u ci ni reqlev ulev st))
                  }
                }
              }))"

definition do_cs_vop :: "cscfg \<Rightarrow> int \<Rightarrow> user \<Rightarrow> cstr \<Rightarrow> ns_state \<Rightarrow> ns_state option" where
  "do_cs_vop = do_cs_level_cmd ''VOP'' ''VOP'' CA_AUTOVOICE"

definition do_cs_aop :: "cscfg \<Rightarrow> int \<Rightarrow> user \<Rightarrow> cstr \<Rightarrow> ns_state \<Rightarrow> ns_state option" where
  "do_cs_aop = do_cs_level_cmd ''AOP'' ''AOP'' CA_AUTOOP"

definition do_cs_sop :: "cscfg \<Rightarrow> int \<Rightarrow> user \<Rightarrow> cstr \<Rightarrow> ns_state \<Rightarrow> ns_state option" where
  "do_cs_sop = do_cs_level_cmd ''VOP'' ''SOP'' CA_AKICK"

section \<open>The numbers of a list\<close>

text \<open>A list of entries is in order: numbers and pairs of a channel and a nickname do not repeat.\<close>

definition table_ok :: "access_row list \<Rightarrow> bool" where
  "table_ok t \<longleftrightarrow> acc.unique t \<and> distinct (map (\<lambda>a. (ca_chan a, ca_nick a)) t) \<and> (\<forall>a\<in>set t. 0 < ca_id a)"

text \<open>The entries of a channel are numbered from 1 without gaps, a higher level having a smaller number.\<close>

definition rows_numbered :: "access_row list \<Rightarrow> bool" where
  "rows_numbered rows \<longleftrightarrow>
     distinct (map ca_idx rows) \<and> set (map ca_idx rows) = {1..length rows} \<and>
     (\<forall>a\<in>set rows. \<forall>b\<in>set rows. ca_level b < ca_level a \<longrightarrow> ca_idx a < ca_idx b)"

definition numbered :: "nat \<Rightarrow> access_row list \<Rightarrow> bool" where
  "numbered c t \<longleftrightarrow> rows_numbered (filter (\<lambda>a. ca_chan a = c) t)"

definition renumber :: "nat \<Rightarrow> access_row list \<Rightarrow> access_row list" where
  "renumber c t = fold (\<lambda>r. replace_access (r\<lparr>ca_chan := c\<rparr>)) (private_tmp_chanaccess c t) t"

definition place :: "(nat \<times> access_row) list \<Rightarrow> access_row \<Rightarrow> access_row" where
  "place ps x = (case map_of (map (\<lambda>(i, a). (ca_id a, i)) ps) (ca_id x) of None \<Rightarrow> x | Some i \<Rightarrow> x\<lparr>ca_idx := i\<rparr>)"

lemma place_sel [simp]: "ca_id (place ps x) = ca_id x" "ca_chan (place ps x) = ca_chan x" "ca_nick (place ps x) = ca_nick x"
  "ca_level (place ps x) = ca_level x"
  by (simp_all add: place_def split: option.split)

lemma table_ok_map:
  assumes "table_ok t" and "\<And>a. ca_id (f a) = ca_id a \<and> ca_chan (f a) = ca_chan a \<and> ca_nick (f a) = ca_nick a"
  shows "table_ok (map f t)"
  using assms by (simp add: table_ok_def acc.unique_def o_def)

lemma table_ok_id: "table_ok t \<Longrightarrow> a \<in> set t \<Longrightarrow> b \<in> set t \<Longrightarrow> ca_id a = ca_id b \<Longrightarrow> a = b"
  by (metis acc.row_in option.inject table_ok_def)

lemma table_ok_key:
  assumes "table_ok t" "a \<in> set t" "b \<in> set t" "ca_chan a = ca_chan b" "ca_nick a = ca_nick b"
  shows "a = b"
  using assms inj_onD [of "\<lambda>a. (ca_chan a, ca_nick a)" "set t" a b] by (simp add: table_ok_def distinct_map)

lemma replace_own:
  assumes "table_ok t" and "a \<in> set t"
  shows "replace_access (a\<lparr>ca_idx := i\<rparr>) t = map (place [(i, a)]) t"
proof -
  have "filter (\<lambda>b. ca_id b = ca_id a \<or> \<not> (ca_chan b = ca_chan a \<and> ca_nick b = ca_nick a)) t = t"
    using assms by (intro filter_True) (auto dest: table_ok_key)
  moreover have "(if ca_id b = ca_id a then a\<lparr>ca_idx := i\<rparr> else b) = place [(i, a)] b" if "b \<in> set t" for b
    using table_ok_id [OF assms(1) that assms(2)] by (cases "ca_id b = ca_id a") (simp_all add: place_def)
  ultimately show ?thesis using assms(2) by (auto simp: replace_access_def)
qed

lemma fold_replace:
  assumes "table_ok t" and "\<forall>(i, a)\<in>set ps. a \<in> set t \<and> ca_chan a = c" and "distinct (map (ca_id \<circ> snd) ps)"
  shows "fold (\<lambda>r. replace_access (r\<lparr>ca_chan := c\<rparr>)) (map (\<lambda>(i, a). a\<lparr>ca_idx := i\<rparr>) ps) t = map (place ps) t"
  using assms
proof (induction ps arbitrary: t)
  case Nil
  then show ?case by (simp add: place_def [abs_def])
next
  case (Cons p ps)
  obtain i a where p: "p = (i, a)" by fastforce
  define t1 where "t1 = map (place [(i, a)]) t"
  have a: "a \<in> set t" "ca_chan a = c" using Cons.prems(2) by (auto simp: p)
  then have c: "a\<lparr>ca_idx := i, ca_chan := c\<rparr> = a\<lparr>ca_idx := i\<rparr>" by simp
  have ok: "table_ok t1" unfolding t1_def by (rule table_ok_map [OF Cons.prems(1)]) simp
  have "b \<in> set t1 \<and> ca_chan b = c" if "(j, b) \<in> set ps" for j b
  proof -
    have "ca_id b \<noteq> ca_id a" using Cons.prems(3) that by (force simp: p)
    then have "place [(i, a)] b = b" by (simp add: place_def)
    moreover have "b \<in> set t" "ca_chan b = c" using Cons.prems(2) that by auto
    ultimately show ?thesis unfolding t1_def by force
  qed
  then have "fold (\<lambda>r. replace_access (r\<lparr>ca_chan := c\<rparr>)) (map (\<lambda>(i, a). a\<lparr>ca_idx := i\<rparr>) ps) t1 = map (place ps) t1"
    using Cons.prems(3) by (intro Cons.IH [OF ok]) auto
  moreover have "place ps (place [(i, a)] x) = place (p # ps) x" for x
  proof (cases "ca_id x = ca_id a")
    case True
    have "map_of (map (\<lambda>(i, a). (ca_id a, i)) ps) (ca_id a) = None"
      using Cons.prems(3) by (force simp: p map_of_eq_None_iff)
    then show ?thesis using True by (simp add: place_def p)
  next
    case False
    then show ?thesis by (simp add: place_def p)
  qed
  ultimately show ?case
    using replace_own [OF Cons.prems(1) a(1), of i] by (simp add: p c t1_def)
qed

lemma place_member:
  assumes "distinct (map (ca_id \<circ> snd) ps)" and "(i, a) \<in> set ps"
  shows "place ps a = a\<lparr>ca_idx := i\<rparr>"
proof -
  have d: "distinct (map fst (map (\<lambda>(i, a). (ca_id a, i)) ps))" using assms(1) by (simp add: split_beta o_def)
  have "(ca_id a, i) \<in> set (map (\<lambda>(i, a). (ca_id a, i)) ps)" using assms(2) by force
  then have "map_of (map (\<lambda>(i, a). (ca_id a, i)) ps) (ca_id a) = Some i" by (rule map_of_is_SomeI [OF d])
  then show ?thesis by (simp add: place_def)
qed

lemma place_other: "ca_id a \<notin> ca_id ` snd ` set ps \<Longrightarrow> place ps a = a"
  by (force simp: place_def split: option.split dest: map_of_SomeD)

definition standing :: "nat \<Rightarrow> access_row list \<Rightarrow> (nat \<times> access_row) list" where
  "standing c t = enumerate 1 (sort_key (\<lambda>a. - ca_level a) (filter (\<lambda>a. ca_chan a = c) t))"

lemma snd_standing: "map snd (standing c t) = sort_key (\<lambda>a. - ca_level a) (filter (\<lambda>a. ca_chan a = c) t)"
  by (simp add: standing_def)

lemma standing_ids:
  assumes "table_ok t"
  shows "distinct (map (ca_id \<circ> snd) (standing c t))"
proof -
  have "distinct (map ca_id (filter (\<lambda>a. ca_chan a = c) t))"
    using assms by (simp add: table_ok_def acc.unique_def distinct_map_filter)
  then have "distinct (map ca_id (map snd (standing c t)))"
    unfolding snd_standing by (simp add: distinct_map inj_on_def)
  then show ?thesis by simp
qed

lemma standing_rows: "(i, a) \<in> set (standing c t) \<Longrightarrow> a \<in> set t \<and> ca_chan a = c"
proof -
  assume "(i, a) \<in> set (standing c t)"
  then have "a \<in> set (map snd (standing c t))" by force
  then show ?thesis unfolding snd_standing by simp
qed

lemma renumber_place:
  assumes "table_ok t"
  shows "renumber c t = map (place (standing c t)) t"
  unfolding renumber_def private_tmp_chanaccess_def standing_def [symmetric]
  using standing_rows by (intro fold_replace [OF assms _ standing_ids [OF assms]]) fast

lemma renumber_ok: "table_ok t \<Longrightarrow> table_ok (renumber c t)"
  by (simp add: renumber_place table_ok_map)

lemma rows_numbered_mset: "mset xs = mset ys \<Longrightarrow> rows_numbered xs = rows_numbered ys"
  unfolding rows_numbered_def
  by (metis mset_eq_imp_distinct_iff mset_eq_length mset_eq_setD mset_map)

lemma standing_numbered: "rows_numbered (map (\<lambda>(i, a). a\<lparr>ca_idx := i\<rparr>) (standing c t))"
proof -
  let ?s = "sort_key (\<lambda>a. - ca_level a) (filter (\<lambda>a. ca_chan a = c) t)"
  have i: "map ca_idx (map (\<lambda>(i, a). a\<lparr>ca_idx := i\<rparr>) (standing c t)) = [1..<Suc (length ?s)]"
  proof -
    have "map ca_idx (map (\<lambda>(i, a). a\<lparr>ca_idx := i\<rparr>) (standing c t)) = map fst (standing c t)" by (simp add: split_beta o_def)
    then show ?thesis by (simp add: standing_def)
  qed
  have s: "sorted (map (\<lambda>a. - ca_level a) ?s)" by simp
  have "j < k" if "(j, a) \<in> set (standing c t)" "(k, b) \<in> set (standing c t)" "ca_level b < ca_level a" for j k a b
  proof (rule ccontr)
    assume n: "\<not> j < k"
    have "j - 1 < length ?s" "?s ! (j - 1) = a" "k - 1 < length ?s" "?s ! (k - 1) = b"
      using that(1,2) unfolding standing_def in_set_enumerate_eq by auto
    moreover have "k - 1 \<le> j - 1" using n by simp
    ultimately have "- ca_level b \<le> - ca_level a" using sorted_nth_mono [OF s, of "k - 1" "j - 1"] by simp
    then show False using that(3) by simp
  qed
  then show ?thesis
    unfolding rows_numbered_def i by (auto simp: standing_def)
qed

lemma renumber_numbered:
  assumes "table_ok t"
  shows "numbered c (renumber c t)"
proof -
  let ?rows = "filter (\<lambda>a. ca_chan a = c) t"
  have "filter (\<lambda>a. ca_chan a = c) (renumber c t) = map (place (standing c t)) ?rows"
    by (simp add: renumber_place [OF assms] filter_map o_def)
  moreover have "mset (map (place (standing c t)) ?rows) = mset (map (place (standing c t)) (map snd (standing c t)))"
    unfolding snd_standing mset_map by simp
  moreover have "map (place (standing c t)) (map snd (standing c t)) = map (\<lambda>(i, a). a\<lparr>ca_idx := i\<rparr>) (standing c t)"
    by (auto simp: place_member [OF standing_ids [OF assms]])
  ultimately show ?thesis
    unfolding numbered_def using rows_numbered_mset standing_numbered by metis
qed

lemma renumber_others:
  assumes "table_ok t" and "d \<noteq> c"
  shows "filter (\<lambda>a. ca_chan a = d) (renumber c t) = filter (\<lambda>a. ca_chan a = d) t"
proof -
  have "place (standing c t) a = a" if "a \<in> set t" "ca_chan a = d" for a
  proof (rule place_other)
    show "ca_id a \<notin> ca_id ` snd ` set (standing c t)"
      using table_ok_id [OF assms(1) that(1)] standing_rows that(2) assms(2) by fastforce
  qed
  then have "map (place (standing c t)) (filter (\<lambda>a. ca_chan a = d) t) = filter (\<lambda>a. ca_chan a = d) t"
    by (intro map_idI) auto
  then show ?thesis by (simp add: renumber_place [OF assms(1)] filter_map o_def)
qed


section \<open>Lawful changes\<close>

text \<open>
  What the tables say apart from the time an entry was last used: the level of a nickname on a
  channel, and the number of entries of a channel.
\<close>

definition level_at :: "access_row list \<Rightarrow> nat \<Rightarrow> nat \<Rightarrow> int option" where
  "level_at t c n = map_option ca_level (sql_first (\<lambda>a. ca_nick a = n \<and> ca_chan a = c) t)"

definition entries :: "access_row list \<Rightarrow> nat \<Rightarrow> nat" where
  "entries t c = length (filter (\<lambda>a. ca_chan a = c) t)"

definition access_ok :: "sqldb \<Rightarrow> bool" where
  "access_ok db \<longleftrightarrow>
     table_ok (t_chanaccess db) \<and> 0 < next_chanaccess db \<and> (\<forall>a\<in>set (t_chanaccess db). ca_id a < next_chanaccess db)"

definition under :: "int \<Rightarrow> int option \<Rightarrow> bool" where
  "under lim l \<longleftrightarrow> (case l of None \<Rightarrow> True | Some l \<Rightarrow> l < lim)"

definition fair_level :: "bool \<Rightarrow> int option \<Rightarrow> bool" where
  "fair_level ak l \<longleftrightarrow> (case l of None \<Rightarrow> True | Some l \<Rightarrow> l \<noteq> 0 \<and> \<not> bad_level l \<and> (l < 0 \<longrightarrow> ak))"

definition rest_of :: "sqldb \<Rightarrow> sqldb" where
  "rest_of db = (forget db)\<lparr>t_chanaccess := [], next_chanaccess := 0\<rparr>"

text \<open>
  A change by a user of level \<open>lim\<close> on channel \<open>c\<close>, who may set negative levels if \<open>ak\<close>: only
  levels below \<open>lim\<close> change, to levels below \<open>lim\<close>; lists stay numbered and grow to \<open>mx\<close> at most.
\<close>

definition lawful :: "nat \<Rightarrow> int \<Rightarrow> bool \<Rightarrow> nat \<Rightarrow> sqldb \<Rightarrow> sqldb \<Rightarrow> bool" where
  "lawful mx lim ak c db db' \<longleftrightarrow>
     (let t = t_chanaccess db; t' = t_chanaccess db'
      in access_ok db' \<and> rest_of db' = rest_of db \<and>
         (\<forall>d n. level_at t' d n = level_at t d n \<or>
            d = c \<and> under lim (level_at t d n) \<and> under lim (level_at t' d n) \<and> fair_level ak (level_at t' d n)) \<and>
         (\<forall>d. numbered d t \<longrightarrow> numbered d t') \<and>
         (\<forall>d. entries t' d \<le> max (entries t d) mx))"

lemma level_at_rows: "level_at t c n = map_option ca_level (find (\<lambda>a. ca_nick a = n) (filter (\<lambda>a. ca_chan a = c) t))"
  unfolding level_at_def sql_first_def by (induction t) auto

lemma level_at_Some:
  assumes "table_ok t"
  shows "level_at t c n = Some l \<longleftrightarrow> (\<exists>a\<in>set t. ca_chan a = c \<and> ca_nick a = n \<and> ca_level a = l)"
proof
  assume "level_at t c n = Some l"
  then show "\<exists>a\<in>set t. ca_chan a = c \<and> ca_nick a = n \<and> ca_level a = l"
    by (auto simp: level_at_def dest: sql_first_Some)
next
  assume "\<exists>a\<in>set t. ca_chan a = c \<and> ca_nick a = n \<and> ca_level a = l"
  then obtain a where a: "a \<in> set t" "ca_chan a = c" "ca_nick a = n" "ca_level a = l" by blast
  then obtain b where b: "sql_first (\<lambda>a. ca_nick a = n \<and> ca_chan a = c) t = Some b"
    using sql_first_None [of "\<lambda>a. ca_nick a = n \<and> ca_chan a = c" t] by fastforce
  then have "b = a" using a sql_first_Some [OF b] by (intro table_ok_key [OF assms]) auto
  then show "level_at t c n = Some l" using b a by (simp add: level_at_def)
qed

lemma level_at_map:
  assumes "\<And>a. ca_chan (f a) = ca_chan a \<and> ca_nick (f a) = ca_nick a \<and> ca_level (f a) = ca_level a"
  shows "level_at (map f t) = level_at t"
  unfolding level_at_def sql_first_def fun_eq_iff using assms by (induction t) auto

lemma entries_map: "(\<And>a. ca_chan (f a) = ca_chan a) \<Longrightarrow> entries (map f t) = entries t"
  by (simp add: entries_def fun_eq_iff filter_map o_def)

lemma numbered_used: "numbered c (map used_acc t) = numbered c t"
  by (simp add: numbered_def rows_numbered_def filter_map o_def used_acc_def)

lemma table_ok_used: "table_ok (map used_acc t) = table_ok t"
  by (simp add: table_ok_def acc.unique_def o_def used_acc_def)

lemma same_used:
  assumes "map used_acc t' = map used_acc t"
  shows "level_at t' = level_at t" "entries t' = entries t" "numbered c t' = numbered c t" "table_ok t' = table_ok t"
    "ca_id ` set t' = ca_id ` set t"
proof -
  have "level_at (map used_acc t) = level_at t" "entries (map used_acc t) = entries t" for t
    by (simp_all add: level_at_map entries_map used_acc_def)
  then show "level_at t' = level_at t" "entries t' = entries t" using assms by metis+
  show "numbered c t' = numbered c t" "table_ok t' = table_ok t" using assms numbered_used table_ok_used by metis+
  have "ca_id ` set (map used_acc t) = ca_id ` set t" for t by (auto simp: used_acc_def image_iff)
  then show "ca_id ` set t' = ca_id ` set t" using assms by metis
qed

lemma touched_table:
  assumes "touched db db'"
  shows "level_at (t_chanaccess db') = level_at (t_chanaccess db)" "entries (t_chanaccess db') = entries (t_chanaccess db)"
    "numbered c (t_chanaccess db') = numbered c (t_chanaccess db)" "access_ok db' = access_ok db"
    "rest_of db' = rest_of db"
proof -
  note s = same_used [OF touched_fields(5) [OF assms]]
  show "level_at (t_chanaccess db') = level_at (t_chanaccess db)" "entries (t_chanaccess db') = entries (t_chanaccess db)"
    "numbered c (t_chanaccess db') = numbered c (t_chanaccess db)"
    by (rule s)+
  have f: "forget db' = forget db" using assms by (simp add: touched_def)
  have k: "next_chanaccess db' = next_chanaccess db" using arg_cong [OF f, of next_chanaccess] by (simp add: forget_def)
  have b: "(\<forall>a\<in>set t. ca_id a < k) \<longleftrightarrow> (\<forall>i\<in>ca_id ` set t. i < k)" for t k by auto
  show "access_ok db' = access_ok db" unfolding access_ok_def b k s(4,5) ..
  show "rest_of db' = rest_of db" by (simp add: rest_of_def f)
qed

lemma lawful_refl: "access_ok db \<Longrightarrow> lawful mx lim ak c db db"
  by (simp add: lawful_def)

lemma lawful_touched:
  assumes "touched db db1" and "lawful mx lim ak c db1 db'"
  shows "lawful mx lim ak c db db'"
  using assms(2) unfolding lawful_def Let_def touched_table [OF assms(1)] by blast

lemma quiet_lawful: "quiet ms s0 st \<Longrightarrow> access_ok (ns_db s0) \<Longrightarrow> lawful mx lim ak c (ns_db s0) (ns_db st)"
  using lawful_touched [OF quiet_touched, of ms s0 st mx lim ak c "ns_db st"] lawful_refl [of "ns_db st"] touched_table(4) [OF quiet_touched]
  by metis

lemma renumbered_lawful:
  fixes t'
  assumes "table_ok t'" and "0 < k" and "\<forall>a\<in>set t'. ca_id a < k"
    and d: "\<And>d. d \<noteq> c \<Longrightarrow> filter (\<lambda>a. ca_chan a = d) t' = filter (\<lambda>a. ca_chan a = d) (t_chanaccess db)"
    and n: "\<And>n. level_at t' c n = level_at (t_chanaccess db) c n \<or>
      under lim (level_at (t_chanaccess db) c n) \<and> under lim (level_at t' c n) \<and> fair_level ak (level_at t' c n)"
    and "entries t' c \<le> max (entries (t_chanaccess db) c) mx"
  shows "lawful mx lim ak c db (db\<lparr>t_chanaccess := renumber c t', next_chanaccess := k\<rparr>)"
proof -
  let ?db = "db\<lparr>t_chanaccess := renumber c t', next_chanaccess := k\<rparr>"
  note p = renumber_place [OF assms(1), of c]
  have "access_ok ?db" using assms(1-3) renumber_ok [OF assms(1), of c] by (simp add: access_ok_def) (auto simp: p)
  moreover have "rest_of ?db = rest_of db" by (simp add: rest_of_def forget_def)
  moreover have lv: "level_at (renumber c t') = level_at t'" by (simp add: p level_at_map)
  then have "level_at (renumber c t') e m = level_at (t_chanaccess db) e m \<or>
      e = c \<and> under lim (level_at (t_chanaccess db) e m) \<and> under lim (level_at (renumber c t') e m) \<and>
      fair_level ak (level_at (renumber c t') e m)" for e m
    using n d by (cases "e = c") (simp, simp add: level_at_rows)
  moreover have "numbered e (t_chanaccess db) \<longrightarrow> numbered e (renumber c t')" for e
    using renumber_numbered [OF assms(1)] renumber_others [OF assms(1), of e c] d by (cases "e = c") (simp_all add: numbered_def)
  moreover have "entries (renumber c t') = entries t'" by (simp add: p entries_map)
  then have "entries (renumber c t') e \<le> max (entries (t_chanaccess db) e) mx" for e
    using d assms(6) by (cases "e = c") (simp_all add: entries_def)
  ultimately show ?thesis unfolding lawful_def Let_def by simp
qed

lemma msg_db [simp]: "ns_db (tell_user u key args st) = ns_db st" "ns_db (opnotice ch t st) = ns_db st"
  "ns_db (verbose c name t st) = ns_db st" "ns_db (syntax_error sv u command key st) = ns_db st"
  by (simp_all add: tell_user_def opnotice_def verbose_def syntax_error_def say_def)

lemma upd_access_db: "ns_db (upd_access f st) = (ns_db st)\<lparr>t_chanaccess := f (t_chanaccess (ns_db st))\<rparr>"
  by (simp add: upd_access_def)

lemma sort_db: "ns_db (sort_chan_access c st) = (ns_db st)\<lparr>t_chanaccess := renumber c (t_chanaccess (ns_db st))\<rparr>"
  by (simp add: sort_chan_access_def upd_access_db renumber_def)


lemma level_at_eqI:
  assumes "table_ok t" and "table_ok t'"
    and "\<And>l. (\<exists>a\<in>set t'. ca_chan a = c \<and> ca_nick a = n \<and> ca_level a = l) \<longleftrightarrow>
              (\<exists>a\<in>set t. ca_chan a = c \<and> ca_nick a = n \<and> ca_level a = l)"
  shows "level_at t' c n = level_at t c n"
  using assms(3) unfolding level_at_Some [OF assms(1), symmetric] level_at_Some [OF assms(2), symmetric]
  by (metis option.exhaust)

lemma same_next: "(db :: sqldb)\<lparr>t_chanaccess := t, next_chanaccess := next_chanaccess db\<rparr> = db\<lparr>t_chanaccess := t\<rparr>"
  by (cases db) simp

lemma modify_lawful:
  assumes ok: "access_ok (ns_db st)" and ca: "ca \<in> set (t_chanaccess (ns_db st))" "ca_chan ca = c"
    and l: "ca_level ca < lim" "level < lim" "fair_level ak (Some level)"
  shows "lawful mx lim ak c (ns_db st) (ns_db (modify_access now ca c level u st))"
proof -
  define t where "t = t_chanaccess (ns_db st)"
  define f :: "access_row \<Rightarrow> access_row" where "f = (if ca_added_by ca \<noteq> []
     then (\<lambda>a. a\<lparr>ca_level := level, ca_last_modified := now, ca_modified_by := u_nick u\<rparr>)
     else (\<lambda>a. a\<lparr>ca_level := level, ca_added := now, ca_last_modified := now, ca_added_by := u_nick u,
                  ca_modified_by := u_nick u\<rparr>))"
  define g where "g = (\<lambda>a. if ca_id a = ca_id ca \<and> ca_chan a = c then f a else a)"
  have g: "ca_id (g a) = ca_id a \<and> ca_chan (g a) = ca_chan a \<and> ca_nick (g a) = ca_nick a" for a
    by (simp add: g_def f_def)
  have t: "table_ok t" using ok by (simp add: access_ok_def t_def)
  then have t': "table_ok (map g t)" using g by (rule table_ok_map)
  have other: "g a = a" if "a \<in> set t" "ca_chan a = c \<longrightarrow> ca_nick a \<noteq> ca_nick ca" for a
    using table_ok_id [OF t that(1), of ca] that(2) ca by (auto simp: g_def t_def)
  have "ns_db (modify_access now ca c level u st) =
      (ns_db st)\<lparr>t_chanaccess := renumber c (map g t), next_chanaccess := next_chanaccess (ns_db st)\<rparr>"
    unfolding same_next
    by (cases "ca_added_by ca = []") (simp_all add: modify_access_def Let_def sort_db upd_access_db sql_update_def g_def f_def t_def cong: if_cong)
  also have "lawful mx lim ak c (ns_db st) \<dots>"
  proof (rule renumbered_lawful)
    show "0 < next_chanaccess (ns_db st)" "\<forall>a\<in>set (map g t). ca_id a < next_chanaccess (ns_db st)"
      using ok g by (auto simp: access_ok_def t_def)
    show "filter (\<lambda>a. ca_chan a = d) (map g t) = filter (\<lambda>a. ca_chan a = d) (t_chanaccess (ns_db st))" if "d \<noteq> c" for d
      using other that g unfolding filter_map o_def t_def [symmetric] by (auto intro!: map_idI)
    show "entries (map g t) c \<le> max (entries (t_chanaccess (ns_db st)) c) mx" using g by (simp add: entries_map t_def)
  next
    fix n
    show "level_at (map g t) c n = level_at (t_chanaccess (ns_db st)) c n \<or>
      under lim (level_at (t_chanaccess (ns_db st)) c n) \<and> under lim (level_at (map g t) c n) \<and> fair_level ak (level_at (map g t) c n)"
    proof (cases "n = ca_nick ca")
      case True
      have "g ca \<in> set (map g t)" "ca_level (g ca) = level" using ca by (auto simp: t_def g_def f_def)
      then have "level_at (map g t) c n = Some level" unfolding level_at_Some [OF t'] using True ca(2) g by blast
      moreover have "level_at t c n = Some (ca_level ca)" unfolding level_at_Some [OF t] using True ca t_def by blast
      ultimately show ?thesis using l by (simp add: t_def under_def)
    next
      case False
      have "level_at (map g t) c n = level_at t c n"
        using False other g by (intro level_at_eqI [OF t t']) (metis (no_types, lifting) image_iff list.set_map)
      then show ?thesis by (simp add: t_def)
    qed
  qed (rule t')
  finally show ?thesis .
qed

lemma insert_lawful:
  assumes ok: "access_ok (ns_db st)" and new: "get_chanaccess_from_nickid (ns_db st) i c = None"
    and l: "level < lim" "fair_level ak (Some level)" and mx: "chanaccess_count (ns_db st) c < mx"
  shows "lawful mx lim ak c (ns_db st) (ns_db (insert_access now c i level u st))"
proof -
  define t where "t = t_chanaccess (ns_db st)"
  define k where "k = next_chanaccess (ns_db st)"
  define r where "r = \<lparr>ca_id = k, ca_chan = c, ca_idx = 0, ca_level = level, ca_nick = i, ca_added = now,
     ca_last_modified = now, ca_last_used = 0, ca_memo_read = 0, ca_added_by = u_nick u, ca_modified_by = u_nick u\<rparr>"
  have r: "ca_id r = k" "ca_chan r = c" "ca_nick r = i" "ca_level r = level" by (simp_all add: r_def)
  have t: "table_ok t" and k: "0 < k" "\<forall>a\<in>set t. ca_id a < k" using ok by (simp_all add: access_ok_def t_def k_def)
  have fresh: "\<forall>a\<in>set t. \<not> (ca_nick a = i \<and> ca_chan a = c)"
    using new by (simp add: get_chanaccess_from_nickid_def sql_first_None t_def)
  have t': "table_ok (t @ [r])" using t k fresh by (auto simp: table_ok_def acc.unique_def r)
  have "ns_db (insert_access now c i level u st) = (ns_db st)\<lparr>t_chanaccess := renumber c (t @ [r]), next_chanaccess := Suc k\<rparr>"
    by (simp add: insert_access_def Let_def sort_db upd_access_db t_def k_def r_def)
  also have "lawful mx lim ak c (ns_db st) \<dots>"
  proof (rule renumbered_lawful)
    show "\<forall>a\<in>set (t @ [r]). ca_id a < Suc k" using k by (auto simp: r)
    show "filter (\<lambda>a. ca_chan a = d) (t @ [r]) = filter (\<lambda>a. ca_chan a = d) (t_chanaccess (ns_db st))" if "d \<noteq> c" for d
      using that by (simp add: r t_def)
    show "entries (t @ [r]) c \<le> max (entries (t_chanaccess (ns_db st)) c) mx"
      using mx by (simp add: entries_def chanaccess_count_def t_def r)
  next
    fix n
    show "level_at (t @ [r]) c n = level_at (t_chanaccess (ns_db st)) c n \<or>
      under lim (level_at (t_chanaccess (ns_db st)) c n) \<and> under lim (level_at (t @ [r]) c n) \<and> fair_level ak (level_at (t @ [r]) c n)"
    proof (cases "n = i")
      case True
      have "level_at (t @ [r]) c n = Some level" unfolding level_at_Some [OF t'] using True r by auto
      moreover have "level_at t c n = None" using fresh True by (auto simp: level_at_def sql_first_None)
      ultimately show ?thesis using l by (simp add: t_def under_def)
    next
      case False
      have "level_at (t @ [r]) c n = level_at t c n" using False r by (intro level_at_eqI [OF t t']) auto
      then show ?thesis by (simp add: t_def)
    qed
  qed (use t' in simp_all)
  finally show ?thesis .
qed

lemma filter_lawful:
  assumes ok: "access_ok db" and P: "\<And>a. a \<in> set (t_chanaccess db) \<Longrightarrow> \<not> P a \<Longrightarrow> ca_chan a = c \<and> ca_level a < lim"
  shows "lawful mx lim ak c db (db\<lparr>t_chanaccess := renumber c (filter P (t_chanaccess db))\<rparr>)"
proof -
  define t where "t = t_chanaccess db"
  have t: "table_ok t" using ok by (simp add: access_ok_def t_def)
  then have t': "table_ok (filter P t)" by (simp add: table_ok_def acc.unique_def distinct_map_filter)
  have "lawful mx lim ak c db (db\<lparr>t_chanaccess := renumber c (filter P t), next_chanaccess := next_chanaccess db\<rparr>)"
  proof (rule renumbered_lawful [OF t'])
    show "0 < next_chanaccess db" "\<forall>a\<in>set (filter P t). ca_id a < next_chanaccess db"
      using ok by (simp_all add: access_ok_def t_def)
    show "filter (\<lambda>a. ca_chan a = d) (filter P t) = filter (\<lambda>a. ca_chan a = d) (t_chanaccess db)" if "d \<noteq> c" for d
      unfolding filter_filter t_def [symmetric] using P that by (intro filter_cong) (auto simp: t_def)
    have "entries (filter P t) c \<le> entries t c"
    proof -
      have "filter (\<lambda>a. ca_chan a = c) (filter P t) = filter P (filter (\<lambda>a. ca_chan a = c) t)"
        by (simp add: conj_commute)
      then show ?thesis unfolding entries_def by (metis length_filter_le)
    qed
    then show "entries (filter P t) c \<le> max (entries (t_chanaccess db) c) mx" by (simp add: t_def)
  next
    fix n
    show "level_at (filter P t) c n = level_at (t_chanaccess db) c n \<or>
      under lim (level_at (t_chanaccess db) c n) \<and> under lim (level_at (filter P t) c n) \<and> fair_level ak (level_at (filter P t) c n)"
    proof (cases "\<exists>a\<in>set t. ca_chan a = c \<and> ca_nick a = n \<and> \<not> P a")
      case True
      then obtain a where a: "a \<in> set t" "ca_chan a = c" "ca_nick a = n" "\<not> P a" by blast
      then have "level_at t c n = Some (ca_level a)" "ca_level a < lim"
        unfolding level_at_Some [OF t] using P [of a] by (auto simp: t_def)
      moreover have "level_at (filter P t) c n = None"
      proof -
        have "\<not> (ca_nick b = n \<and> ca_chan b = c)" if "b \<in> set t" "P b" for b
          using table_ok_key [OF t that(1) a(1)] a that(2) by metis
        then show ?thesis by (simp add: level_at_def sql_first_None)
      qed
      ultimately show ?thesis by (simp add: t_def under_def fair_level_def)
    next
      case False
      then have "level_at (filter P t) c n = level_at t c n" by (intro level_at_eqI [OF t t']) auto
      then show ?thesis by (simp add: t_def)
    qed
  qed
  then show ?thesis by (simp add: t_def same_next)
qed


section \<open>Removing a list of entries\<close>

definition removable :: "int \<Rightarrow> int \<Rightarrow> access_row \<Rightarrow> bool" where
  "removable lim akl a \<longleftrightarrow> ca_level a < lim \<and> (ca_level a < 0 \<longrightarrow> akl < lim)"

text \<open>Numbers do not repeat on the channel, and every entry has its nickname.\<close>

definition tidy :: "nat \<Rightarrow> sqldb \<Rightarrow> bool" where
  "tidy c db \<longleftrightarrow> distinct (map ca_idx (filter (\<lambda>a. ca_chan a = c) (t_chanaccess db))) \<and>
     (\<forall>a\<in>set (t_chanaccess db). ca_nick a \<in> nr_id ` set (t_nick db))"

text \<open>The tables after the callback has seen the numbers \<open>js\<close> and removed \<open>k\<close> entries.\<close>

definition cut :: "sqldb \<Rightarrow> nat \<Rightarrow> int \<Rightarrow> int \<Rightarrow> nat list \<Rightarrow> nat \<Rightarrow> sqldb \<Rightarrow> bool" where
  "cut db c lim akl js k db' \<longleftrightarrow>
     (\<exists>P. db' = db\<lparr>t_chanaccess := filter P (t_chanaccess db)\<rparr> \<and>
        (\<forall>a\<in>set (t_chanaccess db). \<not> P a \<longrightarrow> ca_chan a = c \<and> removable lim akl a) \<and>
        (k = 0 \<longrightarrow> filter P (t_chanaccess db) = t_chanaccess db) \<and>
        (tidy c db \<longrightarrow> (\<forall>a\<in>set (t_chanaccess db). P a \<longleftrightarrow> \<not> (ca_chan a = c \<and> ca_idx a \<in> set js \<and> removable lim akl a))))"

lemma access_with_nick_set:
  "(a, r) \<in> set (access_with_nick db c) \<longleftrightarrow>
     a \<in> set (t_chanaccess db) \<and> ca_chan a = c \<and> r \<in> set (t_nick db) \<and> nr_id r = ca_nick a"
  by (auto simp: access_with_nick_def)

lemma tidy_idx:
  assumes "tidy c db" "a \<in> set (t_chanaccess db)" "b \<in> set (t_chanaccess db)" "ca_chan a = c" "ca_chan b = c"
    "ca_idx a = ca_idx b"
  shows "a = b"
  using assms inj_onD [of ca_idx "set (filter (\<lambda>a. ca_chan a = c) (t_chanaccess db))" a b] by (simp add: tidy_def distinct_map)

lemma cut_none:
  assumes "cut db c lim akl js k db'" and "\<And>a. tidy c db \<Longrightarrow> a \<in> set (t_chanaccess db') \<Longrightarrow> ca_chan a = c \<Longrightarrow> ca_idx a = i \<Longrightarrow>
      \<not> removable lim akl a"
  shows "cut db c lim akl (js @ [i]) k db'"
proof -
  obtain P where P: "db' = db\<lparr>t_chanaccess := filter P (t_chanaccess db)\<rparr>"
    "\<forall>a\<in>set (t_chanaccess db). \<not> P a \<longrightarrow> ca_chan a = c \<and> removable lim akl a"
    "k = 0 \<longrightarrow> filter P (t_chanaccess db) = t_chanaccess db"
    "tidy c db \<longrightarrow> (\<forall>a\<in>set (t_chanaccess db). P a \<longleftrightarrow> \<not> (ca_chan a = c \<and> ca_idx a \<in> set js \<and> removable lim akl a))"
    using assms(1) unfolding cut_def by blast
  have "P a \<longleftrightarrow> \<not> (ca_chan a = c \<and> ca_idx a \<in> set (js @ [i]) \<and> removable lim akl a)"
    if "tidy c db" "a \<in> set (t_chanaccess db)" for a
    using assms(2) [OF that(1), of a] P(4) that by (auto simp: P(1))
  then show ?thesis unfolding cut_def using P by (intro exI [of _ P]) blast
qed

lemma callback_cut:
  assumes ok: "table_ok (t_chanaccess db)" and i: "1 \<le> i" and cut: "cut db c lim akl js k (ns_db st)"
  shows "case access_del_callback u c lim akl i (perm, lst, st) of
    (res, perm, lst, st) \<Rightarrow> (res = 0 \<or> res = 1) \<and> cut db c lim akl (js @ [i]) (k + nat res) (ns_db st)"
proof -
  obtain P where P: "ns_db st = db\<lparr>t_chanaccess := filter P (t_chanaccess db)\<rparr>"
    "\<forall>a\<in>set (t_chanaccess db). \<not> P a \<longrightarrow> ca_chan a = c \<and> removable lim akl a"
    "tidy c db \<longrightarrow> (\<forall>a\<in>set (t_chanaccess db). P a \<longleftrightarrow> \<not> (ca_chan a = c \<and> ca_idx a \<in> set js \<and> removable lim akl a))"
    using cut unfolding cut_def by blast
  define found where "found = filter (\<lambda>(a, r). ca_idx a = i) (access_with_nick (ns_db st) c)"
  have mem: "(a, r) \<in> set found \<longleftrightarrow> a \<in> set (t_chanaccess (ns_db st)) \<and> ca_chan a = c \<and> ca_idx a = i \<and>
      r \<in> set (t_nick db) \<and> nr_id r = ca_nick a" for a r
    by (auto simp: found_def access_with_nick_set P(1))
  have sub: "set (t_chanaccess (ns_db st)) \<subseteq> set (t_chanaccess db)" by (auto simp: P(1))
  define out where "out = (\<lambda>(a :: access_row) (r :: nick_row). verbose c (get_chan_name (ns_db st) c) (removal u (nr_nick r) (ca_level a)) (delete_access (ca_id a) st))"
  have cb: "access_del_callback u c lim akl i (perm, lst, st) =
      (case found of [] \<Rightarrow> (0, perm, i, st)
       | (a, r) # _ \<Rightarrow>
           if ca_id a = 0 then (0, perm, i, st)
           else if lim \<le> ca_level a \<or> (ca_level a < 0 \<and> lim \<le> akl) then (0, wrap32 (perm + 1), i, st)
           else (1, perm, i, out a r))"
    using i unfolding access_del_callback_def found_def out_def by simp
  have out: "ns_db (out a r) = ns_db (delete_access (ca_id a) st)" for a r by (simp add: out_def)
  show ?thesis
  proof (cases found)
    case Nil
    have "\<not> removable lim akl a" if "tidy c db" "a \<in> set (t_chanaccess (ns_db st))" "ca_chan a = c" "ca_idx a = i" for a
    proof -
      have "ca_nick a \<in> nr_id ` set (t_nick db)" using that(1,2) sub by (auto simp: tidy_def)
      then have "\<exists>r. (a, r) \<in> set found" using that(2-4) by (fastforce simp: mem)
      then show ?thesis using Nil by simp
    qed
    then have "cut db c lim akl (js @ [i]) k (ns_db st)" by (rule cut_none [OF cut])
    then show ?thesis unfolding cb Nil by simp
  next
    case (Cons p ps)
    obtain a r where p: "p = (a, r)" by fastforce
    have a: "a \<in> set (t_chanaccess db)" "P a" "ca_chan a = c" "ca_idx a = i"
      using mem [of a r] Cons p by (auto simp: P(1))
    then have "ca_id a \<noteq> 0" using ok by (auto simp: table_ok_def)
    show ?thesis
    proof (cases "removable lim akl a")
      case False
      have "b = a" if "tidy c db" "b \<in> set (t_chanaccess (ns_db st))" "ca_chan b = c" "ca_idx b = i" for b
        using tidy_idx [OF that(1) subsetD [OF sub that(2)] a(1) that(3) a(3)] that(4) a(4) by simp
      then have "cut db c lim akl (js @ [i]) k (ns_db st)" using False by (intro cut_none [OF cut]) blast
      then show ?thesis
        using False \<open>ca_id a \<noteq> 0\<close> by (auto simp: cb Cons p removable_def not_less)
    next
      case True
      define Q where "Q x \<longleftrightarrow> P x \<and> ca_id x \<noteq> ca_id a" for x
      have only: "x = a" if "x \<in> set (t_chanaccess db)" "ca_id x = ca_id a" for x
        using table_ok_id [OF ok that(1) a(1) that(2)] .
      have q: "ns_db (delete_access (ca_id a) st) = db\<lparr>t_chanaccess := filter Q (t_chanaccess db)\<rparr>"
        by (simp add: delete_access_def upd_access_db P(1) sql_delete_def Q_def [abs_def] conj_commute)
      have r: "ca_chan x = c \<and> removable lim akl x" if "x \<in> set (t_chanaccess db)" "\<not> Q x" for x
        using that P(2) only [OF that(1)] a(3) True unfolding Q_def by blast
      have e: "Q x \<longleftrightarrow> \<not> (ca_chan x = c \<and> ca_idx x \<in> set (js @ [i]) \<and> removable lim akl x)"
        if "tidy c db" "x \<in> set (t_chanaccess db)" for x
      proof -
        have "P x \<longleftrightarrow> \<not> (ca_chan x = c \<and> ca_idx x \<in> set js \<and> removable lim akl x)" using P(3) that by blast
        moreover have "ca_id x = ca_id a \<longleftrightarrow> ca_chan x = c \<and> ca_idx x = i"
          using only [OF that(2)] tidy_idx [OF that a(1) _ a(3)] a(3,4) by metis
        moreover have "ca_id x = ca_id a \<Longrightarrow> removable lim akl x" using only [OF that(2)] True by blast
        ultimately show ?thesis unfolding Q_def by auto
      qed
      have "cut db c lim akl (js @ [i]) (k + 1) (ns_db (delete_access (ca_id a) st))"
        unfolding cut_def by (intro exI [of _ Q] conjI q ballI impI r [THEN conjunct1] r [THEN conjunct2] e) simp_all
      then show ?thesis
        using True \<open>ca_id a \<noteq> 0\<close> by (auto simp: cb Cons p removable_def out not_less)
    qed
  qed
qed

lemma cut_start: "cut db c lim akl [] 0 db"
  unfolding cut_def by (rule exI [of _ "\<lambda>_. True"]) simp


section \<open>The commands are lawful\<close>

text \<open>\<open>lands N m Q\<close>: the state after \<open>m\<close> satisfies \<open>Q\<close>, and \<open>N\<close> if there is none.\<close>

definition lands :: "bool \<Rightarrow> 's option \<Rightarrow> ('s \<Rightarrow> bool) \<Rightarrow> bool" where
  "lands N m Q \<longleftrightarrow> (case m of None \<Rightarrow> N | Some s \<Rightarrow> Q s)"

lemma lands_Some [simp]: "lands N (Some s) Q = Q s"
  by (simp add: lands_def)

lemma lands_bind: "yields m (\<lambda>x s. lands N (f x s) Q) \<Longrightarrow> lands N (Option.bind m (\<lambda>(x, s). f x s)) Q"
  by (cases m) (auto simp: yields_def)

lemma landsD: "lands False m Q \<Longrightarrow> \<exists>s. m = Some s \<and> Q s"
  by (cases m) (auto simp: lands_def)

lemma lands_mono: "lands N m P \<Longrightarrow> (N \<Longrightarrow> N') \<Longrightarrow> (\<And>s. P s \<Longrightarrow> Q s) \<Longrightarrow> lands N' m Q"
  by (cases m) (auto simp: lands_def)

lemma get_access_lands:
  assumes "quiet ms s0 st" and "known (ns_db s0) u"
    and "\<And>st'. quiet ms s0 st' \<Longrightarrow> lands N (f (access_of (ns_db s0) u c) st') Q"
  shows "lands N (Option.bind (get_access now u c st) (\<lambda>(x, s). f x s)) Q"
  by (rule lands_bind) (use assms in \<open>auto intro: get_access_yields\<close>)

text \<open>What is fixed while a command runs: the rights of the user and the tables it started from.\<close>

definition law :: "cscfg \<Rightarrow> user \<Rightarrow> nat \<Rightarrow> ns_state \<Rightarrow> ns_state \<Rightarrow> bool" where
  "law cfg u c st st' \<longleftrightarrow>
     lawful (CSAccessMax cfg) (access_of (ns_db st) u c) (allowed (ns_db st) u c CA_AKICK) c (ns_db st) (ns_db st')"

lemma law_quiet: "quiet ms st st' \<Longrightarrow> access_ok (ns_db st) \<Longrightarrow> law cfg u c st st'"
  unfolding law_def by (rule quiet_lawful)

lemma law_db: "ns_db st'' = ns_db st' \<Longrightarrow> law cfg u c st st' \<Longrightarrow> law cfg u c st st''"
  by (simp add: law_def)

lemma law_message [simp]: "law cfg u c st (tell_user v key args st') = law cfg u c st st'"
  "law cfg u c st (syntax_error sv v command key st') = law cfg u c st st'"
  by (simp_all add: law_def)

lemma set_access_law:
  assumes q: "quiet ms s0 st" and ok: "access_ok (ns_db s0)"
    and l: "level < access_of (ns_db s0) u (cr_id ci)" "fair_level (allowed (ns_db s0) u (cr_id ci) CA_AKICK) (Some level)"
  shows "law cfg u (cr_id ci) s0 (set_access cfg now u ci ni level (access_of (ns_db s0) u (cr_id ci)) st)"
proof -
  have ok1: "access_ok (ns_db st)" using touched_table(4) [OF quiet_touched [OF q]] ok by simp
  note lift = lawful_touched [OF quiet_touched [OF q]]
  have same: "law cfg u (cr_id ci) s0 st" using q ok by (rule law_quiet)
  show ?thesis
  proof (cases "get_chanaccess_from_nickid (ns_db st) (nr_id ni) (cr_id ci)")
    case None
    then show ?thesis
      using insert_lawful [OF ok1 None l, of "CSAccessMax cfg" now u] same
      by (auto simp: set_access_def law_def intro: lift)
  next
    case (Some ca)
    then have ca: "ca \<in> set (t_chanaccess (ns_db st))" "ca_chan ca = cr_id ci"
      using sql_first_Some by (fastforce simp: get_chanaccess_from_nickid_def)+
    show ?thesis
      using modify_lawful [OF ok1 ca _ l, of "CSAccessMax cfg" now u] same Some
      by (auto simp: set_access_def law_def intro: lift)
  qed
qed

lemma delete_law:
  assumes q: "quiet ms s0 st" and ok: "access_ok (ns_db s0)"
    and P: "\<And>a. a \<in> set (t_chanaccess (ns_db st)) \<Longrightarrow> \<not> P a \<Longrightarrow> ca_chan a = c \<and> ca_level a < access_of (ns_db s0) u c"
    and st': "ns_db st' = (ns_db st)\<lparr>t_chanaccess := renumber c (filter P (t_chanaccess (ns_db st)))\<rparr>"
  shows "law cfg u c s0 st'"
proof -
  have "access_ok (ns_db st)" using touched_table(4) [OF quiet_touched [OF q]] ok by simp
  from lawful_touched [OF quiet_touched [OF q] filter_lawful [OF this P]] show ?thesis by (simp add: law_def st')
qed

lemma do_cs_access_add_law:
  assumes q: "quiet [] s0 st" and k: "known (ns_db s0) u" and ok: "access_ok (ns_db s0)"
  shows "lands False (do_cs_access_add cfg now u ci n s st) (law cfg u (cr_id ci) s0)"
proof -
  define lim where "lim = access_of (ns_db s0) u (cr_id ci)"
  define level where "level = atoi s"
  define end_add where "end_add st' =
     (let i = mysql_findnick (ns_db st') n
      in case (if i = 0 then None else get_nickinfo_from_id (ns_db st') i) of
           None \<Rightarrow> Some (tell_user u ''CHAN_ACCESS_NICKS_ONLY'' [] st')
         | Some ni \<Rightarrow>
             Some (if has (nr_status ni) NS_VERBOTEN then tell_user u ''NICK_X_FORBIDDEN'' [n] st'
                   else if has (nr_flags ni) NI_NOOP then tell_user u ''NICK_X_NOOP'' [n] st'
                   else set_access cfg now u ci ni level lim st'))" for st'
  have quiet_law: "quiet [] s0 st' \<Longrightarrow> law cfg u (cr_id ci) s0 st'" for st' using law_quiet ok by blast
  have last: "lands False (end_add st') (law cfg u (cr_id ci) s0)"
    if "quiet [] s0 st'" "level \<noteq> 0" "\<not> bad_level level" "level < lim" "level < 0 \<longrightarrow> allowed (ns_db s0) u (cr_id ci) CA_AKICK" for st'
    using that set_access_law [OF that(1) ok, of level u ci cfg now] quiet_law [OF that(1)]
    by (auto simp: end_add_def Let_def lim_def fair_level_def split: option.split)
  show ?thesis
    unfolding do_cs_access_add_def Let_def level_def [symmetric]
  proof (rule get_access_lands [OF q k], unfold lim_def [symmetric])
    fix st1 assume q1: "quiet [] s0 st1"
    have akick: "lands False
        (Option.bind (if level < 0 then check_access now u (cr_id ci) CA_AKICK st1 else Some (True, st1))
          (\<lambda>(akick, st). if \<not> akick then Some (tell_user u ''ACCESS_DENIED'' [] st) else end_add st))
        (law cfg u (cr_id ci) s0)"
      if "level \<noteq> 0" "\<not> bad_level level" "level < lim"
    proof (rule lands_bind, cases "level < 0")
      case True
      show "yields (if level < 0 then check_access now u (cr_id ci) CA_AKICK st1 else Some (True, st1))
          (\<lambda>akick st. lands False (if \<not> akick then Some (tell_user u ''ACCESS_DENIED'' [] st) else end_add st)
            (law cfg u (cr_id ci) s0))"
        unfolding if_P [OF True]
        by (rule check_access_yields [OF q1 k]) (use quiet_law last that in auto)
    next
      case False
      then show "yields (if level < 0 then check_access now u (cr_id ci) CA_AKICK st1 else Some (True, st1))
          (\<lambda>akick st. lands False (if \<not> akick then Some (tell_user u ''ACCESS_DENIED'' [] st) else end_add st)
            (law cfg u (cr_id ci) s0))"
        using last [OF q1] that by simp
    qed
    then show "lands False
        (if level = 0 then Some (tell_user u ''CHAN_ACCESS_LEVEL_NONZERO'' [] st1)
         else if bad_level level
         then Some (tell_user u ''CHAN_ACCESS_LEVEL_RANGE'' [show_int (ACCESS_INVALID + 1), show_int (ACCESS_FOUNDER - 1)] st1)
         else if lim \<le> level then Some (tell_user u ''ACCESS_DENIED'' [] st1)
         else Option.bind (if level < 0 then check_access now u (cr_id ci) CA_AKICK st1 else Some (True, st1))
          (\<lambda>(akick, st). if \<not> akick then Some (tell_user u ''ACCESS_DENIED'' [] st) else
            (case (if mysql_findnick (ns_db st) n = 0 then None else get_nickinfo_from_id (ns_db st) (mysql_findnick (ns_db st) n)) of
               None \<Rightarrow> Some (tell_user u ''CHAN_ACCESS_NICKS_ONLY'' [] st)
             | Some ni \<Rightarrow>
                 Some (if has (nr_status ni) NS_VERBOTEN then tell_user u ''NICK_X_FORBIDDEN'' [n] st
                       else if has (nr_flags ni) NI_NOOP then tell_user u ''NICK_X_NOOP'' [n] st
                       else set_access cfg now u ci ni level lim st))))
        (law cfg u (cr_id ci) s0)"
      using quiet_law [OF q1] unfolding end_add_def Let_def by simp
  qed
qed


text \<open>The callback over a list, with the arguments each call finds.\<close>

definition args_last :: "va_passing \<Rightarrow> nat list \<Rightarrow> bool" where
  "args_last va js \<longleftrightarrow> va = ByValue \<or> length js < 2"

lemma numlist_cut:
  fixes n :: cstr and mx :: nat
  defines "js \<equiv> numlist_set n 1 mx"
  assumes "table_ok (t_chanaccess (ns_db st))"
  shows "\<exists>k v. process_numlist n 1 mx (with_args va (access_del_callback u c lim akl)) (Intact (perm, lst, st)) =
      Some (int k, int (length js), v) \<and>
    (if args_last va js
     then \<exists>perm' lst' st'. args_state v = Some (perm', lst', st') \<and> cut (ns_db st) c lim akl js k (ns_db st')
     else args_state v = None)"
proof -
  define I where "I is k v \<longleftrightarrow>
    (if args_last va is
     then \<exists>p l st'. cut (ns_db st) c lim akl is k (ns_db st') \<and>
       v = (if va = ByValue \<or> is = [] then Intact (p, l, st') else Spent (p, l, st'))
     else v = Lost)" for "is" k and v :: "del_state va_state"
  have "\<exists>k v. process_numlist n 1 mx (with_args va (access_del_callback u c lim akl)) (Intact (perm, lst, st)) =
      Some (int k, int (length js), v) \<and> I js k v"
    unfolding js_def
  proof (rule process_numlist_inv)
    fix "is" k i and v :: "del_state va_state"
    assume I: "I is k v" and i: "i \<in> set (numlist_set n 1 mx)"
    show "case with_args va (access_del_callback u c lim akl) i v of
      (res, v') \<Rightarrow> (res = 0 \<or> res = 1) \<and> I (is @ [i]) (k + nat res) v'"
    proof (cases "args_last va (is @ [i])")
      case True
      then obtain p l st' where v: "v = Intact (p, l, st')" "cut (ns_db st) c lim akl is k (ns_db st')"
        using I by (auto simp: I_def args_last_def split: if_splits)
      show ?thesis
        using callback_cut [OF assms(2) _ v(2), of i u p l] numlist_set_range [OF i] True by (auto simp: v(1) I_def)
    next
      case False
      show ?thesis
      proof (cases v)
        case (Intact s)
        then have "False" using I False by (auto simp: I_def args_last_def split: if_splits)
        then show ?thesis ..
      qed (use False in \<open>simp_all add: I_def\<close>)
    qed
  qed (simp add: I_def args_last_def cut_start)
  then show ?thesis unfolding I_def by (fastforce split: if_splits)
qed

text \<open>DEL with a list: what is left, and that the list is numbered again.\<close>

definition deleted_list :: "nat \<Rightarrow> int \<Rightarrow> int \<Rightarrow> nat list \<Rightarrow> sqldb \<Rightarrow> sqldb \<Rightarrow> bool" where
  "deleted_list c lim akl js db db' \<longleftrightarrow>
     (\<forall>a\<in>set (t_chanaccess db). ca_chan a = c \<longrightarrow>
        level_at (t_chanaccess db') c (ca_nick a) = (if ca_idx a \<in> set js \<and> removable lim akl a then None else Some (ca_level a)))"

lemma used_all: "map used_acc t' = map used_acc t \<Longrightarrow> (\<And>a. F (used_acc a) = F a) \<Longrightarrow> (\<forall>a\<in>set t'. F a) = (\<forall>a\<in>set t. F a)"
proof -
  assume m: "map used_acc t' = map used_acc t" and F: "\<And>a. F (used_acc a) = F a"
  have "(\<forall>a\<in>set (map used_acc x). F a) = (\<forall>a\<in>set x. F a)" for x using F by simp
  then show ?thesis using m by metis
qed

lemma touched_tidy: "touched db db' \<Longrightarrow> tidy c db' = tidy c db"
proof -
  assume t: "touched db db'"
  have "map ca_idx (filter (\<lambda>a. ca_chan a = c) (map used_acc x)) = map ca_idx (filter (\<lambda>a. ca_chan a = c) x)" for x
    by (simp add: filter_map o_def used_acc_def)
  then have "map ca_idx (filter (\<lambda>a. ca_chan a = c) (t_chanaccess db')) = map ca_idx (filter (\<lambda>a. ca_chan a = c) (t_chanaccess db))"
    using touched_fields(5) [OF t] by metis
  moreover have "(\<forall>a\<in>set (t_chanaccess db'). ca_nick a \<in> nr_id ` set (t_nick db)) =
      (\<forall>a\<in>set (t_chanaccess db). ca_nick a \<in> nr_id ` set (t_nick db))"
    using touched_fields(5) [OF t] by (rule used_all) (simp add: used_acc_def)
  ultimately show ?thesis unfolding tidy_def touched_fields(1) [OF t] by simp
qed

lemma removable_used: "removable lim akl (used_acc a) = removable lim akl a"
  by (simp add: removable_def used_acc_def)

lemma touched_deleted: "touched db db1 \<Longrightarrow> deleted_list c lim akl js db1 db' = deleted_list c lim akl js db db'"
  unfolding deleted_list_def by (rule used_all [OF touched_fields(5)]) (simp_all add: removable_used, simp add: used_acc_def)

lemma cut_deleted:
  assumes ok: "access_ok db" and t: "tidy c db"
    and P: "\<forall>a\<in>set (t_chanaccess db). P a \<longleftrightarrow> \<not> (ca_chan a = c \<and> ca_idx a \<in> set js \<and> removable lim akl a)"
    and l: "level_at (t_chanaccess db') = level_at (filter P (t_chanaccess db))"
  shows "deleted_list c lim akl js db db'"
  unfolding deleted_list_def
proof (intro ballI impI)
  fix a assume a: "a \<in> set (t_chanaccess db)" "ca_chan a = c"
  have t: "table_ok (t_chanaccess db)" using ok by (simp add: access_ok_def)
  then have t': "table_ok (filter P (t_chanaccess db))" by (simp add: table_ok_def acc.unique_def distinct_map_filter)
  have only: "b = a" if "b \<in> set (t_chanaccess db)" "ca_chan b = c" "ca_nick b = ca_nick a" for b
    using table_ok_key [OF t that(1) a(1)] that a(2) by simp
  show "level_at (t_chanaccess db') c (ca_nick a) = (if ca_idx a \<in> set js \<and> removable lim akl a then None else Some (ca_level a))"
  proof (cases "P a")
    case True
    then have "level_at (filter P (t_chanaccess db)) c (ca_nick a) = Some (ca_level a)"
      unfolding level_at_Some [OF t'] using a by (intro bexI [of _ a]) simp_all
    then show ?thesis using True P a l by auto
  next
    case False
    have "\<not> (ca_nick b = ca_nick a \<and> ca_chan b = c)" if "b \<in> set (t_chanaccess db)" "P b" for b
      using only [OF that(1)] that(2) False by metis
    then have "level_at (filter P (t_chanaccess db)) c (ca_nick a) = None" by (simp add: level_at_def sql_first_None)
    then show ?thesis using False P a l by auto
  qed
qed

lemma del_numbers:
  assumes q: "quiet [] s0 st" and k: "known (ns_db s0) u" and ok: "access_ok (ns_db s0)"
    and n: "isdigit (hd0 n)" "is_numlist n"
  shows "lands (\<not> args_last (fst junk) (numlist_set n 1 (to_uint32 (int (CSAccessMax cfg) - 1))))
   (do_cs_access_del cfg junk now u ci n st) (\<lambda>st'.
    args_last (fst junk) (numlist_set n 1 (to_uint32 (int (CSAccessMax cfg) - 1))) \<and>
    law cfg u (cr_id ci) s0 st' \<and>
    (tidy (cr_id ci) (ns_db s0) \<longrightarrow>
      deleted_list (cr_id ci) (access_of (ns_db s0) u (cr_id ci)) (get_level (ns_db s0) (cr_id ci) CA_AKICK)
        (numlist_set n 1 (to_uint32 (int (CSAccessMax cfg) - 1))) (ns_db s0) (ns_db st')))"
proof -
  define c where "c = cr_id ci"
  define lim where "lim = access_of (ns_db s0) u c"
  define akl where "akl = get_level (ns_db s0) c CA_AKICK"
  define js where "js = numlist_set n 1 (to_uint32 (int (CSAccessMax cfg) - 1))"
  define Q where "Q st' \<longleftrightarrow> args_last (fst junk) js \<and> law cfg u c s0 st' \<and> (tidy c (ns_db s0) \<longrightarrow> deleted_list c lim akl js (ns_db s0) (ns_db st'))" for st'
  have akl: "get_level (ns_db st) c CA_AKICK = akl"
    using touched_fields(2) [OF quiet_touched [OF q]] by (simp add: akl_def get_level_def)
  have main: "lands (\<not> args_last (fst junk) js) (Option.bind
         (process_numlist n 1 (to_uint32 (int (CSAccessMax cfg) - 1)) (with_args (fst junk) (access_del_callback u c lim akl))
           (Intact (fst (snd junk), snd (snd junk), st1)))
         (\<lambda>(deleted, count, v). Option.bind (args_state v) (\<lambda>(perm, lst, st).
             Some (if deleted = 0
                   then if perm \<noteq> 0 then tell_user u ''PERMISSION_DENIED'' [] st
                        else if count = 1 then tell_user u ''CHAN_ACCESS_NO_SUCH_ENTRY'' [showd lst, cr_name ci] st
                        else tell_user u ''CHAN_ACCESS_NO_MATCH'' [cr_name ci] st
                   else if deleted = 1 then tell_user u ''CHAN_ACCESS_DELETED_ONE'' [cr_name ci] (sort_chan_access c st)
                   else tell_user u ''CHAN_ACCESS_DELETED_SEVERAL'' [show_int deleted, cr_name ci] (sort_chan_access c st))))) Q"
    if q1: "quiet [] s0 st1" for st1
  proof -
    have t1: "touched (ns_db s0) (ns_db st1)" using q1 by (rule quiet_touched)
    have ok1: "access_ok (ns_db st1)" using touched_table(4) [OF t1] ok by simp
    then have tab: "table_ok (t_chanaccess (ns_db st1))" by (simp add: access_ok_def)
    obtain k v where run: "process_numlist n 1 (to_uint32 (int (CSAccessMax cfg) - 1))
        (with_args (fst junk) (access_del_callback u c lim akl)) (Intact (fst (snd junk), snd (snd junk), st1)) =
        Some (int k, int (length js), v)"
      and v: "if args_last (fst junk) js
         then \<exists>perm lst st2. args_state v = Some (perm, lst, st2) \<and> cut (ns_db st1) c lim akl js k (ns_db st2)
         else args_state v = None"
      using numlist_cut [OF tab] unfolding js_def by blast
    show ?thesis
    proof (cases "args_last (fst junk) js")
      case False
      then show ?thesis using v unfolding run by (simp add: lands_def)
    next
      case True
    then obtain perm lst st2 where v: "args_state v = Some (perm, lst, st2)" and cut: "cut (ns_db st1) c lim akl js k (ns_db st2)"
      using v by auto
    obtain P where P: "ns_db st2 = (ns_db st1)\<lparr>t_chanaccess := filter P (t_chanaccess (ns_db st1))\<rparr>"
      "\<forall>a\<in>set (t_chanaccess (ns_db st1)). \<not> P a \<longrightarrow> ca_chan a = c \<and> removable lim akl a"
      "k = 0 \<longrightarrow> filter P (t_chanaccess (ns_db st1)) = t_chanaccess (ns_db st1)"
      "tidy c (ns_db st1) \<longrightarrow> (\<forall>a\<in>set (t_chanaccess (ns_db st1)). P a \<longleftrightarrow>
         \<not> (ca_chan a = c \<and> ca_idx a \<in> set js \<and> removable lim akl a))"
      using cut unfolding cut_def by blast
    have Q: "Q st3" if "ns_db st3 = ns_db st2 \<and> k = 0 \<or> ns_db st3 = ns_db (sort_chan_access c st2)" for st3
    proof -
      have tab2: "table_ok (filter P (t_chanaccess (ns_db st1)))"
        using tab by (simp add: table_ok_def acc.unique_def distinct_map_filter)
      have l: "level_at (t_chanaccess (ns_db st3)) = level_at (filter P (t_chanaccess (ns_db st1)))"
        using that by (auto simp: P(1) sort_db renumber_place [OF tab2] level_at_map)
      have "law cfg u c s0 st3"
        using that
      proof
        assume "ns_db st3 = ns_db st2 \<and> k = 0"
        then have "ns_db st3 = ns_db st1" using P(1,3) by simp
        then show ?thesis using law_db law_quiet [OF q1 ok] by blast
      next
        assume "ns_db st3 = ns_db (sort_chan_access c st2)"
        then show ?thesis using P(2) by (intro delete_law [OF q1 ok, of P]) (auto simp: sort_db P(1) removable_def lim_def)
      qed
      moreover have "deleted_list c lim akl js (ns_db s0) (ns_db st3)" if "tidy c (ns_db s0)"
      proof -
        have td: "tidy c (ns_db st1)" using that touched_tidy [OF t1] by simp
        then have "\<forall>a\<in>set (t_chanaccess (ns_db st1)). P a \<longleftrightarrow> \<not> (ca_chan a = c \<and> ca_idx a \<in> set js \<and> removable lim akl a)"
          using P(4) by blast
        from cut_deleted [OF ok1 td this l] show ?thesis using touched_deleted [OF t1] by simp
      qed
      ultimately show ?thesis using True by (simp add: Q_def)
    qed
    then show ?thesis using v unfolding run by (simp add: lands_def)
    qed
  qed
  show ?thesis
    unfolding do_cs_access_del_def Let_def c_def [symmetric] akl if_P [OF conjI [OF n]] lim_def [symmetric] akl_def [symmetric]
      js_def [symmetric] Q_def [symmetric]
    by (rule get_access_lands [OF q k]) (use main in \<open>simp add: lim_def\<close>)
qed


lemma del_nick:
  assumes q: "quiet [] s0 st" and k: "known (ns_db s0) u" and ok: "access_ok (ns_db s0)"
    and n: "\<not> (isdigit (hd0 n) \<and> is_numlist n)"
  shows "lands False (do_cs_access_del cfg junk now u ci n st) (law cfg u (cr_id ci) s0)"
proof -
  have quiet_law: "quiet [] s0 st' \<Longrightarrow> law cfg u (cr_id ci) s0 st'" for st' using law_quiet ok by blast
  have del: "law cfg u (cr_id ci) s0 (sort_chan_access (cr_id ci) (delete_access (ca_id a) st'))"
    if q': "quiet [] s0 st'" and a: "a \<in> set (t_chanaccess (ns_db st))" "ca_chan a = cr_id ci"
      "ca_level a < access_of (ns_db s0) u (cr_id ci)" for a st'
  proof (rule delete_law [OF q' ok, of "\<lambda>b. ca_id b \<noteq> ca_id a"])
    have m: "map used_acc (t_chanaccess (ns_db st')) = map used_acc (t_chanaccess (ns_db st))"
      using touched_fields(5) [OF quiet_touched [OF q']] touched_fields(5) [OF quiet_touched [OF q]] by simp
    have tab: "table_ok (t_chanaccess (ns_db st))"
      using touched_table(4) [OF quiet_touched [OF q]] ok by (simp add: access_ok_def)
    fix b assume b: "b \<in> set (t_chanaccess (ns_db st'))" "\<not> ca_id b \<noteq> ca_id a"
    then have "used_acc b \<in> used_acc ` set (t_chanaccess (ns_db st))" using m by (metis image_eqI list.set_map)
    then obtain b' where b': "b' \<in> set (t_chanaccess (ns_db st))" "used_acc b = used_acc b'" by blast
    then have "b' = a" using b(2) used_acc_sel(1) [of b] used_acc_sel(1) [of b'] by (intro table_ok_id [OF tab b'(1) a(1)]) metis
    then show "ca_chan b = cr_id ci \<and> ca_level b < access_of (ns_db s0) u (cr_id ci)"
      using b'(2) a used_acc_sel(2,4) [of b] used_acc_sel(2,4) [of b'] by metis
  next
    show "ns_db (sort_chan_access (cr_id ci) (delete_access (ca_id a) st')) = (ns_db st')
        \<lparr>t_chanaccess := renumber (cr_id ci) (filter (\<lambda>b. ca_id b \<noteq> ca_id a) (t_chanaccess (ns_db st')))\<rparr>"
      by (simp add: sort_db delete_access_def upd_access_db sql_delete_def)
  qed
  have main: "lands False (Option.bind (get_access now u (cr_id ci) st) (\<lambda>(uacc, st).
      Some (if uacc \<le> ca_level a then tell_user u ''PERMISSION_DENIED'' [] st
            else tell_user u ''CHAN_ACCESS_DELETED'' [nr_nick ni, cr_name ci]
                   (verbose (cr_id ci) (cr_name ci) (removal u (nr_nick ni) (ca_level a))
                     (sort_chan_access (cr_id ci) (delete_access (ca_id a) st)))))) (law cfg u (cr_id ci) s0)"
    if "sql_first (\<lambda>a. ca_chan a = cr_id ci \<and> ca_nick a = nr_id ni) (t_chanaccess (ns_db st)) = Some a" for a ni
  proof (rule get_access_lands [OF q k])
    fix st' assume q': "quiet [] s0 st'"
    have a: "a \<in> set (t_chanaccess (ns_db st))" "ca_chan a = cr_id ci" using sql_first_Some [OF that] by auto
    show "lands False (Some (if access_of (ns_db s0) u (cr_id ci) \<le> ca_level a then tell_user u ''PERMISSION_DENIED'' [] st'
            else tell_user u ''CHAN_ACCESS_DELETED'' [nr_nick ni, cr_name ci]
                   (verbose (cr_id ci) (cr_name ci) (removal u (nr_nick ni) (ca_level a))
                     (sort_chan_access (cr_id ci) (delete_access (ca_id a) st'))))) (law cfg u (cr_id ci) s0)"
      using quiet_law [OF q'] law_db [OF _ del [OF q' a]] by simp
  qed
  show ?thesis
    using n quiet_law [OF q] main by (auto simp: do_cs_access_del_def Let_def split: option.split)
qed

lemma do_cs_access_del_law:
  assumes "quiet [] s0 st" and "known (ns_db s0) u" and "access_ok (ns_db s0)"
  shows "lands (is_numlist n \<and> \<not> args_last (fst junk) (numlist_set n 1 (to_uint32 (int (CSAccessMax cfg) - 1))))
    (do_cs_access_del cfg junk now u ci n st) (law cfg u (cr_id ci) s0)"
proof (cases "isdigit (hd0 n) \<and> is_numlist n")
  case True
  then show ?thesis using del_numbers [OF assms, where n = n and cfg = cfg and junk = junk and now = now and ci = ci] by (auto elim: lands_mono)
next
  case False
  then show ?thesis by (rule lands_mono [OF del_nick [OF assms]]) simp_all
qed

lemma fold_db: "(\<And>x s. ns_db (f x s) = ns_db s) \<Longrightarrow> ns_db (fold f xs st) = ns_db st"
  by (induction xs arbitrary: st) simp_all

lemma show_entries_db [simp]: "(\<And>x s. ns_db (f x s) = ns_db s) \<Longrightarrow> ns_db (show_entries u header f name rows st) = ns_db st"
  by (simp add: show_entries_def fold_db)

lemma entry_db [simp]: "ns_db (list_entry u key x st) = ns_db st" "ns_db (view_entry u x st) = ns_db st"
  by (simp_all add: list_entry_def view_entry_def Let_def split: prod.split)

lemma access_select_None: "access_select cfg full c n db = None \<Longrightarrow> \<exists>m. n = Some m \<and> is_numlist m"
  by (auto simp: access_select_def Let_def split: option.splits if_splits)

lemma do_cs_access_list_db:
  "lands (\<exists>m. n = Some m \<and> is_numlist m) (do_cs_access_list cfg u ci n st) (\<lambda>st'. ns_db st' = ns_db st)"
  "lands (\<exists>m. n = Some m \<and> is_numlist m) (do_cs_access_view cfg u ci n st) (\<lambda>st'. ns_db st' = ns_db st)"
  using access_select_None [of cfg False "cr_id ci" n "ns_db st"] access_select_None [of cfg True "cr_id ci" n "ns_db st"]
  by (auto simp: do_cs_access_list_def do_cs_access_view_def lands_def split: option.split)

lemma access_or_admin_yields:
  assumes "quiet ms s0 st" and "known (ns_db s0) u"
    and "\<And>st'. quiet ms s0 st' \<Longrightarrow> Q (allowed (ns_db s0) u c what \<or> admin_of cfg (ns_db s0) u) st'"
  shows "yields (access_or_admin cfg now u c what st) Q"
  unfolding access_or_admin_def yields_bind
  by (rule check_access_yields [OF assms(1,2)]) (use assms in \<open>auto intro: is_services_admin_yields\<close>)

definition asked_chan :: "sqldb \<Rightarrow> cstr \<Rightarrow> nat" where
  "asked_chan db t = mysql_findchan db (case word 0 t of None \<Rightarrow> [] | Some n \<Rightarrow> n)"

lemma touched_findchan: "touched db db' \<Longrightarrow> mysql_findchan db' n = mysql_findchan db n"
proof -
  have "mysql_findchan db n = fst (mysql_findchanflags db n)" for db
    by (simp add: mysql_findchan_def mysql_findchanflags_def split: option.split)
  then show "touched db db' \<Longrightarrow> ?thesis" by (simp add: touched_findchanflags)
qed

lemma command_chan_cases:
  assumes q: "quiet ms s0 st"
  shows "(\<exists>st'. command_chan u (word 0 t) st = Inl st' \<and> ns_db st' = ns_db st) \<or>
    (\<exists>ci. command_chan u (word 0 t) st = Inr ci \<and> cr_id ci = asked_chan (ns_db s0) t \<and>
       \<not> has (get_chan_flags (ns_db s0) (cr_id ci)) CI_VERBOTEN)"
proof -
  define name where "name = (case word 0 t of None \<Rightarrow> [] | Some n \<Rightarrow> n)"
  define c where "c = mysql_findchan (ns_db st) name"
  have c: "asked_chan (ns_db s0) t = c"
    using touched_findchan [OF quiet_touched [OF q]] by (simp add: asked_chan_def c_def name_def)
  have run: "command_chan u (word 0 t) st =
     (case (if c = 0 then None else get_channelinfo_from_id (ns_db st) c) of
        None \<Rightarrow> Inl (tell_user u ''CHAN_X_NOT_REGISTERED'' [name] st)
      | Some ci \<Rightarrow>
          if has (cr_flags ci) CI_VERBOTEN then Inl (tell_user u ''CHAN_X_FORBIDDEN'' [name] st) else Inr ci)"
    unfolding command_chan_def Let_def name_def [symmetric] c_def [symmetric] ..
  show ?thesis
  proof (cases "if c = 0 then None else get_channelinfo_from_id (ns_db st) c")
    case None
    show ?thesis unfolding run None by simp
  next
    case (Some ci)
    then have r: "chan.row c (t_channel (ns_db st)) = Some ci" by (simp add: get_channelinfo_from_id_def split: if_splits)
    then have i: "cr_id ci = c" by (auto simp: chan.row_def dest: sql_first_Some)
    have "get_chan_flags (ns_db s0) c = cr_flags ci"
      using r touched_flags [OF quiet_touched [OF q], of c] by (simp add: get_chan_flags_def)
    then show ?thesis unfolding run Some using i c by simp
  qed
qed


text \<open>A lawful change that only someone with the right to change the list of an open channel brings about.\<close>

definition ruled :: "cscfg \<Rightarrow> user \<Rightarrow> nat \<Rightarrow> ns_state \<Rightarrow> ns_state \<Rightarrow> bool" where
  "ruled cfg u c st st' \<longleftrightarrow>
     law cfg u c st st' \<and>
     (level_at (t_chanaccess (ns_db st')) \<noteq> level_at (t_chanaccess (ns_db st)) \<longrightarrow>
        (allowed (ns_db st) u c CA_ACCESS_CHANGE \<or> admin_of cfg (ns_db st) u) \<and>
        \<not> has (get_chan_flags (ns_db st) c) CI_VERBOTEN)"

lemma ruled_quiet:
  assumes "quiet [] s0 st" and "access_ok (ns_db s0)" and "ns_db st' = ns_db st"
  shows "ruled cfg u c s0 st'" "level_at (t_chanaccess (ns_db st')) = level_at (t_chanaccess (ns_db s0))"
  using law_db [OF assms(3) law_quiet [OF assms(1,2)]] touched_table(1) [OF quiet_touched [OF assms(1)]] assms(3)
  by (simp_all add: ruled_def)

text \<open>
  The forms of ACCESS the services may not survive: LIST and VIEW with a list of numbers, whose
  statement may be cut or have no condition, and DEL with two numbers or more where they share the
  arguments of the callback.
\<close>

definition may_end :: "cscfg \<Rightarrow> va_passing \<Rightarrow> cstr \<Rightarrow> cstr option \<Rightarrow> bool" where
  "may_end cfg va c n \<longleftrightarrow>
     (\<exists>m. n = Some m \<and> is_numlist m \<and>
        (c \<in> {''list'', ''view''} \<or>
         c = ''del'' \<and> \<not> args_last va (numlist_set m 1 (to_uint32 (int (CSAccessMax cfg) - 1)))))"

text \<open>What the forms of ACCESS do on a channel, once the user has the right to it.\<close>

lemma access_form_ruled:
  assumes q: "quiet [] s0 st" and k: "known (ns_db s0) u" and ok: "access_ok (ns_db s0)"
    and r: "c \<notin> {''list'', ''count'', ''view''} \<Longrightarrow>
      (allowed (ns_db s0) u (cr_id ci) CA_ACCESS_CHANGE \<or> admin_of cfg (ns_db s0) u) \<and> identified (ns_db s0) u"
    and v: "\<not> has (get_chan_flags (ns_db s0) (cr_id ci)) CI_VERBOTEN"
    and m: "c = ''del'' \<Longrightarrow> n \<noteq> None"
  shows "lands (may_end cfg (fst junk) c n) (access_form cfg junk now u ci c n s st)
     (\<lambda>st'. ruled cfg u (cr_id ci) s0 st' \<and>
        (level_at (t_chanaccess (ns_db st')) \<noteq> level_at (t_chanaccess (ns_db s0)) \<longrightarrow> identified (ns_db s0) u))"
    (is "lands ?N ?m ?Q")
proof -
  have same: "?Q st'" if "ns_db st' = ns_db st" for st' using ruled_quiet [OF q ok that] by simp
  have change: "?Q st'" if "law cfg u (cr_id ci) s0 st'" "c \<notin> {''list'', ''count'', ''view''}" for st'
    using that r v by (simp add: ruled_def)
  consider "c = ''add''" | "c = ''del''" | "c = ''list''" | "c = ''view''" | "c \<notin> {''add'', ''del'', ''list'', ''view''}" by blast
  then show ?thesis
  proof cases
    case 1
    then show ?thesis
      using lands_mono [OF do_cs_access_add_law [OF q k ok, of cfg now ci "the n" "the s"], of ?N ?Q] change by (simp add: access_form_def)
  next
    case 2
    then obtain x where "n = Some x" using m by auto
    then show ?thesis
      using 2 lands_mono [OF do_cs_access_del_law [OF q k ok, where cfg = cfg and junk = junk and now = now and ci = ci and n = "the n"], of ?N ?Q] change by (simp add: access_form_def may_end_def)
  next
    case 3
    then show ?thesis
      using lands_mono [OF do_cs_access_list_db(1) [of n cfg u ci st], of ?N ?Q] same by (simp add: access_form_def may_end_def)
  next
    case 4
    then show ?thesis
      using lands_mono [OF do_cs_access_list_db(2) [of n cfg u ci st], of ?N ?Q] same by (simp add: access_form_def may_end_def)
  next
    case 5
    then show ?thesis using same by (simp add: access_form_def)
  qed
qed

lemma list_or_identified_yields:
  assumes "quiet ms s0 st" and "known (ns_db s0) u" and "L \<Longrightarrow> Q True st"
    and "\<And>st'. \<not> L \<Longrightarrow> quiet ms s0 st' \<Longrightarrow> Q (identified (ns_db s0) u) st'"
  shows "yields (if L then Some (True, st) else nick_identified now u st) Q"
  using assms by (cases L) (auto intro: nick_identified_yields)

lemma access_on_chan:
  assumes q: "quiet [] st st1" and k: "known (ns_db st) u" and ok: "access_ok (ns_db st)"
    and i: "c \<in> {''list'', ''count'', ''view''} \<or> identified (ns_db st) u"
    and m: "c = ''del'' \<Longrightarrow> n \<noteq> None"
  shows "lands (may_end cfg (fst junk) c n)
    (case command_chan u (word 0 t) st1 of
       Inl st \<Rightarrow> Some st
     | Inr ci \<Rightarrow> do {
         (ok, st) \<leftarrow> access_or_admin cfg now u (cr_id ci)
                      (if c \<in> {''list'', ''count'', ''view''} then CA_ACCESS_LIST else CA_ACCESS_CHANGE) st1;
         if ok then access_form cfg junk now u ci c n s st else Some (tell_user u ''ACCESS_DENIED'' [] st)
       })
    (\<lambda>st'. ruled cfg u (asked_chan (ns_db st) t) st st' \<and>
       (level_at (t_chanaccess (ns_db st')) \<noteq> level_at (t_chanaccess (ns_db st)) \<longrightarrow> identified (ns_db st) u))"
    (is "lands ?N _ ?Q")
  using command_chan_cases [OF q, of u t]
proof (elim disjE exE conjE)
  fix st' assume "command_chan u (word 0 t) st1 = Inl st'" "ns_db st' = ns_db st1"
  then show ?thesis using ruled_quiet [OF q ok] by simp
next
  fix ci assume ci: "command_chan u (word 0 t) st1 = Inr ci" "cr_id ci = asked_chan (ns_db st) t"
    "\<not> has (get_chan_flags (ns_db st) (cr_id ci)) CI_VERBOTEN"
  show ?thesis
    unfolding ci(1) sum.case
  proof (rule lands_bind, rule access_or_admin_yields [OF q k])
    fix st2 assume q2: "quiet [] st st2"
    define right where "right \<longleftrightarrow> allowed (ns_db st) u (cr_id ci)
      (if c \<in> {''list'', ''count'', ''view''} then CA_ACCESS_LIST else CA_ACCESS_CHANGE) \<or> admin_of cfg (ns_db st) u"
    have "lands ?N (access_form cfg junk now u ci c n s st2) ?Q" if right
    proof -
      have "c \<notin> {''list'', ''count'', ''view''} \<Longrightarrow>
          (allowed (ns_db st) u (cr_id ci) CA_ACCESS_CHANGE \<or> admin_of cfg (ns_db st) u) \<and> identified (ns_db st) u"
        using that i unfolding right_def by auto
      from access_form_ruled [OF q2 k ok this ci(3) m] show ?thesis unfolding ci(2) .
    qed
    then show "lands ?N (if allowed (ns_db st) u (cr_id ci)
          (if c \<in> {''list'', ''count'', ''view''} then CA_ACCESS_LIST else CA_ACCESS_CHANGE) \<or> admin_of cfg (ns_db st) u
        then access_form cfg junk now u ci c n s st2 else Some (tell_user u ''ACCESS_DENIED'' [] st2)) ?Q"
      using ruled_quiet [OF q2 ok] unfolding right_def [symmetric] by (cases right) simp_all
  qed
qed

text \<open>
  C5: whatever a user types behind ACCESS, the access lists stay in order, and a level of a
  nickname changes only on the channel named, by an identified user who has the right to change its
  list or is a services administrator, on a channel that is not forbidden, from a level below the user's own to one below
  the user's own that is not zero and in range, and to a negative one only if the user may set
  automatic kicks; numbered lists are numbered again, and no list grows past its limit.  The
  services go on, except perhaps after LIST or VIEW with a list of numbers, and after DEL with two
  numbers or more where the arguments of the callback are shared.
\<close>

theorem do_cs_access_lawful:
  assumes "ns_ok st" and "known (ns_db st) u" and "access_ok (ns_db st)"
  shows "lands (may_end cfg (fst junk) (opt_lower (word 1 t)) (word 2 t))
    (do_cs_access cfg junk now u t st)
    (\<lambda>st'. ruled cfg u (asked_chan (ns_db st) t) st st' \<and>
       (level_at (t_chanaccess (ns_db st')) \<noteq> level_at (t_chanaccess (ns_db st)) \<longrightarrow> identified (ns_db st) u))"
    (is "lands _ _ ?Q")
proof -
  define c where "c = opt_lower (word 1 t)"
  let ?N = "may_end cfg (fst junk) c (word 2 t)"
  define rest where "rest st1 = (case command_chan u (word 0 t) st1 of
       Inl st \<Rightarrow> Some st
     | Inr ci \<Rightarrow> do {
         (ok, st) \<leftarrow> access_or_admin cfg now u (cr_id ci)
                      (if c \<in> {''list'', ''count'', ''view''} then CA_ACCESS_LIST else CA_ACCESS_CHANGE) st1;
         if ok then access_form cfg junk now u ci c (word 2 t) (word 3 t) st else Some (tell_user u ''ACCESS_DENIED'' [] st)
       })" for st1
  have rest: "lands ?N (rest st1) ?Q" if "quiet [] st st1" "c \<in> {''list'', ''count'', ''view''} \<or> identified (ns_db st) u"
    "c = ''del'' \<Longrightarrow> word 2 t \<noteq> None" for st1
    using access_on_chan [OF that(1) assms(2,3) that(2,3)] unfolding rest_def .
  have same: "lands ?N (Some st2) ?Q" if "quiet [] st st1" "ns_db st2 = ns_db st1" for st1 st2
    using ruled_quiet [OF that(1) assms(3) that(2)] by simp
  have guard: "lands ?N (if b then Some st2 else rest st1) ?Q"
    if "quiet [] st st1" "ns_db st2 = ns_db st1" "c \<in> {''list'', ''count'', ''view''} \<or> identified (ns_db st) u"
      "\<not> b \<Longrightarrow> c = ''del'' \<Longrightarrow> word 2 t \<noteq> None" for b st1 st2
    using rest [OF that(1,3,4)] same [OF that(1,2)] by (cases b) simp_all
  show ?thesis
    unfolding do_cs_access_def Let_def c_def [symmetric] rest_def [symmetric]
  proof (rule lands_bind, rule list_or_identified_yields [OF quiet_refl [OF assms(1)] assms(2)])
    assume "c \<in> {''list'', ''count'', ''view''}"
    then show "lands ?N (if \<not> True then Some (tell_user u ''NICK_IDENTIFY_REQUIRED'' [s_ChanServ cfg] st)
      else if word 1 t = None \<or> (c \<notin> {''list'', ''count'', ''view''} \<and>
          (if c = ''del'' then word 2 t = None \<or> word 3 t \<noteq> None else word 3 t = None))
      then Some (syntax_error (s_ChanServ cfg) u ''ACCESS'' ''CHAN_ACCESS_SYNTAX'' st) else rest st) ?Q"
      unfolding not_True_eq_False if_False by (intro guard [OF quiet_refl [OF assms(1)]]) simp_all
  next
    fix st1 assume q1: "quiet [] st st1"
    show "lands ?N (if \<not> identified (ns_db st) u then Some (tell_user u ''NICK_IDENTIFY_REQUIRED'' [s_ChanServ cfg] st1)
      else if word 1 t = None \<or> (c \<notin> {''list'', ''count'', ''view''} \<and>
          (if c = ''del'' then word 2 t = None \<or> word 3 t \<noteq> None else word 3 t = None))
      then Some (syntax_error (s_ChanServ cfg) u ''ACCESS'' ''CHAN_ACCESS_SYNTAX'' st1) else rest st1) ?Q"
    proof (cases "identified (ns_db st) u")
      case True
      then have i: "\<not> \<not> identified (ns_db st) u" by simp
      show ?thesis unfolding if_not_P [OF i] by (rule guard [OF q1]) (simp_all add: True)
    next
      case False
      show ?thesis unfolding if_P [OF False] by (rule same [OF q1]) simp
    qed
  qed
qed


section \<open>The level VOP, AOP and SOP give\<close>

lemma word_none: "word 0 t = None \<Longrightarrow> word 1 t = None"
  by (simp add: strtok_def Let_def split: if_splits)

lemma level_at_set:
  assumes "table_ok t" and "table_ok t'"
    and "\<And>a. \<not> (ca_chan a = c \<and> ca_nick a = n) \<Longrightarrow> a \<in> set t' \<longleftrightarrow> a \<in> set t"
    and "r \<in> set t'" "ca_chan r = c" "ca_nick r = n" "ca_level r = l"
  shows "level_at t' = (level_at t)(c := (level_at t c)(n \<mapsto> l))"
proof (intro ext)
  fix d m
  show "level_at t' d m = ((level_at t)(c := (level_at t c)(n \<mapsto> l))) d m"
  proof (cases "d = c \<and> m = n")
    case True
    have "level_at t' c n = Some l" unfolding level_at_Some [OF assms(2)] using assms(4-7) by blast
    then show ?thesis using True by simp
  next
    case False
    then have "level_at t' d m = level_at t d m" using assms(3) by (intro level_at_eqI [OF assms(1,2)]) blast
    then show ?thesis using False by auto
  qed
qed

lemma level_at_renumber: "table_ok t \<Longrightarrow> level_at (renumber c t) = level_at t"
  by (simp add: renumber_place level_at_map)

lemma modify_level:
  assumes ok: "access_ok (ns_db st)" and ca: "ca \<in> set (t_chanaccess (ns_db st))" "ca_chan ca = c"
  shows "level_at (t_chanaccess (ns_db (modify_access now ca c level u st))) =
    (level_at (t_chanaccess (ns_db st)))(c := (level_at (t_chanaccess (ns_db st)) c)(ca_nick ca \<mapsto> level))"
proof -
  define t where "t = t_chanaccess (ns_db st)"
  define f :: "access_row \<Rightarrow> access_row" where "f = (if ca_added_by ca \<noteq> []
     then (\<lambda>a. a\<lparr>ca_level := level, ca_last_modified := now, ca_modified_by := u_nick u\<rparr>)
     else (\<lambda>a. a\<lparr>ca_level := level, ca_added := now, ca_last_modified := now, ca_added_by := u_nick u,
                  ca_modified_by := u_nick u\<rparr>))"
  define g where "g = (\<lambda>a. if ca_id a = ca_id ca \<and> ca_chan a = c then f a else a)"
  have g: "ca_id (g a) = ca_id a \<and> ca_chan (g a) = ca_chan a \<and> ca_nick (g a) = ca_nick a" for a
    by (simp add: g_def f_def)
  have t: "table_ok t" using ok by (simp add: access_ok_def t_def)
  then have t': "table_ok (map g t)" using g by (rule table_ok_map)
  have other: "g a = a" if "a \<in> set t" "\<not> (ca_chan a = c \<and> ca_nick a = ca_nick ca)" for a
    using table_ok_id [OF t that(1), of ca] that(2) ca by (auto simp: g_def t_def)
  have "a \<in> set (map g t) \<longleftrightarrow> a \<in> set t" if a: "\<not> (ca_chan a = c \<and> ca_nick a = ca_nick ca)" for a
  proof
    assume "a \<in> set (map g t)"
    then obtain b where b: "b \<in> set t" "a = g b" by auto
    then show "a \<in> set t" using other [OF b(1)] a g by auto
  next
    assume "a \<in> set t"
    then show "a \<in> set (map g t)" using other [OF _ a] by (metis image_eqI list.set_map)
  qed
  moreover have "g ca \<in> set (map g t)" "ca_level (g ca) = level" using ca by (auto simp: t_def g_def f_def)
  ultimately have "level_at (map g t) = (level_at t)(c := (level_at t c)(ca_nick ca \<mapsto> level))"
    using g ca(2) by (intro level_at_set [OF t t', of c "ca_nick ca" "g ca"]) auto
  moreover have "t_chanaccess (ns_db (modify_access now ca c level u st)) = renumber c (map g t)"
    by (cases "ca_added_by ca = []") (simp_all add: modify_access_def Let_def sort_db upd_access_db sql_update_def g_def f_def t_def cong: if_cong)
  ultimately show ?thesis using level_at_renumber [OF t'] by (simp add: t_def)
qed

lemma insert_level:
  assumes ok: "access_ok (ns_db st)" and new: "get_chanaccess_from_nickid (ns_db st) i c = None"
  shows "level_at (t_chanaccess (ns_db (insert_access now c i level u st))) =
    (level_at (t_chanaccess (ns_db st)))(c := (level_at (t_chanaccess (ns_db st)) c)(i \<mapsto> level))"
proof -
  define t where "t = t_chanaccess (ns_db st)"
  define k where "k = next_chanaccess (ns_db st)"
  define r where "r = \<lparr>ca_id = k, ca_chan = c, ca_idx = 0, ca_level = level, ca_nick = i, ca_added = now,
     ca_last_modified = now, ca_last_used = 0, ca_memo_read = 0, ca_added_by = u_nick u, ca_modified_by = u_nick u\<rparr>"
  have r: "ca_id r = k" "ca_chan r = c" "ca_nick r = i" "ca_level r = level" by (simp_all add: r_def)
  have t: "table_ok t" and k: "0 < k" "\<forall>a\<in>set t. ca_id a < k" using ok by (simp_all add: access_ok_def t_def k_def)
  have fresh: "\<forall>a\<in>set t. \<not> (ca_nick a = i \<and> ca_chan a = c)"
    using new by (simp add: get_chanaccess_from_nickid_def sql_first_None t_def)
  have t': "table_ok (t @ [r])" using t k fresh by (auto simp: table_ok_def acc.unique_def r)
  have "level_at (t @ [r]) = (level_at t)(c := (level_at t c)(i \<mapsto> level))"
    using r by (intro level_at_set [OF t t', of c i r]) auto
  moreover have "t_chanaccess (ns_db (insert_access now c i level u st)) = renumber c (t @ [r])"
    by (simp add: insert_access_def Let_def sort_db upd_access_db t_def k_def r_def)
  ultimately show ?thesis using level_at_renumber [OF t'] by (simp add: t_def)
qed

text \<open>An entry may be changed from below the level of the user, a new one needs room in the list.\<close>

definition has_room :: "cscfg \<Rightarrow> sqldb \<Rightarrow> nat \<Rightarrow> nat \<Rightarrow> int \<Rightarrow> bool" where
  "has_room cfg db c n ulev \<longleftrightarrow>
     (case level_at (t_chanaccess db) c n of
        None \<Rightarrow> entries (t_chanaccess db) c < CSAccessMax cfg
      | Some l \<Rightarrow> l < ulev)"

lemma set_access_level:
  assumes ok: "access_ok (ns_db st)"
  shows "level_at (t_chanaccess (ns_db (set_access cfg now u ci ni level ulev st))) =
    (if has_room cfg (ns_db st) (cr_id ci) (nr_id ni) ulev
     then (level_at (t_chanaccess (ns_db st)))(cr_id ci := (level_at (t_chanaccess (ns_db st)) (cr_id ci))(nr_id ni \<mapsto> level))
     else level_at (t_chanaccess (ns_db st)))"
proof (cases "get_chanaccess_from_nickid (ns_db st) (nr_id ni) (cr_id ci)")
  case None
  then have "level_at (t_chanaccess (ns_db st)) (cr_id ci) (nr_id ni) = None"
    by (simp add: get_chanaccess_from_nickid_def level_at_def)
  then show ?thesis
    using None insert_level [OF ok None]
    by (simp add: set_access_def has_room_def chanaccess_count_def entries_def not_le)
next
  case (Some ca)
  then have ca: "ca \<in> set (t_chanaccess (ns_db st))" "ca_chan ca = cr_id ci" "ca_nick ca = nr_id ni"
    using sql_first_Some by (fastforce simp: get_chanaccess_from_nickid_def)+
  have l: "level_at (t_chanaccess (ns_db st)) (cr_id ci) (nr_id ni) = Some (ca_level ca)"
    using Some by (simp add: get_chanaccess_from_nickid_def level_at_def)
  have same: "ca_level ca = level \<Longrightarrow> (level_at (t_chanaccess (ns_db st)))(cr_id ci :=
      (level_at (t_chanaccess (ns_db st)) (cr_id ci))(nr_id ni \<mapsto> level)) = level_at (t_chanaccess (ns_db st))"
    using l by (simp add: fun_upd_idem)
  show ?thesis
    using Some l same modify_level [OF ok ca(1,2)] ca(3) by (simp add: set_access_def has_room_def)
qed

text \<open>
  Whose level the three commands set, and to what: the level of the category on the channel named,
  for a registered nickname that may be put on lists, asked for by a user with the right to change
  the list and a level above it.
\<close>

definition open_chan :: "sqldb \<Rightarrow> nat \<Rightarrow> bool" where
  "open_chan db c \<longleftrightarrow>
     c \<noteq> 0 \<and> (case chan.row c (t_channel db) of None \<Rightarrow> False | Some ci \<Rightarrow> \<not> has (cr_flags ci) CI_VERBOTEN)"

definition given :: "cscfg \<Rightarrow> sqldb \<Rightarrow> user \<Rightarrow> cstr \<Rightarrow> nat \<Rightarrow> (nat \<times> int) option" where
  "given cfg db u t what =
     (let c = asked_chan db t; l = get_chan_level db c what
      in if opt_lower (word 1 t) = ''add'' \<and> open_chan db c \<and>
            (allowed db u c CA_ACCESS_CHANGE \<or> admin_of cfg db u) \<and>
            0 < l \<and> l < access_of db u c \<and> l < ACCESS_FOUNDER
         then (case word 2 t of
                 None \<Rightarrow> None
               | Some n \<Rightarrow>
                   (case mysql_findnickinfo db n of
                      None \<Rightarrow> None
                    | Some ni \<Rightarrow>
                        if \<not> has (nr_status ni) NS_VERBOTEN \<and> \<not> has (nr_flags ni) NI_NOOP \<and>
                           has_room cfg db c (nr_id ni) (access_of db u c)
                        then Some (nr_id ni, l) else None))
         else None)"

definition given_level :: "cscfg \<Rightarrow> user \<Rightarrow> cstr \<Rightarrow> nat \<Rightarrow> ns_state \<Rightarrow> ns_state \<Rightarrow> bool" where
  "given_level cfg u t what st st' \<longleftrightarrow>
     law cfg u (asked_chan (ns_db st) t) st st' \<and>
     level_at (t_chanaccess (ns_db st')) =
       (case given cfg (ns_db st) u t what of
          None \<Rightarrow> level_at (t_chanaccess (ns_db st))
        | Some (n, l) \<Rightarrow> (level_at (t_chanaccess (ns_db st)))
            (asked_chan (ns_db st) t := (level_at (t_chanaccess (ns_db st)) (asked_chan (ns_db st) t))(n \<mapsto> l)))"

lemma command_chan_open:
  "(\<exists>st'. command_chan u (word 0 t) st = Inl st' \<and> ns_db st' = ns_db st \<and> \<not> open_chan (ns_db st) (asked_chan (ns_db st) t)) \<or>
   (\<exists>ci. command_chan u (word 0 t) st = Inr ci \<and> cr_id ci = asked_chan (ns_db st) t \<and> open_chan (ns_db st) (cr_id ci))"
proof -
  define name where "name = (case word 0 t of None \<Rightarrow> [] | Some n \<Rightarrow> n)"
  define c where "c = mysql_findchan (ns_db st) name"
  have c: "asked_chan (ns_db st) t = c" by (simp add: asked_chan_def c_def name_def)
  have run: "command_chan u (word 0 t) st =
     (case (if c = 0 then None else get_channelinfo_from_id (ns_db st) c) of
        None \<Rightarrow> Inl (tell_user u ''CHAN_X_NOT_REGISTERED'' [name] st)
      | Some ci \<Rightarrow>
          if has (cr_flags ci) CI_VERBOTEN then Inl (tell_user u ''CHAN_X_FORBIDDEN'' [name] st) else Inr ci)"
    unfolding command_chan_def Let_def name_def [symmetric] c_def [symmetric] ..
  have id: "chan.row c (t_channel (ns_db st)) = Some ci \<Longrightarrow> cr_id ci = c" for ci
    by (auto simp: chan.row_def dest: sql_first_Some)
  show ?thesis
    unfolding run c using id by (auto simp: open_chan_def get_channelinfo_from_id_def split: option.split)
qed

text \<open>The facts of the tables the commands ask for are not changed by the questions of rights.\<close>

lemma touched_given:
  assumes "touched db db'"
  shows "mysql_findnickinfo db' n = mysql_findnickinfo db n" "has_room cfg db' c i l = has_room cfg db c i l"
  unfolding mysql_findnickinfo_def has_room_def touched_fields(1) [OF assms] touched_table(1,2) [OF assms] by (rule refl)+

lemma quiet_given:
  assumes "quiet ms st st1" and "access_ok (ns_db st)" and "ns_db st2 = ns_db st1" and "given cfg (ns_db st) u t what = None"
  shows "given_level cfg u t what st st2"
  using law_db [OF assms(3) law_quiet [OF assms(1,2)]] assms(3,4) touched_table(1) [OF quiet_touched [OF assms(1)]]
  by (simp add: given_level_def)

lemma set_access_given:
  assumes q: "quiet ms st st1" and ok: "access_ok (ns_db st)" and ci: "cr_id ci = asked_chan (ns_db st) t"
    and g: "given cfg (ns_db st) u t what =
      (if has_room cfg (ns_db st) (cr_id ci) (nr_id ni) ulev then Some (nr_id ni, l) else None)"
    and l: "0 < l" "l < access_of (ns_db st) u (cr_id ci)" "l < ACCESS_FOUNDER"
    and ulev: "ulev = access_of (ns_db st) u (cr_id ci)"
  shows "given_level cfg u t what st (set_access cfg now u ci ni l ulev st1)"
proof -
  have t: "touched (ns_db st) (ns_db st1)" using q by (rule quiet_touched)
  have ok1: "access_ok (ns_db st1)" using touched_table(4) [OF t] ok by simp
  have "fair_level (allowed (ns_db st) u (cr_id ci) CA_AKICK) (Some l)"
    using l by (simp add: fair_level_def bad_level_def ACCESS_INVALID_def)
  from set_access_law [OF q ok l(2) this, of cfg now ni] show ?thesis
    using set_access_level [OF ok1, of cfg now u ci ni l ulev] g
    by (simp add: given_level_def ci ulev touched_given(2) [OF t] touched_table(1) [OF t])
qed

lemma level_cmd_given:
  assumes q0: "ns_ok st" and k: "known (ns_db st) u" and ok: "access_ok (ns_db st)"
  shows "lands False (do_cs_level_cmd missing name what cfg now u t st) (given_level cfg u t what st)"
proof -
  define c where "c = asked_chan (ns_db st) t"
  define key where "key = ''CHAN_'' @ name @ ''_SYNTAX''"
  define right where "right \<longleftrightarrow> allowed (ns_db st) u c CA_ACCESS_CHANGE \<or> admin_of cfg (ns_db st) u"
  define lev where "lev = get_chan_level (ns_db st) c what"
  define ulev where "ulev = access_of (ns_db st) u c"
  note giv = given_def Let_def c_def [symmetric] right_def [symmetric] lev_def [symmetric] ulev_def [symmetric]
  have same: "lands False (Some st2) (given_level cfg u t what st)"
    if "quiet [] st st1" "ns_db st2 = ns_db st1" "given cfg (ns_db st) u t what = None" for st1 st2
    using quiet_given [OF that(1) ok that(2,3)] by simp
  have nick: "lands False (case mysql_findnickinfo (ns_db st2) n of
        None \<Rightarrow> Some (tell_user u ''CHAN_ACCESS_NICKS_ONLY'' [] st2)
      | Some ni \<Rightarrow>
          Some (if has (nr_status ni) NS_VERBOTEN then tell_user u ''NICK_X_FORBIDDEN'' [n] st2
                else if has (nr_flags ni) NI_NOOP then tell_user u ''NICK_X_NOOP'' [n] st2
                else set_access cfg now u ci ni lev ulev st2)) (given_level cfg u t what st)"
    if q2: "quiet [] st st2" and ci: "cr_id ci = c" "open_chan (ns_db st) c" right "opt_lower (word 1 t) = ''add''"
      and n: "word 2 t = Some n" and l: "0 < lev" "lev < ulev" "lev < ACCESS_FOUNDER" for st2 ci n
  proof (cases "mysql_findnickinfo (ns_db st) n")
    case None
    then show ?thesis
      using same [OF q2] touched_given(1) [OF quiet_touched [OF q2]] n by (simp add: giv)
  next
    case (Some ni)
    have g: "given cfg (ns_db st) u t what =
      (if \<not> has (nr_status ni) NS_VERBOTEN \<and> \<not> has (nr_flags ni) NI_NOOP \<and> has_room cfg (ns_db st) c (nr_id ni) ulev
       then Some (nr_id ni, lev) else None)"
      using ci l n Some by (simp add: giv)
    have fin: "given_level cfg u t what st (set_access cfg now u ci ni lev ulev st2)"
      if "\<not> has (nr_status ni) NS_VERBOTEN" "\<not> has (nr_flags ni) NI_NOOP"
      using g that l by (intro set_access_given [OF q2 ok]) (simp_all add: ci ulev_def c_def)
    show ?thesis
      using g same [OF q2] fin touched_given(1) [OF quiet_touched [OF q2]] Some by simp
  qed
  have add: "lands False (do {
         let reqlev = get_chan_level (ns_db st1) (cr_id ci) what;
         if reqlev \<le> 0 then Some (tell_user u (''CHAN_'' @ name @ ''_DISABLED'') [] st1)
         else do {
           (ulev, st) \<leftarrow> get_access now u (cr_id ci) st1;
           if reqlev \<ge> ulev then Some (tell_user u ''PERMISSION_DENIED'' [] st)
           else if bad_level reqlev
           then Some (tell_user u ''CHAN_ACCESS_LEVEL_RANGE'' [show_int (ACCESS_INVALID + 1), show_int (ACCESS_FOUNDER - 1)] st)
           else
             (case mysql_findnickinfo (ns_db st) (the (word 2 t)) of
                None \<Rightarrow> Some (tell_user u ''CHAN_ACCESS_NICKS_ONLY'' [] st)
              | Some ni \<Rightarrow>
                  Some (if has (nr_status ni) NS_VERBOTEN then tell_user u ''NICK_X_FORBIDDEN'' [the (word 2 t)] st
                        else if has (nr_flags ni) NI_NOOP then tell_user u ''NICK_X_NOOP'' [the (word 2 t)] st
                        else set_access cfg now u ci ni reqlev ulev st))
         }
       }) (given_level cfg u t what st)"
    if q1: "quiet [] st st1" and ci: "cr_id ci = c" "open_chan (ns_db st) c" right "opt_lower (word 1 t) = ''add''"
      and n: "word 2 t = Some n" for st1 ci n
  proof -
    have lev: "get_chan_level (ns_db st1) c what = lev" using touched_level [OF quiet_touched [OF q1]] by (simp add: lev_def)
    have none: "given cfg (ns_db st) u t what = None" if "lev \<le> 0 \<or> ulev \<le> lev \<or> ACCESS_FOUNDER \<le> lev"
      using that by (auto simp: giv)
    have bad: "bad_level lev \<longleftrightarrow> ACCESS_FOUNDER \<le> lev" if "0 < lev"
      using that by (auto simp: bad_level_def ACCESS_INVALID_def)
    show ?thesis
    proof (cases "lev \<le> 0")
      case True
      then show ?thesis using same [OF q1 _ none] by (simp add: ci lev Let_def)
    next
      case False
      show ?thesis
        unfolding ci(1) lev Let_def if_not_P [OF False] n option.sel
      proof (rule get_access_lands [OF q1 k], unfold ulev_def [symmetric])
        fix st2 assume q2: "quiet [] st st2"
        show "lands False (if ulev \<le> lev then Some (tell_user u ''PERMISSION_DENIED'' [] st2)
           else if bad_level lev
           then Some (tell_user u ''CHAN_ACCESS_LEVEL_RANGE'' [show_int (ACCESS_INVALID + 1), show_int (ACCESS_FOUNDER - 1)] st2)
           else
             (case mysql_findnickinfo (ns_db st2) n of
                None \<Rightarrow> Some (tell_user u ''CHAN_ACCESS_NICKS_ONLY'' [] st2)
              | Some ni \<Rightarrow>
                  Some (if has (nr_status ni) NS_VERBOTEN then tell_user u ''NICK_X_FORBIDDEN'' [n] st2
                        else if has (nr_flags ni) NI_NOOP then tell_user u ''NICK_X_NOOP'' [n] st2
                        else set_access cfg now u ci ni lev ulev st2))) (given_level cfg u t what st)"
          using False same [OF q2 _ none] nick [OF q2 ci n] bad by (auto simp del: lands_Some)
      qed
    qed
  qed
  show ?thesis
  proof (cases "word 1 t = None \<or> word 0 t = None \<or> word 2 t = None")
    case True
    then have "given cfg (ns_db st) u t what = None"
    proof (elim disjE)
      assume "word 1 t = None"
      then show ?thesis by (simp add: given_def opt_lower_def)
    next
      assume w: "word 0 t = None"
      then have "word 1 t = None" by (rule word_none)
      then show ?thesis by (simp add: given_def opt_lower_def)
    next
      assume "word 2 t = None"
      then show ?thesis by (simp add: given_def Let_def)
    qed
    then show ?thesis using True same [OF quiet_refl [OF q0]] by (simp add: do_cs_level_cmd_def)
  next
    case False
    then obtain n where n: "word 2 t = Some n" by auto
    have rest: "lands False (case command_chan u (word 0 t) st of
      Inl st \<Rightarrow> Some st
    | Inr ci \<Rightarrow> do {
        (ok, st) \<leftarrow> access_or_admin cfg now u (cr_id ci) CA_ACCESS_CHANGE st;
        if \<not> ok then Some (tell_user u ''ACCESS_DENIED'' [] st)
        else if opt_lower (word 1 t) \<noteq> ''add'' then Some (syntax_error (s_ChanServ cfg) u name key st)
        else f ci st
      }) (given_level cfg u t what st)"
      if f: "\<And>ci st1. quiet [] st st1 \<Longrightarrow> cr_id ci = c \<Longrightarrow> open_chan (ns_db st) c \<Longrightarrow> right \<Longrightarrow>
          opt_lower (word 1 t) = ''add'' \<Longrightarrow> lands False (f ci st1) (given_level cfg u t what st)" for f
      using command_chan_open [of u t st]
    proof (elim disjE exE conjE)
      fix st' assume st': "command_chan u (word 0 t) st = Inl st'" "ns_db st' = ns_db st"
        "\<not> open_chan (ns_db st) (asked_chan (ns_db st) t)"
      then have "given cfg (ns_db st) u t what = None" by (simp add: given_def Let_def)
      then show ?thesis using same [OF quiet_refl [OF q0]] st' by simp
    next
      fix ci assume ci: "command_chan u (word 0 t) st = Inr ci" "cr_id ci = asked_chan (ns_db st) t"
        "open_chan (ns_db st) (cr_id ci)"
      then have i: "cr_id ci = c" by (simp add: c_def)
      show ?thesis
        unfolding ci(1) sum.case
      proof (rule lands_bind, rule access_or_admin_yields [OF quiet_refl [OF q0] k], unfold i right_def [symmetric])
        fix st2 assume q2: "quiet [] st st2"
        have none: "given cfg (ns_db st) u t what = None" if "\<not> right \<or> opt_lower (word 1 t) \<noteq> ''add''"
          using that by (auto simp: giv)
        show "lands False (if \<not> right then Some (tell_user u ''ACCESS_DENIED'' [] st2)
            else if opt_lower (word 1 t) \<noteq> ''add'' then Some (syntax_error (s_ChanServ cfg) u name key st2) else f ci st2)
            (given_level cfg u t what st)"
          using same [OF q2 _ none] f [OF q2 i] ci(3) unfolding i by (auto simp del: lands_Some)
      qed
    qed
    show ?thesis
      unfolding do_cs_level_cmd_def Let_def key_def [symmetric] if_not_P [OF False]
      by (rule rest, rule add [OF _ _ _ _ _ n, unfolded Let_def]; assumption)
  qed
qed

text \<open>
  C6: VOP, AOP and SOP with ADD, a channel and a nickname return, and change the level of the
  nickname on the channel to exactly the level of the category automatic voice, automatic op or
  automatic kick of that channel, if the channel is registered and not forbidden, the user has the
  right to change its list or is a services administrator, the level of the category is positive and below the user's
  own and the founder's, the nickname is registered, neither forbidden nor out of reach of lists, and its entry is below the user's own
  level, or is new and the list has room; in all other cases no level changes.  The lists stay in
  order and numbered, and no other table changes.  Nothing is asked of the user's identification to
  the nickname, which ACCESS ADD demands.
\<close>

theorem do_cs_vop_aop_sop_lawful:
  assumes "ns_ok st" and "known (ns_db st) u" and "access_ok (ns_db st)"
    and "(cmd, what) \<in> {(do_cs_vop, CA_AUTOVOICE), (do_cs_aop, CA_AUTOOP), (do_cs_sop, CA_AKICK)}"
  shows "\<exists>st'. cmd cfg now u t st = Some st' \<and> given_level cfg u t what st st'"
  using assms(4) landsD [OF level_cmd_given [OF assms(1-3)]]
  by (auto simp: do_cs_vop_def do_cs_aop_def do_cs_sop_def)




text \<open>The founder of a channel whose list has one entry, and commands by that user.\<close>

definition listed_chan :: ns_state where
  "listed_chan = (sample_chan NS_IDENTIFIED 0)\<lparr>ns_db := (ns_db (sample_chan NS_IDENTIFIED 0))\<lparr>next_chanaccess := 9\<rparr>\<rparr>"

definition founder_alice :: user where
  "founder_alice = alice\<lparr>u_founder_chans := [7]\<rparr>"

lemma listed_chan_ok: "ns_ok listed_chan" "known (ns_db listed_chan) founder_alice" "access_ok (ns_db listed_chan)"
  "tidy 7 (ns_db listed_chan)" "access_of (ns_db listed_chan) founder_alice 7 = ACCESS_FOUNDER"
proof -
  show "ns_ok listed_chan" unfolding listed_chan_def by (rule ns_ok_db [OF sample_chan_ok]) simp
  show "known (ns_db listed_chan) founder_alice" using alice_stat(2) [of NS_IDENTIFIED 0]
    by (simp add: known_def listed_chan_def founder_alice_def)
  show "access_ok (ns_db listed_chan)"
    by (simp add: access_ok_def table_ok_def acc.unique_def listed_chan_def sample_chan_db access_entry_def)
  show "tidy 7 (ns_db listed_chan)" by (simp add: tidy_def listed_chan_def sample_chan_db access_entry_def nick_of_def)
  show "access_of (ns_db listed_chan) founder_alice 7 = ACCESS_FOUNDER"
    by (simp add: access_of_def founder_of_def founder_alice_def alice_def)
qed


lemma one_number: "numlist_set ''1'' 1 (to_uint32 (int (CSAccessMax sample_cs) - 1)) = [1]"
proof -
  have n: "numlist_ranges ''1'' = [(1, 1)]" by code_simp
  have m: "to_uint32 (int (CSAccessMax sample_cs) - 1) = 2" by (simp add: sample_cs_def to_uint32_def)
  have "numlist_set ''1'' 1 (to_uint32 (int (CSAccessMax sample_cs) - 1)) = filter (\<lambda>i. i = 1) [0..<65537]"
    unfolding numlist_set_def n by (rule filter_cong) (auto simp: in_range_def m)
  then show ?thesis using filter_upt_cut [where P = "\<lambda>i. i = 1" and n = 65537 and a = 1 and b = 1] by simp
qed

theorem do_cs_access_lawful_witness:
  "\<exists>st'. do_cs_access sample_cs (ByReference, 0, 0) 50 founder_alice ''#a DEL 1'' listed_chan = Some st' \<and>
     ruled sample_cs founder_alice 7 listed_chan st'"
proof -
  have w: "word 2 ''#a DEL 1'' = Some ''1''" "word 1 ''#a DEL 1'' = Some ''DEL''" "opt_lower (Some ''DEL'') = ''del''" by code_simp+
  have "word 0 ''#a DEL 1'' = Some ''#a''" by code_simp
  then have c: "asked_chan (ns_db listed_chan) ''#a DEL 1'' = 7"
    by (simp add: asked_chan_def mysql_findchan_def listed_chan_def sample_chan_db sql_first_def sql_eq_def chan_of_def)
  show ?thesis
    using do_cs_access_lawful [OF listed_chan_ok(1-3), where t = "''#a DEL 1''" and cfg = sample_cs and junk = "(ByReference, 0, 0)" and now = 50]
      one_number unfolding w c by (auto simp: lands_def may_end_def args_last_def split: option.splits)
qed

theorem do_cs_vop_aop_sop_lawful_witness:
  "\<exists>st'. do_cs_sop sample_cs 50 founder_alice ''#a ADD alice'' listed_chan = Some st' \<and>
     level_at (t_chanaccess (ns_db st')) 7 1 = Some 10"
proof -
  have w: "word 0 ''#a ADD alice'' = Some ''#a''" "opt_lower (word 1 ''#a ADD alice'') = ''add''"
    "word 2 ''#a ADD alice'' = Some ''alice''" by code_simp+
  have c: "asked_chan (ns_db listed_chan) ''#a ADD alice'' = 7" unfolding asked_chan_def w
    by (simp add: mysql_findchan_def listed_chan_def sample_chan_db sql_first_def sql_eq_def chan_of_def)
  have o: "open_chan (ns_db listed_chan) 7"
    by (simp add: open_chan_def listed_chan_def sample_chan_db chan.row_def sql_first_def chan_of_def)
  have l: "get_chan_level (ns_db listed_chan) 7 CA_AKICK = 10"
    by (simp add: get_chan_level_def listed_chan_def sample_chan_db lookup_def_level_def def_levels_def CA_defs)
  have n: "\<exists>ni. mysql_findnickinfo (ns_db listed_chan) ''alice'' = Some ni \<and> nr_id ni = 1 \<and>
      \<not> has (nr_status ni) NS_VERBOTEN \<and> \<not> has (nr_flags ni) NI_NOOP"
    by (simp add: mysql_findnickinfo_def listed_chan_def sample_chan_db sql_first_def sql_eq_def nick_of_def has_def
      NS_IDENTIFIED_def NS_VERBOTEN_def NI_ENFORCE_def NI_NOOP_def)
  have r: "has_room sample_cs (ns_db listed_chan) 7 1 ACCESS_FOUNDER"
    by (simp add: has_room_def level_at_def listed_chan_def sample_chan_db access_entry_def sql_first_def ACCESS_FOUNDER_def)
  have a: "allowed (ns_db listed_chan) founder_alice 7 CA_ACCESS_CHANGE"
    using listed_chan_ok(5) by (simp add: allowed_def CA_defs)
  have "given sample_cs (ns_db listed_chan) founder_alice ''#a ADD alice'' CA_AKICK = Some (1, 10)"
    unfolding given_def Let_def w c l listed_chan_ok(5) using n r o a by (auto simp: ACCESS_FOUNDER_def)
  then show ?thesis
    using do_cs_vop_aop_sop_lawful [OF listed_chan_ok(1-3), of do_cs_sop CA_AKICK sample_cs 50 "''#a ADD alice''"]
    by (auto simp: given_level_def c)
qed


text \<open>LIST with a range that is turned around ends the services: the statement has no condition.\<close>

lemma list_nothing_fatal:
  assumes "chanaccess_count (ns_db st) (cr_id ci) \<noteq> 0" and "7 \<le> CSAccessMax cfg" and "CSAccessMax cfg < 2 ^ 32"
  shows "do_cs_access_list cfg u ci (Some ''5-3'') st = None"
proof -
  have n: "is_numlist ''5-3''" "show_ranges [(5, 3)] = ''5-3''" by code_simp+
  have "query_ranges (show_ranges [(5, 3)]) = [(5, 3)]" by (rule query_ranges_show) simp
  then have q: "query_clauses (CSAccessMax cfg) ''5-3'' = []" using assms(2) unfolding n(2) by (simp add: query_clauses_def)
  have "mysql_build_query ''5-3'' base ''chanaccess.idx'' (CSAccessMax cfg) = base" for base
    unfolding mysql_build_query_def using query_loop_clauses [of "''chanaccess.idx''" "CSAccessMax cfg"] assms(3) q by simp
  then show ?thesis using assms(1) n(1) by (simp add: do_cs_access_list_def access_select_def Let_def)
qed

end
