(* ===== verification/Sockets.thy ===== *)
theory Sockets
  imports Prelude "HOL-Library.Monad_Syntax"
begin

text \<open>
  Buffered input and output on the socket of the server (src/src/sockutil.c): two ring buffers, one
  position of each left free, and the reading of lines.  What the system calls give is a script in
  the state: for input what happens on the socket, moment by moment, for output how much each write
  takes.  A result None is an access outside a buffer, or a wait without a limit for data that never
  come.

  The theorems are that the output buffer is a queue in front of the socket as long as what is
  written fits, and that lines are read as they were sent, however the network cuts the stream.
\<close>

definition NET_BUFSIZE :: nat where "NET_BUFSIZE = 65536"

lemma NET_BUFSIZE_pos: "0 < NET_BUFSIZE" "1 < NET_BUFSIZE"
  by (simp_all add: NET_BUFSIZE_def)

section \<open>Ring buffers\<close>

record ring =
  rg_buf :: "char list"
  rg_cur :: nat
  rg_end :: nat

definition ring_len :: "ring \<Rightarrow> nat" where
  "ring_len r = (if rg_end r \<ge> rg_cur r then rg_end r - rg_cur r else (rg_end r + NET_BUFSIZE) - rg_cur r)"

definition ring_full :: "ring \<Rightarrow> bool" where
  "ring_full r \<longleftrightarrow> rg_end r + 1 = rg_cur r \<or> (rg_cur r = 0 \<and> rg_end r = NET_BUFSIZE - 1)"

text \<open>\<open>memcpy\<close> into the buffer.\<close>

definition blit :: "nat \<Rightarrow> char list \<Rightarrow> ring \<Rightarrow> ring option" where
  "blit off xs r =
     (if off + length xs \<le> length (rg_buf r)
      then Some (r\<lparr>rg_buf := take off (rg_buf r) @ xs @ drop (off + length xs) (rg_buf r)\<rparr>) else None)"

definition wrapped :: "nat \<Rightarrow> nat" where
  "wrapped i = (if i = NET_BUFSIZE then 0 else i)"

section \<open>Input\<close>

text \<open>
  What happens on the socket: a moment without data, or a time without data as long as the limit
  \<open>ReadTimeout\<close>; a signal that interrupts select, another error of select; or the socket is
  ready, and read gives bytes (none at the end of the stream) or fails.
\<close>

datatype rans = RIdle | RLong | RIntr | RBad | RFail | RData "char list"
datatype wans = WNone | WFail | WTake nat

record sock_state =
  sk_read :: ring
  sk_in :: "rans list"
  total_read :: int
  sk_write :: ring
  sk_out :: "wans list"
  sk_sent :: "char list"
  total_written :: int
  write_fd :: int
  lastchar :: int

text \<open>
  select and, if the socket is ready, read.  A select without a limit (\<open>tvptr\<close> is NULL) sleeps until
  something happens, perhaps for ever; one with a limit of zero looks and returns.
\<close>

datatype got = Hangs | NotReady | ReadError | Got "char list"

fun sys_read :: "bool \<Rightarrow> nat \<Rightarrow> rans list \<Rightarrow> got \<times> rans list" where
  "sys_read wait n [] = (if wait then Hangs else NotReady, [])"
| "sys_read wait n (RIdle # as) = (if wait then sys_read wait n as else (NotReady, as))"
| "sys_read wait n (RLong # as) = (if wait then sys_read wait n as else (NotReady, as))"
| "sys_read wait n (RIntr # as) = (NotReady, as)"
| "sys_read wait n (RBad # as) = (NotReady, as)"
| "sys_read wait n (RFail # as) = (ReadError, as)"
| "sys_read wait n (RData bs # as) = (Got (take n bs), if length bs \<le> n then as else RData (drop n bs) # as)"

definition maxread :: "ring \<Rightarrow> nat" where
  "maxread r =
     (if rg_end r < rg_cur r then rg_cur r - 1 - rg_end r
      else if rg_cur r = 0 then NET_BUFSIZE - rg_end r - 1
      else NET_BUFSIZE - rg_end r)"

definition ans_size :: "rans list \<Rightarrow> nat" where
  "ans_size as = sum_list (map (\<lambda>a. case a of RData bs \<Rightarrow> Suc (length bs) | _ \<Rightarrow> 1) as)"

lemma sys_read_size:
  "sys_read w n as = (ReadError, as') \<Longrightarrow> ans_size as' < ans_size as"
  "sys_read w n as = (Got bs, as') \<Longrightarrow> bs \<noteq> [] \<Longrightarrow> ans_size as' < ans_size as"
  by (induction w n as rule: sys_read.induct) (auto simp: ans_size_def split: if_splits)

text \<open>
  The loop that fills the buffer, which waits in its first select at most.  The result of read is
  kept in an unsigned variable: the error -1 passes the test and moves the end of the data back by
  one.
\<close>

function fill :: "bool \<Rightarrow> ring \<Rightarrow> rans list \<Rightarrow> (ring \<times> rans list) option" where
  "fill wait r as =
     (if ring_full r then Some (r, as)
      else
        (case sys_read wait (maxread r) as of
           (Hangs, as) \<Rightarrow> None
         | (NotReady, as) \<Rightarrow> Some (r, as)
         | (ReadError, as) \<Rightarrow> if rg_end r = 0 then None else fill False (r\<lparr>rg_end := rg_end r - 1\<rparr>) as
         | (Got bs, as) \<Rightarrow>
             if bs = [] then Some (r, as)
             else (case blit (rg_end r) bs r of
                     None \<Rightarrow> None
                   | Some r \<Rightarrow> fill False (r\<lparr>rg_end := wrapped (rg_end r + length bs)\<rparr>) as)))"
  by pat_completeness auto
termination by (relation "measure (\<lambda>(w, r, as). ans_size as)") (auto dest: sys_read_size [OF sym])

declare fill.simps [simp del]

text \<open>The first select waits exactly if the buffer is empty.\<close>

definition ring_empty :: "ring \<Rightarrow> bool" where
  "ring_empty r \<longleftrightarrow> rg_end r = rg_cur r"

definition EOF :: int where "EOF = -1"

definition buffered_read_one :: "int \<Rightarrow> sock_state \<Rightarrow> (int \<times> sock_state) option" where
  "buffered_read_one fd st =
     (if fd < 0 then Some (-1, st)
      else do {
        (r, as) \<leftarrow> fill (ring_empty (sk_read st)) (sk_read st) (sk_in st);
        let st = st\<lparr>sk_read := r, sk_in := as\<rparr>;
        if rg_cur r = rg_end r then Some (EOF, st)
        else if rg_cur r \<ge> length (rg_buf r) then None
        else Some (int (of_char (rg_buf r ! rg_cur r)),
                   st\<lparr>sk_read := r\<lparr>rg_cur := wrapped (rg_cur r + 1)\<rparr>, total_read := wrap32 (total_read st + 1)\<rparr>)
      })"

text \<open>One round of the loop of \<open>buffered_read\<close>: the bytes taken, or None when there are none left.\<close>

definition read_piece :: "ring \<Rightarrow> nat \<Rightarrow> (char list \<times> ring) option" where
  "read_piece r n =
     (if rg_cur r + n \<le> length (rg_buf r) then Some (take n (drop (rg_cur r) (rg_buf r)), r\<lparr>rg_cur := rg_cur r + n\<rparr>)
      else None)"

definition read_round :: "nat \<Rightarrow> ring \<Rightarrow> (char list \<times> ring) option" where
  "read_round left r =
     do {
       (bs, left, r) \<leftarrow>
         (if rg_cur r + left \<ge> NET_BUFSIZE \<and> rg_end r < rg_cur r
          then do {
            (bs, r) \<leftarrow> read_piece r (NET_BUFSIZE - rg_cur r);
            Some (bs, left - length bs, r\<lparr>rg_cur := 0\<rparr>)
          }
          else Some ([], left, r));
       (cs, r) \<leftarrow> read_piece r (if rg_end r > rg_cur r \<and> rg_end r - rg_cur r < left then rg_end r - rg_cur r else left);
       Some (bs @ cs, r)
     }"

partial_function (option) buffered_read_loop ::
  "nat \<Rightarrow> char list \<Rightarrow> sock_state \<Rightarrow> (char list \<times> sock_state) option" where
  "buffered_read_loop left got st =
     (if left = 0 then Some (got, st)
      else do {
        (r, as) \<leftarrow> fill (ring_empty (sk_read st)) (sk_read st) (sk_in st);
        let st = st\<lparr>sk_read := r, sk_in := as\<rparr>;
        if rg_cur r = rg_end r then Some (got, st)
        else do {
          (bs, r) \<leftarrow> read_round left r;
          buffered_read_loop (left - length bs) (got @ bs) (st\<lparr>sk_read := r\<rparr>)
        }
      })"

text \<open>The length that is returned, and the bytes put into the buffer of the caller.\<close>

definition buffered_read :: "int \<Rightarrow> nat \<Rightarrow> sock_state \<Rightarrow> (int \<times> char list \<times> sock_state) option" where
  "buffered_read fd len st =
     (if fd < 0 then Some (-1, [], st)
      else do {
        (bs, st) \<leftarrow> buffered_read_loop len [] st;
        Some (int (length bs), bs, st\<lparr>total_read := wrap32 (total_read st + int (length bs))\<rparr>)
      })"

definition sgetc :: "int \<Rightarrow> sock_state \<Rightarrow> (int \<times> sock_state) option" where
  "sgetc s st =
     (if lastchar st \<noteq> EOF then Some (lastchar st, st\<lparr>lastchar := EOF\<rparr>) else buffered_read_one s st)"

section \<open>Lines\<close>

datatype line_result = Timeout | Broken | Line "char list"

text \<open>
  The select in front of a line, with a limit and tried again after a signal: whether it timed out,
  and what happens afterwards.
\<close>

fun await :: "rans list \<Rightarrow> bool \<times> rans list" where
  "await [] = (True, [])"
| "await (RIdle # as) = await as"
| "await (RLong # as) = (True, as)"
| "await (RIntr # as) = await as"
| "await (RBad # as) = (False, as)"
| "await (a # as) = (False, a # as)"

definition char_byte :: "int \<Rightarrow> char" where
  "char_byte c = char_of (nat (c mod 256))"

text \<open>
  \<open>while (--len && (*ptr++ = c) != '\n' && (c = sgetc(s)) >= 0);\<close> the last value of \<open>c\<close>, what has
  been stored, and the state.
\<close>

fun sgets_loop :: "nat \<Rightarrow> int \<Rightarrow> int \<Rightarrow> char list \<Rightarrow> sock_state \<Rightarrow> (int \<times> char list \<times> sock_state) option" where
  "sgets_loop 0 s c buf st = Some (c, buf, st)"
| "sgets_loop (Suc k) s c buf st =
     (if char_byte c = CHR 0x0A then Some (c, buf @ [char_byte c], st)
      else do {
        (c', st) \<leftarrow> sgetc s st;
        if c' \<ge> 0 then sgets_loop k s c' (buf @ [char_byte c]) st else Some (c', buf @ [char_byte c], st)
      })"

definition sgets :: "nat \<Rightarrow> int \<Rightarrow> sock_state \<Rightarrow> (line_result \<times> sock_state) option" where
  "sgets len s st =
     (if len = 0 then Some (Broken, st)
      else
        (let (timeout, as) = (if ring_len (sk_read st) = 0 then await (sk_in st) else (False, sk_in st));
             st = st\<lparr>sk_in := as\<rparr>
         in if timeout then Some (Timeout, st)
            else do {
              (c, st) \<leftarrow> sgetc s st;
              (c, buf, st) \<leftarrow> sgets_loop (len - 1) s c [] st;
              Some (if c < 0 then Broken else Line buf, st)
            }))"

text \<open>
  Stripping the end of the line reads the last character of the text and, behind a newline, the one
  in front of it; either may lie in front of the buffer.
\<close>

definition strip_line :: "char list \<Rightarrow> char list option" where
  "strip_line buf =
     (let t = takeWhile (\<lambda>c. c \<noteq> CHR 0x00) buf
      in if t = [] then None
         else
           (let u = (if last t = CHR 0x0A then butlast t else t)
            in if u = [] then None else Some (if last u = CHR 0x0D then butlast u else u)))"

text \<open>
  \<open>sgets2\<close> returns a pointer as an int: 0 and -1 for the pointers that stand for a broken connection
  and a timeout, the low 32 bits of the address of the buffer for a line, which is then in the buffer.
\<close>

definition sgets2 :: "nat \<Rightarrow> nat \<Rightarrow> int \<Rightarrow> sock_state \<Rightarrow> (int \<times> char list option \<times> sock_state) option" where
  "sgets2 addr len s st =
     do {
       (res, st) \<leftarrow> sgets len s st;
       case res of
         Line buf \<Rightarrow> (case strip_line buf of None \<Rightarrow> None | Some t \<Rightarrow> Some (wrap32 (int addr), Some t, st))
       | Broken \<Rightarrow> Some (0, None, st)
       | Timeout \<Rightarrow> Some (-1, None, st)
     }"

text \<open>What the main loop does with the result: a line is processed if the number is positive.\<close>

datatype heard = Process "char list" | ReadErrorQuit | Nothing

definition hear :: "nat \<Rightarrow> nat \<Rightarrow> int \<Rightarrow> sock_state \<Rightarrow> (heard \<times> sock_state) option" where
  "hear addr len s st =
     do {
       (i, t, st) \<leftarrow> sgets2 addr len s st;
       Some (if i > 0 then (case t of Some t \<Rightarrow> Process t | None \<Rightarrow> Nothing)
             else if i = 0 then ReadErrorQuit else Nothing, st)
     }"

section \<open>Output\<close>

definition maxwrite :: "ring \<Rightarrow> nat" where
  "maxwrite r =
     (if rg_cur r > rg_end r then NET_BUFSIZE - rg_cur r
      else if rg_end r = 0 then NET_BUFSIZE - rg_cur r - 1
      else rg_end r - rg_cur r)"

text \<open>The error -1 of write is an unsigned number too, and takes the position back by one.\<close>

definition flush_write_buffer :: "sock_state \<Rightarrow> (int \<times> sock_state) option" where
  "flush_write_buffer st =
     (let r = sk_write st
      in if rg_end r = rg_cur r \<or> write_fd st = -1 then Some (0, st)
         else
           (case sk_out st of
              [] \<Rightarrow> Some (0, st)
            | WNone # as \<Rightarrow> Some (0, st\<lparr>sk_out := as\<rparr>)
            | WFail # as \<Rightarrow>
                if rg_cur r = 0 then None
                else Some (-1, st\<lparr>sk_out := as, sk_write := r\<lparr>rg_cur := rg_cur r - 1\<rparr>,
                                 total_written := wrap32 (total_written st - 1)\<rparr>)
            | WTake k # as \<Rightarrow>
                (let n = min k (maxwrite r)
                 in Some (int n, st\<lparr>sk_out := as, sk_write := r\<lparr>rg_cur := wrapped (rg_cur r + n)\<rparr>,
                            sk_sent := sk_sent st @ take n (drop (rg_cur r) (rg_buf r)),
                            total_written := wrap32 (total_written st + int n)\<rparr>))))"

text \<open>The copying of one round: what is left of the data, and the buffer.\<close>

definition copy_top :: "char list \<Rightarrow> ring \<Rightarrow> (char list \<times> ring) option" where
  "copy_top xs r =
     (if rg_end r + length xs \<ge> NET_BUFSIZE \<and> rg_cur r \<le> rg_end r
      then (let n = NET_BUFSIZE - rg_end r
            in case blit (rg_end r) (take n xs) r of None \<Rightarrow> None | Some r \<Rightarrow> Some (drop n xs, r\<lparr>rg_end := 0\<rparr>))
      else Some (xs, r))"

definition copy_rest :: "char list \<Rightarrow> ring \<Rightarrow> (char list \<times> ring) option" where
  "copy_rest xs r =
     (let n = (if rg_cur r > rg_end r \<and> rg_cur r - rg_end r - 1 < length xs then rg_cur r - rg_end r - 1 else length xs)
      in case blit (rg_end r) (take n xs) r of None \<Rightarrow> None | Some r \<Rightarrow> Some (drop n xs, r\<lparr>rg_end := rg_end r + n\<rparr>))"

partial_function (option) write_loop :: "char list \<Rightarrow> sock_state \<Rightarrow> (char list \<times> sock_state) option" where
  "write_loop xs st =
     (if xs = [] then Some (xs, st)
      else do {
        (xs, r) \<leftarrow>
          (if \<not> ring_full (sk_write st) then do { (xs, r) \<leftarrow> copy_top xs (sk_write st); copy_rest xs r }
           else Some (xs, sk_write st));
        (n, st) \<leftarrow> flush_write_buffer (st\<lparr>sk_write := r\<rparr>);
        if ring_full (sk_write st) then Some (xs, st) else write_loop xs st
      })"

definition buffered_write :: "int \<Rightarrow> char list \<Rightarrow> sock_state \<Rightarrow> (int \<times> sock_state) option" where
  "buffered_write fd xs st =
     (if fd < 0 then Some (-1, st)
      else do {
        (rest, st) \<leftarrow> write_loop xs (st\<lparr>write_fd := fd\<rparr>);
        Some (int (length xs) - int (length rest), st)
      })"

definition sread :: "int \<Rightarrow> nat \<Rightarrow> sock_state \<Rightarrow> (int \<times> char list \<times> sock_state) option" where
  "sread s len st = buffered_read s len st"

definition sputs :: "char list \<Rightarrow> int \<Rightarrow> sock_state \<Rightarrow> (int \<times> sock_state) option" where
  "sputs t s st = buffered_write s t st"

text \<open>The text is the formatted one.\<close>

definition sockprintf :: "int \<Rightarrow> char list \<Rightarrow> sock_state \<Rightarrow> (int \<times> sock_state) option" where
  "sockprintf s t st = buffered_write s t st"


section \<open>A ring is a queue\<close>

definition ring_ok :: "ring \<Rightarrow> bool" where
  "ring_ok r \<longleftrightarrow> length (rg_buf r) = NET_BUFSIZE \<and> rg_cur r < NET_BUFSIZE \<and> rg_end r < NET_BUFSIZE"

definition queued :: "ring \<Rightarrow> char list" where
  "queued r =
     (if rg_cur r \<le> rg_end r then take (rg_end r - rg_cur r) (drop (rg_cur r) (rg_buf r))
      else drop (rg_cur r) (rg_buf r) @ take (rg_end r) (rg_buf r))"

lemma length_queued: "ring_ok r \<Longrightarrow> length (queued r) = ring_len r"
  by (auto simp: ring_ok_def queued_def ring_len_def)

lemma queued_Nil: "ring_ok r \<Longrightarrow> queued r = [] \<longleftrightarrow> rg_cur r = rg_end r"
  by (auto simp: ring_ok_def queued_def)

lemma ring_full_len: "ring_ok r \<Longrightarrow> ring_full r \<longleftrightarrow> ring_len r = NET_BUFSIZE - 1"
  using NET_BUFSIZE_pos by (auto simp: ring_ok_def ring_full_def ring_len_def)

text \<open>The free positions behind the end that follow each other.\<close>

definition gap :: "ring \<Rightarrow> nat" where
  "gap r = (if rg_end r < rg_cur r then rg_cur r - rg_end r - 1
            else if rg_cur r = 0 then NET_BUFSIZE - rg_end r - 1 else NET_BUFSIZE - rg_end r)"

lemma store_queued:
  assumes ok: "ring_ok r" and n: "length xs \<le> gap r"
  shows "\<exists>r'. blit (rg_end r) xs r = Some r' \<and> rg_cur r' = rg_cur r \<and> rg_end r' = rg_end r \<and> rg_buf r' \<noteq> [] \<and>
    ring_ok (r'\<lparr>rg_end := wrapped (rg_end r + length xs)\<rparr>) \<and>
    queued (r'\<lparr>rg_end := wrapped (rg_end r + length xs)\<rparr>) = queued r @ xs"
proof -
  obtain buf cur en where r: "r = \<lparr>rg_buf = buf, rg_cur = cur, rg_end = en\<rparr>" by (cases r) simp
  define buf' where "buf' = take en buf @ xs @ drop (en + length xs) buf"
  have l: "length buf = NET_BUFSIZE" "cur < NET_BUFSIZE" "en < NET_BUFSIZE" using ok by (simp_all add: ring_ok_def r)
  have fit: "en + length xs \<le> NET_BUFSIZE" using n l by (auto simp: gap_def r split: if_splits)
  have len': "length buf' = NET_BUFSIZE" using l fit by (simp add: buf'_def)
  have "queued (r\<lparr>rg_buf := buf', rg_end := wrapped (en + length xs)\<rparr>) = queued r @ xs"
  proof (cases "cur \<le> en")
    case True
    have mid: "take (en + length xs - cur) (drop cur buf') = take (en - cur) (drop cur buf) @ xs"
    proof -
      have "drop cur buf' = drop cur (take en buf) @ xs @ drop (en + length xs) buf" using True l by (simp add: buf'_def)
      moreover have "length (drop cur (take en buf)) = en - cur" using True l by simp
      ultimately show ?thesis using True by (simp add: drop_take)
    qed
    show ?thesis
    proof (cases "en + length xs = NET_BUFSIZE")
      case top: True
      have "cur \<noteq> 0"
      proof
        assume "cur = 0"
        then have "length xs \<le> NET_BUFSIZE - en - 1" using n True by (simp add: gap_def r)
        then show False using top l by linarith
      qed
      moreover have "drop cur buf' = take (en + length xs - cur) (drop cur buf')" using len' top by simp
      ultimately show ?thesis using mid True by (simp add: queued_def r wrapped_def top)
    next
      case False
      then show ?thesis using mid True by (simp add: queued_def r wrapped_def)
    qed
  next
    case False
    then have short: "en + length xs < cur" using n by (simp add: gap_def r)
    then have "drop cur buf' = drop cur buf" "take (en + length xs) buf' = take en buf @ xs" using l by (simp_all add: buf'_def)
    then show ?thesis using False short l by (simp add: queued_def r wrapped_def)
  qed
  moreover have "ring_ok (r\<lparr>rg_buf := buf', rg_end := wrapped (en + length xs)\<rparr>)"
    using l len' fit NET_BUFSIZE_pos by (auto simp: ring_ok_def r wrapped_def)
  moreover have "buf' \<noteq> []" using len' NET_BUFSIZE_pos by auto
  ultimately show ?thesis using l fit by (simp add: blit_def r buf'_def)
qed

text \<open>Stepping over the first bytes.\<close>

lemma skip_queued:
  assumes ok: "ring_ok r" and n: "n \<le> (if rg_cur r \<le> rg_end r then rg_end r - rg_cur r else NET_BUFSIZE - rg_cur r)"
  shows "ring_ok (r\<lparr>rg_cur := wrapped (rg_cur r + n)\<rparr>)"
    "queued r = take n (drop (rg_cur r) (rg_buf r)) @ queued (r\<lparr>rg_cur := wrapped (rg_cur r + n)\<rparr>)"
proof -
  obtain buf cur en where r: "r = \<lparr>rg_buf = buf, rg_cur = cur, rg_end = en\<rparr>" by (cases r) simp
  have l: "length buf = NET_BUFSIZE" "cur < NET_BUFSIZE" "en < NET_BUFSIZE" using ok by (simp_all add: ring_ok_def r)
  show "ring_ok (r\<lparr>rg_cur := wrapped (rg_cur r + n)\<rparr>)"
    using l n NET_BUFSIZE_pos by (auto simp: ring_ok_def r wrapped_def split: if_splits)
  show "queued r = take n (drop (rg_cur r) (rg_buf r)) @ queued (r\<lparr>rg_cur := wrapped (rg_cur r + n)\<rparr>)"
  proof (cases "cur \<le> en")
    case True
    then have "n \<le> en - cur" using n by (simp add: r)
    then have e: "en - cur = n + (en - (cur + n))" by simp
    have "take (en - cur) (drop cur buf) = take n (drop cur buf) @ take (en - (cur + n)) (drop (cur + n) buf)"
      by (subst e) (simp add: take_add add.commute)
    moreover have "cur + n \<le> en" "cur + n \<noteq> NET_BUFSIZE" using True l \<open>n \<le> en - cur\<close> by linarith+
    ultimately show ?thesis using True by (simp add: queued_def r wrapped_def)
  next
    case False
    then have n': "n \<le> NET_BUFSIZE - cur" using n by (simp add: r)
    show ?thesis
    proof (cases "cur + n = NET_BUFSIZE")
      case top: True
      then show ?thesis using False l by (simp add: queued_def r wrapped_def)
    next
      case no: False
      have "drop cur buf = take n (drop cur buf) @ drop (cur + n) buf"
        by (metis add.commute append_take_drop_id drop_drop)
      then show ?thesis using False no by (simp add: queued_def r wrapped_def)
    qed
  qed
qed


section \<open>Writing\<close>

lemma copy_all:
  assumes ok: "ring_ok r" and room: "ring_len r + length xs < NET_BUFSIZE"
  shows "\<exists>r'. Option.bind (copy_top xs r) (\<lambda>(xs, r). copy_rest xs r) = Some ([], r') \<and> ring_ok r' \<and> queued r' = queued r @ xs"
proof (cases "NET_BUFSIZE \<le> rg_end r + length xs \<and> rg_cur r \<le> rg_end r")
  case True
  define n where "n = NET_BUFSIZE - rg_end r"
  have l: "rg_cur r < NET_BUFSIZE" "rg_end r < NET_BUFSIZE" using ok by (simp_all add: ring_ok_def)
  have c: "rg_cur r \<noteq> 0" "length xs - n < rg_cur r" using True room l by (auto simp: ring_len_def n_def)
  have n: "length (take n xs) = n" "n \<le> gap r" using True c(1) by (auto simp: n_def gap_def)
  obtain r1 where r1: "blit (rg_end r) (take n xs) r = Some r1" "rg_cur r1 = rg_cur r"
    "ring_ok (r1\<lparr>rg_end := wrapped (rg_end r + n)\<rparr>)" "queued (r1\<lparr>rg_end := wrapped (rg_end r + n)\<rparr>) = queued r @ take n xs"
    using store_queued [OF ok, of "take n xs"] n by auto
  define r2 where "r2 = r1\<lparr>rg_end := 0\<rparr>"
  have w: "wrapped (rg_end r + n) = 0" using l by (simp add: wrapped_def n_def)
  have top: "copy_top xs r = Some (drop n xs, r2)" using True r1(1) by (simp add: copy_top_def Let_def r2_def n_def)
  have r2: "ring_ok r2" "queued r2 = queued r @ take n xs" "rg_end r2 = 0" "rg_cur r2 = rg_cur r"
    using r1 w by (simp_all add: r2_def)
  have g: "length (drop n xs) \<le> gap r2" using c r2 by (simp add: gap_def)
  obtain r3 where r3: "blit 0 (drop n xs) r2 = Some r3"
    "ring_ok (r3\<lparr>rg_end := wrapped (length (drop n xs))\<rparr>)"
    "queued (r3\<lparr>rg_end := wrapped (length (drop n xs))\<rparr>) = queued r2 @ drop n xs" "rg_end r3 = 0"
    using store_queued [OF r2(1) g] r2(3) by auto
  have w2: "wrapped (length (drop n xs)) = length (drop n xs)" using c(2) l by (simp add: wrapped_def)
  moreover have "\<not> (rg_end r2 < rg_cur r2 \<and> rg_cur r2 - rg_end r2 - 1 < length (drop n xs))"
    using c(2) r2(3,4) by (simp only: length_drop) linarith
  moreover have "take (length (drop n xs)) (drop n xs) = drop n xs" "drop (length (drop n xs)) (drop n xs) = []"
    by (simp_all only: take_all drop_all order_refl)
  ultimately have "copy_rest (drop n xs) r2 = Some ([], r3\<lparr>rg_end := length (drop n xs)\<rparr>)"
    unfolding copy_rest_def Let_def using r3(1,4) r2(3) by (simp only: if_False option.case add_0)
  then show ?thesis using top r3(2,3) r2(2) w2 by (simp add: append_take_drop_id)
next
  case False
  have l: "rg_cur r < NET_BUFSIZE" "rg_end r < NET_BUFSIZE" using ok by (simp_all add: ring_ok_def)
  have top: "copy_top xs r = Some (xs, r)" unfolding copy_top_def if_not_P [OF False] ..
  have g: "length xs \<le> gap r" "rg_end r + length xs < NET_BUFSIZE" using False room l by (auto simp: gap_def ring_len_def split: if_splits)
  have s: "\<not> (rg_end r < rg_cur r \<and> rg_cur r - rg_end r - 1 < length xs)" using g(1) by (auto simp: gap_def)
  have w: "wrapped (rg_end r + length xs) = rg_end r + length xs" using g(2) by (simp add: wrapped_def)
  show ?thesis using store_queued [OF ok g(1)] s unfolding w by (auto simp: top copy_rest_def Let_def)
qed

definition written :: "sock_state \<Rightarrow> char list" where
  "written st = sk_sent st @ queued (sk_write st)"

lemma flush_ok:
  assumes ok: "ring_ok (sk_write st)" and a: "WFail \<notin> set (sk_out st)"
  shows "\<exists>n st'. flush_write_buffer st = Some (n, st') \<and> ring_ok (sk_write st') \<and> written st' = written st \<and>
    (\<exists>ys. sk_sent st' = sk_sent st @ ys) \<and> WFail \<notin> set (sk_out st')"
proof (cases "rg_end (sk_write st) = rg_cur (sk_write st) \<or> write_fd st = -1")
  case True
  then show ?thesis using assms by (auto simp: flush_write_buffer_def Let_def)
next
  case go: False
  show ?thesis
  proof (cases "sk_out st")
    case Nil
    then show ?thesis using assms go by (auto simp: flush_write_buffer_def Let_def)
  next
    case (Cons x as)
    show ?thesis
    proof (cases x)
      case WNone
      then show ?thesis using assms go Cons by (auto simp: flush_write_buffer_def Let_def written_def)
    next
      case WFail
      then show ?thesis using a Cons by simp
    next
      case (WTake k)
      define r where "r = sk_write st"
      define n where "n = min k (maxwrite r)"
      have "n \<le> (if rg_cur r \<le> rg_end r then rg_end r - rg_cur r else NET_BUFSIZE - rg_cur r)"
        using go by (auto simp: n_def maxwrite_def r_def)
      from skip_queued [OF ok [folded r_def] this] show ?thesis
        using go a unfolding r_def [symmetric]
        by (auto simp: flush_write_buffer_def Let_def Cons WTake written_def simp flip: r_def n_def)
    qed
  qed
qed

text \<open>
  C9: as long as what is written fits the buffer behind what waits there, \<open>buffered_write\<close> takes all
  of it and never leaves the buffer; what the socket has been given, followed by what waits, is
  what has been written, in order.
\<close>

theorem buffered_write_queue:
  assumes "ring_ok (sk_write st)" and "WFail \<notin> set (sk_out st)" and "0 \<le> fd"
    and "ring_len (sk_write st) + length xs < NET_BUFSIZE"
  shows "\<exists>st'. buffered_write fd xs st = Some (int (length xs), st') \<and> ring_ok (sk_write st') \<and>
    WFail \<notin> set (sk_out st') \<and> written st' = written st @ xs \<and> (\<exists>ys. sk_sent st' = sk_sent st @ ys)"
proof (cases "xs = []")
  case True
  then show ?thesis using assms by (simp add: buffered_write_def write_loop.simps [of "[]"] written_def)
next
  case False
  define st0 where "st0 = st\<lparr>write_fd := fd\<rparr>"
  obtain r where r: "Option.bind (copy_top xs (sk_write st0)) (\<lambda>(xs, r). copy_rest xs r) = Some ([], r)" "ring_ok r"
    "queued r = queued (sk_write st0) @ xs"
    using copy_all [of "sk_write st0" xs] assms(1,4) by (auto simp: st0_def)
  obtain n st1 where f: "flush_write_buffer (st0\<lparr>sk_write := r\<rparr>) = Some (n, st1)" "ring_ok (sk_write st1)"
    "written st1 = written (st0\<lparr>sk_write := r\<rparr>)" "\<exists>ys. sk_sent st1 = sk_sent (st0\<lparr>sk_write := r\<rparr>) @ ys" "WFail \<notin> set (sk_out st1)"
    using flush_ok [of "st0\<lparr>sk_write := r\<rparr>"] r(2) assms(2) by (auto simp: st0_def)
  have "length xs \<noteq> 0" using False by simp
  then have "ring_len (sk_write st) \<noteq> NET_BUFSIZE - 1" using assms(4) by linarith
  then have "\<not> ring_full (sk_write st0)" using ring_full_len [OF assms(1)] by (simp add: st0_def)
  then have "write_loop xs st0 = Some ([], st1)"
    using False r(1) f(1) write_loop.simps [of "[]" st1] by (subst write_loop.simps) simp
  then show ?thesis
    using assms(3) f r(3) by (auto simp: buffered_write_def st0_def written_def)
qed

definition fresh_ring :: ring where
  "fresh_ring = \<lparr>rg_buf = replicate NET_BUFSIZE CHR 0x00, rg_cur = 0, rg_end = 0\<rparr>"

definition fresh_sock :: "rans list \<Rightarrow> wans list \<Rightarrow> sock_state" where
  "fresh_sock as ws =
     \<lparr>sk_read = fresh_ring, sk_in = as, total_read = 0, sk_write = fresh_ring, sk_out = ws, sk_sent = [],
      total_written = 0, write_fd = -1, lastchar = EOF\<rparr>"

lemma fresh_ok: "ring_ok fresh_ring" "queued fresh_ring = []" "ring_len fresh_ring = 0"
  using NET_BUFSIZE_pos by (simp_all add: ring_ok_def fresh_ring_def queued_def ring_len_def)

theorem buffered_write_queue_witness:
  "\<exists>st'. buffered_write 5 ''PING'' (fresh_sock [] [WTake 3]) = Some (4, st') \<and> written st' = ''PING''"
  using buffered_write_queue [of "fresh_sock [] [WTake 3]" 5 "''PING''"] fresh_ok
  by (auto simp: fresh_sock_def written_def NET_BUFSIZE_def)

text \<open>
  A text that fills the rest of the buffer while nothing has been taken from it yet is counted as
  written and lost, with all that waited: the buffer is empty afterwards.
\<close>

lemma write_loses:
  assumes r: "ring_ok (sk_write st)" "rg_cur (sk_write st) = 0" and e: "rg_end (sk_write st) < NET_BUFSIZE - 1"
    and xs: "length xs = NET_BUFSIZE - rg_end (sk_write st)"
  shows "\<exists>st'. buffered_write 5 xs st = Some (int (length xs), st') \<and> queued (sk_write st') = [] \<and> sk_sent st' = sk_sent st"
proof -
  let ?r = "sk_write st"
  have l: "rg_end ?r < NET_BUFSIZE" "length (rg_buf ?r) = NET_BUFSIZE" using r by (simp_all add: ring_ok_def)
  have ne: "xs \<noteq> []" using xs l(1) by auto
  have nf: "\<not> ring_full ?r" using r(2) e by (simp add: ring_full_def)
  define r1 where "r1 = ?r\<lparr>rg_buf := take (rg_end ?r) (rg_buf ?r) @ xs, rg_end := 0\<rparr>"
  have top: "copy_top xs ?r = Some ([], r1)" using r(2) xs l by (simp add: copy_top_def blit_def r1_def)
  have rest: "copy_rest [] r1 = Some ([], r1)" using l by (simp add: copy_rest_def blit_def r1_def)
  have f: "flush_write_buffer (st\<lparr>write_fd := 5, sk_write := r1\<rparr>) = Some (0, st\<lparr>write_fd := 5, sk_write := r1\<rparr>)"
    using r(2) by (simp add: flush_write_buffer_def r1_def)
  have "\<not> ring_full r1" using r(2) NET_BUFSIZE_pos by (simp add: ring_full_def r1_def)
  then have "write_loop xs (st\<lparr>write_fd := 5\<rparr>) = Some ([], st\<lparr>write_fd := 5, sk_write := r1\<rparr>)"
    using nf ne top rest f write_loop.simps [of "[]"] by (subst write_loop.simps) simp
  then show ?thesis using r(2) by (simp add: buffered_write_def queued_def r1_def)
qed


section \<open>Reading\<close>

definition data_of :: "rans list \<Rightarrow> char list" where
  "data_of as = concat (map (\<lambda>a. case a of RData bs \<Rightarrow> bs | _ \<Rightarrow> []) as)"

text \<open>All that is still to be read.\<close>

definition stream :: "sock_state \<Rightarrow> char list" where
  "stream st = queued (sk_read st) @ data_of (sk_in st)"

text \<open>
  A connection that holds: data come, with moments without any in between, at whatever places.
\<close>

definition steady :: "rans list \<Rightarrow> bool" where
  "steady as \<longleftrightarrow> (\<forall>a\<in>set as. a = RIdle \<or> (\<exists>bs. a = RData bs \<and> bs \<noteq> []))"

definition receiving :: "sock_state \<Rightarrow> bool" where
  "receiving st \<longleftrightarrow> ring_ok (sk_read st) \<and> steady (sk_in st) \<and> lastchar st = EOF"

lemma sys_read_ok:
  assumes "steady as" and "0 < n" and "w \<longrightarrow> data_of as \<noteq> []"
  shows "(\<not> w \<and> (\<exists>as'. sys_read w n as = (NotReady, as') \<and> steady as' \<and> data_of as' = data_of as)) \<or>
    (\<exists>bs as'. sys_read w n as = (Got bs, as') \<and> bs \<noteq> [] \<and> length bs \<le> n \<and> steady as' \<and> bs @ data_of as' = data_of as)"
  using assms
proof (induction w n as rule: sys_read.induct)
  case (7 w n bs as)
  then show ?case by (auto simp: data_of_def steady_def)
qed (auto simp: data_of_def steady_def)

lemma gap_maxread: "maxread r = gap r"
  by (simp add: maxread_def gap_def)

lemma fill_ok:
  assumes "ring_ok r" and "steady as" and "w \<longrightarrow> data_of as \<noteq> []"
  shows "\<exists>r' as'. fill w r as = Some (r', as') \<and> ring_ok r' \<and> steady as' \<and>
    queued r' @ data_of as' = queued r @ data_of as \<and> (w \<or> queued r \<noteq> [] \<longrightarrow> queued r' \<noteq> [])"
  using assms
proof (induction w r as rule: fill.induct)
  case (1 w r as)
  show ?case
  proof (cases "ring_full r")
    case True
    then have "ring_len r \<noteq> 0" using ring_full_len [OF "1.prems"(1)] NET_BUFSIZE_pos by simp
    then have "queued r \<noteq> []" using length_queued [OF "1.prems"(1)] by auto
    then show ?thesis using True "1.prems" by (simp add: fill.simps)
  next
    case nf: False
    then have g: "0 < maxread r" using "1.prems"(1) unfolding gap_maxread by (auto simp: gap_def ring_full_def ring_ok_def)
    show ?thesis
      using sys_read_ok [OF "1.prems"(2) g "1.prems"(3)]
    proof (elim disjE exE conjE)
      fix as' assume "\<not> w" "sys_read w (maxread r) as = (NotReady, as')" "steady as'" "data_of as' = data_of as"
      then show ?thesis using nf "1.prems"(1) by (auto simp: fill.simps [of _ r])
    next
      fix bs as' assume b: "sys_read w (maxread r) as = (Got bs, as')" "bs \<noteq> []" "length bs \<le> maxread r" "steady as'"
        "bs @ data_of as' = data_of as"
      obtain r1 where r1: "blit (rg_end r) bs r = Some r1" "rg_end r1 = rg_end r"
        "ring_ok (r1\<lparr>rg_end := wrapped (rg_end r + length bs)\<rparr>)"
        "queued (r1\<lparr>rg_end := wrapped (rg_end r + length bs)\<rparr>) = queued r @ bs"
        using store_queued [OF "1.prems"(1)] b(3) unfolding gap_maxread by blast
      have run: "fill w r as = fill False (r1\<lparr>rg_end := wrapped (rg_end r1 + length bs)\<rparr>) as'"
        using nf b(1,2) r1(1) by (simp add: fill.simps [of w r])
      obtain r' as2 where f: "fill False (r1\<lparr>rg_end := wrapped (rg_end r1 + length bs)\<rparr>) as' = Some (r', as2)" "ring_ok r'"
        "steady as2" "queued r' @ data_of as2 = queued r @ bs @ data_of as'" "queued r' \<noteq> []"
        using "1.IH"(2) [OF nf b(1) [symmetric] refl b(2) r1(1)] r1(3,4) b(2,4) unfolding r1(2) by auto
      then show ?thesis using run b(5) by auto
    qed
  qed
qed


lemma sgetc_next:
  assumes r: "receiving st" and fd: "0 \<le> s" and st: "stream st = c # cs"
  shows "\<exists>st'. sgetc s st = Some (int (of_char c), st') \<and> receiving st' \<and> stream st' = cs"
proof -
  have ok: "ring_ok (sk_read st)" and e: "steady (sk_in st)" and l: "lastchar st = EOF" using r by (auto simp: receiving_def)
  have w: "ring_empty (sk_read st) \<longleftrightarrow> queued (sk_read st) = []" using queued_Nil [OF ok] by (auto simp: ring_empty_def)
  then have "ring_empty (sk_read st) \<longrightarrow> data_of (sk_in st) \<noteq> []" using st by (auto simp: stream_def)
  from fill_ok [OF ok e this] obtain ring as where
    f: "fill (ring_empty (sk_read st)) (sk_read st) (sk_in st) = Some (ring, as)" "ring_ok ring" "steady as"
      "queued ring @ data_of as = c # cs" and ne: "queued ring \<noteq> []"
    using st w unfolding stream_def by auto
  then have p: "rg_cur ring \<noteq> rg_end ring" using queued_Nil [OF f(2)] by simp
  have len: "length (rg_buf ring) = NET_BUFSIZE" "rg_cur ring < NET_BUFSIZE" using f(2) by (simp_all add: ring_ok_def)
  have one: "1 \<le> (if rg_cur ring \<le> rg_end ring then rg_end ring - rg_cur ring else NET_BUFSIZE - rg_cur ring)"
    using p len by auto
  have "take 1 (drop (rg_cur ring) (rg_buf ring)) = [rg_buf ring ! rg_cur ring]"
    using len by (simp add: take_Suc_conv_app_nth hd_drop_conv_nth take_Suc)
  with skip_queued [OF f(2) one] f(4) have q: "ring_ok (ring\<lparr>rg_cur := wrapped (rg_cur ring + 1)\<rparr>)" "rg_buf ring ! rg_cur ring = c"
    "queued (ring\<lparr>rg_cur := wrapped (rg_cur ring + 1)\<rparr>) @ data_of as = cs"
    by simp_all
  define st' where "st' = st\<lparr>sk_read := ring\<lparr>rg_cur := wrapped (rg_cur ring + 1)\<rparr>, sk_in := as, total_read := wrap32 (total_read st + 1)\<rparr>"
  have "sgetc s st = Some (int (of_char c), st')"
    using l fd f(1) p len q(2) by (simp add: sgetc_def buffered_read_one_def st'_def)
  moreover have "receiving st'" using q(1) f(3) l by (simp add: receiving_def st'_def)
  moreover have "stream st' = cs" using q(3) by (simp add: stream_def st'_def)
  ultimately show ?thesis by blast
qed

lemma char_byte_of: "char_byte (int (of_char c)) = c"
proof -
  have "of_char c < (256 :: nat)" by (cases c) (simp add: of_char_def)
  then show ?thesis by (simp add: char_byte_def)
qed

lemma sgets_loop_line:
  assumes "c # stream st = l @ CHR 0x0A # rest" and "CHR 0x0A \<notin> set l" and "length l < k" and "receiving st" and "0 \<le> s"
  shows "\<exists>i st'. sgets_loop k s (int (of_char c)) buf st = Some (i, buf @ l @ [CHR 0x0A], st') \<and> 0 \<le> i \<and>
    receiving st' \<and> stream st' = rest"
  using assms
proof (induction l arbitrary: c buf st k)
  case Nil
  then show ?case using char_byte_of [of "CHR 0x0A"] by (cases k) auto
next
  case (Cons d l)
  obtain k' where k: "k = Suc k'" "length l < k'" using Cons.prems(3) by (cases k) auto
  have d: "c = d" "d \<noteq> CHR 0x0A" "stream st = l @ CHR 0x0A # rest" using Cons.prems(1,2) by auto
  obtain e es where e: "stream st = e # es" using d(3) by (cases l) auto
  obtain st1 where st1: "sgetc s st = Some (int (of_char e), st1)" "receiving st1" "stream st1 = es"
    using sgetc_next [OF Cons.prems(4,5) e] by blast
  have "e # stream st1 = l @ CHR 0x0A # rest" using d(3) e st1(3) by simp
  from Cons.IH [OF this _ k(2) st1(2) Cons.prems(5), of "buf @ [d]"] Cons.prems(2)
  show ?case using k(1) d st1(1) by (auto simp: char_byte_of)
qed

lemma await_steady:
  "steady as \<Longrightarrow> data_of as \<noteq> [] \<Longrightarrow> \<exists>as'. await as = (False, as') \<and> steady as' \<and> data_of as' = data_of as"
  by (induction as rule: await.induct) (auto simp: steady_def data_of_def)

text \<open>Waiting for a line leaves what is to be read.\<close>

lemma wait_line:
  assumes r: "receiving st" and st: "stream st \<noteq> []"
  shows "\<exists>as. (if ring_len (sk_read st) = 0 then await (sk_in st) else (False, sk_in st)) = (False, as) \<and>
    receiving (st\<lparr>sk_in := as\<rparr>) \<and> stream (st\<lparr>sk_in := as\<rparr>) = stream st"
proof (cases "ring_len (sk_read st) = 0")
  case True
  have ok: "ring_ok (sk_read st)" "steady (sk_in st)" using r by (auto simp: receiving_def)
  have "data_of (sk_in st) \<noteq> []" using st True length_queued [OF ok(1)] by (simp add: stream_def)
  from await_steady [OF ok(2) this] show ?thesis using True r by (auto simp: receiving_def stream_def)
next
  case False
  then show ?thesis using r by (simp add: receiving_def stream_def)
qed

text \<open>A line that is sent, and a text without a NUL or a newline.\<close>

definition wire :: "char list \<Rightarrow> char list" where
  "wire t = t @ [CHR 0x0D, CHR 0x0A]"

definition plain_text :: "char list \<Rightarrow> bool" where
  "plain_text t \<longleftrightarrow> CHR 0x00 \<notin> set t \<and> CHR 0x0A \<notin> set t"

lemma sgets2_line:
  assumes r: "receiving st" and s: "0 \<le> s" and st: "stream st = wire t @ rest" and t: "plain_text t" and len: "length t + 2 < len"
  shows "\<exists>st'. sgets2 addr len s st = Some (wrap32 (int addr), Some t, st') \<and> receiving st' \<and> stream st' = rest"
proof -
  define l where "l = t @ [CHR 0x0D]"
  have l: "stream st = l @ CHR 0x0A # rest" "CHR 0x0A \<notin> set l" "length l < len - 1"
    using st t len by (auto simp: wire_def l_def plain_text_def)
  obtain c cs where c: "stream st = c # cs" using l(1) by (cases l) auto
  obtain as where w: "(if ring_len (sk_read st) = 0 then await (sk_in st) else (False, sk_in st)) = (False, as)"
    "receiving (st\<lparr>sk_in := as\<rparr>)" "stream (st\<lparr>sk_in := as\<rparr>) = c # cs"
    using wait_line [OF r] c by fastforce
  obtain st1 where st1: "sgetc s (st\<lparr>sk_in := as\<rparr>) = Some (int (of_char c), st1)" "receiving st1" "stream st1 = cs"
    using sgetc_next [OF w(2) s w(3)] by blast
  have "c # stream st1 = l @ CHR 0x0A # rest" using l(1) c st1(3) by simp
  from sgets_loop_line [OF this l(2,3) st1(2) s, of "[]"] obtain i st2 where st2:
    "sgets_loop (len - 1) s (int (of_char c)) [] st1 = Some (i, l @ [CHR 0x0A], st2)" "0 \<le> i" "receiving st2" "stream st2 = rest"
    by auto
  have strip: "strip_line (l @ [CHR 0x0A]) = Some t"
  proof -
    have "takeWhile (\<lambda>c. c \<noteq> CHR 0x00) (l @ [CHR 0x0A]) = l @ [CHR 0x0A]"
      using t by (intro takeWhile_eq_all_conv [THEN iffD2]) (auto simp: l_def plain_text_def)
    moreover have "last l = CHR 0x0D" "butlast l = t" "l \<noteq> []" by (simp_all add: l_def)
    ultimately show ?thesis by (simp add: strip_line_def Let_def)
  qed
  have "sgets len s st = Some (Line (l @ [CHR 0x0A]), st2)"
    using len w(1) st1(1) st2(1,2) by (simp add: sgets_def)
  then show ?thesis using strip st2(3,4) by (simp add: sgets2_def)
qed




text \<open>
  Where the address of the buffer is not a positive number of 32 bits (half of the addresses of a
  64-bit program that is loaded at a random address), lines are read and none is processed.
\<close>

lemma lines_ignored:
  assumes "receiving st" and "0 \<le> s" and "stream st = wire t @ rest" and "plain_text t" and "length t + 2 < len"
    and "wrap32 (int addr) < 0"
  shows "\<exists>st'. hear addr len s st = Some (Nothing, st') \<and> stream st' = rest"
  using sgets2_line [OF assms(1-5), of addr] assms(6) by (auto simp: hear_def)

text \<open>
  After an error of read the buffer holds all the bytes it has ever held but the free one, although
  nothing has come.
\<close>

lemma read_error_replays:
  assumes "ring_ok r" and "rg_cur r = rg_end r" and "0 < rg_end r" and "as = RFail # as'"
  shows "\<exists>r'. fill w r as = Some (r', as') \<and> ring_len r' = NET_BUFSIZE - 1"
proof -
  define r' where "r' = r\<lparr>rg_end := rg_end r - 1\<rparr>"
  have nf: "\<not> ring_full r" using assms(1-3) by (simp add: ring_full_def)
  have full: "ring_full r'" using assms(2,3) by (simp add: ring_full_def r'_def)
  have "ring_ok r'" using assms(1) by (auto simp: ring_ok_def r'_def)
  then have "ring_len r' = NET_BUFSIZE - 1" using full ring_full_len by blast
  moreover have "fill False r' as' = Some (r', as')" using full by (simp add: fill.simps [of False r'])
  moreover have "fill w r as = fill False r' as'" using nf assms(3,4) by (simp add: fill.simps [of w r] r'_def)
  ultimately show ?thesis by auto
qed

text \<open>A line of nothing but a newline makes the stripping look in front of the buffer.\<close>

lemma strip_bare_newline: "strip_line [CHR 0x0A] = None"
  by (simp add: strip_line_def)

text \<open>When the buffer of the reader is full, the character read last is dropped.\<close>

lemma sgets_drops:
  assumes "receiving st" and "0 \<le> s" and "stream st = c # d # cs" and "c \<noteq> CHR 0x0A"
  shows "\<exists>st'. sgets 2 s st = Some (Line [c], st') \<and> stream st' = cs"
proof -
  obtain as where w: "(if ring_len (sk_read st) = 0 then await (sk_in st) else (False, sk_in st)) = (False, as)"
    "receiving (st\<lparr>sk_in := as\<rparr>)" "stream (st\<lparr>sk_in := as\<rparr>) = c # d # cs"
    using wait_line [OF assms(1)] assms(3) by fastforce
  obtain st1 where st1: "sgetc s (st\<lparr>sk_in := as\<rparr>) = Some (int (of_char c), st1)" "receiving st1" "stream st1 = d # cs"
    using sgetc_next [OF w(2) assms(2) w(3)] by blast
  obtain st2 where st2: "sgetc s st1 = Some (int (of_char d), st2)" "stream st2 = cs"
    using sgetc_next [OF st1(2) assms(2) st1(3)] by blast
  show ?thesis
    using w(1) st1(1) st2 assms(4) by (simp add: sgets_def char_byte_of)
qed


text \<open>
  \<open>buffered_read\<close> asked for more than there is, with the data ending at the top of the buffer, goes on
  with what stands at the bottom.
\<close>

lemma read_round_stale:
  assumes "ring_ok r" and "rg_cur r = NET_BUFSIZE - 1" and "rg_end r = 0"
  shows "map_option fst (read_round 2 r) = Some (queued r @ [rg_buf r ! 0])"
proof -
  have l: "length (rg_buf r) = NET_BUFSIZE" "rg_buf r \<noteq> []" using assms(1) NET_BUFSIZE_pos by (auto simp: ring_ok_def)
  have c: "rg_cur r + 2 \<ge> NET_BUFSIZE" "rg_end r < rg_cur r" "NET_BUFSIZE - rg_cur r = 1" "rg_cur r + 1 = NET_BUFSIZE"
    using assms(2,3) NET_BUFSIZE_pos by auto
  have one: "length (drop (rg_cur r) (rg_buf r)) = 1" using l(1) c by simp
  have p: "read_piece r 1 = Some (drop (rg_cur r) (rg_buf r), r\<lparr>rg_cur := NET_BUFSIZE\<rparr>)"
    using l(1) c(4) one by (simp add: read_piece_def)
  have q: "read_piece (r\<lparr>rg_cur := 0\<rparr>) 1 = Some ([rg_buf r ! 0], r\<lparr>rg_cur := 1\<rparr>)"
    using l NET_BUFSIZE_pos by (simp add: read_piece_def take_Suc hd_conv_nth)
  have "read_round 2 r = Some (drop (rg_cur r) (rg_buf r) @ [rg_buf r ! 0], r\<lparr>rg_cur := 1\<rparr>)"
    using p q one c assms(3) unfolding read_round_def by simp
  moreover have "queued r = drop (rg_cur r) (rg_buf r)" using c(2) assms(3) by (simp add: queued_def)
  ultimately show ?thesis by simp
qed

end
