(* ===== verification/Spec2Isabelle.thy ===== *)
theory Spec2Isabelle
  imports Misc Numlist Timestr Wildcard Dlink Masks NickServ Channels Akill Numquery Sessions News Servers UserOps Network Traffic Arrivals Process Protocol CsAccess Sockets
begin

text \<open>
  Blitzed IRC Services: a program that joins an IRC network as a server and keeps nicknames and
  channels registered for their owners.  The server tells it what happens (a user appears, joins,
  changes modes); the program keeps tables of the users and channels in use, holds what is
  registered in a MySQL database, and answers with commands of its own.

  \<^bold>\<open>Parts and theories\<close>, in the order of their imports:

  \<^item> Prelude: C strings as lists without a NUL, checked buffer writes, 32-bit wrap-around, and the
    lemmas on them that every other theory uses.
  \<^item> Misc, Numlist, Timestr: src/src/misc.c.  Case folding, comparison, copying, search and rot13;
    \<open>process_numlist\<close>; \<open>dotime\<close>, \<open>disect_time\<close>, \<open>merge_args\<close>, \<open>make_random_string\<close>.
  \<^item> Wildcard: \<open>match_wild\<close> and the database function \<open>IRC_MATCH\<close> (src/mysql/blitzed_udf.c), against
    the relation \<open>glob\<close>.
  \<^item> Dlink: src/src/tools.c, over an explicit store of nodes, as a refinement of sequences.
  \<^item> Users, Masks: the hash table of users in src/src/users.c, and its functions on masks.
  \<^item> Sql, Registry: the tables of src/mysql/blitzed.sql as lists of rows, and the statements that
    remove nicknames and channels and choose successors (nickserv.c, chanserv.c, operserv.c,
    autojoin.c).
  \<^item> NickCache: the cache of nickname status in src/src/cache.c, circular chains in a store, as a
    refinement of a map (locale \<open>status_cache\<close>).
  \<^item> Timeouts, NsTimers: src/src/timeout.c with its contract for the code of a timer (locale
    \<open>timeout_code\<close>), and the private list of timers in src/src/nickserv.c.
  \<^item> NickServ: status, recognition, validation, departure, timers and expiry of nicknames.
  \<^item> Access: the rights of users on channels in src/src/chanserv.c, and expiry of channels.
  \<^item> CsAccess: the commands on the access lists of channels (src/src/cs_access.c) as lawful changes of
    numbered lists.  The callback of a list of numbers reads its arguments from a shared \<open>va_list\<close>
    (\<open>with_args\<close>); how the platform passes one, and what two variables hold that are never set, is
    the argument \<open>platform\<close>.
  \<^item> Chantab, Chanmode, Channels: src/src/channels.c with the functions of chanserv.c it calls:
    the channel table, MODE commands and the mode lock, joining and leaving, topics, and the
    periodic work on limits and bans.  \<open>HASH_chan\<close> is the hash of a name that is not empty; \<open>HASH_mem\<close>
    is the macro as it reads the memory.
  \<^item> Akill: automatic kills (src/src/akill.c), the check of a new user and the AKILL command.
  \<^item> Numquery: \<open>mysql_build_query\<close> of src/src/mysql.c, which writes a list of numbers as a condition.
  \<^item> Sessions: the limit on the users of a host (src/src/sessions.c), its exceptions and the EXCEPTION
    command, with a relation of the connections and departures that a run consists of.  A host stands
    in its statements as the code writes it, without escapes (\<open>sql_literal\<close>); a statement longer than
    the buffer of src/src/mysql.c is cut (\<open>arrives_whole\<close>).
  \<^item> News: the news shown to users and operators (src/src/news.c) and the commands that edit it.
  \<^item> Servers: the list of servers and the tree of hubs and leaves (src/src/servers.c), records with
    pointers in a store, as a refinement of trees.

  \<^item> UserOps: the messages of the server about users (src/src/users.c): NICK, JOIN, SJOIN, PART, KICK,
    MODE of a user, QUIT and KILL.
  \<^item> Process: cutting of a line (src/src/process.c), the table of messages with its handlers
    (src/src/messages.c), the users to be ignored, and the introduction of the services (init.c).
  \<^item> Sockets: the ring buffers on the socket of the server and the reading of lines (src/src/sockutil.c)
    and how the main loop takes a line (\<open>hear\<close>, src/src/main.c).  What select, read and write answer is
    a script of moments, so that polling and waiting differ; the address of the line buffer is an
    argument, since the main loop sees it cut to an \<open>int\<close>.
  \<^item> Network, Traffic, Arrivals: the invariant of the whole state, that is users, channels, tables, sessions and
    servers (\<open>net_good\<close>), and for every operation of UserOps that it returns, keeps the invariant, and changes
    who is online and who is where (\<open>online\<close>) as the message says and the checks decide: who is turned
    away (\<open>turned_away\<close>, by automatic kills and session limits) and who is kept out of a channel
    (\<open>barred\<close>, by autokicks, the level for staying out, and forbidden channels), both read off the state before the message.
  \<^item> Protocol: lines as events, and the services as a system that simulates the abstract network in
    every run (locale \<open>event_system\<close>).  What an event does is given by \<open>shift\<close>, from the network and the
    verdicts in that state (\<open>verdicts_of\<close>).  The lines that may be sent are \<open>legal\<close> ones: no empty name of
    a channel, no quote or backslash in a host, at most two signs of rank.

  \<^bold>\<open>State.\<close>  \<open>ns_state\<close> holds the database, the cache, the users online, the timers, and the
  messages sent so far; \<open>cs_state\<close> adds the channels in use, and \<open>os_state\<close> the tables of automatic kills,
  sessions and exceptions; \<open>net_state\<close> adds the servers and the counts of users, and
  \<open>proc_state\<close> the ignored users.  A user in a channel is the number of
  its record (\<open>u_uid\<close>, standing for the pointer), so that a pointer to a record that has been freed
  is a number that no user online has.  A function that follows such a pointer, or a null pointer,
  gives \<open>None\<close>; theorems state that the result is \<open>Some\<close>.  The time, random numbers and
  configuration values are arguments.

  \<^bold>\<open>Integers\<close> are words where bits matter (flags, counters), and \<open>int\<close> or \<open>nat\<close> with the
  wrap-around of the C type written out (\<open>wrap32\<close>, \<open>to_uint32\<close>, \<open>usub\<close>) elsewhere.

  \<^bold>\<open>Loops.\<close>  Loops over lists are structural recursion.  The loops that follow links (\<open>check_loop\<close>,
  \<open>rem_loop\<close>, \<open>del_loop\<close>, those of the cache) and the mutual recursion of \<open>check_modes\<close> and \<open>do_cmode\<close>
  are partial functions into options, and the theorems show that they return; no fuel is used.

  \<^bold>\<open>Lemmas.\<close>  Each theory has its operations first, then a layer that computes their results
  (collected in \<open>cstr_simps\<close>, \<open>nc_simps\<close>, \<open>ns_simps\<close>, \<open>access_simps\<close>, \<open>chan_simps\<close> and others), then the
  properties, labelled C1, C2 and so on, each with a theorem that applies it to a concrete state.

  \<^bold>\<open>Not modelled\<close>: the other commands of users to NickServ and ChanServ, which parse words, call the modelled
  operations and print (they are arguments of \<open>process\<close>); memos, help and quarantine; connection,
  start-up and logging.  The lines that the properties of Protocol speak of do not include messages
  to the services.
  Memory statistics and debugging output are left out everywhere.
\<close>

end
